(* ===== verification/Prelude.thy ===== *)
theory Prelude
  imports
    "HOL-Library.Word"
    "HOL-Library.AList"
    "HOL-Library.Multiset"
begin

section \<open>Shared vocabulary of the serviced development\<close>

text \<open>
  What every component uses: Go's 64-bit machine integers, Go maps as association
  lists, the comparison sort of package \<^verbatim>\<open>sort\<close>, and the generic lemmas on
  them. A Go map is an association list with distinct keys whose order stands for one
  possible iteration order of the map, so that a theorem about all such lists is a
  theorem about all iteration orders.
\<close>

named_theorems gomap_simps \<open>rewriting of Go map operations\<close>
named_theorems ssm_defs \<open>unfolding of the service state manager's operations\<close>

type_synonym u64 = "64 word"
type_synonym i64 = "64 word"
type_synonym ('k, 'v) gomap = "('k \<times> 'v) list"

subsection \<open>Go maps\<close>

definition gset :: "'k \<Rightarrow> 'v \<Rightarrow> ('k, 'v) gomap \<Rightarrow> ('k, 'v) gomap" where
  "gset k v m = AList.update k v m"

definition gdel :: "'k \<Rightarrow> ('k, 'v) gomap \<Rightarrow> ('k, 'v) gomap" where
  "gdel k m = AList.delete k m"

abbreviation keys :: "('k, 'v) gomap \<Rightarrow> 'k list" where
  "keys m \<equiv> map fst m"

abbreviation wf_map :: "('k, 'v) gomap \<Rightarrow> bool" where
  "wf_map m \<equiv> distinct (map fst m)"

subsection \<open>The comparison sort of package sort\<close>

text \<open>
  \<^verbatim>\<open>sort.Sort\<close> on a short slice is an insertion sort driven by \<^verbatim>\<open>Less\<close>: each
  element moves left past the elements that it is less than.
\<close>

fun go_insert :: "('a \<Rightarrow> 'a \<Rightarrow> bool) \<Rightarrow> 'a \<Rightarrow> 'a list \<Rightarrow> 'a list" where
  "go_insert lt x [] = [x]"
| "go_insert lt x (y # ys) =
     (if lt x y then x # y # ys else y # go_insert lt x ys)"

definition go_sort :: "('a \<Rightarrow> 'a \<Rightarrow> bool) \<Rightarrow> 'a list \<Rightarrow> 'a list" where
  "go_sort lt xs = fold (go_insert lt) xs []"

subsection \<open>Laws of Go maps\<close>

locale finite_map =
  fixes lookup :: "'m \<Rightarrow> 'k \<Rightarrow> 'v option"
    and set_key :: "'k \<Rightarrow> 'v \<Rightarrow> 'm \<Rightarrow> 'm"
    and del_key :: "'k \<Rightarrow> 'm \<Rightarrow> 'm"
    and invar :: "'m \<Rightarrow> bool"
  assumes lookup_set: "lookup (set_key k v m) = (lookup m)(k \<mapsto> v)"
    and lookup_del: "lookup (del_key k m) = (lookup m)(k := None)"
    and invar_set: "invar m \<Longrightarrow> invar (set_key k v m)"
    and invar_del: "invar m \<Longrightarrow> invar (del_key k m)"
begin

lemma lookup_fold_del:
  "lookup (fold del_key ks m) k = (if k \<in> set ks then None else lookup m k)"
  by (induction ks arbitrary: m) (auto simp: lookup_del)

lemma invar_fold_del: "invar m \<Longrightarrow> invar (fold del_key ks m)"
  by (induction ks arbitrary: m) (auto simp: invar_del)

lemma lookup_fold_set:
  "lookup (fold (\<lambda>(k, v). set_key k v) ps m) k =
     (case map_of (rev ps) k of None \<Rightarrow> lookup m k | Some v \<Rightarrow> Some v)"
  by (induction ps arbitrary: m)
    (auto simp: lookup_set map_add_def split: option.splits)

lemma invar_fold_set: "invar m \<Longrightarrow> invar (fold (\<lambda>(k, v). set_key k v) ps m)"
  by (induction ps arbitrary: m) (auto simp: invar_set)

end

interpretation gomap: finite_map map_of gset gdel wf_map
proof (unfold_locales, goal_cases)
  case (1 k v m)
  show ?case by (simp add: gset_def update_conv')
next
  case (2 k m)
  show ?case by (simp add: gdel_def delete_conv')
next
  case (3 m k v)
  then show ?case by (simp add: gset_def distinct_update)
next
  case (4 m k)
  then show ?case by (simp add: gdel_def distinct_delete)
qed

lemmas gomap_laws [simp, gomap_simps] =
  gomap.lookup_set gomap.lookup_del gomap.invar_set gomap.invar_del

lemma gset_Nil [simp, gomap_simps]: "gset k v [] = [(k, v)]"
  by (simp add: gset_def)

lemma gdel_Nil [simp, gomap_simps]: "gdel k [] = []"
  by (simp add: gdel_def)

lemma gset_Cons [gomap_simps]:
  "gset k v (p # ps) = (if fst p = k then (k, v) # ps else p # gset k v ps)"
  by (cases p) (simp add: gset_def)

lemma gdel_Cons [gomap_simps]:
  "gdel k (p # ps) = (if fst p = k then gdel k ps else p # gdel k ps)"
  by (cases p) (simp add: gdel_def)

lemma gset_new: "k \<notin> set (keys m) \<Longrightarrow> gset k v m = m @ [(k, v)]"
  by (induction m) (auto simp: gset_Cons)

lemma gdel_filter: "gdel k m = filter (\<lambda>p. fst p \<noteq> k) m"
  by (induction m) (auto simp: gdel_Cons)

lemma keys_gset [simp, gomap_simps]: "set (keys (gset k v m)) = insert k (set (keys m))"
  by (induction m) (auto simp: gset_Cons)

lemma keys_gdel [simp, gomap_simps]: "set (keys (gdel k m)) = set (keys m) - {k}"
  by (auto simp: gdel_filter)

lemma set_gdel: "set (gdel k m) \<subseteq> set m"
  by (auto simp: gdel_filter)

lemma map_of_eq_None_keys: "map_of m k = None \<longleftrightarrow> k \<notin> set (keys m)"
  by (simp add: map_of_eq_None_iff)

lemma map_of_Some_keys: "map_of m k = Some v \<Longrightarrow> k \<in> set (keys m)"
  by (metis map_of_eq_None_keys option.distinct(1))

subsection \<open>Laws of the comparison sort\<close>

lemma mset_go_insert [simp]: "mset (go_insert lt x xs) = add_mset x (mset xs)"
  by (induction xs) auto

lemma mset_fold_go_insert: "mset (fold (go_insert lt) xs acc) = mset xs + mset acc"
  by (induction xs arbitrary: acc) auto

lemma mset_go_sort [simp]: "mset (go_sort lt xs) = mset xs"
  by (simp add: go_sort_def mset_fold_go_insert)

lemma set_go_sort [simp]: "set (go_sort lt xs) = set xs"
  by (metis mset_go_sort set_mset_mset)

lemma length_go_sort [simp]: "length (go_sort lt xs) = length xs"
  by (metis mset_go_sort size_mset)

lemma go_sort_Nil_iff [simp]: "go_sort lt xs = [] \<longleftrightarrow> xs = []"
  by (metis length_0_conv length_go_sort)

lemma distinct_map_go_sort [simp]:
  "distinct (map f (go_sort lt xs)) = distinct (map f xs)"
  by (rule mset_eq_imp_distinct_iff) simp

text \<open>
  \<^verbatim>\<open>sort.Sort\<close> orders a slice only when \<^verbatim>\<open>Less\<close> is a strict weak order. Every
  \<^verbatim>\<open>Less\<close> method of the development is shown to be one.
\<close>

locale strict_weak_order =
  fixes lt :: "'a \<Rightarrow> 'a \<Rightarrow> bool"
  assumes irrefl: "\<not> lt x x"
    and trans: "lt x y \<Longrightarrow> lt y z \<Longrightarrow> lt x z"
    and incomparable: "\<not> lt x y \<Longrightarrow> \<not> lt y z \<Longrightarrow> \<not> lt x z"
begin

abbreviation ordered :: "'a list \<Rightarrow> bool" where
  "ordered \<equiv> sorted_wrt (\<lambda>x y. \<not> lt y x)"

lemma asym: "lt x y \<Longrightarrow> \<not> lt y x"
  using irrefl trans by blast

lemma ordered_go_insert: "ordered xs \<Longrightarrow> ordered (go_insert lt x xs)"
proof (induction xs)
  case Nil
  then show ?case by simp
next
  case (Cons y ys)
  have members: "set (go_insert lt x ys) = insert x (set ys)"
    by (metis mset_go_insert set_mset_add_mset_insert set_mset_mset)
  show ?case
  proof (cases "lt x y")
    case True
    with Cons.prems show ?thesis
      by (auto dest: asym trans)
  next
    case False
    with Cons members show ?thesis by auto
  qed
qed

lemma ordered_fold_go_insert: "ordered acc \<Longrightarrow> ordered (fold (go_insert lt) xs acc)"
  by (induction xs arbitrary: acc) (auto simp: ordered_go_insert)

lemma ordered_go_sort: "ordered (go_sort lt xs)"
  by (simp add: go_sort_def ordered_fold_go_insert)

end

text \<open>A comparison through a key into a linear order is a strict weak order.\<close>

lemma key_strict_weak_order:
  fixes key :: "'a \<Rightarrow> 'b::linorder"
  shows "strict_weak_order (\<lambda>x y. key x < key y)"
  by unfold_locales auto

lemma rev_key_strict_weak_order:
  fixes key :: "'a \<Rightarrow> 'b::linorder"
  shows "strict_weak_order (\<lambda>x y. key y < key x)"
  by unfold_locales auto

subsection \<open>Grouping by a key\<close>

text \<open>
  The abstract result of grouping a multiset by a key: one group per key value, in
  increasing order of the keys. A list of groups that are non-empty, uniform in the key
  and strictly increasing is this result, whatever produced it.
\<close>

definition groups_by :: "('a \<Rightarrow> 'b::linorder) \<Rightarrow> 'a multiset \<Rightarrow> 'a multiset list" where
  "groups_by f M = map (\<lambda>v. filter_mset (\<lambda>x. f x = v) M) (sorted_list_of_set (f ` set_mset M))"

lemma filter_mset_none: "(\<And>x. x \<in># M \<Longrightarrow> \<not> P x) \<Longrightarrow> filter_mset P M = {#}"
  by (simp add: filter_mset_eq_conv)

lemma filter_mset_all: "(\<And>x. x \<in># M \<Longrightarrow> P x) \<Longrightarrow> filter_mset P M = M"
  by (simp add: filter_mset_eq_conv)

lemma grouped_filter:
  assumes "\<forall>g \<in> set gs. \<forall>x \<in> set g. f x = (k g :: 'b::linorder)"
    and "sorted_wrt (<) (map k gs)"
  shows "map mset gs = map (\<lambda>v. filter_mset (\<lambda>x. f x = v) (mset (concat gs))) (map k gs)"
  using assms
proof (induction gs)
  case Nil
  then show ?case by simp
next
  case (Cons g gs)
  have less: "k g < k g'" if "g' \<in> set gs" for g'
    using Cons.prems(2) that by simp
  have own: "filter_mset (\<lambda>x. f x = k g) (mset g) = mset g"
    using Cons.prems(1) by (intro filter_mset_all) simp
  have others: "filter_mset (\<lambda>x. f x = k g) (mset (concat gs)) = {#}"
    using Cons.prems(1) less by (intro filter_mset_none) fastforce
  have tail: "filter_mset (\<lambda>x. f x = k g') (mset g) = {#}" if "g' \<in> set gs" for g'
    using Cons.prems(1) less [OF that] by (intro filter_mset_none) auto
  have IH: "map mset gs = map (\<lambda>v. filter_mset (\<lambda>x. f x = v) (mset (concat gs))) (map k gs)"
    using Cons.IH Cons.prems by simp
  then show ?case
    using own others tail by simp
qed

lemma groups_by_unique:
  fixes k :: "'a list \<Rightarrow> 'b::linorder"
  assumes "\<forall>g \<in> set gs. g \<noteq> [] \<and> (\<forall>x \<in> set g. f x = k g)"
    and "sorted_wrt (<) (map k gs)"
  shows "map mset gs = groups_by f (mset (concat gs))"
proof -
  have "f ` set_mset (mset (concat gs)) = set (map k gs)"
    using assms(1) by (auto simp: image_iff) (metis list.set_intros(1) neq_Nil_conv)
  moreover have "sorted_list_of_set (set (map k gs)) = map k gs"
    using assms(2)
    by (metis sorted_list_of_set.idem_if_sorted_distinct strict_sorted_iff)
  ultimately show ?thesis
    using grouped_filter [of gs f k] assms by (simp add: groups_by_def)
qed

end
