(* ===== verification/Service_Model.thy ===== *)
theory Service_Model
  imports Prelude
begin

section \<open>The service entity and its state names\<close>

text \<open>
  The part of \<^verbatim>\<open>domain/service/service.go\<close> that the other components share: the
  desired states, the current states and the tables that relate them, and the
  \<^verbatim>\<open>Service\<close> record with its endpoints. A \<^verbatim>\<open>DesiredState\<close> is a Go \<^verbatim>\<open>int\<close> and a
  \<^verbatim>\<open>ServiceCurrentState\<close> a Go \<^verbatim>\<open>string\<close>; both stay open types here, so that the
  \<^verbatim>\<open>default\<close> branches of the tables are reachable. The record keeps the fields that the
  modelled operations read or write.
\<close>

subsection \<open>Desired states\<close>

type_synonym DesiredState = int

definition SVCRestart :: DesiredState where [simp]: "SVCRestart = - 1"
definition SVCStop :: DesiredState where [simp]: "SVCStop = 0"
definition SVCRun :: DesiredState where [simp]: "SVCRun = 1"
definition SVCPause :: DesiredState where [simp]: "SVCPause = 2"

definition ToAuditAction :: "DesiredState \<Rightarrow> string" where
  "ToAuditAction state =
     (if state = SVCRestart then ''restart''
      else if state = SVCStop then ''stop''
      else if state = SVCRun then ''start''
      else if state = SVCPause then ''pause''
      else ''unknown'')"

definition DesiredState_String :: "DesiredState \<Rightarrow> string" where
  "DesiredState_String state =
     (if state = SVCRestart then ''restart''
      else if state = SVCStop then ''stop''
      else if state = SVCRun then ''go''
      else if state = SVCPause then ''pause''
      else ''unknown'')"

subsection \<open>Current states\<close>

type_synonym ServiceCurrentState = string

definition SVCCSUnknown :: ServiceCurrentState where [simp]: "SVCCSUnknown = ''unknown''"
definition SVCCSStopped :: ServiceCurrentState where [simp]: "SVCCSStopped = ''stopped''"
definition SVCCSPendingStart :: ServiceCurrentState where
  [simp]: "SVCCSPendingStart = ''pending_start''"
definition SVCCSStarting :: ServiceCurrentState where [simp]: "SVCCSStarting = ''starting''"
definition SVCCSRunning :: ServiceCurrentState where [simp]: "SVCCSRunning = ''started''"
definition SVCCSPendingRestart :: ServiceCurrentState where
  [simp]: "SVCCSPendingRestart = ''pending_restart''"
definition SVCCSRestarting :: ServiceCurrentState where [simp]: "SVCCSRestarting = ''restarting''"
definition SVCCSPendingStop :: ServiceCurrentState where
  [simp]: "SVCCSPendingStop = ''pending_stop''"
definition SVCCSStopping :: ServiceCurrentState where [simp]: "SVCCSStopping = ''stopping''"
definition SVCCSPendingPause :: ServiceCurrentState where
  [simp]: "SVCCSPendingPause = ''pending_pause''"
definition SVCCSPausing :: ServiceCurrentState where [simp]: "SVCCSPausing = ''pausing''"
definition SVCCSPaused :: ServiceCurrentState where [simp]: "SVCCSPaused = ''paused''"
definition SVCCSPendingEmergencyStop :: ServiceCurrentState where
  [simp]: "SVCCSPendingEmergencyStop = ''pending_emergency_stop''"
definition SVCCSEmergencyStopping :: ServiceCurrentState where
  [simp]: "SVCCSEmergencyStopping = ''emergency_stopping''"
definition SVCCSEmergencyStopped :: ServiceCurrentState where
  [simp]: "SVCCSEmergencyStopped = ''emergency_stopped''"

definition serviceCurrentStates :: "ServiceCurrentState list" where
  "serviceCurrentStates =
     [SVCCSUnknown, SVCCSStopped, SVCCSPendingStart, SVCCSStarting, SVCCSRunning,
      SVCCSPendingRestart, SVCCSRestarting, SVCCSPendingStop, SVCCSStopping,
      SVCCSPendingPause, SVCCSPausing, SVCCSPaused, SVCCSPendingEmergencyStop,
      SVCCSEmergencyStopping, SVCCSEmergencyStopped]"

text \<open>\<^verbatim>\<open>Validate\<close> returns nil exactly when the state is one of the table.\<close>

definition CurrentState_Validate :: "ServiceCurrentState \<Rightarrow> string + unit" where
  "CurrentState_Validate state =
     (if state \<in> set serviceCurrentStates then Inr () else Inl ''invalid current state'')"

subsection \<open>Tables between desired and current states\<close>

definition DesiredToCurrentPendingState :: "DesiredState \<Rightarrow> bool \<Rightarrow> ServiceCurrentState" where
  "DesiredToCurrentPendingState state emergency =
     (if state = SVCRestart then SVCCSPendingRestart
      else if state = SVCStop then
        (if emergency then SVCCSPendingEmergencyStop else SVCCSPendingStop)
      else if state = SVCRun then SVCCSPendingStart
      else if state = SVCPause then SVCCSPendingPause
      else SVCCSUnknown)"

definition DesiredToCurrentTransitionState :: "DesiredState \<Rightarrow> bool \<Rightarrow> ServiceCurrentState" where
  "DesiredToCurrentTransitionState state emergency =
     (if state = SVCRestart then SVCCSRestarting
      else if state = SVCStop then
        (if emergency then SVCCSEmergencyStopping else SVCCSStopping)
      else if state = SVCRun then SVCCSStarting
      else if state = SVCPause then SVCCSPausing
      else SVCCSUnknown)"

definition DesiredToCurrentFinalState :: "DesiredState \<Rightarrow> bool \<Rightarrow> ServiceCurrentState" where
  "DesiredToCurrentFinalState state emergency =
     (if state = SVCRestart then SVCCSRunning
      else if state = SVCStop then
        (if emergency then SVCCSEmergencyStopped else SVCCSStopped)
      else if state = SVCRun then SVCCSRunning
      else if state = SVCPause then SVCCSPaused
      else SVCCSUnknown)"

definition DesiredCancelsPending :: "ServiceCurrentState \<Rightarrow> DesiredState \<Rightarrow> bool" where
  "DesiredCancelsPending pendingState desiredState =
     (if pendingState = SVCCSPendingStart \<or> pendingState = SVCCSPendingRestart
      then desiredState = SVCRun
      else if pendingState = SVCCSPendingStop \<or> pendingState = SVCCSPendingPause
      then desiredState = SVCStop
      else False)"

definition DesiredStateIsRedundant ::
    "DesiredState \<Rightarrow> bool \<Rightarrow> ServiceCurrentState \<Rightarrow> bool" where
  "DesiredStateIsRedundant desiredState emergency currentState =
     (if desiredState = SVCRun then
        currentState = SVCCSRunning \<or> currentState = SVCCSStarting
          \<or> currentState = SVCCSPendingStart
      else if desiredState = SVCRestart then
        currentState = SVCCSRestarting \<or> currentState = SVCCSPendingRestart
      else if desiredState = SVCStop then
        (if emergency then
           currentState = SVCCSEmergencyStopped \<or> currentState = SVCCSEmergencyStopping
             \<or> currentState = SVCCSPendingEmergencyStop
         else
           currentState = SVCCSStopped \<or> currentState = SVCCSStopping
             \<or> currentState = SVCCSPendingStop)
      else if desiredState = SVCPause then
        currentState = SVCCSPaused \<or> currentState = SVCCSPausing
          \<or> currentState = SVCCSPendingPause
      else False)"

subsection \<open>Endpoints and services\<close>

text \<open>A nil slice of endpoints is \<^term>\<open>None\<close>; an empty one is \<open>Some []\<close>.\<close>

record AddressResourceConfig =
  arc_Port :: "16 word"
  arc_Protocol :: string

record VHost =
  vhost_Name :: string
  vhost_Enabled :: bool

record Port =
  port_PortAddr :: string
  port_Enabled :: bool
  port_UseTLS :: bool
  port_Protocol :: string

record AddressAssignment =
  aa_ID :: string
  aa_AssignmentType :: string
  aa_HostID :: string
  aa_PoolID :: string
  aa_IPAddr :: string
  aa_Port :: "16 word"
  aa_ServiceID :: string
  aa_EndpointName :: string

record ServiceEndpoint =
  ep_Name :: string
  ep_Purpose :: string
  ep_Protocol :: string
  ep_PortNumber :: "16 word"
  ep_Application :: string
  ep_ApplicationTemplate :: string
  ep_AddressConfig :: AddressResourceConfig
  ep_VHostList :: "VHost list"
  ep_AddressAssignment :: AddressAssignment
  ep_PortList :: "Port list"

record MinMax =
  mm_Min :: int
  mm_Max :: int
  mm_Default :: int

record Service =
  svc_ID :: string
  svc_Name :: string
  svc_Launch :: string
  svc_PoolID :: string
  svc_ParentServiceID :: string
  svc_Instances :: int
  svc_InstanceLimits :: MinMax
  svc_DesiredState :: DesiredState
  svc_CurrentState :: ServiceCurrentState
  svc_HostPolicy :: string
  svc_ChangeOptions :: "string list"
  svc_Endpoints :: "ServiceEndpoint list option"
  svc_StartLevel :: u64
  svc_EmergencyShutdownLevel :: u64
  svc_EmergencyShutdown :: bool
  svc_CPUCommitment :: u64
  svc_RAMCommitment :: u64
  svc_DeploymentID :: string
  svc_DatabaseVersion :: int

subsection \<open>What the tables promise\<close>

lemmas state_tables =
  DesiredToCurrentPendingState_def DesiredToCurrentTransitionState_def
  DesiredToCurrentFinalState_def DesiredCancelsPending_def DesiredStateIsRedundant_def

text \<open>
  A request is redundant exactly when the service is already at one of the three
  stages of that request (pending, in transition, reached), except that a restart is
  never redundant because the service is running.
\<close>

theorem redundant_iff_stage:
  assumes "ds \<in> {SVCRestart, SVCStop, SVCRun, SVCPause}"
  shows "DesiredStateIsRedundant ds em cs \<longleftrightarrow>
     cs = DesiredToCurrentPendingState ds em \<or> cs = DesiredToCurrentTransitionState ds em
     \<or> (ds \<noteq> SVCRestart \<and> cs = DesiredToCurrentFinalState ds em)"
  using assms by (auto simp: state_tables)

theorem redundant_iff_stage_witness:
  "DesiredStateIsRedundant SVCRun False ''starting'' \<and>
   \<not> DesiredStateIsRedundant SVCRestart False ''started''"
proof -
  have run: "SVCRun \<in> {SVCRestart, SVCStop, SVCRun, SVCPause}"
    and restart: "SVCRestart \<in> {SVCRestart, SVCStop, SVCRun, SVCPause}" by simp_all
  show ?thesis
    using redundant_iff_stage [OF run, of False "''starting''"]
      redundant_iff_stage [OF restart, of False "''started''"]
    by (simp add: state_tables)
qed

text \<open>The tables only ever produce states that \<^verbatim>\<open>Validate\<close> accepts.\<close>

lemma state_tables_valid:
  "CurrentState_Validate (DesiredToCurrentPendingState ds em) = Inr ()"
  "CurrentState_Validate (DesiredToCurrentTransitionState ds em) = Inr ()"
  "CurrentState_Validate (DesiredToCurrentFinalState ds em) = Inr ()"
  by (simp_all add: state_tables CurrentState_Validate_def serviceCurrentStates_def)

text \<open>A pending state determines the request it belongs to.\<close>

lemma pending_state_inj:
  assumes "ds \<in> {SVCRestart, SVCStop, SVCRun, SVCPause}"
    and "ds' \<in> {SVCRestart, SVCStop, SVCRun, SVCPause}"
    and "DesiredToCurrentPendingState ds em = DesiredToCurrentPendingState ds' em'"
  shows "ds = ds' \<and> (ds = SVCStop \<longrightarrow> em = em')"
  using assms by (auto simp: state_tables split: if_splits)

end
