(* ===== verification/SSM_Batch.thy ===== *)
theory SSM_Batch
  imports Service_Model "HOL-Library.Product_Lexorder"
begin

section \<open>Batches of the service state manager\<close>

text \<open>
  \<^verbatim>\<open>scheduler/servicestatemanager/servicestatemanager.go\<close>, first part: cancellable
  services, batches, the three sort orders and \<^verbatim>\<open>MergeBatches\<close>. Batches hold pointers to
  cancellable services that the caller, the queue and waiting goroutines share, so a
  pointer is a reference into an explicit store. The cancel channel of a cancellable
  service is only ever closed; it is a flag.
\<close>

type_synonym ref = nat

record CancellableService =
  cs_Service :: Service
  cs_cancelled :: bool

record CStore =
  cells :: "ref \<Rightarrow> CancellableService"
  next_ref :: ref

record ServiceStateChangeBatch =
  b_Services :: "(string, ref) gomap"
  b_DesiredState :: DesiredState
  b_Emergency :: bool

datatype ssm_error =
    ErrBadTenantID
  | ErrDuplicateTenantID
  | ErrBatchQueueEmpty
  | ErrMismatchedDesiredStates
  | ErrMissingQueue
  | ErrWaitTimeout
  | ErrNotRunning
  | ErrAlreadyStarted
  | FacadeError string
  | PanicIndexOutOfRange
  | PanicCloseOfClosedChannel
  | PanicCloseOfNilChannel
  | PanicNilDereference

subsection \<open>Cancellable services\<close>

text \<open>\<^verbatim>\<open>NewCancellableService\<close> allocates a cell whose channel is open.\<close>

definition NewCancellableService :: "Service \<Rightarrow> CStore \<Rightarrow> CStore \<times> ref" where
  "NewCancellableService svc st =
     (st\<lparr>cells := (cells st)(next_ref st := \<lparr>cs_Service = svc, cs_cancelled = False\<rparr>),
         next_ref := Suc (next_ref st)\<rparr>, next_ref st)"

definition CancellableService_Cancel :: "ref \<Rightarrow> CStore \<Rightarrow> CStore" where
  "CancellableService_Cancel r st =
     st\<lparr>cells := (cells st)(r := (cells st r)\<lparr>cs_cancelled := True\<rparr>)\<rparr>"

definition Batch_Cancel :: "ServiceStateChangeBatch \<Rightarrow> CStore \<Rightarrow> CStore" where
  "Batch_Cancel b st = fold (\<lambda>(_, r). CancellableService_Cancel r) (b_Services b) st"

abbreviation svc_at :: "CStore \<Rightarrow> ref \<Rightarrow> Service" where
  "svc_at st r \<equiv> cs_Service (cells st r)"

abbreviation cancelled_at :: "CStore \<Rightarrow> ref \<Rightarrow> bool" where
  "cancelled_at st r \<equiv> cs_cancelled (cells st r)"

subsection \<open>Sort orders\<close>

text \<open>
  The levels are Go \<^verbatim>\<open>uint\<close>s, so \<^verbatim>\<open>level - 1\<close> of the undefined level 0 wraps around
  to the largest value.
\<close>

definition ByEmergencyShutdown_Less :: "CStore \<Rightarrow> ref \<Rightarrow> ref \<Rightarrow> bool" where
  "ByEmergencyShutdown_Less st i j =
     (if svc_EmergencyShutdownLevel (svc_at st i) = svc_EmergencyShutdownLevel (svc_at st j)
      then svc_StartLevel (svc_at st i) - 1 > svc_StartLevel (svc_at st j) - 1
      else svc_EmergencyShutdownLevel (svc_at st i) - 1
             < svc_EmergencyShutdownLevel (svc_at st j) - 1)"

definition ByStartLevel_Less :: "CStore \<Rightarrow> ref \<Rightarrow> ref \<Rightarrow> bool" where
  "ByStartLevel_Less st i j =
     (svc_StartLevel (svc_at st i) - 1 < svc_StartLevel (svc_at st j) - 1)"

definition ByReverseStartLevel_Less :: "CStore \<Rightarrow> ref \<Rightarrow> ref \<Rightarrow> bool" where
  "ByReverseStartLevel_Less st i j =
     (svc_StartLevel (svc_at st i) - 1 > svc_StartLevel (svc_at st j) - 1)"

subsection \<open>MergeBatches\<close>

fun collect_services ::
    "DesiredState \<Rightarrow> bool \<Rightarrow> ServiceStateChangeBatch list \<Rightarrow> ref list \<Rightarrow> ssm_error + ref list" where
  "collect_services ds em [] full = Inr full"
| "collect_services ds em (b # bs) full =
     (if b_DesiredState b \<noteq> ds \<or> b_Emergency b \<noteq> em then Inl ErrMismatchedDesiredStates
      else collect_services ds em bs (full @ map snd (b_Services b)))"

definition sort_services :: "CStore \<Rightarrow> DesiredState \<Rightarrow> bool \<Rightarrow> ref list \<Rightarrow> ref list" where
  "sort_services st ds em full =
     (if ds = SVCRun then go_sort (ByStartLevel_Less st) full
      else if ds = SVCStop \<and> em then go_sort (ByEmergencyShutdown_Less st) full
      else if ds = SVCStop then go_sort (ByReverseStartLevel_Less st) full
      else if ds = SVCRestart then go_sort (ByStartLevel_Less st) full
      else if ds = SVCPause then go_sort (ByReverseStartLevel_Less st) full
      else full)"

definition sameBatch :: "DesiredState \<Rightarrow> bool \<Rightarrow> u64 \<Rightarrow> u64 \<Rightarrow> u64 \<Rightarrow> u64 \<Rightarrow> bool" where
  "sameBatch ds em curE curS prevE prevS =
     (if em \<and> ds = SVCStop then
        (if curE = prevE \<and> curE = 0 then curS = prevS else curE = prevE)
      else curS = prevS)"

fun regroup ::
    "CStore \<Rightarrow> DesiredState \<Rightarrow> bool \<Rightarrow> u64 \<Rightarrow> u64 \<Rightarrow> (string, ref) gomap \<Rightarrow>
     ServiceStateChangeBatch list \<Rightarrow> ref list \<Rightarrow> ServiceStateChangeBatch list" where
  "regroup st ds em prevE prevS newSvcs newBatches [] =
     newBatches @ [\<lparr>b_Services = newSvcs, b_DesiredState = ds, b_Emergency = em\<rparr>]"
| "regroup st ds em prevE prevS newSvcs newBatches (r # rs) =
     (let curE = svc_EmergencyShutdownLevel (svc_at st r);
          curS = svc_StartLevel (svc_at st r)
      in if sameBatch ds em curE curS prevE prevS
         then regroup st ds em curE curS (gset (svc_ID (svc_at st r)) r newSvcs) newBatches rs
         else regroup st ds em curE curS [(svc_ID (svc_at st r), r)]
                (newBatches @ [\<lparr>b_Services = newSvcs, b_DesiredState = ds, b_Emergency = em\<rparr>]) rs)"

definition MergeBatches ::
    "CStore \<Rightarrow> ServiceStateChangeBatch list \<Rightarrow> ssm_error + ServiceStateChangeBatch list" where
  "MergeBatches st batches =
     (case batches of
        [] \<Rightarrow> Inr []
      | b # _ \<Rightarrow>
          (case collect_services (b_DesiredState b) (b_Emergency b) batches [] of
             Inl e \<Rightarrow> Inl e
           | Inr full \<Rightarrow>
               (case sort_services st (b_DesiredState b) (b_Emergency b) full of
                  [] \<Rightarrow> Inl PanicIndexOutOfRange
                | r # rs \<Rightarrow>
                    Inr (regroup st (b_DesiredState b) (b_Emergency b)
                           (svc_EmergencyShutdownLevel (svc_at st r))
                           (svc_StartLevel (svc_at st r)) [] [] (r # rs)))))"

subsection \<open>The sort orders are strict weak orders\<close>

interpretation start_level: strict_weak_order "ByStartLevel_Less st" for st
  unfolding ByStartLevel_Less_def by (rule key_strict_weak_order)

interpretation reverse_start_level: strict_weak_order "ByReverseStartLevel_Less st" for st
  unfolding ByReverseStartLevel_Less_def by (rule rev_key_strict_weak_order)

interpretation emergency_level: strict_weak_order "ByEmergencyShutdown_Less st" for st
  by unfold_locales (auto simp: ByEmergencyShutdown_Less_def split: if_splits)

subsection \<open>The rank of a service in a batch order\<close>

text \<open>
  The specification of the batch order: services are processed by increasing rank, and
  services of the same rank together. The wrapped \<open>level - 1\<close> puts level 0 last in
  the increasing orders and first in the decreasing one.
\<close>

definition rank :: "CStore \<Rightarrow> DesiredState \<Rightarrow> bool \<Rightarrow> ref \<Rightarrow> int \<times> int" where
  "rank st ds em r =
     (let e = svc_EmergencyShutdownLevel (svc_at st r); s = svc_StartLevel (svc_at st r)
      in if ds = SVCStop \<and> em then (uint (e - 1), if e = 0 then - uint (s - 1) else 0)
         else if ds = SVCStop \<or> ds = SVCPause then (- uint (s - 1), 0)
         else (uint (s - 1), 0))"

definition batch_rank :: "CStore \<Rightarrow> ServiceStateChangeBatch \<Rightarrow> int \<times> int" where
  "batch_rank st b = rank st (b_DesiredState b) (b_Emergency b) (snd (hd (b_Services b)))"

lemma uint_pred_eq_iff [simp]:
  fixes a b :: "'a::len word"
  shows "uint (a - 1) = uint (b - 1) \<longleftrightarrow> a = b"
    and "uint (- 1 :: 'a word) = uint (a - 1) \<longleftrightarrow> a = 0"
    and "uint (a - 1) = uint (- 1 :: 'a word) \<longleftrightarrow> a = 0"
  by (metis add_diff_cancel_right' diff_add_cancel word_uint_eqI)
    (metis diff_0 diff_add_cancel word_uint_eqI add.right_neutral add.commute)+

lemma sameBatch_rank:
  "sameBatch ds em (svc_EmergencyShutdownLevel (svc_at st r)) (svc_StartLevel (svc_at st r))
      (svc_EmergencyShutdownLevel (svc_at st p)) (svc_StartLevel (svc_at st p))
    \<longleftrightarrow> rank st ds em r = rank st ds em p"
  by (auto simp: sameBatch_def rank_def Let_def)

abbreviation known_state :: "DesiredState \<Rightarrow> bool" where
  "known_state ds \<equiv> ds \<in> {SVCRestart, SVCStop, SVCRun, SVCPause}"

lemma sorted_rank_sort_services:
  assumes "known_state ds"
  shows "sorted (map (rank st ds em) (sort_services st ds em full))"
proof -
  have "sorted_wrt (\<lambda>x y. rank st ds em x \<le> rank st ds em y) (sort_services st ds em full)"
  proof (rule sorted_wrt_mono_rel)
    let ?lt = "if ds = SVCRun \<or> ds = SVCRestart then ByStartLevel_Less st
      else if ds = SVCStop \<and> em then ByEmergencyShutdown_Less st
      else ByReverseStartLevel_Less st"
    show "sorted_wrt (\<lambda>x y. \<not> ?lt y x) (sort_services st ds em full)"
      using assms start_level.ordered_go_sort [of st full]
        reverse_start_level.ordered_go_sort [of st full]
        emergency_level.ordered_go_sort [of st full]
      by (auto simp: sort_services_def)
    show "rank st ds em x \<le> rank st ds em y" if "\<not> ?lt y x" for x y
      using assms that
      by (auto simp: rank_def Let_def ByStartLevel_Less_def ByEmergencyShutdown_Less_def
          ByReverseStartLevel_Less_def word_less_def not_less order_le_less
          less_prod_def split: if_splits)
  qed
  then show ?thesis by (simp add: sorted_map)
qed

subsection \<open>MergeBatches groups by rank\<close>

text \<open>A batch is keyed when every entry is filed under the ID of its service.\<close>

definition keyed :: "CStore \<Rightarrow> ServiceStateChangeBatch \<Rightarrow> bool" where
  "keyed st b \<longleftrightarrow> (\<forall>(k, r) \<in> set (b_Services b). svc_ID (svc_at st r) = k)"

definition leveled :: "CStore \<Rightarrow> DesiredState \<Rightarrow> bool \<Rightarrow> ServiceStateChangeBatch \<Rightarrow> bool" where
  "leveled st ds em b \<longleftrightarrow> b_Services b \<noteq> [] \<and> b_DesiredState b = ds \<and> b_Emergency b = em \<and>
     (\<forall>q \<in> set (b_Services b). rank st ds em (snd q) = batch_rank st b)"

abbreviation id_at :: "CStore \<Rightarrow> ref \<Rightarrow> string" where
  "id_at st r \<equiv> svc_ID (svc_at st r)"

lemma leveledI:
  assumes "ns \<noteq> []" and "\<forall>q \<in> set ns. rank st ds em (snd q) = v"
  shows "leveled st ds em \<lparr>b_Services = ns, b_DesiredState = ds, b_Emergency = em\<rparr> \<and>
    batch_rank st \<lparr>b_Services = ns, b_DesiredState = ds, b_Emergency = em\<rparr> = v"
  using assms by (cases ns) (auto simp: leveled_def batch_rank_def)

lemma leveledD:
  "leveled st ds em b \<Longrightarrow> b_Services b \<noteq> [] \<and> b_DesiredState b = ds \<and> b_Emergency b = em"
  by (simp add: leveled_def)

lemma leveled_rank:
  "leveled st ds em b \<Longrightarrow> q \<in> set (b_Services b) \<Longrightarrow> rank st ds em (snd q) = batch_rank st b"
  by (simp add: leveled_def)

lemma regroup_shape:
  assumes "sorted (rank st ds em p # map (rank st ds em) rs)"
    and "\<forall>q \<in> set ns. rank st ds em (snd q) = rank st ds em p" and "ns \<noteq> []"
    and "distinct (keys ns @ map (id_at st) rs)"
  shows "\<exists>X. regroup st ds em (svc_EmergencyShutdownLevel (svc_at st p)) (svc_StartLevel (svc_at st p))
        ns nbs rs = nbs @ X
    \<and> concat (map b_Services X) = ns @ map (\<lambda>r. (id_at st r, r)) rs
    \<and> (\<forall>b \<in> set X. leveled st ds em b) \<and> sorted_wrt (<) (map (batch_rank st) X)
    \<and> X \<noteq> [] \<and> batch_rank st (hd X) = rank st ds em p"
  using assms
proof (induction rs arbitrary: p ns nbs)
  case Nil
  then show ?case using leveledI [OF Nil.prems(3,2)] by simp
next
  case (Cons r rs)
  let ?b = "\<lparr>b_Services = ns, b_DesiredState = ds, b_Emergency = em\<rparr>"
  have b: "leveled st ds em ?b" "batch_rank st ?b = rank st ds em p"
    using leveledI [OF Cons.prems(3,2)] by simp_all
  have sorted: "sorted (rank st ds em r # map (rank st ds em) rs)"
    using Cons.prems(1) by simp
  show ?case
  proof (cases "rank st ds em r = rank st ds em p")
    case True
    have "\<exists>X. regroup st ds em (svc_EmergencyShutdownLevel (svc_at st r)) (svc_StartLevel (svc_at st r))
        (ns @ [(id_at st r, r)]) nbs rs = nbs @ X
      \<and> concat (map b_Services X) = (ns @ [(id_at st r, r)]) @ map (\<lambda>r. (id_at st r, r)) rs
      \<and> (\<forall>b \<in> set X. leveled st ds em b) \<and> sorted_wrt (<) (map (batch_rank st) X)
      \<and> X \<noteq> [] \<and> batch_rank st (hd X) = rank st ds em r"
      using sorted Cons.prems True by (intro Cons.IH) auto
    with True Cons.prems(4) show ?thesis
      by (simp add: sameBatch_rank Let_def gset_new)
  next
    case False
    have "\<exists>X. regroup st ds em (svc_EmergencyShutdownLevel (svc_at st r)) (svc_StartLevel (svc_at st r))
        [(id_at st r, r)] (nbs @ [?b]) rs = (nbs @ [?b]) @ X
      \<and> concat (map b_Services X) = [(id_at st r, r)] @ map (\<lambda>r. (id_at st r, r)) rs
      \<and> (\<forall>b \<in> set X. leveled st ds em b) \<and> sorted_wrt (<) (map (batch_rank st) X)
      \<and> X \<noteq> [] \<and> batch_rank st (hd X) = rank st ds em r"
      using sorted Cons.prems by (intro Cons.IH) auto
    then obtain X where X: "regroup st ds em (svc_EmergencyShutdownLevel (svc_at st r))
        (svc_StartLevel (svc_at st r)) [(id_at st r, r)] (nbs @ [?b]) rs = nbs @ ?b # X"
      "concat (map b_Services X) = (id_at st r, r) # map (\<lambda>r. (id_at st r, r)) rs"
      "\<forall>b \<in> set X. leveled st ds em b" "sorted_wrt (<) (map (batch_rank st) X)"
      "X \<noteq> []" "batch_rank st (hd X) = rank st ds em r"
      by auto
    have "rank st ds em p < rank st ds em r"
      using False Cons.prems(1) by (simp add: order_less_le)
    then have "sorted_wrt (<) (map (batch_rank st) (?b # X))"
      using X(4-6) b(2) by (cases X) (auto intro: less_trans)
    with X b False show ?thesis
      by (intro exI [of _ "?b # X"]) (simp add: sameBatch_rank Let_def)
  qed
qed

lemma collect_services_ok:
  assumes "\<forall>b \<in> set bs. b_DesiredState b = ds \<and> b_Emergency b = em"
  shows "collect_services ds em bs full = Inr (full @ map snd (concat (map b_Services bs)))"
  using assms by (induction bs arbitrary: full) auto

lemma collect_services_mismatch:
  assumes "\<exists>b \<in> set bs. b_DesiredState b \<noteq> ds \<or> b_Emergency b \<noteq> em"
  shows "collect_services ds em bs full = Inl ErrMismatchedDesiredStates"
  using assms by (induction bs arbitrary: full) auto

lemma mset_sort_services [simp]: "mset (sort_services st ds em full) = mset full"
  by (simp add: sort_services_def)

lemma map_id_keyed:
  assumes "\<forall>b \<in> set bs. keyed st b"
  shows "map (\<lambda>r. (id_at st r, r)) (map snd (concat (map b_Services bs)))
    = concat (map b_Services bs)"
proof -
  have "(id_at st (snd q), snd q) = q" if "q \<in> set (concat (map b_Services bs))" for q
    using assms that by (cases q) (auto simp: keyed_def)
  then show ?thesis by (simp only: map_map map_idI comp_def)
qed

lemma map_id_sorted:
  assumes "\<forall>b \<in> set bs. keyed st b"
  shows "mset (map (\<lambda>r. (id_at st r, r)) (sort_services st ds em (map snd (concat (map b_Services bs)))))
    = mset (concat (map b_Services bs))"
proof -
  let ?pair = "\<lambda>r. (id_at st r, r)" and ?all = "map snd (concat (map b_Services bs))"
  have "mset (map ?pair (sort_services st ds em ?all)) = mset (map ?pair ?all)"
    by (simp only: mset_map mset_sort_services)
  then show ?thesis by (simp only: map_id_keyed [OF assms])
qed

lemma MergeBatches_shape:
  assumes same: "\<forall>b \<in> set bs. b_DesiredState b = ds \<and> b_Emergency b = em"
    and keyed: "\<forall>b \<in> set bs. keyed st b"
    and dist: "distinct (keys (concat (map b_Services bs)))"
    and ne: "concat (map b_Services bs) \<noteq> []" and ds: "known_state ds"
  shows "\<exists>out. MergeBatches st bs = Inr out \<and> out \<noteq> []
    \<and> mset (concat (map b_Services out)) = mset (concat (map b_Services bs))
    \<and> (\<forall>b \<in> set out. leveled st ds em b) \<and> sorted_wrt (<) (map (batch_rank st) out)"
proof -
  obtain b bs' where bs: "bs = b # bs'" using ne by (cases bs) auto
  let ?full = "map snd (concat (map b_Services bs))"
  obtain r rs where rs: "sort_services st ds em ?full = r # rs"
    using ne mset_sort_services [of st ds em ?full]
    by (cases "sort_services st ds em ?full") auto
  note perm = map_id_sorted [OF keyed, of ds em, unfolded rs]
  have "distinct (map fst (map (\<lambda>r. (id_at st r, r)) (r # rs)))"
    using dist perm mset_eq_imp_distinct_iff
    by (metis (no_types, lifting) mset_map)
  then have dist': "distinct (keys [(id_at st r, r)] @ map (id_at st) rs)"
    by (simp add: comp_def)
  have "sorted (rank st ds em r # map (rank st ds em) rs)"
    using sorted_rank_sort_services [OF ds, of st em ?full] rs by simp
  from regroup_shape [OF this _ _ dist', of "[]"]
  obtain X where X: "regroup st ds em (svc_EmergencyShutdownLevel (svc_at st r)) (svc_StartLevel (svc_at st r))
        [] [] (r # rs) = X"
      "concat (map b_Services X) = map (\<lambda>r. (id_at st r, r)) (r # rs)"
      "\<forall>b \<in> set X. leveled st ds em b" "sorted_wrt (<) (map (batch_rank st) X)" "X \<noteq> []"
    by (auto simp: sameBatch_rank Let_def)
  have "MergeBatches st bs = Inr (regroup st ds em (svc_EmergencyShutdownLevel (svc_at st r))
      (svc_StartLevel (svc_at st r)) [] [] (r # rs))"
    using same collect_services_ok [OF same, of "[]"] rs
    by (simp add: MergeBatches_def bs)
  then have "MergeBatches st bs = Inr X" by (simp only: X(1))
  with X(2-5) perm show ?thesis by (intro exI [of _ X]) simp
qed

text \<open>
  \<^verbatim>\<open>MergeBatches\<close> of batches with one desired state and emergency flag regroups exactly
  the services it is given: one batch per rank, in increasing rank, each holding all and
  only the services of that rank. The result is fixed by the multiset of entries, so it
  depends neither on Go's map iteration order nor on how \<^verbatim>\<open>sort.Sort\<close> orders equal
  elements.
\<close>

theorem MergeBatches_groups:
  assumes "\<forall>b \<in> set bs. b_DesiredState b = ds \<and> b_Emergency b = em"
    and "\<forall>b \<in> set bs. keyed st b"
    and "distinct (keys (concat (map b_Services bs)))"
    and "concat (map b_Services bs) \<noteq> []" and "known_state ds"
  shows "\<exists>out. MergeBatches st bs = Inr out
    \<and> map (\<lambda>b. mset (b_Services b)) out
        = groups_by (\<lambda>q. rank st ds em (snd q)) (mset (concat (map b_Services bs)))
    \<and> (\<forall>b \<in> set out. b_DesiredState b = ds \<and> b_Emergency b = em)"
proof -
  obtain out where out: "MergeBatches st bs = Inr out"
    and mset: "mset (concat (map b_Services out)) = mset (concat (map b_Services bs))"
    and leveled: "\<forall>b \<in> set out. leveled st ds em b"
    and sorted: "sorted_wrt (<) (map (batch_rank st) out)"
    using MergeBatches_shape [OF assms] by blast
  let ?k = "\<lambda>g. rank st ds em (snd (hd g))"
  have rank: "batch_rank st b = ?k (b_Services b)" if "b \<in> set out" for b
    using leveledD [of st ds em b] leveled that by (simp add: batch_rank_def)
  have "map mset (map b_Services out)
      = groups_by (\<lambda>q. rank st ds em (snd q)) (mset (concat (map b_Services out)))"
  proof (rule groups_by_unique [where k = ?k])
    show "\<forall>g \<in> set (map b_Services out). g \<noteq> [] \<and> (\<forall>q \<in> set g. rank st ds em (snd q) = ?k g)"
    proof
      fix g
      assume "g \<in> set (map b_Services out)"
      then obtain b where b: "b \<in> set out" "g = b_Services b" by auto
      then have "leveled st ds em b" using leveled by simp
      then show "g \<noteq> [] \<and> (\<forall>q \<in> set g. rank st ds em (snd q) = ?k g)"
        using rank [OF b(1)] b(2) leveledD leveled_rank by fastforce
    qed
    have "map ?k (map b_Services out) = map (batch_rank st) out"
      using rank by simp
    then show "sorted_wrt (<) (map ?k (map b_Services out))"
      using sorted by (simp only:)
  qed
  with out mset leveled leveledD show ?thesis by (force simp: comp_def)
qed

subsection \<open>A worked example\<close>

definition sample_service :: "string \<Rightarrow> u64 \<Rightarrow> u64 \<Rightarrow> Service" where
  "sample_service i s e =
     \<lparr>svc_ID = i, svc_Name = i, svc_Launch = ''auto'', svc_PoolID = ''default'',
      svc_ParentServiceID = '''', svc_Instances = 1,
      svc_InstanceLimits = \<lparr>mm_Min = 0, mm_Max = 0, mm_Default = 0\<rparr>,
      svc_DesiredState = 0, svc_CurrentState = ''stopped'', svc_HostPolicy = '''',
      svc_ChangeOptions = [], svc_Endpoints = None, svc_StartLevel = s,
      svc_EmergencyShutdownLevel = e, svc_EmergencyShutdown = False,
      svc_CPUCommitment = 0, svc_RAMCommitment = 0,
      svc_DeploymentID = '''', svc_DatabaseVersion = 0\<rparr>"

text \<open>Three services: level 0, level 2 and level 1.\<close>

definition sample_store :: CStore where
  "sample_store = \<lparr>cells = (\<lambda>r. \<lparr>cs_Service =
       (if r = 0 then sample_service ''a'' 0 0
        else if r = 1 then sample_service ''b'' 2 0 else sample_service ''c'' 1 0),
     cs_cancelled = False\<rparr>), next_ref = 3\<rparr>"

definition sample_batch :: "DesiredState \<Rightarrow> ServiceStateChangeBatch" where
  "sample_batch ds = \<lparr>b_Services = [(''a'', 0), (''b'', 1), (''c'', 2)], b_DesiredState = ds,
     b_Emergency = False\<rparr>"

lemmas sample_defs = sample_service_def sample_store_def sample_batch_def keyed_def

theorem MergeBatches_groups_witness:
  "\<exists>out. MergeBatches sample_store [sample_batch SVCRun] = Inr out
    \<and> map (\<lambda>b. mset (b_Services b)) out = groups_by (\<lambda>q. rank sample_store SVCRun False (snd q))
        {#(''a'', 0), (''b'', 1), (''c'', 2)#}"
  using MergeBatches_groups [of "[sample_batch SVCRun]" SVCRun False sample_store]
  by (auto simp: sample_defs)

subsection \<open>The documented order of levels\<close>

text \<open>
  \<open>earlier a b\<close>: level \<open>a\<close> comes before level \<open>b\<close> where the undefined level 0 comes
  after every defined level.
\<close>

definition earlier :: "u64 \<Rightarrow> u64 \<Rightarrow> bool" where
  "earlier a b \<longleftrightarrow> a \<noteq> 0 \<and> (b = 0 \<or> a < b)"

lemma earlier_pred: "uint (a - 1) < uint (b - 1) \<longleftrightarrow> earlier a b"
  unfolding earlier_def word_less_def [symmetric] by unat_arith

lemma Less_earlier:
  "ByStartLevel_Less st i j \<longleftrightarrow> earlier (svc_StartLevel (svc_at st i)) (svc_StartLevel (svc_at st j))"
  "ByReverseStartLevel_Less st i j \<longleftrightarrow>
     earlier (svc_StartLevel (svc_at st j)) (svc_StartLevel (svc_at st i))"
  by (simp_all add: ByStartLevel_Less_def ByReverseStartLevel_Less_def word_less_def earlier_pred)

text \<open>
  C22. The order the Service entity documents: across the batches of one merge, a lower
  start level starts first and level 0 last; stopping and pausing run in the reverse
  order; in an emergency stop a lower emergency level stops first, level 0 last and
  there in reverse start order.
\<close>

theorem MergeBatches_order:
  assumes "\<forall>b \<in> set bs. b_DesiredState b = ds \<and> b_Emergency b = em"
    and "\<forall>b \<in> set bs. keyed st b"
    and "distinct (keys (concat (map b_Services bs)))"
    and "concat (map b_Services bs) \<noteq> []" and "known_state ds"
    and "MergeBatches st bs = Inr out" and "i < j" and "j < length out"
    and "(a, r) \<in> set (b_Services (out ! i))" and "(b, q) \<in> set (b_Services (out ! j))"
  shows "if ds = SVCStop \<and> em
    then earlier (svc_EmergencyShutdownLevel (svc_at st r)) (svc_EmergencyShutdownLevel (svc_at st q))
      \<or> svc_EmergencyShutdownLevel (svc_at st r) = 0 \<and> svc_EmergencyShutdownLevel (svc_at st q) = 0
        \<and> earlier (svc_StartLevel (svc_at st q)) (svc_StartLevel (svc_at st r))
    else if ds = SVCStop \<or> ds = SVCPause
    then earlier (svc_StartLevel (svc_at st q)) (svc_StartLevel (svc_at st r))
    else earlier (svc_StartLevel (svc_at st r)) (svc_StartLevel (svc_at st q))"
proof -
  have leveled: "\<forall>b \<in> set out. leveled st ds em b"
    and sorted: "sorted_wrt (<) (map (batch_rank st) out)"
    using MergeBatches_shape [OF assms(1-5)] assms(6) by auto
  have "batch_rank st (out ! i) < batch_rank st (out ! j)"
    using sorted assms(7,8) by (simp add: sorted_wrt_iff_nth_less)
  moreover have "rank st ds em r = batch_rank st (out ! i)"
    using leveled_rank [of st ds em "out ! i" "(a, r)"] leveled assms(7-9) by simp
  moreover have "rank st ds em q = batch_rank st (out ! j)"
    using leveled_rank [of st ds em "out ! j" "(b, q)"] leveled assms(8,10) by simp
  ultimately have "rank st ds em r < rank st ds em q" by simp
  then show ?thesis
    by (auto simp: rank_def Let_def less_prod_def earlier_pred order_le_less split: if_splits)
qed

theorem MergeBatches_order_witness:
  "MergeBatches sample_store [sample_batch SVCRun] =
     Inr [(sample_batch SVCRun)\<lparr>b_Services := [(''c'', 2)]\<rparr>,
          (sample_batch SVCRun)\<lparr>b_Services := [(''b'', 1)]\<rparr>,
          (sample_batch SVCRun)\<lparr>b_Services := [(''a'', 0)]\<rparr>]
   \<and> earlier 1 0"
proof -
  have merged: "MergeBatches sample_store [sample_batch SVCRun] =
     Inr [(sample_batch SVCRun)\<lparr>b_Services := [(''c'', 2)]\<rparr>,
          (sample_batch SVCRun)\<lparr>b_Services := [(''b'', 1)]\<rparr>,
          (sample_batch SVCRun)\<lparr>b_Services := [(''a'', 0)]\<rparr>]"
    by (simp add: MergeBatches_def sort_services_def go_sort_def Less_earlier earlier_def
        sameBatch_def sample_defs Let_def)
  show ?thesis
    using merged MergeBatches_order [OF _ _ _ _ _ merged, of SVCRun False 0 2 "''c''" 2 "''a''" 0]
    by (simp add: sample_defs)
qed

text \<open>
  The failures of \<^verbatim>\<open>MergeBatches\<close>, on every input: batches that disagree with the
  first one in state or emergency flag are refused with \<^verbatim>\<open>ErrMismatchedDesiredStates\<close>, and
  batches that agree but hold no service at all reach \<^verbatim>\<open>fullServiceList[0]\<close> on an empty
  slice, which panics.
\<close>

theorem MergeBatches_failure:
  "MergeBatches st (b # bs) = Inl e \<longleftrightarrow>
     (e = ErrMismatchedDesiredStates \<and>
        (\<exists>b' \<in> set bs. b_DesiredState b' \<noteq> b_DesiredState b \<or> b_Emergency b' \<noteq> b_Emergency b))
     \<or> (e = PanicIndexOutOfRange \<and>
        (\<forall>b' \<in> set (b # bs). b_DesiredState b' = b_DesiredState b \<and> b_Emergency b' = b_Emergency b
           \<and> b_Services b' = []))"
proof (cases "\<forall>b' \<in> set bs. b_DesiredState b' = b_DesiredState b \<and> b_Emergency b' = b_Emergency b")
  case True
  let ?full = "map snd (concat (map b_Services (b # bs)))"
  let ?sorted = "sort_services st (b_DesiredState b) (b_Emergency b) ?full"
  have collect: "collect_services (b_DesiredState b) (b_Emergency b) (b # bs) [] = Inr ?full"
    using collect_services_ok [of "b # bs" "b_DesiredState b" "b_Emergency b" "[]"] True by simp
  have "?sorted = [] \<longleftrightarrow> ?full = []"
    by (metis mset_sort_services mset_zero_iff)
  then have empty: "?sorted = [] \<longleftrightarrow> (\<forall>b' \<in> set (b # bs). b_Services b' = [])"
    by simp
  show ?thesis
    using True empty collect
    by (cases ?sorted) (auto simp del: collect_services.simps simp: MergeBatches_def)
next
  case False
  then have "collect_services (b_DesiredState b) (b_Emergency b) (b # bs) []
      = Inl ErrMismatchedDesiredStates"
    by (intro collect_services_mismatch) auto
  with False show ?thesis by (auto simp: MergeBatches_def)
qed

theorem MergeBatches_failure_witness:
  "MergeBatches sample_store [sample_batch SVCRun, sample_batch SVCStop]
      = Inl ErrMismatchedDesiredStates
   \<and> MergeBatches sample_store [(sample_batch SVCRun)\<lparr>b_Services := []\<rparr>] = Inl PanicIndexOutOfRange"
  unfolding MergeBatches_failure by (simp add: sample_defs)

end
