(* ===== verification/SSM_Queue.thy ===== *)
theory SSM_Queue
  imports SSM_Batch
begin

section \<open>Service state queues\<close>

text \<open>
  \<^verbatim>\<open>scheduler/servicestatemanager/servicestatemanager.go\<close>, second part: one
  \<^verbatim>\<open>ServiceStateQueue\<close> with its pending batches and its current batch, the reconciliation
  of a new batch against them, the two merges and \<^verbatim>\<open>getNextBatch\<close>. Each operation runs
  under the queue's lock, so it is one function from queue to queue. The \<^verbatim>\<open>Changed\<close>
  channel only wakes the queue loop and holds no data.
\<close>

record ServiceStateQueue =
  q_BatchQueue :: "ServiceStateChangeBatch list"
  q_CurrentBatch :: ServiceStateChangeBatch

definition empty_batch :: ServiceStateChangeBatch where
  "empty_batch = \<lparr>b_Services = [], b_DesiredState = 0, b_Emergency = False\<rparr>"

definition NewServiceStateQueue :: ServiceStateQueue where
  "NewServiceStateQueue = \<lparr>q_BatchQueue = [], q_CurrentBatch = empty_batch\<rparr>"

definition Queue_Cancel :: "ServiceStateQueue \<Rightarrow> CStore \<Rightarrow> CStore" where
  "Queue_Cancel q st = fold Batch_Cancel (q_BatchQueue q) st"

subsection \<open>Reconciling a new batch with a queued one\<close>

record reconciliation =
  rc_store :: CStore
  rc_old :: "(string, ref) gomap"
  rc_new :: "(string, ref) gomap"
  rc_expedited :: "(string, ref) gomap"
  rc_cancelled :: "string list"

definition reconcile_one ::
    "ServiceStateChangeBatch \<Rightarrow> ServiceStateChangeBatch \<Rightarrow> string \<times> ref \<Rightarrow>
     reconciliation \<Rightarrow> reconciliation" where
  "reconcile_one b newBatch p a =
     (let id = fst p; newSvc = snd p in
      case map_of (rc_old a) id of
        Some oldsvc \<Rightarrow>
          (if b_Emergency b \<and> \<not> b_Emergency newBatch then
             a\<lparr>rc_store := CancellableService_Cancel newSvc (rc_store a)\<rparr>
           else if b_Emergency b \<and> b_DesiredState b = b_DesiredState newBatch then
             a\<lparr>rc_store := CancellableService_Cancel newSvc (rc_store a)\<rparr>
           else if b_Emergency b \<and> b_DesiredState b = SVCStop then
             a\<lparr>rc_store := CancellableService_Cancel newSvc (rc_store a)\<rparr>
           else if b_Emergency newBatch then
             a\<lparr>rc_old := gdel id (rc_old a),
               rc_store := CancellableService_Cancel oldsvc (rc_store a),
               rc_new := gset id newSvc (rc_new a)\<rparr>
           else if b_DesiredState b \<noteq> b_DesiredState newBatch then
             (if DesiredCancelsPending
                   (DesiredToCurrentPendingState (b_DesiredState b) (b_Emergency b))
                   (b_DesiredState newBatch)
              then a\<lparr>rc_old := gdel id (rc_old a),
                     rc_store := CancellableService_Cancel oldsvc (rc_store a),
                     rc_cancelled := rc_cancelled a @ [svc_ID (svc_at (rc_store a) newSvc)]\<rparr>
              else a\<lparr>rc_old := gdel id (rc_old a),
                     rc_store := CancellableService_Cancel oldsvc (rc_store a),
                     rc_new := gset id newSvc (rc_new a)\<rparr>)
           else
             a\<lparr>rc_old := gdel id (rc_old a),
               rc_expedited := gset id oldsvc (rc_expedited a),
               rc_store := CancellableService_Cancel newSvc (rc_store a)\<rparr>)
      | None \<Rightarrow> a\<lparr>rc_new := gset id newSvc (rc_new a)\<rparr>)"

text \<open>
  \<^verbatim>\<open>b.reconcile(newBatch)\<close> deletes from the shared map of the queued batch \<open>b\<close>, so the
  updated \<open>b\<close> is part of the result.
\<close>

definition reconcile ::
    "CStore \<Rightarrow> ServiceStateChangeBatch \<Rightarrow> ServiceStateChangeBatch \<Rightarrow>
     CStore \<times> ServiceStateChangeBatch \<times> ServiceStateChangeBatch \<times> (string, ref) gomap \<times> string list"
    where
  "reconcile st b newBatch =
     (let a = fold (reconcile_one b newBatch) (b_Services newBatch)
            \<lparr>rc_store = st, rc_old = b_Services b, rc_new = [], rc_expedited = [], rc_cancelled = []\<rparr>
      in (rc_store a, b\<lparr>b_Services := rc_old a\<rparr>, newBatch\<lparr>b_Services := rc_new a\<rparr>,
          rc_expedited a, rc_cancelled a))"

fun reconcile_batches ::
    "CStore \<Rightarrow> ServiceStateChangeBatch list \<Rightarrow> ServiceStateChangeBatch \<Rightarrow>
     ServiceStateChangeBatch list \<Rightarrow> (string, ref) gomap \<Rightarrow> string list \<Rightarrow>
     CStore \<times> ServiceStateChangeBatch list \<times> ServiceStateChangeBatch \<times> (string, ref) gomap \<times> string list"
    where
  "reconcile_batches st [] updated newBatchQueue expedited cancelledIDs =
     (st, newBatchQueue, updated, expedited, cancelledIDs)"
| "reconcile_batches st (batch # bs) updated newBatchQueue expedited cancelledIDs =
     (case reconcile st batch updated of
        (st', batch', updated', ex, ca) \<Rightarrow>
          reconcile_batches st' bs updated'
            (if b_Services batch' \<noteq> [] then newBatchQueue @ [batch'] else newBatchQueue)
            (fold (\<lambda>(k, v). gset k v) ex expedited)
            (cancelledIDs @ ca))"

definition reconcileWithBatchQueue ::
    "CStore \<Rightarrow> ServiceStateQueue \<Rightarrow> ServiceStateChangeBatch \<Rightarrow>
     CStore \<times> ServiceStateQueue \<times> ServiceStateChangeBatch \<times> ServiceStateChangeBatch \<times> string list" where
  "reconcileWithBatchQueue st q new =
     (case reconcile_batches st (q_BatchQueue q) new [] [] [] of
        (st', newBatchQueue, updated, expedited, cancelledIDs) \<Rightarrow>
          (st', q\<lparr>q_BatchQueue := newBatchQueue\<rparr>, updated,
           new\<lparr>b_Services := expedited\<rparr>, cancelledIDs))"

definition pending_one ::
    "ServiceStateChangeBatch \<Rightarrow> ServiceStateChangeBatch \<Rightarrow> string \<times> ref \<Rightarrow>
     CStore \<times> (string, ref) gomap \<Rightarrow> CStore \<times> (string, ref) gomap" where
  "pending_one b newBatch p acc =
     (let id = fst p; newSvc = snd p; st = fst acc; svcs = snd acc in
      case map_of (b_Services b) id of
        Some oldsvc \<Rightarrow>
          (if b_Emergency b \<and> \<not> b_Emergency newBatch then
             (CancellableService_Cancel newSvc st, svcs)
           else if b_Emergency b \<and> b_DesiredState b = b_DesiredState newBatch then
             (CancellableService_Cancel newSvc st, svcs)
           else if b_Emergency b \<and> b_DesiredState b = SVCStop then
             (CancellableService_Cancel newSvc st, svcs)
           else if b_Emergency newBatch then
             (CancellableService_Cancel oldsvc st, gset id newSvc svcs)
           else if b_DesiredState b \<noteq> b_DesiredState newBatch then
             (CancellableService_Cancel oldsvc st, gset id newSvc svcs)
           else
             (CancellableService_Cancel newSvc st, svcs))
      | None \<Rightarrow> (st, gset id newSvc svcs))"

definition reconcileWithPendingBatch ::
    "CStore \<Rightarrow> ServiceStateQueue \<Rightarrow> ServiceStateChangeBatch \<Rightarrow> CStore \<times> ServiceStateChangeBatch" where
  "reconcileWithPendingBatch st q newBatch =
     (case fold (pending_one (q_CurrentBatch q) newBatch) (b_Services newBatch) (st, []) of
        (st', svcs) \<Rightarrow> (st', newBatch\<lparr>b_Services := svcs\<rparr>))"

subsection \<open>Merging into the queue\<close>

abbreviation same_kind :: "ServiceStateChangeBatch \<Rightarrow> ServiceStateChangeBatch \<Rightarrow> bool" where
  "same_kind b b' \<equiv> b_DesiredState b = b_DesiredState b' \<and> b_Emergency b = b_Emergency b'"

text \<open>
  \<open>emergency_count\<close> is \<^verbatim>\<open>lastEmergencyBatch + 1\<close>: the number of emergency batches with the
  new desired state at the front of the queue. \<open>lastBatchToMerge\<close> scans backwards from the
  end of the queue.
\<close>

fun emergency_count :: "ServiceStateChangeBatch \<Rightarrow> ServiceStateChangeBatch list \<Rightarrow> nat" where
  "emergency_count newBatch [] = 0"
| "emergency_count newBatch (batch # bs) =
     (if b_Emergency batch \<and> b_DesiredState batch = b_DesiredState newBatch
      then Suc (emergency_count newBatch bs) else 0)"

fun lastBatchToMerge :: "ServiceStateChangeBatch \<Rightarrow> ServiceStateChangeBatch list \<Rightarrow> nat \<Rightarrow> nat" where
  "lastBatchToMerge newBatch bq 0 = 0"
| "lastBatchToMerge newBatch bq (Suc i) =
     (if same_kind (bq ! i) newBatch then lastBatchToMerge newBatch bq i else Suc i)"

function mergeEmergencyBatch ::
    "CStore \<Rightarrow> ServiceStateQueue \<Rightarrow> ServiceStateChangeBatch \<Rightarrow> ssm_error + ServiceStateQueue"
  and mergeBatch ::
    "CStore \<Rightarrow> ServiceStateQueue \<Rightarrow> ServiceStateChangeBatch \<Rightarrow> ssm_error + ServiceStateQueue" where
  "mergeEmergencyBatch st q newBatch =
     (if \<not> b_Emergency newBatch then mergeBatch st q newBatch
      else (let n = emergency_count newBatch (q_BatchQueue q) in
        case MergeBatches st (take n (q_BatchQueue q) @ [newBatch]) of
          Inl e \<Rightarrow> Inl e
        | Inr emergencyBatches \<Rightarrow>
            Inr (q\<lparr>q_BatchQueue := emergencyBatches @ drop n (q_BatchQueue q)\<rparr>)))"
| "mergeBatch st q newBatch =
     (if b_Emergency newBatch then mergeEmergencyBatch st q newBatch
      else (let i = lastBatchToMerge newBatch (q_BatchQueue q) (length (q_BatchQueue q)) in
        case MergeBatches st (drop i (q_BatchQueue q) @ [newBatch]) of
          Inl e \<Rightarrow> Inl e
        | Inr newBatches \<Rightarrow> Inr (q\<lparr>q_BatchQueue := take i (q_BatchQueue q) @ newBatches\<rparr>)))"
  by pat_completeness auto
termination
  by (relation "measure (\<lambda>x. case x of Inl (st, q, b) \<Rightarrow> (if b_Emergency b then 0 else 1)
                                     | Inr (st, q, b) \<Rightarrow> (if b_Emergency b then 1 else 0))") auto

declare mergeEmergencyBatch.simps [simp del] mergeBatch.simps [simp del]

subsection \<open>Taking the next batch\<close>

definition getNextBatch ::
    "ServiceStateQueue \<Rightarrow> ServiceStateQueue \<times> (ssm_error + ServiceStateChangeBatch)" where
  "getNextBatch q =
     (case q_BatchQueue q of
        b # bs \<Rightarrow> (q\<lparr>q_BatchQueue := bs,
                    q_CurrentBatch := \<lparr>b_Services = b_Services b, b_DesiredState = b_DesiredState b,
                                       b_Emergency = b_Emergency b\<rparr>\<rparr>, Inr b)
      | [] \<Rightarrow> (q\<lparr>q_CurrentBatch := empty_batch\<rparr>, Inl ErrBatchQueueEmpty))"

definition find_in_queue :: "ServiceStateQueue \<Rightarrow> string \<Rightarrow> ref option" where
  "find_in_queue q serviceID =
     (case List.find (\<lambda>b. serviceID \<in> set (keys (b_Services b))) (q_BatchQueue q) of
        Some b \<Rightarrow> map_of (b_Services b) serviceID
      | None \<Rightarrow> map_of (b_Services (q_CurrentBatch q)) serviceID)"

subsection \<open>Cancelling a list of services\<close>

definition cancel_all :: "ref list \<Rightarrow> CStore \<Rightarrow> CStore" where
  "cancel_all rs st = fold CancellableService_Cancel rs st"

lemma cancel_all_append: "cancel_all (rs @ qs) st = cancel_all qs (cancel_all rs st)"
  by (simp add: cancel_all_def)

lemma cancel_all_Nil [simp]: "cancel_all [] st = st"
  by (simp add: cancel_all_def)

lemma svc_at_Cancel [simp]: "svc_at (CancellableService_Cancel r st) q = svc_at st q"
  by (simp add: CancellableService_Cancel_def)

lemma next_ref_Cancel [simp]: "next_ref (CancellableService_Cancel r st) = next_ref st"
  by (simp add: CancellableService_Cancel_def)

lemma cancelled_at_Cancel [simp]:
  "cancelled_at (CancellableService_Cancel r st) q = (q = r \<or> cancelled_at st q)"
  by (simp add: CancellableService_Cancel_def)

lemma svc_at_cancel_all [simp]: "svc_at (cancel_all rs st) q = svc_at st q"
  unfolding cancel_all_def by (induction rs arbitrary: st) simp_all

lemma next_ref_cancel_all [simp]: "next_ref (cancel_all rs st) = next_ref st"
  unfolding cancel_all_def by (induction rs arbitrary: st) simp_all

lemma cancelled_at_cancel_all [simp]:
  "cancelled_at (cancel_all rs st) q = (q \<in> set rs \<or> cancelled_at st q)"
  unfolding cancel_all_def by (induction rs arbitrary: st) auto

lemma Batch_Cancel_all: "Batch_Cancel b st = cancel_all (map snd (b_Services b)) st"
  by (simp add: Batch_Cancel_def cancel_all_def fold_map comp_def case_prod_unfold)

lemma Queue_Cancel_all:
  "Queue_Cancel q st = cancel_all (map snd (concat (map b_Services (q_BatchQueue q)))) st"
proof -
  have "fold Batch_Cancel bs st = cancel_all (map snd (concat (map b_Services bs))) st" for bs
    by (induction bs arbitrary: st) (simp_all add: Batch_Cancel_all cancel_all_append)
  then show ?thesis by (simp add: Queue_Cancel_def)
qed

subsection \<open>The outcome of a reconciliation\<close>

text \<open>
  What happens to a service that is both in the queued batch \<open>b\<close> and in the new batch
  \<open>n\<close> depends only on the two batches' states and emergency flags: the new request is
  dropped, it replaces the queued one, both are withdrawn, or the queued one is
  expedited.
\<close>

datatype decision = DropNew | ReplaceOld | CancelPending | ExpediteOld

definition decide :: "ServiceStateChangeBatch \<Rightarrow> ServiceStateChangeBatch \<Rightarrow> decision" where
  "decide b n =
     (if b_Emergency b \<and> (\<not> b_Emergency n \<or> b_DesiredState b \<in> {b_DesiredState n, SVCStop})
      then DropNew
      else if b_Emergency n then ReplaceOld
      else if b_DesiredState b = b_DesiredState n then ExpediteOld
      else if DesiredCancelsPending
                (DesiredToCurrentPendingState (b_DesiredState b) (b_Emergency b)) (b_DesiredState n)
      then CancelPending
      else ReplaceOld)"

abbreviation in_batch :: "ServiceStateChangeBatch \<Rightarrow> string \<times> ref \<Rightarrow> bool" where
  "in_batch b p \<equiv> fst p \<in> set (keys (b_Services b))"

definition kept_old :: "ServiceStateChangeBatch \<Rightarrow> ServiceStateChangeBatch \<Rightarrow> (string, ref) gomap" where
  "kept_old b n = (if decide b n = DropNew then b_Services b
     else filter (\<lambda>p. \<not> in_batch n p) (b_Services b))"

definition kept_new :: "ServiceStateChangeBatch \<Rightarrow> ServiceStateChangeBatch \<Rightarrow> (string, ref) gomap" where
  "kept_new b n = (if decide b n = ReplaceOld then b_Services n
     else filter (\<lambda>p. \<not> in_batch b p) (b_Services n))"

definition expedited_entries ::
    "ServiceStateChangeBatch \<Rightarrow> ServiceStateChangeBatch \<Rightarrow> (string, ref) gomap" where
  "expedited_entries b n = (if decide b n = ExpediteOld
     then map (\<lambda>p. (fst p, the (map_of (b_Services b) (fst p)))) (filter (in_batch b) (b_Services n))
     else [])"

definition cancelled_entries ::
    "CStore \<Rightarrow> ServiceStateChangeBatch \<Rightarrow> ServiceStateChangeBatch \<Rightarrow> string list" where
  "cancelled_entries st b n = (if decide b n = CancelPending
     then map (\<lambda>p. id_at st (snd p)) (filter (in_batch b) (b_Services n)) else [])"

definition cancelled_refs :: "ServiceStateChangeBatch \<Rightarrow> ServiceStateChangeBatch \<Rightarrow> ref list" where
  "cancelled_refs b n =
     map (\<lambda>p. if decide b n \<in> {DropNew, ExpediteOld} then snd p
              else the (map_of (b_Services b) (fst p)))
       (filter (in_batch b) (b_Services n))"

lemma map_of_filter_keys:
  "map_of (filter (\<lambda>q. fst q \<notin> A) m) k = (if k \<in> A then None else map_of m k)"
  by (induction m) auto

lemma reconcile_one_eq:
  "reconcile_one b n p a =
     (case map_of (rc_old a) (fst p) of
        None \<Rightarrow> a\<lparr>rc_new := gset (fst p) (snd p) (rc_new a)\<rparr>
      | Some r \<Rightarrow>
         (case decide b n of
            DropNew \<Rightarrow> a\<lparr>rc_store := cancel_all [snd p] (rc_store a)\<rparr>
          | ReplaceOld \<Rightarrow> a\<lparr>rc_old := gdel (fst p) (rc_old a),
              rc_store := cancel_all [r] (rc_store a), rc_new := gset (fst p) (snd p) (rc_new a)\<rparr>
          | CancelPending \<Rightarrow> a\<lparr>rc_old := gdel (fst p) (rc_old a),
              rc_store := cancel_all [r] (rc_store a),
              rc_cancelled := rc_cancelled a @ [id_at (rc_store a) (snd p)]\<rparr>
          | ExpediteOld \<Rightarrow> a\<lparr>rc_old := gdel (fst p) (rc_old a),
              rc_expedited := gset (fst p) r (rc_expedited a),
              rc_store := cancel_all [snd p] (rc_store a)\<rparr>))"
  unfolding reconcile_one_def decide_def Let_def cancel_all_def
  by (cases "map_of (rc_old a) (fst p)") auto

lemma reconcile_fold:
  assumes "distinct (map fst ps)"
  shows "fold (reconcile_one b n) ps
      \<lparr>rc_store = st, rc_old = b_Services b, rc_new = [], rc_expedited = [], rc_cancelled = []\<rparr> =
    \<lparr>rc_store = cancel_all (map (\<lambda>p. if decide b n \<in> {DropNew, ExpediteOld} then snd p
         else the (map_of (b_Services b) (fst p))) (filter (in_batch b) ps)) st,
     rc_old = (if decide b n = DropNew then b_Services b
         else filter (\<lambda>q. fst q \<notin> set (map fst ps)) (b_Services b)),
     rc_new = (if decide b n = ReplaceOld then ps else filter (\<lambda>p. \<not> in_batch b p) ps),
     rc_expedited = (if decide b n = ExpediteOld
         then map (\<lambda>p. (fst p, the (map_of (b_Services b) (fst p)))) (filter (in_batch b) ps) else []),
     rc_cancelled = (if decide b n = CancelPending
         then map (\<lambda>p. id_at st (snd p)) (filter (in_batch b) ps) else [])\<rparr>"
  using assms
proof (induction ps rule: rev_induct)
  case Nil
  then show ?case by simp
next
  case (snoc p ps)
  have new: "fst p \<notin> set (map fst ps)" using snoc.prems by simp
  have new_filter: "fst p \<notin> set (keys (filter P ps))" for P
    using new by (induction ps) auto
  show ?case
  proof (cases "map_of (b_Services b) (fst p)")
    case None
    then have out: "\<not> in_batch b p" by (simp add: map_of_eq_None_keys)
    have "fst q \<noteq> fst p" if "q \<in> set (b_Services b)" for q
      using out that by (metis image_eqI list.set_map)
    then have "filter (\<lambda>q. fst q \<noteq> fst p \<and> fst q \<notin> fst ` set ps) (b_Services b)
        = filter (\<lambda>q. fst q \<notin> fst ` set ps) (b_Services b)"
      by (intro filter_cong) auto
    with None snoc out new new_filter show ?thesis
      by (simp add: reconcile_one_eq map_of_filter_keys gset_new)
  next
    case (Some r)
    then have "in_batch b p" by (rule map_of_Some_keys)
    moreover have "fst p \<notin> set (keys (map (\<lambda>p. (fst p, the (map_of (b_Services b) (fst p))))
        (filter (in_batch b) ps)))"
      using new by auto
    ultimately show ?thesis
      using Some snoc new new_filter
      by (cases "decide b n")
        (simp_all add: reconcile_one_eq map_of_filter_keys gset_new gdel_filter cancel_all_append
          conj_commute)
  qed
qed

lemma reconcile_closed:
  assumes "wf_map (b_Services n)"
  shows "reconcile st b n =
    (cancel_all (cancelled_refs b n) st, b\<lparr>b_Services := kept_old b n\<rparr>,
     n\<lparr>b_Services := kept_new b n\<rparr>, expedited_entries b n, cancelled_entries st b n)"
  unfolding reconcile_def Let_def reconcile_fold [OF assms]
  by (simp add: kept_old_def kept_new_def expedited_entries_def cancelled_entries_def
      cancelled_refs_def)

text \<open>
  Reconciling a new batch with a queued one, on every pair of batches: the entries
  that stay queued, the entries that stay new, the queued entries that are expedited,
  the requests that are withdrawn, and the services whose waiters are released, are the
  ones \<^const>\<open>decide\<close> prescribes for the services that are in both.
\<close>

theorem reconcile_outcome:
  assumes "wf_map (b_Services n)"
  shows "reconcile st b n = (st', b', n', ex, ca) \<longleftrightarrow>
     st' = cancel_all (cancelled_refs b n) st \<and> b' = b\<lparr>b_Services := kept_old b n\<rparr>
     \<and> n' = n\<lparr>b_Services := kept_new b n\<rparr> \<and> ex = expedited_entries b n
     \<and> ca = cancelled_entries st b n"
  by (auto simp: reconcile_closed [OF assms])

theorem reconcile_outcome_witness:
  "reconcile sample_store (sample_batch SVCRun) ((sample_batch SVCStop)\<lparr>b_Services := [(''a'', 7)]\<rparr>)
     = (CancellableService_Cancel 0 sample_store,
        (sample_batch SVCRun)\<lparr>b_Services := [(''b'', 1), (''c'', 2)]\<rparr>,
        (sample_batch SVCStop)\<lparr>b_Services := [(''a'', 7)]\<rparr>, [], [])"
proof -
  have wf: "wf_map (b_Services ((sample_batch SVCStop)\<lparr>b_Services := [(''a'', 7)]\<rparr>))" by simp
  show ?thesis
    unfolding reconcile_outcome [OF wf]
    by (simp add: sample_defs cancelled_refs_def kept_old_def kept_new_def expedited_entries_def
        cancelled_entries_def decide_def state_tables cancel_all_def)
qed

definition ids :: "('k \<times> 'v) list \<Rightarrow> 'k set" where
  "ids m = fst ` set m"

lemma ids_simps [simp]:
  "ids [] = {}" "ids (p # m) = insert (fst p) (ids m)" "ids (m @ m') = ids m \<union> ids m'"
  by (auto simp: ids_def)

lemma ids_filter: "ids (filter P m) \<subseteq> ids m"
  by (auto simp: ids_def)

lemma ids_mono: "set m \<subseteq> set m' \<Longrightarrow> ids m \<subseteq> ids m'"
  by (auto simp: ids_def)

lemma set_keys: "set (keys m) = ids m"
  by (simp add: ids_def)

lemma kept_disjoint: "ids (kept_old b n) \<inter> ids (kept_new b n) = {}"
  unfolding kept_old_def kept_new_def ids_def by (cases "decide b n") force+

lemma kept_new_filter: "\<exists>P. kept_new b n = filter P (b_Services n)"
  unfolding kept_new_def by (metis (full_types) filter_True)

lemma kept_old_filter: "\<exists>P. kept_old b n = filter P (b_Services b)"
  unfolding kept_old_def by (metis (full_types) filter_True)

text \<open>No entry of the new batch vanishes: it stays, is cancelled, or is reported.\<close>

lemma reconcile_new_accounted:
  assumes "p \<in> set (b_Services n)" and "keyed st n"
  shows "p \<in> set (kept_new b n) \<or> snd p \<in> set (cancelled_refs b n)
    \<or> fst p \<in> set (cancelled_entries st b n)"
proof (cases "in_batch b p")
  case False
  with assms show ?thesis by (simp add: kept_new_def)
next
  case True
  have "id_at st (snd p) = fst p" using assms by (auto simp: keyed_def split: prod.splits)
  with True assms(1) show ?thesis
    by (cases "decide b n")
      (force simp: kept_new_def cancelled_refs_def cancelled_entries_def)+
qed

text \<open>No entry of the queued batch vanishes: it stays, is cancelled, or is expedited.\<close>

lemma reconcile_old_accounted:
  assumes "p \<in> set (b_Services b)" and "wf_map (b_Services b)"
  shows "p \<in> set (kept_old b n) \<or> snd p \<in> set (cancelled_refs b n)
    \<or> p \<in> set (expedited_entries b n)"
proof (cases "in_batch n p")
  case False
  with assms show ?thesis by (simp add: kept_old_def)
next
  case True
  then obtain r where r: "(fst p, r) \<in> set (filter (in_batch b) (b_Services n))"
    using assms(1) by force
  have "map_of (b_Services b) (fst p) = Some (snd p)" using assms by simp
  with r assms(1) show ?thesis
    by (cases "decide b n")
      (force simp: kept_old_def cancelled_refs_def expedited_entries_def)+
qed

subsection \<open>Well-formed queues\<close>

abbreviation entries :: "ServiceStateChangeBatch list \<Rightarrow> (string \<times> ref) list" where
  "entries bq \<equiv> concat (map b_Services bq)"

definition batch_ok :: "CStore \<Rightarrow> ServiceStateChangeBatch \<Rightarrow> bool" where
  "batch_ok st b \<longleftrightarrow> b_Services b \<noteq> [] \<and> keyed st b \<and> known_state (b_DesiredState b)"

text \<open>Every batch has work, and every service is in at most one batch.\<close>

definition queue_ok :: "CStore \<Rightarrow> ServiceStateChangeBatch list \<Rightarrow> bool" where
  "queue_ok st bq \<longleftrightarrow> (\<forall>b \<in> set bq. batch_ok st b) \<and> distinct (keys (entries bq))"

lemma keyed_cancel_all [simp]: "keyed (cancel_all rs st) b = keyed st b"
  by (simp add: keyed_def)

lemma queue_ok_cancel_all [simp]: "queue_ok (cancel_all rs st) bq = queue_ok st bq"
  by (simp add: queue_ok_def batch_ok_def)

lemma keyed_filter: "keyed st b \<Longrightarrow> keyed st (b\<lparr>b_Services := filter P (b_Services b)\<rparr>)"
  by (auto simp: keyed_def)

lemma queue_ok_append:
  "queue_ok st (bs @ cs) \<longleftrightarrow> queue_ok st bs \<and> queue_ok st cs
     \<and> ids (entries bs) \<inter> ids (entries cs) = {}"
  by (auto simp: queue_ok_def ids_def)

lemma queue_ok_Nil [simp]: "queue_ok st []"
  by (simp add: queue_ok_def)

text \<open>\<open>thinned cs bs\<close>: the batches \<open>cs\<close> are \<open>bs\<close> with some entries and emptied batches removed.\<close>

inductive thinned :: "ServiceStateChangeBatch list \<Rightarrow> ServiceStateChangeBatch list \<Rightarrow> bool" where
  nil: "thinned [] []"
| skip: "thinned cs bs \<Longrightarrow> thinned cs (b # bs)"
| keep: "thinned cs bs \<Longrightarrow> filter P (b_Services b) \<noteq> [] \<Longrightarrow>
    thinned (b\<lparr>b_Services := filter P (b_Services b)\<rparr> # cs) (b # bs)"

lemma thinned_entries: "thinned cs bs \<Longrightarrow> set (entries cs) \<subseteq> set (entries bs)"
  by (induction rule: thinned.induct) auto

lemma thinned_keys: "thinned cs bs \<Longrightarrow> ids (entries cs) \<subseteq> ids (entries bs)"
  by (rule ids_mono) (rule thinned_entries)

lemma thinned_kinds:
  "thinned cs bs \<Longrightarrow> c \<in> set cs \<Longrightarrow> \<exists>b \<in> set bs. same_kind c b"
  by (induction rule: thinned.induct) auto

lemma queue_ok_thinned: "thinned cs bs \<Longrightarrow> queue_ok st bs \<Longrightarrow> queue_ok st cs"
proof (induction rule: thinned.induct)
  case nil
  then show ?case by simp
next
  case (skip cs bs b)
  then show ?case using queue_ok_append [of st "[b]" bs] by simp
next
  case (keep cs bs P b)
  let ?c = "b\<lparr>b_Services := filter P (b_Services b)\<rparr>"
  have bs: "queue_ok st [b]" "queue_ok st bs" "ids (b_Services b) \<inter> ids (entries bs) = {}"
    using keep.prems queue_ok_append [of st "[b]" bs] by simp_all
  have "queue_ok st [?c]"
    using bs(1) keep.hyps(2) keyed_filter
    by (simp add: queue_ok_def batch_ok_def distinct_map_filter)
  moreover have "ids (b_Services ?c) \<subseteq> ids (b_Services b)" by (simp add: ids_filter)
  ultimately show ?case
    using keep.IH [OF bs(2)] bs(3) thinned_keys [OF keep.hyps(1)] queue_ok_append [of st "[?c]" cs]
    by (simp add: disjoint_iff) blast
qed

subsection \<open>Reconciling with a whole queue\<close>

definition new_ok :: "CStore \<Rightarrow> ServiceStateChangeBatch \<Rightarrow> bool" where
  "new_ok st n \<longleftrightarrow> wf_map (b_Services n) \<and> keyed st n"

lemma new_ok_cancel_all [simp]: "new_ok (cancel_all rs st) n = new_ok st n"
  by (simp add: new_ok_def)

lemma new_ok_filter: "new_ok st n \<Longrightarrow> new_ok st (n\<lparr>b_Services := filter P (b_Services n)\<rparr>)"
  by (simp add: new_ok_def keyed_filter distinct_map_filter)

lemma new_ok_kept: "new_ok st n \<Longrightarrow> new_ok st (n\<lparr>b_Services := kept_new b n\<rparr>)"
  using kept_new_filter [of b n] new_ok_filter by metis

lemma reconcile_batches_Cons:
  assumes "new_ok st n"
  shows "reconcile_batches st (b # bs) n acc ex ca =
    reconcile_batches (cancel_all (cancelled_refs b n) st) bs (n\<lparr>b_Services := kept_new b n\<rparr>)
      (if kept_old b n \<noteq> [] then acc @ [b\<lparr>b_Services := kept_old b n\<rparr>] else acc)
      (fold (\<lambda>(k, v). gset k v) (expedited_entries b n) ex) (ca @ cancelled_entries st b n)"
  using assms by (simp add: reconcile_closed new_ok_def)

text \<open>What a pass of the new batch \<open>n\<close> over queued batches \<open>bq\<close> leaves behind.\<close>

definition passed ::
    "CStore \<Rightarrow> ServiceStateChangeBatch list \<Rightarrow> ServiceStateChangeBatch \<Rightarrow>
     CStore \<Rightarrow> ServiceStateChangeBatch list \<Rightarrow> ServiceStateChangeBatch \<Rightarrow> bool" where
  "passed st bq n st' bq' n' \<longleftrightarrow>
     (\<exists>rs. st' = cancel_all rs st) \<and> thinned bq' bq
     \<and> (\<exists>P. n' = n\<lparr>b_Services := filter P (b_Services n)\<rparr>)
     \<and> ids (entries bq') \<inter> ids (b_Services n') = {}"

lemma reconcile_batches_passed:
  assumes "reconcile_batches st bq n acc ex ca = (st', bq', n', ex', ca')" and "new_ok st n"
  shows "\<exists>cs. bq' = acc @ cs \<and> passed st bq n st' cs n'"
  using assms
proof (induction bq arbitrary: st n acc ex ca)
  case Nil
  then show ?case
    by (auto simp: passed_def intro: thinned.nil exI [of _ "[]"] exI [of _ "\<lambda>_. True"])
next
  case (Cons b bs)
  let ?b = "b\<lparr>b_Services := kept_old b n\<rparr>" and ?n = "n\<lparr>b_Services := kept_new b n\<rparr>"
  let ?st = "cancel_all (cancelled_refs b n) st"
  let ?acc = "if kept_old b n \<noteq> [] then acc @ [?b] else acc"
  obtain P where P: "kept_old b n = filter P (b_Services b)" using kept_old_filter by blast
  obtain Q where Q: "kept_new b n = filter Q (b_Services n)" using kept_new_filter by blast
  have run: "reconcile_batches ?st bs ?n ?acc (fold (\<lambda>(k, v). gset k v) (expedited_entries b n) ex)
      (ca @ cancelled_entries st b n) = (st', bq', n', ex', ca')"
    using Cons.prems(1) by (simp only: reconcile_batches_Cons [OF Cons.prems(2)])
  have "new_ok ?st ?n" using new_ok_kept [OF Cons.prems(2)] by simp
  from Cons.IH [OF run this] obtain cs where bq': "bq' = ?acc @ cs" and cs: "passed ?st bs ?n st' cs n'"
    by blast
  then obtain rs R where rs: "st' = cancel_all rs ?st" and thin: "thinned cs bs"
    and R: "n' = ?n\<lparr>b_Services := filter R (b_Services ?n)\<rparr>"
    and disj: "ids (entries cs) \<inter> ids (b_Services n') = {}"
    by (auto simp: passed_def)
  have st': "st' = cancel_all (cancelled_refs b n @ rs) st"
    using rs by (simp add: cancel_all_append)
  have n': "n' = n\<lparr>b_Services := filter (\<lambda>x. Q x \<and> R x) (b_Services n)\<rparr>"
    using R Q by simp
  have sub: "ids (b_Services n') \<subseteq> ids (kept_new b n)" using R by (simp add: ids_filter)
  show ?case
  proof (cases "kept_old b n = []")
    case True
    with bq' thin st' n' disj show ?thesis
      by (auto simp: passed_def intro: thinned.skip)
  next
    case False
    have "thinned (?b # cs) (b # bs)" using thinned.keep [OF thin, of P b] P False by simp
    moreover have "ids (entries (?b # cs)) \<inter> ids (b_Services n') = {}"
      using disj sub kept_disjoint [of b n] by auto
    ultimately show ?thesis
      using bq' st' n' False by (intro exI [of _ "?b # cs"]) (auto simp: passed_def)
  qed
qed

lemma reconcileWithBatchQueue_passed:
  assumes "reconcileWithBatchQueue st q n = (st', q', n', ex, ca)" and "new_ok st n"
  shows "passed st (q_BatchQueue q) n st' (q_BatchQueue q') n' \<and> q_CurrentBatch q' = q_CurrentBatch q
    \<and> ex = n\<lparr>b_Services := b_Services ex\<rparr>"
  using assms reconcile_batches_passed [of st "q_BatchQueue q" n "[]" "[]" "[]"]
  by (fastforce simp: reconcileWithBatchQueue_def split: prod.splits)

subsection \<open>Nothing is lost in a pass\<close>

lemma fold_gset_new:
  assumes "distinct (keys ps)" and "ids ps \<inter> ids m = {}"
  shows "fold (\<lambda>(k, v). gset k v) ps m = m @ ps"
  using assms
proof (induction ps arbitrary: m)
  case Nil
  then show ?case by simp
next
  case (Cons p ps)
  then have "fst p \<notin> set (keys m)" by (simp only: set_keys) simp
  moreover have "ids ps \<inter> ids (m @ [p]) = {}"
    using Cons.prems by (auto simp: ids_def)
  ultimately show ?case
    using Cons.IH [of "m @ [p]"] Cons.prems(1) by (simp add: gset_new case_prod_unfold)
qed

lemma expedited_ids: "ids (expedited_entries b n) \<subseteq> ids (b_Services b)"
  by (force simp: expedited_entries_def ids_def)

lemma expedited_distinct: "wf_map (b_Services n) \<Longrightarrow> distinct (keys (expedited_entries b n))"
  by (simp add: expedited_entries_def comp_def distinct_map_filter)

lemma reconcile_batches_new_accounted:
  assumes "reconcile_batches st bq n acc ex ca = (st', bq', n', ex', ca')" and "new_ok st n"
    and "p \<in> set (b_Services n) \<or> cancelled_at st (snd p) \<or> fst p \<in> set ca"
  shows "p \<in> set (b_Services n') \<or> cancelled_at st' (snd p) \<or> fst p \<in> set ca'"
  using assms
proof (induction bq arbitrary: st n acc ex ca)
  case Nil
  then show ?case by auto
next
  case (Cons b bs)
  let ?n = "n\<lparr>b_Services := kept_new b n\<rparr>" and ?st = "cancel_all (cancelled_refs b n) st"
  have ok: "new_ok ?st ?n" using new_ok_kept [OF Cons.prems(2)] by simp
  have "keyed st n" using Cons.prems(2) by (simp add: new_ok_def)
  then have "p \<in> set (b_Services ?n) \<or> cancelled_at ?st (snd p)
      \<or> fst p \<in> set (ca @ cancelled_entries st b n)"
    using Cons.prems(3) reconcile_new_accounted [of p n st b] by auto
  with Cons.IH [OF _ ok] Cons.prems(1) show ?case
    by (simp only: reconcile_batches_Cons [OF Cons.prems(2)])
qed

lemma reconcile_batches_old_accounted:
  assumes "reconcile_batches st bq n acc ex ca = (st', bq', n', ex', ca')" and "new_ok st n"
    and "distinct (keys (entries bq))" and "ids ex \<inter> ids (entries bq) = {}"
    and "p \<in> set (entries bq) \<or> p \<in> set (entries acc) \<or> cancelled_at st (snd p) \<or> p \<in> set ex"
  shows "p \<in> set (entries bq') \<or> cancelled_at st' (snd p) \<or> p \<in> set ex'"
  using assms
proof (induction bq arbitrary: st n acc ex ca)
  case Nil
  then show ?case by auto
next
  case (Cons b bs)
  let ?ex = "expedited_entries b n"
  let ?acc = "if kept_old b n \<noteq> [] then acc @ [b\<lparr>b_Services := kept_old b n\<rparr>] else acc"
  have wf: "wf_map (b_Services n)" using Cons.prems(2) by (simp add: new_ok_def)
  have ok: "new_ok (cancel_all (cancelled_refs b n) st) (n\<lparr>b_Services := kept_new b n\<rparr>)"
    using new_ok_kept [OF Cons.prems(2)] by simp
  have sep: "ids (b_Services b) \<inter> ids (entries bs) = {}" and wfb: "wf_map (b_Services b)"
    and db: "distinct (keys (entries bs))"
    using Cons.prems(3) by (auto simp: ids_def)
  have ex: "fold (\<lambda>(k, v). gset k v) ?ex ex = ex @ ?ex"
    using expedited_distinct [OF wf, of b] expedited_ids [of b n] Cons.prems(4)
    by (intro fold_gset_new) (auto simp: disjoint_iff)
  have disj: "ids (ex @ ?ex) \<inter> ids (entries bs) = {}"
    using Cons.prems(4) sep expedited_ids [of b n] by (auto simp: disjoint_iff)
  have "p \<in> set (entries bs) \<or> p \<in> set (entries ?acc)
      \<or> cancelled_at (cancel_all (cancelled_refs b n) st) (snd p) \<or> p \<in> set (ex @ ?ex)"
    using Cons.prems(5) reconcile_old_accounted [OF _ wfb, of p n] by auto
  from Cons.IH [OF _ ok db disj this] show ?case
    using Cons.prems(1) by (simp only: reconcile_batches_Cons [OF Cons.prems(2)] ex)
qed

text \<open>
  C31. Reconciling with the batch queue: afterwards no service of the reduced new batch is
  still queued, the queue stays well formed, and no request is lost: every entry of the
  new batch stays in it, is cancelled or is reported as cancelled, and every entry that
  was queued stays queued, is cancelled or is expedited.
\<close>

theorem reconcileWithBatchQueue_safe:
  assumes "queue_ok st (q_BatchQueue q)" and "new_ok st n"
    and "reconcileWithBatchQueue st q n = (st', q', n', ex, ca)"
  shows "queue_ok st' (q_BatchQueue q') \<and> new_ok st' n'
    \<and> ids (entries (q_BatchQueue q')) \<inter> ids (b_Services n') = {}
    \<and> (\<forall>p \<in> set (b_Services n).
         p \<in> set (b_Services n') \<or> cancelled_at st' (snd p) \<or> fst p \<in> set ca)
    \<and> (\<forall>p \<in> set (entries (q_BatchQueue q)).
         p \<in> set (entries (q_BatchQueue q')) \<or> cancelled_at st' (snd p) \<or> p \<in> set (b_Services ex))"
proof -
  have passed: "passed st (q_BatchQueue q) n st' (q_BatchQueue q') n'"
    using reconcileWithBatchQueue_passed [OF assms(3,2)] by simp
  obtain exs where run: "reconcile_batches st (q_BatchQueue q) n [] [] []
      = (st', q_BatchQueue q', n', exs, ca)" and exs: "b_Services ex = exs"
    using assms(3) by (auto simp: reconcileWithBatchQueue_def split: prod.splits)
  have "queue_ok st' (q_BatchQueue q')" "new_ok st' n'"
    using passed assms(1,2) queue_ok_thinned new_ok_filter by (auto simp: passed_def)
  moreover have "distinct (keys (entries (q_BatchQueue q)))"
    using assms(1) by (simp add: queue_ok_def)
  ultimately show ?thesis
    using passed reconcile_batches_new_accounted [OF run assms(2)]
      reconcile_batches_old_accounted [OF run assms(2)] exs
    by (auto simp: passed_def)
qed

theorem reconcileWithBatchQueue_safe_witness:
  "\<exists>st' q' n' ex ca.
     reconcileWithBatchQueue sample_store \<lparr>q_BatchQueue = [sample_batch SVCRun], q_CurrentBatch = empty_batch\<rparr>
       ((sample_batch SVCStop)\<lparr>b_Services := [(''a'', 0)]\<rparr>) = (st', q', n', ex, ca)
     \<and> queue_ok st' (q_BatchQueue q') \<and> ids (entries (q_BatchQueue q')) \<inter> ids (b_Services n') = {}"
proof -
  let ?q = "\<lparr>q_BatchQueue = [sample_batch SVCRun], q_CurrentBatch = empty_batch\<rparr>"
  let ?n = "(sample_batch SVCStop)\<lparr>b_Services := [(''a'', 0)]\<rparr>"
  obtain st' q' n' ex ca where run: "reconcileWithBatchQueue sample_store ?q ?n = (st', q', n', ex, ca)"
    by (cases "reconcileWithBatchQueue sample_store ?q ?n") auto
  have "queue_ok sample_store (q_BatchQueue ?q)"
    by (simp add: queue_ok_def batch_ok_def sample_defs)
  moreover have "new_ok sample_store ?n"
    by (simp add: new_ok_def sample_defs)
  ultimately show ?thesis
    using reconcileWithBatchQueue_safe [OF _ _ run] run by blast
qed

subsection \<open>Reconciling with the current batch\<close>

definition pending_replaced :: "ServiceStateChangeBatch \<Rightarrow> ServiceStateChangeBatch \<Rightarrow> bool" where
  "pending_replaced c n \<longleftrightarrow>
     \<not> (b_Emergency c \<and> (\<not> b_Emergency n \<or> b_DesiredState c \<in> {b_DesiredState n, SVCStop}))
     \<and> (b_Emergency n \<or> b_DesiredState c \<noteq> b_DesiredState n)"

lemma pending_one_eq:
  "pending_one c n p acc =
     (case map_of (b_Services c) (fst p) of
        None \<Rightarrow> (fst acc, gset (fst p) (snd p) (snd acc))
      | Some r \<Rightarrow> (if pending_replaced c n
                   then (cancel_all [r] (fst acc), gset (fst p) (snd p) (snd acc))
                   else (cancel_all [snd p] (fst acc), snd acc)))"
  unfolding pending_one_def pending_replaced_def Let_def cancel_all_def
  by (cases "map_of (b_Services c) (fst p)") auto

lemma pending_fold:
  assumes "distinct (map fst ps)"
  shows "fold (pending_one c n) ps (st, []) =
    (cancel_all (map (\<lambda>p. if pending_replaced c n then the (map_of (b_Services c) (fst p)) else snd p)
       (filter (in_batch c) ps)) st,
     filter (\<lambda>p. pending_replaced c n \<or> \<not> in_batch c p) ps)"
  using assms
proof (induction ps rule: rev_induct)
  case Nil
  then show ?case by simp
next
  case (snoc p ps)
  have new: "fst p \<notin> set (keys (filter P ps))" for P
    using snoc.prems by auto
  show ?case
  proof (cases "map_of (b_Services c) (fst p)")
    case None
    then have "\<not> in_batch c p" by (simp add: map_of_eq_None_keys)
    with None snoc new show ?thesis by (simp add: pending_one_eq gset_new)
  next
    case (Some r)
    then have "in_batch c p" by (rule map_of_Some_keys)
    with Some snoc new show ?thesis
      by (simp add: pending_one_eq gset_new cancel_all_append)
  qed
qed

lemma reconcileWithPendingBatch_closed:
  assumes "wf_map (b_Services n)"
  shows "reconcileWithPendingBatch st q n =
    (cancel_all (map (\<lambda>p. if pending_replaced (q_CurrentBatch q) n
         then the (map_of (b_Services (q_CurrentBatch q)) (fst p)) else snd p)
       (filter (in_batch (q_CurrentBatch q)) (b_Services n))) st,
     n\<lparr>b_Services := filter (\<lambda>p. pending_replaced (q_CurrentBatch q) n
         \<or> \<not> in_batch (q_CurrentBatch q) p) (b_Services n)\<rparr>)"
  by (simp add: reconcileWithPendingBatch_def pending_fold [OF assms])

text \<open>
  Reconciling with the batch that is being processed: a service that is in both is
  either dropped from the new batch and cancelled there, or kept and the running entry
  cancelled; every other service of the new batch is kept.
\<close>

theorem reconcileWithPendingBatch_cases:
  assumes "wf_map (b_Services n)" and "p \<in> set (b_Services n)"
    and "reconcileWithPendingBatch st q n = (st', n')"
  shows "if in_batch (q_CurrentBatch q) p \<and> \<not> pending_replaced (q_CurrentBatch q) n
    then p \<notin> set (b_Services n') \<and> cancelled_at st' (snd p)
    else p \<in> set (b_Services n')
      \<and> (\<forall>r. map_of (b_Services (q_CurrentBatch q)) (fst p) = Some r \<longrightarrow> cancelled_at st' r)"
proof -
  let ?c = "q_CurrentBatch q"
  have n': "b_Services n' = filter (\<lambda>p. pending_replaced ?c n \<or> \<not> in_batch ?c p) (b_Services n)"
    and st': "st' = cancel_all (map (\<lambda>p. if pending_replaced ?c n
        then the (map_of (b_Services ?c) (fst p)) else snd p) (filter (in_batch ?c) (b_Services n))) st"
    using assms(3) by (auto simp: reconcileWithPendingBatch_closed [OF assms(1)])
  have "cancelled_at st' (if pending_replaced ?c n then the (map_of (b_Services ?c) (fst p)) else snd p)"
    if "in_batch ?c p"
    using that assms(2) unfolding st' cancelled_at_cancel_all by (intro disjI1) simp
  then show ?thesis
    using assms(2) n' map_of_eq_None_keys [of "b_Services ?c" "fst p"]
    by (cases "in_batch ?c p") auto
qed

theorem reconcileWithPendingBatch_cases_witness:
  "(''a'', 7) \<in> set (b_Services (snd (reconcileWithPendingBatch sample_store
      \<lparr>q_BatchQueue = [], q_CurrentBatch = sample_batch SVCRun\<rparr>
      ((sample_batch SVCStop)\<lparr>b_Services := [(''a'', 7)]\<rparr>))))"
proof -
  let ?q = "\<lparr>q_BatchQueue = [], q_CurrentBatch = sample_batch SVCRun\<rparr>"
  let ?n = "(sample_batch SVCStop)\<lparr>b_Services := [(''a'', 7::ref)]\<rparr>"
  obtain st' n' where run: "reconcileWithPendingBatch sample_store ?q ?n = (st', n')"
    by (cases "reconcileWithPendingBatch sample_store ?q ?n") auto
  have "(''a'', 7) \<in> set (b_Services n')"
    using reconcileWithPendingBatch_cases [OF _ _ run, of "(''a'', 7)"]
    by (simp add: pending_replaced_def sample_defs)
  with run show ?thesis by simp
qed

subsection \<open>Merging keeps the queue well formed\<close>

lemma emergency_count_prefix:
  "emergency_count n bq \<le> length bq \<and>
   (\<forall>b \<in> set (take (emergency_count n bq) bq). b_Emergency b \<and> b_DesiredState b = b_DesiredState n)"
  by (induction bq) auto

lemma lastBatchToMerge_le: "lastBatchToMerge n bq i \<le> i"
  by (induction i) auto

lemma lastBatchToMerge_suffix:
  assumes "i \<le> length bq" and "lastBatchToMerge n bq i \<le> j" and "j < i"
  shows "same_kind (bq ! j) n"
  using assms
proof (induction i)
  case 0
  then show ?case by simp
next
  case (Suc i)
  then show ?case
    by (cases "j = i") (auto split: if_splits)
qed

lemma lastBatchToMerge_drop:
  assumes "b \<in> set (drop (lastBatchToMerge n bq (length bq)) bq)"
  shows "same_kind b n"
proof -
  let ?i = "lastBatchToMerge n bq (length bq)"
  obtain k where "k < length bq - ?i" and b: "b = bq ! (?i + k)"
    using assms lastBatchToMerge_le [of n bq "length bq"]
    by (auto simp: in_set_conv_nth)
  then show ?thesis
    using lastBatchToMerge_suffix [of "length bq" bq n "?i + k"] by simp
qed

text \<open>Merging a group of batches of one kind with the new batch.\<close>

lemma merge_group:
  assumes "queue_ok st bs" and "batch_ok st n" and "wf_map (b_Services n)"
    and "ids (entries bs) \<inter> ids (b_Services n) = {}" and "\<forall>b \<in> set bs. same_kind b n"
  shows "\<exists>out. MergeBatches st (bs @ [n]) = Inr out \<and> queue_ok st out
    \<and> mset (entries out) = mset (entries bs) + mset (b_Services n)
    \<and> (\<forall>b \<in> set out. same_kind b n) \<and> sorted_wrt (<) (map (batch_rank st) out)"
proof -
  let ?bs = "bs @ [n]"
  have "\<forall>b \<in> set ?bs. b_DesiredState b = b_DesiredState n \<and> b_Emergency b = b_Emergency n"
    using assms(5) by simp
  moreover have "\<forall>b \<in> set ?bs. keyed st b"
    using assms(1,2) by (auto simp: queue_ok_def batch_ok_def)
  moreover have dist: "distinct (keys (entries ?bs))"
    using assms(1,3,4) by (auto simp: queue_ok_def ids_def)
  moreover have "entries ?bs \<noteq> []" and known: "known_state (b_DesiredState n)"
    using assms(2) by (simp_all add: batch_ok_def)
  ultimately obtain out where out: "MergeBatches st ?bs = Inr out"
    and mset: "mset (entries out) = mset (entries ?bs)"
    and lev: "\<forall>b \<in> set out. leveled st (b_DesiredState n) (b_Emergency n) b"
    and sorted: "sorted_wrt (<) (map (batch_rank st) out)"
    using MergeBatches_shape [of ?bs "b_DesiredState n" "b_Emergency n" st] by blast
  have "p \<in> set (entries ?bs)" if "b \<in> set out" "p \<in> set (b_Services b)" for b p
    using that mset by (metis (no_types, lifting) UN_I image_eqI list.set_map set_concat set_mset_mset)
  then have "keyed st b" if "b \<in> set out" for b
    using assms(1,2) that by (fastforce simp: keyed_def queue_ok_def batch_ok_def)
  moreover have "distinct (keys (entries out))"
    using dist mset by (metis (no_types) mset_eq_imp_distinct_iff mset_map)
  ultimately have "queue_ok st out"
    using lev leveledD known by (force simp: queue_ok_def batch_ok_def)
  with out mset sorted lev leveledD show ?thesis by fastforce
qed

lemma mergeBatch_shape:
  assumes "queue_ok st (q_BatchQueue q)" and "batch_ok st n" and "wf_map (b_Services n)"
    and "ids (entries (q_BatchQueue q)) \<inter> ids (b_Services n) = {}"
  shows "\<exists>k out. mergeBatch st q n
      = Inr (q\<lparr>q_BatchQueue := (if b_Emergency n then out @ drop k (q_BatchQueue q)
                               else take k (q_BatchQueue q) @ out)\<rparr>)
    \<and> (\<forall>b \<in> set out. same_kind b n) \<and> sorted_wrt (<) (map (batch_rank st) out)
    \<and> mset (entries out) = mset (b_Services n)
        + mset (entries (if b_Emergency n then take k (q_BatchQueue q) else drop k (q_BatchQueue q)))
    \<and> queue_ok st (if b_Emergency n then out @ drop k (q_BatchQueue q)
                   else take k (q_BatchQueue q) @ out)"
proof -
  let ?bq = "q_BatchQueue q"
  have glue: "queue_ok st (out @ cs) \<and> queue_ok st (cs @ out)"
    if "queue_ok st out" "queue_ok st cs" "mset (entries out) = mset (entries bs) + mset (b_Services n)"
      "ids (entries bs) \<inter> ids (entries cs) = {}" "ids (entries cs) \<inter> ids (b_Services n) = {}"
    for out cs bs
  proof -
    have "ids (entries out) = ids (entries bs) \<union> ids (b_Services n)"
      using that(3) by (metis ids_def image_Un set_mset_mset set_mset_union)
    then show ?thesis using that by (auto simp: queue_ok_append)
  qed
  have parts: "queue_ok st (take k ?bq)" "queue_ok st (drop k ?bq)"
    "ids (entries (take k ?bq)) \<inter> ids (entries (drop k ?bq)) = {}"
    "ids (entries (take k ?bq)) \<inter> ids (b_Services n) = {}"
    "ids (entries (drop k ?bq)) \<inter> ids (b_Services n) = {}" for k
  proof -
    have "ids (entries ?bq) = ids (entries (take k ?bq)) \<union> ids (entries (drop k ?bq))"
      by (metis append_take_drop_id concat_append ids_simps(3) map_append)
    then show "queue_ok st (take k ?bq)" "queue_ok st (drop k ?bq)"
      "ids (entries (take k ?bq)) \<inter> ids (entries (drop k ?bq)) = {}"
      "ids (entries (take k ?bq)) \<inter> ids (b_Services n) = {}"
      "ids (entries (drop k ?bq)) \<inter> ids (b_Services n) = {}"
      using assms(1,4) queue_ok_append [of st "take k ?bq" "drop k ?bq"] by auto
  qed
  show ?thesis
  proof (cases "b_Emergency n")
    case True
    let ?k = "emergency_count n ?bq"
    have "\<forall>b \<in> set (take ?k ?bq). same_kind b n" using emergency_count_prefix [of n ?bq] True by simp
    then obtain out where out: "MergeBatches st (take ?k ?bq @ [n]) = Inr out" "queue_ok st out"
      "mset (entries out) = mset (entries (take ?k ?bq)) + mset (b_Services n)"
      "\<forall>b \<in> set out. same_kind b n" "sorted_wrt (<) (map (batch_rank st) out)"
      using merge_group [OF parts(1) assms(2,3) parts(4)] by blast
    with True show ?thesis
      using glue [OF out(2) parts(2) out(3) parts(3) parts(5)]
      by (intro exI [of _ ?k] exI [of _ out])
        (simp add: mergeBatch.simps mergeEmergencyBatch.simps)
  next
    case False
    let ?k = "lastBatchToMerge n ?bq (length ?bq)"
    have "\<forall>b \<in> set (drop ?k ?bq). same_kind b n" using lastBatchToMerge_drop by blast
    then obtain out where out: "MergeBatches st (drop ?k ?bq @ [n]) = Inr out" "queue_ok st out"
      "mset (entries out) = mset (entries (drop ?k ?bq)) + mset (b_Services n)"
      "\<forall>b \<in> set out. same_kind b n" "sorted_wrt (<) (map (batch_rank st) out)"
      using merge_group [OF parts(2) assms(2,3) parts(5)] by blast
    have disj: "ids (entries (drop ?k ?bq)) \<inter> ids (entries (take ?k ?bq)) = {}"
      using parts(3) [of ?k] by blast
    from False out show ?thesis
      using glue [OF out(2) parts(1) out(3) disj parts(4)]
      by (intro exI [of _ ?k] exI [of _ out]) (simp add: mergeBatch.simps)
  qed
qed

text \<open>
  C23. Merging a batch into a well-formed queue succeeds, keeps the queue well formed and
  adds exactly the entries of the batch. An emergency batch goes to the front: it is
  regrouped with the emergency batches that are already there and every other batch
  keeps its place behind them. Any other batch is regrouped with the batches of its kind
  at the end of the queue, and the batches before those keep their places.
\<close>

theorem mergeBatch_correct:
  assumes "queue_ok st (q_BatchQueue q)" and "batch_ok st n" and "wf_map (b_Services n)"
    and "ids (entries (q_BatchQueue q)) \<inter> ids (b_Services n) = {}"
  shows "\<exists>k out. mergeBatch st q n
      = Inr (q\<lparr>q_BatchQueue := (if b_Emergency n then out @ drop k (q_BatchQueue q)
                               else take k (q_BatchQueue q) @ out)\<rparr>)
    \<and> (\<forall>b \<in> set out. same_kind b n) \<and> sorted_wrt (<) (map (batch_rank st) out)
    \<and> mset (entries out) = mset (b_Services n)
        + mset (entries (if b_Emergency n then take k (q_BatchQueue q) else drop k (q_BatchQueue q)))
    \<and> queue_ok st (if b_Emergency n then out @ drop k (q_BatchQueue q)
                   else take k (q_BatchQueue q) @ out)"
  using assms by (rule mergeBatch_shape)

theorem mergeBatch_correct_witness:
  "\<exists>q'. mergeBatch sample_store \<lparr>q_BatchQueue = [(sample_batch SVCRun)\<lparr>b_Services := [(''a'', 0)]\<rparr>],
        q_CurrentBatch = empty_batch\<rparr>
       ((sample_batch SVCRun)\<lparr>b_Services := [(''b'', 1)]\<rparr>) = Inr q' \<and> queue_ok sample_store (q_BatchQueue q')"
proof -
  let ?q = "\<lparr>q_BatchQueue = [(sample_batch SVCRun)\<lparr>b_Services := [(''a'', 0)]\<rparr>],
        q_CurrentBatch = empty_batch\<rparr>"
  let ?n = "(sample_batch SVCRun)\<lparr>b_Services := [(''b'', 1)]\<rparr>"
  have "queue_ok sample_store (q_BatchQueue ?q)"
    by (simp add: queue_ok_def batch_ok_def sample_defs)
  moreover have "batch_ok sample_store ?n"
    by (simp add: batch_ok_def sample_defs)
  moreover have "ids (entries (q_BatchQueue ?q)) \<inter> ids (b_Services ?n) = {}" and "wf_map (b_Services ?n)"
    by (simp_all add: sample_defs)
  ultimately obtain k out where "mergeBatch sample_store ?q ?n = Inr (?q\<lparr>q_BatchQueue :=
      if b_Emergency ?n then out @ drop k (q_BatchQueue ?q) else take k (q_BatchQueue ?q) @ out\<rparr>)"
    "queue_ok sample_store (if b_Emergency ?n then out @ drop k (q_BatchQueue ?q)
      else take k (q_BatchQueue ?q) @ out)"
    using mergeBatch_correct [of sample_store ?q ?n] by auto
  then show ?thesis
    by (intro exI conjI) (assumption, simp)
qed

subsection \<open>Taking a batch and looking a service up\<close>

lemma getNextBatch_ok:
  assumes "queue_ok st (q_BatchQueue q)" and "getNextBatch q = (q', r)"
  shows "queue_ok st (q_BatchQueue q')
    \<and> (case r of Inr b \<Rightarrow> q_BatchQueue q = b # q_BatchQueue q' \<and> q_CurrentBatch q' = b \<and> batch_ok st b
              | Inl e \<Rightarrow> e = ErrBatchQueueEmpty \<and> q_BatchQueue q = [] \<and> q_BatchQueue q' = []
                 \<and> q_CurrentBatch q' = empty_batch)"
  using assms by (auto simp: getNextBatch_def queue_ok_def split: list.splits)

lemma find_in_queue_iff:
  "find_in_queue q i = None \<longleftrightarrow>
     i \<notin> ids (entries (q_BatchQueue q)) \<and> i \<notin> ids (b_Services (q_CurrentBatch q))"
proof (cases "List.find (\<lambda>b. i \<in> set (keys (b_Services b))) (q_BatchQueue q)")
  case None
  then have "i \<notin> ids (entries (q_BatchQueue q))"
    by (fastforce simp: find_None_iff ids_def)
  with None show ?thesis
    by (simp add: find_in_queue_def ids_def map_of_eq_None_iff)
next
  case (Some b)
  then have "b \<in> set (q_BatchQueue q)" and "i \<in> set (keys (b_Services b))"
    by (auto simp: find_Some_iff)
  moreover from this have "i \<in> ids (entries (q_BatchQueue q))"
    by (force simp: ids_def)
  ultimately show ?thesis
    using Some by (simp add: find_in_queue_def map_of_eq_None_iff)
qed

inductive_simps thinned_Nil_iff: "thinned cs []"

lemma thinned_append:
  "thinned cs bs \<Longrightarrow> thinned cs' bs' \<Longrightarrow> thinned (cs @ cs') (bs @ bs')"
  by (induction rule: thinned.induct) (auto intro: thinned.intros)

lemma thinned_refl: "\<forall>b \<in> set bs. b_Services b \<noteq> [] \<Longrightarrow> thinned bs bs"
proof (induction bs)
  case (Cons b bs)
  then show ?case using thinned.keep [of bs bs "\<lambda>_. True" b] by simp
qed (simp add: thinned.nil)

lemma set_fold_gset: "set (fold (\<lambda>(k, v). gset k v) ps m) \<subseteq> set ps \<union> set m"
proof (induction ps arbitrary: m)
  case (Cons p ps)
  have "set (gset (fst p) (snd p) m) \<subseteq> insert p (set m)"
    by (induction m) (auto simp: gset_Cons)
  with Cons [of "gset (fst p) (snd p) m"] show ?case by (auto simp: case_prod_unfold)
qed simp

lemma expedited_queued: "set (expedited_entries b n) \<subseteq> set (b_Services b)"
proof -
  have "(fst p, the (map_of (b_Services b) (fst p))) \<in> set (b_Services b)" if mem: "in_batch b p" for p
  proof -
    obtain r where "map_of (b_Services b) (fst p) = Some r"
      using mem map_of_eq_None_keys [of "b_Services b" "fst p"] by auto
    then show ?thesis by (simp add: map_of_SomeD)
  qed
  then show ?thesis by (auto simp: expedited_entries_def)
qed

lemma reconcile_batches_expedited:
  assumes "reconcile_batches st bq n acc ex ca = (st', bq', n', ex', ca')" and "new_ok st n"
  shows "set ex' \<subseteq> set ex \<union> set (entries bq) \<and> (wf_map ex \<longrightarrow> wf_map ex')"
  using assms
proof (induction bq arbitrary: st n acc ex ca)
  case (Cons b bs)
  let ?ex = "fold (\<lambda>(k, v). gset k v) (expedited_entries b n) ex"
  have "new_ok (cancel_all (cancelled_refs b n) st) (n\<lparr>b_Services := kept_new b n\<rparr>)"
    using new_ok_kept [OF Cons.prems(2)] by simp
  then have "set ex' \<subseteq> set ?ex \<union> set (entries bs) \<and> (wf_map ?ex \<longrightarrow> wf_map ex')"
    using Cons.IH Cons.prems(1) reconcile_batches_Cons [OF Cons.prems(2)] by simp
  then show ?case
    using set_fold_gset [of "expedited_entries b n" ex] expedited_queued [of b n]
      gomap.invar_fold_set [of ex "expedited_entries b n"] by auto
qed simp

lemma reconcileWithBatchQueue_expedited:
  assumes "reconcileWithBatchQueue st q n = (st', q', n', ex, ca)" and "new_ok st n"
  shows "set (b_Services ex) \<subseteq> set (entries (q_BatchQueue q)) \<and> wf_map (b_Services ex)"
  using assms reconcile_batches_expedited [of st "q_BatchQueue q" n "[]" "[]" "[]"]
  by (fastforce simp: reconcileWithBatchQueue_def split: prod.splits)

end
