(* ===== verification/SSM_Manager.thy ===== *)
theory SSM_Manager
  imports SSM_Queue
begin

section \<open>The batch service state manager\<close>

text \<open>
  \<^verbatim>\<open>scheduler/servicestatemanager/servicestatemanager.go\<close>, third part:
  \<^verbatim>\<open>BatchServiceStateManager\<close> with its tenants, its current-state waits, its queue loops
  and the goroutines that \<^verbatim>\<open>ScheduleServices\<close> spawns.

  The \<^verbatim>\<open>Facade\<close> interface of \<^verbatim>\<open>facade.go\<close> is a record of functions that answer its
  queries; what the manager asks it to write is appended to a log of calls. A queue loop
  is a state machine whose states are the points of \<^verbatim>\<open>queueLoop\<close> at which other
  goroutines may run; a spawned goroutine is a task of the manager until it has run.
\<close>

record Facade =
  f_GetServicesForScheduling :: "string list \<Rightarrow> Service list"
  f_ScheduleServiceBatch :: "Service list \<Rightarrow> string \<Rightarrow> DesiredState \<Rightarrow> string list \<times> string option"
  f_GetTenantIDs :: "string + string list"

datatype facade_call =
    SetServicesCurrentState ServiceCurrentState "string list"
  | UpdateService Service
  | ScheduleServiceBatch "Service list" string DesiredState

record CurrentStateWait =
  w_WaitingState :: DesiredState
  w_finalState :: ServiceCurrentState
  w_done :: bool

datatype shutdown_chan = NilChan | OpenChan | ClosedChan

datatype loop_phase =
    AtTop
  | Fetched "ServiceStateChangeBatch option"
  | Synced ServiceStateChangeBatch
  | Updated ServiceStateChangeBatch
  | Waiting ServiceStateChangeBatch
  | Blocked

record QueueLoop =
  lp_phase :: loop_phase
  lp_badsids :: "string list"

datatype task =
    SyncTask "string list"
  | ExpediteTask string ServiceStateChangeBatch
  | ExpediteProcessTask string ServiceStateChangeBatch

type_synonym TenantQueues = "(DesiredState, ServiceStateQueue) gomap"

record Manager =
  m_store :: CStore
  m_TenantQueues :: "(string, TenantQueues) gomap"
  m_TenantShutDowns :: "(string, unit) gomap"
  m_currentStateWaits :: "(string, CurrentStateWait) gomap"
  m_shutdown :: shutdown_chan
  m_loops :: "(string \<times> DesiredState, QueueLoop) gomap"
  m_tasks :: "task list"
  m_calls :: "facade_call list"

definition NewBatchServiceStateManager :: "CStore \<Rightarrow> Manager" where
  "NewBatchServiceStateManager st =
     \<lparr>m_store = st, m_TenantQueues = [], m_TenantShutDowns = [], m_currentStateWaits = [],
      m_shutdown = NilChan, m_loops = [], m_tasks = [], m_calls = []\<rparr>"

subsection \<open>Current states and the goroutines that wait for them\<close>

text \<open>
  \<^verbatim>\<open>thread.Cancel()\<close> returns only when the waiting goroutine is done, and every caller
  then drops the entry: cancelling a wait is deleting it.
\<close>

definition updateServiceCurrentState ::
    "ServiceCurrentState \<Rightarrow> string list \<Rightarrow> Manager \<Rightarrow> Manager" where
  "updateServiceCurrentState state serviceIDs m =
     m\<lparr>m_currentStateWaits := fold gdel serviceIDs (m_currentStateWaits m),
       m_calls := m_calls m @ [SetServicesCurrentState state serviceIDs]\<rparr>"

definition spawn_wait :: "string \<Rightarrow> DesiredState \<Rightarrow> bool \<Rightarrow> Manager \<Rightarrow> Manager" where
  "spawn_wait sid ds em m =
     (let m1 = updateServiceCurrentState (DesiredToCurrentTransitionState ds em) [sid] m in
      m1\<lparr>m_currentStateWaits := gset sid
           \<lparr>w_WaitingState = ds, w_finalState = DesiredToCurrentFinalState ds em, w_done = False\<rparr>
           (m_currentStateWaits m1)\<rparr>)"

definition startCurrentStateWait :: "Service \<Rightarrow> DesiredState \<Rightarrow> bool \<Rightarrow> Manager \<Rightarrow> Manager" where
  "startCurrentStateWait svc ds em m =
     (case map_of (m_currentStateWaits m) (svc_ID svc) of
        Some thread \<Rightarrow>
          (if w_WaitingState thread = ds then m
           else spawn_wait (svc_ID svc) ds em
                  (m\<lparr>m_currentStateWaits := gdel (svc_ID svc) (m_currentStateWaits m)\<rparr>))
      | None \<Rightarrow> spawn_wait (svc_ID svc) ds em m)"

text \<open>The goroutine of a wait finishes: \<^verbatim>\<open>WaitSingleService\<close> has returned, not cancelled.\<close>

definition wait_returns :: "string \<Rightarrow> Manager \<Rightarrow> Manager" where
  "wait_returns sid m =
     (case map_of (m_currentStateWaits m) sid of
        Some w \<Rightarrow>
          (if w_done w then m
           else m\<lparr>m_currentStateWaits := gset sid (w\<lparr>w_done := True\<rparr>) (m_currentStateWaits m),
                  m_calls := m_calls m @ [SetServicesCurrentState (w_finalState w) [sid]]\<rparr>)
      | None \<Rightarrow> m)"

definition batch_states ::
    "CStore \<Rightarrow> ServiceCurrentState \<Rightarrow> (string, ref) gomap \<Rightarrow>
     (string, ServiceCurrentState) gomap \<Rightarrow> (string, ServiceCurrentState) gomap" where
  "batch_states st state svcs states = fold (\<lambda>(_, r). gset (id_at st r) state) svcs states"

definition queue_states ::
    "CStore \<Rightarrow> ServiceStateQueue \<Rightarrow> (string, ServiceCurrentState) gomap \<Rightarrow>
     (string, ServiceCurrentState) gomap" where
  "queue_states st q states =
     batch_states st (DesiredToCurrentTransitionState (b_DesiredState (q_CurrentBatch q))
                        (b_Emergency (q_CurrentBatch q)))
       (b_Services (q_CurrentBatch q))
       (fold (\<lambda>b. batch_states st
                (DesiredToCurrentPendingState (b_DesiredState b) (b_Emergency b)) (b_Services b))
          (q_BatchQueue q) states)"

definition known_states :: "Manager \<Rightarrow> (string, ServiceCurrentState) gomap" where
  "known_states m =
     fold (\<lambda>(_, qs). fold (\<lambda>(_, q). queue_states (m_store m) q) qs) (m_TenantQueues m) []"

fun sync_known ::
    "(string, ServiceCurrentState) gomap \<Rightarrow> string list \<Rightarrow> Manager \<Rightarrow> Manager \<times> string list" where
  "sync_known states [] m = (m, [])"
| "sync_known states (sid # sids) m =
     (case map_of states sid of
        Some state \<Rightarrow> sync_known states sids (updateServiceCurrentState state [sid] m)
      | None \<Rightarrow> (case sync_known states sids m of (m', missing) \<Rightarrow> (m', sid # missing)))"

definition SyncCurrentStates :: "Facade \<Rightarrow> string list \<Rightarrow> Manager \<Rightarrow> Manager" where
  "SyncCurrentStates f svcIDs m =
     (case sync_known (known_states m) svcIDs m of
        (m1, missingStates) \<Rightarrow>
          fold (\<lambda>svc. startCurrentStateWait svc (svc_DesiredState svc) (svc_EmergencyShutdown svc))
            (f_GetServicesForScheduling f missingStates) m1)"

subsection \<open>Tenants, start and shutdown\<close>

definition AddTenant :: "string \<Rightarrow> Manager \<Rightarrow> ssm_error + Manager" where
  "AddTenant tenantID m =
     (case m_shutdown m of
        NilChan \<Rightarrow> Inl ErrNotRunning
      | ClosedChan \<Rightarrow> Inl ErrNotRunning
      | OpenChan \<Rightarrow>
          (case map_of (m_TenantQueues m) tenantID of
             Some _ \<Rightarrow> Inl ErrDuplicateTenantID
           | None \<Rightarrow>
               Inr (m\<lparr>m_TenantQueues := gset tenantID
                         [(SVCRun, NewServiceStateQueue), (SVCStop, NewServiceStateQueue)]
                         (m_TenantQueues m),
                      m_TenantShutDowns := gset tenantID () (m_TenantShutDowns m),
                      m_loops := gset (tenantID, SVCRun) \<lparr>lp_phase = AtTop, lp_badsids = []\<rparr>
                        (gset (tenantID, SVCStop) \<lparr>lp_phase = AtTop, lp_badsids = []\<rparr> (m_loops m))\<rparr>)))"

text \<open>
  \<^verbatim>\<open>cancel <- 0\<close> is received by a loop that is at the top or blocked, which then exits;
  one send per queue ends all loops of the tenant.
\<close>

definition removeTenant :: "string \<Rightarrow> Manager \<Rightarrow> ssm_error + Manager" where
  "removeTenant tenantID m =
     (case map_of (m_TenantShutDowns m) tenantID of
        None \<Rightarrow> Inl ErrBadTenantID
      | Some _ \<Rightarrow>
          (let qs = (case map_of (m_TenantQueues m) tenantID of Some qs \<Rightarrow> qs | None \<Rightarrow> []) in
           Inr (m\<lparr>m_store := fold (\<lambda>(_, q). Queue_Cancel q) qs (m_store m),
                  m_loops := fold (\<lambda>(ds, _). gdel (tenantID, ds)) qs (m_loops m),
                  m_TenantShutDowns := gdel tenantID (m_TenantShutDowns m),
                  m_TenantQueues := gdel tenantID (m_TenantQueues m)\<rparr>)))"

definition RemoveTenant :: "string \<Rightarrow> Manager \<Rightarrow> ssm_error + Manager" where
  "RemoveTenant tenantID m = removeTenant tenantID m"

fun remove_tenants :: "string list \<Rightarrow> Manager \<Rightarrow> Manager" where
  "remove_tenants [] m = m"
| "remove_tenants (t # ts) m =
     remove_tenants ts (case removeTenant t m of Inl _ \<Rightarrow> m | Inr m' \<Rightarrow> m')"

definition Shutdown :: "Manager \<Rightarrow> ssm_error + Manager" where
  "Shutdown m =
     (case m_shutdown m of
        NilChan \<Rightarrow> Inl PanicCloseOfNilChannel
      | ClosedChan \<Rightarrow> Inl PanicCloseOfClosedChannel
      | OpenChan \<Rightarrow>
          Inr ((remove_tenants (keys (m_TenantShutDowns m)) (m\<lparr>m_shutdown := ClosedChan\<rparr>))
                 \<lparr>m_currentStateWaits := []\<rparr>))"

fun add_tenants :: "string list \<Rightarrow> Manager \<Rightarrow> Manager" where
  "add_tenants [] m = m"
| "add_tenants (t # ts) m = add_tenants ts (case AddTenant t m of Inl _ \<Rightarrow> m | Inr m' \<Rightarrow> m')"

definition Start :: "Facade \<Rightarrow> Manager \<Rightarrow> Manager \<times> ssm_error option" where
  "Start f m =
     (if m_shutdown m = OpenChan then (m, Some ErrAlreadyStarted)
      else (let m1 = m\<lparr>m_shutdown := OpenChan\<rparr> in
        case f_GetTenantIDs f of
          Inl e \<Rightarrow> (m1, Some (FacadeError e))
        | Inr tenantIDs \<Rightarrow> (add_tenants tenantIDs m1, None)))"

subsection \<open>Scheduling\<close>

fun make_cancellable :: "Service list \<Rightarrow> CStore \<Rightarrow> (string, ref) gomap \<Rightarrow> CStore \<times> (string, ref) gomap" where
  "make_cancellable [] st acc = (st, acc)"
| "make_cancellable (svc # svcs) st acc =
     (case NewCancellableService svc st of
        (st', r) \<Rightarrow> make_cancellable svcs st' (gset (svc_ID svc) r acc))"

definition current_one ::
    "ServiceStateChangeBatch \<Rightarrow> string \<times> ref \<Rightarrow> CStore \<times> (string, ref) gomap \<times> string list \<Rightarrow>
     CStore \<times> (string, ref) gomap \<times> string list" where
  "current_one new p acc =
     (case acc of (st, newSvcs, cancelledIDs) \<Rightarrow>
        (if DesiredStateIsRedundant (b_DesiredState new) (b_Emergency new)
              (svc_CurrentState (svc_at st (snd p)))
         then (CancellableService_Cancel (snd p) st, newSvcs, cancelledIDs @ [fst p])
         else (st, gset (fst p) (snd p) newSvcs, cancelledIDs)))"

definition reconcileWithCurrentState ::
    "CStore \<Rightarrow> ServiceStateChangeBatch \<Rightarrow> CStore \<times> ServiceStateChangeBatch \<times> string list" where
  "reconcileWithCurrentState st new =
     (case fold (current_one new) (b_Services new) (st, [], []) of
        (st', newSvcs, cancelledIDs) \<Rightarrow> (st', new\<lparr>b_Services := newSvcs\<rparr>, cancelledIDs))"

text \<open>The loop of \<^verbatim>\<open>ScheduleServices\<close> over the queues of the tenant.\<close>

fun schedule_loop ::
    "CStore \<Rightarrow> TenantQueues \<Rightarrow> ServiceStateChangeBatch \<Rightarrow> (string, ref) gomap \<Rightarrow> string list \<Rightarrow>
     CStore \<times> TenantQueues \<times> ServiceStateChangeBatch \<times> (string, ref) gomap \<times> string list" where
  "schedule_loop st [] newBatch expedited cancelledIDs = (st, [], newBatch, expedited, cancelledIDs)"
| "schedule_loop st ((k, queue) # qs) newBatch expedited cancelledIDs =
     (case reconcileWithBatchQueue st queue newBatch of
        (st1, queue1, newBatch1, expeditedBatch, cancelled) \<Rightarrow>
          (let expedited1 = fold (\<lambda>(k, v). gset k v) (b_Services expeditedBatch) expedited;
               cancelledIDs1 = cancelledIDs @ cancelled
           in if b_Services newBatch1 = []
              then (st1, (k, queue1) # qs, newBatch1, expedited1, cancelledIDs1)
              else (case reconcileWithPendingBatch st1 queue1 newBatch1 of
                (st2, newBatch2) \<Rightarrow>
                  (case schedule_loop st2 qs newBatch2 expedited1 cancelledIDs1 of
                     (st3, qs3, newBatch3, expedited3, cancelledIDs3) \<Rightarrow>
                       (st3, (k, queue1) # qs3, newBatch3, expedited3, cancelledIDs3)))))"

definition queueDesiredState :: "DesiredState \<Rightarrow> DesiredState" where
  "queueDesiredState ds =
     (if ds = SVCRestart then SVCRun else if ds = SVCPause then SVCStop else ds)"

text \<open>\<^verbatim>\<open>queue.Changed <- true\<close> is received only by a loop that is blocked in its select.\<close>

definition signal_changed :: "string \<Rightarrow> DesiredState \<Rightarrow> Manager \<Rightarrow> Manager" where
  "signal_changed tenantID ds m =
     (case map_of (m_loops m) (tenantID, ds) of
        Some lp \<Rightarrow>
          (if lp_phase lp = Blocked
           then m\<lparr>m_loops := gset (tenantID, ds) (lp\<lparr>lp_phase := AtTop\<rparr>) (m_loops m)\<rparr>
           else m)
      | None \<Rightarrow> m)"

definition enqueue ::
    "string \<Rightarrow> TenantQueues \<Rightarrow> ServiceStateChangeBatch \<Rightarrow> Manager \<Rightarrow> Manager \<times> ssm_error option" where
  "enqueue tenantID queues newBatch m =
     (if b_Services newBatch = [] then (m, None)
      else (let k = queueDesiredState (b_DesiredState newBatch) in
        case map_of queues k of
          None \<Rightarrow> (m, Some ErrMissingQueue)
        | Some queue \<Rightarrow>
            (let merged = (if b_Emergency newBatch then mergeEmergencyBatch (m_store m) queue newBatch
                           else mergeBatch (m_store m) queue newBatch);
                 m1 = (case merged of
                         Inl _ \<Rightarrow> m
                       | Inr queue' \<Rightarrow>
                           m\<lparr>m_TenantQueues := gset tenantID (gset k queue' queues) (m_TenantQueues m)\<rparr>);
                 err = (case merged of Inl e \<Rightarrow> Some e | Inr _ \<Rightarrow> None)
             in if err = Some PanicIndexOutOfRange then (m1, err)
                else (signal_changed tenantID k
                   (updateServiceCurrentState
                      (DesiredToCurrentPendingState (b_DesiredState newBatch) (b_Emergency newBatch))
                      (keys (b_Services newBatch)) m1), err))))"

definition ScheduleServices ::
    "Service list \<Rightarrow> string \<Rightarrow> DesiredState \<Rightarrow> bool \<Rightarrow> Manager \<Rightarrow> Manager \<times> ssm_error option" where
  "ScheduleServices svcs tenantID desiredState emergency m =
     (case map_of (m_TenantQueues m) tenantID of
        None \<Rightarrow> (m, Some ErrBadTenantID)
      | Some queues \<Rightarrow>
          (case make_cancellable svcs (m_store m) [] of
             (st0, cancellableServices) \<Rightarrow>
          (case schedule_loop st0 queues
                  \<lparr>b_Services = cancellableServices, b_DesiredState = desiredState,
                   b_Emergency = emergency\<rparr> [] [] of
             (st1, queues1, newBatch1, expedited, cancelledIDs) \<Rightarrow>
          (case reconcileWithCurrentState st1 newBatch1 of
             (st2, newBatch2, cancelled) \<Rightarrow>
               (let m1 = m\<lparr>m_store := st2, m_TenantQueues := gset tenantID queues1 (m_TenantQueues m),
                           m_tasks := m_tasks m @ (if expedited \<noteq> []
                             then [ExpediteTask tenantID \<lparr>b_Services = expedited,
                                     b_DesiredState = desiredState, b_Emergency = emergency\<rparr>]
                             else [])\<rparr>
                in case enqueue tenantID queues1 newBatch2 m1 of
                     (m2, err) \<Rightarrow>
                       (m2\<lparr>m_tasks := m_tasks m2 @ (if cancelledIDs @ cancelled \<noteq> []
                             then [SyncTask (cancelledIDs @ cancelled)] else [])\<rparr>, err))))))"

subsection \<open>Processing a batch\<close>

text \<open>\<^verbatim>\<open>updateBatch\<close>: \<open>batchService.Service = svc\<close> overwrites the service of a shared cell.\<close>

definition set_service :: "ref \<Rightarrow> Service \<Rightarrow> CStore \<Rightarrow> CStore" where
  "set_service r svc st = st\<lparr>cells := (cells st)(r := (cells st r)\<lparr>cs_Service := svc\<rparr>)\<rparr>"

definition update_one ::
    "Service list \<Rightarrow> string \<times> ref \<Rightarrow> CStore \<times> (string, ref) gomap \<Rightarrow> CStore \<times> (string, ref) gomap" where
  "update_one services p acc =
     (case List.find (\<lambda>svc. fst p = svc_ID svc) services of
        Some svc \<Rightarrow> (set_service (snd p) svc (fst acc), gset (svc_ID svc) (snd p) (snd acc))
      | None \<Rightarrow> (CancellableService_Cancel (snd p) (fst acc), snd acc))"

definition updateBatch ::
    "Facade \<Rightarrow> ServiceStateChangeBatch \<Rightarrow> CStore \<Rightarrow> CStore \<times> ServiceStateChangeBatch" where
  "updateBatch f batch st =
     (let services = f_GetServicesForScheduling f (map (\<lambda>p. id_at st (snd p)) (b_Services batch))
      in case fold (update_one services) (b_Services batch) (st, []) of
           (st', newServices) \<Rightarrow> (st', batch\<lparr>b_Services := newServices\<rparr>))"

fun select_services ::
    "ServiceStateChangeBatch \<Rightarrow> (string, ref) gomap \<Rightarrow> Manager \<Rightarrow> ref list \<Rightarrow> Manager \<times> ref list" where
  "select_services batch [] m services = (m, services)"
| "select_services batch (p # ps) m services =
     (if cancelled_at (m_store m) (snd p) then select_services batch ps m services
      else if b_Emergency batch \<and> b_DesiredState batch = SVCStop
      then (let svc = (svc_at (m_store m) (snd p))\<lparr>svc_EmergencyShutdown := True\<rparr> in
            select_services batch ps
              (m\<lparr>m_store := set_service (snd p) svc (m_store m),
                 m_calls := m_calls m @ [UpdateService svc]\<rparr>) (services @ [snd p]))
      else select_services batch ps m (services @ [snd p]))"

fun start_waits ::
    "ServiceStateChangeBatch \<Rightarrow> string list \<Rightarrow> (string, ref) gomap \<Rightarrow> Manager \<Rightarrow> Manager" where
  "start_waits batch failed [] m = m"
| "start_waits batch failed (p # ps) m =
     start_waits batch failed ps
       (if id_at (m_store m) (snd p) \<in> set failed then m
        else startCurrentStateWait (svc_at (m_store m) (snd p)) (b_DesiredState batch)
               (b_Emergency batch) m)"

definition processBatch ::
    "Facade \<Rightarrow> string \<Rightarrow> ServiceStateChangeBatch \<Rightarrow> Manager \<Rightarrow> Manager \<times> string list" where
  "processBatch f tenantID batch m =
     (case select_services batch (b_Services batch) m [] of
        (m1, services) \<Rightarrow>
          (let serviceIDs = map (id_at (m_store m1)) services;
               svcs = map (svc_at (m_store m1)) services;
               m2 = updateServiceCurrentState
                      (DesiredToCurrentTransitionState (b_DesiredState batch) (b_Emergency batch))
                      serviceIDs m1;
               m3 = m2\<lparr>m_calls := m_calls m2 @ [ScheduleServiceBatch svcs tenantID (b_DesiredState batch)]\<rparr>
           in case f_ScheduleServiceBatch f svcs tenantID (b_DesiredState batch) of
                (_, Some _) \<Rightarrow> (m3, serviceIDs)
              | (failedServiceIDs, None) \<Rightarrow>
                  (start_waits batch failedServiceIDs (b_Services batch) m3, failedServiceIDs)))"

subsection \<open>The queue loop\<close>

definition set_loop :: "string \<Rightarrow> DesiredState \<Rightarrow> QueueLoop \<Rightarrow> Manager \<Rightarrow> Manager" where
  "set_loop tenantID ds lp m = m\<lparr>m_loops := gset (tenantID, ds) lp (m_loops m)\<rparr>"

fun cancel_failed :: "(string, ref) gomap \<Rightarrow> string list \<Rightarrow> CStore \<Rightarrow> ssm_error + CStore" where
  "cancel_failed svcs [] st = Inr st"
| "cancel_failed svcs (sid # sids) st =
     (case map_of svcs sid of
        None \<Rightarrow> Inl PanicNilDereference
      | Some r \<Rightarrow> cancel_failed svcs sids (CancellableService_Cancel r st))"

text \<open>
  One step of \<^verbatim>\<open>queueLoop\<close>, by the point it has reached. At \<open>Waiting\<close> the step is the
  return of \<^verbatim>\<open>waitServicesWithTimeout\<close>, by success or by timeout: its deferred function
  cancels every service of the batch. A blocked loop takes no step of its own.
\<close>

definition waitServicesWithTimeout :: "(string, ref) gomap \<Rightarrow> CStore \<Rightarrow> CStore" where
  "waitServicesWithTimeout services st = fold (\<lambda>(_, r). CancellableService_Cancel r) services st"

definition loop_step ::
    "Facade \<Rightarrow> string \<Rightarrow> DesiredState \<Rightarrow> ServiceStateQueue \<Rightarrow> QueueLoop \<Rightarrow> Manager \<Rightarrow>
     ssm_error + Manager" where
  "loop_step f tenantID ds queue lp m =
     (case lp_phase lp of
        AtTop \<Rightarrow>
          (case getNextBatch queue of
             (queue', r) \<Rightarrow>
               Inr (set_loop tenantID ds
                 (lp\<lparr>lp_phase := Fetched (case r of Inl _ \<Rightarrow> None | Inr b \<Rightarrow> Some b)\<rparr>)
                 (m\<lparr>m_TenantQueues := gset tenantID
                     (gset ds queue' (the (map_of (m_TenantQueues m) tenantID))) (m_TenantQueues m)\<rparr>)))
      | Fetched r \<Rightarrow>
          (let m1 = (if lp_badsids lp \<noteq> [] then SyncCurrentStates f (lp_badsids lp) m else m) in
           Inr (set_loop tenantID ds
             (lp\<lparr>lp_phase := (case r of Some b \<Rightarrow> Synced b | None \<Rightarrow> Blocked)\<rparr>) m1))
      | Synced batch \<Rightarrow>
          (case updateBatch f batch (m_store m) of
             (st', batch') \<Rightarrow> Inr (set_loop tenantID ds (lp\<lparr>lp_phase := Updated batch'\<rparr>) (m\<lparr>m_store := st'\<rparr>)))
      | Updated batch \<Rightarrow>
          (case processBatch f tenantID batch m of
             (m1, badsids) \<Rightarrow>
               (case cancel_failed (b_Services batch) badsids (m_store m1) of
                  Inl e \<Rightarrow> Inl e
                | Inr st' \<Rightarrow>
                    Inr (set_loop tenantID ds \<lparr>lp_phase = Waiting batch, lp_badsids = badsids\<rparr>
                           (m1\<lparr>m_store := st'\<rparr>))))
      | Waiting batch \<Rightarrow>
          Inr (set_loop tenantID ds (lp\<lparr>lp_phase := AtTop\<rparr>)
                 (m\<lparr>m_store := waitServicesWithTimeout (b_Services batch) (m_store m)\<rparr>))
      | Blocked \<Rightarrow> Inr m)"

definition queueLoop :: "Facade \<Rightarrow> string \<Rightarrow> DesiredState \<Rightarrow> Manager \<Rightarrow> ssm_error + Manager" where
  "queueLoop f tenantID ds m =
     (case map_of (m_TenantQueues m) tenantID of
        None \<Rightarrow> Inr m
      | Some queues \<Rightarrow>
          (case (map_of queues ds, map_of (m_loops m) (tenantID, ds)) of
             (Some queue, Some lp) \<Rightarrow> loop_step f tenantID ds queue lp m
           | _ \<Rightarrow> Inr m))"

text \<open>The goroutines that \<^verbatim>\<open>ScheduleServices\<close> spawns.\<close>

definition run_task :: "Facade \<Rightarrow> task \<Rightarrow> Manager \<Rightarrow> Manager" where
  "run_task f t m =
     (case t of
        SyncTask sids \<Rightarrow> SyncCurrentStates f sids m
      | ExpediteTask tenantID batch \<Rightarrow>
          (case updateBatch f batch (m_store m) of
             (st', batch') \<Rightarrow> m\<lparr>m_store := st', m_tasks := m_tasks m @ [ExpediteProcessTask tenantID batch']\<rparr>)
      | ExpediteProcessTask tenantID batch \<Rightarrow>
          (case processBatch f tenantID batch m of
             (m1, failed) \<Rightarrow>
               m1\<lparr>m_store := Batch_Cancel batch (m_store m1),
                  m_tasks := m_tasks m1 @ (if failed \<noteq> [] then [SyncTask failed] else [])\<rparr>))"

subsection \<open>Queries\<close>

definition findService :: "string \<Rightarrow> string \<Rightarrow> Manager \<Rightarrow> ref option" where
  "findService tenantID serviceID m =
     (case map_of (m_TenantQueues m) tenantID of
        None \<Rightarrow> None
      | Some qs \<Rightarrow>
          (case List.find (\<lambda>kq. find_in_queue (snd kq) serviceID \<noteq> None) qs of
             None \<Rightarrow> None
           | Some kq \<Rightarrow> find_in_queue (snd kq) serviceID))"

text \<open>\<^verbatim>\<open>WaitScheduled\<close> blocks on the channels of the services that it finds.\<close>

definition WaitScheduled :: "string \<Rightarrow> string list \<Rightarrow> Manager \<Rightarrow> ref list" where
  "WaitScheduled tenantID serviceIDs m = List.map_filter (\<lambda>sid. findService tenantID sid m) serviceIDs"

definition drained :: "ServiceStateQueue \<Rightarrow> bool" where
  "drained queue = (q_BatchQueue queue = [] \<and> b_Services (q_CurrentBatch queue) = [])"

definition Wait :: "string \<Rightarrow> Manager \<Rightarrow> bool" where
  "Wait tenantID m =
     (case map_of (m_TenantQueues m) tenantID of
        None \<Rightarrow> True
      | Some qs \<Rightarrow> list_all (\<lambda>kq. drained (snd kq)) qs)"

subsection \<open>All interleavings\<close>

text \<open>
  A step of the whole manager: a call of its interface, a step of a queue loop, a spawned
  goroutine, or the return of a current-state wait. The facade may answer differently at
  every step. \<^verbatim>\<open>removeTenant\<close> blocks until the loops receive the cancellation, so it is
  enabled only when all loops of the tenant can receive.
\<close>

definition receptive :: "string \<Rightarrow> Manager \<Rightarrow> bool" where
  "receptive t m = list_all (\<lambda>((t', _), lp). t' = t \<longrightarrow> lp_phase lp \<in> {AtTop, Blocked}) (m_loops m)"

inductive ssm_step :: "Manager \<Rightarrow> Manager \<Rightarrow> bool" where
  start: "ssm_step m (fst (Start f m))"
| shutdown: "list_all (\<lambda>t. receptive t m) (keys (m_TenantShutDowns m)) \<Longrightarrow> Shutdown m = Inr m' \<Longrightarrow>
    ssm_step m m'"
| add: "AddTenant t m = Inr m' \<Longrightarrow> ssm_step m m'"
| remove: "receptive t m \<Longrightarrow> RemoveTenant t m = Inr m' \<Longrightarrow> ssm_step m m'"
| schedule: "ssm_step m (fst (ScheduleServices svcs t ds em m))"
| sync: "ssm_step m (SyncCurrentStates f sids m)"
| loop: "queueLoop f t ds m = Inr m' \<Longrightarrow> ssm_step m m'"
| run: "m_tasks m = ts @ t # ts' \<Longrightarrow> ssm_step m (run_task f t (m\<lparr>m_tasks := ts @ ts'\<rparr>))"
| returns: "ssm_step m (wait_returns sid m)"

inductive ssm_reachable :: "Manager \<Rightarrow> bool" where
  init: "ssm_reachable (NewBatchServiceStateManager st)"
| step: "ssm_reachable m \<Longrightarrow> ssm_step m m' \<Longrightarrow> ssm_reachable m'"

end
