(* ===== verification/SSM_Invariant.thy ===== *)
theory SSM_Invariant
  imports SSM_Manager
begin

section \<open>The invariant of the service state manager\<close>

text \<open>
  What holds in every state that the manager can reach, for every interleaving of its
  callers, its queue loops and its goroutines and for every behaviour of the facade:
  every tenant has exactly a run queue and a stop queue, each with a loop; a service is
  queued at most once per tenant, in the queue of its kind; and no batch is empty.
\<close>

subsection \<open>Growth of the store\<close>

text \<open>
  Cells are never freed, a cell never changes its service's ID, and a closed channel
  stays closed.
\<close>

definition extends :: "CStore \<Rightarrow> CStore \<Rightarrow> bool" where
  "extends st st' \<longleftrightarrow> next_ref st \<le> next_ref st'
     \<and> (\<forall>r < next_ref st. id_at st' r = id_at st r \<and> (cancelled_at st r \<longrightarrow> cancelled_at st' r))"

lemma extends_refl [simp, intro]: "extends st st"
  by (simp add: extends_def)

lemma extends_trans: "extends st st' \<Longrightarrow> extends st' st'' \<Longrightarrow> extends st st''"
  by (auto simp: extends_def)

lemma extends_cancel_all [simp, intro]: "extends st (cancel_all rs st)"
  by (simp add: extends_def)

lemma extends_Cancel [simp, intro]: "extends st (CancellableService_Cancel r st)"
  using extends_cancel_all [of st "[r]"] by (simp add: cancel_all_def)

lemma set_service_simps [simp]:
  "svc_at (set_service r svc st) q = (if q = r then svc else svc_at st q)"
  "cancelled_at (set_service r svc st) q = cancelled_at st q"
  "next_ref (set_service r svc st) = next_ref st"
  by (simp_all add: set_service_def)

lemma extends_set_service [intro]: "id_at st r = svc_ID svc \<Longrightarrow> extends st (set_service r svc st)"
  by (simp add: extends_def)

lemma extends_New [intro]: "NewCancellableService svc st = (st', r) \<Longrightarrow> extends st st'"
  by (auto simp: NewCancellableService_def extends_def)

lemma waitServicesWithTimeout_all: "waitServicesWithTimeout svcs st = cancel_all (map snd svcs) st"
  by (simp add: waitServicesWithTimeout_def cancel_all_def fold_map comp_def case_prod_unfold)

subsection \<open>Batches that a component holds\<close>

definition held :: "CStore \<Rightarrow> (string, ref) gomap \<Rightarrow> bool" where
  "held st svcs \<longleftrightarrow> (\<forall>p \<in> set svcs. snd p < next_ref st \<and> id_at st (snd p) = fst p)"

definition batch_in :: "CStore \<Rightarrow> ServiceStateChangeBatch \<Rightarrow> bool" where
  "batch_in st b \<longleftrightarrow> wf_map (b_Services b) \<and> held st (b_Services b)"

lemma held_Nil [simp]: "held st []"
  by (simp add: held_def)

lemma held_extends: "held st svcs \<Longrightarrow> extends st st' \<Longrightarrow> held st' svcs"
  by (auto simp: held_def extends_def)

lemma batch_in_extends: "batch_in st b \<Longrightarrow> extends st st' \<Longrightarrow> batch_in st' b"
  by (auto simp: batch_in_def intro: held_extends)

lemma held_mono: "held st svcs \<Longrightarrow> set svcs' \<subseteq> set svcs \<Longrightarrow> held st svcs'"
  by (auto simp: held_def)

lemma held_keyed: "held st (b_Services b) \<Longrightarrow> keyed st b"
  by (auto simp: held_def keyed_def)

lemma batch_in_new_ok: "batch_in st b \<Longrightarrow> new_ok st b"
  by (simp add: batch_in_def new_ok_def held_keyed)

lemma batch_in_filter: "batch_in st b \<Longrightarrow> batch_in st (b\<lparr>b_Services := filter P (b_Services b)\<rparr>)"
  by (auto simp: batch_in_def held_def distinct_map_filter)

lemma batch_in_empty [simp]: "batch_in st empty_batch"
  by (simp add: batch_in_def held_def empty_batch_def)

lemma queue_ok_held:
  "queue_ok st bq \<Longrightarrow> held st (entries bq) \<Longrightarrow> extends st st' \<Longrightarrow> queue_ok st' bq"
  by (fastforce simp: queue_ok_def batch_ok_def keyed_def held_def extends_def)

subsection \<open>The invariant\<close>

abbreviation all_batches :: "TenantQueues \<Rightarrow> ServiceStateChangeBatch list" where
  "all_batches qs \<equiv> concat (map (\<lambda>kq. q_BatchQueue (snd kq)) qs)"

definition in_queue :: "CStore \<Rightarrow> DesiredState \<Rightarrow> ServiceStateQueue \<Rightarrow> bool" where
  "in_queue st ds q \<longleftrightarrow> (\<forall>b \<in> set (q_BatchQueue q). queueDesiredState (b_DesiredState b) = ds)
     \<and> batch_in st (q_CurrentBatch q)"

definition tenant_ok :: "CStore \<Rightarrow> TenantQueues \<Rightarrow> bool" where
  "tenant_ok st qs \<longleftrightarrow> wf_map qs \<and> set (keys qs) = {SVCRun, SVCStop}
     \<and> (\<forall>kq \<in> set qs. in_queue st (fst kq) (snd kq))
     \<and> queue_ok st (all_batches qs) \<and> held st (entries (all_batches qs))"

fun phase_ok :: "CStore \<Rightarrow> loop_phase \<Rightarrow> bool" where
  "phase_ok st (Fetched (Some b)) = batch_in st b"
| "phase_ok st (Synced b) = batch_in st b"
| "phase_ok st (Updated b) = batch_in st b"
| "phase_ok st (Waiting b) = batch_in st b"
| "phase_ok st _ = True"

fun task_ok :: "CStore \<Rightarrow> task \<Rightarrow> bool" where
  "task_ok st (SyncTask _) = True"
| "task_ok st (ExpediteTask _ b) = batch_in st b"
| "task_ok st (ExpediteProcessTask _ b) = batch_in st b"

definition manager_ok :: "Manager \<Rightarrow> bool" where
  "manager_ok m \<longleftrightarrow>
     dom (map_of (m_TenantShutDowns m)) = dom (map_of (m_TenantQueues m))
     \<and> dom (map_of (m_loops m)) = dom (map_of (m_TenantQueues m)) \<times> {SVCRun, SVCStop}
     \<and> (\<forall>t qs. map_of (m_TenantQueues m) t = Some qs \<longrightarrow> tenant_ok (m_store m) qs)
     \<and> (\<forall>k lp. map_of (m_loops m) k = Some lp \<longrightarrow> phase_ok (m_store m) (lp_phase lp))
     \<and> (\<forall>t \<in> set (m_tasks m). task_ok (m_store m) t)
     \<and> (m_shutdown m \<noteq> OpenChan \<longrightarrow> map_of (m_TenantQueues m) = Map.empty)"

lemma tenant_ok_extends: "tenant_ok st qs \<Longrightarrow> extends st st' \<Longrightarrow> tenant_ok st' qs"
  by (auto simp: tenant_ok_def in_queue_def intro: batch_in_extends held_extends queue_ok_held)

lemma phase_ok_extends: "phase_ok st ph \<Longrightarrow> extends st st' \<Longrightarrow> phase_ok st' ph"
  by (induction st ph rule: phase_ok.induct) (auto intro: batch_in_extends)

lemma task_ok_extends: "task_ok st t \<Longrightarrow> extends st st' \<Longrightarrow> task_ok st' t"
  by (cases t) (auto intro: batch_in_extends)

lemma manager_ok_tenant:
  "manager_ok m \<Longrightarrow> map_of (m_TenantQueues m) t = Some qs \<Longrightarrow> tenant_ok (m_store m) qs"
  by (simp add: manager_ok_def)

lemma manager_ok_extends:
  "manager_ok m \<Longrightarrow> extends (m_store m) st' \<Longrightarrow> manager_ok (m\<lparr>m_store := st'\<rparr>)"
  unfolding manager_ok_def
  by simp (blast intro: tenant_ok_extends phase_ok_extends task_ok_extends)

subsection \<open>What leaves the invariant alone\<close>

text \<open>The current-state bookkeeping only writes waits and facade calls.\<close>

definition quiet :: "Manager \<Rightarrow> Manager \<Rightarrow> bool" where
  "quiet m m' \<longleftrightarrow> m_store m' = m_store m \<and> m_TenantQueues m' = m_TenantQueues m
     \<and> m_loops m' = m_loops m \<and> m_TenantShutDowns m' = m_TenantShutDowns m
     \<and> m_tasks m' = m_tasks m \<and> m_shutdown m' = m_shutdown m"

lemma quiet_refl [simp, intro]: "quiet m m"
  by (simp add: quiet_def)

lemma quiet_trans: "quiet m m' \<Longrightarrow> quiet m' m'' \<Longrightarrow> quiet m m''"
  by (simp add: quiet_def)

lemma quiet_ok: "quiet m m' \<Longrightarrow> manager_ok m' = manager_ok m"
  by (auto simp: quiet_def manager_ok_def)

lemma quiet_update [simp, intro]: "quiet m (updateServiceCurrentState state sids m)"
  by (auto simp: quiet_def updateServiceCurrentState_def)

lemma quiet_spawn [simp, intro]: "quiet m (spawn_wait sid ds em m)"
  by (auto simp: quiet_def spawn_wait_def Let_def updateServiceCurrentState_def)

lemma quiet_start [simp, intro]: "quiet m (startCurrentStateWait svc ds em m)"
  by (auto simp: startCurrentStateWait_def quiet_def spawn_wait_def Let_def
      updateServiceCurrentState_def split: option.split)

lemma quiet_returns [simp, intro]: "quiet m (wait_returns sid m)"
  by (auto simp: wait_returns_def quiet_def split: option.split)

lemma quiet_fold: "(\<And>x m. quiet m (g x m)) \<Longrightarrow> quiet m (fold g xs m)"
  by (induction xs arbitrary: m) (auto intro: quiet_trans)

lemma quiet_sync_known: "quiet m (fst (sync_known states sids m))"
  by (induction states sids m rule: sync_known.induct)
    (auto split: option.split prod.split intro: quiet_trans)

lemma quiet_sync [simp, intro]: "quiet m (SyncCurrentStates f sids m)"
proof -
  obtain m1 missing where known: "sync_known (known_states m) sids m = (m1, missing)"
    by (cases "sync_known (known_states m) sids m") auto
  then have "quiet m m1" using quiet_sync_known [of m "known_states m" sids] by simp
  then show ?thesis
    unfolding SyncCurrentStates_def known by (auto intro: quiet_trans [OF _ quiet_fold])
qed

subsection \<open>Scheduling keeps the invariant\<close>

lemma make_cancellable_ok:
  assumes "make_cancellable svcs st acc = (st', acc')" and "wf_map acc" and "held st acc"
  shows "extends st st' \<and> wf_map acc' \<and> held st' acc'"
  using assms
proof (induction svcs arbitrary: st acc)
  case Nil
  then show ?case by simp
next
  case (Cons svc svcs)
  obtain st1 r where new: "NewCancellableService svc st = (st1, r)" by fastforce
  have "set (gset (svc_ID svc) r acc) \<subseteq> insert (svc_ID svc, r) (set acc)"
    using set_fold_gset [of "[(svc_ID svc, r)]" acc] by simp
  moreover have "held st1 acc" and ext: "extends st st1"
    using held_extends [OF Cons.prems(3)] extends_New [OF new] by auto
  moreover have "r < next_ref st1" "id_at st1 r = svc_ID svc"
    using new by (auto simp: NewCancellableService_def)
  ultimately have "held st1 (gset (svc_ID svc) r acc)"
    by (auto simp: held_def)
  from Cons.IH [OF _ _ this] Cons.prems new show ?case
    using extends_trans [OF ext] by simp
qed

lemma current_fold:
  assumes "distinct (keys ps)"
  shows "\<exists>P rs ca. fold (current_one n) ps (st, [], []) = (cancel_all rs st, filter P ps, ca)
    \<and> (\<forall>p \<in> set ps. P p \<longleftrightarrow> \<not> DesiredStateIsRedundant (b_DesiredState n) (b_Emergency n)
          (svc_CurrentState (svc_at st (snd p))))
    \<and> rs = map snd (filter (\<lambda>p. \<not> P p) ps) \<and> ca = keys (filter (\<lambda>p. \<not> P p) ps)"
proof -
  let ?P = "\<lambda>p. \<not> DesiredStateIsRedundant (b_DesiredState n) (b_Emergency n)
      (svc_CurrentState (svc_at st (snd p)))"
  have "fold (current_one n) ps (st, [], []) =
      (cancel_all (map snd (filter (\<lambda>p. \<not> ?P p) ps)) st, filter ?P ps, keys (filter (\<lambda>p. \<not> ?P p) ps))"
    using assms
  proof (induction ps rule: rev_induct)
    case (snoc p ps)
    have "fst p \<notin> set (keys (filter ?P ps))" using snoc.prems by auto
    with snoc show ?case
      by (simp add: current_one_def gset_new cancel_all_append) (simp add: cancel_all_def)
  qed simp
  then show ?thesis by (intro exI [of _ ?P] exI) auto
qed

text \<open>The requests that are redundant are exactly the ones dropped.\<close>

lemma reconcileWithCurrentState_closed:
  assumes "wf_map (b_Services n)" and "reconcileWithCurrentState st n = (st', n', ca)"
  shows "\<exists>P. n' = n\<lparr>b_Services := filter P (b_Services n)\<rparr>
    \<and> st' = cancel_all (map snd (filter (\<lambda>p. \<not> P p) (b_Services n))) st
    \<and> ca = keys (filter (\<lambda>p. \<not> P p) (b_Services n))
    \<and> (\<forall>p \<in> set (b_Services n). P p \<longleftrightarrow> \<not> DesiredStateIsRedundant (b_DesiredState n)
          (b_Emergency n) (svc_CurrentState (svc_at st (snd p))))"
  using assms(2) current_fold [OF assms(1), of n st]
  by (auto simp: reconcileWithCurrentState_def)

text \<open>What the loop over the queues of a tenant leaves of a request and of the queues.\<close>

definition looped ::
    "CStore \<Rightarrow> TenantQueues \<Rightarrow> ServiceStateChangeBatch \<Rightarrow>
     CStore \<Rightarrow> TenantQueues \<Rightarrow> ServiceStateChangeBatch \<Rightarrow> bool" where
  "looped st qs n st' qs' n' \<longleftrightarrow>
     (\<exists>rs. st' = cancel_all rs st)
     \<and> list_all2 (\<lambda>kq' kq. fst kq' = fst kq \<and> thinned (q_BatchQueue (snd kq')) (q_BatchQueue (snd kq))
          \<and> q_CurrentBatch (snd kq') = q_CurrentBatch (snd kq)) qs' qs
     \<and> (\<exists>P. n' = n\<lparr>b_Services := filter P (b_Services n)\<rparr>)
     \<and> ids (entries (all_batches qs')) \<inter> ids (b_Services n') = {}"

lemma list_all2_thin_refl:
  assumes "\<forall>b \<in> set (all_batches qs). b_Services b \<noteq> []"
  shows "list_all2 (\<lambda>kq' kq. fst kq' = fst kq \<and> thinned (q_BatchQueue (snd kq')) (q_BatchQueue (snd kq))
          \<and> q_CurrentBatch (snd kq') = q_CurrentBatch (snd kq)) qs qs"
  using assms by (intro list.rel_refl_strong) (auto intro: thinned_refl)

lemma schedule_loop_looped:
  assumes "schedule_loop st qs n ex ca = (st', qs', n', ex', ca')" and "new_ok st n"
    and "\<forall>b \<in> set (all_batches qs). b_Services b \<noteq> []"
  shows "looped st qs n st' qs' n'"
  using assms
proof (induction qs arbitrary: st n ex ca st' qs' n' ex' ca')
  case Nil
  then show ?case by (auto simp: looped_def intro: exI [of _ "[]"] exI [of _ "\<lambda>_. True"])
next
  case (Cons kq qs)
  obtain k q where kq: "kq = (k, q)" by (cases kq)
  obtain st1 q1 n1 exb c where rec: "reconcileWithBatchQueue st q n = (st1, q1, n1, exb, c)"
    by (cases "reconcileWithBatchQueue st q n") auto
  from reconcileWithBatchQueue_passed [OF rec Cons.prems(2)]
  obtain rs P where p1: "st1 = cancel_all rs st" "thinned (q_BatchQueue q1) (q_BatchQueue q)"
    "n1 = n\<lparr>b_Services := filter P (b_Services n)\<rparr>"
    "ids (entries (q_BatchQueue q1)) \<inter> ids (b_Services n1) = {}" "q_CurrentBatch q1 = q_CurrentBatch q"
    by (auto simp: passed_def)
  show ?case
  proof (cases "b_Services n1 = []")
    case True
    then have "st' = st1" "qs' = (k, q1) # qs" "n' = n1"
      using Cons.prems(1) kq rec by (auto simp: Let_def)
    then show ?thesis
      using p1 kq True Cons.prems(3) list_all2_thin_refl [of qs]
      by (auto simp: looped_def intro!: exI [of _ "\<lambda>_. False"])
  next
    case False
    obtain st2 n2 where pend: "reconcileWithPendingBatch st1 q1 n1 = (st2, n2)" by fastforce
    have wf1: "wf_map (b_Services n1)" and ok1: "new_ok st1 n1"
      using Cons.prems(2) p1(1,3) by (simp_all add: new_ok_def distinct_map_filter keyed_filter)
    obtain rs2 P2 where p2: "st2 = cancel_all rs2 st1" "n2 = n1\<lparr>b_Services := filter P2 (b_Services n1)\<rparr>"
      using pend reconcileWithPendingBatch_closed [OF wf1, of st1 q1] by auto
    obtain st3 qs3 n3 ex3 ca3 where rest: "schedule_loop st2 qs n2
        (fold (\<lambda>(k, v). gset k v) (b_Services exb) ex) (ca @ c) = (st3, qs3, n3, ex3, ca3)"
      by (cases "schedule_loop st2 qs n2 (fold (\<lambda>(k, v). gset k v) (b_Services exb) ex) (ca @ c)") auto
    then have out: "st' = st3" "qs' = (k, q1) # qs3" "n' = n3"
      using Cons.prems(1) kq rec pend False by (auto simp: Let_def)
    have "new_ok st2 n2" using p2 new_ok_filter [OF ok1] by simp
    from Cons.IH [OF rest this] Cons.prems(3) have tail: "looped st2 qs n2 st3 qs3 n3" by simp
    then obtain rs3 P3 where p3: "st3 = cancel_all rs3 st2"
      "n3 = n2\<lparr>b_Services := filter P3 (b_Services n2)\<rparr>"
      by (auto simp: looped_def)
    have "ids (b_Services n3) \<subseteq> ids (b_Services n1)" using p2 p3 by (auto simp: ids_def)
    then have disj: "ids (entries (q_BatchQueue q1)) \<inter> ids (b_Services n3) = {}" using p1(4) by blast
    have st3: "st3 = cancel_all (rs @ rs2 @ rs3) st" using p1 p2 p3 by (simp add: cancel_all_append)
    have n3: "n3 = n\<lparr>b_Services := filter (\<lambda>p. (P p \<and> P2 p) \<and> P3 p) (b_Services n)\<rparr>"
      using p1 p2 p3 by (simp add: conj_ac)
    show ?thesis
      using tail p1(2,5) kq out disj unfolding looped_def
      by (intro conjI exI [of _ "rs @ rs2 @ rs3"] exI [of _ "\<lambda>p. (P p \<and> P2 p) \<and> P3 p"])
        (auto simp: st3 n3)
  qed
qed

lemma list_all2_set1_E:
  assumes "list_all2 R xs ys" and "x \<in> set xs"
  obtains y where "y \<in> set ys" and "R x y"
  using assms by (induction rule: list_all2_induct) auto

lemma looped_tenant:
  assumes "looped st qs n st' qs' n'" and "tenant_ok st qs"
  shows "tenant_ok st' qs'"
proof -
  let ?R = "\<lambda>kq' kq. fst kq' = fst kq \<and> thinned (q_BatchQueue (snd kq')) (q_BatchQueue (snd kq))
          \<and> q_CurrentBatch (snd kq') = q_CurrentBatch (snd kq)"
  have rel: "list_all2 ?R qs' qs" and ext: "extends st st'"
    using assms(1) by (auto simp: looped_def)
  have keys: "keys qs' = keys qs" using rel by (induction rule: list_all2_induct) auto
  have thin: "thinned (all_batches qs') (all_batches qs)"
    using rel by (induction rule: list_all2_induct) (auto intro: thinned.nil thinned_append)
  have "in_queue st (fst kq') (snd kq')" if member: "kq' \<in> set qs'" for kq'
  proof -
    obtain kq where "kq \<in> set qs" and R: "?R kq' kq"
      using rel member by (blast elim: list_all2_set1_E)
    with assms(2) have "in_queue st (fst kq) (snd kq)" by (simp add: tenant_ok_def)
    with R show ?thesis
      using thinned_kinds [of "q_BatchQueue (snd kq')" "q_BatchQueue (snd kq)"]
      by (fastforce simp: in_queue_def)
  qed
  moreover have "queue_ok st (all_batches qs')" "held st (entries (all_batches qs'))"
    using assms(2) queue_ok_thinned [OF thin] held_mono thinned_entries [OF thin]
    by (auto simp: tenant_ok_def)
  ultimately have "tenant_ok st qs'"
    using assms(2) keys by (simp add: tenant_ok_def)
  then show ?thesis using ext by (rule tenant_ok_extends)
qed

lemma schedule_loop_expedited:
  assumes "schedule_loop st qs n ex ca = (st', qs', n', ex', ca')" and "new_ok st n"
  shows "set ex' \<subseteq> set ex \<union> set (entries (all_batches qs)) \<and> (wf_map ex \<longrightarrow> wf_map ex')"
  using assms
proof (induction qs arbitrary: st n ex ca st' qs' n' ex' ca')
  case Nil
  then show ?case by simp
next
  case (Cons kq qs)
  obtain k q where kq: "kq = (k, q)" by (cases kq)
  obtain st1 q1 n1 exb c where rec: "reconcileWithBatchQueue st q n = (st1, q1, n1, exb, c)"
    by (cases "reconcileWithBatchQueue st q n") auto
  let ?ex = "fold (\<lambda>(k, v). gset k v) (b_Services exb) ex"
  have here: "set ?ex \<subseteq> set ex \<union> set (entries (q_BatchQueue q))" "wf_map ex \<longrightarrow> wf_map ?ex"
    using reconcileWithBatchQueue_expedited [OF rec Cons.prems(2)] set_fold_gset [of "b_Services exb" ex]
      gomap.invar_fold_set [of ex "b_Services exb"] by auto
  show ?case
  proof (cases "b_Services n1 = []")
    case True
    then show ?thesis using Cons.prems(1) kq rec here by (auto simp: Let_def)
  next
    case False
    have ok1: "new_ok st1 n1"
      using reconcileWithBatchQueue_passed [OF rec Cons.prems(2)] new_ok_filter [OF Cons.prems(2)]
      by (auto simp: passed_def)
    obtain st2 n2 where pend: "reconcileWithPendingBatch st1 q1 n1 = (st2, n2)" by fastforce
    then have "new_ok st2 n2"
      using reconcileWithPendingBatch_closed [of n1 st1 q1] ok1 new_ok_filter [OF ok1]
      by (auto simp: new_ok_def)
    moreover obtain st3 qs3 n3 ex3 ca3 where rest: "schedule_loop st2 qs n2 ?ex (ca @ c)
        = (st3, qs3, n3, ex3, ca3)" by (cases "schedule_loop st2 qs n2 ?ex (ca @ c)") auto
    moreover have "ex' = ex3" using Cons.prems(1) kq rec pend False rest by (auto simp: Let_def)
    ultimately show ?thesis using Cons.IH [OF rest] here kq by auto
  qed
qed

lemma queue_split:
  assumes "wf_map qs" and "map_of qs k = Some q"
  shows "\<exists>xs ys. qs = xs @ (k, q) # ys \<and> (\<forall>q'. gset k q' qs = xs @ (k, q') # ys)"
  using assms
proof (induction qs)
  case (Cons p qs)
  show ?case
  proof (cases "fst p = k")
    case True
    then have "p = (k, q)" using Cons.prems by (cases p) auto
    then show ?thesis by (intro exI [of _ "[]"] exI [of _ qs]) (simp add: gset_Cons)
  next
    case False
    then obtain xs ys where "qs = xs @ (k, q) # ys" "\<forall>q'. gset k q' qs = xs @ (k, q') # ys"
      using Cons by (cases p) auto
    with False show ?thesis by (intro exI [of _ "p # xs"] exI [of _ ys]) (simp add: gset_Cons)
  qed
qed simp

text \<open>Replacing one queue of a tenant, when the new queue adds entries that were nowhere.\<close>

lemma tenant_ok_gset:
  assumes "tenant_ok st qs" and "map_of qs k = Some q" and "in_queue st k q'"
    and "queue_ok st (q_BatchQueue q')" and "held st (entries (q_BatchQueue q'))"
    and "ids (entries (q_BatchQueue q')) \<inter> (ids (entries (all_batches qs)) - ids (entries (q_BatchQueue q))) = {}"
  shows "tenant_ok st (gset k q' qs)"
proof -
  obtain xs ys where qs: "qs = xs @ (k, q) # ys" and upd: "gset k q' qs = xs @ (k, q') # ys"
    using queue_split assms(1,2) by (metis tenant_ok_def)
  have ok: "queue_ok st (all_batches xs)" "queue_ok st (all_batches ys)"
    "ids (entries (all_batches xs)) \<inter> ids (entries (all_batches ys)) = {}"
    "ids (entries (q_BatchQueue q)) \<inter> ids (entries (all_batches xs)) = {}"
    "ids (entries (q_BatchQueue q)) \<inter> ids (entries (all_batches ys)) = {}"
    using assms(1) unfolding tenant_ok_def qs by (auto simp: queue_ok_append)
  moreover have "ids (entries (q_BatchQueue q')) \<inter> ids (entries (all_batches xs)) = {}"
    "ids (entries (q_BatchQueue q')) \<inter> ids (entries (all_batches ys)) = {}"
    using assms(6) ok(4,5) unfolding qs by auto
  ultimately have "queue_ok st (all_batches (gset k q' qs))"
    using assms(4) unfolding upd by (auto simp: queue_ok_append)
  then show ?thesis
    using assms(1,3,5) unfolding tenant_ok_def upd unfolding qs by (auto simp: held_def)
qed

lemma mergeBatch_adds:
  assumes "queue_ok st (q_BatchQueue q)" and "batch_ok st n" and "wf_map (b_Services n)"
    and "ids (entries (q_BatchQueue q)) \<inter> ids (b_Services n) = {}"
  shows "\<exists>q'. mergeBatch st q n = Inr q' \<and> queue_ok st (q_BatchQueue q')
    \<and> q_CurrentBatch q' = q_CurrentBatch q
    \<and> mset (entries (q_BatchQueue q')) = mset (entries (q_BatchQueue q)) + mset (b_Services n)
    \<and> (\<forall>b \<in> set (q_BatchQueue q'). b \<in> set (q_BatchQueue q) \<or> same_kind b n)"
proof -
  let ?bq = "q_BatchQueue q"
  obtain k out where out: "mergeBatch st q n = Inr (q\<lparr>q_BatchQueue :=
        (if b_Emergency n then out @ drop k ?bq else take k ?bq @ out)\<rparr>)"
      "\<forall>b \<in> set out. same_kind b n"
      "mset (entries out) = mset (b_Services n)
        + mset (entries (if b_Emergency n then take k ?bq else drop k ?bq))"
      "queue_ok st (if b_Emergency n then out @ drop k ?bq else take k ?bq @ out)"
    using mergeBatch_shape [OF assms] by blast
  have "mset (entries ?bq) = mset (entries (take k ?bq)) + mset (entries (drop k ?bq))"
    by (metis append_take_drop_id concat_append map_append mset_append)
  then show ?thesis
    using out
    by (intro exI [of _ "q\<lparr>q_BatchQueue :=
        (if b_Emergency n then out @ drop k ?bq else take k ?bq @ out)\<rparr>"])
      (auto dest: in_set_takeD in_set_dropD)
qed

lemma merged_eq:
  "(if b_Emergency n then mergeEmergencyBatch st q n else mergeBatch st q n) = mergeBatch st q n"
  by (simp add: mergeBatch.simps)

text \<open>
  Handing the rest of a request to its queue: it fails only for a state without a queue;
  otherwise its services are queued, once, in the queue of the requested state.
\<close>

lemma signal_changed_frame:
  "m_store (signal_changed t k m) = m_store m" "m_TenantQueues (signal_changed t k m) = m_TenantQueues m"
  "m_TenantShutDowns (signal_changed t k m) = m_TenantShutDowns m"
  "m_tasks (signal_changed t k m) = m_tasks m" "m_shutdown (signal_changed t k m) = m_shutdown m"
  by (simp_all add: signal_changed_def split: option.split)

lemma dom_update_known: "f k = Some v \<Longrightarrow> dom (f(k \<mapsto> v')) = dom f"
  by auto

lemma set_loop_ok:
  assumes "manager_ok m" and "map_of (m_loops m) (t, k) = Some lp"
    and "phase_ok (m_store m) (lp_phase lp')"
  shows "manager_ok (set_loop t k lp' m)"
  using assms dom_update_known [of "map_of (m_loops m)" "(t, k)", OF assms(2), of lp']
  by (auto simp: set_loop_def manager_ok_def simp del: dom_fun_upd)

lemma signal_changed_ok:
  assumes "manager_ok m"
  shows "manager_ok (signal_changed t k m)"
proof (cases "map_of (m_loops m) (t, k)")
  case (Some lp)
  with assms show ?thesis
    using set_loop_ok [OF assms Some, of "lp\<lparr>lp_phase := AtTop\<rparr>"]
    by (simp add: signal_changed_def set_loop_def)
qed (simp add: signal_changed_def assms)

lemma update_frame:
  "m_store (updateServiceCurrentState s sids m) = m_store m"
  "m_TenantQueues (updateServiceCurrentState s sids m) = m_TenantQueues m"
  "m_tasks (updateServiceCurrentState s sids m) = m_tasks m"
  by (simp_all add: updateServiceCurrentState_def)

lemma enqueue_ok:
  assumes ok: "manager_ok m" and queues: "map_of (m_TenantQueues m) t = Some queues"
    and n: "batch_in (m_store m) n"
    and disj: "ids (entries (all_batches queues)) \<inter> ids (b_Services n) = {}"
    and run: "enqueue t queues n m = (m', err)"
  shows "manager_ok m' \<and> m_store m' = m_store m \<and> m_tasks m' = m_tasks m
    \<and> err = (if b_Services n = [] \<or> known_state (b_DesiredState n) then None else Some ErrMissingQueue)
    \<and> (b_Services n \<noteq> [] \<and> known_state (b_DesiredState n) \<longrightarrow>
        (\<exists>q'. map_of (m_TenantQueues m') t = Some (gset (queueDesiredState (b_DesiredState n)) q' queues)
          \<and> (\<exists>q. map_of queues (queueDesiredState (b_DesiredState n)) = Some q
               \<and> mset (entries (q_BatchQueue q')) = mset (entries (q_BatchQueue q)) + mset (b_Services n)
               \<and> (\<forall>b \<in> set (q_BatchQueue q'). b \<in> set (q_BatchQueue q) \<or> same_kind b n))))"
proof -
  let ?k = "queueDesiredState (b_DesiredState n)"
  have ten: "tenant_ok (m_store m) queues" using ok queues by (simp add: manager_ok_def)
  have keys: "map_of queues k = None \<longleftrightarrow> k \<notin> {SVCRun, SVCStop}" for k
    using ten by (simp add: tenant_ok_def map_of_eq_None_keys)
  have known: "?k \<in> {SVCRun, SVCStop} \<longleftrightarrow> known_state (b_DesiredState n)"
    by (auto simp: queueDesiredState_def)
  show ?thesis
  proof (cases "b_Services n = [] \<or> map_of queues ?k = None")
    case True
    then show ?thesis using run ok keys [of ?k] known by (auto simp: enqueue_def Let_def)
  next
    case False
    then obtain q where q: "map_of queues ?k = Some q" and ne: "b_Services n \<noteq> []" by auto
    have kn: "known_state (b_DesiredState n)" using keys [of ?k] known q by auto
    obtain xs ys where split: "queues = xs @ (?k, q) # ys"
      using queue_split q ten unfolding tenant_ok_def by metis
    have qok: "queue_ok (m_store m) (q_BatchQueue q)" "held (m_store m) (entries (q_BatchQueue q))"
      "ids (entries (q_BatchQueue q)) \<inter> ids (b_Services n) = {}" "in_queue (m_store m) ?k q"
      using ten disj unfolding tenant_ok_def split by (auto simp: queue_ok_append held_def)
    moreover have "batch_ok (m_store m) n" "wf_map (b_Services n)"
      using n ne kn by (auto simp: batch_ok_def batch_in_def held_keyed)
    ultimately obtain q' where merge: "mergeBatch (m_store m) q n = Inr q'"
      and q': "queue_ok (m_store m) (q_BatchQueue q')" "q_CurrentBatch q' = q_CurrentBatch q"
        "mset (entries (q_BatchQueue q')) = mset (entries (q_BatchQueue q)) + mset (b_Services n)"
        "\<forall>b \<in> set (q_BatchQueue q'). b \<in> set (q_BatchQueue q) \<or> same_kind b n"
      using mergeBatch_adds by blast
    have members: "set (entries (q_BatchQueue q')) = set (entries (q_BatchQueue q)) \<union> set (b_Services n)"
      using q'(3) by (metis set_mset_mset set_mset_union)
    have "in_queue (m_store m) ?k q'" using qok(4) q'(2,4) by (fastforce simp: in_queue_def)
    moreover have "held (m_store m) (entries (q_BatchQueue q'))"
      using qok(2) n members by (auto simp: held_def batch_in_def)
    moreover have "ids (entries (q_BatchQueue q')) = ids (entries (q_BatchQueue q)) \<union> ids (b_Services n)"
      using members by (metis ids_def image_Un)
    then have "ids (entries (q_BatchQueue q'))
        \<inter> (ids (entries (all_batches queues)) - ids (entries (q_BatchQueue q))) = {}"
      using disj by blast
    ultimately have ten': "tenant_ok (m_store m) (gset ?k q' queues)"
      using tenant_ok_gset [OF ten q _ q'(1)] by blast
    let ?m1 = "m\<lparr>m_TenantQueues := gset t (gset ?k q' queues) (m_TenantQueues m)\<rparr>"
    have "dom ((map_of (m_TenantQueues m))(t \<mapsto> v)) = dom (map_of (m_TenantQueues m))" for v
      using queues by auto
    then have "manager_ok ?m1" using ok ten' queues by (auto simp: manager_ok_def)
    moreover have "m' = signal_changed t ?k (updateServiceCurrentState
        (DesiredToCurrentPendingState (b_DesiredState n) (b_Emergency n)) (keys (b_Services n)) ?m1)"
      and "err = None"
      using run ne q by (simp_all add: enqueue_def merged_eq merge Let_def)
    ultimately show ?thesis
      using ne kn q q'(3,4) quiet_ok [OF quiet_update]
      by (auto simp: signal_changed_ok signal_changed_frame update_frame)
  qed
qed

subsection \<open>No request is lost\<close>

lemma reconcileWithBatchQueue_accounted:
  assumes "reconcileWithBatchQueue st q n = (st', q', n', ex, ca)" and "new_ok st n"
    and "distinct (keys (entries (q_BatchQueue q)))"
  shows "p \<in> set (b_Services n) \<Longrightarrow> p \<in> set (b_Services n') \<or> cancelled_at st' (snd p) \<or> fst p \<in> set ca"
    and "p \<in> set (entries (q_BatchQueue q)) \<Longrightarrow>
      p \<in> set (entries (q_BatchQueue q')) \<or> cancelled_at st' (snd p) \<or> p \<in> set (b_Services ex)"
proof -
  obtain exs where run: "reconcile_batches st (q_BatchQueue q) n [] [] []
      = (st', q_BatchQueue q', n', exs, ca)" and exs: "b_Services ex = exs"
    using assms(1) by (auto simp: reconcileWithBatchQueue_def split: prod.splits)
  show "p \<in> set (b_Services n) \<Longrightarrow> p \<in> set (b_Services n') \<or> cancelled_at st' (snd p) \<or> fst p \<in> set ca"
    using reconcile_batches_new_accounted [OF run assms(2), of p] by simp
  show "p \<in> set (entries (q_BatchQueue q)) \<Longrightarrow>
      p \<in> set (entries (q_BatchQueue q')) \<or> cancelled_at st' (snd p) \<or> p \<in> set (b_Services ex)"
    using reconcile_batches_old_accounted [OF run assms(2,3), of p] exs by simp
qed

lemma pending_accounted:
  assumes "wf_map (b_Services n)" and "reconcileWithPendingBatch st q n = (st', n')"
    and "p \<in> set (b_Services n)"
  shows "p \<in> set (b_Services n') \<or> cancelled_at st' (snd p)"
proof (cases "pending_replaced (q_CurrentBatch q) n \<or> \<not> in_batch (q_CurrentBatch q) p")
  case True
  with assms show ?thesis by (auto simp: reconcileWithPendingBatch_closed)
next
  case False
  then have "snd p \<in> set (map snd (filter (in_batch (q_CurrentBatch q)) (b_Services n)))"
    using assms(3) by auto
  moreover have "st' = cancel_all (map snd (filter (in_batch (q_CurrentBatch q)) (b_Services n))) st"
    using False assms(2) by (simp add: reconcileWithPendingBatch_closed [OF assms(1)])
  ultimately show ?thesis by (simp only: cancelled_at_cancel_all) simp
qed

lemma distinct_keys_append:
  "distinct (keys (xs @ ys)) \<longleftrightarrow> distinct (keys xs) \<and> distinct (keys ys) \<and> ids xs \<inter> ids ys = {}"
  by (simp add: ids_def)

lemma schedule_loop_accounted:
  assumes "schedule_loop st qs n ex ca = (st', qs', n', ex', ca')" and "new_ok st n"
    and "distinct (keys (ex @ entries (all_batches qs)))"
  shows "(p \<in> set (b_Services n) \<or> cancelled_at st (snd p) \<or> fst p \<in> set ca \<longrightarrow>
        p \<in> set (b_Services n') \<or> cancelled_at st' (snd p) \<or> fst p \<in> set ca')
    \<and> (e \<in> set (entries (all_batches qs)) \<or> cancelled_at st (snd e) \<or> e \<in> set ex \<longrightarrow>
        e \<in> set (entries (all_batches qs')) \<or> cancelled_at st' (snd e) \<or> e \<in> set ex')"
  using assms
proof (induction qs arbitrary: st n ex ca st' qs' n' ex' ca')
  case Nil
  then show ?case by simp
next
  case (Cons kq qs)
  obtain k q where kq: "kq = (k, q)" by (cases kq)
  obtain st1 q1 n1 exb c where rec: "reconcileWithBatchQueue st q n = (st1, q1, n1, exb, c)"
    by (cases "reconcileWithBatchQueue st q n") auto
  have parts: "entries (all_batches (kq # qs)) = entries (q_BatchQueue q) @ entries (all_batches qs)"
    by (simp add: kq)
  have dist: "distinct (keys (entries (q_BatchQueue q)))"
    and sep: "distinct (keys ex)" "distinct (keys (entries (all_batches qs)))"
      "ids ex \<inter> ids (entries (q_BatchQueue q)) = {}"
      "ids ex \<inter> ids (entries (all_batches qs)) = {}"
      "ids (entries (q_BatchQueue q)) \<inter> ids (entries (all_batches qs)) = {}"
    using Cons.prems(3) unfolding parts distinct_keys_append ids_simps by auto
  note acc = reconcileWithBatchQueue_accounted [OF rec Cons.prems(2) dist]
  note exb = reconcileWithBatchQueue_expedited [OF rec Cons.prems(2)]
  have passed: "passed st (q_BatchQueue q) n st1 (q_BatchQueue q1) n1"
    using reconcileWithBatchQueue_passed [OF rec Cons.prems(2)] by simp
  then have mono1: "cancelled_at st r \<Longrightarrow> cancelled_at st1 r" for r by (auto simp: passed_def)
  have idsb: "ids (b_Services exb) \<subseteq> ids (entries (q_BatchQueue q))" using exb by (intro ids_mono) simp
  have ex1: "fold (\<lambda>(k, v). gset k v) (b_Services exb) ex = ex @ b_Services exb"
    using exb idsb sep(3) by (intro fold_gset_new) auto
  show ?case
  proof (cases "b_Services n1 = []")
    case True
    then have "st' = st1" "qs' = (k, q1) # qs" "n' = n1" "ex' = ex @ b_Services exb" "ca' = ca @ c"
      using Cons.prems(1) kq rec ex1 by (auto simp: Let_def)
    then show ?thesis using acc [of p] acc [of e] mono1 kq by auto
  next
    case False
    obtain st2 n2 where pend: "reconcileWithPendingBatch st1 q1 n1 = (st2, n2)" by fastforce
    have ok1: "new_ok st1 n1" using passed new_ok_filter [OF Cons.prems(2)] by (auto simp: passed_def)
    then have wf1: "wf_map (b_Services n1)" by (simp add: new_ok_def)
    have ok2: "new_ok st2 n2" and mono2: "cancelled_at st1 r \<Longrightarrow> cancelled_at st2 r" for r
      using pend new_ok_filter [OF ok1] by (auto simp: reconcileWithPendingBatch_closed [OF wf1])
    obtain st3 qs3 n3 ex3 ca3 where rest: "schedule_loop st2 qs n2 (ex @ b_Services exb) (ca @ c)
        = (st3, qs3, n3, ex3, ca3)"
      by (cases "schedule_loop st2 qs n2 (ex @ b_Services exb) (ca @ c)") auto
    then have out: "st' = st3" "qs' = (k, q1) # qs3" "n' = n3" "ex' = ex3" "ca' = ca3"
      using Cons.prems(1) kq rec pend False ex1 by (auto simp: Let_def)
    have dist2: "distinct (keys ((ex @ b_Services exb) @ entries (all_batches qs)))"
      using sep exb idsb unfolding distinct_keys_append ids_simps by auto
    note IH = Cons.IH [OF rest ok2 dist2]
    have new: "p \<in> set (b_Services n2) \<or> cancelled_at st2 (snd p) \<or> fst p \<in> set (ca @ c)"
      if "p \<in> set (b_Services n) \<or> cancelled_at st (snd p) \<or> fst p \<in> set ca"
      using that acc(1) [of p] mono1 mono2 pending_accounted [OF wf1 pend, of p] by auto
    have old: "e \<in> set (entries (q_BatchQueue q1)) \<or> e \<in> set (entries (all_batches qs))
        \<or> cancelled_at st2 (snd e) \<or> e \<in> set (ex @ b_Services exb)"
      if "e \<in> set (entries (all_batches (kq # qs))) \<or> cancelled_at st (snd e) \<or> e \<in> set ex"
      using that acc(2) [of e] mono1 mono2 unfolding parts set_append by blast
    have after: "entries (all_batches qs') = entries (q_BatchQueue q1) @ entries (all_batches qs3)"
      using out by simp
    show ?thesis
      using IH new old unfolding after set_append out(1,3-5) by blast
  qed
qed

subsection \<open>ScheduleServices\<close>

definition queued :: "Manager \<Rightarrow> string \<Rightarrow> string \<times> ref \<Rightarrow> bool" where
  "queued m t p \<longleftrightarrow> (\<exists>qs. map_of (m_TenantQueues m) t = Some qs \<and> p \<in> set (entries (all_batches qs)))"

definition queued_for :: "Manager \<Rightarrow> string \<Rightarrow> DesiredState \<Rightarrow> bool \<Rightarrow> string \<times> ref \<Rightarrow> bool" where
  "queued_for m t ds em p \<longleftrightarrow>
     (\<exists>qs q b. map_of (m_TenantQueues m) t = Some qs \<and> map_of qs (queueDesiredState ds) = Some q
        \<and> b \<in> set (q_BatchQueue q) \<and> b_DesiredState b = ds \<and> b_Emergency b = em
        \<and> p \<in> set (b_Services b))"

abbreviation to_sync :: "Manager \<Rightarrow> string \<Rightarrow> bool" where
  "to_sync m sid \<equiv> \<exists>sids. SyncTask sids \<in> set (m_tasks m) \<and> sid \<in> set sids"

abbreviation expedited_in :: "Manager \<Rightarrow> string \<Rightarrow> string \<times> ref \<Rightarrow> bool" where
  "expedited_in m t p \<equiv> \<exists>b. ExpediteTask t b \<in> set (m_tasks m) \<and> p \<in> set (b_Services b)"

text \<open>The entries that a call of \<^verbatim>\<open>ScheduleServices\<close> creates.\<close>

definition requested :: "Service list \<Rightarrow> Manager \<Rightarrow> (string, ref) gomap" where
  "requested svcs m = snd (make_cancellable svcs (m_store m) [])"

lemma ids_gset [simp]: "ids (gset k v m) = insert k (ids m)"
  using keys_gset [of k v m] by (simp only: set_keys)

lemma requested_ids:
  "make_cancellable svcs st acc = (st', acc') \<Longrightarrow> ids acc' = ids acc \<union> svc_ID ` set svcs"
  by (induction svcs arbitrary: st acc) (auto split: prod.splits)

text \<open>The phases of a call for a known tenant.\<close>

lemma ScheduleServices_phases:
  assumes ok: "manager_ok m" and ten: "map_of (m_TenantQueues m) t = Some queues"
    and run: "ScheduleServices svcs t ds em m = (m', err)"
  obtains st queues1 n1 ex ca st1 st2 n2 ca2 m2 where
    "extends (m_store m) st" "batch_in st \<lparr>b_Services = requested svcs m, b_DesiredState = ds, b_Emergency = em\<rparr>"
    "schedule_loop st queues \<lparr>b_Services = requested svcs m, b_DesiredState = ds, b_Emergency = em\<rparr> [] []
       = (st1, queues1, n1, ex, ca)"
    "tenant_ok st1 queues1" "looped st queues
       \<lparr>b_Services = requested svcs m, b_DesiredState = ds, b_Emergency = em\<rparr> st1 queues1 n1"
    "reconcileWithCurrentState st1 n1 = (st2, n2, ca2)"
    "m2 = m\<lparr>m_store := st2, m_TenantQueues := gset t queues1 (m_TenantQueues m),
            m_tasks := m_tasks m @ (if ex \<noteq> [] then [ExpediteTask t
              \<lparr>b_Services = ex, b_DesiredState = ds, b_Emergency = em\<rparr>] else [])\<rparr>"
    "manager_ok m2" "batch_in st2 n2" "ids (entries (all_batches queues1)) \<inter> ids (b_Services n2) = {}"
    "m' = (fst (enqueue t queues1 n2 m2))\<lparr>m_tasks := m_tasks (fst (enqueue t queues1 n2 m2)) @
            (if ca @ ca2 \<noteq> [] then [SyncTask (ca @ ca2)] else [])\<rparr>"
    "err = snd (enqueue t queues1 n2 m2)"
proof -
  obtain st svcs' where made: "make_cancellable svcs (m_store m) [] = (st, svcs')" by fastforce
  let ?n = "\<lparr>b_Services = requested svcs m, b_DesiredState = ds, b_Emergency = em\<rparr>"
  have req: "requested svcs m = svcs'" by (simp add: requested_def made)
  have mk: "extends (m_store m) st" "batch_in st ?n"
    using make_cancellable_ok [OF made] req by (auto simp: batch_in_def held_def)
  have tok: "tenant_ok st queues"
    using manager_ok_tenant [OF ok ten] mk(1) by (rule tenant_ok_extends)
  obtain st1 queues1 n1 ex ca where loop: "schedule_loop st queues ?n [] [] = (st1, queues1, n1, ex, ca)"
    by (cases "schedule_loop st queues ?n [] []") auto
  have ne: "\<forall>b \<in> set (all_batches queues). b_Services b \<noteq> []"
    using tok by (auto simp: tenant_ok_def queue_ok_def batch_ok_def)
  note looped = schedule_loop_looped [OF loop batch_in_new_ok [OF mk(2)] ne]
  have tok1: "tenant_ok st1 queues1" using looped_tenant [OF looped tok] .
  obtain rs P where st1: "st1 = cancel_all rs st" and n1: "n1 = ?n\<lparr>b_Services := filter P (b_Services ?n)\<rparr>"
    and disj: "ids (entries (all_batches queues1)) \<inter> ids (b_Services n1) = {}"
    using looped by (auto simp: looped_def)
  have "batch_in st1 n1"
    unfolding n1 st1 using batch_in_filter [OF batch_in_extends [OF mk(2) extends_cancel_all]] .
  moreover obtain st2 n2 ca2 where cur: "reconcileWithCurrentState st1 n1 = (st2, n2, ca2)"
    by (cases "reconcileWithCurrentState st1 n1") auto
  ultimately obtain Q where n2: "n2 = n1\<lparr>b_Services := filter Q (b_Services n1)\<rparr>"
    and st2: "extends st1 st2" and in1: "batch_in st1 n1"
    using reconcileWithCurrentState_closed [of n1 st1] by (auto simp: batch_in_def)
  have in2: "batch_in st2 n2" unfolding n2 using batch_in_filter [OF batch_in_extends [OF in1 st2]] .
  have disj2: "ids (entries (all_batches queues1)) \<inter> ids (b_Services n2) = {}"
    using disj n2 by (auto simp: ids_def)
  have exs: "set ex \<subseteq> set (entries (all_batches queues))" "wf_map ex"
    using schedule_loop_expedited [OF loop batch_in_new_ok [OF mk(2)]] by auto
  have ext: "extends st st2" "extends (m_store m) st2"
    using st1 st2 mk(1) extends_trans by blast+
  have bx: "batch_in st2 \<lparr>b_Services = ex, b_DesiredState = ds, b_Emergency = em\<rparr>"
    using exs(2) tok held_extends [OF held_mono [OF _ exs(1)] ext(1)]
    by (simp add: batch_in_def tenant_ok_def)
  let ?m2 = "m\<lparr>m_store := st2, m_TenantQueues := gset t queues1 (m_TenantQueues m),
      m_tasks := m_tasks m @ (if ex \<noteq> [] then [ExpediteTask t
        \<lparr>b_Services = ex, b_DesiredState = ds, b_Emergency = em\<rparr>] else [])\<rparr>"
  have ok2: "manager_ok ?m2"
    using manager_ok_extends [OF ok ext(2)] tenant_ok_extends [OF tok1 st2] bx
      dom_update_known [of "map_of (m_TenantQueues m)" t, OF ten, of queues1] ten
    by (auto simp: manager_ok_def simp del: dom_fun_upd)
  note loop' = loop [unfolded req]
  have "ScheduleServices svcs t ds em m = (case enqueue t queues1 n2 ?m2 of (m2, err) \<Rightarrow>
      (m2\<lparr>m_tasks := m_tasks m2 @ (if ca @ ca2 \<noteq> [] then [SyncTask (ca @ ca2)] else [])\<rparr>, err))"
    unfolding ScheduleServices_def by (simp only: ten made loop' cur option.case prod.case Let_def)
  with run have m': "m' = (fst (enqueue t queues1 n2 ?m2))\<lparr>m_tasks := m_tasks (fst (enqueue t queues1 n2 ?m2)) @
            (if ca @ ca2 \<noteq> [] then [SyncTask (ca @ ca2)] else [])\<rparr>" "err = snd (enqueue t queues1 n2 ?m2)"
    by (simp_all only: case_prod_unfold prod.inject)
  show ?thesis
    by (rule that [OF mk loop tok1 looped cur refl ok2 in2 disj2 m'])
qed

lemma manager_ok_add_sync:
  "manager_ok m \<Longrightarrow> manager_ok (m\<lparr>m_tasks := m_tasks m @ (if c then [SyncTask xs] else [])\<rparr>)"
  by (cases c) (simp_all add: manager_ok_def)

lemma ScheduleServices_ok:
  assumes "manager_ok m" and "ScheduleServices svcs t ds em m = (m', err)"
  shows "manager_ok m' \<and> extends (m_store m) (m_store m')"
proof (cases "map_of (m_TenantQueues m) t")
  case None
  with assms show ?thesis by (simp add: ScheduleServices_def)
next
  case (Some queues)
  obtain st queues1 n1 ex ca st1 st2 n2 ca2 m2 where
    ext: "extends (m_store m) st" and
    looped: "looped st queues \<lparr>b_Services = requested svcs m, b_DesiredState = ds, b_Emergency = em\<rparr>
       st1 queues1 n1" and
    n: "batch_in st \<lparr>b_Services = requested svcs m, b_DesiredState = ds, b_Emergency = em\<rparr>" and
    cur: "reconcileWithCurrentState st1 n1 = (st2, n2, ca2)" and
    m2: "m2 = m\<lparr>m_store := st2, m_TenantQueues := gset t queues1 (m_TenantQueues m),
            m_tasks := m_tasks m @ (if ex \<noteq> [] then [ExpediteTask t
              \<lparr>b_Services = ex, b_DesiredState = ds, b_Emergency = em\<rparr>] else [])\<rparr>" and
    ok2: "manager_ok m2" and n2: "batch_in st2 n2"
      "ids (entries (all_batches queues1)) \<inter> ids (b_Services n2) = {}" and
    m': "m' = (fst (enqueue t queues1 n2 m2))\<lparr>m_tasks := m_tasks (fst (enqueue t queues1 n2 m2)) @
            (if ca @ ca2 \<noteq> [] then [SyncTask (ca @ ca2)] else [])\<rparr>"
    by (rule ScheduleServices_phases [OF assms(1) Some assms(2)])
  obtain m3 e where enq: "enqueue t queues1 n2 m2 = (m3, e)" by fastforce
  have "map_of (m_TenantQueues m2) t = Some queues1" "m_store m2 = st2" using m2 by simp_all
  with enqueue_ok [OF ok2 this(1) _ n2(2) enq] n2(1) have "manager_ok m3" "m_store m3 = st2" by simp_all
  moreover have "extends st1 st2"
  proof -
    have "wf_map (b_Services n1)"
      using looped n by (auto simp: looped_def batch_in_def distinct_map_filter)
    then show ?thesis using reconcileWithCurrentState_closed [OF _ cur] by auto
  qed
  moreover have "extends st st1" using looped by (auto simp: looped_def)
  ultimately show ?thesis
    using m' enq ext extends_trans manager_ok_add_sync by auto
qed

lemma entries_gset:
  assumes "wf_map qs" and "map_of qs k = Some q"
    and "set (entries (q_BatchQueue q)) \<subseteq> set (entries (q_BatchQueue q'))"
  shows "set (entries (all_batches qs)) \<subseteq> set (entries (all_batches (gset k q' qs)))"
proof -
  obtain xs ys where "qs = xs @ (k, q) # ys" and "gset k q' qs = xs @ (k, q') # ys"
    using queue_split [OF assms(1,2)] by blast
  with assms(3) show ?thesis by auto
qed

lemma enqueue_places:
  assumes "manager_ok m" and "map_of (m_TenantQueues m) t = Some queues" and "batch_in (m_store m) n"
    and disj: "ids (entries (all_batches queues)) \<inter> ids (b_Services n) = {}"
    and enq: "enqueue t queues n m = (m', err)" and known: "known_state (b_DesiredState n)"
  shows "(p \<in> set (entries (all_batches queues)) \<longrightarrow> queued m' t p)
    \<and> (p \<in> set (b_Services n) \<longrightarrow> queued_for m' t (b_DesiredState n) (b_Emergency n) p)"
proof (cases "b_Services n = []")
  case True
  then show ?thesis using enq assms(2) by (auto simp: enqueue_def queued_def)
next
  case False
  let ?k = "queueDesiredState (b_DesiredState n)"
  obtain q q' where q: "map_of queues ?k = Some q"
    and q': "map_of (m_TenantQueues m') t = Some (gset ?k q' queues)"
      "mset (entries (q_BatchQueue q')) = mset (entries (q_BatchQueue q)) + mset (b_Services n)"
      "\<forall>b \<in> set (q_BatchQueue q'). b \<in> set (q_BatchQueue q) \<or> same_kind b n"
    using enqueue_ok [OF assms(1-5)] False known by blast
  have set': "set (entries (q_BatchQueue q')) = set (entries (q_BatchQueue q)) \<union> set (b_Services n)"
    using q'(2) by (metis set_mset_mset set_mset_union)
  have "queued_for m' t (b_DesiredState n) (b_Emergency n) p" if p: "p \<in> set (b_Services n)"
  proof -
    obtain b where b: "b \<in> set (q_BatchQueue q')" "p \<in> set (b_Services b)" using p set' by auto
    have "fst p \<notin> ids (entries (all_batches queues))" using p disj by (auto simp: ids_def)
    moreover have "(?k, q) \<in> set queues" using q by (rule map_of_SomeD)
    ultimately have "b \<notin> set (q_BatchQueue q)" using b(2) by (force simp: ids_def)
    then have "same_kind b n" using q'(3) b(1) by blast
    moreover have "map_of (gset ?k q' queues) ?k = Some q'" by simp
    ultimately show ?thesis using b q'(1) unfolding queued_for_def by blast
  qed
  moreover have "set (entries (all_batches queues)) \<subseteq> set (entries (all_batches (gset ?k q' queues)))"
    using set' manager_ok_tenant [OF assms(1,2)] by (intro entries_gset [OF _ q]) (auto simp: tenant_ok_def)
  ultimately show ?thesis using q'(1) by (auto simp: queued_def)
qed

lemma ScheduleServices_accounted:
  assumes "manager_ok m" and "known_state ds" and "ScheduleServices svcs t ds em m = (m', err)"
  shows "if map_of (m_TenantQueues m) t = None then err = Some ErrBadTenantID \<and> m' = m
    else err = None \<and> ids (requested svcs m) = svc_ID ` set svcs
      \<and> (\<forall>p \<in> set (requested svcs m).
           queued_for m' t ds em p \<or> cancelled_at (m_store m') (snd p) \<or> to_sync m' (fst p))
      \<and> (\<forall>p. queued m t p \<longrightarrow>
           queued m' t p \<or> cancelled_at (m_store m') (snd p) \<or> expedited_in m' t p)"
proof (cases "map_of (m_TenantQueues m) t")
  case None
  with assms show ?thesis by (simp add: ScheduleServices_def)
next
  case (Some queues)
  let ?n = "\<lparr>b_Services = requested svcs m, b_DesiredState = ds, b_Emergency = em\<rparr>"
  obtain st queues1 n1 ex ca st1 st2 n2 ca2 m2 where
    ext: "extends (m_store m) st" and n: "batch_in st ?n" and
    loop: "schedule_loop st queues ?n [] [] = (st1, queues1, n1, ex, ca)" and
    tok1: "tenant_ok st1 queues1" and
    looped: "looped st queues ?n st1 queues1 n1" and
    cur: "reconcileWithCurrentState st1 n1 = (st2, n2, ca2)" and
    m2: "m2 = m\<lparr>m_store := st2, m_TenantQueues := gset t queues1 (m_TenantQueues m),
            m_tasks := m_tasks m @ (if ex \<noteq> [] then [ExpediteTask t
              \<lparr>b_Services = ex, b_DesiredState = ds, b_Emergency = em\<rparr>] else [])\<rparr>" and
    ok2: "manager_ok m2" and n2: "batch_in st2 n2"
      "ids (entries (all_batches queues1)) \<inter> ids (b_Services n2) = {}" and
    m': "m' = (fst (enqueue t queues1 n2 m2))\<lparr>m_tasks := m_tasks (fst (enqueue t queues1 n2 m2)) @
            (if ca @ ca2 \<noteq> [] then [SyncTask (ca @ ca2)] else [])\<rparr>"
      "err = snd (enqueue t queues1 n2 m2)"
    by (rule ScheduleServices_phases [OF assms(1) Some assms(3)])
  obtain m3 e where enq: "enqueue t queues1 n2 m2 = (m3, e)" by fastforce
  have t2: "map_of (m_TenantQueues m2) t = Some queues1" and s2: "m_store m2 = st2" using m2 by simp_all
  have wf1: "wf_map (b_Services n1)" and n1: "b_DesiredState n1 = ds" "b_Emergency n1 = em"
    using looped n by (auto simp: looped_def batch_in_def distinct_map_filter)
  obtain Q where Q: "n2 = n1\<lparr>b_Services := filter Q (b_Services n1)\<rparr>"
    "st2 = cancel_all (map snd (filter (\<lambda>p. \<not> Q p) (b_Services n1))) st1"
    using reconcileWithCurrentState_closed [OF wf1 cur] by blast
  have kind: "b_DesiredState n2 = ds" "b_Emergency n2 = em" using Q n1 by simp_all
  note enqd = enqueue_ok [OF ok2 t2 _ n2(2) enq, unfolded s2 kind, OF n2(1)]
  have m3: "m_store m3 = st2" "m_tasks m3 = m_tasks m2" "e = None" using enqd assms(2) by auto
  have dist: "distinct (keys ([] @ entries (all_batches queues)))"
    using manager_ok_tenant [OF assms(1) Some] by (simp add: tenant_ok_def queue_ok_def)
  note acc = schedule_loop_accounted [OF loop batch_in_new_ok [OF n] dist]
  have put: "(p \<in> set (entries (all_batches queues1)) \<longrightarrow> queued m3 t p)
      \<and> (p \<in> set (b_Services n2) \<longrightarrow> queued_for m3 t ds em p)" for p
    using enqueue_places [OF ok2 t2 _ n2(2) enq, unfolded s2 kind, OF n2(1) assms(2)] .
  have sync: "to_sync m' sid" if "sid \<in> set ca \<or> sid \<in> set ca2" for sid
    using m' enq that by auto
  have tail: "queued m' t p = queued m3 t p" "queued_for m' t ds em p = queued_for m3 t ds em p" for p
    using m' enq by (simp_all add: queued_def queued_for_def)
  have store: "m_store m' = st2" "err = None" using m' enq m3 by simp_all
  have "queued_for m' t ds em p \<or> cancelled_at (m_store m') (snd p) \<or> to_sync m' (fst p)"
    if "p \<in> set (requested svcs m)" for p
  proof -
    have "p \<in> set (b_Services n1) \<or> cancelled_at st1 (snd p) \<or> fst p \<in> set ca"
      using acc [of p] that by simp
    then show ?thesis
      using put [of p] sync [of "fst p"] tail Q store by (cases "Q p") auto
  qed
  moreover have "queued m' t p \<or> cancelled_at (m_store m') (snd p) \<or> expedited_in m' t p"
    if "queued m t p" for p
  proof -
    have "p \<in> set (entries (all_batches queues)) \<or> cancelled_at st (snd p) \<or> p \<in> set []"
      using that Some unfolding queued_def by simp
    then have "p \<in> set (entries (all_batches queues1)) \<or> cancelled_at st1 (snd p) \<or> p \<in> set ex"
      using acc [of undefined p] by blast
    moreover have "expedited_in m' t p" if "p \<in> set ex"
      using m' enq m3 m2 that by (cases "ex = []") auto
    ultimately show ?thesis using put [of p] tail Q(2) store by auto
  qed
  moreover have "ids (requested svcs m) = svc_ID ` set svcs"
    using requested_ids [of svcs "m_store m" "[]"] unfolding requested_def
    by (cases "make_cancellable svcs (m_store m) []") simp
  ultimately show ?thesis using Some store by simp
qed

subsection \<open>Processing keeps the invariant\<close>

lemma update_one_ok:
  assumes "update_one services p (st, acc) = (st', acc')" and "held st (p # acc)" and "wf_map acc"
  shows "extends st st' \<and> held st' acc' \<and> wf_map acc'"
proof (cases "List.find (\<lambda>svc. fst p = svc_ID svc) services")
  case None
  then have "st' = CancellableService_Cancel (snd p) st" "acc' = acc"
    using assms(1) by (auto simp: update_one_def)
  then show ?thesis using assms(2,3) held_extends [OF _ extends_Cancel] by (simp add: held_def)
next
  case (Some svc)
  then have id: "svc_ID svc = fst p" by (auto simp: find_Some_iff)
  have out: "st' = set_service (snd p) svc st" "acc' = gset (fst p) (snd p) acc"
    using assms(1) Some id by (auto simp: update_one_def)
  have ext: "extends st st'" using assms(2) id out(1) by (auto simp: held_def)
  have "set acc' \<subseteq> set (p # acc)"
    using set_fold_gset [of "[p]" acc] out(2) by (simp add: case_prod_unfold)
  then show ?thesis
    using ext assms(2,3) out(2) held_extends [OF held_mono ext] by simp
qed

lemma update_fold:
  assumes "fold (update_one services) ps (st, acc) = (st', acc')" and "held st ps" and "held st acc"
    and "wf_map acc"
  shows "extends st st' \<and> held st' acc' \<and> wf_map acc'"
  using assms
proof (induction ps arbitrary: st acc)
  case Nil
  then show ?case by simp
next
  case (Cons p ps)
  obtain st1 acc1 where one: "update_one services p (st, acc) = (st1, acc1)" by fastforce
  have "held st (p # acc)" "held st ps" using Cons.prems by (auto simp: held_def)
  with update_one_ok [OF one] Cons.prems(4) have "extends st st1" "held st1 acc1" "wf_map acc1" by auto
  with Cons one \<open>held st ps\<close> show ?case
    using held_extends extends_trans by fastforce
qed

lemma updateBatch_ok:
  assumes "updateBatch f b st = (st', b')" and "batch_in st b"
  shows "extends st st' \<and> batch_in st' b'"
  using assms update_fold [of _ "b_Services b" st "[]"]
  by (auto simp: updateBatch_def batch_in_def Let_def split: prod.splits)

definition same_frame :: "Manager \<Rightarrow> Manager \<Rightarrow> bool" where
  "same_frame m m' \<longleftrightarrow> extends (m_store m) (m_store m') \<and> m_TenantQueues m' = m_TenantQueues m
     \<and> m_loops m' = m_loops m \<and> m_TenantShutDowns m' = m_TenantShutDowns m
     \<and> m_tasks m' = m_tasks m \<and> m_shutdown m' = m_shutdown m"

lemma same_frame_trans: "same_frame m m' \<Longrightarrow> same_frame m' m'' \<Longrightarrow> same_frame m m''"
  by (auto simp: same_frame_def intro: extends_trans)

lemma quiet_same_frame: "quiet m m' \<Longrightarrow> same_frame m m'"
  by (simp add: quiet_def same_frame_def)

lemma same_frame_ok:
  assumes "same_frame m m'" and "manager_ok m"
  shows "manager_ok m'"
proof -
  have "manager_ok (m\<lparr>m_store := m_store m'\<rparr>)"
    using manager_ok_extends [OF assms(2)] assms(1) by (simp add: same_frame_def)
  then show ?thesis using assms(1) by (simp add: manager_ok_def same_frame_def)
qed

lemma select_services_frame:
  assumes "select_services b ps m rs = (m', rs')" and "held (m_store m) ps"
  shows "same_frame m m' \<and> set rs' \<subseteq> set rs \<union> snd ` set ps"
  using assms
proof (induction b ps m rs rule: select_services.induct)
  case (1 b m rs)
  then show ?case by (simp add: same_frame_def)
next
  case (2 b p ps m rs)
  let ?svc = "(svc_at (m_store m) (snd p))\<lparr>svc_EmergencyShutdown := True\<rparr>"
  let ?m = "m\<lparr>m_store := set_service (snd p) ?svc (m_store m), m_calls := m_calls m @ [UpdateService ?svc]\<rparr>"
  have "same_frame m ?m" by (auto simp: same_frame_def)
  moreover have held: "held (m_store m) ps" "held (m_store ?m) ps"
    using 2(5) by (auto simp: held_def)
  ultimately show ?case
    using 2 same_frame_trans [of m ?m m'] by (auto simp: Let_def split: if_splits)
qed

lemma start_waits_quiet: "quiet m (start_waits b failed ps m)"
  by (induction b failed ps m rule: start_waits.induct) (auto intro: quiet_trans)

lemma processBatch_frame:
  assumes "processBatch f t b m = (m', failed)" and "batch_in (m_store m) b"
  shows "same_frame m m'"
proof -
  obtain m1 rs where sel: "select_services b (b_Services b) m [] = (m1, rs)" by fastforce
  then have "same_frame m m1" using select_services_frame assms(2) by (auto simp: batch_in_def)
  moreover have "quiet m1 m'"
    using assms(1) sel quiet_update start_waits_quiet
    by (fastforce simp: processBatch_def Let_def quiet_def updateServiceCurrentState_def
        split: prod.splits option.splits)
  ultimately show ?thesis using same_frame_trans quiet_same_frame by blast
qed

lemma cancel_failed_extends: "cancel_failed svcs sids st = Inr st' \<Longrightarrow> extends st st'"
  by (induction svcs sids st rule: cancel_failed.induct)
    (auto split: option.splits intro: extends_trans [OF extends_Cancel])

subsection \<open>The queue loop keeps the invariant\<close>

lemma getNextBatch_tenant:
  assumes "tenant_ok st qs" and "map_of qs k = Some q" and "getNextBatch q = (q', r)"
  shows "tenant_ok st (gset k q' qs) \<and> (\<forall>b. r = Inr b \<longrightarrow> batch_in st b)"
proof -
  obtain xs ys where qs: "qs = xs @ (k, q) # ys" using queue_split assms(1,2) by (metis tenant_ok_def)
  have q: "queue_ok st (q_BatchQueue q)" "held st (entries (q_BatchQueue q))" "in_queue st k q"
    using assms(1) unfolding tenant_ok_def qs by (auto simp: queue_ok_append held_def)
  have next_q: "queue_ok st (q_BatchQueue q')" "set (q_BatchQueue q') \<subseteq> set (q_BatchQueue q)"
    using getNextBatch_ok [OF q(1) assms(3)] by (cases r; auto)+
  have b: "batch_in st b" if "r = Inr b" for b
  proof -
    have "q_BatchQueue q = b # q_BatchQueue q'" using getNextBatch_ok [OF q(1) assms(3)] that by simp
    with q show ?thesis by (auto simp: batch_in_def queue_ok_def held_def)
  qed
  have "batch_in st (q_CurrentBatch q')"
    using getNextBatch_ok [OF q(1) assms(3)] b by (cases r) auto
  with q(3) next_q(2) have "in_queue st k q'" by (auto simp: in_queue_def)
  moreover have "held st (entries (q_BatchQueue q'))" using q(2) next_q(2) by (auto simp: held_def)
  moreover have "ids (entries (q_BatchQueue q')) \<subseteq> ids (entries (q_BatchQueue q))"
    using next_q(2) by (intro ids_mono) auto
  ultimately show ?thesis
    using tenant_ok_gset [OF assms(1,2) _ next_q(1)] b by blast
qed

lemma set_loop_frame:
  "m_store (set_loop t k lp m) = m_store m" "m_TenantQueues (set_loop t k lp m) = m_TenantQueues m"
  "m_loops (set_loop t k lp m) = gset (t, k) lp (m_loops m)"
  by (simp_all add: set_loop_def)

lemma set_queue_ok:
  assumes "manager_ok m" and "map_of (m_TenantQueues m) t = Some qs" and "tenant_ok (m_store m) qs'"
  shows "manager_ok (m\<lparr>m_TenantQueues := gset t qs' (m_TenantQueues m)\<rparr>)"
  using assms dom_update_known [of "map_of (m_TenantQueues m)" t, OF assms(2), of qs']
  by (auto simp: manager_ok_def simp del: dom_fun_upd)

lemma loop_step_ok:
  assumes ok: "manager_ok m" and qs: "map_of (m_TenantQueues m) t = Some qs"
    and q: "map_of qs k = Some q" and lp: "map_of (m_loops m) (t, k) = Some lp"
    and run: "loop_step f t k q lp m = Inr m'"
  shows "manager_ok m'"
proof -
  have ten: "tenant_ok (m_store m) qs" using manager_ok_tenant [OF ok qs] .
  have ph: "phase_ok (m_store m) (lp_phase lp)" using ok lp by (simp add: manager_ok_def)
  show ?thesis
  proof (cases "lp_phase lp")
    case AtTop
    obtain q' r where nb: "getNextBatch q = (q', r)" by fastforce
    let ?m = "m\<lparr>m_TenantQueues := gset t (gset k q' qs) (m_TenantQueues m)\<rparr>"
    have "manager_ok ?m"
      using set_queue_ok [OF ok qs] getNextBatch_tenant [OF ten q nb] by blast
    moreover have "phase_ok (m_store ?m) (Fetched (case r of Inl _ \<Rightarrow> None | Inr b \<Rightarrow> Some b))"
      using getNextBatch_tenant [OF ten q nb] by (cases r) auto
    ultimately show ?thesis
      using run AtTop nb qs lp set_loop_ok [of ?m t k lp] by (auto simp: loop_step_def)
  next
    case (Fetched r)
    let ?m = "if lp_badsids lp \<noteq> [] then SyncCurrentStates f (lp_badsids lp) m else m"
    have quiet: "quiet m ?m" by auto
    then have "manager_ok ?m" using quiet_ok ok by blast
    moreover have "map_of (m_loops ?m) (t, k) = Some lp" "m_store ?m = m_store m"
      using quiet lp by (auto simp: quiet_def)
    moreover have "phase_ok (m_store m) (case r of Some b \<Rightarrow> Synced b | None \<Rightarrow> Blocked)"
      using ph Fetched by (cases r) auto
    ultimately show ?thesis
      using run Fetched set_loop_ok [of ?m t k lp] by (auto simp: loop_step_def Let_def)
  next
    case (Synced b)
    obtain st' b' where up: "updateBatch f b (m_store m) = (st', b')" by fastforce
    then have "extends (m_store m) st'" "batch_in st' b'" using updateBatch_ok ph Synced by auto
    then show ?thesis
      using run Synced up lp set_loop_ok [OF manager_ok_extends [OF ok], of st' t k lp]
      by (auto simp: loop_step_def)
  next
    case (Updated b)
    obtain m1 bad where pr: "processBatch f t b m = (m1, bad)" by fastforce
    have in_b: "batch_in (m_store m) b" using ph Updated by simp
    have fr: "same_frame m m1" using processBatch_frame [OF pr in_b] .
    obtain st' where cf: "cancel_failed (b_Services b) bad (m_store m1) = Inr st'"
      and m': "m' = set_loop t k \<lparr>lp_phase = Waiting b, lp_badsids = bad\<rparr> (m1\<lparr>m_store := st'\<rparr>)"
      using run Updated pr by (auto simp: loop_step_def split: sum.splits)
    have "manager_ok (m1\<lparr>m_store := st'\<rparr>)"
      using manager_ok_extends [OF same_frame_ok [OF fr ok] cancel_failed_extends [OF cf]] .
    moreover have "batch_in st' b" "map_of (m_loops m1) (t, k) = Some lp"
      using fr lp in_b cancel_failed_extends [OF cf]
      by (auto simp: same_frame_def intro: batch_in_extends extends_trans)
    ultimately show ?thesis
      using set_loop_ok [of "m1\<lparr>m_store := st'\<rparr>" t k lp "\<lparr>lp_phase = Waiting b, lp_badsids = bad\<rparr>"]
      by (simp add: m')
  next
    case (Waiting b)
    then show ?thesis
      using run lp set_loop_ok [OF manager_ok_extends [OF ok], of _ t k lp]
      by (auto simp: loop_step_def waitServicesWithTimeout_all)
  next
    case Blocked
    then show ?thesis using run ok by (simp add: loop_step_def)
  qed
qed

lemma queueLoop_ok: "manager_ok m \<Longrightarrow> queueLoop f t k m = Inr m' \<Longrightarrow> manager_ok m'"
  by (auto simp: queueLoop_def split: option.splits intro: loop_step_ok)

lemma manager_ok_drop_task:
  "manager_ok m \<Longrightarrow> m_tasks m = ts @ t # ts' \<Longrightarrow>
     manager_ok (m\<lparr>m_tasks := ts @ ts'\<rparr>) \<and> task_ok (m_store m) t"
  by (simp add: manager_ok_def)

lemma manager_ok_add_task:
  "manager_ok m \<Longrightarrow> task_ok (m_store m) t \<Longrightarrow> manager_ok (m\<lparr>m_tasks := m_tasks m @ [t]\<rparr>)"
  by (simp add: manager_ok_def)

lemma run_task_ok:
  assumes ok: "manager_ok m" and t: "task_ok (m_store m) t"
  shows "manager_ok (run_task f t m)"
proof (cases t)
  case (SyncTask sids)
  then show ?thesis using ok quiet_ok [OF quiet_sync] by (simp add: run_task_def)
next
  case (ExpediteTask tn b)
  obtain st' b' where up: "updateBatch f b (m_store m) = (st', b')" by fastforce
  then have "extends (m_store m) st'" "batch_in st' b'" using updateBatch_ok t ExpediteTask by auto
  then show ?thesis
    using ExpediteTask up manager_ok_add_task [OF manager_ok_extends [OF ok]] by (simp add: run_task_def)
next
  case (ExpediteProcessTask tn b)
  obtain m1 failed where pr: "processBatch f tn b m = (m1, failed)" by fastforce
  have "manager_ok m1" using same_frame_ok [OF processBatch_frame [OF pr] ok] t ExpediteProcessTask by simp
  then have "manager_ok (m1\<lparr>m_store := Batch_Cancel b (m_store m1)\<rparr>)"
    using manager_ok_extends by (simp add: Batch_Cancel_all)
  then show ?thesis
    using ExpediteProcessTask pr manager_ok_add_sync [of "m1\<lparr>m_store := Batch_Cancel b (m_store m1)\<rparr>"]
    by (simp add: run_task_def)
qed

subsection \<open>Tenants keep the invariant\<close>

lemma AddTenant_ok:
  assumes "manager_ok m" and "AddTenant t m = Inr m'"
  shows "manager_ok m'"
proof -
  let ?qs = "[(SVCRun, NewServiceStateQueue), (SVCStop, NewServiceStateQueue)]"
  have new: "map_of (m_TenantQueues m) t = None" and "m_shutdown m = OpenChan"
    using assms(2) by (auto simp: AddTenant_def split: shutdown_chan.splits option.splits)
  moreover have "tenant_ok (m_store m) ?qs"
    by (simp add: tenant_ok_def in_queue_def NewServiceStateQueue_def held_def)
  moreover have "insert (t, SVCRun) (insert (t, SVCStop) (D \<times> {SVCRun, SVCStop}))
      = insert t D \<times> {SVCRun, SVCStop}" for D
    by auto
  moreover have m': "m' = m\<lparr>m_TenantQueues := gset t ?qs (m_TenantQueues m),
      m_TenantShutDowns := gset t () (m_TenantShutDowns m),
      m_loops := gset (t, SVCRun) \<lparr>lp_phase = AtTop, lp_badsids = []\<rparr>
        (gset (t, SVCStop) \<lparr>lp_phase = AtTop, lp_badsids = []\<rparr> (m_loops m))\<rparr>"
    using assms(2) by (auto simp: AddTenant_def split: shutdown_chan.splits option.splits)
  ultimately show ?thesis
    using assms(1) by (simp add: manager_ok_def)
qed

lemma fold_Queue_Cancel_extends: "extends st (fold (\<lambda>(_, q). Queue_Cancel q) qs st)"
proof (induction qs arbitrary: st)
  case (Cons kq qs)
  show ?case
    using extends_trans [OF extends_cancel_all Cons.IH, of st]
    by (simp add: Queue_Cancel_all case_prod_unfold)
qed simp

lemma removeTenant_ok:
  assumes ok: "manager_ok m" and run: "removeTenant t m = Inr m'"
  shows "manager_ok m' \<and> map_of (m_TenantQueues m') = (map_of (m_TenantQueues m))(t := None)
    \<and> map_of (m_TenantShutDowns m') = (map_of (m_TenantShutDowns m))(t := None)
    \<and> m_shutdown m' = m_shutdown m"
proof -
  have "t \<in> dom (map_of (m_TenantQueues m))"
    using assms by (auto simp: removeTenant_def manager_ok_def split: option.splits)
  then obtain qs where qs: "map_of (m_TenantQueues m) t = Some qs" by auto
  let ?st = "fold (\<lambda>(_, q). Queue_Cancel q) qs (m_store m)"
  let ?loops = "fold (\<lambda>(ds, _). gdel (t, ds)) qs (m_loops m)"
  have m': "m' = m\<lparr>m_store := ?st, m_loops := ?loops, m_TenantShutDowns := gdel t (m_TenantShutDowns m),
      m_TenantQueues := gdel t (m_TenantQueues m)\<rparr>"
    using run qs by (auto simp: removeTenant_def split: option.splits)
  have "?loops = fold gdel (map (\<lambda>kq. (t, fst kq)) qs) (m_loops m)"
    by (simp add: fold_map comp_def case_prod_unfold)
  then have look: "map_of ?loops p = (if fst p = t \<and> snd p \<in> {SVCRun, SVCStop} then None else map_of (m_loops m) p)" for p
    using manager_ok_tenant [OF ok qs] by (cases p) (auto simp: gomap.lookup_fold_del tenant_ok_def)
  have st: "manager_ok (m\<lparr>m_store := ?st\<rparr>)"
    using manager_ok_extends [OF ok fold_Queue_Cancel_extends] .
  have "dom (map_of ?loops) = dom (map_of (m_loops m)) - {t} \<times> {SVCRun, SVCStop}"
    unfolding dom_def look by auto
  also have "\<dots> = (dom (map_of (m_TenantQueues m)) - {t}) \<times> {SVCRun, SVCStop}"
    using ok unfolding manager_ok_def by auto
  finally have "manager_ok m'"
    using st look unfolding m' manager_ok_def by simp
  then show ?thesis by (simp add: m')
qed

lemma remove_tenants_ok:
  assumes "manager_ok m"
  shows "manager_ok (remove_tenants ts m)
    \<and> map_of (m_TenantQueues (remove_tenants ts m)) = (\<lambda>t. if t \<in> set ts then None else map_of (m_TenantQueues m) t)
    \<and> m_shutdown (remove_tenants ts m) = m_shutdown m"
  using assms
proof (induction ts arbitrary: m)
  case Nil
  then show ?case by simp
next
  case (Cons t ts)
  show ?case
  proof (cases "removeTenant t m")
    case (Inl e)
    then have "map_of (m_TenantQueues m) t = None"
      using Cons.prems by (auto simp: removeTenant_def manager_ok_def split: option.splits)
    with Inl Cons show ?thesis by auto
  next
    case (Inr m')
    from removeTenant_ok [OF Cons.prems Inr] Cons.IH [of m'] Inr show ?thesis by auto
  qed
qed

lemma add_tenants_ok: "manager_ok m \<Longrightarrow> manager_ok (add_tenants ts m)"
  by (induction ts arbitrary: m) (auto split: sum.splits intro: AddTenant_ok)

lemma Start_ok: "manager_ok m \<Longrightarrow> manager_ok (fst (Start f m))"
proof -
  assume ok: "manager_ok m"
  then have "manager_ok (m\<lparr>m_shutdown := OpenChan\<rparr>)" by (simp add: manager_ok_def)
  with ok show ?thesis by (auto simp: Start_def Let_def add_tenants_ok split: sum.splits)
qed

lemma clear_waits_ok: "manager_ok (m\<lparr>m_currentStateWaits := ws\<rparr>) = manager_ok m"
  by (simp add: manager_ok_def)

text \<open>\<^verbatim>\<open>Shutdown\<close> is called with the channel still open, so its tenants are all there.\<close>

lemma remove_all_closed:
  assumes "manager_ok m" and "m_shutdown m = OpenChan"
  shows "remove_tenants ts (m\<lparr>m_shutdown := ClosedChan\<rparr>) = (remove_tenants ts m)\<lparr>m_shutdown := ClosedChan\<rparr>"
  using assms
proof (induction ts arbitrary: m)
  case Nil
  then show ?case by simp
next
  case (Cons t ts)
  have "removeTenant t (m\<lparr>m_shutdown := ClosedChan\<rparr>)
      = (case removeTenant t m of Inl e \<Rightarrow> Inl e | Inr m' \<Rightarrow> Inr (m'\<lparr>m_shutdown := ClosedChan\<rparr>))"
    by (simp add: removeTenant_def Let_def split: option.split)
  moreover have "manager_ok m' \<and> m_shutdown m' = OpenChan" if "removeTenant t m = Inr m'" for m'
    using removeTenant_ok [OF Cons.prems(1) that] Cons.prems(2) by simp
  ultimately show ?case using Cons by (cases "removeTenant t m") auto
qed

lemma Shutdown_ok:
  assumes "manager_ok m" and "Shutdown m = Inr m'"
  shows "manager_ok m' \<and> m_TenantQueues m' = [] \<and> m_shutdown m' = ClosedChan"
proof -
  have open_m: "m_shutdown m = OpenChan" using assms(2) by (auto simp: Shutdown_def split: shutdown_chan.splits)
  let ?r = "remove_tenants (keys (m_TenantShutDowns m)) m"
  have m': "m' = ?r\<lparr>m_shutdown := ClosedChan, m_currentStateWaits := []\<rparr>"
    using assms open_m remove_all_closed by (simp add: Shutdown_def)
  have "dom (map_of (m_TenantQueues m)) = set (keys (m_TenantShutDowns m))"
    using assms(1) by (simp add: manager_ok_def dom_map_of_conv_image_fst)
  then have "map_of (m_TenantQueues ?r) = Map.empty"
    using remove_tenants_ok [OF assms(1)] by (auto simp: dom_def fun_eq_iff)
  moreover have "manager_ok ?r" using remove_tenants_ok [OF assms(1)] by blast
  ultimately show ?thesis by (simp add: m' manager_ok_def)
qed

subsection \<open>Every reachable state\<close>

lemma ssm_step_ok: "ssm_step m m' \<Longrightarrow> manager_ok m \<Longrightarrow> manager_ok m'"
proof (induction rule: ssm_step.induct)
  case (schedule m svcs t ds em)
  then show ?case using ScheduleServices_ok [of m] by (metis prod.collapse)
next
  case (run m ts t ts' f)
  then show ?case using manager_ok_drop_task run_task_ok by fastforce
qed (auto intro: Start_ok AddTenant_ok queueLoop_ok dest: Shutdown_ok removeTenant_ok
    simp: RemoveTenant_def quiet_ok [OF quiet_sync] quiet_ok [OF quiet_returns])

lemma reachable_manager_ok: "ssm_reachable m \<Longrightarrow> manager_ok m"
proof (induction rule: ssm_reachable.induct)
  case (init st)
  then show ?case by (simp add: NewBatchServiceStateManager_def manager_ok_def)
qed (rule ssm_step_ok)

end
