(* ===== verification/SSM_Loop.thy ===== *)
theory SSM_Loop
  imports SSM_Invariant
begin

section \<open>Progress of the queue loops\<close>

text \<open>
  What a queue loop does with a batch when nothing else interferes: it takes the batches
  in order, it never panics, it closes the channel of every service of each batch, and
  it ends blocked on an empty queue. And the one interleaving that defeats it: a request
  that arrives between \<^verbatim>\<open>getNextBatch\<close> and the \<^verbatim>\<open>select\<close> on \<^verbatim>\<open>Changed\<close> leaves the loop
  asleep on a queue that has work.
\<close>

definition loop_at ::
    "Manager \<Rightarrow> string \<Rightarrow> DesiredState \<Rightarrow> ServiceStateQueue \<Rightarrow> QueueLoop \<Rightarrow> bool" where
  "loop_at m t k q lp \<longleftrightarrow> (\<exists>qs. map_of (m_TenantQueues m) t = Some qs \<and> map_of qs k = Some q)
     \<and> map_of (m_loops m) (t, k) = Some lp"

text \<open>Running a loop for a number of steps.\<close>

fun loop_run :: "Facade \<Rightarrow> string \<Rightarrow> DesiredState \<Rightarrow> nat \<Rightarrow> Manager \<Rightarrow> ssm_error + Manager" where
  "loop_run f t k 0 m = Inr m"
| "loop_run f t k (Suc n) m =
     (case queueLoop f t k m of Inl e \<Rightarrow> Inl e | Inr m' \<Rightarrow> loop_run f t k n m')"

text \<open>
  The facade's contract: \<^verbatim>\<open>ScheduleServiceBatch\<close> returns a list of IDs of services that
  could not be scheduled, out of those it was given.
\<close>

definition reports_given :: "Facade \<Rightarrow> bool" where
  "reports_given f \<longleftrightarrow> (\<forall>svcs t ds. set (fst (f_ScheduleServiceBatch f svcs t ds)) \<subseteq> svc_ID ` set svcs)"

lemma loop_run_add:
  "loop_run f t k (i + j) m = (case loop_run f t k i m of Inl e \<Rightarrow> Inl e | Inr m' \<Rightarrow> loop_run f t k j m')"
  by (induction i arbitrary: m) (auto split: sum.split)

lemma queueLoop_at: "loop_at m t k q lp \<Longrightarrow> queueLoop f t k m = loop_step f t k q lp m"
  by (auto simp: loop_at_def queueLoop_def)

lemma loop_at_set_loop: "loop_at m t k q lp \<Longrightarrow> loop_at (set_loop t k lp' m) t k q lp'"
  by (auto simp: loop_at_def set_loop_def)

lemma loop_at_frame:
  "loop_at m t k q lp \<Longrightarrow> m_TenantQueues m' = m_TenantQueues m \<Longrightarrow> m_loops m' = m_loops m \<Longrightarrow>
     loop_at m' t k q lp"
  by (simp add: loop_at_def)

lemma loop_at_phase_ok: "manager_ok m \<Longrightarrow> loop_at m t k q lp \<Longrightarrow> phase_ok (m_store m) (lp_phase lp)"
  unfolding manager_ok_def loop_at_def by blast

subsection \<open>One step of each phase\<close>

lemma step_top:
  assumes "loop_at m t k q lp" and "lp_phase lp = AtTop"
  shows "\<exists>m'. queueLoop f t k m = Inr m' \<and> m_store m' = m_store m
    \<and> loop_at m' t k (fst (getNextBatch q)) (lp\<lparr>lp_phase := Fetched
        (case q_BatchQueue q of [] \<Rightarrow> None | b # _ \<Rightarrow> Some b)\<rparr>)"
proof -
  obtain qs where qs: "map_of (m_TenantQueues m) t = Some qs" "map_of qs k = Some q"
    using assms(1) by (auto simp: loop_at_def)
  obtain q' r where nb: "getNextBatch q = (q', r)" by fastforce
  have r: "(case r of Inl _ \<Rightarrow> None | Inr b \<Rightarrow> Some b) = (case q_BatchQueue q of [] \<Rightarrow> None | b # _ \<Rightarrow> Some b)"
    using nb by (auto simp: getNextBatch_def split: list.splits)
  have "loop_at (set_loop t k lp' (m\<lparr>m_TenantQueues := gset t (gset k q' qs) (m_TenantQueues m)\<rparr>))
      t k q' lp'" for lp'
    by (simp add: loop_at_def set_loop_def)
  with nb qs r show ?thesis
    using queueLoop_at [OF assms(1), of f] assms(2)
    by (simp add: loop_step_def set_loop_frame)
qed

lemma step_fetched:
  assumes "loop_at m t k q lp" and "lp_phase lp = Fetched r"
  shows "\<exists>m'. queueLoop f t k m = Inr m' \<and> m_store m' = m_store m
    \<and> loop_at m' t k q (lp\<lparr>lp_phase := (case r of Some b \<Rightarrow> Synced b | None \<Rightarrow> Blocked)\<rparr>)"
proof -
  let ?m = "if lp_badsids lp \<noteq> [] then SyncCurrentStates f (lp_badsids lp) m else m"
  have quiet: "quiet m ?m" by auto
  then have "loop_at ?m t k q lp" using assms(1) loop_at_frame by (simp add: quiet_def)
  from loop_at_set_loop [OF this] show ?thesis
    using queueLoop_at [OF assms(1), of f] assms(2) quiet
    by (simp add: loop_step_def Let_def set_loop_frame quiet_def)
qed

lemma update_closed:
  assumes "distinct (keys ps)"
  shows "\<exists>st'. fold (update_one services) ps (st, [])
      = (st', filter (\<lambda>p. fst p \<in> svc_ID ` set services) ps)
    \<and> (\<forall>p \<in> set ps. fst p \<notin> svc_ID ` set services \<longrightarrow> cancelled_at st' (snd p))"
  using assms
proof (induction ps rule: rev_induct)
  case Nil
  then show ?case by simp
next
  case (snoc p ps)
  let ?known = "\<lambda>p. fst p \<in> svc_ID ` set services"
  obtain st' where st': "fold (update_one services) ps (st, []) = (st', filter ?known ps)"
    "\<forall>p \<in> set ps. \<not> ?known p \<longrightarrow> cancelled_at st' (snd p)"
    using snoc by auto
  have new: "fst p \<notin> set (keys (filter ?known ps))" using snoc.prems by auto
  show ?case
  proof (cases "List.find (\<lambda>svc. fst p = svc_ID svc) services")
    case None
    then have "\<not> ?known p" by (auto simp: find_None_iff)
    with None st' show ?thesis by (auto simp: update_one_def [of _ p])
  next
    case (Some svc)
    then have "?known p" "svc_ID svc = fst p" by (auto simp: find_Some_iff)
    with Some st' new show ?thesis by (simp add: update_one_def [of _ p] gset_new)
  qed
qed

lemma step_synced:
  assumes "manager_ok m" and "loop_at m t k q lp" and "lp_phase lp = Synced b"
  shows "\<exists>m' b'. queueLoop f t k m = Inr m' \<and> loop_at m' t k q (lp\<lparr>lp_phase := Updated b'\<rparr>)
    \<and> (\<forall>p \<in> set (b_Services b). p \<in> set (b_Services b') \<or> cancelled_at (m_store m') (snd p))"
proof -
  obtain st' b' where up: "updateBatch f b (m_store m) = (st', b')" by fastforce
  have "wf_map (b_Services b)" using loop_at_phase_ok [OF assms(1,2)] assms(3) by (simp add: batch_in_def)
  from update_closed [OF this, of "f_GetServicesForScheduling f
      (map (\<lambda>p. id_at (m_store m) (snd p)) (b_Services b))" "m_store m"]
  have "\<forall>p \<in> set (b_Services b). p \<in> set (b_Services b') \<or> cancelled_at st' (snd p)"
    using up by (fastforce simp: updateBatch_def Let_def)
  moreover have at: "loop_at (m\<lparr>m_store := st'\<rparr>) t k q lp" using assms(2) by (simp add: loop_at_def)
  moreover have "queueLoop f t k m
      = Inr (set_loop t k (lp\<lparr>lp_phase := Updated b'\<rparr>) (m\<lparr>m_store := st'\<rparr>))"
    using queueLoop_at [OF assms(2), of f] assms(3) up by (simp add: loop_step_def)
  ultimately show ?thesis
    using loop_at_set_loop [OF at, of "lp\<lparr>lp_phase := Updated b'\<rparr>"]
    by (intro exI conjI) (assumption | simp add: set_loop_frame)+
qed

lemma cancel_failed_total: "set sids \<subseteq> ids svcs \<Longrightarrow> \<exists>st'. cancel_failed svcs sids st = Inr st'"
proof (induction svcs sids st rule: cancel_failed.induct)
  case (2 svcs sid sids st)
  then obtain r where "map_of svcs sid = Some r" by (auto simp: ids_def dest!: weak_map_of_SomeI)
  with 2 show ?case by simp
qed simp

lemma processBatch_failed:
  assumes "processBatch f t b m = (m', failed)" and "batch_in (m_store m) b" and "reports_given f"
  shows "set failed \<subseteq> ids (b_Services b)"
proof -
  obtain m1 rs where sel: "select_services b (b_Services b) m [] = (m1, rs)" by fastforce
  have held: "held (m_store m) (b_Services b)" using assms(2) by (simp add: batch_in_def)
  have fr: "extends (m_store m) (m_store m1)" "set rs \<subseteq> snd ` set (b_Services b)"
    using select_services_frame [OF sel held] by (auto simp: same_frame_def)
  have "id_at (m_store m1) r \<in> ids (b_Services b)" if "r \<in> set rs" for r
    using that fr held_extends [OF held fr(1)] by (force simp: held_def ids_def)
  then have sub: "id_at (m_store m1) ` set rs \<subseteq> ids (b_Services b)" by blast
  have "set failed \<subseteq> id_at (m_store m1) ` set rs"
    using assms(1) sel assms(3) [unfolded reports_given_def, rule_format,
        of "map (svc_at (m_store m1)) rs" t "b_DesiredState b"]
    by (auto simp: processBatch_def Let_def image_image split: prod.splits option.splits)
  with sub show ?thesis by blast
qed

lemma step_updated:
  assumes "manager_ok m" and "loop_at m t k q lp" and "lp_phase lp = Updated b" and "reports_given f"
  shows "\<exists>m' bad. queueLoop f t k m = Inr m' \<and> extends (m_store m) (m_store m')
    \<and> loop_at m' t k q \<lparr>lp_phase = Waiting b, lp_badsids = bad\<rparr>"
proof -
  have b: "batch_in (m_store m) b" using loop_at_phase_ok [OF assms(1,2)] assms(3) by simp
  obtain m1 bad where pr: "processBatch f t b m = (m1, bad)" by fastforce
  obtain st' where cf: "cancel_failed (b_Services b) bad (m_store m1) = Inr st'"
    using cancel_failed_total processBatch_failed [OF pr b assms(4)] by blast
  have fr: "same_frame m m1" using processBatch_frame [OF pr b] .
  then have at: "loop_at (m1\<lparr>m_store := st'\<rparr>) t k q lp"
    using assms(2) by (simp add: loop_at_def same_frame_def)
  have "extends (m_store m) st'"
    using fr cancel_failed_extends [OF cf] extends_trans by (auto simp: same_frame_def)
  with loop_at_set_loop [OF at, of "\<lparr>lp_phase = Waiting b, lp_badsids = bad\<rparr>"] show ?thesis
    using queueLoop_at [OF assms(2), of f] assms(3) pr cf
    by (auto simp: loop_step_def set_loop_frame)
qed

lemma step_waiting:
  assumes "loop_at m t k q lp" and "lp_phase lp = Waiting b"
  shows "\<exists>m'. queueLoop f t k m = Inr m' \<and> loop_at m' t k q (lp\<lparr>lp_phase := AtTop\<rparr>)
    \<and> m_store m' = cancel_all (map snd (b_Services b)) (m_store m)"
proof -
  have at: "loop_at (m\<lparr>m_store := st'\<rparr>) t k q lp" for st' using assms(1) by (simp add: loop_at_def)
  show ?thesis
    using queueLoop_at [OF assms(1), of f] assms(2) loop_at_set_loop [OF at]
    by (auto simp: loop_step_def set_loop_frame waitServicesWithTimeout_all)
qed

subsection \<open>A whole iteration\<close>

lemma cancelled_extends:
  "extends st st' \<Longrightarrow> r < next_ref st \<Longrightarrow> cancelled_at st r \<Longrightarrow> cancelled_at st' r"
  by (simp add: extends_def)

lemma loop_iteration:
  assumes "manager_ok m" and "loop_at m t k q lp" and "lp_phase lp = AtTop"
    and "q_BatchQueue q = b # bs" and "reports_given f"
  shows "\<exists>m' lp'. loop_run f t k 5 m = Inr m' \<and> manager_ok m'
    \<and> loop_at m' t k \<lparr>q_BatchQueue = bs, q_CurrentBatch = b\<rparr> lp' \<and> lp_phase lp' = AtTop
    \<and> extends (m_store m) (m_store m') \<and> (\<forall>p \<in> set (b_Services b). cancelled_at (m_store m') (snd p))"
proof -
  let ?q = "\<lparr>q_BatchQueue = bs, q_CurrentBatch = b\<rparr>"
  have next_q: "fst (getNextBatch q) = ?q" using assms(4) by (simp add: getNextBatch_def)
  obtain m1 where m1: "queueLoop f t k m = Inr m1" "m_store m1 = m_store m"
    "loop_at m1 t k ?q (lp\<lparr>lp_phase := Fetched (Some b)\<rparr>)"
    using step_top [OF assms(2,3), of f] assms(4) next_q by auto
  have ok1: "manager_ok m1" using queueLoop_ok [OF assms(1) m1(1)] .
  obtain m2 where m2: "queueLoop f t k m1 = Inr m2" "m_store m2 = m_store m1"
    "loop_at m2 t k ?q (lp\<lparr>lp_phase := Synced b\<rparr>)"
    using step_fetched [OF m1(3), of "Some b" f] by auto
  have ok2: "manager_ok m2" using queueLoop_ok [OF ok1 m2(1)] .
  have held: "held (m_store m2) (b_Services b)"
    using loop_at_phase_ok [OF ok2 m2(3)] by (simp add: batch_in_def)
  obtain m3 b' where m3: "queueLoop f t k m2 = Inr m3" "loop_at m3 t k ?q (lp\<lparr>lp_phase := Updated b'\<rparr>)"
    "\<forall>p \<in> set (b_Services b). p \<in> set (b_Services b') \<or> cancelled_at (m_store m3) (snd p)"
    using step_synced [OF ok2 m2(3), of b f] by auto
  have ok3: "manager_ok m3" using queueLoop_ok [OF ok2 m3(1)] .
  have ext3: "extends (m_store m2) (m_store m3)"
    using queueLoop_at [OF m2(3), of f] m3(1) updateBatch_ok [of f b "m_store m2"]
      loop_at_phase_ok [OF ok2 m2(3)]
    by (auto simp: loop_step_def set_loop_frame split: prod.splits)
  obtain m4 bad where m4: "queueLoop f t k m3 = Inr m4" "extends (m_store m3) (m_store m4)"
    "loop_at m4 t k ?q \<lparr>lp_phase = Waiting b', lp_badsids = bad\<rparr>"
    using step_updated [OF ok3 m3(2), of b' f] assms(5) by auto
  have ok4: "manager_ok m4" using queueLoop_ok [OF ok3 m4(1)] .
  obtain m5 where m5: "queueLoop f t k m4 = Inr m5"
    "loop_at m5 t k ?q \<lparr>lp_phase = AtTop, lp_badsids = bad\<rparr>"
    "m_store m5 = cancel_all (map snd (b_Services b')) (m_store m4)"
    using step_waiting [OF m4(3), of b' f] by auto
  have "loop_run f t k 5 m = Inr m5"
    by (simp add: eval_nat_numeral m1(1) m2(1) m3(1) m4(1) m5(1))
  moreover have "cancelled_at (m_store m5) (snd p)" if p: "p \<in> set (b_Services b)" for p
  proof (cases "p \<in> set (b_Services b')")
    case False
    then have "cancelled_at (m_store m3) (snd p)" using m3(3) p by blast
    moreover have "snd p < next_ref (m_store m3)"
      using held_extends [OF held ext3] p by (simp add: held_def)
    ultimately show ?thesis using cancelled_extends [OF m4(2)] m5(3) by simp
  qed (auto simp: m5(3))
  moreover have "extends (m_store m) (m_store m5)"
    using ext3 m4(2) extends_trans [OF _ extends_cancel_all] extends_trans m1(2) m2(2) m5(3) by metis
  ultimately show ?thesis
    using queueLoop_ok [OF ok4 m5(1)] m5(2) by (intro exI conjI) auto
qed

lemma loop_drains:
  assumes "manager_ok m" and "loop_at m t k q lp" and "lp_phase lp = AtTop" and "reports_given f"
  shows "\<exists>m' q' lp'. loop_run f t k (5 * length (q_BatchQueue q) + 2) m = Inr m' \<and> manager_ok m'
    \<and> loop_at m' t k q' lp' \<and> lp_phase lp' = Blocked \<and> drained q' \<and> extends (m_store m) (m_store m')
    \<and> (\<forall>p \<in> set (entries (q_BatchQueue q)). cancelled_at (m_store m') (snd p))"
  using assms
proof (induction "q_BatchQueue q" arbitrary: m q lp)
  case Nil
  then have empty: "q_BatchQueue q = []" by simp
  obtain m1 where m1: "queueLoop f t k m = Inr m1" "m_store m1 = m_store m"
    "loop_at m1 t k (fst (getNextBatch q)) (lp\<lparr>lp_phase := Fetched None\<rparr>)"
    using step_top [OF Nil.prems(2,3), of f] empty by auto
  obtain m2 where m2: "queueLoop f t k m1 = Inr m2" "m_store m2 = m_store m1"
    "loop_at m2 t k (fst (getNextBatch q)) (lp\<lparr>lp_phase := Blocked\<rparr>)"
    using step_fetched [OF m1(3), of None f] by auto
  have "loop_run f t k (5 * length (q_BatchQueue q) + 2) m = Inr m2"
    by (simp add: empty eval_nat_numeral m1(1) m2(1))
  moreover have "drained (fst (getNextBatch q))" using empty by (simp add: drained_def getNextBatch_def empty_batch_def)
  moreover have "manager_ok m2"
    using queueLoop_ok [OF queueLoop_ok [OF Nil.prems(1) m1(1)] m2(1)] .
  ultimately show ?case
    using m1(2) m2(2,3) empty by (intro exI conjI) (assumption | simp)+
next
  case (Cons b bs)
  then have bq: "q_BatchQueue q = b # bs" by simp
  have split: "5 * length (q_BatchQueue q) + 2 = 5 + (5 * length bs + 2)" by (simp add: bq)
  obtain m1 lp1 where it: "loop_run f t k 5 m = Inr m1" "manager_ok m1"
    "loop_at m1 t k \<lparr>q_BatchQueue = bs, q_CurrentBatch = b\<rparr> lp1" "lp_phase lp1 = AtTop"
    "extends (m_store m) (m_store m1)" "\<forall>p \<in> set (b_Services b). cancelled_at (m_store m1) (snd p)"
    using loop_iteration [OF Cons.prems(1-3) bq Cons.prems(4)] by blast
  obtain m2 q2 lp2 where rest: "loop_run f t k (5 * length bs + 2) m1 = Inr m2" "manager_ok m2"
    "loop_at m2 t k q2 lp2" "lp_phase lp2 = Blocked" "drained q2" "extends (m_store m1) (m_store m2)"
    "\<forall>p \<in> set (entries bs). cancelled_at (m_store m2) (snd p)"
    using Cons.hyps(1) [of "\<lparr>q_BatchQueue = bs, q_CurrentBatch = b\<rparr>" m1 lp1] it(2-4) Cons.prems(4) by auto
  have "snd p < next_ref (m_store m)" if p: "p \<in> set (b_Services b)" for p
  proof -
    obtain qs where qs: "map_of (m_TenantQueues m) t = Some qs" "map_of qs k = Some q"
      using Cons.prems(2) by (auto simp: loop_at_def)
    have "(k, q) \<in> set qs" using qs(2) by (rule map_of_SomeD)
    then have "p \<in> set (entries (all_batches qs))" using p bq by force
    then show ?thesis
      using manager_ok_tenant [OF Cons.prems(1) qs(1)] unfolding tenant_ok_def held_def by blast
  qed
  then have "cancelled_at (m_store m2) (snd p)" if "p \<in> set (b_Services b)" for p
    using cancelled_extends [OF rest(6)] it(5,6) that by (fastforce simp: extends_def)
  moreover have "loop_run f t k (5 * length (q_BatchQueue q) + 2) m = Inr m2"
    unfolding split loop_run_add [of f t k 5] it(1) by (simp only: sum.case rest(1))
  ultimately show ?case using rest extends_trans [OF it(5)] bq by (intro exI conjI) auto
qed

subsection \<open>A concrete run\<close>

definition sample_facade :: Facade where
  "sample_facade = \<lparr>f_GetServicesForScheduling = map (\<lambda>i. sample_service i 1 0),
     f_ScheduleServiceBatch = (\<lambda>svcs t ds. ([], None)), f_GetTenantIDs = Inr [''t'']\<rparr>"

definition started :: Manager where
  "started = fst (Start sample_facade (NewBatchServiceStateManager sample_store))"

definition requested_run :: Manager where
  "requested_run = fst (ScheduleServices [sample_service ''a'' 1 0] ''t'' SVCRun False started)"

lemma started_reachable: "ssm_reachable started"
  unfolding started_def by (rule ssm_reachable.step [OF ssm_reachable.init ssm_step.start])

lemma requested_run_reachable: "ssm_reachable requested_run"
  unfolding requested_run_def by (rule ssm_reachable.step [OF started_reachable ssm_step.schedule])

lemma sample_facade_reports: "reports_given sample_facade"
  by (simp add: reports_given_def sample_facade_def)

lemma started_eq:
  "started = \<lparr>m_store = sample_store,
     m_TenantQueues = [(''t'', [(SVCRun, NewServiceStateQueue), (SVCStop, NewServiceStateQueue)])],
     m_TenantShutDowns = [(''t'', ())], m_currentStateWaits = [], m_shutdown = OpenChan,
     m_loops = [((''t'', SVCStop), \<lparr>lp_phase = AtTop, lp_badsids = []\<rparr>),
                ((''t'', SVCRun), \<lparr>lp_phase = AtTop, lp_badsids = []\<rparr>)],
     m_tasks = [], m_calls = []\<rparr>"
  by (simp add: started_def Start_def NewBatchServiceStateManager_def sample_facade_def AddTenant_def
      Let_def gset_Cons)

lemmas schedule_eval = ScheduleServices_def NewCancellableService_def reconcileWithBatchQueue_def
  reconcileWithPendingBatch_def pending_one_def reconcileWithCurrentState_def current_one_def
  enqueue_def mergeBatch.simps mergeEmergencyBatch.simps MergeBatches_def sort_services_def go_sort_def sameBatch_def
  queueDesiredState_def signal_changed_def updateServiceCurrentState_def NewServiceStateQueue_def
  empty_batch_def state_tables gset_Cons gdel_Cons Let_def

lemma requested_run_queues:
  "m_TenantQueues requested_run =
     [(''t'', [(SVCRun, \<lparr>q_BatchQueue = [\<lparr>b_Services = [(''a'', 3)], b_DesiredState = SVCRun, b_Emergency = False\<rparr>],
                        q_CurrentBatch = empty_batch\<rparr>),
               (SVCStop, NewServiceStateQueue)])]"
  unfolding requested_run_def started_eq by (simp add: schedule_eval sample_defs)

subsection \<open>Properties of the running manager\<close>

text \<open>
  C2. \<^verbatim>\<open>ScheduleServices\<close> from any well-formed state. An unknown tenant is refused and
  nothing changes. Otherwise, for one of the four states that can be requested, the call
  succeeds and no request is lost: each requested service is queued for exactly the
  requested state, or its request is cancelled, or its current state will be synchronised;
  and every entry that was queued before is still queued, or is cancelled, or is on its
  way to be processed at once.
\<close>

theorem ScheduleServices_accounts:
  assumes "manager_ok m" and "known_state ds" and "ScheduleServices svcs t ds em m = (m', err)"
  shows "if map_of (m_TenantQueues m) t = None then err = Some ErrBadTenantID \<and> m' = m
    else err = None \<and> ids (requested svcs m) = svc_ID ` set svcs
      \<and> (\<forall>p \<in> set (requested svcs m).
           queued_for m' t ds em p \<or> cancelled_at (m_store m') (snd p) \<or> to_sync m' (fst p))
      \<and> (\<forall>p. queued m t p \<longrightarrow>
           queued m' t p \<or> cancelled_at (m_store m') (snd p) \<or> expedited_in m' t p)"
  using assms by (rule ScheduleServices_accounted)

theorem ScheduleServices_accounts_witness:
  "snd (ScheduleServices [sample_service ''b'' 1 0] ''t'' SVCStop False requested_run) = None
     \<and> ids (requested [sample_service ''b'' 1 0] requested_run) = {''b''}"
proof -
  let ?svcs = "[sample_service ''b'' 1 0]"
  obtain m' err where run: "ScheduleServices ?svcs ''t'' SVCStop False requested_run = (m', err)"
    by fastforce
  have "map_of (m_TenantQueues requested_run) ''t'' \<noteq> None" by (simp add: requested_run_queues)
  then show ?thesis
    using ScheduleServices_accounts [OF reachable_manager_ok [OF requested_run_reachable] _ run] run
    by (auto simp: sample_service_def)
qed

text \<open>
  C1. In every state the manager can reach, through any interleaving of callers, queue
  loops and goroutines and whatever the facade answers, each tenant has exactly a run
  queue and a stop queue; each service is queued at most once for the tenant, over both
  queues; each queued batch has work, sits in the queue of its kind and is keyed by the
  IDs of its services; and the tenants are exactly those that can be shut down.
\<close>

theorem reachable_queues:
  assumes "ssm_reachable m" and "map_of (m_TenantQueues m) t = Some qs"
  shows "set (keys qs) = {SVCRun, SVCStop} \<and> distinct (keys qs)
    \<and> distinct (keys (entries (all_batches qs)))
    \<and> (\<forall>(k, q) \<in> set qs. \<forall>b \<in> set (q_BatchQueue q). b_Services b \<noteq> []
         \<and> queueDesiredState (b_DesiredState b) = k
         \<and> (\<forall>(i, r) \<in> set (b_Services b). id_at (m_store m) r = i))
    \<and> m_shutdown m = OpenChan \<and> map_of (m_TenantShutDowns m) t = Some ()"
proof -
  have ok: "manager_ok m" using reachable_manager_ok [OF assms(1)] .
  have ten: "tenant_ok (m_store m) qs" using manager_ok_tenant [OF ok assms(2)] .
  have "b_Services b \<noteq> [] \<and> queueDesiredState (b_DesiredState b) = k
      \<and> (\<forall>(i, r) \<in> set (b_Services b). id_at (m_store m) r = i)"
    if "(k, q) \<in> set qs" "b \<in> set (q_BatchQueue q)" for k q b
    using ten that unfolding tenant_ok_def in_queue_def queue_ok_def batch_ok_def keyed_def by force
  then have "\<forall>(k, q) \<in> set qs. \<forall>b \<in> set (q_BatchQueue q). b_Services b \<noteq> []
      \<and> queueDesiredState (b_DesiredState b) = k
      \<and> (\<forall>(i, r) \<in> set (b_Services b). id_at (m_store m) r = i)"
    by blast
  moreover have "m_shutdown m = OpenChan" "map_of (m_TenantShutDowns m) t = Some ()"
    using ok assms(2) unfolding manager_ok_def by (auto simp: set_eq_iff dom_def)
  ultimately show ?thesis using ten unfolding tenant_ok_def queue_ok_def by blast
qed

theorem reachable_queues_witness:
  "\<exists>qs. map_of (m_TenantQueues requested_run) ''t'' = Some qs \<and> entries (all_batches qs) = [(''a'', 3)]
     \<and> distinct (keys (entries (all_batches qs))) \<and> m_shutdown requested_run = OpenChan"
  using reachable_queues [OF requested_run_reachable, of "''t''"]
  by (simp add: requested_run_queues NewServiceStateQueue_def)


lemma requested_run_loop:
  "loop_at requested_run ''t'' SVCRun
     \<lparr>q_BatchQueue = [\<lparr>b_Services = [(''a'', 3)], b_DesiredState = SVCRun, b_Emergency = False\<rparr>],
      q_CurrentBatch = empty_batch\<rparr> \<lparr>lp_phase = AtTop, lp_badsids = []\<rparr>"
proof -
  have "m_loops requested_run = m_loops started"
    unfolding requested_run_def started_eq by (simp add: schedule_eval sample_defs)
  then show ?thesis by (simp add: loop_at_def requested_run_queues started_eq)
qed


definition fetched_empty :: Manager where
  "fetched_empty = (case queueLoop sample_facade ''t'' SVCRun started of Inr m \<Rightarrow> m | Inl _ \<Rightarrow> started)"

definition requested_late :: Manager where
  "requested_late = fst (ScheduleServices [sample_service ''a'' 1 0] ''t'' SVCRun False fetched_empty)"

definition asleep :: Manager where
  "asleep = (case queueLoop sample_facade ''t'' SVCRun requested_late of Inr m \<Rightarrow> m | Inl _ \<Rightarrow> requested_late)"

lemma fetched_empty_eq:
  "queueLoop sample_facade ''t'' SVCRun started = Inr fetched_empty"
  "fetched_empty = started\<lparr>m_loops :=
     [((''t'', SVCStop), \<lparr>lp_phase = AtTop, lp_badsids = []\<rparr>),
      ((''t'', SVCRun), \<lparr>lp_phase = Fetched None, lp_badsids = []\<rparr>)]\<rparr>"
  by (simp_all add: fetched_empty_def queueLoop_def loop_step_def getNextBatch_def set_loop_def started_eq
      NewServiceStateQueue_def gset_Cons)

lemma requested_late_eq:
  "m_TenantQueues requested_late = m_TenantQueues requested_run"
  "m_loops requested_late = m_loops fetched_empty"
  unfolding requested_late_def requested_run_def fetched_empty_eq started_eq
  by (simp_all add: schedule_eval sample_defs)

lemma asleep_eq:
  "queueLoop sample_facade ''t'' SVCRun requested_late = Inr asleep"
  "asleep = requested_late\<lparr>m_loops :=
     [((''t'', SVCStop), \<lparr>lp_phase = AtTop, lp_badsids = []\<rparr>),
      ((''t'', SVCRun), \<lparr>lp_phase = Blocked, lp_badsids = []\<rparr>)]\<rparr>"
  by (simp_all add: asleep_def queueLoop_def loop_step_def set_loop_def requested_late_eq requested_run_queues
      fetched_empty_eq started_eq gset_Cons)

text \<open>
  The loop can also sleep on work. \<^verbatim>\<open>queue.Changed <- true\<close> is sent without blocking,
  so it is dropped when the loop has found the queue empty but has not yet reached its
  \<^verbatim>\<open>select\<close>; in between it may even synchronise current states. There is a reachable state
  in which the loop is blocked, its queue holds a batch, and the loop takes no step.
\<close>

theorem lost_wakeup:
  "\<exists>m t k q lp. ssm_reachable m \<and> loop_at m t k q lp \<and> q_BatchQueue q \<noteq> [] \<and> lp_phase lp = Blocked
     \<and> (\<forall>f. queueLoop f t k m = Inr m)"
proof -
  have "ssm_reachable fetched_empty"
    using ssm_reachable.step [OF started_reachable ssm_step.loop [OF fetched_empty_eq(1)]] .
  then have "ssm_reachable requested_late"
    unfolding requested_late_def by (rule ssm_reachable.step [OF _ ssm_step.schedule])
  then have "ssm_reachable asleep"
    by (rule ssm_reachable.step [OF _ ssm_step.loop [OF asleep_eq(1)]])
  moreover have at: "loop_at asleep ''t'' SVCRun
      \<lparr>q_BatchQueue = [\<lparr>b_Services = [(''a'', 3)], b_DesiredState = SVCRun, b_Emergency = False\<rparr>],
       q_CurrentBatch = empty_batch\<rparr> \<lparr>lp_phase = Blocked, lp_badsids = []\<rparr>"
    by (simp add: asleep_eq requested_late_eq requested_run_queues loop_at_def)
  moreover have "queueLoop f ''t'' SVCRun asleep = Inr asleep" for f
    using queueLoop_at [OF at] by (simp add: loop_step_def)
  ultimately show ?thesis by fastforce
qed

end
