(* ===== verification/SSM_States.thy ===== *)
theory SSM_States
  imports SSM_Loop
begin

section \<open>Current states and the life cycle of the manager\<close>

text \<open>
  What the manager writes to the service store through the facade, read off the log of
  facade calls: the state that is shown for a service is the last one written for it.
  And what starting, shutting down and removing tenants do to requests in flight.
\<close>

definition show_call :: "string \<Rightarrow> facade_call \<Rightarrow> ServiceCurrentState option \<Rightarrow> ServiceCurrentState option" where
  "show_call sid c a =
     (case c of SetServicesCurrentState state sids \<Rightarrow> if sid \<in> set sids then Some state else a | _ \<Rightarrow> a)"

definition shown :: "facade_call list \<Rightarrow> string \<Rightarrow> ServiceCurrentState option" where
  "shown calls sid = fold (show_call sid) calls None"

lemma shown_snoc [simp]: "shown (calls @ [c]) sid = show_call sid c (shown calls sid)"
  by (simp add: shown_def)

lemma show_call_set [simp]:
  "show_call sid (SetServicesCurrentState state sids) a = (if sid \<in> set sids then Some state else a)"
  "show_call sid (UpdateService svc) a = a" "show_call sid (ScheduleServiceBatch svcs t ds) a = a"
  by (simp_all add: show_call_def)

subsection \<open>Single updates\<close>

lemma update_shown:
  "shown (m_calls (updateServiceCurrentState s sids m)) sid
     = (if sid \<in> set sids then Some s else shown (m_calls m) sid)"
  "map_of (m_currentStateWaits (updateServiceCurrentState s sids m)) sid
     = (if sid \<in> set sids then None else map_of (m_currentStateWaits m) sid)"
  by (simp_all add: updateServiceCurrentState_def gomap.lookup_fold_del)

text \<open>Starting a wait concerns one service, and waiting twice for the same state is idle.\<close>

lemma start_other:
  assumes "svc_ID svc \<noteq> sid"
  shows "shown (m_calls (startCurrentStateWait svc ds em m)) sid = shown (m_calls m) sid
    \<and> map_of (m_currentStateWaits (startCurrentStateWait svc ds em m)) sid
        = map_of (m_currentStateWaits m) sid"
  using assms
  by (auto simp: startCurrentStateWait_def spawn_wait_def Let_def updateServiceCurrentState_def
      split: option.split)

lemma start_same:
  assumes "\<forall>w. map_of (m_currentStateWaits m) (svc_ID svc) = Some w \<longrightarrow> w_WaitingState w \<noteq> ds"
  shows "shown (m_calls (startCurrentStateWait svc ds em m)) (svc_ID svc)
      = Some (DesiredToCurrentTransitionState ds em)
    \<and> map_of (m_currentStateWaits (startCurrentStateWait svc ds em m)) (svc_ID svc)
      = Some \<lparr>w_WaitingState = ds, w_finalState = DesiredToCurrentFinalState ds em, w_done = False\<rparr>"
  using assms
  by (auto simp: startCurrentStateWait_def spawn_wait_def Let_def updateServiceCurrentState_def
      split: option.split)

lemma start_idle:
  assumes "map_of (m_currentStateWaits m) (svc_ID svc) = Some w" and "w_WaitingState w = ds"
  shows "startCurrentStateWait svc ds em m = m"
  using assms by (simp add: startCurrentStateWait_def)

text \<open>
  Waiting for a state. Unless a wait for the same state is under way already, the
  service is shown in the transition state of the request, a wait for it is recorded and,
  when the service gets there, it is shown in the final state of the request; a second
  return of the same wait changes nothing.
\<close>

theorem wait_cycle:
  assumes "\<forall>w. map_of (m_currentStateWaits m) (svc_ID svc) = Some w \<longrightarrow> w_WaitingState w \<noteq> ds"
  shows "shown (m_calls (startCurrentStateWait svc ds em m)) (svc_ID svc)
      = Some (DesiredToCurrentTransitionState ds em)
    \<and> shown (m_calls (wait_returns (svc_ID svc) (startCurrentStateWait svc ds em m))) (svc_ID svc)
      = Some (DesiredToCurrentFinalState ds em)
    \<and> wait_returns (svc_ID svc) (wait_returns (svc_ID svc) (startCurrentStateWait svc ds em m))
      = wait_returns (svc_ID svc) (startCurrentStateWait svc ds em m)"
  using start_same [OF assms, of em] by (simp add: wait_returns_def)

theorem wait_cycle_witness:
  "shown (m_calls (wait_returns ''a'' (startCurrentStateWait (sample_service ''a'' 1 0) SVCRun False started))) ''a''
     = Some (DesiredToCurrentFinalState SVCRun False)"
proof -
  have "\<forall>w. map_of (m_currentStateWaits started) (svc_ID (sample_service ''a'' 1 0)) = Some w \<longrightarrow>
      w_WaitingState w \<noteq> SVCRun" by (simp add: started_eq)
  from wait_cycle [OF this, of False] show ?thesis by (simp add: sample_service_def)
qed

lemma requested_run_id: "id_at (m_store requested_run) 3 = ''a''"
  unfolding requested_run_def started_eq by (simp add: schedule_eval sample_defs)

subsection \<open>Synchronising\<close>

lemma sync_known_shown:
  assumes "sync_known states sids m = (m', missing)"
  shows "missing = filter (\<lambda>sid. map_of states sid = None) sids
    \<and> (\<forall>sid. sid \<in> set sids \<and> map_of states sid \<noteq> None \<longrightarrow>
         shown (m_calls m') sid = map_of states sid \<and> map_of (m_currentStateWaits m') sid = None)
    \<and> (\<forall>sid. sid \<notin> set sids \<or> map_of states sid = None \<longrightarrow>
         shown (m_calls m') sid = shown (m_calls m) sid
         \<and> map_of (m_currentStateWaits m') sid = map_of (m_currentStateWaits m) sid)"
  using assms
proof (induction sids arbitrary: m m' missing)
  case Nil
  then show ?case by simp
next
  case (Cons sid sids)
  show ?case
  proof (cases "map_of states sid")
    case None
    obtain m1 missing1 where rest: "sync_known states sids m = (m1, missing1)" by fastforce
    have out: "m' = m1" "missing = sid # missing1" using Cons.prems None rest by auto
    from Cons.IH [OF rest] None show ?thesis unfolding out by auto
  next
    case (Some s)
    then have rest: "sync_known states sids (updateServiceCurrentState s [sid] m) = (m', missing)"
      using Cons.prems by simp
    note IH = Cons.IH [OF rest]
    have "shown (m_calls m') sid = map_of states sid \<and> map_of (m_currentStateWaits m') sid = None"
      using IH Some by (cases "sid \<in> set sids") (auto simp: update_shown)
    with IH Some show ?thesis by (auto simp: update_shown)
  qed
qed

lemma fold_start_other:
  assumes "\<forall>svc \<in> set svcs. svc_ID svc \<noteq> sid"
  shows "shown (m_calls (fold (\<lambda>svc. startCurrentStateWait svc (d svc) (e svc)) svcs m)) sid
      = shown (m_calls m) sid
    \<and> map_of (m_currentStateWaits (fold (\<lambda>svc. startCurrentStateWait svc (d svc) (e svc)) svcs m)) sid
      = map_of (m_currentStateWaits m) sid"
  using assms by (induction svcs arbitrary: m) (simp_all add: start_other)

text \<open>The facade's contract: \<^verbatim>\<open>GetServicesForScheduling\<close> returns services it was asked for.\<close>

definition answers_asked :: "Facade \<Rightarrow> bool" where
  "answers_asked f \<longleftrightarrow> (\<forall>sids. svc_ID ` set (f_GetServicesForScheduling f sids) \<subseteq> set sids)"

lemma fold_start_waits:
  assumes "svc \<in> set svcs" and "distinct (map svc_ID svcs)"
  shows "\<exists>w. map_of (m_currentStateWaits (fold (\<lambda>svc. startCurrentStateWait svc (d svc) (e svc)) svcs m))
        (svc_ID svc) = Some w \<and> w_WaitingState w = d svc"
  using assms
proof (induction svcs arbitrary: m)
  case (Cons x svcs)
  have waits: "\<exists>w. map_of (m_currentStateWaits (startCurrentStateWait x (d x) (e x) m)) (svc_ID x) = Some w
      \<and> w_WaitingState w = d x"
    using start_same [of m x "d x" "e x"] start_idle [of m x _ "d x" "e x"] by fastforce
  show ?case
  proof (cases "svc = x")
    case True
    have "\<forall>y \<in> set svcs. svc_ID y \<noteq> svc_ID x" using Cons.prems(2) by (auto simp: image_iff)
    with waits True show ?thesis by (simp add: fold_start_other)
  next
    case False
    with Cons show ?thesis by auto
  qed
qed simp

text \<open>
  Synchronising services: one that is in a queue is shown in the state of its queue
  entry and no wait for it is left; one that is in no queue but that the store returns has
  a wait for its stored desired state afterwards; and nothing changes for a service that
  was not named.
\<close>

theorem SyncCurrentStates_states:
  assumes "answers_asked f"
    and "svcs = f_GetServicesForScheduling f (filter (\<lambda>sid. map_of (known_states m) sid = None) sids)"
    and "distinct (map svc_ID svcs)" and "m' = SyncCurrentStates f sids m"
  shows "(\<forall>sid \<in> set sids. map_of (known_states m) sid \<noteq> None \<longrightarrow>
        shown (m_calls m') sid = map_of (known_states m) sid \<and> map_of (m_currentStateWaits m') sid = None)
    \<and> (\<forall>svc \<in> set svcs. \<exists>w. map_of (m_currentStateWaits m') (svc_ID svc) = Some w
        \<and> w_WaitingState w = svc_DesiredState svc)
    \<and> (\<forall>sid. sid \<notin> set sids \<longrightarrow> shown (m_calls m') sid = shown (m_calls m) sid
        \<and> map_of (m_currentStateWaits m') sid = map_of (m_currentStateWaits m) sid)"
proof -
  obtain m1 missing where known: "sync_known (known_states m) sids m = (m1, missing)" by fastforce
  note sk = sync_known_shown [OF known]
  have missing: "missing = filter (\<lambda>sid. map_of (known_states m) sid = None) sids" using sk by blast
  have sync: "m' = fold (\<lambda>svc. startCurrentStateWait svc (svc_DesiredState svc) (svc_EmergencyShutdown svc))
      svcs m1"
    unfolding assms(2,4) SyncCurrentStates_def known missing by simp
  have other: "\<forall>svc \<in> set svcs. svc_ID svc \<noteq> sid"
    if "sid \<notin> set sids \<or> map_of (known_states m) sid \<noteq> None" for sid
    using assms(1) that unfolding answers_asked_def assms(2) by fastforce
  show ?thesis
    using sk fold_start_other [OF other] fold_start_waits [OF _ assms(3)] unfolding sync by auto
qed

theorem SyncCurrentStates_states_witness:
  "shown (m_calls (SyncCurrentStates sample_facade [''a''] requested_run)) ''a'' = Some ''pending_start''"
proof -
  have "answers_asked sample_facade"
    by (auto simp: answers_asked_def sample_facade_def sample_service_def)
  moreover have "known_states requested_run = [(''a'', ''pending_start'')]"
    unfolding known_states_def requested_run_queues
    by (simp add: queue_states_def batch_states_def requested_run_id state_tables
        NewServiceStateQueue_def empty_batch_def)
  ultimately show ?thesis
    using SyncCurrentStates_states [of sample_facade "[]" requested_run "[''a'']"]
    by (simp add: sample_facade_def)
qed

subsection \<open>Processing\<close>

abbreviation emergency_stop :: "ServiceStateChangeBatch \<Rightarrow> bool" where
  "emergency_stop b \<equiv> b_Emergency b \<and> b_DesiredState b = SVCStop"

text \<open>The services of a batch whose channel is open are selected, in the order of the batch.\<close>

lemma select_services_closed:
  assumes "select_services b ps m rs = (m', rs')"
  shows "rs' = rs @ map snd (filter (\<lambda>p. \<not> cancelled_at (m_store m) (snd p)) ps)
    \<and> (\<forall>q. cancelled_at (m_store m') q = cancelled_at (m_store m) q
        \<and> id_at (m_store m') q = id_at (m_store m) q)
    \<and> (\<forall>p \<in> set ps. \<not> cancelled_at (m_store m) (snd p) \<and> emergency_stop b \<longrightarrow>
         svc_EmergencyShutdown (svc_at (m_store m') (snd p)))
    \<and> (\<forall>q. svc_EmergencyShutdown (svc_at (m_store m) q) \<longrightarrow> svc_EmergencyShutdown (svc_at (m_store m') q))
    \<and> (\<not> emergency_stop b \<longrightarrow> m' = m)"
  using assms
proof (induction ps arbitrary: m rs)
  case Nil
  then show ?case by simp
next
  case (Cons p ps)
  let ?svc = "(svc_at (m_store m) (snd p))\<lparr>svc_EmergencyShutdown := True\<rparr>"
  let ?m = "m\<lparr>m_store := set_service (snd p) ?svc (m_store m), m_calls := m_calls m @ [UpdateService ?svc]\<rparr>"
  consider (skip) "cancelled_at (m_store m) (snd p)"
    | (stop) "\<not> cancelled_at (m_store m) (snd p)" "emergency_stop b"
    | (other) "\<not> cancelled_at (m_store m) (snd p)" "\<not> emergency_stop b" by blast
  then show ?case
  proof cases
    case skip
    then have "select_services b ps m rs = (m', rs')" using Cons.prems by simp
    from Cons.IH [OF this] skip show ?thesis by auto
  next
    case stop
    then have "select_services b ps ?m (rs @ [snd p]) = (m', rs')" using Cons.prems by (simp add: Let_def)
    note IH = Cons.IH [OF this]
    have "svc_EmergencyShutdown (svc_at (m_store m') (snd p))" using IH by simp
    with IH stop show ?thesis by auto
  next
    case other
    then have "select_services b ps m (rs @ [snd p]) = (m', rs')" using Cons.prems by auto
    from Cons.IH [OF this] other show ?thesis by auto
  qed
qed

lemma start_waits_calls:
  "\<exists>cs. m_calls (start_waits b failed ps m) = m_calls m @ cs \<and>
     (\<forall>c \<in> set cs. \<exists>s sids. c = SetServicesCurrentState s sids)"
proof (induction b failed ps m rule: start_waits.induct)
  case (2 b failed p ps m)
  have "\<exists>cs. m_calls (startCurrentStateWait svc ds em m) = m_calls m @ cs \<and>
     (\<forall>c \<in> set cs. \<exists>s sids. c = SetServicesCurrentState s sids)" for svc ds em
    by (auto simp: startCurrentStateWait_def spawn_wait_def Let_def updateServiceCurrentState_def
        split: option.split)
  from this [of "svc_at (m_store m) (snd p)" "b_DesiredState b" "b_Emergency b"] 2 show ?case
    by (cases "id_at (m_store m) (snd p) \<in> set failed") (auto simp: ball_Un)
qed simp

text \<open>
  Processing a batch hands the facade exactly the services of the batch that were
  not cancelled meanwhile, once, for the state of the batch; an emergency stop marks each
  of them as shut down first. When the facade refuses the whole batch, all of them are
  reported as failed.
\<close>

theorem processBatch_schedules:
  assumes "batch_in (m_store m) b" and "processBatch f t b m = (m', failed)"
    and "live = filter (\<lambda>p. \<not> cancelled_at (m_store m) (snd p)) (b_Services b)"
  shows "\<exists>svcs before after. m_calls m' = before @ [ScheduleServiceBatch svcs t (b_DesiredState b)] @ after
    \<and> map svc_ID svcs = keys live
    \<and> (emergency_stop b \<longrightarrow> (\<forall>svc \<in> set svcs. svc_EmergencyShutdown svc))
    \<and> (\<forall>c \<in> set after. \<exists>s sids. c = SetServicesCurrentState s sids)
    \<and> failed = (case f_ScheduleServiceBatch f svcs t (b_DesiredState b) of
        (bad, None) \<Rightarrow> bad | (_, Some _) \<Rightarrow> keys live)"
proof -
  obtain m1 rs where sel: "select_services b (b_Services b) m [] = (m1, rs)" by fastforce
  note cl = select_services_closed [OF sel]
  let ?svcs = "map (svc_at (m_store m1)) rs"
  let ?m2 = "updateServiceCurrentState (DesiredToCurrentTransitionState (b_DesiredState b) (b_Emergency b))
      (map (id_at (m_store m1)) rs) m1"
  let ?m3 = "?m2\<lparr>m_calls := m_calls ?m2 @ [ScheduleServiceBatch ?svcs t (b_DesiredState b)]\<rparr>"
  have rs: "rs = map snd live" using cl assms(3) by simp
  have "id_at (m_store m1) (snd p) = fst p" if "p \<in> set live" for p
    using that cl assms(1,3) by (auto simp: batch_in_def held_def)
  then have ids: "map (id_at (m_store m1)) rs = keys live" "map svc_ID ?svcs = keys live"
    by (auto simp: rs)
  have em: "emergency_stop b \<longrightarrow> (\<forall>svc \<in> set ?svcs. svc_EmergencyShutdown svc)"
    using cl assms(3) by (auto simp: rs)
  obtain bad e where ans: "f_ScheduleServiceBatch f ?svcs t (b_DesiredState b) = (bad, e)" by fastforce
  have out: "(m', failed) = (case e of Some _ \<Rightarrow> (?m3, keys live)
      | None \<Rightarrow> (start_waits b bad (b_Services b) ?m3, bad))"
    using assms(2) sel ans ids(1) by (cases e) (auto simp: processBatch_def Let_def)
  obtain aft where aft: "m_calls m' = m_calls ?m3 @ aft"
    "\<forall>c \<in> set aft. \<exists>s sids. c = SetServicesCurrentState s sids"
    using out start_waits_calls [of b bad "b_Services b" ?m3] by (cases e) auto
  then have calls: "m_calls m' = m_calls ?m2 @ [ScheduleServiceBatch ?svcs t (b_DesiredState b)] @ aft"
    by simp
  have "failed = (case f_ScheduleServiceBatch f ?svcs t (b_DesiredState b) of
      (bad, None) \<Rightarrow> bad | (_, Some _) \<Rightarrow> keys live)"
    using out ans by (cases e) simp_all
  with calls aft(2) ids(2) em show ?thesis by blast
qed

theorem processBatch_schedules_witness:
  "\<exists>svcs before after. m_calls (fst (processBatch sample_facade ''t'' (sample_batch SVCRun)
       (started\<lparr>m_store := CancellableService_Cancel 1 sample_store\<rparr>)))
     = before @ [ScheduleServiceBatch svcs ''t'' SVCRun] @ after \<and> map svc_ID svcs = [''a'', ''c'']"
proof -
  let ?m = "started\<lparr>m_store := CancellableService_Cancel 1 sample_store\<rparr>"
  let ?b = "sample_batch SVCRun"
  have "batch_in (m_store ?m) ?b" by (auto simp: batch_in_def held_def sample_defs)
  moreover have "filter (\<lambda>p. \<not> cancelled_at (m_store ?m) (snd p)) (b_Services ?b) = [(''a'', 0), (''c'', 2)]"
    by (simp add: sample_defs)
  ultimately show ?thesis
    using processBatch_schedules [of ?m ?b sample_facade "''t''" "fst (processBatch sample_facade ''t'' ?b ?m)"
        "snd (processBatch sample_facade ''t'' ?b ?m)"]
    by (fastforce simp: sample_batch_def)
qed

text \<open>
  The waits of a processed batch are not limited to the services that were
  scheduled: a service whose request was cancelled is not handed to the facade, yet it is
  shown in the transition state of the batch and a wait for that state is started.
\<close>

theorem cancelled_service_waits:
  "\<exists>f b m m' failed. batch_in (m_store m) b \<and> processBatch f t b m = (m', failed)
     \<and> b_Services b = [(''a'', r)] \<and> cancelled_at (m_store m) r
     \<and> ScheduleServiceBatch [] t SVCRun \<in> set (m_calls m')
     \<and> shown (m_calls m) ''a'' = None \<and> shown (m_calls m') ''a'' = Some ''starting''
     \<and> map_of (m_currentStateWaits m') ''a'' \<noteq> None"
proof -
  let ?b = "\<lparr>b_Services = [(''a'', r)], b_DesiredState = SVCRun, b_Emergency = False\<rparr>"
  let ?st = "\<lparr>cells = (\<lambda>_. \<lparr>cs_Service = sample_service ''a'' 1 0, cs_cancelled = True\<rparr>), next_ref = Suc r\<rparr>"
  let ?m = "started\<lparr>m_store := ?st\<rparr>"
  have "batch_in (m_store ?m) ?b" by (simp add: batch_in_def held_def sample_service_def)
  then show ?thesis
    by (intro exI [of _ sample_facade] exI [of _ ?b] exI [of _ ?m] exI conjI)
      (assumption | simp add: processBatch_def Let_def sample_facade_def started_eq shown_def
        startCurrentStateWait_def spawn_wait_def updateServiceCurrentState_def show_call_def
        sample_service_def state_tables)+
qed

subsection \<open>Life cycle\<close>

lemma Queue_Cancel_fold:
  assumes "p \<in> set (entries (all_batches qs)) \<or> cancelled_at st (snd p)"
  shows "cancelled_at (fold (\<lambda>(_, q). Queue_Cancel q) qs st) (snd p)"
  using assms
proof (induction qs arbitrary: st)
  case (Cons kq qs)
  then show ?case by (cases kq) (force simp: Queue_Cancel_all)
qed simp

lemma removeTenant_cancels:
  assumes "removeTenant t m = Inr m'"
  shows "queued m t p \<or> cancelled_at (m_store m) (snd p) \<Longrightarrow> cancelled_at (m_store m') (snd p)"
    and "t' \<noteq> t \<Longrightarrow> queued m' t' p = queued m t' p"
proof -
  let ?qs = "case map_of (m_TenantQueues m) t of Some qs \<Rightarrow> qs | None \<Rightarrow> []"
  have m': "m_store m' = fold (\<lambda>(_, q). Queue_Cancel q) ?qs (m_store m)"
    "m_TenantQueues m' = gdel t (m_TenantQueues m)"
    using assms by (auto simp: removeTenant_def Let_def split: option.splits)
  show "queued m t p \<or> cancelled_at (m_store m) (snd p) \<Longrightarrow> cancelled_at (m_store m') (snd p)"
    unfolding m' by (rule Queue_Cancel_fold) (fastforce simp: queued_def)
  show "t' \<noteq> t \<Longrightarrow> queued m' t' p = queued m t' p"
    by (simp add: queued_def m')
qed

lemma remove_tenants_cancels:
  assumes "manager_ok m" and "t \<in> set ts \<and> queued m t p \<or> cancelled_at (m_store m) (snd p)"
  shows "cancelled_at (m_store (remove_tenants ts m)) (snd p)"
  using assms
proof (induction ts arbitrary: m)
  case (Cons x ts)
  show ?case
  proof (cases "removeTenant x m")
    case (Inl e)
    then have "map_of (m_TenantQueues m) x = None"
      using Cons.prems(1) by (auto simp: removeTenant_def manager_ok_def split: option.splits)
    then have "\<not> queued m x p" by (simp add: queued_def)
    with Inl Cons show ?thesis by auto
  next
    case (Inr m')
    have "manager_ok m'" using removeTenant_ok [OF Cons.prems(1) Inr] by simp
    with Inr Cons show ?thesis
      using removeTenant_cancels(1) [OF Inr, of p] removeTenant_cancels(2) [OF Inr, of t p]
      by (cases "t = x") auto
  qed
qed simp

text \<open>
  Removing a tenant releases everybody who waits for its queued services, ends its
  loops and forgets it: removing it again or scheduling for it is refused, while other
  tenants keep their queues.
\<close>

theorem RemoveTenant_effect:
  assumes "ssm_reachable m" and "RemoveTenant t m = Inr m'"
  shows "(\<forall>p. queued m t p \<longrightarrow> cancelled_at (m_store m') (snd p))
    \<and> (\<forall>k. map_of (m_loops m') (t, k) = None) \<and> RemoveTenant t m' = Inl ErrBadTenantID
    \<and> snd (ScheduleServices svcs t ds em m') = Some ErrBadTenantID
    \<and> (\<forall>t' p. t' \<noteq> t \<longrightarrow> queued m' t' p = queued m t' p)"
proof -
  have run: "removeTenant t m = Inr m'" using assms(2) by (simp add: RemoveTenant_def)
  note ok = removeTenant_ok [OF reachable_manager_ok [OF assms(1)] run]
  have "(t, k) \<notin> dom (map_of (m_loops m'))" for k
    using ok unfolding manager_ok_def by simp
  then show ?thesis
    using ok removeTenant_cancels [OF run]
    by (auto simp: RemoveTenant_def removeTenant_def ScheduleServices_def domIff)
qed

theorem RemoveTenant_effect_witness:
  "\<exists>m'. RemoveTenant ''t'' requested_run = Inr m' \<and> cancelled_at (m_store m') 3
     \<and> RemoveTenant ''t'' m' = Inl ErrBadTenantID"
proof -
  have "m_TenantShutDowns requested_run = [(''t'', ())]"
    unfolding requested_run_def started_eq by (simp add: schedule_eval sample_defs)
  then obtain m' where run: "RemoveTenant ''t'' requested_run = Inr m'"
    by (auto simp: RemoveTenant_def removeTenant_def Let_def)
  have "queued requested_run ''t'' (''a'', 3)" by (simp add: queued_def requested_run_queues)
  with RemoveTenant_effect [OF requested_run_reachable run] run show ?thesis by fastforce
qed

text \<open>
  Shutting down releases everybody who waits for a queued service of any tenant,
  ends all loops and all current-state waits, and leaves a manager that accepts no tenant
  and no request until it is started again; a second shutdown panics.
\<close>

theorem Shutdown_effect:
  assumes "ssm_reachable m" and "Shutdown m = Inr m'"
  shows "(\<forall>t p. queued m t p \<longrightarrow> cancelled_at (m_store m') (snd p))
    \<and> m_loops m' = [] \<and> m_currentStateWaits m' = []
    \<and> AddTenant t m' = Inl ErrNotRunning \<and> snd (ScheduleServices svcs t ds em m') = Some ErrBadTenantID
    \<and> Shutdown m' = Inl PanicCloseOfClosedChannel
    \<and> snd (Start f m') \<noteq> Some ErrAlreadyStarted"
proof -
  note ok = reachable_manager_ok [OF assms(1)]
  note sd = Shutdown_ok [OF ok assms(2)]
  have open_m: "m_shutdown m = OpenChan"
    using assms(2) by (auto simp: Shutdown_def split: shutdown_chan.splits)
  let ?r = "remove_tenants (keys (m_TenantShutDowns m)) m"
  have m': "m' = ?r\<lparr>m_shutdown := ClosedChan, m_currentStateWaits := []\<rparr>"
    using assms open_m ok remove_all_closed by (simp add: Shutdown_def)
  have "cancelled_at (m_store m') (snd p)" if q: "queued m t p" for t p
  proof -
    have "t \<in> dom (map_of (m_TenantShutDowns m))"
      using ok q unfolding manager_ok_def queued_def by auto
    then have "t \<in> set (keys (m_TenantShutDowns m))" by (simp add: dom_map_of_conv_image_fst)
    then have "cancelled_at (m_store ?r) (snd p)"
      using remove_tenants_cancels [OF ok, of t "keys (m_TenantShutDowns m)" p] q by blast
    then show ?thesis by (simp add: m')
  qed
  moreover have "dom (map_of (m_loops m')) = {}" using sd unfolding manager_ok_def by simp
  then have "m_loops m' = []" by (simp add: dom_map_of_conv_image_fst)
  moreover have "snd (Start f m') \<noteq> Some ErrAlreadyStarted"
    using sd by (simp add: Start_def Let_def split: sum.split)
  ultimately show ?thesis
    using sd by (simp add: AddTenant_def ScheduleServices_def Shutdown_def m')
qed

theorem Shutdown_effect_witness:
  "\<exists>m'. Shutdown requested_run = Inr m' \<and> cancelled_at (m_store m') 3 \<and> m_loops m' = []"
proof -
  have "m_shutdown requested_run = OpenChan"
    unfolding requested_run_def started_eq by (simp add: schedule_eval sample_defs)
  then obtain m' where run: "Shutdown requested_run = Inr m'" by (simp add: Shutdown_def)
  have "queued requested_run ''t'' (''a'', 3)" by (simp add: queued_def requested_run_queues)
  with Shutdown_effect [OF requested_run_reachable run] run show ?thesis by fastforce
qed

end
