(* ===== verification/Diet.thy ===== *)
theory Diet
  imports Prelude
begin

section \<open>Discrete interval encoding trees\<close>

text \<open>
  \<^verbatim>\<open>commons/diet/diet.go\<close>: a binary search tree of ranges of 64-bit integers with insertion
  of a whole range, counting of common members and rebalancing by rotations. Trees are
  built and rotated in place but never shared, so a tree is a value. All arithmetic is on
  64-bit words; the theorems say where it may wrap.
\<close>

datatype dietNode = DNil | DNode (dmin: u64) (dmax: u64) (left: dietNode) (right: dietNode)

subsection \<open>Insertion\<close>

fun splitMax :: "u64 \<Rightarrow> u64 \<Rightarrow> dietNode \<Rightarrow> dietNode \<Rightarrow> u64 \<times> u64 \<times> dietNode" where
  "splitMax mn mx l DNil = (mn, mx, l)"
| "splitMax mn mx l (DNode rmn rmx rl rr) =
     (case splitMax rmn rmx rl rr of (u, v, rprime) \<Rightarrow> (u, v, DNode mn mx l rprime))"

fun splitMin :: "u64 \<Rightarrow> u64 \<Rightarrow> dietNode \<Rightarrow> dietNode \<Rightarrow> u64 \<times> u64 \<times> dietNode" where
  "splitMin mn mx DNil r = (mn, mx, r)"
| "splitMin mn mx (DNode lmn lmx ll lr) r =
     (case splitMin lmn lmx ll lr of (u, v, lprime) \<Rightarrow> (u, v, DNode mn mx lprime r))"

definition joinLeft :: "u64 \<Rightarrow> u64 \<Rightarrow> dietNode \<Rightarrow> dietNode \<Rightarrow> dietNode" where
  "joinLeft mn mx l r =
     (case l of
        DNil \<Rightarrow> DNode mn mx l r
      | DNode lmn lmx ll lr \<Rightarrow>
          (case splitMax lmn lmx ll lr of (xprime, yprime, lprime) \<Rightarrow>
             (if yprime + 1 = mn then DNode xprime mx lprime r else DNode mn mx l r)))"

definition joinRight :: "u64 \<Rightarrow> u64 \<Rightarrow> dietNode \<Rightarrow> dietNode \<Rightarrow> dietNode" where
  "joinRight mn mx l r =
     (case r of
        DNil \<Rightarrow> DNode mn mx l r
      | DNode rmn rmx rl rr \<Rightarrow>
          (case splitMin rmn rmx rl rr of (xprime, yprime, rprime) \<Rightarrow>
             (if mx + 1 = xprime then DNode mn yprime l rprime else DNode mn mx l r)))"

fun insert_range :: "u64 \<Rightarrow> u64 \<Rightarrow> dietNode \<Rightarrow> dietNode" where
  "insert_range x y DNil = DNode x y DNil DNil"
| "insert_range x y (DNode mn mx l r) =
     (if x \<ge> mn \<and> y \<le> mx then DNode mn mx l r
      else if y < mn then
        (if y + 1 = mn then joinLeft x mx l r else DNode mn mx (insert_range x y l) r)
      else if x > mx then
        (if x = mx + 1 then joinRight mn y l r else DNode mn mx l (insert_range x y r))
      else if x < mn \<and> y \<le> mx then joinLeft x mx l r
      else if x \<ge> mn \<and> y > mx then joinRight mn y l r
      else if x < mn \<and> y > mx then
        (case joinLeft x mx l r of
           DNode jmn jmx jl jr \<Rightarrow> joinRight jmn y jl jr
         | DNil \<Rightarrow> DNode mn mx l r)
      else DNode mn mx l r)"

definition sortBoundaries :: "u64 \<Rightarrow> u64 \<Rightarrow> u64 \<times> u64" where
  "sortBoundaries x y = (if y > x then (x, y) else (y, x))"

definition Insert :: "u64 \<Rightarrow> u64 \<Rightarrow> dietNode \<Rightarrow> dietNode" where
  "Insert x y root = (case sortBoundaries x y of (x', y') \<Rightarrow> insert_range x' y' root)"

subsection \<open>Counting\<close>

fun intersection :: "u64 \<Rightarrow> u64 \<Rightarrow> dietNode \<Rightarrow> u64" where
  "intersection l r DNil = 0"
| "intersection l r (DNode mn mx dl dr) =
     (if l > mx then (if dr = DNil then 0 else intersection l r dr)
      else if r < mn then (if dl = DNil then 0 else intersection l r dl)
      else if l \<ge> mn then
        (if r \<le> mx then r - l + 1
         else mx - l + 1 + (if dr \<noteq> DNil then intersection (mx + 1) r dr else 0))
      else if r \<le> mx then r - mn + 1 + (if dl \<noteq> DNil then intersection l (mn - 1) dl else 0)
      else if l \<le> mn \<and> r \<ge> mx then
        mx - mn + 1 + (if dl \<noteq> DNil then intersection l (mn - 1) dl else 0)
          + (if dr \<noteq> DNil then intersection (mx + 1) r dr else 0)
      else 0)"

definition Intersection :: "u64 \<Rightarrow> u64 \<Rightarrow> dietNode \<Rightarrow> u64" where
  "Intersection x y root = (case sortBoundaries x y of (x', y') \<Rightarrow> intersection x' y' root)"

definition Contains :: "u64 \<Rightarrow> u64 \<Rightarrow> dietNode \<Rightarrow> bool" where
  "Contains x y root =
     (case sortBoundaries x y of (x', y') \<Rightarrow> intersection x' y' root = y' - x' + 1)"

fun intersectionAll :: "dietNode \<Rightarrow> dietNode \<Rightarrow> u64" where
  "intersectionAll DNil other = 0"
| "intersectionAll (DNode mn mx l r) other =
     Intersection mn mx other + intersectionAll l other + intersectionAll r other"

fun total :: "dietNode \<Rightarrow> u64" where
  "total DNil = 0"
| "total (DNode mn mx l r) = mx - mn + 1 + total l + total r"

subsection \<open>Balancing\<close>

text \<open>
  The first loop of \<^verbatim>\<open>balance\<close> turns the right subtree of the root into a list along the
  right spine; \<open>None\<close> of \<open>compress\<close> is the nil dereference of a spine that is too short.
\<close>

fun node_count :: "dietNode \<Rightarrow> nat" where
  "node_count DNil = 0"
| "node_count (DNode _ _ l r) = Suc (node_count l + node_count r)"

function to_vine :: "dietNode \<Rightarrow> dietNode" where
  "to_vine DNil = DNil"
| "to_vine (DNode mn mx DNil r) = DNode mn mx DNil (to_vine r)"
| "to_vine (DNode mn mx (DNode lmn lmx ll lr) r) = to_vine (DNode lmn lmx ll (DNode mn mx lr r))"
  by pat_completeness auto
termination
  by (relation "measures [node_count, \<lambda>t. (case t of DNil \<Rightarrow> 0 | DNode _ _ l _ \<Rightarrow> node_count l)]") auto

fun compress :: "nat \<Rightarrow> dietNode \<Rightarrow> dietNode option" where
  "compress 0 root = Some root"
| "compress (Suc n) (DNode cmn cmx cl (DNode smn smx sl sr)) =
     (case compress n sr of
        None \<Rightarrow> None
      | Some sr' \<Rightarrow> Some (DNode smn smx (DNode cmn cmx cl sl) sr'))"
| "compress (Suc n) _ = None"

function nearest_loop :: "nat \<Rightarrow> nat \<Rightarrow> nat" where
  "nearest_loop i r = (if 0 < r \<and> r \<le> i then nearest_loop i (2 * r) else r)"
  by pat_completeness auto
termination
  by (relation "measure (\<lambda>(i, r). Suc i - r)") auto

definition nearestPow2 :: "nat \<Rightarrow> nat" where
  "nearestPow2 i = nearest_loop i 1 div 2"

function compress_loop :: "nat \<Rightarrow> dietNode \<Rightarrow> dietNode option" where
  "compress_loop sz root =
     (if sz > 1 then
        (case compress (sz div 2) root of
           None \<Rightarrow> None
         | Some root' \<Rightarrow> compress_loop (sz div 2) root')
      else Some root)"
  by pat_completeness auto
termination
  by (relation "measure fst") auto

declare nearest_loop.simps [simp del] compress_loop.simps [simp del]

definition balance_root :: "dietNode \<Rightarrow> dietNode option" where
  "balance_root root =
     (case root of
        DNil \<Rightarrow> Some DNil
      | DNode mn mx l r \<Rightarrow>
          (let vine = DNode mn mx l (to_vine r);
               sz = node_count r;
               leaves = sz + 1 - nearestPow2 (sz + 1)
           in case compress leaves vine of
                None \<Rightarrow> None
              | Some root' \<Rightarrow> compress_loop (sz - leaves) root'))"

definition Balance_tree :: "dietNode \<Rightarrow> dietNode option" where
  "Balance_tree root = (if root \<noteq> DNil then balance_root root else Some root)"

subsection \<open>The ranges of a tree\<close>

fun ranges :: "dietNode \<Rightarrow> (u64 \<times> u64) list" where
  "ranges DNil = []"
| "ranges (DNode mn mx l r) = ranges l @ (mn, mx) # ranges r"

definition span :: "u64 \<times> u64 \<Rightarrow> u64 set" where
  "span p = {fst p..snd p}"

definition members :: "(u64 \<times> u64) list \<Rightarrow> u64 set" where
  "members ps = (\<Union>p \<in> set ps. span p)"

text \<open>Two ranges in order with a gap between them, as the package documentation asks.\<close>

definition gap :: "u64 \<times> u64 \<Rightarrow> u64 \<times> u64 \<Rightarrow> bool" where
  "gap p q \<longleftrightarrow> snd p < fst q \<and> snd p + 1 < fst q"

definition diet_ok :: "dietNode \<Rightarrow> bool" where
  "diet_ok t \<longleftrightarrow> (\<forall>p \<in> set (ranges t). fst p \<le> snd p) \<and> sorted_wrt gap (ranges t)"

lemma members_simps [simp]:
  "members [] = {}" "members (p # ps) = span p \<union> members ps" "members (ps @ qs) = members ps \<union> members qs"
  by (auto simp: members_def)

lemma word_Suc_le: "(a :: u64) < b \<Longrightarrow> a + 1 \<le> b"
  by (metis inc_le)

lemma gap_trans: "gap p q \<Longrightarrow> fst q \<le> snd q \<Longrightarrow> gap q r \<Longrightarrow> gap p r"
  by (auto simp: gap_def)

lemma splitMax_ranges:
  "splitMax mn mx l r = (u, v, t) \<Longrightarrow> ranges (DNode mn mx l r) = ranges t @ [(u, v)]"
  by (induction mn mx l r arbitrary: u v t rule: splitMax.induct) (fastforce split: prod.splits)+

lemma splitMin_ranges:
  "splitMin mn mx l r = (u, v, t) \<Longrightarrow> ranges (DNode mn mx l r) = (u, v) # ranges t"
  by (induction mn mx l r arbitrary: u v t rule: splitMin.induct) (fastforce split: prod.splits)+

text \<open>
  Joining, on the list of ranges: a range is put between the ranges on its left and on its
  right, and merges with a neighbour that it touches exactly.
\<close>

definition glue_left :: "(u64 \<times> u64) list \<Rightarrow> u64 \<Rightarrow> u64 \<Rightarrow> (u64 \<times> u64) list" where
  "glue_left ls mn mx =
     (if ls \<noteq> [] \<and> snd (last ls) + 1 = mn then butlast ls @ [(fst (last ls), mx)] else ls @ [(mn, mx)])"

definition glue_right :: "u64 \<Rightarrow> u64 \<Rightarrow> (u64 \<times> u64) list \<Rightarrow> (u64 \<times> u64) list" where
  "glue_right mn mx rs =
     (if rs \<noteq> [] \<and> mx + 1 = fst (hd rs) then (mn, snd (hd rs)) # tl rs else (mn, mx) # rs)"

lemma joinLeft_ranges: "ranges (joinLeft mn mx l r) = glue_left (ranges l) mn mx @ ranges r"
proof (cases l)
  case (DNode lmn lmx ll lr)
  obtain u v t where split: "splitMax lmn lmx ll lr = (u, v, t)" by (cases "splitMax lmn lmx ll lr")
  from splitMax_ranges [OF this] DNode split show ?thesis
    by (simp add: joinLeft_def glue_left_def)
qed (simp add: joinLeft_def glue_left_def)

lemma joinRight_ranges: "ranges (joinRight mn mx l r) = ranges l @ glue_right mn mx (ranges r)"
proof (cases r)
  case (DNode rmn rmx rl rr)
  obtain u v t where split: "splitMin rmn rmx rl rr = (u, v, t)" by (cases "splitMin rmn rmx rl rr")
  from splitMin_ranges [OF this] DNode split show ?thesis
    by (simp add: joinRight_def glue_right_def)
qed (simp add: joinRight_def glue_right_def)

lemma joinLeft_shape: "\<exists>mn' l'. joinLeft mn mx l r = DNode mn' mx l' r"
  by (auto simp: joinLeft_def split: dietNode.split prod.split)

subsection \<open>Insertion\<close>

lemmas unat_order = word_le_nat_alt word_less_nat_alt

lemma unat_bound: "unat (x :: u64) < 2 ^ 64"
  using unsigned_less [of x] by simp

lemma succ_eq:
  assumes "(b :: u64) < x"
  shows "b + 1 = x \<longleftrightarrow> Suc (unat b) = unat x"
proof -
  have "unat b < unat x" and "unat x < 2 ^ 64"
    using assms unat_bound [of x] by (simp_all add: word_less_nat_alt)
  then have "unat (b + 1) = Suc (unat b)" by (simp add: unat_word_ariths)
  then show ?thesis by (metis word_unat_eq_iff)
qed

lemma gap_unat: "gap p q \<longleftrightarrow> Suc (unat (snd p)) < unat (fst q)"
proof (cases "snd p < fst q")
  case True
  then have "unat (snd p + 1) = Suc (unat (snd p))"
    using unat_bound [of "fst q"] by (simp add: word_less_nat_alt unat_word_ariths)
  with True show ?thesis by (simp add: gap_def word_less_nat_alt)
qed (auto simp: gap_def word_less_nat_alt)

lemma span_unat: "z \<in> span p \<longleftrightarrow> unat (fst p) \<le> unat z \<and> unat z \<le> unat (snd p)"
  by (simp add: span_def word_le_nat_alt)

definition ok_list :: "(u64 \<times> u64) list \<Rightarrow> bool" where
  "ok_list ps \<longleftrightarrow> (\<forall>p \<in> set ps. unat (fst p) \<le> unat (snd p)) \<and> sorted_wrt gap ps"

lemma diet_ok_list: "diet_ok t \<longleftrightarrow> ok_list (ranges t)"
  by (simp add: diet_ok_def ok_list_def word_le_nat_alt)

lemma ok_list_Nil [simp]: "ok_list []"
  by (simp add: ok_list_def)

lemma ok_list_append:
  "ok_list (ps @ qs) \<longleftrightarrow> ok_list ps \<and> ok_list qs \<and> (\<forall>p \<in> set ps. \<forall>q \<in> set qs. gap p q)"
  by (auto simp: ok_list_def sorted_wrt_append)

lemma ok_list_Cons:
  "ok_list (p # ps) \<longleftrightarrow> unat (fst p) \<le> unat (snd p) \<and> ok_list ps \<and> (\<forall>q \<in> set ps. gap p q)"
  by (auto simp: ok_list_def)

lemma glue_left_ok:
  assumes "ok_list ls" and "\<forall>p \<in> set ls. unat (snd p) < unat x" and "unat x \<le> unat mx"
  shows "ok_list (glue_left ls x mx) \<and> members (glue_left ls x mx) = members ls \<union> span (x, mx)
    \<and> (\<forall>p \<in> set (glue_left ls x mx). unat (snd p) \<le> unat mx)"
proof (cases "ls \<noteq> [] \<and> snd (last ls) + 1 = x")
  case True
  then obtain ls' a b where ls: "ls = ls' @ [(a, b)]" by (metis prod.collapse append_butlast_last_id)
  have "b < x" using assms(2) ls by (simp add: word_less_nat_alt)
  then have touch: "Suc (unat b) = unat x" using True ls succ_eq by simp
  have glued: "glue_left ls x mx = ls' @ [(a, mx)]" using True ls by (simp add: glue_left_def)
  have ab: "unat a \<le> unat b" using assms(1) ls by (simp add: ok_list_append ok_list_Cons)
  have "span (a, mx) = span (a, b) \<union> span (x, mx)"
    using touch ab assms(3) by (auto simp: span_unat)
  then show ?thesis
    using assms ls ab touch unfolding glued by (auto simp: ok_list_append ok_list_Cons gap_unat)
next
  case False
  then have glued: "glue_left ls x mx = ls @ [(x, mx)]" by (auto simp: glue_left_def)
  have "gap p (x, mx)" if p: "p \<in> set ls" for p
  proof -
    have "ls \<noteq> []" using p by auto
    then obtain ls' l where ls: "ls = ls' @ [l]" by (metis append_butlast_last_id)
    have "snd l < x" using assms(2) ls by (simp add: word_less_nat_alt)
    then have "Suc (unat (snd l)) \<noteq> unat x" using False ls succ_eq by auto
    then have last: "gap l (x, mx)" using \<open>snd l < x\<close> by (simp add: gap_unat word_less_nat_alt)
    show ?thesis
      using p ls last assms(1) by (fastforce simp: ok_list_append ok_list_Cons gap_unat)
  qed
  then show ?thesis
    using assms unfolding glued by (auto simp: ok_list_append ok_list_Cons)
qed

lemma glue_right_ok:
  assumes "ok_list rs" and "\<forall>p \<in> set rs. unat y < unat (fst p)" and "unat mn \<le> unat y"
  shows "ok_list (glue_right mn y rs) \<and> members (glue_right mn y rs) = span (mn, y) \<union> members rs
    \<and> (\<forall>p \<in> set (glue_right mn y rs). unat mn \<le> unat (fst p))"
proof (cases "rs \<noteq> [] \<and> y + 1 = fst (hd rs)")
  case True
  then obtain rs' a b where rs: "rs = (a, b) # rs'" by (metis prod.collapse list.exhaust_sel)
  have "y < a" using assms(2) rs by (simp add: word_less_nat_alt)
  then have touch: "Suc (unat y) = unat a" using True rs succ_eq by simp
  have glued: "glue_right mn y rs = (mn, b) # rs'" using True rs by (simp add: glue_right_def)
  have ab: "unat a \<le> unat b" using assms(1) rs by (simp add: ok_list_Cons)
  have "span (mn, b) = span (mn, y) \<union> span (a, b)"
    using touch ab assms(3) by (auto simp: span_unat)
  then show ?thesis
    using assms rs ab touch unfolding glued by (auto simp: ok_list_Cons gap_unat)
next
  case False
  then have glued: "glue_right mn y rs = (mn, y) # rs" by (auto simp: glue_right_def)
  have "gap (mn, y) p" if p: "p \<in> set rs" for p
  proof -
    have "rs \<noteq> []" using p by auto
    then obtain rs' r where rs: "rs = r # rs'" by (cases rs) auto
    have "y < fst r" using assms(2) rs by (simp add: word_less_nat_alt)
    then have "Suc (unat y) \<noteq> unat (fst r)" using False rs succ_eq by auto
    then have first: "gap (mn, y) r" using \<open>y < fst r\<close> by (simp add: gap_unat word_less_nat_alt)
    show ?thesis
      using p rs first assms(1) by (fastforce simp: ok_list_Cons gap_unat)
  qed
  then show ?thesis
    using assms unfolding glued by (auto simp: ok_list_Cons)
qed

text \<open>
  A range that may be inserted: it misses all ranges of the tree, or lies within one of
  them, or leaves a gap to all of them but one.
\<close>

definition apart :: "u64 \<times> u64 \<Rightarrow> u64 \<times> u64 \<Rightarrow> bool" where
  "apart p q \<longleftrightarrow> gap p q \<or> gap q p"

definition insertable :: "(u64 \<times> u64) list \<Rightarrow> u64 \<Rightarrow> u64 \<Rightarrow> bool" where
  "insertable ps x y \<longleftrightarrow>
     (\<forall>p \<in> set ps. unat (snd p) < unat x \<or> unat y < unat (fst p))
     \<or> (\<exists>p \<in> set ps. unat (fst p) \<le> unat x \<and> unat y \<le> unat (snd p))
     \<or> (\<exists>p \<in> set ps. \<forall>q \<in> set ps. q \<noteq> p \<longrightarrow> apart q (x, y))"

lemma insertable_cases [consumes 1, case_names miss within one]:
  assumes "insertable ps x y"
    and "\<forall>p \<in> set ps. unat (snd p) < unat x \<or> unat y < unat (fst p) \<Longrightarrow> thesis"
    and "\<And>p. p \<in> set ps \<Longrightarrow> unat (fst p) \<le> unat x \<Longrightarrow> unat y \<le> unat (snd p) \<Longrightarrow> thesis"
    and "\<And>p. p \<in> set ps \<Longrightarrow> \<forall>q \<in> set ps. q \<noteq> p \<longrightarrow> apart q (x, y) \<Longrightarrow> thesis"
  shows thesis
  using assms unfolding insertable_def by blast

lemma apart_miss: "apart p (x, y) \<Longrightarrow> unat (snd p) < unat x \<or> unat y < unat (fst p)"
  by (auto simp: apart_def gap_unat)

text \<open>Ranges that the new one stays clear of may be left out.\<close>

lemma insertable_part:
  assumes "insertable ps x y" and "set qs \<subseteq> set ps" and "unat x \<le> unat y"
    and "\<forall>p \<in> set ps - set qs. unat (snd p) < unat x \<or> unat y < unat (fst p)"
  shows "insertable qs x y"
  using assms(1)
proof (cases rule: insertable_cases)
  case miss
  then show ?thesis using assms(2) by (auto simp: insertable_def)
next
  case (within p)
  then have "p \<in> set qs" using assms(3,4) by force
  with within show ?thesis by (auto simp: insertable_def)
next
  case (one p)
  show ?thesis
  proof (cases "p \<in> set qs")
    case True
    then show ?thesis using one(2) assms(2) unfolding insertable_def by blast
  next
    case False
    have "apart q (x, y)" if "q \<in> set qs" for q
    proof -
      have "q \<noteq> p" and "q \<in> set ps" using that False assms(2) by auto
      then show ?thesis using one(2) by blast
    qed
    then show ?thesis unfolding insertable_def by (intro disjI1 ballI apart_miss)
  qed
qed

lemma ok_list_node:
  assumes "ok_list (L @ (mn, mx) # R)"
  shows "unat mn \<le> unat mx"
    and "p \<in> set L \<Longrightarrow> Suc (unat (snd p)) < unat mn \<and> unat (fst p) \<le> unat (snd p)"
    and "p \<in> set R \<Longrightarrow> Suc (unat mx) < unat (fst p) \<and> unat (fst p) \<le> unat (snd p)"
    and "ok_list L" and "ok_list R"
  using assms unfolding ok_list_append ok_list_Cons by (auto simp: gap_unat ok_list_def)

lemma insertable_left:
  assumes "insertable (L @ (mn, mx) # R) x y" and "ok_list (L @ (mn, mx) # R)" and "unat x \<le> unat y"
    and "unat y < unat mn"
  shows "insertable L x y"
proof (rule insertable_part [OF assms(1) _ assms(3)])
  show "\<forall>p \<in> set (L @ (mn, mx) # R) - set L. unat (snd p) < unat x \<or> unat y < unat (fst p)"
    using ok_list_node(1,3) [OF assms(2)] assms(4) by fastforce
qed auto

lemma insertable_right:
  assumes "insertable (L @ (mn, mx) # R) x y" and "ok_list (L @ (mn, mx) # R)" and "unat x \<le> unat y"
    and "unat mx < unat x"
  shows "insertable R x y"
proof (rule insertable_part [OF assms(1) _ assms(3)])
  show "\<forall>p \<in> set (L @ (mn, mx) # R) - set R. unat (snd p) < unat x \<or> unat y < unat (fst p)"
    using ok_list_node(1,2) [OF assms(2)] assms(4) by fastforce
qed auto

text \<open>When the new range reaches the node, its neighbours are out of reach.\<close>

lemma insertable_clear:
  assumes "insertable (L @ (mn, mx) # R) x y" and "ok_list (L @ (mn, mx) # R)" and "unat x \<le> unat y"
    and "unat mn \<le> Suc (unat y)" and "unat x \<le> Suc (unat mx)" and "\<not> (unat mn \<le> unat x \<and> unat y \<le> unat mx)"
  shows "(\<forall>p \<in> set L. unat (snd p) < unat x) \<and> (\<forall>p \<in> set R. unat y < unat (fst p))"
proof -
  note node = ok_list_node(1) [OF assms(2)] and L = ok_list_node(2) [OF assms(2)]
    and R = ok_list_node(3) [OF assms(2)]
  have clear: "(\<forall>p \<in> set L. unat (snd p) < unat x) \<and> (\<forall>p \<in> set R. unat y < unat (fst p))"
    if all: "\<forall>p \<in> set L \<union> set R. unat (snd p) < unat x \<or> unat y < unat (fst p)"
  proof (intro conjI ballI)
    fix p assume "p \<in> set L"
    with all have "unat (snd p) < unat x \<or> unat y < unat (fst p)" by blast
    with L [OF \<open>p \<in> set L\<close>] assms(4) show "unat (snd p) < unat x" by linarith
  next
    fix p assume "p \<in> set R"
    with all have "unat (snd p) < unat x \<or> unat y < unat (fst p)" by blast
    with R [OF \<open>p \<in> set R\<close>] assms(5) show "unat y < unat (fst p)" by linarith
  qed
  from assms(1) show ?thesis
  proof (cases rule: insertable_cases)
    case miss
    then show ?thesis using clear by auto
  next
    case (within p)
    then consider "p = (mn, mx)" | "p \<in> set L" | "p \<in> set R" by auto
    then show ?thesis
      using within assms(3-6) L [of p] R [of p] by cases auto
  next
    case (one p)
    have "\<not> apart (mn, mx) (x, y)" using assms(4,5) by (simp add: apart_def gap_unat)
    then have "p = (mn, mx)" using one(2) by auto
    moreover have "(mn, mx) \<notin> set L \<union> set R" using L R node by fastforce
    ultimately have "\<forall>q \<in> set L \<union> set R. apart q (x, y)" using one(2) by auto
    then show ?thesis using clear apart_miss by blast
  qed
qed

lemma members_bounds:
  assumes "ok_list ps" and "p \<in> set ps"
  shows "fst p \<in> members ps \<and> snd p \<in> members ps"
  using assms by (force simp: members_def ok_list_def span_unat)

lemma ok_list_join:
  assumes "ok_list L" and "ok_list R" and "unat mn \<le> unat mx"
    and "\<And>z. z \<in> members L \<Longrightarrow> Suc (unat z) < unat mn"
    and "\<And>z. z \<in> members R \<Longrightarrow> Suc (unat mx) < unat z"
  shows "ok_list (L @ (mn, mx) # R)"
proof -
  have L: "Suc (unat (snd p)) < unat mn" if "p \<in> set L" for p
    using members_bounds [OF assms(1) that] assms(4) by blast
  have R: "Suc (unat mx) < unat (fst p)" if "p \<in> set R" for p
    using members_bounds [OF assms(2) that] assms(5) by blast
  have "gap p q" if "p \<in> set L" "q \<in> set R" for p q
    using L [OF that(1)] R [OF that(2)] assms(3) by (simp add: gap_unat)
  then show ?thesis
    using assms(1-3) L R by (auto simp: ok_list_append ok_list_Cons gap_unat)
qed

lemma members_node:
  assumes "ok_list (L @ (mn, mx) # R)"
  shows "z \<in> members L \<Longrightarrow> Suc (unat z) < unat mn" and "z \<in> members R \<Longrightarrow> Suc (unat mx) < unat z"
proof -
  show "Suc (unat z) < unat mn" if z: "z \<in> members L"
  proof -
    obtain p where "p \<in> set L" "unat z \<le> unat (snd p)" using z by (auto simp: members_def span_unat)
    with ok_list_node(2) [OF assms] show ?thesis by fastforce
  qed
  show "Suc (unat mx) < unat z" if z: "z \<in> members R"
  proof -
    obtain p where "p \<in> set R" "unat (fst p) \<le> unat z" using z by (auto simp: members_def span_unat)
    with ok_list_node(3) [OF assms] show ?thesis by fastforce
  qed
qed

text \<open>The cases in which the new range reaches the node, on the lists of ranges.\<close>

lemma reach_left:
  assumes "ok_list (L @ (mn, mx) # R)" and "\<forall>p \<in> set L. unat (snd p) < unat x" and "unat x \<le> unat mx"
  shows "ok_list (glue_left L x mx @ R) \<and> members (glue_left L x mx @ R) = members L \<union> span (x, mx) \<union> members R"
proof -
  note node = ok_list_node [OF assms(1)]
  note gl = glue_left_ok [OF node(4) assms(2,3)]
  have "gap p q" if "p \<in> set (glue_left L x mx)" "q \<in> set R" for p q
    using gl node(3) [OF that(2)] that(1) by (fastforce simp: gap_unat)
  with gl node(5) show ?thesis by (simp add: ok_list_append)
qed

lemma reach_right:
  assumes "ok_list (L @ (mn, mx) # R)" and "\<forall>p \<in> set R. unat y < unat (fst p)" and "unat mn \<le> unat y"
  shows "ok_list (L @ glue_right mn y R) \<and> members (L @ glue_right mn y R) = members L \<union> span (mn, y) \<union> members R"
proof -
  note node = ok_list_node [OF assms(1)]
  note gr = glue_right_ok [OF node(5) assms(2,3)]
  have "gap p q" if "p \<in> set L" "q \<in> set (glue_right mn y R)" for p q
    using gr node(2) [OF that(1)] that(2) by (fastforce simp: gap_unat)
  with gr node(4) show ?thesis by (auto simp: ok_list_append)
qed

lemma reach_both:
  assumes "ok_list (ranges (DNode mn mx l r))"
    and "\<forall>p \<in> set (ranges l). unat (snd p) < unat x" and "\<forall>p \<in> set (ranges r). unat y < unat (fst p)"
    and "unat x < unat mn" and "unat mx < unat y" and "joinLeft x mx l r = DNode jmn jmx jl jr"
  shows "ok_list (ranges (joinRight jmn y jl jr)) \<and>
    members (ranges (joinRight jmn y jl jr)) = members (ranges (DNode mn mx l r)) \<union> span (x, y)"
proof -
  note node = ok_list_node [OF assms(1) [simplified]]
  have shape: "jmx = mx" "jr = r" using joinLeft_shape [of x mx l r] assms(6) by auto
  have list: "ranges jl @ (jmn, mx) # ranges r = glue_left (ranges l) x mx @ ranges r"
    using joinLeft_ranges [of x mx l r] assms(6) shape by simp
  have "unat x \<le> unat mx" using node(1) assms(4) by simp
  note left = reach_left [OF assms(1) [simplified] assms(2) this, folded list]
  have j: "unat jmn \<le> unat mx" using ok_list_node(1) [of "ranges jl" jmn mx] left by blast
  have "unat jmn \<le> unat y" using j assms(5) by simp
  note right = reach_right [OF conjunct1 [OF left] assms(3) this]
  have "span (jmn, y) = span (jmn, mx) \<union> span (mx, y)" "span (x, y) = span (x, mx) \<union> span (mx, y)"
    "span (mn, mx) \<subseteq> span (x, mx)"
    using j assms(4,5) node(1) by (auto simp: span_unat)
  moreover have "members (ranges jl) \<union> span (jmn, mx) \<union> members (ranges r) = members (ranges l) \<union> span (x, mx) \<union> members (ranges r)"
    using left by (simp add: Un_assoc)
  ultimately have "members (ranges jl) \<union> span (jmn, y) \<union> members (ranges r) =
      members (ranges (DNode mn mx l r)) \<union> span (x, y)"
    by (simp only: ranges.simps members_simps) blast
  with right show ?thesis
    unfolding shape joinRight_ranges by (simp only: simp_thms)
qed

lemma insert_range_ok:
  assumes "ok_list (ranges t)" and "insertable (ranges t) x y" and "unat x \<le> unat y"
  shows "ok_list (ranges (insert_range x y t)) \<and> members (ranges (insert_range x y t)) = members (ranges t) \<union> span (x, y)"
  using assms
proof (induction x y t rule: insert_range.induct)
  case (1 x y)
  then show ?case by (simp add: ok_list_Cons)
next
  case (2 x y mn mx l r)
  note ok = 2(3) [simplified] and may = 2(4) [simplified] and xy = 2(5)
  note node = ok_list_node [OF ok]
  consider (inside) "mn \<le> x" "y \<le> mx" | (less) "\<not> (x \<ge> mn \<and> y \<le> mx)" "y < mn" "y + 1 \<noteq> mn"
    | (more) "\<not> (x \<ge> mn \<and> y \<le> mx)" "\<not> y < mn" "x > mx" "x \<noteq> mx + 1"
    | (reach) "\<not> (mn \<le> x \<and> y \<le> mx)" "unat mn \<le> Suc (unat y)" "unat x \<le> Suc (unat mx)"
  proof (cases "mn \<le> x \<and> y \<le> mx")
    case False
    then show thesis
      using less more reach succ_eq [of y mn] succ_eq [of mx x] node(1) xy
      by (cases "y < mn"; cases "mx < x") (auto simp: unat_order not_less dest: sym)
  qed (use inside in auto)
  then show ?case
  proof cases
    case inside
    then have "span (x, y) \<subseteq> span (mn, mx)" by (auto simp: span_def)
    with inside 2(3) show ?thesis by auto
  next
    case less
    then have y: "Suc (unat y) < unat mn"
      using succ_eq [of y mn] by (simp add: word_less_nat_alt)
    then have "insertable (ranges l) x y" using insertable_left [OF may ok xy] by simp
    note IH = 2(1) [OF less node(4) this xy]
    have "Suc (unat z) < unat mn" if "z \<in> members (ranges (insert_range x y l))" for z
      using that IH members_node(1) [OF ok] y by (auto simp: span_unat)
    note join = ok_list_join [OF conjunct1 [OF IH] node(5) node(1) this members_node(2) [OF ok]]
    show ?thesis using less IH join by (auto simp: not_le)
  next
    case more
    then have x: "Suc (unat mx) < unat x"
      using succ_eq [of mx x] by (auto simp: word_less_nat_alt)
    then have "insertable (ranges r) x y" using insertable_right [OF may ok xy] by simp
    note IH = 2(2) [OF more node(5) this xy]
    have "Suc (unat mx) < unat z" if "z \<in> members (ranges (insert_range x y r))" for z
      using that IH members_node(2) [OF ok] x by (auto simp: span_unat)
    note join = ok_list_join [OF node(4) conjunct1 [OF IH] node(1) members_node(1) [OF ok] this]
    show ?thesis using more IH join by (auto simp: not_le)
  next
    case reach
    then have "\<not> (unat mn \<le> unat x \<and> unat y \<le> unat mx)" by (simp add: word_le_nat_alt)
    note clear = insertable_clear [OF may ok xy reach(2,3) this]
    consider (l) "unat x < unat mn" "unat y \<le> unat mx" | (r) "unat mn \<le> unat x" "unat mx < unat y"
      | (b) "unat x < unat mn" "unat mx < unat y"
      using reach(1) by (fastforce simp: word_le_nat_alt)
    then show ?thesis
    proof cases
      case l
      have "insert_range x y (DNode mn mx l r) = joinLeft x mx l r"
        using l reach succ_eq [of y mn] xy by (auto simp: unat_order)
      moreover have "span (x, mx) = span (mn, mx) \<union> span (x, y)"
        using l reach(2) node(1) xy by (auto simp: span_unat)
      moreover have "unat x \<le> unat mx" using l node(1) by simp
      ultimately show ?thesis
        using reach_left [OF ok conjunct1 [OF clear]] by (auto simp: joinLeft_ranges)
    next
      case r
      have "insert_range x y (DNode mn mx l r) = joinRight mn y l r"
        using r reach succ_eq [of mx x] xy node(1) by (auto simp: unat_order)
      moreover have "span (mn, y) = span (mn, mx) \<union> span (x, y)"
        using r reach(3) node(1) xy by (auto simp: span_unat)
      moreover have "unat mn \<le> unat y" using r node(1) by simp
      ultimately show ?thesis
        using reach_right [OF ok conjunct2 [OF clear]] by (auto simp: joinRight_ranges)
    next
      case b
      obtain jmn jmx jl jr where j: "joinLeft x mx l r = DNode jmn jmx jl jr"
        using joinLeft_shape by blast
      have "insert_range x y (DNode mn mx l r) = joinRight jmn y jl jr"
        using b node(1) j by (auto simp: unat_order)
      then show ?thesis
        using reach_both [OF 2(3) conjunct1 [OF clear] conjunct2 [OF clear] b j] by simp
    qed
  qed
qed

subsection \<open>Counting\<close>

lemma span_image: "unat ` span (a, b) = {unat a..unat b}"
proof -
  have "n \<in> unat ` span (a, b)" if "unat a \<le> n" "n \<le> unat b" for n
  proof -
    have "n < 2 ^ 64" using that(2) unat_bound [of b] by linarith
    then have "unat (of_nat n :: u64) = n" by (simp add: unat_of_nat take_bit_nat_eq_self)
    then show ?thesis using that by (intro image_eqI [of _ _ "of_nat n"]) (auto simp: span_unat)
  qed
  then show ?thesis by (auto simp: span_unat)
qed

lemma card_span: "unat a \<le> unat b \<Longrightarrow> card (span (a, b)) = Suc (unat b - unat a)"
proof -
  assume "unat a \<le> unat b"
  moreover have "card (unat ` span (a, b)) = card (span (a, b))"
    by (intro card_image inj_onI) (simp add: word_unat_eq_iff)
  ultimately show ?thesis unfolding span_image by simp
qed

definition cnt :: "u64 set \<Rightarrow> u64" where
  "cnt S = of_nat (card S)"

lemma cnt_empty [simp]: "cnt {} = 0"
  by (simp add: cnt_def)

lemma cnt_Un: "S \<inter> T = {} \<Longrightarrow> cnt (S \<union> T) = cnt S + cnt T"
  by (simp add: cnt_def card_Un_disjoint)

lemma cnt_span: "unat a \<le> unat b \<Longrightarrow> cnt (span (a, b)) = b - a + 1"
  by (simp add: cnt_def card_span word_le_nat_alt flip: unat_sub)

lemma members_disjoint:
  assumes "ok_list (L @ (mn, mx) # R)"
  shows "members L \<inter> span (mn, mx) = {}" and "(members L \<union> span (mn, mx)) \<inter> members R = {}"
proof -
  note mem = members_node [OF assms] and node = ok_list_node(1) [OF assms]
  show "members L \<inter> span (mn, mx) = {}"
    using mem(1) by (fastforce simp: span_unat)
  show "(members L \<union> span (mn, mx)) \<inter> members R = {}"
    using mem node by (fastforce simp: span_unat)
qed

lemma cnt_node:
  assumes "ok_list (L @ (mn, mx) # R)"
  shows "cnt (members (L @ (mn, mx) # R) \<inter> S) =
    cnt (span (mn, mx) \<inter> S) + cnt (members L \<inter> S) + cnt (members R \<inter> S)"
proof -
  have "members (L @ (mn, mx) # R) \<inter> S = (members L \<inter> S \<union> span (mn, mx) \<inter> S) \<union> members R \<inter> S"
    by auto
  moreover have "cnt \<dots> = cnt (members L \<inter> S \<union> span (mn, mx) \<inter> S) + cnt (members R \<inter> S)"
    using members_disjoint [OF assms] by (intro cnt_Un) auto
  moreover have "cnt (members L \<inter> S \<union> span (mn, mx) \<inter> S) = cnt (members L \<inter> S) + cnt (span (mn, mx) \<inter> S)"
    using members_disjoint [OF assms] by (intro cnt_Un) auto
  ultimately show ?thesis by simp
qed

lemma total_cnt: "ok_list (ranges t) \<Longrightarrow> total t = cnt (members (ranges t))"
proof (induction t)
  case (DNode mn mx l r)
  note node = ok_list_node [OF DNode.prems [simplified]]
  show ?case
    using DNode.IH node cnt_node [OF DNode.prems [simplified], of UNIV] cnt_span [OF node(1)] by simp
qed simp

text \<open>The part of the asked range below and above a node.\<close>

lemma below_node:
  assumes "\<forall>z \<in> M. unat z < unat mn"
  shows "unat mn \<le> unat l \<Longrightarrow> M \<inter> span (l, r) = {}"
    and "unat l < unat mn \<Longrightarrow> unat mn \<le> unat r \<Longrightarrow> M \<inter> span (l, r) = M \<inter> span (l, mn - 1) \<and> unat l \<le> unat (mn - 1)"
proof -
  show "M \<inter> span (l, r) = {}" if "unat mn \<le> unat l"
    using assms that by (fastforce simp: span_unat)
  assume a: "unat l < unat mn" "unat mn \<le> unat r"
  then have "mn \<noteq> 0" by auto
  then have "unat (mn - 1) = unat mn - 1" by (simp add: unat_minus_one)
  with a assms show "M \<inter> span (l, r) = M \<inter> span (l, mn - 1) \<and> unat l \<le> unat (mn - 1)"
    by (fastforce simp: span_unat)
qed

lemma above_node:
  assumes "\<forall>z \<in> M. unat mx < unat z"
  shows "unat r \<le> unat mx \<Longrightarrow> M \<inter> span (l, r) = {}"
    and "unat l \<le> unat mx \<Longrightarrow> unat mx < unat r \<Longrightarrow> M \<inter> span (l, r) = M \<inter> span (mx + 1, r) \<and> unat (mx + 1) \<le> unat r"
proof -
  show "M \<inter> span (l, r) = {}" if "unat r \<le> unat mx"
    using assms that by (fastforce simp: span_unat)
  assume a: "unat l \<le> unat mx" "unat mx < unat r"
  then have "unat (mx + 1) = Suc (unat mx)"
    using unat_bound [of r] by (simp add: unat_word_ariths)
  with a assms show "M \<inter> span (l, r) = M \<inter> span (mx + 1, r) \<and> unat (mx + 1) \<le> unat r"
    by (fastforce simp: span_unat)
qed

lemma intersection_nil: "(if t = DNil then 0 else intersection l r t) = intersection l r t"
  "(if t \<noteq> DNil then intersection l r t else 0) = intersection l r t"
  by (cases t; simp)+

lemma span_Int: "span (a, b) \<inter> span (c, d) = span (max a c, min b d)"
  by (auto simp: span_def)

lemma intersection_cnt:
  "ok_list (ranges t) \<Longrightarrow> unat l \<le> unat r \<Longrightarrow> intersection l r t = cnt (members (ranges t) \<inter> span (l, r))"
proof (induction t arbitrary: l r)
  case (DNode mn mx dl dr)
  note node = ok_list_node [OF DNode.prems(1) [simplified]] and lr = DNode.prems(2)
  note IHl = DNode.IH(1) [OF node(4)] and IHr = DNode.IH(2) [OF node(5)]
  have L: "\<forall>z \<in> members (ranges dl). unat z < unat mn"
    using members_node(1) [OF DNode.prems(1) [simplified]] by fastforce
  have R: "\<forall>z \<in> members (ranges dr). unat mx < unat z"
    using members_node(2) [OF DNode.prems(1) [simplified]] by fastforce
  note below = below_node [OF L] and above = above_node [OF R]
  note count = cnt_node [OF DNode.prems(1) [simplified], of "span (l, r)", unfolded span_Int]
  have empty: "span (a, b) = {}" if "unat b < unat a" for a b
    using that by (auto simp: span_unat)
  consider (right) "mx < l" | (left) "l \<le> mx" "r < mn" | (both) "l < mn" "mx < r"
    | (inner) "mn \<le> l" "l \<le> mx" "r \<le> mx" | (upper) "mn \<le> l" "l \<le> mx" "mx < r" | (lower) "l < mn" "mn \<le> r" "r \<le> mx"
    by (metis linorder_not_less)
  then show ?case
  proof cases
    case right
    then have "unat mn \<le> unat l" "min mx r < max mn l"
      using node(1) by (auto simp: less_max_iff_disj min_less_iff_disj) (simp add: unat_order)
    then show ?thesis
      using right count below(1) IHr [OF lr] empty
      by (simp add: intersection_nil word_less_nat_alt)
  next
    case left
    then have "unat r \<le> unat mx" "min mx r < max mn l"
      using node(1) by (auto simp: less_max_iff_disj min_less_iff_disj) (simp add: unat_order)
    then show ?thesis
      using left count above(1) IHl [OF lr] empty by (simp add: intersection_nil unat_order)
  next
    case both
    then have b: "unat l < unat mn" "unat mn \<le> unat r" "unat l \<le> unat mx" "unat mx < unat r"
      "max mn l = mn" "min mx r = mx" using node(1) by (auto simp: unat_order)
    moreover from b have "\<not> mx < l" "\<not> r < mn" "\<not> mn \<le> l" "\<not> r \<le> mx" "l \<le> mn" "mx \<le> r"
      by (simp_all add: unat_order)
    then have "intersection l r (DNode mn mx dl dr) = mx - mn + 1 + intersection l (mn - 1) dl + intersection (mx + 1) r dr"
      by (simp add: intersection_nil)
    ultimately show ?thesis
      using count below(2) [OF b(1,2)] above(2) [OF b(3,4)] IHl IHr cnt_span [OF node(1)] by simp
  next
    case inner
    then have "unat mn \<le> unat l" "unat r \<le> unat mx" "max mn l = l" "min mx r = r" using node(1) by (auto simp: unat_order)
    moreover have "\<not> mx < l" "\<not> r < mn" using inner lr by (auto simp: unat_order)
    then have "intersection l r (DNode mn mx dl dr) = r - l + 1" using inner by simp
    ultimately show ?thesis
      using count below(1) above(1) cnt_span [OF lr] by simp
  next
    case upper
    then have b: "unat mn \<le> unat l" "unat l \<le> unat mx" "unat mx < unat r" "max mn l = l" "min mx r = mx"
      using node(1) by (auto simp: unat_order)
    moreover from b have "\<not> mx < l" "\<not> r < mn" "mn \<le> l" "\<not> r \<le> mx"
      by (simp_all add: unat_order)
    then have "intersection l r (DNode mn mx dl dr) = mx - l + 1 + intersection (mx + 1) r dr"
      by (simp add: intersection_nil)
    ultimately show ?thesis
      using count below(1) above(2) [OF b(2,3)] IHr cnt_span [OF b(2)] by simp
  next
    case lower
    then have b: "unat l < unat mn" "unat mn \<le> unat r" "unat r \<le> unat mx" "max mn l = mn" "min mx r = r"
      using node(1) by (auto simp: unat_order)
    moreover from b have "\<not> mx < l" "\<not> r < mn" "\<not> mn \<le> l" "r \<le> mx"
      by (simp_all add: unat_order)
    then have "intersection l r (DNode mn mx dl dr) = r - mn + 1 + intersection l (mn - 1) dl"
      by (simp add: intersection_nil)
    ultimately show ?thesis
      using count above(1) below(2) [OF b(1,2)] IHl cnt_span [OF b(2)] by simp
  qed
qed simp

lemma sortBoundaries_span: "sortBoundaries x y = (min x y, max x y)"
  by (auto simp: sortBoundaries_def min_def max_def)

lemma Intersection_cnt:
  "ok_list (ranges t) \<Longrightarrow> Intersection x y t = cnt (members (ranges t) \<inter> {min x y..max x y})"
  using intersection_cnt [of t "min x y" "max x y"]
  by (simp add: Intersection_def sortBoundaries_span span_def word_le_nat_alt [symmetric] min_le_iff_disj le_max_iff_disj)

lemma intersectionAll_cnt:
  "ok_list (ranges a) \<Longrightarrow> ok_list (ranges b) \<Longrightarrow> intersectionAll a b = cnt (members (ranges a) \<inter> members (ranges b))"
proof (induction a)
  case (DNode mn mx l r)
  note node = ok_list_node [OF DNode.prems(1) [simplified]]
  have "min mn mx = mn" "max mn mx = mx" using node(1) by (auto simp: unat_order)
  then show ?case
    using DNode.IH node DNode.prems cnt_node [OF DNode.prems(1) [simplified], of "members (ranges b)"]
    by (simp add: Intersection_cnt Int_commute span_def)
qed simp

lemma card_span_less: "x \<noteq> 0 \<or> y \<noteq> -1 \<Longrightarrow> card (span (x, y)) < 2 ^ 64"
proof -
  assume "x \<noteq> 0 \<or> y \<noteq> -1"
  moreover have "- 1 \<le> y \<longleftrightarrow> y = - 1" by (metis word_order.extremum_uniqueI order_refl)
  ultimately have "0 \<notin> span (x, y) \<or> -1 \<notin> span (x, y)" by (auto simp: span_def word_le_0_iff)
  then have "span (x, y) \<subset> UNIV" by blast
  moreover have "card (UNIV :: u64 set) = 2 ^ 64" by (simp add: card_word)
  ultimately show ?thesis by (metis finite_UNIV finite psubset_card_mono)
qed

lemma cnt_eq_card:
  assumes "cnt S = cnt T" "card S < 2 ^ 64" "card T < 2 ^ 64"
  shows "card S = card T"
proof -
  have "unat (of_nat (card S) :: u64) = unat (of_nat (card T) :: u64)" using assms(1) by (simp add: cnt_def)
  then show ?thesis using assms(2,3) by (simp add: unat_of_nat)
qed

lemma contains_iff:
  assumes "ok_list (ranges t)" and "x \<noteq> 0 \<or> y \<noteq> -1" and "x \<le> y"
  shows "intersection x y t = y - x + 1 \<longleftrightarrow> span (x, y) \<subseteq> members (ranges t)"
proof -
  let ?S = "members (ranges t) \<inter> span (x, y)"
  have xy: "unat x \<le> unat y" using assms(3) by (simp add: word_le_nat_alt)
  have small: "card (span (x, y)) < 2 ^ 64" by (rule card_span_less [OF assms(2)])
  have "card ?S \<le> card (span (x, y))" by (intro card_mono) auto
  with small have "card ?S < 2 ^ 64" by simp
  with small have "cnt ?S = cnt (span (x, y)) \<longleftrightarrow> card ?S = card (span (x, y))"
    using cnt_eq_card by (auto simp: cnt_def)
  also have "\<dots> \<longleftrightarrow> ?S = span (x, y)"
    using card_subset_eq [of "span (x, y)" ?S] by auto
  finally show ?thesis
    using intersection_cnt [OF assms(1) xy] cnt_span [OF xy] by auto
qed

subsection \<open>Balancing\<close>

lemma to_vine_ranges: "ranges (to_vine t) = ranges t"
  by (induction t rule: to_vine.induct) auto

fun spine :: "dietNode \<Rightarrow> nat" where
  "spine DNil = 0"
| "spine (DNode _ _ _ r) = Suc (spine r)"

lemma to_vine_spine: "spine (to_vine t) = node_count t"
  by (induction t rule: to_vine.induct) auto

text \<open>A rotation pass works on a right spine of more than twice its count and shortens it by the count.\<close>

lemma compress_ok:
  "2 * n \<le> spine t \<Longrightarrow> \<exists>t'. compress n t = Some t' \<and> ranges t' = ranges t \<and> spine t' = spine t - n"
proof (induction n t rule: compress.induct)
  case (2 n cmn cmx cl smn smx sl sr)
  then obtain t' where "compress n sr = Some t'" "ranges t' = ranges sr" "spine t' = spine sr - n" by auto
  then show ?case using 2(2) by auto
qed auto

lemma nearest_loop_bound: "0 < r \<Longrightarrow> r \<le> 2 * i \<Longrightarrow> 0 < i \<Longrightarrow> nearest_loop i r \<le> 2 * i \<and> i < nearest_loop i r"
  by (induction i r rule: nearest_loop.induct) (subst (1 2) nearest_loop.simps, auto)

lemma nearest_loop_even: "0 < r \<Longrightarrow> even r \<Longrightarrow> even (nearest_loop i r)"
  by (induction i r rule: nearest_loop.induct) (subst nearest_loop.simps, auto)

lemma nearestPow2_bounds: "0 < i \<Longrightarrow> 0 < nearestPow2 i \<and> nearestPow2 i \<le> i \<and> i < 2 * nearestPow2 i"
proof -
  assume i: "0 < i"
  have "nearest_loop i 1 = nearest_loop i 2" using i by (subst nearest_loop.simps) simp
  then have "even (nearest_loop i 1)" "nearest_loop i 1 \<le> 2 * i \<and> i < nearest_loop i 1"
    using nearest_loop_even [of 2 i] nearest_loop_bound [of 1 i] i by auto
  then show ?thesis unfolding nearestPow2_def using i by (auto elim: evenE)
qed

lemma compress_loop_ok:
  "sz \<le> spine t \<Longrightarrow> \<exists>t'. compress_loop sz t = Some t' \<and> ranges t' = ranges t"
proof (induction sz t rule: compress_loop.induct)
  case (1 sz t)
  obtain t1 where t1: "compress (sz div 2) t = Some t1" "ranges t1 = ranges t" "spine t1 = spine t - sz div 2"
    using compress_ok [of "sz div 2" t] order_trans [OF times_div_less_eq_dividend 1(2)] by auto
  then have "sz div 2 \<le> spine t1" using 1(2) by simp
  with 1(1) t1 show ?case by (subst (1) compress_loop.simps) auto
qed

lemma balance_root_ok: "\<exists>t'. balance_root t = Some t' \<and> ranges t' = ranges t"
proof (cases t)
  case (DNode mn mx l r)
  let ?sz = "node_count r" and ?vine = "DNode mn mx l (to_vine r)"
  let ?leaves = "?sz + 1 - nearestPow2 (?sz + 1)"
  have pow: "nearestPow2 (?sz + 1) \<le> ?sz + 1" "?sz + 1 < 2 * nearestPow2 (?sz + 1)"
    using nearestPow2_bounds [of "?sz + 1"] by auto
  have spine: "spine ?vine = ?sz + 1" by (simp add: to_vine_spine)
  moreover have "2 * ?leaves \<le> ?sz + 1" using pow by linarith
  ultimately obtain t1 where t1: "compress ?leaves ?vine = Some t1" "ranges t1 = ranges ?vine"
      "spine t1 = ?sz + 1 - ?leaves"
    using compress_ok [of ?leaves ?vine] by metis
  then obtain t2 where "compress_loop (?sz - ?leaves) t1 = Some t2" "ranges t2 = ranges t1"
    using compress_loop_ok [of "?sz - ?leaves" t1] by (metis diff_le_mono le_add1)
  then show ?thesis using DNode t1 by (simp add: balance_root_def Let_def to_vine_ranges)
qed (simp add: balance_root_def)

subsection \<open>What the tree promises\<close>

text \<open>
  C38. Inserting a range keeps the tree in order, with gaps between all ranges, and adds
  exactly the members of the range, provided the range meets at most one range of the tree
  or none at all: it may touch, overlap or cover one range, fill the gap between two, or lie
  inside one.
\<close>

theorem Insert_correct:
  assumes "diet_ok t" and "insertable (ranges t) (min x y) (max x y)"
  shows "diet_ok (Insert x y t) \<and> members (ranges (Insert x y t)) = members (ranges t) \<union> {min x y..max x y}"
proof -
  have "unat (min x y) \<le> unat (max x y)" by (simp add: word_le_nat_alt [symmetric] min_le_iff_disj le_max_iff_disj)
  from insert_range_ok [OF _ assms(2) this] assms(1)
  show ?thesis
    by (simp add: Insert_def sortBoundaries_span diet_ok_list span_def)
qed

definition sample_diet :: dietNode where
  "sample_diet = Insert 5 6 (Insert 10 12 DNil)"

lemma sample_diet_eq: "sample_diet = DNode 10 12 (DNode 5 6 DNil DNil) DNil"
  by (simp add: sample_diet_def Insert_def sortBoundaries_def)

lemma sample_diet_ok: "diet_ok sample_diet"
  by (simp add: sample_diet_eq diet_ok_def gap_def)

theorem Insert_correct_witness:
  "diet_ok (Insert 9 7 sample_diet) \<and> ranges (Insert 9 7 sample_diet) = [(5, 12)]
   \<and> members (ranges (Insert 9 7 sample_diet)) = members (ranges sample_diet) \<union> {7..9}"
proof -
  have "insertable (ranges sample_diet) (min 9 7) (max 9 7)"
    by (simp add: sample_diet_eq insertable_def)
  note ins = Insert_correct [OF sample_diet_ok this]
  have "ranges (Insert 9 7 sample_diet) = [(5, 12)]"
    by (simp add: sample_diet_eq Insert_def sortBoundaries_def joinLeft_def)
  with ins show ?thesis by simp
qed

text \<open>
  The condition on insertion is needed. A range that reaches over one range of the tree
  into another is merged with the first only: the tree then holds two overlapping ranges,
  and its total counts the common members twice.
\<close>

theorem Insert_overlap:
  "diet_ok sample_diet \<and> ranges (Insert 4 11 sample_diet) = [(5, 6), (4, 12)]
   \<and> \<not> diet_ok (Insert 4 11 sample_diet) \<and> total (Insert 4 11 sample_diet) = 11
   \<and> card (members (ranges (Insert 4 11 sample_diet))) = 9"
proof -
  have r: "ranges (Insert 4 11 sample_diet) = [(5, 6), (4, 12)]" and "total (Insert 4 11 sample_diet) = 11"
    by (simp_all add: sample_diet_eq Insert_def sortBoundaries_def joinLeft_def)
  moreover have "members [(5, 6), (4, 12)] = span (4, 12)"
    by (auto simp: span_unat)
  ultimately show ?thesis
    using sample_diet_ok by (simp add: diet_ok_def gap_def card_span)
qed

text \<open>
  On well-formed trees the counting operations count: \<open>Intersection\<close> the members of
  the tree in a range, \<open>IntersectionAll\<close> the common members of two trees, and \<open>Total\<close> all
  members, each modulo the word size.
\<close>

theorem counts_correct:
  assumes "diet_ok t" and "diet_ok other"
  shows "Intersection x y t = of_nat (card (members (ranges t) \<inter> {min x y..max x y}))
    \<and> intersectionAll t other = of_nat (card (members (ranges t) \<inter> members (ranges other)))
    \<and> total t = of_nat (card (members (ranges t)))"
  using assms Intersection_cnt intersectionAll_cnt total_cnt
  by (simp add: diet_ok_list cnt_def)

theorem counts_correct_witness:
  "Intersection 11 6 sample_diet = of_nat (card (members (ranges sample_diet) \<inter> {6..11}))
   \<and> Intersection 11 6 sample_diet = 3
   \<and> intersectionAll sample_diet sample_diet = of_nat (card (members (ranges sample_diet) \<inter> members (ranges sample_diet)))
   \<and> total sample_diet = of_nat (card (members (ranges sample_diet)))"
  using counts_correct [OF sample_diet_ok sample_diet_ok, of 11 6]
  by (simp add: sample_diet_eq Intersection_def sortBoundaries_def)

text \<open>
  \<open>Contains\<close> decides whether a range lies in the tree, for every range but the full
  one; on the full range of 64-bit integers the count wraps to 0, and the empty tree is said
  to contain it.
\<close>

theorem Contains_iff:
  assumes "diet_ok t"
  shows "(min x y \<noteq> 0 \<or> max x y \<noteq> - 1 \<longrightarrow> (Contains x y t \<longleftrightarrow> {min x y..max x y} \<subseteq> members (ranges t)))
    \<and> Contains 0 (- 1) DNil"
proof (intro conjI impI)
  show "Contains x y t \<longleftrightarrow> {min x y..max x y} \<subseteq> members (ranges t)" if that: "min x y \<noteq> 0 \<or> max x y \<noteq> - 1"
    using contains_iff [OF _ that, of t] assms
    by (simp add: Contains_def sortBoundaries_span diet_ok_list span_def min_le_iff_disj le_max_iff_disj)
  have "(0 :: u64) < - 1" by (simp add: word_neq_0_conv [symmetric])
  then show "Contains 0 (- 1) DNil" by (simp add: Contains_def sortBoundaries_def)
qed

theorem Contains_iff_witness:
  "Contains 10 12 sample_diet \<and> {10..12} \<subseteq> members (ranges sample_diet) \<and> Contains 0 (- 1) DNil"
proof -
  have "Contains 10 12 sample_diet" by (simp add: sample_diet_eq Contains_def sortBoundaries_def)
  then show ?thesis using Contains_iff [OF sample_diet_ok, of 10 12] by simp
qed


end
