(* ===== verification/Coordinator.thy ===== *)
theory Coordinator
  imports Prelude "HOL-Library.Sublist"
begin

section \<open>The coordinator client\<close>

text \<open>
  \<^verbatim>\<open>coordinator/client\<close> and \<^verbatim>\<open>coordinator/client/zookeeper\<close>: connections and transactions on
  a ZooKeeper server. The server and its client library are not part of the repository: a
  server is a record of the operations that the package calls, over an arbitrary type of
  server states, and what the package relies on is the locale \<open>zookeeper\<close>. Its laws say
  what a server promises: reads tell the truth about one tree of nodes, a write or a
  transaction is applied as a whole or not at all, and a failed one may still have been
  applied. A server that also never fails without a reason is \<open>available_zookeeper\<close>. The
  locales are interpreted on a server in memory.

  A path is the list of its components, so joining paths is appending them. A node is
  stored as JSON: \<open>NodeData\<close> holds the value that was marshalled, \<open>DirData\<close> is a
  \<^verbatim>\<open>client.Dir\<close> (an object without fields), \<open>EmptyData\<close> no bytes at all, and \<open>Garbled\<close>
  bytes that are not JSON. Watches (the functions ending in \<^verbatim>\<open>W\<close>) read like the plain
  functions; their channels are part of the loops that wait on them.
\<close>

type_synonym zpath = "string list"

datatype 'n data = EmptyData | DirData | NodeData 'n | Garbled

subsection \<open>Errors\<close>

datatype zk_error =
  ZErrNodeExists | ZErrConnectionClosed | ZErrUnknown | ZErrNoNode | ZErrNoAuth | ZErrBadVersion
| ZErrNoChildrenForEphemerals | ZErrNotEmpty | ZErrSessionExpired | ZErrInvalidACL | ZErrAuthFailed
| ZErrClosing | ZErrNothing | ZErrSessionMoved | ZErrNoServer | ZErrAPIError | ZErrOther string

datatype client_error =
  ErrEmptyNode | ErrSerialization | ErrNodeExists | ErrConnectionClosed | ErrUnknown | ErrNoNode | ErrNoAuth
| ErrBadVersion | ErrNoChildrenForEphemerals | ErrNotEmpty | ErrSessionExpired | ErrInvalidACL
| ErrAuthFailed | ErrClosing | ErrNothing | ErrSessionMoved | ErrNoServer | ErrAPIError
| ErrOther string | StackOverflow

primrec xlateError :: "zk_error \<Rightarrow> client_error" where
  "xlateError ZErrNodeExists = ErrNodeExists"
| "xlateError ZErrConnectionClosed = ErrConnectionClosed"
| "xlateError ZErrUnknown = ErrUnknown"
| "xlateError ZErrNoNode = ErrNoNode"
| "xlateError ZErrNoAuth = ErrNoAuth"
| "xlateError ZErrBadVersion = ErrBadVersion"
| "xlateError ZErrNoChildrenForEphemerals = ErrNoChildrenForEphemerals"
| "xlateError ZErrNotEmpty = ErrNotEmpty"
| "xlateError ZErrSessionExpired = ErrSessionExpired"
| "xlateError ZErrInvalidACL = ErrInvalidACL"
| "xlateError ZErrAuthFailed = ErrAuthFailed"
| "xlateError ZErrClosing = ErrClosing"
| "xlateError ZErrNothing = ErrNothing"
| "xlateError ZErrSessionMoved = ErrSessionMoved"
| "xlateError ZErrNoServer = ErrNoServer"
| "xlateError ZErrAPIError = ErrAPIError"
| "xlateError (ZErrOther e) = ErrOther e"

subsection \<open>The server and the connection\<close>

datatype 'n zk_op = ZCreate zpath "'n data" | ZSet zpath "'n data" int | ZDelete zpath int

record ('n, 's) Zk =
  zk_Create :: "zpath \<Rightarrow> 'n data \<Rightarrow> 's \<Rightarrow> zk_error option \<times> 's"
  zk_Set :: "zpath \<Rightarrow> 'n data \<Rightarrow> int \<Rightarrow> 's \<Rightarrow> zk_error option \<times> 's"
  zk_Delete :: "zpath \<Rightarrow> int \<Rightarrow> 's \<Rightarrow> zk_error option \<times> 's"
  zk_Exists :: "zpath \<Rightarrow> 's \<Rightarrow> zk_error + bool"
  zk_Get :: "zpath \<Rightarrow> 's \<Rightarrow> zk_error + ('n data \<times> int)"
  zk_Children :: "zpath \<Rightarrow> 's \<Rightarrow> zk_error + string list"
  zk_Multi :: "'n zk_op list \<Rightarrow> 's \<Rightarrow> zk_error option \<times> 's"

text \<open>
  A closed connection has no server. The stack bounds the depth of the recursion in
  \<^verbatim>\<open>delete\<close>, which follows the tree on the server.
\<close>

record ('n, 's) Connection =
  c_conn :: "('n, 's) Zk option"
  c_basePath :: zpath
  c_stack :: nat

definition xlate :: "zk_error option \<times> 's \<Rightarrow> client_error option \<times> 's" where
  "xlate r = (map_option xlateError (fst r), snd r)"

definition xlate_read :: "zk_error + 'a \<Rightarrow> client_error + 'a" where
  "xlate_read r = map_sum xlateError id r"

definition conn_create :: "('n, 's) Zk \<Rightarrow> zpath \<Rightarrow> zpath \<Rightarrow> 'n data \<Rightarrow> 's \<Rightarrow> client_error option \<times> 's" where
  "conn_create z base p d s = xlate (zk_Create z (base @ p) d s)"

definition createDir :: "('n, 's) Zk \<Rightarrow> zpath \<Rightarrow> zpath \<Rightarrow> 's \<Rightarrow> client_error option \<times> 's" where
  "createDir z base p s = xlate (zk_Create z (base @ p) EmptyData s)"

definition conn_exists :: "('n, 's) Zk \<Rightarrow> zpath \<Rightarrow> zpath \<Rightarrow> 's \<Rightarrow> client_error + bool" where
  "conn_exists z base p s =
     (case zk_Exists z (base @ p) s of
        Inl e \<Rightarrow> if e = ZErrNoNode then Inr False else Inl (xlateError e)
      | Inr b \<Rightarrow> Inr b)"

function ensurePath :: "('n, 's) Zk \<Rightarrow> zpath \<Rightarrow> zpath \<Rightarrow> 's \<Rightarrow> client_error option \<times> 's" where
  "ensurePath z base p s =
     (if p = [] then (None, s)
      else (case conn_exists z base (butlast p) s of
              Inl e \<Rightarrow> (Some e, s)
            | Inr True \<Rightarrow> (None, s)
            | Inr False \<Rightarrow>
                (case ensurePath z base (butlast p) s of
                   (Some e, s') \<Rightarrow> (Some e, s')
                 | (None, s') \<Rightarrow>
                     (case createDir z base (butlast p) s' of
                        (e, s'') \<Rightarrow> if e \<noteq> Some ErrNodeExists then (e, s'') else (None, s'')))))"
  by pat_completeness auto
termination
  by (relation "measure (\<lambda>(_, _, p, _). length p)") auto

declare ensurePath.simps [simp del]

definition Create :: "('n, 's) Connection \<Rightarrow> zpath \<Rightarrow> 'n data \<Rightarrow> 's \<Rightarrow> client_error option \<times> 's" where
  "Create c p d s =
     (case c_conn c of
        None \<Rightarrow> (Some ErrConnectionClosed, s)
      | Some z \<Rightarrow>
          (case ensurePath z (c_basePath c) p s of
             (Some e, s') \<Rightarrow> (Some e, s')
           | (None, s') \<Rightarrow> conn_create z (c_basePath c) p d s'))"

definition CreateIfExists :: "('n, 's) Connection \<Rightarrow> zpath \<Rightarrow> 'n data \<Rightarrow> 's \<Rightarrow> client_error option \<times> 's" where
  "CreateIfExists c p d s =
     (case c_conn c of
        None \<Rightarrow> (Some ErrConnectionClosed, s)
      | Some z \<Rightarrow> conn_create z (c_basePath c) p d s)"

definition CreateDir :: "('n, 's) Connection \<Rightarrow> zpath \<Rightarrow> 's \<Rightarrow> client_error option \<times> 's" where
  "CreateDir c p s =
     (case c_conn c of
        None \<Rightarrow> (Some ErrConnectionClosed, s)
      | Some z \<Rightarrow>
          (case ensurePath z (c_basePath c) p s of
             (Some e, s') \<Rightarrow> (Some e, s')
           | (None, s') \<Rightarrow> createDir z (c_basePath c) p s'))"

definition Set :: "('n, 's) Connection \<Rightarrow> zpath \<Rightarrow> 'n data \<Rightarrow> int \<Rightarrow> 's \<Rightarrow> client_error option \<times> 's" where
  "Set c p d version s =
     (case c_conn c of
        None \<Rightarrow> (Some ErrConnectionClosed, s)
      | Some z \<Rightarrow> xlate (zk_Set z (c_basePath c @ p) d version s))"

definition Exists :: "('n, 's) Connection \<Rightarrow> zpath \<Rightarrow> 's \<Rightarrow> client_error + bool" where
  "Exists c p s =
     (case c_conn c of
        None \<Rightarrow> Inl ErrConnectionClosed
      | Some z \<Rightarrow> conn_exists z (c_basePath c) p s)"

text \<open>The existence check that also sets a watch.\<close>

definition ExistsW :: "('n, 's) Connection \<Rightarrow> zpath \<Rightarrow> 's \<Rightarrow> client_error + bool" where
  "ExistsW c p s =
     (case c_conn c of
        None \<Rightarrow> Inl ErrConnectionClosed
      | Some z \<Rightarrow> xlate_read (zk_Exists z (c_basePath c @ p) s))"

definition conn_children :: "('n, 's) Zk \<Rightarrow> zpath \<Rightarrow> zpath \<Rightarrow> 's \<Rightarrow> client_error + string list" where
  "conn_children z base p s = xlate_read (zk_Children z (base @ p) s)"

definition Children :: "('n, 's) Connection \<Rightarrow> zpath \<Rightarrow> 's \<Rightarrow> client_error + string list" where
  "Children c p s =
     (case c_conn c of
        None \<Rightarrow> Inl ErrConnectionClosed
      | Some z \<Rightarrow> conn_children z (c_basePath c) p s)"

text \<open>
  \<open>Get\<close> hands the stored bytes to a decoder; the caller also receives the version of the
  node. On no bytes the target keeps its zero value and only the version is set.
\<close>

definition Get :: "('n, 's) Connection \<Rightarrow> zpath \<Rightarrow> 's \<Rightarrow> client_error option \<times> 'n data \<times> int" where
  "Get c p s =
     (case c_conn c of
        None \<Rightarrow> (Some ErrConnectionClosed, EmptyData, 0)
      | Some z \<Rightarrow>
          (case xlate_read (zk_Get z (c_basePath c @ p) s) of
             Inl e \<Rightarrow> (Some e, EmptyData, 0)
           | Inr (d, v) \<Rightarrow>
               (case d of
                  EmptyData \<Rightarrow> (Some ErrEmptyNode, EmptyData, v)
                | Garbled \<Rightarrow> (Some ErrSerialization, EmptyData, 0)
                | _ \<Rightarrow> (None, d, v))))"

primrec delete_list :: "(string \<Rightarrow> 's \<Rightarrow> client_error option \<times> 's) \<Rightarrow> string list \<Rightarrow> 's \<Rightarrow> client_error option \<times> 's" where
  "delete_list del [] s = (None, s)"
| "delete_list del (child # children) s =
     (case del child s of
        (Some e, s') \<Rightarrow> (Some e, s')
      | (None, s') \<Rightarrow> delete_list del children s')"

primrec conn_delete :: "nat \<Rightarrow> ('n, 's) Zk \<Rightarrow> zpath \<Rightarrow> zpath \<Rightarrow> 's \<Rightarrow> client_error option \<times> 's" where
  "conn_delete 0 z base p s = (Some StackOverflow, s)"
| "conn_delete (Suc n) z base p s =
     (case conn_children z base p s of
        Inl e \<Rightarrow> (Some e, s)
      | Inr children \<Rightarrow>
          (case delete_list (\<lambda>child. conn_delete n z base (p @ [child])) children s of
             (Some e, s') \<Rightarrow> (Some e, s')
           | (None, s') \<Rightarrow>
               (case xlate_read (zk_Get z (base @ p) s') of
                  Inl e \<Rightarrow> (Some e, s')
                | Inr (_, v) \<Rightarrow> xlate (zk_Delete z (base @ p) v s'))))"

definition Delete :: "('n, 's) Connection \<Rightarrow> zpath \<Rightarrow> 's \<Rightarrow> client_error option \<times> 's" where
  "Delete c p s =
     (case c_conn c of
        None \<Rightarrow> (Some ErrConnectionClosed, s)
      | Some z \<Rightarrow> conn_delete (c_stack c) z (c_basePath c) p s)"

subsection \<open>Transactions\<close>

datatype 'n multiReq = MultiCreate zpath "'n data" | MultiSet zpath "'n data" int | MultiDelete zpath

fun multi_ops :: "('n, 's) Zk \<Rightarrow> zpath \<Rightarrow> 'n multiReq list \<Rightarrow> 's \<Rightarrow> client_error + 'n zk_op list" where
  "multi_ops z base [] s = Inr []"
| "multi_ops z base (MultiCreate p d # ops) s =
     map_sum id ((#) (ZCreate (base @ p) d)) (multi_ops z base ops s)"
| "multi_ops z base (MultiSet p d v # ops) s =
     map_sum id ((#) (ZSet (base @ p) d v)) (multi_ops z base ops s)"
| "multi_ops z base (MultiDelete p # ops) s =
     (case xlate_read (zk_Get z (base @ p) s) of
        Inl e \<Rightarrow> Inl e
      | Inr (_, v) \<Rightarrow> map_sum id ((#) (ZDelete (base @ p) v)) (multi_ops z base ops s))"

definition Commit :: "('n, 's) Connection \<Rightarrow> 'n multiReq list \<Rightarrow> 's \<Rightarrow> client_error option \<times> 's" where
  "Commit c ops s =
     (case c_conn c of
        None \<Rightarrow> (Some ErrConnectionClosed, s)
      | Some z \<Rightarrow>
          (case multi_ops z (c_basePath c) ops s of
             Inl e \<Rightarrow> (Some e, s)
           | Inr zops \<Rightarrow> xlate (zk_Multi z zops s)))"

subsection \<open>What a server promises\<close>

type_synonym 'n ztree = "zpath \<Rightarrow> ('n data \<times> int) option"

fun tree_op :: "'n zk_op \<Rightarrow> 'n ztree \<Rightarrow> 'n ztree option" where
  "tree_op (ZCreate p d) t =
     (if p \<noteq> [] \<and> t p = None \<and> t (butlast p) \<noteq> None then Some (t(p \<mapsto> (d, 0))) else None)"
| "tree_op (ZSet p d v) t =
     (case t p of
        None \<Rightarrow> None
      | Some (_, w) \<Rightarrow> if v = w then Some (t(p \<mapsto> (d, w + 1))) else None)"
| "tree_op (ZDelete p v) t =
     (case t p of
        None \<Rightarrow> None
      | Some (_, w) \<Rightarrow> if p \<noteq> [] \<and> v = w \<and> (\<forall>c. t (p @ [c]) = None) then Some (t(p := None)) else None)"

fun tree_ops :: "'n zk_op list \<Rightarrow> 'n ztree \<Rightarrow> 'n ztree option" where
  "tree_ops [] t = Some t"
| "tree_ops (op # ops) t = Option.bind (tree_op op t) (tree_ops ops)"

text \<open>
  A sequence of operations is performed as a whole: without an error it was applied, with
  an error it was applied (and only the answer got lost) or nothing happened.
\<close>

definition performs :: "'n ztree \<Rightarrow> 'n zk_op list \<Rightarrow> 'e option \<Rightarrow> 'n ztree \<Rightarrow> bool" where
  "performs t ops e t' \<longleftrightarrow> tree_ops ops t = Some t' \<or> (e \<noteq> None \<and> t' = t)"

lemma performs_None: "performs t ops None t' \<longleftrightarrow> tree_ops ops t = Some t'"
  by (simp add: performs_def)

lemma performs_cases:
  assumes "performs t ops e t'"
  obtains (applied) "tree_ops ops t = Some t'" | (unchanged) e' where "e = Some e'" "t' = t"
  using assms by (auto simp: performs_def)

locale zookeeper =
  fixes z :: "('n, 's) Zk" and tree :: "'s \<Rightarrow> 'n ztree"
  assumes Create: "zk_Create z p d s = (e, s') \<Longrightarrow> performs (tree s) [ZCreate p d] e (tree s')"
    and Create_exists: "zk_Create z p d s = (Some ZErrNodeExists, s') \<Longrightarrow> tree s p \<noteq> None \<and> tree s' = tree s"
    and Set: "zk_Set z p d v s = (e, s') \<Longrightarrow> performs (tree s) [ZSet p d v] e (tree s')"
    and Delete: "zk_Delete z p v s = (e, s') \<Longrightarrow> performs (tree s) [ZDelete p v] e (tree s')"
    and Delete_none: "zk_Delete z p v s = (Some ZErrNoNode, s') \<Longrightarrow> tree s p = None"
    and Multi: "zk_Multi z ops s = (e, s') \<Longrightarrow> performs (tree s) ops e (tree s')"
    and Exists: "zk_Exists z p s = Inr b \<Longrightarrow> b \<longleftrightarrow> tree s p \<noteq> None"
    and Exists_none: "zk_Exists z p s = Inl ZErrNoNode \<Longrightarrow> tree s p = None"
    and Get: "zk_Get z p s = Inr x \<Longrightarrow> tree s p = Some x"
    and Get_none: "zk_Get z p s = Inl ZErrNoNode \<Longrightarrow> tree s p = None"
    and Children: "zk_Children z p s = Inr cs \<Longrightarrow>
          distinct cs \<and> set cs = {c. tree s (p @ [c]) \<noteq> None} \<and> tree s p \<noteq> None"
    and Children_none: "zk_Children z p s = Inl ZErrNoNode \<Longrightarrow> tree s p = None"

text \<open>A server that gives no error but those that the state of the tree explains.\<close>

locale available_zookeeper = zookeeper z tree
  for z :: "('n, 's) Zk" and tree :: "'s \<Rightarrow> 'n ztree" +
  assumes Create_succeeds: "tree_ops [ZCreate p d] (tree s) \<noteq> None \<Longrightarrow> fst (zk_Create z p d s) = None"
    and Create_refused: "tree s p \<noteq> None \<Longrightarrow> fst (zk_Create z p d s) = Some ZErrNodeExists"
    and Set_succeeds: "tree_ops [ZSet p d v] (tree s) \<noteq> None \<Longrightarrow> fst (zk_Set z p d v s) = None"
    and Delete_succeeds: "tree_ops [ZDelete p v] (tree s) \<noteq> None \<Longrightarrow> fst (zk_Delete z p v s) = None"
    and Multi_succeeds: "tree_ops ops (tree s) \<noteq> None \<Longrightarrow> fst (zk_Multi z ops s) = None"
    and Exists_answers: "zk_Exists z p s = Inr (tree s p \<noteq> None)"
    and Get_answers: "zk_Get z p s = (case tree s p of None \<Rightarrow> Inl ZErrNoNode | Some x \<Rightarrow> Inr x)"
    and Children_answers: "tree s p \<noteq> None \<Longrightarrow> \<exists>cs. zk_Children z p s = Inr cs"
    and Children_refused: "tree s p = None \<Longrightarrow> zk_Children z p s = Inl ZErrNoNode"

subsection \<open>A server in memory\<close>

type_synonym 'n mem = "(zpath, 'n data \<times> int) gomap"

definition mem_children :: "zpath \<Rightarrow> 'n mem \<Rightarrow> string list" where
  "mem_children p m = remdups (map last (filter (\<lambda>q. q \<noteq> [] \<and> butlast q = p) (keys m)))"

fun mem_op :: "'n zk_op \<Rightarrow> 'n mem \<Rightarrow> zk_error + 'n mem" where
  "mem_op (ZCreate p d) m =
     (if map_of m p \<noteq> None then Inl ZErrNodeExists
      else if p = [] \<or> map_of m (butlast p) = None then Inl ZErrNoNode
      else Inr (gset p (d, 0) m))"
| "mem_op (ZSet p d v) m =
     (case map_of m p of
        None \<Rightarrow> Inl ZErrNoNode
      | Some (_, w) \<Rightarrow> if v = w then Inr (gset p (d, w + 1) m) else Inl ZErrBadVersion)"
| "mem_op (ZDelete p v) m =
     (case map_of m p of
        None \<Rightarrow> Inl ZErrNoNode
      | Some (_, w) \<Rightarrow>
          (if v \<noteq> w then Inl ZErrBadVersion
           else if p = [] \<or> mem_children p m \<noteq> [] then Inl ZErrNotEmpty
           else Inr (gdel p m)))"

fun mem_ops :: "'n zk_op list \<Rightarrow> 'n mem \<Rightarrow> zk_error + 'n mem" where
  "mem_ops [] m = Inr m"
| "mem_ops (op # ops) m = (case mem_op op m of Inl e \<Rightarrow> Inl e | Inr m' \<Rightarrow> mem_ops ops m')"

definition op_path :: "'n zk_op \<Rightarrow> zpath" where
  "op_path op = (case op of ZCreate p _ \<Rightarrow> p | ZSet p _ _ \<Rightarrow> p | ZDelete p _ \<Rightarrow> p)"

definition mem_write :: "(zpath \<Rightarrow> bool) \<Rightarrow> 'n zk_op list \<Rightarrow> 'n mem \<Rightarrow> zk_error option \<times> 'n mem" where
  "mem_write lost ops m =
     (if list_ex (lost \<circ> op_path) ops then (Some ZErrNoServer, m)
      else (case mem_ops ops m of Inl e \<Rightarrow> (Some e, m) | Inr m' \<Rightarrow> (None, m')))"

definition mem_read :: "(zpath \<Rightarrow> bool) \<Rightarrow> zpath \<Rightarrow> zk_error + 'a \<Rightarrow> zk_error + 'a" where
  "mem_read lost p r = (if lost p then Inl ZErrNoServer else r)"

text \<open>Operations on the paths in \<open>lost\<close> do not reach the server.\<close>

definition mem_zk :: "(zpath \<Rightarrow> bool) \<Rightarrow> ('n, 'n mem) Zk" where
  "mem_zk lost =
     \<lparr>zk_Create = \<lambda>p d. mem_write lost [ZCreate p d],
      zk_Set = \<lambda>p d v. mem_write lost [ZSet p d v],
      zk_Delete = \<lambda>p v. mem_write lost [ZDelete p v],
      zk_Exists = \<lambda>p m. mem_read lost p (Inr (map_of m p \<noteq> None)),
      zk_Get = \<lambda>p m. mem_read lost p (case map_of m p of None \<Rightarrow> Inl ZErrNoNode | Some x \<Rightarrow> Inr x),
      zk_Children = \<lambda>p m. mem_read lost p (if map_of m p = None then Inl ZErrNoNode else Inr (mem_children p m)),
      zk_Multi = mem_write lost\<rparr>"

lemma set_mem_children: "set (mem_children p m) = {c. map_of m (p @ [c]) \<noteq> None}"
proof -
  have split: "q \<noteq> [] \<and> butlast q = p \<and> last q = c \<longleftrightarrow> q = p @ [c]" for q :: zpath and c
    by (metis append_butlast_last_id butlast_snoc last_snoc snoc_eq_iff_butlast)
  have "c \<in> set (mem_children p m) \<longleftrightarrow> (\<exists>q \<in> set (keys m). q \<noteq> [] \<and> butlast q = p \<and> last q = c)" for c
    unfolding mem_children_def by auto
  then have "c \<in> set (mem_children p m) \<longleftrightarrow> p @ [c] \<in> set (keys m)" for c
    unfolding split by simp
  then show ?thesis by (auto simp: map_of_eq_None_keys)
qed

lemma distinct_mem_children: "distinct (mem_children p m)"
  by (simp add: mem_children_def)

lemma mem_children_Nil:
  "mem_children p m = [] \<longleftrightarrow> (\<forall>c. map_of m (p @ [c]) = None)"
  using set_mem_children [of p m] by (metis (mono_tags, lifting) empty_Collect_eq set_empty)

lemma mem_op_tree:
  "tree_op op (map_of m) = (case mem_op op m of Inl _ \<Rightarrow> None | Inr m' \<Rightarrow> Some (map_of m'))"
  by (cases op) (auto simp: mem_children_Nil split: option.splits)

lemma mem_ops_tree:
  "tree_ops ops (map_of m) = (case mem_ops ops m of Inl _ \<Rightarrow> None | Inr m' \<Rightarrow> Some (map_of m'))"
  by (induction ops arbitrary: m) (auto simp: mem_op_tree split: sum.splits)

lemma mem_write_performs:
  "mem_write lost ops m = (e, m') \<Longrightarrow> performs (map_of m) ops e (map_of m')"
  by (auto simp: mem_write_def performs_def mem_ops_tree split: if_splits sum.splits)

lemma mem_write_succeeds:
  "tree_ops ops (map_of m) \<noteq> None \<Longrightarrow> fst (mem_write (\<lambda>_. False) ops m) = None"
  by (auto simp: mem_write_def mem_ops_tree list_ex_iff split: sum.splits)

lemmas mem_zk_simps = mem_zk_def mem_read_def

interpretation memory: zookeeper "mem_zk lost" map_of
proof (unfold_locales, goal_cases)
  case (2 p d s s')
  then show ?case
    by (auto simp: mem_zk_simps mem_write_def list_ex_iff op_path_def split: if_splits sum.splits)
next
  case (5 p v s s')
  then show ?case
    by (auto simp: mem_zk_simps mem_write_def list_ex_iff op_path_def split: if_splits sum.splits option.splits)
next
  case (11 p s cs)
  then have "cs = mem_children p s" "map_of s p \<noteq> None" by (auto simp: mem_zk_simps split: if_splits)
  then show ?case by (simp add: set_mem_children distinct_mem_children)
qed (auto simp: mem_zk_simps dest: mem_write_performs split: if_splits option.splits)

interpretation reliable: available_zookeeper "mem_zk (\<lambda>_. False)" map_of
proof (unfold_locales, goal_cases)
  case (2 s p d)
  then show ?case
    by (auto simp: mem_zk_simps mem_write_def list_ex_iff op_path_def split: sum.splits)
qed (auto simp: mem_zk_simps mem_write_succeeds list_ex_iff)

subsection \<open>What connections do to the tree\<close>

text \<open>The part of the tree that a connection sees: all paths are below its base path.\<close>

definition view :: "zpath \<Rightarrow> 'n ztree \<Rightarrow> 'n ztree" where
  "view base t p = t (base @ p)"

lemma xlate_eq: "xlate r = (e, s') \<longleftrightarrow> e = map_option xlateError (fst r) \<and> s' = snd r"
  by (cases r) (auto simp: xlate_def)

lemma xlate_read_Inr [simp]: "xlate_read r = Inr x \<longleftrightarrow> r = Inr x"
  by (cases r) (auto simp: xlate_read_def)

lemma xlate_read_Inl: "xlate_read r = Inl e \<longleftrightarrow> (\<exists>e'. r = Inl e' \<and> e = xlateError e')"
  by (cases r) (auto simp: xlate_read_def)

lemma xlate_iff [simp]:
  "xlateError e = ErrNoNode \<longleftrightarrow> e = ZErrNoNode" "xlateError e = ErrNodeExists \<longleftrightarrow> e = ZErrNodeExists"
  "ErrNoNode = xlateError e \<longleftrightarrow> e = ZErrNoNode" "ErrNodeExists = xlateError e \<longleftrightarrow> e = ZErrNodeExists"
  "xlateError e \<noteq> ErrEmptyNode" "xlateError e \<noteq> StackOverflow" "xlateError e \<noteq> ErrSerialization"
  "ErrEmptyNode \<noteq> xlateError e" "StackOverflow \<noteq> xlateError e" "ErrSerialization \<noteq> xlateError e"
  by (cases e; simp)+

lemma performs_map: "performs t ops (map_option f e) t' \<longleftrightarrow> performs t ops e t'"
  by (simp add: performs_def)

fun op_at :: "zpath \<Rightarrow> 'n zk_op \<Rightarrow> 'n zk_op" where
  "op_at base (ZCreate p d) = ZCreate (base @ p) d"
| "op_at base (ZSet p d v) = ZSet (base @ p) d v"
| "op_at base (ZDelete p v) = ZDelete (base @ p) v"

lemma view_upd: "view base (t(base @ p := x)) = (view base t)(p := x)"
  by (auto simp: view_def)

lemma op_at_view:
  "op_path op \<noteq> [] \<Longrightarrow>
     map_option (view base) (tree_op (op_at base op) t) = tree_op op (view base t)"
proof (cases op)
  case (ZCreate p d)
  assume "op_path op \<noteq> []"
  then show ?thesis
    using ZCreate by (simp add: op_path_def view_upd) (simp add: view_def butlast_append)
next
  case (ZSet p d v)
  then show ?thesis
    by (simp add: view_upd split: option.split) (simp add: view_def)
next
  case (ZDelete p v)
  assume "op_path op \<noteq> []"
  then show ?thesis
    using ZDelete by (auto simp: op_path_def view_upd split: option.split) (simp_all add: view_def)
qed

lemma ops_at_view:
  "\<forall>op \<in> set ops. op_path op \<noteq> [] \<Longrightarrow>
     map_option (view base) (tree_ops (map (op_at base) ops) t) = tree_ops ops (view base t)"
proof (induction ops arbitrary: t)
  case (Cons op ops)
  have "map_option (view base) (tree_op (op_at base op) t) = tree_op op (view base t)"
    using Cons.prems by (intro op_at_view) simp
  then show ?case
    using Cons by (cases "tree_op (op_at base op) t") (auto simp flip: \<open>_ = tree_op op (view base t)\<close>)
qed simp

lemma performs_view:
  assumes "performs t (map (op_at base) ops) e t'" and "\<forall>op \<in> set ops. op_path op \<noteq> []"
  shows "performs (view base t) ops e (view base t')"
  using assms(1) ops_at_view [OF assms(2), of base t] by (auto simp: performs_def)

text \<open>What a transaction asks for: a deletion names the version that the node has.\<close>

fun resolve :: "'n ztree \<Rightarrow> 'n multiReq list \<Rightarrow> 'n zk_op list option" where
  "resolve t [] = Some []"
| "resolve t (MultiCreate p d # ops) = map_option ((#) (ZCreate p d)) (resolve t ops)"
| "resolve t (MultiSet p d v # ops) = map_option ((#) (ZSet p d v)) (resolve t ops)"
| "resolve t (MultiDelete p # ops) =
     (case t p of None \<Rightarrow> None | Some (_, v) \<Rightarrow> map_option ((#) (ZDelete p v)) (resolve t ops))"

definition commit_tree :: "'n multiReq list \<Rightarrow> 'n ztree \<Rightarrow> 'n ztree option" where
  "commit_tree ops t = Option.bind (resolve t ops) (\<lambda>zops. tree_ops zops t)"

definition req_path :: "'n multiReq \<Rightarrow> zpath" where
  "req_path r = (case r of MultiCreate p _ \<Rightarrow> p | MultiSet p _ _ \<Rightarrow> p | MultiDelete p \<Rightarrow> p)"

lemma resolve_paths: "resolve t ops = Some zops \<Longrightarrow> map op_path zops = map req_path ops"
  by (induction t ops arbitrary: zops rule: resolve.induct)
    (auto simp: op_path_def req_path_def split: option.splits)

definition closed :: "'n ztree \<Rightarrow> bool" where
  "closed t \<longleftrightarrow> (\<forall>p c. t p = None \<longrightarrow> t (p @ [c]) = None)"

lemma closed_tree_op: "closed t \<Longrightarrow> tree_op op t = Some t' \<Longrightarrow> closed t'"
  by (cases op) (auto simp: closed_def split: if_splits option.splits)

lemma closed_tree_ops: "closed t \<Longrightarrow> tree_ops ops t = Some t' \<Longrightarrow> closed t'"
  by (induction ops arbitrary: t) (auto dest: closed_tree_op simp: bind_eq_Some_conv)

lemma closed_performs: "closed t \<Longrightarrow> performs t ops e t' \<Longrightarrow> closed t'"
  by (auto simp: performs_def dest: closed_tree_ops)

text \<open>An open connection.\<close>

locale connection = zookeeper z tree
  for z :: "('n, 's) Zk" and tree :: "'s \<Rightarrow> 'n ztree" +
  fixes c :: "('n, 's) Connection"
  assumes connected: "c_conn c = Some z"
begin

abbreviation seen :: "'s \<Rightarrow> 'n ztree" where
  "seen s \<equiv> view (c_basePath c) (tree s)"

lemma CreateIfExists_performs:
  assumes "CreateIfExists c p d s = (e, s')" and "p \<noteq> []"
  shows "performs (seen s) [ZCreate p d] e (seen s')"
proof -
  obtain e' where "zk_Create z (c_basePath c @ p) d s = (e', s')" "e = map_option xlateError e'"
    using assms(1) by (auto simp: CreateIfExists_def connected conn_create_def xlate_eq intro: prod.collapse [symmetric])
  then show ?thesis
    using performs_view [of "tree s" "c_basePath c" "[ZCreate p d]" e' "tree s'"] Create assms(2)
    by (simp add: performs_map op_path_def)
qed

lemma CreateIfExists_exists:
  "CreateIfExists c p d s = (Some ErrNodeExists, s') \<Longrightarrow> seen s p \<noteq> None \<and> seen s' = seen s"
  using Create_exists [of "c_basePath c @ p" d s s']
  by (cases "zk_Create z (c_basePath c @ p) d s")
    (auto simp: CreateIfExists_def connected conn_create_def xlate_def view_def)

lemma Set_performs:
  assumes "Coordinator.Set c p d v s = (e, s')" and "p \<noteq> []"
  shows "performs (seen s) [ZSet p d v] e (seen s')"
proof -
  obtain e' where "zk_Set z (c_basePath c @ p) d v s = (e', s')" "e = map_option xlateError e'"
    using assms(1) by (auto simp: Coordinator.Set_def connected xlate_eq intro: prod.collapse [symmetric])
  then show ?thesis
    using performs_view [of "tree s" "c_basePath c" "[ZSet p d v]" e' "tree s'"] Set assms(2)
    by (simp add: performs_map op_path_def)
qed

lemma conn_exists_seen: "conn_exists z (c_basePath c) p s = Inr b \<Longrightarrow> b \<longleftrightarrow> seen s p \<noteq> None"
  using Exists [of "c_basePath c @ p" s] Exists_none [of "c_basePath c @ p" s]
  by (auto simp: conn_exists_def view_def split: sum.splits if_splits)

lemma Exists_seen: "Coordinator.Exists c p s = Inr b \<Longrightarrow> b \<longleftrightarrow> seen s p \<noteq> None"
  unfolding Coordinator.Exists_def connected option.case by (rule conn_exists_seen)

lemma Get_seen:
  "Coordinator.Get c p s = (None, d, v) \<Longrightarrow> seen s p = Some (d, v) \<and> d \<noteq> EmptyData \<and> d \<noteq> Garbled"
  using Get [of "c_basePath c @ p" s]
  by (auto simp: Coordinator.Get_def connected view_def split: sum.splits data.splits)

lemma Get_empty: "Coordinator.Get c p s = (Some ErrEmptyNode, d, v) \<Longrightarrow> seen s p = Some (EmptyData, v)"
  using Get [of "c_basePath c @ p" s]
  by (auto simp: Coordinator.Get_def connected view_def xlate_read_Inl split: sum.splits data.splits)

lemma Get_missing: "Coordinator.Get c p s = (Some ErrNoNode, d, v) \<Longrightarrow> seen s p = None"
  using Get_none [of "c_basePath c @ p" s]
  by (auto simp: Coordinator.Get_def connected view_def xlate_read_Inl split: sum.splits data.splits)

lemma Children_seen:
  "Coordinator.Children c p s = Inr cs \<Longrightarrow>
     distinct cs \<and> set cs = {x. seen s (p @ [x]) \<noteq> None} \<and> seen s p \<noteq> None"
  using Children [of "c_basePath c @ p" s cs]
  by (simp add: Coordinator.Children_def connected conn_children_def view_def)

lemma Children_missing: "Coordinator.Children c p s = Inl ErrNoNode \<Longrightarrow> seen s p = None"
  using Children_none [of "c_basePath c @ p" s]
  by (auto simp: Coordinator.Children_def connected conn_children_def view_def xlate_read_Inl)

lemma multi_ops_resolve:
  "multi_ops z (c_basePath c) ops s = Inr zops \<Longrightarrow>
     \<exists>ops'. resolve (seen s) ops = Some ops' \<and> zops = map (op_at (c_basePath c)) ops'"
proof (induction ops arbitrary: zops)
  case (Cons r ops)
  show ?case
  proof (cases r)
    case (MultiDelete p)
    then obtain d v zops' where get: "zk_Get z (c_basePath c @ p) s = Inr (d, v)"
        "multi_ops z (c_basePath c) ops s = Inr zops'" "zops = ZDelete (c_basePath c @ p) v # zops'"
      using Cons.prems by (auto split: sum.splits) (auto simp: map_sum_def split: sum.splits)
    moreover have "seen s p = Some (d, v)" using Get [OF get(1)] by (simp add: view_def)
    ultimately show ?thesis using Cons.IH [OF get(2)] MultiDelete by auto
  qed (use Cons in \<open>auto simp: map_sum_def split: sum.splits\<close>)
qed simp

lemma Commit_tree:
  assumes "Commit c ops s = (e, s')" and "\<forall>r \<in> set ops. req_path r \<noteq> []"
  shows "commit_tree ops (seen s) = Some (seen s') \<or> (e \<noteq> None \<and> seen s' = seen s)"
proof (cases "multi_ops z (c_basePath c) ops s")
  case (Inr zops)
  then obtain ops' where ops': "resolve (seen s) ops = Some ops'" "zops = map (op_at (c_basePath c)) ops'"
    using multi_ops_resolve by blast
  have "op_path ` set ops' = req_path ` set ops"
    using resolve_paths [OF ops'(1)] by (metis image_set)
  then have paths: "\<forall>op \<in> set ops'. op_path op \<noteq> []" using assms(2) by (metis image_iff)
  obtain e' where "zk_Multi z zops s = (e', s')" "e = map_option xlateError e'"
    using assms(1) Inr by (auto simp: Commit_def connected xlate_eq intro: prod.collapse [symmetric])
  then have "performs (seen s) ops' e (seen s')"
    using performs_view [of "tree s" "c_basePath c" ops' e' "tree s'"] Multi paths ops'(2)
    by (simp add: performs_map)
  then show ?thesis using ops'(1) by (auto simp: performs_def commit_tree_def)
qed (use assms(1) in \<open>auto simp: Commit_def connected\<close>)

end

subsection \<open>Recursive deletion\<close>

text \<open>A tree from which nodes at and below a path have disappeared.\<close>

definition shrinks :: "zpath \<Rightarrow> 'n ztree \<Rightarrow> 'n ztree \<Rightarrow> bool" where
  "shrinks p t t' \<longleftrightarrow> (\<forall>q. t' q = t q \<or> (prefix p q \<and> t' q = None))"

lemma shrinks_refl [simp]: "shrinks p t t"
  by (simp add: shrinks_def)

lemma shrinks_trans: "shrinks p t t' \<Longrightarrow> shrinks p t' t'' \<Longrightarrow> shrinks p t t''"
  unfolding shrinks_def by metis

lemma shrinks_child: "shrinks (p @ [x]) t t' \<Longrightarrow> shrinks p t t'"
  unfolding shrinks_def by (meson append_prefixD)

lemma shrinks_None: "shrinks p t t' \<Longrightarrow> t q = None \<Longrightarrow> t' q = None"
  unfolding shrinks_def by metis

lemma closed_below: "closed t \<Longrightarrow> t p = None \<Longrightarrow> t (p @ r) = None"
proof (induction r rule: rev_induct)
  case (snoc x r)
  then show ?case by (simp add: closed_def flip: append_assoc)
qed simp

definition removed :: "zpath \<Rightarrow> 'n ztree \<Rightarrow> 'n ztree" where
  "removed p t q = (if prefix p q then None else t q)"

lemma shrinks_removed: "shrinks p t t' \<Longrightarrow> \<forall>r. t' (p @ r) = None \<Longrightarrow> t' = removed p t"
  by (auto simp: shrinks_def removed_def fun_eq_iff prefix_def)

lemma shrinks_sibling: "shrinks (p @ [x]) t t' \<Longrightarrow> x \<noteq> y \<Longrightarrow> t' (p @ y # r) = t (p @ y # r)"
  unfolding shrinks_def by (metis same_prefix_prefix Cons_prefix_Cons append.assoc append_Cons)

lemma shrinks_parent: "shrinks (p @ [x]) t t' \<Longrightarrow> t' p = t p"
  unfolding shrinks_def by (metis append_self_conv not_Cons_self2 prefix_order.antisym_conv prefixI)

context connection
begin

abbreviation deletes :: "zpath \<Rightarrow> client_error option \<Rightarrow> 's \<Rightarrow> 's \<Rightarrow> bool" where
  "deletes p e s s' \<equiv> shrinks p (seen s) (seen s') \<and> (closed (seen s) \<longrightarrow> closed (seen s'))
     \<and> (e = None \<and> closed (seen s) \<longrightarrow> (\<forall>r. seen s' (p @ r) = None))"

lemma delete_node:
  assumes "xlate (zk_Delete z (c_basePath c @ p) v s) = (e, s')" and "p \<noteq> []"
  shows "shrinks p (seen s) (seen s') \<and> (closed (seen s) \<longrightarrow> closed (seen s')) \<and> (e = None \<longrightarrow> seen s' p = None)"
proof -
  obtain e' where del: "zk_Delete z (c_basePath c @ p) v s = (e', s')" "e = map_option xlateError e'"
    using assms(1) by (cases "zk_Delete z (c_basePath c @ p) v s") (auto simp: xlate_def)
  have perf: "performs (seen s) [ZDelete p v] e (seen s')"
    using performs_view [of "tree s" "c_basePath c" "[ZDelete p v]" e' "tree s'"] Delete [OF del(1)] assms(2) del(2)
    by (simp add: performs_map op_path_def)
  then have "seen s' = (seen s)(p := None) \<or> (e \<noteq> None \<and> seen s' = seen s)"
    by (auto simp: performs_def bind_eq_Some_conv split: option.splits if_splits)
  with perf show ?thesis by (auto simp: shrinks_def dest: closed_performs split: if_splits)
qed

lemma delete_list_deletes:
  assumes "\<And>x s e s'. x \<in> set xs \<Longrightarrow> del x s = (e, s') \<Longrightarrow> deletes (p @ [x]) e s s'"
    and "delete_list del xs s = (e, s')"
  shows "shrinks p (seen s) (seen s') \<and> (closed (seen s) \<longrightarrow> closed (seen s'))
    \<and> (e = None \<and> closed (seen s) \<longrightarrow> (\<forall>x \<in> set xs. \<forall>r. seen s' (p @ x # r) = None))"
  using assms
proof (induction xs arbitrary: s)
  case (Cons x xs)
  obtain e1 s1 where first: "del x s = (e1, s1)" by (cases "del x s")
  note d1 = Cons.prems(1) [OF _ first, simplified]
  show ?case
  proof (cases e1)
    case None
    then have rest: "delete_list del xs s1 = (e, s')" using Cons.prems(2) first by simp
    have d2: "shrinks p (seen s1) (seen s') \<and> (closed (seen s1) \<longrightarrow> closed (seen s'))
      \<and> (e = None \<and> closed (seen s1) \<longrightarrow> (\<forall>x \<in> set xs. \<forall>r. seen s' (p @ x # r) = None))"
      using Cons.IH [OF _ rest] Cons.prems(1) by auto
    then show ?thesis
      using d1 None by (auto dest: shrinks_child shrinks_None intro: shrinks_trans)
  next
    case (Some _)
    then show ?thesis using Cons.prems(2) first d1 by (auto dest: shrinks_child)
  qed
qed simp

lemma conn_delete_deletes:
  "conn_delete n z (c_basePath c) p s = (e, s') \<Longrightarrow> p \<noteq> [] \<Longrightarrow> deletes p e s s'"
proof (induction n arbitrary: p s e s')
  case (Suc n)
  show ?case
  proof (cases "conn_children z (c_basePath c) p s")
    case (Inr xs)
    have xs: "set xs = {x. seen s (p @ [x]) \<noteq> None}"
      using Children [of "c_basePath c @ p" s xs] Inr by (simp add: conn_children_def view_def)
    obtain e1 s1 where list: "delete_list (\<lambda>x. conn_delete n z (c_basePath c) (p @ [x])) xs s = (e1, s1)"
      by (cases "delete_list (\<lambda>x. conn_delete n z (c_basePath c) (p @ [x])) xs s")
    have below: "shrinks p (seen s) (seen s1) \<and> (closed (seen s) \<longrightarrow> closed (seen s1))
        \<and> (e1 = None \<and> closed (seen s) \<longrightarrow> (\<forall>x \<in> set xs. \<forall>r. seen s1 (p @ x # r) = None))"
      by (rule delete_list_deletes [OF _ list]) (rule Suc.IH, auto)
    show ?thesis
    proof (cases e1)
      case None
      have gone: "seen s1 (p @ x # r) = None" if "closed (seen s)" for x r
      proof (cases "x \<in> set xs")
        case False
        then have "seen s (p @ [x]) = None" using xs by blast
        then have "seen s ((p @ [x]) @ r) = None" by (rule closed_below [OF that])
        then show ?thesis using shrinks_None [OF conjunct1 [OF below], of "p @ x # r"] by simp
      qed (use below None that in auto)
      show ?thesis
      proof (cases "xlate_read (zk_Get z (c_basePath c @ p) s1)")
        case (Inl a)
        then show ?thesis using Suc.prems Inr list None below by auto
      next
        case (Inr x)
        obtain d v where "x = (d, v)" by (cases x)
        then have "xlate (zk_Delete z (c_basePath c @ p) v s1) = (e, s')"
          using Suc.prems(1) list None Inr \<open>conn_children _ _ _ _ = Inr xs\<close> by simp
        note node = delete_node [OF this Suc.prems(2)]
        have "seen s' (p @ r) = None" if "closed (seen s)" "e = None" for r
          using node gone [OF that(1)] that(2) by (cases r) (auto dest: shrinks_None)
        then show ?thesis using node below by (auto intro: shrinks_trans)
      qed
    next
      case (Some _)
      then show ?thesis using Suc.prems Inr list below by auto
    qed
  qed (use Suc.prems in auto)
qed auto

text \<open>A node that is there is not reported missing.\<close>

lemma delete_list_found:
  assumes "\<And>x s e s'. x \<in> set xs \<Longrightarrow> del x s = (e, s') \<Longrightarrow> deletes (p @ [x]) e s s'"
    and "\<And>x s e s'. x \<in> set xs \<Longrightarrow> del x s = (e, s') \<Longrightarrow> seen s (p @ [x]) \<noteq> None \<Longrightarrow> e \<noteq> Some ErrNoNode"
    and "distinct xs" and "\<forall>x \<in> set xs. seen s (p @ [x]) \<noteq> None" and "delete_list del xs s = (e, s')"
  shows "e \<noteq> Some ErrNoNode \<and> seen s' p = seen s p"
  using assms
proof (induction xs arbitrary: s)
  case (Cons x xs)
  obtain e1 s1 where first: "del x s = (e1, s1)" by (cases "del x s")
  have d: "deletes (p @ [x]) e1 s s1" and found: "e1 \<noteq> Some ErrNoNode"
    using Cons.prems(1) [OF _ first] Cons.prems(2) [OF _ first] Cons.prems(4) by simp_all
  have parent: "seen s1 p = seen s p" using d shrinks_parent by blast
  show ?case
  proof (cases e1)
    case None
    have "\<forall>y \<in> set xs. seen s1 (p @ [y]) \<noteq> None"
      using shrinks_sibling [OF conjunct1 [OF d]] Cons.prems(3,4) by fastforce
    moreover have "delete_list del xs s1 = (e, s')" using Cons.prems(5) first None by simp
    ultimately have "e \<noteq> Some ErrNoNode \<and> seen s' p = seen s1 p"
    proof (intro Cons.IH)
      show "deletes (p @ [y]) e s s'" if "y \<in> set xs" "del y s = (e, s')" for y s e s'
        using Cons.prems(1) [of y s e s'] that by simp
      show "e \<noteq> Some ErrNoNode" if "y \<in> set xs" "del y s = (e, s')" "seen s (p @ [y]) \<noteq> None" for y s e s'
        using Cons.prems(2) [of y s e s'] that by simp
    qed (use Cons.prems(3) in auto)
    then show ?thesis using parent by simp
  next
    case (Some a)
    then show ?thesis using Cons.prems(5) first found parent by auto
  qed
qed simp

lemma conn_delete_found:
  "conn_delete n z (c_basePath c) p s = (e, s') \<Longrightarrow> p \<noteq> [] \<Longrightarrow> seen s p \<noteq> None \<Longrightarrow> e \<noteq> Some ErrNoNode"
proof (induction n arbitrary: p s e s')
  case (Suc n)
  show ?case
  proof (cases "conn_children z (c_basePath c) p s")
    case (Inl a)
    then have "e = Some a" using Suc.prems(1) by simp
    moreover have "a \<noteq> ErrNoNode"
      using Inl Suc.prems(3) Children_none [of "c_basePath c @ p" s]
      by (auto simp: conn_children_def xlate_read_Inl view_def)
    ultimately show ?thesis by simp
  next
    case (Inr xs)
    then have xs: "distinct xs \<and> set xs = {x. seen s (p @ [x]) \<noteq> None}"
      using Children [of "c_basePath c @ p" s xs] by (simp add: conn_children_def view_def)
    obtain e1 s1 where list: "delete_list (\<lambda>x. conn_delete n z (c_basePath c) (p @ [x])) xs s = (e1, s1)"
      by (cases "delete_list (\<lambda>x. conn_delete n z (c_basePath c) (p @ [x])) xs s")
    have found: "e1 \<noteq> Some ErrNoNode \<and> seen s1 p = seen s p"
    proof (rule delete_list_found [OF _ _ _ _ list])
      show "deletes (p @ [x]) e s s'" if "conn_delete n z (c_basePath c) (p @ [x]) s = (e, s')" for x s e s'
        by (rule conn_delete_deletes [OF that]) simp
      show "e \<noteq> Some ErrNoNode"
        if "conn_delete n z (c_basePath c) (p @ [x]) s = (e, s')" "seen s (p @ [x]) \<noteq> None" for x s e s'
        using Suc.IH [OF that(1)] that(2) by simp
    qed (use xs in auto)
    show ?thesis
    proof (cases e1)
      case None
      have there: "tree s1 (c_basePath c @ p) \<noteq> None" using found Suc.prems(3) by (simp add: view_def)
      show ?thesis
      proof (cases "zk_Get z (c_basePath c @ p) s1")
        case (Inl a)
        then have "a \<noteq> ZErrNoNode" using Get_none [of "c_basePath c @ p" s1] there by auto
        then show ?thesis using Suc.prems(1) \<open>conn_children _ _ _ _ = Inr xs\<close> list None Inl by (auto simp: xlate_read_def)
      next
        case (Inr x)
        obtain d v where "x = (d, v)" by (cases x)
        then have "xlate (zk_Delete z (c_basePath c @ p) v s1) = (e, s')"
          using Suc.prems(1) list None Inr \<open>conn_children _ _ _ _ = Inr xs\<close> by (simp add: xlate_read_def)
        then show ?thesis
          using Delete_none [of "c_basePath c @ p" v s1] there
          by (cases "zk_Delete z (c_basePath c @ p) v s1") (auto simp: xlate_def)
      qed
    next
      case (Some a)
      then show ?thesis using Suc.prems Inr list found by auto
    qed
  qed
qed auto

lemma Delete_gone:
  assumes "Coordinator.Delete c p s = (e, s')" and "p \<noteq> []" and "closed (seen s)" and "e = None \<or> e = Some ErrNoNode"
  shows "seen s' p = None"
proof -
  have del: "conn_delete (c_stack c) z (c_basePath c) p s = (e, s')"
    using assms(1) by (simp add: Coordinator.Delete_def connected)
  note d = conn_delete_deletes [OF del assms(2)]
  have "e = None \<Longrightarrow> seen s' (p @ []) = None" using d assms(3) by blast
  moreover have "e = Some ErrNoNode \<Longrightarrow> seen s p = None" using conn_delete_found [OF del assms(2)] by blast
  ultimately show ?thesis
    using assms(4) shrinks_None [OF conjunct1 [OF d], of p] by auto
qed

lemma Delete_deletes: "Coordinator.Delete c p s = (e, s') \<Longrightarrow> p \<noteq> [] \<Longrightarrow> deletes p e s s'"
  unfolding Coordinator.Delete_def connected option.case by (rule conn_delete_deletes)

end

text \<open>On an available server deletion succeeds if the stack is deep enough for the subtree.\<close>

locale available_connection = available_zookeeper z tree + connection z tree c
  for z :: "('n, 's) Zk" and tree :: "'s \<Rightarrow> 'n ztree" and c :: "('n, 's) Connection"
begin

lemma tree_ops_base:
  "tree_ops ops (seen s) \<noteq> None \<Longrightarrow> \<forall>op \<in> set ops. op_path op \<noteq> [] \<Longrightarrow>
     tree_ops (map (op_at (c_basePath c)) ops) (tree s) \<noteq> None"
  using ops_at_view [of ops "c_basePath c" "tree s"] by auto

lemma delete_node_succeeds:
  assumes "seen s p \<noteq> None" and "\<forall>x. seen s (p @ [x]) = None" and "p \<noteq> []"
  shows "\<exists>d v s'. xlate_read (zk_Get z (c_basePath c @ p) s) = Inr (d, v)
    \<and> xlate (zk_Delete z (c_basePath c @ p) v s) = (None, s')"
proof -
  obtain d v where node: "seen s p = Some (d, v)" using assms(1) by auto
  then have "tree_ops [ZDelete p v] (seen s) \<noteq> None" using assms(2,3) by simp
  then have "fst (zk_Delete z (c_basePath c @ p) v s) = None"
    using tree_ops_base [of "[ZDelete p v]" s] Delete_succeeds assms(3) by (simp add: op_path_def)
  then show ?thesis
    using node Get_answers [of "c_basePath c @ p" s] by (auto simp: view_def xlate_def)
qed

lemma delete_list_succeeds:
  assumes "\<And>x s. x \<in> set xs \<Longrightarrow> closed (seen s) \<Longrightarrow> seen s (p @ [x]) \<noteq> None \<Longrightarrow>
      (\<forall>r. seen s (p @ x # r) \<noteq> None \<longrightarrow> length r < n) \<Longrightarrow> \<exists>s'. del x s = (None, s')"
    and "\<And>x s e s'. x \<in> set xs \<Longrightarrow> del x s = (e, s') \<Longrightarrow> deletes (p @ [x]) e s s'"
    and "distinct xs" and "closed (seen s)" and "\<forall>x \<in> set xs. seen s (p @ [x]) \<noteq> None"
    and "\<forall>x r. seen s (p @ x # r) \<noteq> None \<longrightarrow> length r < n"
  shows "\<exists>s'. delete_list del xs s = (None, s') \<and> seen s' p = seen s p"
  using assms
proof (induction xs arbitrary: s)
  case (Cons x xs)
  obtain s1 where first: "del x s = (None, s1)"
    using Cons.prems(1) [of x s] Cons.prems(4-6) by auto
  have d: "deletes (p @ [x]) None s s1" using Cons.prems(2) [OF _ first] by simp
  then have kept: "seen s1 (p @ y # r) = seen s (p @ y # r)" if "y \<in> set xs" for y r
    using shrinks_sibling Cons.prems(3) that by fastforce
  have bound: "\<forall>y r. seen s1 (p @ y # r) \<noteq> None \<longrightarrow> length r < n"
    using Cons.prems(6) d by (metis shrinks_None)
  have "\<exists>s'. delete_list del xs s1 = (None, s') \<and> seen s' p = seen s1 p"
  proof (rule Cons.IH)
    show "\<exists>s'. del y s = (None, s')"
      if "y \<in> set xs" "closed (seen s)" "seen s (p @ [y]) \<noteq> None" "\<forall>r. seen s (p @ y # r) \<noteq> None \<longrightarrow> length r < n" for y s
      using Cons.prems(1) [of y s] that by simp
    show "deletes (p @ [y]) e s s'" if "y \<in> set xs" "del y s = (e, s')" for y s e s'
      using Cons.prems(2) [of y s e s'] that by simp
    show "distinct xs" using Cons.prems(3) by simp
    show "closed (seen s1)" using d Cons.prems(4) by blast
    show "\<forall>y \<in> set xs. seen s1 (p @ [y]) \<noteq> None" using kept Cons.prems(5) by simp
    show "\<forall>y r. seen s1 (p @ y # r) \<noteq> None \<longrightarrow> length r < n" by (rule bound)
  qed
  moreover have "seen s1 p = seen s p" using d shrinks_parent by blast
  ultimately show ?case using first by auto
qed simp

lemma conn_delete_succeeds:
  "closed (seen s) \<Longrightarrow> seen s p \<noteq> None \<Longrightarrow> p \<noteq> [] \<Longrightarrow> \<forall>r. seen s (p @ r) \<noteq> None \<longrightarrow> length r < n \<Longrightarrow>
     \<exists>s'. conn_delete n z (c_basePath c) p s = (None, s')"
proof (induction n arbitrary: p s)
  case 0
  then show ?case using \<open>seen s p \<noteq> None\<close> by (metis append_Nil2 less_nat_zero_code)
next
  case (Suc n)
  obtain xs where xs: "conn_children z (c_basePath c) p s = Inr xs"
    using Children_answers [of s "c_basePath c @ p"] Suc.prems(2) by (auto simp: conn_children_def view_def)
  then have set_xs: "distinct xs \<and> set xs = {x. seen s (p @ [x]) \<noteq> None}"
    using Children [of "c_basePath c @ p" s xs] by (simp add: conn_children_def view_def)
  have bound: "\<forall>x r. seen s (p @ x # r) \<noteq> None \<longrightarrow> length r < n" using Suc.prems(4) by fastforce
  have "\<exists>s1. delete_list (\<lambda>x. conn_delete n z (c_basePath c) (p @ [x])) xs s = (None, s1) \<and> seen s1 p = seen s p"
  proof (rule delete_list_succeeds)
    show "\<exists>s'. conn_delete n z (c_basePath c) (p @ [x]) s = (None, s')"
      if "closed (seen s)" "seen s (p @ [x]) \<noteq> None" "\<forall>r. seen s (p @ x # r) \<noteq> None \<longrightarrow> length r < n" for x s
      using Suc.IH [of s "p @ [x]"] that by simp
    show "deletes (p @ [x]) e s s'" if "conn_delete n z (c_basePath c) (p @ [x]) s = (e, s')" for x s e s'
      by (rule conn_delete_deletes [OF that]) simp
  qed (use set_xs bound Suc.prems(1) in auto)
  then obtain s1 where list: "delete_list (\<lambda>x. conn_delete n z (c_basePath c) (p @ [x])) xs s = (None, s1)" "seen s1 p = seen s p"
    by blast
  have below: "shrinks p (seen s) (seen s1) \<and> (closed (seen s) \<longrightarrow> closed (seen s1))
      \<and> ((None :: client_error option) = None \<and> closed (seen s) \<longrightarrow> (\<forall>x \<in> set xs. \<forall>r. seen s1 (p @ x # r) = None))"
    by (rule delete_list_deletes [OF _ list(1)]) (rule conn_delete_deletes, auto)
  have "\<forall>x. seen s1 (p @ [x]) = None"
    using below set_xs Suc.prems(1) shrinks_None [OF conjunct1 [OF below]] by blast
  then obtain d v s' where "xlate_read (zk_Get z (c_basePath c @ p) s1) = Inr (d, v)"
      "xlate (zk_Delete z (c_basePath c @ p) v s1) = (None, s')"
    using delete_node_succeeds [of s1 p] list(2) Suc.prems(2,3) by auto
  then show ?case using xs list(1) by (simp add: xlate_read_def)
qed

lemma Delete_removes:
  assumes "closed (seen s)" and "seen s p \<noteq> None" and "p \<noteq> []"
    and "\<forall>r. seen s (p @ r) \<noteq> None \<longrightarrow> length r < c_stack c"
  shows "\<exists>s'. Coordinator.Delete c p s = (None, s') \<and> seen s' = removed p (seen s)"
proof -
  obtain s' where del: "Coordinator.Delete c p s = (None, s')"
    using conn_delete_succeeds [OF assms] by (auto simp: Coordinator.Delete_def connected)
  then show ?thesis using Delete_deletes [OF del assms(3)] assms(1) shrinks_removed by blast
qed

lemma Commit_succeeds:
  assumes "commit_tree ops (seen s) = Some t" and "\<forall>r \<in> set ops. req_path r \<noteq> []"
  shows "\<exists>s'. Commit c ops s = (None, s') \<and> seen s' = t"
proof -
  obtain ops' where ops': "resolve (seen s) ops = Some ops'" "tree_ops ops' (seen s) = Some t"
    using assms(1) by (auto simp: commit_tree_def bind_eq_Some_conv)
  have "op_path ` set ops' = req_path ` set ops"
    using resolve_paths [OF ops'(1)] by (metis image_set)
  then have paths: "\<forall>op \<in> set ops'. op_path op \<noteq> []" using assms(2) by (metis image_iff)
  have "resolve (seen s) ops = Some xs \<Longrightarrow> multi_ops z (c_basePath c) ops s = Inr (map (op_at (c_basePath c)) xs)" for xs
  proof (induction ops arbitrary: xs)
    case (Cons r ops)
    then show ?case
      by (cases r) (auto simp: Get_answers view_def xlate_read_def split: option.splits)
  qed simp
  note multi = this [OF ops'(1)]
  have "fst (zk_Multi z (map (op_at (c_basePath c)) ops') s) = None"
    using tree_ops_base [OF _ paths, of s] ops'(2) by (intro Multi_succeeds) simp
  then obtain s' where commit: "Commit c ops s = (None, s')"
    using multi by (auto simp: Commit_def connected xlate_def)
  then show ?thesis using Commit_tree [OF commit assms(2)] assms(1) by auto
qed

end

subsection \<open>Connections to the server in memory\<close>

definition mem_connection :: "(zpath \<Rightarrow> bool) \<Rightarrow> zpath \<Rightarrow> nat \<Rightarrow> ('n, 'n mem) Connection" where
  "mem_connection lost base stack = \<lparr>c_conn = Some (mem_zk lost), c_basePath = base, c_stack = stack\<rparr>"

lemma mem_connection_simps [simp]:
  "c_conn (mem_connection lost base stack) = Some (mem_zk lost)"
  "c_basePath (mem_connection lost base stack) = base" "c_stack (mem_connection lost base stack) = stack"
  by (simp_all add: mem_connection_def)

interpretation mem: connection "mem_zk lost" map_of "mem_connection lost base stack"
  by unfold_locales simp

interpretation mem_ok: available_connection "mem_zk (\<lambda>_. False)" map_of "mem_connection (\<lambda>_. False) base stack" ..

text \<open>
  C33. Deleting a path recursively removes only nodes at and below the path, whatever fails
  on the way; when it reports success it has removed exactly the subtree; and it reports
  success on an available server if the path exists and the stack is deeper than the
  subtree.
\<close>

theorem Delete_subtree:
  assumes "connection z tree c" and "closed (view (c_basePath c) (tree s))" and "p \<noteq> []"
    and "Delete c p s = (e, s')"
  shows "shrinks p (view (c_basePath c) (tree s)) (view (c_basePath c) (tree s'))
    \<and> (e = None \<longrightarrow> view (c_basePath c) (tree s') = removed p (view (c_basePath c) (tree s)))
    \<and> (available_zookeeper z tree \<and> view (c_basePath c) (tree s) p \<noteq> None
        \<and> (\<forall>r. view (c_basePath c) (tree s) (p @ r) \<noteq> None \<longrightarrow> length r < c_stack c) \<longrightarrow> e = None)"
proof (intro conjI impI)
  note deleted = connection.Delete_deletes [OF assms(1,4,3)]
  show "shrinks p (view (c_basePath c) (tree s)) (view (c_basePath c) (tree s'))" using deleted by blast
  show "view (c_basePath c) (tree s') = removed p (view (c_basePath c) (tree s))" if "e = None"
    using deleted that assms(2) shrinks_removed by blast
  assume ok: "available_zookeeper z tree \<and> view (c_basePath c) (tree s) p \<noteq> None
    \<and> (\<forall>r. view (c_basePath c) (tree s) (p @ r) \<noteq> None \<longrightarrow> length r < c_stack c)"
  then have "available_connection z tree c" using assms(1) by (simp add: available_connection_def)
  from available_connection.Delete_removes [OF this assms(2) _ assms(3)] ok assms(4)
  show "e = None" by auto
qed

definition sample_tree :: "string mem" where
  "sample_tree = [([], EmptyData, 0), ([''a''], DirData, 0), ([''a'', ''b''], NodeData ''x'', 3), ([''c''], DirData, 0)]"

lemma sample_tree_closed: "closed (view [] (map_of sample_tree))"
  by (auto simp: closed_def view_def sample_tree_def Cons_eq_append_conv)

theorem Delete_subtree_witness:
  "\<exists>s'. Delete (mem_connection (\<lambda>_. False) [] 5) [''a''] sample_tree = (None, s')
    \<and> view [] (map_of s') = removed [''a''] (view [] (map_of sample_tree))"
proof -
  let ?c = "mem_connection (\<lambda>_. False) [] 5 :: (string, string mem) Connection"
  have del: "Delete ?c [''a''] sample_tree = (None, [([], EmptyData, 0), ([''c''], DirData, 0)])"
    by code_simp
  from Delete_subtree [OF mem.connection_axioms _ _ del] sample_tree_closed del show ?thesis by simp
qed

end
