(* ===== verification/Go_Strings.thy ===== *)
theory Go_Strings
  imports Prelude
begin

section \<open>Strings and numbers\<close>

text \<open>
  What the components use of Go's packages \<^verbatim>\<open>strings\<close>, \<^verbatim>\<open>strconv\<close> and \<^verbatim>\<open>fmt\<close> on ASCII text:
  splitting at a character, suffixes, decimal numbers and their round trip.
\<close>

fun SplitN :: "string \<Rightarrow> char \<Rightarrow> nat \<Rightarrow> string list" where
  "SplitN s c 0 = []"
| "SplitN s c (Suc 0) = [s]"
| "SplitN s c (Suc (Suc n)) =
     (case dropWhile (\<lambda>x. x \<noteq> c) s of
        [] \<Rightarrow> [s]
      | _ # rest \<Rightarrow> takeWhile (\<lambda>x. x \<noteq> c) s # SplitN rest c (Suc n))"

definition HasSuffix :: "string \<Rightarrow> string \<Rightarrow> bool" where
  "HasSuffix s sfx = (length sfx \<le> length s \<and> drop (length s - length sfx) s = sfx)"

fun show_nat :: "nat \<Rightarrow> string" where
  "show_nat n = (if n < 10 then [char_of (48 + n)] else show_nat (n div 10) @ [char_of (48 + n mod 10)])"

declare show_nat.simps [simp del]

text \<open>The verb \<^verbatim>\<open>%d\<close> of \<^verbatim>\<open>fmt\<close>.\<close>

definition show_int :: "int \<Rightarrow> string" where
  "show_int i = (if i < 0 then CHR ''-'' # show_nat (nat (- i)) else show_nat (nat i))"

definition is_digit :: "char \<Rightarrow> bool" where
  "is_digit c = (48 \<le> (of_char c :: nat) \<and> (of_char c :: nat) \<le> 57)"

definition digits_value :: "string \<Rightarrow> nat" where
  "digits_value s = foldl (\<lambda>n c. 10 * n + (of_char c - 48)) 0 s"

definition parse_digits :: "string \<Rightarrow> nat option" where
  "parse_digits s = (if s \<noteq> [] \<and> list_all is_digit s then Some (digits_value s) else None)"

text \<open>\<^verbatim>\<open>strconv.Atoi\<close>: an optional sign, digits, and the range of a 64-bit integer.\<close>

definition in_int64 :: "int \<Rightarrow> bool" where
  "in_int64 i = (- (2 ^ 63) \<le> i \<and> i < 2 ^ 63)"

definition Atoi :: "string \<Rightarrow> int option" where
  "Atoi s =
     (let value = (case s of
          [] \<Rightarrow> None
        | c # r \<Rightarrow>
            (if c = CHR ''-'' then map_option (\<lambda>n. - int n) (parse_digits r)
             else if c = CHR ''+'' then map_option int (parse_digits r)
             else map_option int (parse_digits s)))
      in case value of None \<Rightarrow> None | Some i \<Rightarrow> if in_int64 i then Some i else None)"

text \<open>\<^verbatim>\<open>strings.TrimSpace\<close>.\<close>

definition is_space :: "char \<Rightarrow> bool" where
  "is_space c = ((of_char c :: nat) \<in> {9, 10, 11, 12, 13, 32})"

definition TrimSpace :: "string \<Rightarrow> string" where
  "TrimSpace s = rev (dropWhile is_space (rev (dropWhile is_space s)))"

definition trimmed :: "string \<Rightarrow> bool" where
  "trimmed s \<longleftrightarrow> TrimSpace s = s"

subsection \<open>Splitting\<close>

lemma split_at: "c \<notin> set xs \<Longrightarrow> takeWhile (\<lambda>x. x \<noteq> c) (xs @ c # ys) = xs \<and> dropWhile (\<lambda>x. x \<noteq> c) (xs @ c # ys) = c # ys"
  by (induction xs) auto

lemma SplitN_append:
  "c \<notin> set xs \<Longrightarrow> SplitN (xs @ c # ys) c (Suc (Suc n)) = xs # SplitN ys c (Suc n)"
  using split_at [of c xs ys] by simp

lemma SplitN_3:
  assumes "SplitN s c 3 = [x, y, w]"
  shows "s = x @ c # y @ c # w \<and> c \<notin> set x \<and> c \<notin> set y"
proof -
  have step: "s = x @ c # r \<and> c \<notin> set x"
    if "dropWhile (\<lambda>x. x \<noteq> c) s = d # r" "takeWhile (\<lambda>x. x \<noteq> c) s = x" for s x d r
    using that by (metis (full_types) dropWhile_eq_Cons_conv set_takeWhileD takeWhile_dropWhile_id)
  obtain d r where first: "dropWhile (\<lambda>x. x \<noteq> c) s = d # r" "takeWhile (\<lambda>x. x \<noteq> c) s = x" "SplitN r c 2 = [y, w]"
    using assms by (auto simp: numeral_3_eq_3 numeral_2_eq_2 split: list.splits)
  then obtain d' r' where "dropWhile (\<lambda>x. x \<noteq> c) r = d' # r'" "takeWhile (\<lambda>x. x \<noteq> c) r = y" "r' = w"
    by (auto simp: numeral_2_eq_2 split: list.splits)
  with step [OF first(1,2)] step [of r d' r' y] show ?thesis by simp
qed

subsection \<open>Numbers\<close>

lemma of_char_digit: "d < 10 \<Longrightarrow> (of_char (char_of (48 + d :: nat)) :: nat) = 48 + d"
  by simp

lemma show_nat_digits: "list_all is_digit (show_nat n) \<and> show_nat n \<noteq> []"
proof (induction n rule: show_nat.induct)
  case (1 n)
  then show ?case
    using of_char_digit [of "n mod 10"] of_char_digit [of n]
    by (subst (1 2) show_nat.simps) (auto simp: is_digit_def [of "char_of _"])
qed

lemma digits_value_snoc: "digits_value (s @ [c]) = 10 * digits_value s + (of_char c - 48)"
  by (simp add: digits_value_def)

lemma digits_value_show: "digits_value (show_nat n) = n"
proof (induction n rule: show_nat.induct)
  case (1 n)
  then show ?case
    by (subst show_nat.simps) (auto simp: digits_value_snoc digits_value_def)
qed

lemma parse_show_nat: "parse_digits (show_nat n) = Some n"
  using show_nat_digits by (simp add: parse_digits_def digits_value_show)

lemma sign_no_digit: "\<not> is_digit CHR ''-''" "\<not> is_digit CHR ''+''"
  by (simp_all add: is_digit_def)

lemma Atoi_show_int: "in_int64 i \<Longrightarrow> Atoi (show_int i) = Some i"
proof (cases "i < 0")
  case False
  assume "in_int64 i"
  obtain c r where shown: "show_nat (nat i) = c # r" using show_nat_digits by (metis list.exhaust)
  then have "is_digit c" using show_nat_digits [of "nat i"] by simp
  then have "c \<noteq> CHR ''-''" "c \<noteq> CHR ''+''" using sign_no_digit by auto
  then show ?thesis
    using False shown parse_show_nat [of "nat i"] \<open>in_int64 i\<close> by (simp add: Atoi_def show_int_def)
qed (simp add: Atoi_def show_int_def parse_show_nat)

lemma Atoi_range: "Atoi s = Some i \<Longrightarrow> in_int64 i"
  by (auto simp: Atoi_def Let_def split: option.splits if_splits)

subsection \<open>Trimming\<close>

lemma TrimSpace_Nil [simp]: "TrimSpace [] = []"
  by (simp add: TrimSpace_def)

lemma TrimSpace_ends: "TrimSpace s \<noteq> [] \<Longrightarrow> \<not> is_space (hd (TrimSpace s)) \<and> \<not> is_space (last (TrimSpace s))"
proof -
  let ?d = "dropWhile is_space s"
  assume ne: "TrimSpace s \<noteq> []"
  obtain sp where sp: "rev ?d = sp @ dropWhile is_space (rev ?d)" by (metis takeWhile_dropWhile_id)
  have d: "?d = TrimSpace s @ rev sp" using arg_cong [OF sp, of rev] by (simp add: TrimSpace_def)
  have "hd (TrimSpace s) = hd ?d" using ne by (subst d) simp
  moreover have "?d \<noteq> []" using d ne by auto
  ultimately have "\<not> is_space (hd (TrimSpace s))" using hd_dropWhile by metis
  moreover have "last (TrimSpace s) = hd (dropWhile is_space (rev ?d))"
    using ne by (simp add: TrimSpace_def last_rev)
  then have "\<not> is_space (last (TrimSpace s))" using ne hd_dropWhile by (metis TrimSpace_def rev.simps(1))
  ultimately show ?thesis by simp
qed

lemma TrimSpace_trimmed [simp]: "trimmed (TrimSpace s)"
proof (cases "TrimSpace s = []")
  case True
  then show ?thesis by (simp add: trimmed_def)
next
  case False
  let ?t = "TrimSpace s"
  have d: "dropWhile is_space ?t = ?t"
    using TrimSpace_ends [OF False] False by (cases ?t) auto
  have "dropWhile is_space (rev ?t) = rev ?t"
    using TrimSpace_ends [OF False] False by (cases "rev ?t") (auto simp: hd_rev [symmetric])
  then show ?thesis using d by (simp add: trimmed_def TrimSpace_def)
qed

end
