(* ===== verification/Strategy.thy ===== *)
theory Strategy
  imports Service_Model "HOL-Library.Signed_Division"
begin

section \<open>Choosing a host for a service instance\<close>

text \<open>
  \<^verbatim>\<open>scheduler/strategy/*.go\<close>, \<^verbatim>\<open>scheduler/strategy.go\<close> and \<^verbatim>\<open>scheduler/leader.go\<close>: the
  scoring of hosts, the four placement strategies and the scheduler's use of them. CPU and
  memory figures keep their 64-bit width: sums wrap, \<^verbatim>\<open>int\<close> division truncates and the
  conversion of a memory percentage to \<^verbatim>\<open>int\<close> reinterprets the bits. The contract that all
  strategies share is the locale \<open>host_strategy\<close>; the scheduler's side is proved in it.
\<close>

subsection \<open>Names\<close>

definition lower_char :: "char \<Rightarrow> char" where
  "lower_char c = (if 65 \<le> (of_char c :: nat) \<and> (of_char c :: nat) \<le> 90
                   then char_of ((of_char c :: nat) + 32) else c)"

text \<open>\<^verbatim>\<open>strings.ToLower\<close> on ASCII text.\<close>

definition ToLower :: "string \<Rightarrow> string" where
  "ToLower s = map lower_char s"

definition LeastCommitted :: string where "LeastCommitted = ''LEAST_COMMITTED''"
definition Balance :: string where "Balance = ''balance''"
definition Pack :: string where "Pack = ''pack''"
definition PreferSeparate :: string where "PreferSeparate = ''PREFER_SEPARATE''"
definition RequireSeparate :: string where "RequireSeparate = ''REQUIRE_SEPARATE''"

definition trim_quotes :: "string \<Rightarrow> string" where
  "trim_quotes s = rev (dropWhile (\<lambda>c. c = CHR 0x22) (rev (dropWhile (\<lambda>c. c = CHR 0x22) s)))"

definition HostPolicy_UnmarshalText :: "string \<Rightarrow> string + string" where
  "HostPolicy_UnmarshalText b =
     (let s = trim_quotes b in
      if s \<in> {LeastCommitted, PreferSeparate, RequireSeparate} then Inr s
      else if s = '''' then Inr ''''
      else Inl (''Invalid HostPolicy: '' @ s))"

definition ChangeOptions_Contains :: "string list \<Rightarrow> string \<Rightarrow> bool" where
  "ChangeOptions_Contains options co = list_ex (\<lambda>opt. ToLower co = ToLower opt) options"

subsection \<open>Hosts and scores\<close>

record ServiceConfig =
  sc_ServiceID :: string
  sc_RequestedCorePercent :: i64
  sc_RequestedMemoryBytes :: u64

record StrategyHost =
  sh_HostID :: string
  sh_TotalCores :: i64
  sh_TotalMemory :: u64
  sh_RunningServices :: "ServiceConfig list"

record ScoredHost =
  sd_Host :: StrategyHost
  sd_Score :: i64
  sd_NumInstances :: nat

text \<open>Go's \<^verbatim>\<open>/\<close> on \<^verbatim>\<open>int\<close> truncates towards zero.\<close>

definition int64_div :: "i64 \<Rightarrow> i64 \<Rightarrow> i64" where
  "int64_div a b = word_of_int (sint a sdiv sint b)"

definition usedCpu :: "StrategyHost \<Rightarrow> i64" where
  "usedCpu h = sum_list (map sc_RequestedCorePercent (sh_RunningServices h))"

definition usedMem :: "StrategyHost \<Rightarrow> u64" where
  "usedMem h = sum_list (map sc_RequestedMemoryBytes (sh_RunningServices h))"

definition NumInstances :: "ServiceConfig \<Rightarrow> StrategyHost \<Rightarrow> nat" where
  "NumInstances service h =
     length (filter (\<lambda>svc. sc_ServiceID svc = sc_ServiceID service) (sh_RunningServices h))"

definition cpuScore :: "ServiceConfig \<Rightarrow> StrategyHost \<Rightarrow> i64" where
  "cpuScore service h =
     (if sint (sh_TotalCores h) > 0
      then (if sint (sc_RequestedCorePercent service) > 0
            then int64_div (usedCpu h + sc_RequestedCorePercent service) (sh_TotalCores h) else 0)
      else 100)"

definition memScore :: "ServiceConfig \<Rightarrow> StrategyHost \<Rightarrow> i64" where
  "memScore service h =
     (if sh_TotalMemory h > 0
      then (if sc_RequestedMemoryBytes service > 0
            then (usedMem h + sc_RequestedMemoryBytes service) * 100 div sh_TotalMemory h else 0)
      else 100)"

definition fits :: "ServiceConfig \<Rightarrow> StrategyHost \<Rightarrow> bool" where
  "fits service h = (sint (cpuScore service h) \<le> 100 \<and> sint (memScore service h) \<le> 100)"

definition score_host :: "ServiceConfig \<Rightarrow> StrategyHost \<Rightarrow> ScoredHost" where
  "score_host service h =
     \<lparr>sd_Host = h,
      sd_Score = (if fits service h then cpuScore service h + memScore service h
                  else memScore service h),
      sd_NumInstances = NumInstances service h\<rparr>"

definition scored_Less :: "ScoredHost \<Rightarrow> ScoredHost \<Rightarrow> bool" where
  "scored_Less a b = (sint (sd_Score a) < sint (sd_Score b))"

definition ScoreHosts :: "ServiceConfig \<Rightarrow> StrategyHost list \<Rightarrow> ScoredHost list \<times> ScoredHost list" where
  "ScoreHosts service hosts =
     (go_sort scored_Less (map (score_host service) (filter (fits service) hosts)),
      go_sort scored_Less (map (score_host service) (filter (\<lambda>h. \<not> fits service h) hosts)))"

subsection \<open>The strategies\<close>

abbreviation load :: "ScoredHost \<Rightarrow> nat" where
  "load s \<equiv> length (sh_RunningServices (sd_Host s))"

fun balance_scan :: "ScoredHost \<Rightarrow> ScoredHost list \<Rightarrow> ScoredHost" where
  "balance_scan choice [] = choice"
| "balance_scan choice (scored # rest) =
     (if sd_Score scored \<noteq> sd_Score choice then choice
      else balance_scan (if load scored < load choice then scored else choice) rest)"

fun pack_scan :: "ScoredHost \<Rightarrow> ScoredHost list \<Rightarrow> ScoredHost" where
  "pack_scan choice [] = choice"
| "pack_scan choice (scored # rest) =
     (if sd_Score scored \<noteq> sd_Score choice then choice
      else pack_scan (if load scored > load choice then scored else choice) rest)"

fun separate_scan :: "ScoredHost \<Rightarrow> ScoredHost list \<Rightarrow> ScoredHost" where
  "separate_scan best [] = best"
| "separate_scan best (h # rest) =
     separate_scan (if sd_NumInstances h < sd_NumInstances best then h else best) rest"

definition least_over :: "ScoredHost list \<Rightarrow> StrategyHost option" where
  "least_over oversub = (case oversub of [] \<Rightarrow> None | s # _ \<Rightarrow> Some (sd_Host s))"

definition Balance_SelectHost :: "ServiceConfig \<Rightarrow> StrategyHost list \<Rightarrow> StrategyHost option" where
  "Balance_SelectHost service hosts =
     (case ScoreHosts service hosts of (undersub, oversub) \<Rightarrow>
        (case undersub of [] \<Rightarrow> least_over oversub | s # _ \<Rightarrow> Some (sd_Host (balance_scan s undersub))))"

definition Pack_SelectHost :: "ServiceConfig \<Rightarrow> StrategyHost list \<Rightarrow> StrategyHost option" where
  "Pack_SelectHost service hosts =
     (case ScoreHosts service hosts of (undersub, oversub) \<Rightarrow>
        (case rev undersub of [] \<Rightarrow> least_over oversub | s # _ \<Rightarrow> Some (sd_Host (pack_scan s (rev undersub)))))"

definition PreferSeparate_SelectHost :: "ServiceConfig \<Rightarrow> StrategyHost list \<Rightarrow> StrategyHost option" where
  "PreferSeparate_SelectHost service hosts =
     (case ScoreHosts service hosts of (undersub, oversub) \<Rightarrow>
        (case undersub of [] \<Rightarrow> least_over oversub | s # _ \<Rightarrow> Some (sd_Host (separate_scan s undersub))))"

definition RequireSeparate_SelectHost :: "ServiceConfig \<Rightarrow> StrategyHost list \<Rightarrow> StrategyHost option" where
  "RequireSeparate_SelectHost service hosts =
     (case ScoreHosts service hosts of (undersub, oversub) \<Rightarrow>
        (case List.find (\<lambda>h. sd_NumInstances h = 0) undersub of
           Some h \<Rightarrow> Some (sd_Host h)
         | None \<Rightarrow> map_option sd_Host (List.find (\<lambda>h. sd_NumInstances h = 0) oversub)))"

datatype Strategy = BalanceStrategy | PackStrategy | PreferSeparateStrategy | RequireSeparateStrategy

primrec Strategy_Name :: "Strategy \<Rightarrow> string" where
  "Strategy_Name BalanceStrategy = Balance"
| "Strategy_Name PackStrategy = Pack"
| "Strategy_Name PreferSeparateStrategy = PreferSeparate"
| "Strategy_Name RequireSeparateStrategy = RequireSeparate"

primrec SelectHost :: "Strategy \<Rightarrow> ServiceConfig \<Rightarrow> StrategyHost list \<Rightarrow> StrategyHost option" where
  "SelectHost BalanceStrategy = Balance_SelectHost"
| "SelectHost PackStrategy = Pack_SelectHost"
| "SelectHost PreferSeparateStrategy = PreferSeparate_SelectHost"
| "SelectHost RequireSeparateStrategy = RequireSeparate_SelectHost"

datatype scheduler_error =
    ErrNoSuchStrategy
  | ErrNoAuthenticatedHosts
  | SchedulerError string

definition strategies :: "Strategy list" where
  "strategies = [BalanceStrategy, PackStrategy, PreferSeparateStrategy, RequireSeparateStrategy]"

definition Get :: "string \<Rightarrow> scheduler_error + Strategy" where
  "Get name =
     (let name' = (if name = '''' then Balance else name) in
      case List.find (\<lambda>s. ToLower (Strategy_Name s) = ToLower name') strategies of
        Some s \<Rightarrow> Inr s
      | None \<Rightarrow> Inl ErrNoSuchStrategy)"

subsection \<open>The scheduler\<close>

record Host =
  h_ID :: string
  h_Cores :: i64
  h_TotalRAM :: u64

record StrategyInstance =
  si_HostID :: string
  si_Config :: ServiceConfig

record ServiceNode =
  sn_ID :: string
  sn_Name :: string
  sn_DesiredState :: int
  sn_Instances :: int
  sn_ChangeOptions :: "string list"
  sn_Locked :: bool
  sn_HostPolicy :: string
  sn_CPUCommitment :: i64
  sn_RAMCommitment :: u64
  sn_ShouldHaveAddressAssignment :: bool
  sn_AddressAssignment :: AddressAssignment

definition make_hostmap :: "Host list \<Rightarrow> (string, StrategyHost) gomap" where
  "make_hostmap hosts =
     fold (\<lambda>h. gset (h_ID h) \<lparr>sh_HostID = h_ID h, sh_TotalCores = h_Cores h,
                              sh_TotalMemory = h_TotalRAM h, sh_RunningServices = []\<rparr>) hosts []"

definition assign_instance ::
    "StrategyInstance \<Rightarrow> (string, StrategyHost) gomap \<Rightarrow> (string, StrategyHost) gomap" where
  "assign_instance s hostmap =
     (case map_of hostmap (si_HostID s) of
        Some h \<Rightarrow> gset (si_HostID s) (h\<lparr>sh_RunningServices := sh_RunningServices h @ [si_Config s]\<rparr>) hostmap
      | None \<Rightarrow> hostmap)"

text \<open>
  \<open>instances\<close> is the facade's answer to \<^verbatim>\<open>GetHostStrategyInstances\<close> and \<open>order\<close> the order in
  which Go happens to iterate over the host map.
\<close>

definition StrategySelectHost ::
    "(StrategyHost list \<Rightarrow> StrategyHost list) \<Rightarrow> (ServiceConfig \<Rightarrow> StrategyHost list \<Rightarrow> StrategyHost option) \<Rightarrow>
     string + StrategyInstance list \<Rightarrow> ServiceNode \<Rightarrow> Host list \<Rightarrow> scheduler_error + string" where
  "StrategySelectHost order select instances sn hosts =
     (case instances of
        Inl e \<Rightarrow> Inl (SchedulerError e)
      | Inr svcs \<Rightarrow>
          (let hostmap = fold assign_instance svcs (make_hostmap hosts);
               shosts = order (map snd hostmap);
               service = \<lparr>sc_ServiceID = sn_ID sn, sc_RequestedCorePercent = sn_CPUCommitment sn,
                          sc_RequestedMemoryBytes = sn_RAMCommitment sn\<rparr>
           in Inr (case select service shosts of None \<Rightarrow> '''' | Some h \<Rightarrow> sh_HostID h)))"

text \<open>
  What the leader asks of the registry, of authentication and of the virtual IP nodes of
  the coordinator.
\<close>

record LeaderEnv =
  le_registered :: "string + Host list"
  le_authenticated :: "string \<Rightarrow> string + bool"
  le_GetHostID :: "string \<Rightarrow> string + string"
  le_GetIP_OK :: "string \<Rightarrow> string \<Rightarrow> string + bool"
  le_instances :: "string + StrategyInstance list"
  le_order :: "StrategyHost list \<Rightarrow> StrategyHost list"

definition authenticated_hosts :: "LeaderEnv \<Rightarrow> Host list \<Rightarrow> Host list" where
  "authenticated_hosts env hosts = filter (\<lambda>h. le_authenticated env (h_ID h) = Inr True) hosts"

definition assigned_host :: "LeaderEnv \<Rightarrow> AddressAssignment \<Rightarrow> scheduler_error + string" where
  "assigned_host env a =
     (if aa_AssignmentType a = ''virtual'' then
        (case le_GetHostID env (aa_IPAddr a) of
           Inl e \<Rightarrow> Inl (SchedulerError e)
         | Inr hostID \<Rightarrow>
             (case le_GetIP_OK env hostID (aa_IPAddr a) of
                Inl _ \<Rightarrow> Inl (SchedulerError ''could not check if virtual ip is bound'')
              | Inr ok \<Rightarrow> if ok then Inr hostID else Inl (SchedulerError ''assigned ip is not bound'')))
      else Inr (aa_HostID a))"

definition leader_SelectHost :: "LeaderEnv \<Rightarrow> ServiceNode \<Rightarrow> scheduler_error + string" where
  "leader_SelectHost env sn =
     (case le_registered env of
        Inl e \<Rightarrow> Inl (SchedulerError e)
      | Inr reghosts \<Rightarrow>
          (if reghosts = [] then Inl (SchedulerError ''scheduler is shutting down'')
           else (let hosts = authenticated_hosts env reghosts; a = sn_AddressAssignment sn in
             if hosts = [] then Inl ErrNoAuthenticatedHosts
             else if sn_ShouldHaveAddressAssignment sn \<and> aa_IPAddr a = ''''
             then Inl (SchedulerError ''service is missing an address assignment'')
             else if aa_IPAddr a \<noteq> '''' then
               (case assigned_host env a of
                  Inl e \<Rightarrow> Inl e
                | Inr hostID \<Rightarrow>
                    (if list_ex (\<lambda>h. h_ID h = hostID) hosts then Inr hostID
                     else Inl (SchedulerError ''assigned ip is not available'')))
             else (case Get (sn_HostPolicy sn) of
                     Inl e \<Rightarrow> Inl e
                   | Inr strat \<Rightarrow>
                       StrategySelectHost (le_order env) (SelectHost strat) (le_instances env) sn hosts))))"

subsection \<open>Scoring\<close>

interpretation scored: strict_weak_order scored_Less
  unfolding scored_Less_def by (rule key_strict_weak_order)

lemma ScoreHosts_sets:
  assumes "ScoreHosts service hosts = (undersub, oversub)"
  shows "set undersub = score_host service ` {h \<in> set hosts. fits service h}"
    and "set oversub = score_host service ` {h \<in> set hosts. \<not> fits service h}"
    and "sorted_wrt (\<lambda>a b. sint (sd_Score a) \<le> sint (sd_Score b)) undersub"
    and "sorted_wrt (\<lambda>a b. sint (sd_Score a) \<le> sint (sd_Score b)) oversub"
  using assms scored.ordered_go_sort
  by (auto simp: ScoreHosts_def scored_Less_def not_less)

lemma sd_Host_score [simp]: "sd_Host (score_host service h) = h"
  and sd_NumInstances_score [simp]: "sd_NumInstances (score_host service h) = NumInstances service h"
  by (simp_all add: score_host_def)

lemma sint_word_of_int_64:
  "- (2 ^ 63) \<le> x \<Longrightarrow> x < 2 ^ 63 \<Longrightarrow> sint (word_of_int x :: 64 word) = x"
  by (simp add: signed_of_int signed_take_bit_int_eq_self)

lemma sint_unat_64:
  assumes "unat (w :: 64 word) < 2 ^ 63"
  shows "sint w = int (unat w)"
proof -
  have "int (unat w) < int (2 ^ 63)" using assms by (simp only: of_nat_less_iff)
  then have upper: "int (unat w) < 2 ^ 63" by (simp only: of_nat_power of_nat_numeral)
  have lower: "- (2 ^ 63) \<le> int (unat w)" by (rule order_trans [of _ 0]) simp_all
  from sint_word_of_int_64 [OF lower upper] show ?thesis by simp
qed

text \<open>The memory and the CPU that a host has handed out, as unbounded numbers.\<close>

definition mem_of :: "StrategyHost \<Rightarrow> nat" where
  "mem_of h = sum_list (map (unat \<circ> sc_RequestedMemoryBytes) (sh_RunningServices h))"

definition cpu_of :: "StrategyHost \<Rightarrow> int" where
  "cpu_of h = sum_list (map (sint \<circ> sc_RequestedCorePercent) (sh_RunningServices h))"

lemma unat_sum_list:
  "sum_list (map unat ws) < 2 ^ 64 \<Longrightarrow> unat (sum_list ws :: u64) = sum_list (map unat ws)"
  by (induction ws) (simp_all add: unat_word_ariths)

lemma sint_sum_list:
  "\<forall>w \<in> set ws. 0 \<le> sint w \<Longrightarrow> sum_list (map sint ws) < 2 ^ 63 \<Longrightarrow>
     sint (sum_list ws :: i64) = sum_list (map sint ws)"
proof (induction ws)
  case (Cons w ws)
  have nonneg: "0 \<le> sum_list (map sint ws)" using Cons.prems(1) by (intro sum_list_nonneg) auto
  have w: "0 \<le> sint w" using Cons.prems(1) by simp
  then have IH: "sint (sum_list ws) = sum_list (map sint ws)" using Cons by auto
  have "sint (word_of_int (sint w + sum_list (map sint ws)) :: i64) = sint w + sum_list (map sint ws)"
    using Cons.prems(2) nonneg w by (intro sint_word_of_int_64) simp_all
  moreover have "w + sum_list ws = word_of_int (sint w + sint (sum_list ws))" by simp
  ultimately show ?case by (simp add: IH)
qed simp

lemma memScore_eq:
  assumes "(mem_of h + unat (sc_RequestedMemoryBytes service)) * 100 < 2 ^ 63"
    and "sh_TotalMemory h > 0" and "sc_RequestedMemoryBytes service > 0"
  shows "sint (memScore service h)
    = int ((mem_of h + unat (sc_RequestedMemoryBytes service)) * 100 div unat (sh_TotalMemory h))"
proof -
  let ?r = "sc_RequestedMemoryBytes service"
  let ?n = "(mem_of h + unat ?r) * 100"
  have used: "unat (usedMem h) = mem_of h"
    using unat_sum_list [of "map sc_RequestedMemoryBytes (sh_RunningServices h)"] assms(1)
    by (simp add: usedMem_def mem_of_def)
  have "unat ((usedMem h + ?r) * 100) = ?n"
    using assms(1) used by (simp add: unat_word_ariths)
  then have n: "unat ((usedMem h + ?r) * 100 div sh_TotalMemory h) = ?n div unat (sh_TotalMemory h)"
    by (simp add: unat_div)
  moreover have "?n div unat (sh_TotalMemory h) < 2 ^ 63"
    using assms(1) div_le_dividend [of ?n "unat (sh_TotalMemory h)"] by linarith
  ultimately have "sint ((usedMem h + ?r) * 100 div sh_TotalMemory h)
      = int (unat ((usedMem h + ?r) * 100 div sh_TotalMemory h))"
    by (intro sint_unat_64) simp
  with n have "sint ((usedMem h + ?r) * 100 div sh_TotalMemory h) = int (?n div unat (sh_TotalMemory h))"
    by (simp only:)
  then show ?thesis using assms(2,3) unfolding memScore_def by (simp only: if_True)
qed

lemma cpuScore_eq:
  assumes "\<forall>s \<in> set (sh_RunningServices h). 0 \<le> sint (sc_RequestedCorePercent s)"
    and "cpu_of h + sint (sc_RequestedCorePercent service) < 2 ^ 63"
    and "sint (sh_TotalCores h) > 0" and "sint (sc_RequestedCorePercent service) > 0"
  shows "sint (cpuScore service h)
    = (cpu_of h + sint (sc_RequestedCorePercent service)) div sint (sh_TotalCores h)"
proof -
  let ?r = "sc_RequestedCorePercent service" and ?ws = "map sc_RequestedCorePercent (sh_RunningServices h)"
  let ?n = "cpu_of h + sint ?r"
  have nonneg: "0 \<le> cpu_of h" using assms(1) by (auto simp: cpu_of_def intro!: sum_list_nonneg)
  have "sint (usedCpu h + ?r) = ?n"
  proof -
    have "sint (sum_list (?r # ?ws)) = sum_list (map sint (?r # ?ws))"
      using assms by (intro sint_sum_list) (auto simp: cpu_of_def comp_def)
    then show ?thesis by (simp add: usedCpu_def cpu_of_def comp_def add.commute)
  qed
  moreover have "?n sdiv sint (sh_TotalCores h) = ?n div sint (sh_TotalCores h)"
    using nonneg assms(3,4) by (simp add: signed_divide_int_def)
  moreover have "0 \<le> ?n div sint (sh_TotalCores h)" "?n div sint (sh_TotalCores h) \<le> ?n"
    using nonneg assms(3,4) zdiv_mono2 [of ?n 1 "sint (sh_TotalCores h)"]
    by (simp_all add: pos_imp_zdiv_nonneg_iff)
  ultimately show ?thesis
    using assms(2,3,4) by (simp add: cpuScore_def int64_div_def sint_word_of_int_64)
qed

lemma int_div_less_iff:
  assumes "0 < (c :: int)"
  shows "a div c < k \<longleftrightarrow> a < k * c"
proof -
  have "(a + (- k) * c) div c = (- k) + a div c"
    using assms by (intro div_mult_self1) simp
  moreover have "(a + (- k) * c) div c < 0 \<longleftrightarrow> a + (- k) * c < 0"
    using assms by (rule pos_imp_zdiv_neg_iff)
  ultimately show ?thesis by (simp only: mult_minus_left) linarith
qed

text \<open>
  When the figures do not overflow, a host is found to have room exactly when the
  service would bring it below 101 percent of its cores and of its memory; a resource
  that the service does not ask for, or that the host does not report, never counts
  against the host. The percentages are rounded down, so a host may be overcommitted by
  less than one percent.
\<close>

theorem fits_iff:
  assumes "(mem_of h + unat (sc_RequestedMemoryBytes service)) * 100 < 2 ^ 63"
    and "\<forall>s \<in> set (sh_RunningServices h). 0 \<le> sint (sc_RequestedCorePercent s)"
    and "cpu_of h + sint (sc_RequestedCorePercent service) < 2 ^ 63"
  shows "fits service h \<longleftrightarrow>
     (sint (sh_TotalCores h) > 0 \<and> sint (sc_RequestedCorePercent service) > 0 \<longrightarrow>
        cpu_of h + sint (sc_RequestedCorePercent service) < 101 * sint (sh_TotalCores h))
     \<and> (sh_TotalMemory h > 0 \<and> sc_RequestedMemoryBytes service > 0 \<longrightarrow>
        (mem_of h + unat (sc_RequestedMemoryBytes service)) * 100 < 101 * unat (sh_TotalMemory h))"
proof -
  let ?c = "sint (sh_TotalCores h)" and ?r = "sint (sc_RequestedCorePercent service)"
  let ?m = "unat (sh_TotalMemory h)" and ?q = "(mem_of h + unat (sc_RequestedMemoryBytes service)) * 100"
  have cpu: "sint (cpuScore service h) \<le> 100 \<longleftrightarrow> (?c > 0 \<and> ?r > 0 \<longrightarrow> cpu_of h + ?r < 101 * ?c)"
  proof (cases "?c > 0 \<and> ?r > 0")
    case True
    then have "sint (cpuScore service h) = (cpu_of h + ?r) div ?c"
      using cpuScore_eq assms(2,3) by blast
    moreover have "(cpu_of h + ?r) div ?c \<le> 100 \<longleftrightarrow> (cpu_of h + ?r) div ?c < 101" by linarith
    moreover have "(cpu_of h + ?r) div ?c < 101 \<longleftrightarrow> cpu_of h + ?r < 101 * ?c"
      using True by (intro int_div_less_iff) simp
    ultimately show ?thesis using True by simp
  qed (auto simp: cpuScore_def)
  have mem: "sint (memScore service h) \<le> 100 \<longleftrightarrow>
      (sh_TotalMemory h > 0 \<and> sc_RequestedMemoryBytes service > 0 \<longrightarrow> ?q < 101 * ?m)"
  proof (cases "sh_TotalMemory h > 0 \<and> sc_RequestedMemoryBytes service > 0")
    case True
    then have "sint (memScore service h) = int (?q div ?m)" using memScore_eq assms(1) by blast
    moreover have "0 < ?m" using True by (simp add: unat_gt_0 word_neq_0_conv)
    then have "?q div ?m < 101 \<longleftrightarrow> ?q < 101 * ?m" by (simp add: div_less_iff_less_mult)
    ultimately show ?thesis using True by (simp only: HOL.simp_thms) linarith
  qed (auto simp: memScore_def)
  from cpu mem show ?thesis by (simp add: fits_def)
qed

definition sample_config :: "string \<Rightarrow> i64 \<Rightarrow> u64 \<Rightarrow> ServiceConfig" where
  "sample_config i c m = \<lparr>sc_ServiceID = i, sc_RequestedCorePercent = c, sc_RequestedMemoryBytes = m\<rparr>"

definition sample_host :: "string \<Rightarrow> ServiceConfig list \<Rightarrow> StrategyHost" where
  "sample_host i svcs = \<lparr>sh_HostID = i, sh_TotalCores = 4, sh_TotalMemory = 1000, sh_RunningServices = svcs\<rparr>"

theorem fits_iff_witness:
  "fits (sample_config ''s'' 100 509) (sample_host ''h'' [sample_config ''r'' 100 500])
   \<and> \<not> fits (sample_config ''s'' 100 510) (sample_host ''h'' [sample_config ''r'' 100 500])"
proof -
  let ?h = "sample_host ''h'' [sample_config ''r'' 100 500]"
  have "mem_of ?h = 500" "cpu_of ?h = 100" "sh_TotalCores ?h = 4" "sh_TotalMemory ?h = 1000"
    "\<forall>s \<in> set (sh_RunningServices ?h). 0 \<le> sint (sc_RequestedCorePercent s)"
    by (simp_all add: mem_of_def cpu_of_def sample_host_def sample_config_def)
  then show ?thesis
    using fits_iff [of ?h "sample_config ''s'' 100 509"] fits_iff [of ?h "sample_config ''s'' 100 510"]
    by (simp add: sample_config_def)
qed

text \<open>
  The arithmetic wraps around. A request for more than a hundredth of all addressable
  memory can be found to fit a host with a single byte.
\<close>

theorem fits_wraps:
  "\<exists>service h. unat (sc_RequestedMemoryBytes service) > 10 ^ 17 \<and> unat (sh_TotalMemory h) = 1
     \<and> mem_of h = 0 \<and> fits service h"
proof -
  let ?s = "sample_config ''s'' 0 184467440737095517"
  let ?h = "(sample_host ''h'' [])\<lparr>sh_TotalMemory := 1\<rparr>"
  have "(184467440737095517 :: u64) * 100 = 84" by simp
  then have "memScore ?s ?h = 84" by (simp add: memScore_def usedMem_def sample_config_def sample_host_def)
  then have "fits ?s ?h" by (simp add: fits_def cpuScore_def sample_config_def sample_host_def)
  then show ?thesis
    by (intro exI [of _ ?s] exI [of _ ?h]) (simp add: sample_config_def sample_host_def mem_of_def)
qed

subsection \<open>What each strategy optimises\<close>

abbreviation by_score :: "ScoredHost \<Rightarrow> ScoredHost \<Rightarrow> bool" where
  "by_score a b \<equiv> sint (sd_Score a) \<le> sint (sd_Score b)"

lemma balance_scan_best:
  assumes "sorted_wrt by_score xs" and "\<forall>x \<in> set xs. by_score ch x"
  shows "balance_scan ch xs \<in> insert ch (set xs) \<and> sd_Score (balance_scan ch xs) = sd_Score ch
    \<and> (\<forall>x \<in> insert ch (set xs). sd_Score x = sd_Score ch \<longrightarrow> load (balance_scan ch xs) \<le> load x)"
  using assms
proof (induction xs arbitrary: ch)
  case (Cons y ys)
  show ?case
  proof (cases "sd_Score y = sd_Score ch")
    case True
    let ?ch = "if load y < load ch then y else ch"
    have "sd_Score ?ch = sd_Score ch" using True by simp
    with Cons.IH [of ?ch] Cons.prems True show ?thesis by fastforce
  next
    case False
    then have "sint (sd_Score ch) < sint (sd_Score y)"
      using Cons.prems(2) by (auto simp: order_less_le dest: signed_word_eqI)
    then have "sd_Score x \<noteq> sd_Score ch" if "x \<in> set (y # ys)" for x
      using Cons.prems(1) that by fastforce
    with False show ?thesis by auto
  qed
qed simp

lemma pack_scan_best:
  assumes "sorted_wrt (\<lambda>a b. by_score b a) xs" and "\<forall>x \<in> set xs. by_score x ch"
  shows "pack_scan ch xs \<in> insert ch (set xs) \<and> sd_Score (pack_scan ch xs) = sd_Score ch
    \<and> (\<forall>x \<in> insert ch (set xs). sd_Score x = sd_Score ch \<longrightarrow> load x \<le> load (pack_scan ch xs))"
  using assms
proof (induction xs arbitrary: ch)
  case (Cons y ys)
  show ?case
  proof (cases "sd_Score y = sd_Score ch")
    case True
    let ?ch = "if load y > load ch then y else ch"
    have "sd_Score ?ch = sd_Score ch" using True by simp
    with Cons.IH [of ?ch] Cons.prems True show ?thesis by fastforce
  next
    case False
    then have "sint (sd_Score y) < sint (sd_Score ch)"
      using Cons.prems(2) by (auto simp: order_less_le dest: signed_word_eqI)
    then have "sd_Score x \<noteq> sd_Score ch" if "x \<in> set (y # ys)" for x
      using Cons.prems(1) that by fastforce
    with False show ?thesis by auto
  qed
qed simp

lemma separate_scan_best:
  "separate_scan best xs \<in> insert best (set xs)
   \<and> (\<forall>x \<in> insert best (set xs). sd_NumInstances (separate_scan best xs) \<le> sd_NumInstances x)"
proof (induction xs arbitrary: best)
  case (Cons y ys)
  show ?case using Cons.IH [of "if sd_NumInstances y < sd_NumInstances best then y else best"] by fastforce
qed simp

abbreviation total_score :: "ServiceConfig \<Rightarrow> StrategyHost \<Rightarrow> int" where
  "total_score service h \<equiv> sint (cpuScore service h + memScore service h)"

abbreviation running :: "StrategyHost \<Rightarrow> nat" where
  "running h \<equiv> length (sh_RunningServices h)"

lemma score_fits: "fits service h \<Longrightarrow> sint (sd_Score (score_host service h)) = total_score service h"
  by (simp add: score_host_def)

lemma score_not_fits: "\<not> fits service h \<Longrightarrow> sd_Score (score_host service h) = memScore service h"
  by (simp add: score_host_def)

text \<open>What all strategies but \<^verbatim>\<open>REQUIRE_SEPARATE\<close> do when no host has room.\<close>

definition least_full :: "ServiceConfig \<Rightarrow> StrategyHost list \<Rightarrow> StrategyHost \<Rightarrow> bool" where
  "least_full service hosts h \<longleftrightarrow> h \<in> set hosts \<and> \<not> fits service h
     \<and> (\<forall>h' \<in> set hosts. sint (memScore service h) \<le> sint (memScore service h'))"

lemma no_room:
  assumes "ScoreHosts service hosts = ([], oversub)"
  shows "(\<forall>h \<in> set hosts. \<not> fits service h)
    \<and> (case least_over oversub of None \<Rightarrow> hosts = [] | Some h \<Rightarrow> least_full service hosts h)"
proof -
  note sets = ScoreHosts_sets [OF assms]
  have none: "\<not> fits service h" if "h \<in> set hosts" for h using sets(1) that by auto
  show ?thesis
  proof (cases oversub)
    case Nil
    then show ?thesis using sets(2) none by (auto simp: least_over_def)
  next
    case (Cons s rest)
    then obtain h where h: "h \<in> set hosts" "s = score_host service h" using sets(2) by auto
    have "sint (memScore service h) \<le> sint (memScore service h')" if "h' \<in> set hosts" for h'
    proof -
      have "score_host service h' \<in> set oversub" using sets(2) that none by auto
      then have "by_score s (score_host service h')" using sets(4) Cons by auto
      then show ?thesis using h none that by (simp add: score_not_fits)
    qed
    then show ?thesis using Cons h none by (simp add: least_over_def least_full_def)
  qed
qed

lemma room_cases:
  assumes "ScoreHosts service hosts = (s # rest, oversub)"
  shows "\<exists>h \<in> set hosts. fits service h"
    and "x \<in> set (s # rest) \<Longrightarrow> sd_Host x \<in> set hosts \<and> fits service (sd_Host x)
      \<and> x = score_host service (sd_Host x)"
    and "h \<in> set hosts \<Longrightarrow> fits service h \<Longrightarrow> score_host service h \<in> set (s # rest)"
proof -
  note sets = ScoreHosts_sets(1) [OF assms]
  show member: "sd_Host x \<in> set hosts \<and> fits service (sd_Host x) \<and> x = score_host service (sd_Host x)"
    if "x \<in> set (s # rest)" for x
    using that unfolding sets by auto
  show "\<exists>h \<in> set hosts. fits service h" using member [of s] by auto
  show "score_host service h \<in> set (s # rest)" if "h \<in> set hosts" "fits service h"
    using that unfolding sets by blast
qed

lemma Balance_best:
  "case Balance_SelectHost service hosts of
     None \<Rightarrow> hosts = []
   | Some h \<Rightarrow>
      if \<exists>h' \<in> set hosts. fits service h'
      then h \<in> set hosts \<and> fits service h
        \<and> (\<forall>h' \<in> set hosts. fits service h' \<longrightarrow> total_score service h \<le> total_score service h'
             \<and> (total_score service h' = total_score service h \<longrightarrow> running h \<le> running h'))
      else least_full service hosts h"
proof (cases "ScoreHosts service hosts")
  case (Pair undersub oversub)
  show ?thesis
  proof (cases undersub)
    case Nil
    then show ?thesis
      using no_room [of service hosts oversub] Pair
      by (auto simp: Balance_SelectHost_def split: option.splits)
  next
    case (Cons s rest)
    note room = room_cases [OF Pair [unfolded Cons]]
    let ?c = "balance_scan s (s # rest)"
    have sorted: "sorted_wrt by_score (s # rest)" using ScoreHosts_sets(3) [OF Pair] Cons by simp
    have best: "?c \<in> set (s # rest)" "sd_Score ?c = sd_Score s"
      "\<forall>x \<in> set (s # rest). sd_Score x = sd_Score s \<longrightarrow> load ?c \<le> load x"
      using balance_scan_best [OF sorted, of s] sorted by auto
    have "total_score service (sd_Host ?c) \<le> total_score service h'
        \<and> (total_score service h' = total_score service (sd_Host ?c) \<longrightarrow> running (sd_Host ?c) \<le> running h')"
      if h': "h' \<in> set hosts" "fits service h'" for h'
    proof -
      let ?x = "score_host service h'"
      have x: "?x \<in> set (s # rest)" using room(3) h' .
      have c: "sint (sd_Score ?c) = total_score service (sd_Host ?c)"
        using room(2) [OF best(1)] score_fits by metis
      have "by_score s ?x" using sorted x by auto
      then show ?thesis
        using best x c score_fits [OF h'(2)] by (metis sd_Host_score signed_word_eqI)
    qed
    then show ?thesis
      using Pair Cons room(1) room(2) [OF best(1)] by (simp add: Balance_SelectHost_def)
  qed
qed

lemma Pack_best:
  "case Pack_SelectHost service hosts of
     None \<Rightarrow> hosts = []
   | Some h \<Rightarrow>
      if \<exists>h' \<in> set hosts. fits service h'
      then h \<in> set hosts \<and> fits service h
        \<and> (\<forall>h' \<in> set hosts. fits service h' \<longrightarrow> total_score service h' \<le> total_score service h
             \<and> (total_score service h' = total_score service h \<longrightarrow> running h' \<le> running h))
      else least_full service hosts h"
proof (cases "ScoreHosts service hosts")
  case (Pair undersub oversub)
  show ?thesis
  proof (cases "rev undersub")
    case Nil
    then show ?thesis
      using no_room [of service hosts oversub] Pair
      by (auto simp: Pack_SelectHost_def split: option.splits)
  next
    case (Cons s rest)
    then obtain s' rest' where under: "undersub = s' # rest'" by (cases undersub) auto
    have members: "set undersub = set (s # rest)" using Cons by (metis set_rev)
    note room = room_cases [OF Pair [unfolded under], folded under, unfolded members]
    let ?c = "pack_scan s (s # rest)"
    have "sorted_wrt (\<lambda>a b. by_score b a) (rev undersub)"
      using ScoreHosts_sets(3) [OF Pair] by (simp add: sorted_wrt_rev)
    then have sorted: "sorted_wrt (\<lambda>a b. by_score b a) (s # rest)" using Cons by simp
    have best: "?c \<in> set (s # rest)" "sd_Score ?c = sd_Score s"
      "\<forall>x \<in> set (s # rest). sd_Score x = sd_Score s \<longrightarrow> load x \<le> load ?c"
      using pack_scan_best [OF sorted, of s] sorted by auto
    have "total_score service h' \<le> total_score service (sd_Host ?c)
        \<and> (total_score service h' = total_score service (sd_Host ?c) \<longrightarrow> running h' \<le> running (sd_Host ?c))"
      if h': "h' \<in> set hosts" "fits service h'" for h'
    proof -
      let ?x = "score_host service h'"
      have x: "?x \<in> set (s # rest)" using room(3) h' .
      have c: "sint (sd_Score ?c) = total_score service (sd_Host ?c)"
        using room(2) [OF best(1)] score_fits by metis
      have "by_score ?x s" using sorted x by auto
      then show ?thesis
        using best x c score_fits [OF h'(2)] by (metis sd_Host_score signed_word_eqI)
    qed
    then show ?thesis
      using Pair Cons room(1) room(2) [OF best(1)] by (simp add: Pack_SelectHost_def)
  qed
qed

lemma PreferSeparate_best:
  "case PreferSeparate_SelectHost service hosts of
     None \<Rightarrow> hosts = []
   | Some h \<Rightarrow>
      if \<exists>h' \<in> set hosts. fits service h'
      then h \<in> set hosts \<and> fits service h
        \<and> (\<forall>h' \<in> set hosts. fits service h' \<longrightarrow> NumInstances service h \<le> NumInstances service h')
      else least_full service hosts h"
proof (cases "ScoreHosts service hosts")
  case (Pair undersub oversub)
  show ?thesis
  proof (cases undersub)
    case Nil
    then show ?thesis
      using no_room [of service hosts oversub] Pair
      by (auto simp: PreferSeparate_SelectHost_def split: option.splits)
  next
    case (Cons s rest)
    note room = room_cases [OF Pair [unfolded Cons]]
    let ?c = "separate_scan s (s # rest)"
    have best: "?c \<in> set (s # rest)" "\<forall>x \<in> set (s # rest). sd_NumInstances ?c \<le> sd_NumInstances x"
      using separate_scan_best [of s "s # rest"] by auto
    have "NumInstances service (sd_Host ?c) \<le> NumInstances service h'"
      if h': "h' \<in> set hosts" "fits service h'" for h'
      using best(2) room(3) [OF h'] room(2) [OF best(1)] by (metis sd_NumInstances_score)
    then show ?thesis
      using Pair Cons room(1) room(2) [OF best(1)] by (simp add: PreferSeparate_SelectHost_def)
  qed
qed

lemma RequireSeparate_best:
  "case RequireSeparate_SelectHost service hosts of
     None \<Rightarrow> \<forall>h \<in> set hosts. NumInstances service h \<noteq> 0
   | Some h \<Rightarrow> h \<in> set hosts \<and> NumInstances service h = 0
      \<and> ((\<exists>h' \<in> set hosts. NumInstances service h' = 0 \<and> fits service h') \<longrightarrow> fits service h)"
proof (cases "ScoreHosts service hosts")
  case (Pair undersub oversub)
  note sets = ScoreHosts_sets [OF Pair]
  let ?free = "\<lambda>s. sd_NumInstances s = 0"
  have out: "RequireSeparate_SelectHost service hosts = (case List.find ?free undersub of
      Some s \<Rightarrow> Some (sd_Host s) | None \<Rightarrow> map_option sd_Host (List.find ?free oversub))"
    by (simp add: RequireSeparate_SelectHost_def Pair)
  show ?thesis
  proof (cases "List.find ?free undersub")
    case (Some s)
    then have "s \<in> set undersub" "?free s" by (auto simp: find_Some_iff)
    then show ?thesis unfolding out Some using sets(1) by auto
  next
    case None
    then have full: "NumInstances service h \<noteq> 0" if "h \<in> set hosts" "fits service h" for h
      using that sets(1) by (auto simp: find_None_iff)
    show ?thesis
    proof (cases "List.find ?free oversub")
      case None
      then have "NumInstances service h \<noteq> 0" if "h \<in> set hosts" "\<not> fits service h" for h
        using that sets(2) by (auto simp: find_None_iff)
      then show ?thesis unfolding out None \<open>List.find ?free undersub = None\<close>
        using full by auto
    next
      case (Some s)
      then have "s \<in> set oversub" "?free s" by (auto simp: find_Some_iff)
      then show ?thesis unfolding out \<open>List.find ?free undersub = None\<close> Some
        using full sets(2) by fastforce
    qed
  qed
qed

subsection \<open>The contract of a strategy\<close>

text \<open>
  What the scheduler relies on: a strategy chooses one of the hosts it is given that it
  considers eligible, chooses none only when none is eligible, and never passes over an
  eligible host with room for one without.
\<close>

locale host_strategy =
  fixes select :: "ServiceConfig \<Rightarrow> StrategyHost list \<Rightarrow> StrategyHost option"
    and eligible :: "ServiceConfig \<Rightarrow> StrategyHost \<Rightarrow> bool"
  assumes chosen: "select service hosts = Some h \<Longrightarrow> h \<in> set hosts \<and> eligible service h"
    and none: "select service hosts = None \<longleftrightarrow> (\<forall>h \<in> set hosts. \<not> eligible service h)"
    and room_first: "select service hosts = Some h \<Longrightarrow> h' \<in> set hosts \<Longrightarrow> eligible service h' \<Longrightarrow>
      fits service h' \<Longrightarrow> fits service h"
begin

lemma some_iff: "(\<exists>h. select service hosts = Some h) \<longleftrightarrow> (\<exists>h \<in> set hosts. eligible service h)"
  using none [of service hosts] by auto

lemma order_irrelevant:
  "set hosts = set hosts' \<Longrightarrow> select service hosts = None \<longleftrightarrow> select service hosts' = None"
  by (simp add: none)

end

lemma host_strategyI:
  assumes "\<And>service hosts. case select service hosts of
      None \<Rightarrow> \<forall>h \<in> set hosts. \<not> el service h
    | Some h \<Rightarrow> h \<in> set hosts \<and> el service h
        \<and> ((\<exists>h' \<in> set hosts. el service h' \<and> fits service h') \<longrightarrow> fits service h)"
  shows "host_strategy select el"
proof unfold_locales
  fix service hosts h
  assume "select service hosts = Some h"
  then show "h \<in> set hosts \<and> el service h" using assms [where service = service and hosts = hosts] by simp
next
  fix service hosts
  show "select service hosts = None \<longleftrightarrow> (\<forall>h \<in> set hosts. \<not> el service h)"
    using assms [where service = service and hosts = hosts] by (cases "select service hosts") auto
next
  fix service hosts h h'
  assume "select service hosts = Some h" "h' \<in> set hosts" "el service h'" "fits service h'"
  then show "fits service h" using assms [where service = service and hosts = hosts] by auto
qed

lemma best_contract:
  assumes "case r of None \<Rightarrow> hosts = [] | Some h \<Rightarrow>
      if \<exists>h' \<in> set hosts. fits service h' then h \<in> set hosts \<and> fits service h \<and> Q h
      else least_full service hosts h"
  shows "case r of None \<Rightarrow> \<forall>h \<in> set hosts. \<not> True
    | Some h \<Rightarrow> h \<in> set hosts \<and> True \<and> ((\<exists>h' \<in> set hosts. True \<and> fits service h') \<longrightarrow> fits service h)"
  using assms by (cases r) (auto simp: least_full_def split: if_splits)

interpretation balance: host_strategy Balance_SelectHost "\<lambda>_ _. True"
  by (rule host_strategyI) (rule best_contract [OF Balance_best])

interpretation pack: host_strategy Pack_SelectHost "\<lambda>_ _. True"
  by (rule host_strategyI) (rule best_contract [OF Pack_best])

interpretation prefer_separate: host_strategy PreferSeparate_SelectHost "\<lambda>_ _. True"
  by (rule host_strategyI) (rule best_contract [OF PreferSeparate_best])

interpretation require_separate: host_strategy RequireSeparate_SelectHost "\<lambda>service h. NumInstances service h = 0"
  by (rule host_strategyI) (rule RequireSeparate_best)

text \<open>
  C7. Every strategy, on every list of hosts and every service: a chosen host is one of
  the hosts; a host that has room is preferred to one that has not; and no host is chosen
  only when there is none, or, for \<^verbatim>\<open>REQUIRE_SEPARATE\<close>, none without an instance of the
  service already, which that strategy never doubles.
\<close>

theorem SelectHost_contract:
  "case SelectHost strat service hosts of
     None \<Rightarrow> if strat = RequireSeparateStrategy then \<forall>h \<in> set hosts. NumInstances service h > 0 else hosts = []
   | Some h \<Rightarrow> h \<in> set hosts
      \<and> (if strat = RequireSeparateStrategy
         then NumInstances service h = 0
           \<and> ((\<exists>h' \<in> set hosts. NumInstances service h' = 0 \<and> fits service h') \<longrightarrow> fits service h)
         else (\<exists>h' \<in> set hosts. fits service h') \<longrightarrow> fits service h)"
proof (cases strat)
  case BalanceStrategy
  then show ?thesis
    using balance.chosen [of service hosts] balance.none [of service hosts]
      balance.room_first [of service hosts] by (auto split: option.split)
next
  case PackStrategy
  then show ?thesis
    using pack.chosen [of service hosts] pack.none [of service hosts]
      pack.room_first [of service hosts] by (auto split: option.split)
next
  case PreferSeparateStrategy
  then show ?thesis
    using prefer_separate.chosen [of service hosts] prefer_separate.none [of service hosts]
      prefer_separate.room_first [of service hosts] by (auto split: option.split)
next
  case RequireSeparateStrategy
  then show ?thesis
    using require_separate.chosen [of service hosts] require_separate.none [of service hosts]
      require_separate.room_first [of service hosts] by (auto split: option.split)
qed

theorem SelectHost_contract_witness:
  "SelectHost RequireSeparateStrategy (sample_config ''s'' 100 100)
     [sample_host ''h1'' [sample_config ''s'' 100 100], sample_host ''h2'' [sample_config ''r'' 100 950]]
   = Some (sample_host ''h2'' [sample_config ''r'' 100 950])"
proof -
  let ?s = "sample_config ''s'' 100 100"
  let ?hs = "[sample_host ''h1'' [?s], sample_host ''h2'' [sample_config ''r'' 100 950]]"
  have "NumInstances ?s (sample_host ''h1'' [?s]) = 1"
    "NumInstances ?s (sample_host ''h2'' [sample_config ''r'' 100 950]) = 0"
    by (simp_all add: NumInstances_def sample_host_def sample_config_def)
  then show ?thesis
    using SelectHost_contract [where strat = RequireSeparateStrategy and service = ?s and hosts = ?hs]
    by (cases "SelectHost RequireSeparateStrategy ?s ?hs") auto
qed

text \<open>
  Among the hosts with room, \<^verbatim>\<open>balance\<close> chooses the least committed one and, among
  equals, the one with the fewest running services; \<^verbatim>\<open>pack\<close> the most committed one and,
  among equals, the one with the most; \<^verbatim>\<open>PREFER_SEPARATE\<close> one with the fewest instances of
  the service. Without room all three choose the host whose memory is oversubscribed least.
\<close>

theorem SelectHost_optimal:
  assumes "SelectHost strat service hosts = Some h" and "strat \<noteq> RequireSeparateStrategy"
  shows "if \<exists>h' \<in> set hosts. fits service h'
    then \<forall>h' \<in> set hosts. fits service h' \<longrightarrow>
      (case strat of
         BalanceStrategy \<Rightarrow> total_score service h < total_score service h'
           \<or> (total_score service h = total_score service h' \<and> running h \<le> running h')
       | PackStrategy \<Rightarrow> total_score service h' < total_score service h
           \<or> (total_score service h = total_score service h' \<and> running h' \<le> running h)
       | _ \<Rightarrow> NumInstances service h \<le> NumInstances service h')
    else \<forall>h' \<in> set hosts. sint (memScore service h) \<le> sint (memScore service h')"
proof (cases strat)
  case BalanceStrategy
  then show ?thesis
    using Balance_best [where service = service and hosts = hosts] assms(1)
    by (cases "\<exists>h' \<in> set hosts. fits service h'") (auto simp: least_full_def order_less_le)
next
  case PackStrategy
  then show ?thesis
    using Pack_best [where service = service and hosts = hosts] assms(1)
    by (cases "\<exists>h' \<in> set hosts. fits service h'") (auto simp: least_full_def order_less_le)
next
  case PreferSeparateStrategy
  then show ?thesis
    using PreferSeparate_best [where service = service and hosts = hosts] assms(1)
    by (cases "\<exists>h' \<in> set hosts. fits service h'") (auto simp: least_full_def order_less_le)
qed (use assms in simp)

theorem SelectHost_optimal_witness:
  "\<exists>h. SelectHost PreferSeparateStrategy (sample_config ''s'' 1 1)
         [sample_host ''h1'' [sample_config ''s'' 1 1], sample_host ''h2'' []] = Some h
       \<and> NumInstances (sample_config ''s'' 1 1) h = 0"
proof -
  let ?s = "sample_config ''s'' 1 1" and ?h2 = "sample_host ''h2'' []"
  let ?hs = "[sample_host ''h1'' [sample_config ''s'' 1 1], ?h2]"
  obtain h where h: "SelectHost PreferSeparateStrategy ?s ?hs = Some h"
    using prefer_separate.none [of ?s ?hs] by auto
  have room: "fits ?s ?h2"
    by (simp add: fits_def cpuScore_def memScore_def usedCpu_def usedMem_def int64_div_def
        signed_divide_int_def sample_config_def sample_host_def)
  have "NumInstances ?s ?h2 = 0" by (simp add: NumInstances_def sample_host_def)
  moreover have "PreferSeparateStrategy \<noteq> RequireSeparateStrategy" by simp
  ultimately show ?thesis
    using SelectHost_optimal [OF h] h room by (auto split: if_splits)
qed

subsection \<open>The scheduler's choice\<close>

text \<open>The instances that are assigned to a host are the reported ones with its ID, in order.\<close>

definition strategy_host :: "Host \<Rightarrow> StrategyInstance list \<Rightarrow> StrategyHost" where
  "strategy_host h svcs =
     \<lparr>sh_HostID = h_ID h, sh_TotalCores = h_Cores h, sh_TotalMemory = h_TotalRAM h,
      sh_RunningServices = map si_Config (filter (\<lambda>s. si_HostID s = h_ID h) svcs)\<rparr>"

lemma make_hostmap_entry:
  "map_of (make_hostmap hosts) i = Some sh \<Longrightarrow> \<exists>h \<in> set hosts. h_ID h = i \<and> sh = strategy_host h []"
proof (induction hosts rule: rev_induct)
  case (snoc h hosts)
  then show ?case by (auto simp: make_hostmap_def strategy_host_def split: if_splits)
qed (simp add: make_hostmap_def)

lemma fst_gset: "fst ` set (gset k v m) = insert k (fst ` set m)"
  using keys_gset [of k v m] by (simp only: set_map)

lemma make_hostmap_keys: "fst ` set (make_hostmap hosts) = h_ID ` set hosts"
  by (induction hosts rule: rev_induct) (simp_all add: make_hostmap_def fst_gset)

lemma assign_instance_keys: "fst ` set (assign_instance s m) = fst ` set m"
  by (force simp: assign_instance_def fst_gset dest: map_of_SomeD split: option.split)

lemma hostmap_keys: "fst ` set (fold assign_instance svcs (make_hostmap hosts)) = h_ID ` set hosts"
proof -
  have "fst ` set (fold assign_instance svcs m) = fst ` set m" for m
    by (induction svcs arbitrary: m) (simp_all add: assign_instance_keys)
  then show ?thesis by (simp add: make_hostmap_keys)
qed

lemma hostmap_wf: "wf_map (fold assign_instance svcs (make_hostmap hosts))"
proof -
  have "wf_map (make_hostmap hosts)"
    by (induction hosts rule: rev_induct) (simp_all add: make_hostmap_def)
  moreover have "wf_map m \<Longrightarrow> wf_map (assign_instance s m)" for s m
    by (simp add: assign_instance_def split: option.split)
  then have "wf_map m \<Longrightarrow> wf_map (fold assign_instance svcs m)" for m
    by (induction svcs arbitrary: m) auto
  ultimately show ?thesis by blast
qed

lemma assigned_entry:
  assumes "map_of (fold assign_instance svcs (make_hostmap hosts)) i = Some sh"
  shows "\<exists>h \<in> set hosts. h_ID h = i \<and> sh = strategy_host h svcs"
  using assms
proof (induction svcs arbitrary: sh rule: rev_induct)
  case Nil
  then show ?case using make_hostmap_entry by simp
next
  case (snoc s svcs)
  let ?m = "fold assign_instance svcs (make_hostmap hosts)"
  show ?case
  proof (cases "map_of ?m (si_HostID s)")
    case None
    then have "map_of ?m i = Some sh" and ne: "si_HostID s \<noteq> i"
      using snoc.prems by (auto simp: assign_instance_def [of s])
    with snoc.IH ne show ?thesis by (fastforce simp: strategy_host_def)
  next
    case (Some old)
    show ?thesis
    proof (cases "si_HostID s = i")
      case True
      then have sh: "sh = old\<lparr>sh_RunningServices := sh_RunningServices old @ [si_Config s]\<rparr>"
        using snoc.prems Some by (simp add: assign_instance_def [of s])
      obtain h where "h \<in> set hosts" "h_ID h = i" "old = strategy_host h svcs"
        using snoc.IH Some True by blast
      with sh True show ?thesis by (auto simp: strategy_host_def)
    next
      case False
      then have "map_of ?m i = Some sh" using snoc.prems Some by (simp add: assign_instance_def [of s])
      with snoc.IH False show ?thesis by (fastforce simp: strategy_host_def)
    qed
  qed
qed

lemma hostmap_members:
  assumes "distinct (map h_ID hosts)"
  shows "snd ` set (fold assign_instance svcs (make_hostmap hosts)) = (\<lambda>h. strategy_host h svcs) ` set hosts"
proof -
  let ?m = "fold assign_instance svcs (make_hostmap hosts)"
  have entry: "\<exists>h \<in> set hosts. h_ID h = i \<and> sh = strategy_host h svcs" if "(i, sh) \<in> set ?m" for i sh
    using assigned_entry [of svcs hosts i sh] that hostmap_wf by simp
  moreover have "strategy_host h svcs \<in> snd ` set ?m" if h: "h \<in> set hosts" for h
  proof -
    have "h_ID h \<in> fst ` set ?m" using hostmap_keys [of svcs hosts] h by blast
    then obtain sh where sh: "(h_ID h, sh) \<in> set ?m" by auto
    then obtain h' where "h' \<in> set hosts" "h_ID h' = h_ID h" "sh = strategy_host h' svcs" using entry by blast
    moreover from this have "h' = h" using assms h by (simp add: distinct_map inj_on_def)
    ultimately show ?thesis using sh by force
  qed
  ultimately show ?thesis by force
qed

context host_strategy
begin

lemma StrategySelectHost_places:
  assumes "\<And>xs. mset (order xs) = mset xs" and "distinct (map h_ID hosts)"
    and "service = \<lparr>sc_ServiceID = sn_ID sn, sc_RequestedCorePercent = sn_CPUCommitment sn,
           sc_RequestedMemoryBytes = sn_RAMCommitment sn\<rparr>"
    and "StrategySelectHost order select (Inr svcs) sn hosts = Inr hid"
  shows "if \<exists>h \<in> set hosts. eligible service (strategy_host h svcs)
    then \<exists>h \<in> set hosts. h_ID h = hid \<and> eligible service (strategy_host h svcs)
      \<and> ((\<exists>h' \<in> set hosts. eligible service (strategy_host h' svcs) \<and> fits service (strategy_host h' svcs))
          \<longrightarrow> fits service (strategy_host h svcs))
    else hid = ''''"
proof -
  let ?m = "fold assign_instance svcs (make_hostmap hosts)"
  have "set (order (map snd ?m)) = snd ` set ?m"
    using assms(1) by (metis list.set_map set_mset_mset)
  then have members: "set (order (map snd ?m)) = (\<lambda>h. strategy_host h svcs) ` set hosts"
    using hostmap_members [OF assms(2)] by simp
  have hid: "hid = (case select service (order (map snd ?m)) of None \<Rightarrow> '''' | Some h \<Rightarrow> sh_HostID h)"
    using assms(3,4) by (simp add: StrategySelectHost_def Let_def)
  show ?thesis
  proof (cases "select service (order (map snd ?m))")
    case None
    then have "\<forall>h \<in> set hosts. \<not> eligible service (strategy_host h svcs)"
      using none members by (metis imageI)
    with None hid show ?thesis by auto
  next
    case (Some sh)
    then obtain h where h: "h \<in> set hosts" "sh = strategy_host h svcs" "eligible service sh"
      using chosen members by blast
    have "fits service sh" if "h' \<in> set hosts" "eligible service (strategy_host h' svcs)"
      "fits service (strategy_host h' svcs)" for h'
      using room_first [OF Some] that members by blast
    moreover have "hid = h_ID h" using hid Some h(2) by (simp add: strategy_host_def)
    ultimately show ?thesis using h by auto
  qed
qed

end

subsection \<open>Policies and strategies\<close>

lemma Get_table:
  "Get '''' = Inr BalanceStrategy" "Get Balance = Inr BalanceStrategy" "Get Pack = Inr PackStrategy"
  "Get PreferSeparate = Inr PreferSeparateStrategy" "Get RequireSeparate = Inr RequireSeparateStrategy"
  "Get LeastCommitted = Inl ErrNoSuchStrategy"
  by code_simp+

text \<open>
  Of the host policies that a service definition may carry, every one names a
  strategy except \<^verbatim>\<open>LEAST_COMMITTED\<close>, which the definition accepts and the scheduler
  refuses, although it is documented as a synonym of the default.
\<close>

theorem policy_has_strategy:
  assumes "HostPolicy_UnmarshalText b = Inr p"
  shows "Get p = Inl ErrNoSuchStrategy \<longleftrightarrow> p = LeastCommitted"
proof -
  have "p \<in> {LeastCommitted, PreferSeparate, RequireSeparate, ''''}"
    using assms by (auto simp: HostPolicy_UnmarshalText_def Let_def split: if_splits)
  then show ?thesis using Get_table by auto
qed

theorem policy_has_strategy_witness:
  "HostPolicy_UnmarshalText ''LEAST_COMMITTED'' = Inr LeastCommitted
   \<and> Get LeastCommitted = Inl ErrNoSuchStrategy"
proof -
  have "HostPolicy_UnmarshalText ''LEAST_COMMITTED'' = Inr LeastCommitted" by code_simp
  with policy_has_strategy [OF this] show ?thesis by simp
qed

text \<open>Where the leader places an instance.\<close>

lemma leader_SelectHost_places:
  assumes "\<And>xs. mset (le_order env xs) = mset xs" and "le_registered env = Inr regs"
    and "distinct (map h_ID regs)" and "leader_SelectHost env sn = Inr hid" and "hid \<noteq> ''''"
  shows "\<exists>h \<in> set (authenticated_hosts env regs). h_ID h = hid
    \<and> (aa_IPAddr (sn_AddressAssignment sn) = '''' \<and> sn_HostPolicy sn = RequireSeparate \<longrightarrow>
        (\<forall>svcs s. le_instances env = Inr svcs \<longrightarrow> s \<in> set svcs \<longrightarrow> si_HostID s = hid \<longrightarrow>
           sc_ServiceID (si_Config s) \<noteq> sn_ID sn))"
proof (cases "aa_IPAddr (sn_AddressAssignment sn) = ''''")
  case False
  then show ?thesis
    using assms(2,4) by (auto simp: leader_SelectHost_def Let_def list_ex_iff split: if_splits sum.splits)
next
  case True
  let ?hosts = "authenticated_hosts env regs"
  let ?s = "\<lparr>sc_ServiceID = sn_ID sn, sc_RequestedCorePercent = sn_CPUCommitment sn,
      sc_RequestedMemoryBytes = sn_RAMCommitment sn\<rparr>"
  have dist: "distinct (map h_ID ?hosts)"
    using assms(3) by (simp add: authenticated_hosts_def distinct_map_filter)
  from True obtain strat svcs where strat: "Get (sn_HostPolicy sn) = Inr strat"
    and run: "StrategySelectHost (le_order env) (SelectHost strat) (le_instances env) sn ?hosts = Inr hid"
    and svcs: "le_instances env = Inr svcs"
    using assms(2,4)
    by (auto simp: leader_SelectHost_def StrategySelectHost_def Let_def split: if_splits sum.splits)
  note places = host_strategy.StrategySelectHost_places [OF _ assms(1) dist refl run [unfolded svcs]]
  have placed: "\<exists>h \<in> set ?hosts. h_ID h = hid \<and> (strat = RequireSeparateStrategy \<longrightarrow>
      NumInstances ?s (strategy_host h svcs) = 0)"
  proof (cases strat)
    case BalanceStrategy
    then show ?thesis using places [of "\<lambda>_ _. True"] balance.host_strategy_axioms assms(5) by (auto split: if_splits)
  next
    case PackStrategy
    then show ?thesis using places [of "\<lambda>_ _. True"] pack.host_strategy_axioms assms(5) by (auto split: if_splits)
  next
    case PreferSeparateStrategy
    then show ?thesis
      using places [of "\<lambda>_ _. True"] prefer_separate.host_strategy_axioms assms(5) by (auto split: if_splits)
  next
    case RequireSeparateStrategy
    then show ?thesis
      using places [of "\<lambda>service h. NumInstances service h = 0"] require_separate.host_strategy_axioms
        assms(5) by (auto split: if_splits)
  qed
  have "sc_ServiceID (si_Config s) \<noteq> sn_ID sn"
    if "sn_HostPolicy sn = RequireSeparate" "s \<in> set svcs" "si_HostID s = hid" for s
    using placed strat that Get_table(5)
    by (auto simp: NumInstances_def strategy_host_def filter_empty_conv)
  with placed svcs show ?thesis by auto
qed


definition sample_env :: LeaderEnv where
  "sample_env = \<lparr>le_registered = Inr [\<lparr>h_ID = ''h1'', h_Cores = 4, h_TotalRAM = 1000\<rparr>],
     le_authenticated = (\<lambda>_. Inr True), le_GetHostID = (\<lambda>_. Inl ''none''),
     le_GetIP_OK = (\<lambda>_ _. Inr True), le_instances = Inr [], le_order = (\<lambda>xs. xs)\<rparr>"

definition sample_node :: ServiceNode where
  "sample_node = \<lparr>sn_ID = ''s'', sn_Name = ''s'', sn_DesiredState = 1, sn_Instances = 1,
     sn_ChangeOptions = [], sn_Locked = False, sn_HostPolicy = RequireSeparate, sn_CPUCommitment = 100,
     sn_RAMCommitment = 100, sn_ShouldHaveAddressAssignment = False,
     sn_AddressAssignment = \<lparr>aa_ID = '''', aa_AssignmentType = '''', aa_HostID = '''', aa_PoolID = '''',
       aa_IPAddr = '''', aa_Port = 0, aa_ServiceID = '''', aa_EndpointName = ''''\<rparr>\<rparr>"


end
