(* ===== verification/State_Nodes.thy ===== *)
theory State_Nodes
  imports Coordinator Go_Strings Strategy
begin

section \<open>Service instances in the coordinator\<close>

text \<open>
  \<^verbatim>\<open>zzk/service/state.go\<close>: the nodes that stand for an instance of a service. An instance
  has a host state below its host, a service state below its service and a status node
  below that; creating, updating and deleting an instance are transactions on the three.
  The times of a state are integers and come from a clock that is an argument. Names and
  ids hold no slash, so joining a path drops its empty components and does nothing else.
\<close>

record HostState =
  hs_DesiredState :: DesiredState
  hs_Scheduled :: int

record ImportBinding =
  ib_Application :: string
  ib_Purpose :: string
  ib_PortNumber :: "16 word"
  ib_PortTemplate :: string
  ib_VirtualAddress :: string

record ExportBinding =
  eb_Application :: string
  eb_Protocol :: string
  eb_PortNumber :: "16 word"
  eb_AssignedPortNumber :: "16 word"

record ServiceState =
  ss_ContainerID :: string
  ss_ImageUUID :: string
  ss_Paused :: bool
  ss_PrivateIP :: string
  ss_HostIP :: string
  ss_AssignedIP :: string
  ss_Static :: bool
  ss_Imports :: "ImportBinding list"
  ss_Exports :: "ExportBinding list"
  ss_Started :: int
  ss_Restarted :: int
  ss_Terminated :: int

definition zero_HostState :: HostState where
  "zero_HostState = \<lparr>hs_DesiredState = 0, hs_Scheduled = 0\<rparr>"

definition zero_ServiceState :: ServiceState where
  "zero_ServiceState =
     \<lparr>ss_ContainerID = '''', ss_ImageUUID = '''', ss_Paused = False, ss_PrivateIP = '''', ss_HostIP = '''',
      ss_AssignedIP = '''', ss_Static = False, ss_Imports = [], ss_Exports = [], ss_Started = 0, ss_Restarted = 0, ss_Terminated = 0\<rparr>"

definition StateStopped :: string where "StateStopped = ''stopped''"

text \<open>
  What the package stores of hosts, pools and virtual addresses. Of the domain's types the
  fields that are numbers, strings or lists of them; the times, the monitoring profile and
  the version of the agent are left out, as nothing here reads them.
\<close>

record HostData =
  hd_ID :: string
  hd_Name :: string
  hd_PoolID :: string
  hd_IPAddr :: string
  hd_RPCPort :: int
  hd_Cores :: int
  hd_Memory :: u64
  hd_CoresCommitment :: int
  hd_RAMCommitment :: u64
  hd_RAMLimit :: string
  hd_PrivateNetwork :: string
  hd_KernelVersion :: string
  hd_KernelRelease :: string
  hd_NatIP :: string

record VirtualIP =
  vip_PoolID :: string
  vip_IP :: string
  vip_Netmask :: string
  vip_BindInterface :: string

record ResourcePool =
  rp_ID :: string
  rp_Realm :: string
  rp_Description :: string
  rp_VirtualIPs :: "VirtualIP list"
  rp_CoreLimit :: int
  rp_MemoryLimit :: u64
  rp_CoreCapacity :: int
  rp_MemoryCapacity :: u64
  rp_MemoryCommitment :: u64
  rp_ConnectionTimeout :: int

record HostIP =
  hip_Netmask :: string
  hip_BindInterface :: string

record IPRequest =
  ip_PoolID :: string
  ip_HostID :: string
  ip_IPAddress :: string

definition IPID :: "IPRequest \<Rightarrow> string" where
  "IPID req = ip_HostID req @ ''-'' @ ip_IPAddress req"

text \<open>All nodes of this package, as they are stored; a \<^verbatim>\<open>PoolIP\<close> is its field \<^verbatim>\<open>OK\<close>.\<close>

datatype Node =
    HostStateNode HostState
  | ServiceStateNode ServiceState
  | CurrentStateNode string
  | ServiceNodeNode ServiceNode
  | HostNodeNode HostData
  | PoolNodeNode ResourcePool
  | PoolIPNode bool
  | HostIPNode HostIP

type_synonym 's Conn = "(Node, 's) Connection"

record State =
  st_HostState :: HostState
  st_ServiceState :: ServiceState
  st_Status :: string
  st_HostID :: string
  st_ServiceID :: string
  st_InstanceID :: int

record StateRequest =
  req_PoolID :: string
  req_HostID :: string
  req_ServiceID :: string
  req_InstanceID :: int

datatype state_error =
    StateError StateRequest string string
  | ClientError client_error
  | ErrInstanceNotFound
  | ErrInvalidStateID

definition StateID :: "StateRequest \<Rightarrow> string" where
  "StateID req = req_HostID req @ ''-'' @ req_ServiceID req @ ''-'' @ show_int (req_InstanceID req)"

definition Requests_Less :: "StateRequest \<Rightarrow> StateRequest \<Rightarrow> bool" where
  "Requests_Less a b = (req_InstanceID a < req_InstanceID b)"

definition SortStateRequests :: "StateRequest list \<Rightarrow> StateRequest list" where
  "SortStateRequests reqs = go_sort Requests_Less reqs"

definition ParseStateID :: "string \<Rightarrow> state_error + (string \<times> string \<times> int)" where
  "ParseStateID stateID =
     (case SplitN stateID (CHR ''-'') 3 of
        [host, svc, inst] \<Rightarrow>
          (case Atoi inst of None \<Rightarrow> Inl ErrInvalidStateID | Some i \<Rightarrow> Inr (host, svc, i))
      | _ \<Rightarrow> Inl ErrInvalidStateID)"

subsection \<open>Paths\<close>

definition Join :: "string list \<Rightarrow> zpath" where
  "Join parts = filter (\<lambda>x. x \<noteq> '''') parts"

definition pool_base :: "string \<Rightarrow> zpath" where
  "pool_base poolID = (if poolID \<noteq> '''' then [''pools'', poolID] else [])"

definition instances_path :: "string \<Rightarrow> string \<Rightarrow> zpath" where
  "instances_path poolID hostID = Join (pool_base poolID @ [''hosts'', hostID, ''instances''])"

definition service_path :: "string \<Rightarrow> string \<Rightarrow> zpath" where
  "service_path poolID serviceID = Join (pool_base poolID @ [''services'', serviceID])"

definition hspth :: "StateRequest \<Rightarrow> zpath" where
  "hspth req = instances_path (req_PoolID req) (req_HostID req) @ [StateID req]"

definition sspth :: "StateRequest \<Rightarrow> zpath" where
  "sspth req = service_path (req_PoolID req) (req_ServiceID req) @ [StateID req]"

definition cspth :: "StateRequest \<Rightarrow> zpath" where
  "cspth req = sspth req @ [''current'']"

subsection \<open>Reading typed nodes\<close>

text \<open>
  Decoding an object into a node type takes over the fields that both have and leaves the
  others at zero; the only field that two of the node types of instances share is
  \<^verbatim>\<open>DesiredState\<close>. The nodes of hosts and pools stand at other paths.
\<close>

definition as_HostState :: "Node data \<Rightarrow> HostState" where
  "as_HostState d =
     (case d of
        NodeData (HostStateNode h) \<Rightarrow> h
      | NodeData (ServiceNodeNode n) \<Rightarrow> zero_HostState\<lparr>hs_DesiredState := sn_DesiredState n\<rparr>
      | _ \<Rightarrow> zero_HostState)"

definition as_ServiceState :: "Node data \<Rightarrow> ServiceState" where
  "as_ServiceState d = (case d of NodeData (ServiceStateNode x) \<Rightarrow> x | _ \<Rightarrow> zero_ServiceState)"

definition as_Status :: "Node data \<Rightarrow> string" where
  "as_Status d = (case d of NodeData (CurrentStateNode x) \<Rightarrow> x | _ \<Rightarrow> '''')"

definition get_as :: "(Node data \<Rightarrow> 'a) \<Rightarrow> 's Conn \<Rightarrow> zpath \<Rightarrow> 's \<Rightarrow> client_error + ('a \<times> int)" where
  "get_as decode c p s = (case Coordinator.Get c p s of (Some e, _) \<Rightarrow> Inl e | (None, d, v) \<Rightarrow> Inr (decode d, v))"

text \<open>The three reads that several operations begin with; \<open>op\<close> goes into the errors.\<close>

definition read_state ::
    "'s Conn \<Rightarrow> StateRequest \<Rightarrow> string \<Rightarrow> 's \<Rightarrow> state_error + ((HostState \<times> int) \<times> (ServiceState \<times> int) \<times> (string \<times> int))" where
  "read_state c req op s =
     (case get_as as_HostState c (hspth req) s of
        Inl _ \<Rightarrow> Inl (StateError req op ''could not look up host state'')
      | Inr hs \<Rightarrow>
          (case get_as as_ServiceState c (sspth req) s of
             Inl _ \<Rightarrow> Inl (StateError req op ''could not look up service state'')
           | Inr ss \<Rightarrow>
               (case get_as as_Status c (cspth req) s of
                  Inl _ \<Rightarrow> Inl (StateError req op ''could not look up current state (status)'')
                | Inr cs \<Rightarrow> Inr (hs, ss, cs))))"

definition make_state :: "StateRequest \<Rightarrow> HostState \<Rightarrow> ServiceState \<Rightarrow> string \<Rightarrow> State" where
  "make_state req hs ss cs =
     \<lparr>st_HostState = hs, st_ServiceState = ss, st_Status = cs, st_HostID = req_HostID req,
      st_ServiceID = req_ServiceID req, st_InstanceID = req_InstanceID req\<rparr>"

definition GetState :: "'s Conn \<Rightarrow> StateRequest \<Rightarrow> 's \<Rightarrow> state_error + State" where
  "GetState c req s =
     (case read_state c req ''get'' s of
        Inl e \<Rightarrow> Inl e
      | Inr ((hs, _), (ss, _), (cs, _)) \<Rightarrow> Inr (make_state req hs ss cs))"

subsection \<open>Listing\<close>

text \<open>Children of a path; a missing node has none.\<close>

definition state_children :: "'s Conn \<Rightarrow> zpath \<Rightarrow> 's \<Rightarrow> state_error + string list" where
  "state_children c p s =
     (case Coordinator.Children c p s of
        Inl e \<Rightarrow> if e = ErrNoNode then Inr [] else Inl (ClientError e)
      | Inr ch \<Rightarrow> Inr ch)"

fun find_host :: "string \<Rightarrow> string list \<Rightarrow> state_error + string" where
  "find_host sfx [] = Inl ErrInstanceNotFound"
| "find_host sfx (stateID # ch) =
     (if HasSuffix stateID sfx
      then (case ParseStateID stateID of Inl e \<Rightarrow> Inl e | Inr (hostID, _) \<Rightarrow> Inr hostID)
      else find_host sfx ch)"

definition GetServiceStateHostID :: "'s Conn \<Rightarrow> string \<Rightarrow> string \<Rightarrow> int \<Rightarrow> 's \<Rightarrow> state_error + string" where
  "GetServiceStateHostID c poolID serviceID instanceID s =
     (case state_children c (service_path poolID serviceID) s of
        Inl e \<Rightarrow> Inl e
      | Inr ch \<Rightarrow> find_host (''-'' @ serviceID @ ''-'' @ show_int instanceID) ch)"

fun collect :: "('a \<Rightarrow> 'e + 'b) \<Rightarrow> 'a list \<Rightarrow> 'e + 'b list" where
  "collect f [] = Inr []"
| "collect f (x # xs) =
     (case f x of
        Inl e \<Rightarrow> Inl e
      | Inr y \<Rightarrow> (case collect f xs of Inl e \<Rightarrow> Inl e | Inr ys \<Rightarrow> Inr (y # ys)))"

definition service_request :: "string \<Rightarrow> string \<Rightarrow> string \<Rightarrow> state_error + StateRequest" where
  "service_request poolID serviceID stateID =
     (case ParseStateID stateID of
        Inl e \<Rightarrow> Inl e
      | Inr (hostID, _, instanceID) \<Rightarrow>
          Inr \<lparr>req_PoolID = poolID, req_HostID = hostID, req_ServiceID = serviceID, req_InstanceID = instanceID\<rparr>)"

definition host_request :: "string \<Rightarrow> string \<Rightarrow> string \<Rightarrow> state_error + StateRequest" where
  "host_request poolID hostID stateID =
     (case ParseStateID stateID of
        Inl e \<Rightarrow> Inl e
      | Inr (_, serviceID, instanceID) \<Rightarrow>
          Inr \<lparr>req_PoolID = poolID, req_HostID = hostID, req_ServiceID = serviceID, req_InstanceID = instanceID\<rparr>)"

definition GetServiceStateIDs :: "'s Conn \<Rightarrow> string \<Rightarrow> string \<Rightarrow> 's \<Rightarrow> state_error + StateRequest list" where
  "GetServiceStateIDs c poolID serviceID s =
     (case state_children c (service_path poolID serviceID) s of
        Inl e \<Rightarrow> Inl e
      | Inr ch \<Rightarrow> collect (service_request poolID serviceID) ch)"

definition GetServiceStates :: "'s Conn \<Rightarrow> string \<Rightarrow> string \<Rightarrow> 's \<Rightarrow> state_error + State list" where
  "GetServiceStates c poolID serviceID s =
     (case state_children c (service_path poolID serviceID) s of
        Inl e \<Rightarrow> Inl e
      | Inr ch \<Rightarrow>
          collect (\<lambda>stateID. case service_request poolID serviceID stateID of
                     Inl e \<Rightarrow> Inl e | Inr req \<Rightarrow> GetState c req s) ch)"

definition GetHostStateIDs :: "'s Conn \<Rightarrow> string \<Rightarrow> string \<Rightarrow> 's \<Rightarrow> state_error + StateRequest list" where
  "GetHostStateIDs c poolID hostID s =
     (case state_children c (instances_path poolID hostID) s of
        Inl e \<Rightarrow> Inl e
      | Inr ch \<Rightarrow> collect (host_request poolID hostID) ch)"

definition GetHostStates :: "'s Conn \<Rightarrow> string \<Rightarrow> string \<Rightarrow> 's \<Rightarrow> state_error + State list" where
  "GetHostStates c poolID hostID s =
     (case state_children c (instances_path poolID hostID) s of
        Inl e \<Rightarrow> Inl e
      | Inr ch \<Rightarrow>
          collect (\<lambda>stateID. case host_request poolID hostID stateID of
                     Inl e \<Rightarrow> Inl e | Inr req \<Rightarrow> GetState c req s) ch)"

subsection \<open>Creating, updating and deleting\<close>

definition create_ops :: "int \<Rightarrow> StateRequest \<Rightarrow> Node multiReq list" where
  "create_ops now req =
     [MultiCreate (hspth req) (NodeData (HostStateNode \<lparr>hs_DesiredState = SVCRun, hs_Scheduled = now\<rparr>)),
      MultiCreate (sspth req) (NodeData (ServiceStateNode zero_ServiceState)),
      MultiCreate (cspth req) (NodeData (CurrentStateNode StateStopped))]"

definition CreateState :: "int \<Rightarrow> 's Conn \<Rightarrow> StateRequest \<Rightarrow> 's \<Rightarrow> state_error option \<times> 's" where
  "CreateState now c req s =
     (case CreateIfExists c (instances_path (req_PoolID req) (req_HostID req)) DirData s of
        (e, s1) \<Rightarrow>
          (if e \<noteq> None \<and> e \<noteq> Some ErrNodeExists
           then (Some (StateError req ''create'' ''could not initialize host path''), s1)
           else (case Commit c (create_ops now req) s1 of
                   (Some _, s2) \<Rightarrow> (Some (StateError req ''create'' ''could not commit transaction''), s2)
                 | (None, s2) \<Rightarrow> (None, s2))))"

text \<open>The function given to \<^verbatim>\<open>UpdateState\<close> changes the state in place and says whether to commit.\<close>

definition update_ops :: "StateRequest \<Rightarrow> State \<Rightarrow> int \<Rightarrow> int \<Rightarrow> int \<Rightarrow> Node multiReq list" where
  "update_ops req state hsver ssver csver =
     [MultiSet (hspth req) (NodeData (HostStateNode (st_HostState state))) hsver,
      MultiSet (sspth req) (NodeData (ServiceStateNode (st_ServiceState state))) ssver,
      MultiSet (cspth req) (NodeData (CurrentStateNode (st_Status state))) csver]"

definition UpdateState ::
    "'s Conn \<Rightarrow> StateRequest \<Rightarrow> (State \<Rightarrow> bool \<times> State) \<Rightarrow> 's \<Rightarrow> state_error option \<times> 's" where
  "UpdateState c req mutate s =
     (case read_state c req ''update'' s of
        Inl e \<Rightarrow> (Some e, s)
      | Inr ((hs, hsver), (ss, ssver), (cs, csver)) \<Rightarrow>
          (case mutate (make_state req hs ss cs) of
             (False, _) \<Rightarrow> (None, s)
           | (True, state) \<Rightarrow>
               (case Commit c (update_ops req state hsver ssver csver) s of
                  (Some _, s') \<Rightarrow> (Some (StateError req ''update'' ''could not commit transaction''), s')
                | (None, s') \<Rightarrow> (None, s'))))"

definition delete_error :: "StateRequest \<Rightarrow> client_error \<Rightarrow> string \<Rightarrow> state_error" where
  "delete_error req e msg = (if e = ErrNoServer then ClientError e else StateError req ''delete'' msg)"

definition delete_if :: "bool \<Rightarrow> zpath \<Rightarrow> Node multiReq list" where
  "delete_if ok p = (if ok then [MultiDelete p] else [])"

definition DeleteState :: "'s Conn \<Rightarrow> StateRequest \<Rightarrow> 's \<Rightarrow> state_error option \<times> 's" where
  "DeleteState c req s =
     (case Coordinator.Exists c (hspth req) s of
        Inl e \<Rightarrow> (Some (delete_error req e ''could not look up host state''), s)
      | Inr hsok \<Rightarrow>
          (case Coordinator.Exists c (cspth req) s of
             Inl e \<Rightarrow> (Some (StateError req ''delete'' ''could not look up current state (status)''), s)
           | Inr csok \<Rightarrow>
               (case Coordinator.Exists c (sspth req) s of
                  Inl e \<Rightarrow> (Some (delete_error req e ''could not look up service state''), s)
                | Inr ssok \<Rightarrow>
                    (case Commit c (delete_if hsok (hspth req) @ delete_if csok (cspth req) @ delete_if ssok (sspth req)) s of
                       (Some e, s') \<Rightarrow> (Some (delete_error req e ''could not commit transaction''), s')
                     | (None, s') \<Rightarrow> (None, s')))))"

subsection \<open>Deleting many\<close>

fun delete_states :: "'s Conn \<Rightarrow> (string \<Rightarrow> state_error + StateRequest) \<Rightarrow> (StateRequest \<Rightarrow> 's \<Rightarrow> bool) \<Rightarrow> string list \<Rightarrow> 's \<Rightarrow> nat \<times> 's" where
  "delete_states c parse when [] s = (0, s)"
| "delete_states c parse when (stateID # ch) s =
     (case parse stateID of
        Inl _ \<Rightarrow> delete_states c parse when ch s
      | Inr req \<Rightarrow>
          (if when req s
           then (case DeleteState c req s of
                   (Some _, s') \<Rightarrow> delete_states c parse when ch s'
                 | (None, s') \<Rightarrow> (case delete_states c parse when ch s' of (n, s'') \<Rightarrow> (Suc n, s'')))
           else delete_states c parse when ch s))"

definition DeleteServiceStates :: "'s Conn \<Rightarrow> string \<Rightarrow> string \<Rightarrow> 's \<Rightarrow> nat \<times> 's" where
  "DeleteServiceStates c poolID serviceID s =
     (case state_children c (service_path poolID serviceID) s of
        Inl _ \<Rightarrow> (0, s)
      | Inr ch \<Rightarrow> delete_states c (service_request poolID serviceID) (\<lambda>_ _. True) ch s)"

definition DeleteHostStates :: "'s Conn \<Rightarrow> string \<Rightarrow> string \<Rightarrow> 's \<Rightarrow> nat \<times> 's" where
  "DeleteHostStates c poolID hostID s =
     (case state_children c (instances_path poolID hostID) s of
        Inl _ \<Rightarrow> (0, s)
      | Inr ch \<Rightarrow> delete_states c (host_request poolID hostID) (\<lambda>_ _. True) ch s)"

definition DeleteHostStatesWhen :: "'s Conn \<Rightarrow> string \<Rightarrow> string \<Rightarrow> (State \<Rightarrow> bool) \<Rightarrow> 's \<Rightarrow> nat \<times> 's" where
  "DeleteHostStatesWhen c poolID hostID when s =
     (case state_children c (instances_path poolID hostID) s of
        Inl _ \<Rightarrow> (0, s)
      | Inr ch \<Rightarrow>
          delete_states c (host_request poolID hostID)
            (\<lambda>req s'. case GetState c req s' of Inl _ \<Rightarrow> False | Inr state \<Rightarrow> when state) ch s)"

subsection \<open>Validity and cleaning\<close>

definition IsValidState :: "'s Conn \<Rightarrow> StateRequest \<Rightarrow> 's \<Rightarrow> state_error + bool" where
  "IsValidState c req s =
     (case Coordinator.Exists c (hspth req) s of
        Inl _ \<Rightarrow> Inl (StateError req ''exists'' ''could not look up host state'')
      | Inr False \<Rightarrow> Inr False
      | Inr True \<Rightarrow>
          (case Coordinator.Exists c (sspth req) s of
             Inl _ \<Rightarrow> Inl (StateError req ''exists'' ''could not look up service state'')
           | Inr False \<Rightarrow> Inr False
           | Inr True \<Rightarrow>
               (case Coordinator.Exists c (cspth req) s of
                  Inl _ \<Rightarrow> Inl (StateError req ''exists'' ''could not look up current state (status)'')
                | Inr ok \<Rightarrow> Inr ok)))"

fun clean_states :: "'s Conn \<Rightarrow> zpath \<Rightarrow> (string \<Rightarrow> state_error + StateRequest) \<Rightarrow> string list \<Rightarrow> 's \<Rightarrow> state_error option \<times> 's" where
  "clean_states c p parse [] s = (None, s)"
| "clean_states c p parse (stateID # ch) s =
     (case parse stateID of
        Inl _ \<Rightarrow>
          (case Coordinator.Delete c (p @ [stateID]) s of
             (e, s') \<Rightarrow>
               (if e \<noteq> None \<and> e \<noteq> Some ErrNoNode then (map_option ClientError e, s')
                else clean_states c p parse ch s'))
      | Inr req \<Rightarrow>
          (case IsValidState c req s of
             Inl e \<Rightarrow> (Some e, s)
           | Inr True \<Rightarrow> clean_states c p parse ch s
           | Inr False \<Rightarrow>
               (case DeleteState c req s of
                  (Some e, s') \<Rightarrow> (Some e, s')
                | (None, s') \<Rightarrow> clean_states c p parse ch s')))"

definition CleanHostStates :: "'s Conn \<Rightarrow> string \<Rightarrow> string \<Rightarrow> 's \<Rightarrow> state_error option \<times> 's" where
  "CleanHostStates c poolID hostID s =
     (case state_children c (instances_path poolID hostID) s of
        Inl e \<Rightarrow> (Some e, s)
      | Inr ch \<Rightarrow> clean_states c (instances_path poolID hostID) (host_request poolID hostID) ch s)"

definition CleanServiceStates :: "'s Conn \<Rightarrow> string \<Rightarrow> string \<Rightarrow> 's \<Rightarrow> state_error option \<times> 's" where
  "CleanServiceStates c poolID serviceID s =
     (case state_children c (service_path poolID serviceID) s of
        Inl e \<Rightarrow> (Some e, s)
      | Inr ch \<Rightarrow> clean_states c (service_path poolID serviceID) (service_request poolID serviceID) ch s)"

subsection \<open>Monitoring\<close>

text \<open>
  One look at the three nodes: a missing node reads as its zero value. \<open>MonitorState\<close>
  looks again whenever a watch fires; the states of the server at those moments are a list,
  at whose end the caller cancels.
\<close>

definition watch :: "(Node data \<Rightarrow> 'a) \<Rightarrow> 'a \<Rightarrow> 's Conn \<Rightarrow> zpath \<Rightarrow> 's \<Rightarrow> client_error + ('a \<times> bool)" where
  "watch decode zero c p s =
     (case get_as decode c p s of
        Inl e \<Rightarrow> if e = ErrNoNode then Inr (zero, False) else Inl e
      | Inr (x, _) \<Rightarrow> Inr (x, True))"

definition look :: "'s Conn \<Rightarrow> StateRequest \<Rightarrow> 's \<Rightarrow> state_error + (State \<times> bool)" where
  "look c req s =
     (case watch as_HostState zero_HostState c (hspth req) s of
        Inl _ \<Rightarrow> Inl (StateError req ''watch'' ''could not watch host state'')
      | Inr (hs, hsok) \<Rightarrow>
          (case watch as_ServiceState zero_ServiceState c (sspth req) s of
             Inl _ \<Rightarrow> Inl (StateError req ''watch'' ''could not watch service state'')
           | Inr (ss, ssok) \<Rightarrow>
               (case watch as_Status '''' c (cspth req) s of
                  Inl _ \<Rightarrow> Inl (StateError req ''watch'' ''could not watch service status'')
                | Inr (cs, csok) \<Rightarrow>
                    (if hsok \<noteq> ssok \<or> ssok \<noteq> csok then Inl (StateError req ''watch'' ''incongruent state'')
                     else Inr (make_state req hs ss cs, hsok \<and> ssok \<and> csok)))))"

fun MonitorState :: "'s Conn \<Rightarrow> StateRequest \<Rightarrow> (State \<Rightarrow> bool \<Rightarrow> bool) \<Rightarrow> 's list \<Rightarrow> state_error + State option" where
  "MonitorState c req check [] = Inr None"
| "MonitorState c req check (s # later) =
     (case look c req s of
        Inl e \<Rightarrow> Inl e
      | Inr (state, exists) \<Rightarrow>
          (if check state exists then Inr (Some state)
           else if \<not> exists then Inl (StateError req ''watch'' ''state does not exist'')
           else MonitorState c req check later))"

subsection \<open>Instance names\<close>

definition plain :: "string \<Rightarrow> bool" where
  "plain x \<longleftrightarrow> CHR ''-'' \<notin> set x"

definition wf_req :: "StateRequest \<Rightarrow> bool" where
  "wf_req req \<longleftrightarrow> plain (req_HostID req) \<and> plain (req_ServiceID req) \<and> in_int64 (req_InstanceID req)"

lemma Parse_StateID:
  assumes "CHR ''-'' \<notin> set h" and "CHR ''-'' \<notin> set v" and "in_int64 i"
  shows "ParseStateID (h @ ''-'' @ v @ ''-'' @ show_int i) = Inr (h, v, i)"
  using assms SplitN_append [of "CHR ''-''" h "v @ ''-'' @ show_int i" 1]
    SplitN_append [of "CHR ''-''" v "show_int i" 0]
  by (simp add: ParseStateID_def numeral_3_eq_3 Atoi_show_int)

lemma Parse_StateID_req:
  "wf_req req \<Longrightarrow> ParseStateID (StateID req) = Inr (req_HostID req, req_ServiceID req, req_InstanceID req)"
  using Parse_StateID [of "req_HostID req" "req_ServiceID req" "req_InstanceID req"]
  by (simp add: StateID_def wf_req_def plain_def)

lemma ParseStateID_parts:
  assumes "ParseStateID x = Inr (h, v, i)"
  shows "CHR ''-'' \<notin> set h \<and> CHR ''-'' \<notin> set v \<and> in_int64 i \<and> (\<exists>d. Atoi d = Some i \<and> x = h @ ''-'' @ v @ ''-'' @ d)"
proof -
  obtain d where "SplitN x (CHR ''-'') 3 = [h, v, d]" "Atoi d = Some i"
    using assms by (auto simp: ParseStateID_def split: list.splits option.splits)
  then show ?thesis using SplitN_3 [of x "CHR ''-''" h v d] Atoi_range by auto
qed

text \<open>
  The name of an instance can be read back: parsing the state id of a request gives its
  host, service and instance, provided that neither id has a dash. Conversely, whatever
  parses names such an instance, and formatting what was parsed gives a name that parses to
  the same.
\<close>

theorem StateID_roundtrip:
  assumes "CHR ''-'' \<notin> set (req_HostID req)" and "CHR ''-'' \<notin> set (req_ServiceID req)"
    and "in_int64 (req_InstanceID req)"
  shows "ParseStateID (StateID req) = Inr (req_HostID req, req_ServiceID req, req_InstanceID req)
    \<and> (\<forall>x h v i. ParseStateID x = Inr (h, v, i) \<longrightarrow>
         ParseStateID (StateID \<lparr>req_PoolID = p, req_HostID = h, req_ServiceID = v, req_InstanceID = i\<rparr>) = Inr (h, v, i))"
  using assms Parse_StateID ParseStateID_parts by (auto simp: StateID_def)

theorem StateID_roundtrip_witness:
  "StateID \<lparr>req_PoolID = ''p'', req_HostID = ''a1'', req_ServiceID = ''s'', req_InstanceID = 12\<rparr> = ''a1-s-12''
   \<and> ParseStateID ''a1-s-12'' = Inr (''a1'', ''s'', 12)"
proof -
  let ?req = "\<lparr>req_PoolID = ''p'', req_HostID = ''a1'', req_ServiceID = ''s'', req_InstanceID = 12\<rparr>"
  have id: "StateID ?req = ''a1-s-12''" by code_simp
  have "ParseStateID (StateID ?req) = Inr (''a1'', ''s'', 12)"
    using StateID_roundtrip [of ?req] by (simp add: in_int64_def)
  with id show ?thesis by simp
qed

lemma StateID_inj:
  assumes "wf_req a" and "wf_req b" and "StateID a = StateID b" and "req_PoolID a = req_PoolID b"
  shows "a = b"
proof -
  have "Inr (req_HostID a, req_ServiceID a, req_InstanceID a) = (Inr (req_HostID b, req_ServiceID b, req_InstanceID b) :: state_error + _)"
    using Parse_StateID_req [OF assms(1)] Parse_StateID_req [OF assms(2)] assms(3) by simp
  then show ?thesis using assms(4) by (cases a, cases b) simp
qed

lemma StateID_nonempty [simp]: "StateID req \<noteq> ''''"
  by (simp add: StateID_def)

lemma Join_simps [simp]: "Join [] = []" "Join (x # xs) = (if x = '''' then Join xs else x # Join xs)"
  "Join (xs @ ys) = Join xs @ Join ys"
  by (simp_all add: Join_def)

lemma Join_pool_base [simp]: "Join (pool_base p) = pool_base p"
  by (simp add: pool_base_def)

lemma StateID_dash: "CHR ''-'' \<in> set (StateID req)"
  by (simp add: StateID_def)

lemma StateID_names [simp]: "StateID req \<noteq> ''current''" "StateID req \<noteq> ''instances''" "''current'' \<noteq> StateID req"
  "''instances'' \<noteq> StateID req"
proof -
  show "StateID req \<noteq> ''current''" "StateID req \<noteq> ''instances''" using StateID_dash [of req] by auto
  then show "''current'' \<noteq> StateID req" "''instances'' \<noteq> StateID req" by metis+
qed

lemma plain_StateID [simp]: "plain x \<Longrightarrow> x \<noteq> StateID req" "plain x \<Longrightarrow> StateID req \<noteq> x"
  using StateID_dash [of req] by (auto simp: plain_def)

lemmas path_defs = hspth_def sspth_def cspth_def instances_path_def service_path_def

lemma paths_nonempty [simp]: "hspth req \<noteq> []" "sspth req \<noteq> []" "cspth req \<noteq> []"
  "instances_path p h \<noteq> []" "service_path p v \<noteq> []"
  by (simp_all add: path_defs)

text \<open>The nodes of different instances of a pool are different nodes.\<close>

lemma paths_distinct:
  assumes "wf_req a" and "wf_req b" and "req_PoolID a = req_PoolID b"
  shows "hspth a \<noteq> sspth b" "hspth a \<noteq> cspth b" "sspth a \<noteq> hspth b" "cspth a \<noteq> hspth b"
    "sspth a \<noteq> cspth b" "cspth a \<noteq> sspth b"
    and "hspth a = hspth b \<longleftrightarrow> a = b" "sspth a = sspth b \<longleftrightarrow> a = b" "cspth a = cspth b \<longleftrightarrow> a = b"
  using assms StateID_inj [OF assms(1,2) _ assms(3)] by (auto simp: path_defs wf_req_def split: if_splits)

lemma instances_distinct:
  assumes "wf_req a" and "wf_req b" and "req_PoolID a = req_PoolID b"
  shows "instances_path (req_PoolID a) (req_HostID a) \<noteq> hspth b" "instances_path (req_PoolID a) (req_HostID a) \<noteq> sspth b"
    "instances_path (req_PoolID a) (req_HostID a) \<noteq> cspth b"
  using assms by (auto simp: path_defs wf_req_def split: if_splits)

subsection \<open>The three nodes of an instance\<close>

type_synonym nodes = "Node ztree"

definition with_state :: "nodes \<Rightarrow> StateRequest \<Rightarrow> (Node data \<times> int) option \<Rightarrow> (Node data \<times> int) option \<Rightarrow>
    (Node data \<times> int) option \<Rightarrow> nodes" where
  "with_state t req hs ss cs = t(hspth req := hs, sspth req := ss, cspth req := cs)"

lemma self_distinct:
  assumes "wf_req req"
  shows "hspth req \<noteq> sspth req" "hspth req \<noteq> cspth req" "sspth req \<noteq> hspth req" "cspth req \<noteq> hspth req"
    "sspth req \<noteq> cspth req" "cspth req \<noteq> sspth req"
  using paths_distinct [OF assms assms] by simp_all

lemma with_state_same:
  assumes "wf_req req"
  shows "with_state t req hs ss cs (hspth req) = hs" "with_state t req hs ss cs (sspth req) = ss"
    "with_state t req hs ss cs (cspth req) = cs"
  using self_distinct [OF assms] by (simp_all add: with_state_def)

lemma with_state_other:
  assumes "wf_req req" "wf_req a" "req_PoolID a = req_PoolID req" "a \<noteq> req"
  shows "with_state t req hs ss cs (hspth a) = t (hspth a)" "with_state t req hs ss cs (sspth a) = t (sspth a)"
    "with_state t req hs ss cs (cspth a) = t (cspth a)"
  using paths_distinct [OF assms(2,1,3)] assms(4) by (simp_all add: with_state_def)

definition fresh_state :: "int \<Rightarrow> StateRequest \<Rightarrow> nodes \<Rightarrow> nodes" where
  "fresh_state now req t =
     with_state t req (Some (NodeData (HostStateNode \<lparr>hs_DesiredState = SVCRun, hs_Scheduled = now\<rparr>), 0))
       (Some (NodeData (ServiceStateNode zero_ServiceState), 0)) (Some (NodeData (CurrentStateNode StateStopped), 0))"

lemma butlast_paths: "butlast (hspth req) = instances_path (req_PoolID req) (req_HostID req)"
  "butlast (sspth req) = service_path (req_PoolID req) (req_ServiceID req)" "butlast (cspth req) = sspth req"
  by (simp_all add: hspth_def sspth_def cspth_def butlast_append)

lemma create_commit:
  assumes "wf_req req"
  shows "commit_tree (create_ops now req) t =
    (if t (hspth req) = None \<and> t (sspth req) = None \<and> t (cspth req) = None
        \<and> t (instances_path (req_PoolID req) (req_HostID req)) \<noteq> None
        \<and> (t(hspth req \<mapsto> undefined)) (service_path (req_PoolID req) (req_ServiceID req)) \<noteq> None
     then Some (fresh_state now req t) else None)"
  using self_distinct [OF assms]
  by (auto simp: commit_tree_def create_ops_def fresh_state_def with_state_def butlast_paths)

definition written_state :: "StateRequest \<Rightarrow> State \<Rightarrow> int \<Rightarrow> int \<Rightarrow> int \<Rightarrow> nodes \<Rightarrow> nodes" where
  "written_state req st hv sv cv t =
     with_state t req (Some (NodeData (HostStateNode (st_HostState st)), hv + 1))
       (Some (NodeData (ServiceStateNode (st_ServiceState st)), sv + 1)) (Some (NodeData (CurrentStateNode (st_Status st)), cv + 1))"

lemma update_commit:
  assumes "wf_req req"
  shows "commit_tree (update_ops req st hv sv cv) t =
    (if (\<exists>d. t (hspth req) = Some (d, hv)) \<and> (\<exists>d. t (sspth req) = Some (d, sv)) \<and> (\<exists>d. t (cspth req) = Some (d, cv))
     then Some (written_state req st hv sv cv t) else None)"
  using self_distinct [OF assms]
  by (auto simp: commit_tree_def update_ops_def written_state_def with_state_def split: option.splits)

lemma commit_deletes:
  assumes "resolve t (map MultiDelete ps) = Some zops" and "tree_ops zops u = Some t'"
  shows "t' = (\<lambda>q. if q \<in> set ps then None else u q)"
  using assms
proof (induction ps arbitrary: zops u)
  case (Cons p ps)
  then obtain v rest where zops: "zops = ZDelete p v # rest" "resolve t (map MultiDelete ps) = Some rest"
    by (auto split: option.splits)
  then have "tree_ops rest (u(p := None)) = Some t'"
    using Cons.prems(2) by (auto simp: bind_eq_Some_conv split: option.splits if_splits)
  from Cons.IH [OF zops(2) this] show ?case by (auto simp: fun_eq_iff)
qed simp

lemma delete_commit:
  assumes "wf_req req" and "hsok \<longleftrightarrow> t (hspth req) \<noteq> None" "csok \<longleftrightarrow> t (cspth req) \<noteq> None" "ssok \<longleftrightarrow> t (sspth req) \<noteq> None"
    and "commit_tree (delete_if hsok (hspth req) @ delete_if csok (cspth req) @ delete_if ssok (sspth req)) t = Some t'"
  shows "t' = with_state t req None None None"
proof -
  let ?ps = "(if hsok then [hspth req] else []) @ (if csok then [cspth req] else []) @ (if ssok then [sspth req] else [])"
  have "delete_if hsok (hspth req) @ delete_if csok (cspth req) @ delete_if ssok (sspth req) = map MultiDelete ?ps"
    by (simp add: delete_if_def)
  then obtain zops where "resolve t (map MultiDelete ?ps) = Some zops" "tree_ops zops t = Some t'"
    using assms(5) by (auto simp: commit_tree_def bind_eq_Some_conv)
  from commit_deletes [OF this] have "t' q = (if q \<in> set ?ps then None else t q)" for q by simp
  then show ?thesis
    using assms(2-4) by (intro ext) (auto simp: with_state_def)
qed

definition congruent :: "nodes \<Rightarrow> StateRequest \<Rightarrow> bool" where
  "congruent t req \<longleftrightarrow>
     (t (hspth req) = None \<longleftrightarrow> t (sspth req) = None) \<and> (t (sspth req) = None \<longleftrightarrow> t (cspth req) = None)"

definition scheduled :: "nodes \<Rightarrow> StateRequest \<Rightarrow> bool" where
  "scheduled t req \<longleftrightarrow> t (hspth req) \<noteq> None \<and> t (sspth req) \<noteq> None \<and> t (cspth req) \<noteq> None"

text \<open>Two trees that differ at most in the nodes of one instance and in its host's directory.\<close>

definition touches :: "StateRequest \<Rightarrow> nodes \<Rightarrow> nodes \<Rightarrow> bool" where
  "touches req t t' \<longleftrightarrow>
     (\<forall>q. q \<notin> {hspth req, sspth req, cspth req, instances_path (req_PoolID req) (req_HostID req)} \<longrightarrow> t' q = t q)"

lemma touches_with_state [simp]: "touches req t (with_state t req hs ss cs)"
  by (simp add: touches_def with_state_def)

lemma touches_refl [simp]: "touches req t t"
  by (simp add: touches_def)

lemma touches_trans: "touches req t t' \<Longrightarrow> touches req t' t'' \<Longrightarrow> touches req t t''"
  by (simp add: touches_def)

lemma touches_other:
  assumes "touches req t t'" "wf_req req" "wf_req a" "req_PoolID a = req_PoolID req" "a \<noteq> req"
  shows "t' (hspth a) = t (hspth a)" "t' (sspth a) = t (sspth a)" "t' (cspth a) = t (cspth a)"
  using assms paths_distinct [OF assms(3,2,4)] instances_distinct [OF assms(2,3) assms(4) [symmetric]]
  by (auto simp: touches_def)

lemma congruent_other:
  "touches req t t' \<Longrightarrow> wf_req req \<Longrightarrow> wf_req a \<Longrightarrow> req_PoolID a = req_PoolID req \<Longrightarrow> a \<noteq> req \<Longrightarrow>
     congruent t' a \<longleftrightarrow> congruent t a"
  using touches_other [of req t t' a] by (simp add: congruent_def)

text \<open>The state that the three nodes hold.\<close>

definition state_of :: "nodes \<Rightarrow> StateRequest \<Rightarrow> State option" where
  "state_of t req =
     (case (t (hspth req), t (sspth req), t (cspth req)) of
        (Some (h, _), Some (x, _), Some (y, _)) \<Rightarrow> Some (make_state req (as_HostState h) (as_ServiceState x) (as_Status y))
      | _ \<Rightarrow> None)"

lemma state_of_scheduled: "state_of t req \<noteq> None \<longleftrightarrow> scheduled t req"
  by (auto simp: state_of_def scheduled_def split: option.splits)

lemma as_simps [simp]: "as_HostState (NodeData (HostStateNode h)) = h"
  "as_ServiceState (NodeData (ServiceStateNode x)) = x" "as_Status (NodeData (CurrentStateNode y)) = y"
  by (simp_all add: as_HostState_def as_ServiceState_def as_Status_def)

definition set_nodes :: "StateRequest \<Rightarrow> State \<Rightarrow> State" where
  "set_nodes req st = make_state req (st_HostState st) (st_ServiceState st) (st_Status st)"

lemma state_of_written: "wf_req req \<Longrightarrow> state_of (written_state req st hv sv cv t) req = Some (set_nodes req st)"
  by (simp add: state_of_def written_state_def with_state_same set_nodes_def)

lemma state_of_fresh:
  "wf_req req \<Longrightarrow> state_of (fresh_state now req t) req =
     Some (make_state req \<lparr>hs_DesiredState = SVCRun, hs_Scheduled = now\<rparr> zero_ServiceState StateStopped)"
  by (simp add: state_of_def fresh_state_def with_state_same)

locale state_connection = connection z tree c
  for z :: "(Node, 's) Zk" and tree :: "'s \<Rightarrow> nodes" and c :: "'s Conn"
begin

lemma commit_paths: "\<forall>r \<in> set (create_ops now req). req_path r \<noteq> []"
  "\<forall>r \<in> set (update_ops req st hv sv cv). req_path r \<noteq> []"
  "\<forall>r \<in> set (delete_if a (hspth req) @ delete_if b (cspth req) @ delete_if d (sspth req)). req_path r \<noteq> []"
  by (auto simp: create_ops_def update_ops_def delete_if_def req_path_def)

lemma CreateState_effect:
  assumes "CreateState now c req s = (e, s')" and "wf_req req"
  obtains t1 where "\<forall>q. q \<noteq> instances_path (req_PoolID req) (req_HostID req) \<longrightarrow> t1 q = seen s q"
    and "(seen s' = fresh_state now req t1 \<and> \<not> scheduled (seen s) req) \<or> (e \<noteq> None \<and> seen s' = t1)"
proof -
  let ?dir = "instances_path (req_PoolID req) (req_HostID req)"
  obtain e1 s1 where dir: "CreateIfExists c ?dir DirData s = (e1, s1)"
    by (cases "CreateIfExists c ?dir DirData s")
  have t1: "\<forall>q. q \<noteq> ?dir \<longrightarrow> seen s1 q = seen s q"
    using CreateIfExists_performs [OF dir]
    by (auto simp: performs_def bind_eq_Some_conv split: if_splits) (metis fun_upd_other)
  have "(seen s' = fresh_state now req (seen s1) \<and> \<not> scheduled (seen s) req) \<or> (e \<noteq> None \<and> seen s' = seen s1)"
  proof (cases "e1 \<noteq> None \<and> e1 \<noteq> Some ErrNodeExists")
    case True
    then show ?thesis using assms(1) dir by (auto simp: CreateState_def)
  next
    case False
    obtain e2 where commit: "Commit c (create_ops now req) s1 = (e2, s')" "e = None \<longleftrightarrow> e2 = None"
      using assms(1) dir False by (auto simp: CreateState_def split: prod.splits option.splits)
    have "seen s (hspth req) = seen s1 (hspth req)"
      using t1 instances_distinct(1) [OF assms(2) assms(2)] by simp
    then show ?thesis
      using Commit_tree [OF commit(1) commit_paths(1)] create_commit [OF assms(2), of now "seen s1"] commit(2)
      by (auto simp: scheduled_def split: if_splits)
  qed
  with t1 show thesis using that by blast
qed

lemma get_as_seen:
  "get_as f c p s = Inr (x, v) \<Longrightarrow> \<exists>d. seen s p = Some (d, v) \<and> x = f d \<and> d \<noteq> EmptyData \<and> d \<noteq> Garbled"
  using Get_seen [of p s] by (auto simp: get_as_def split: prod.splits option.splits)

lemma read_state_seen:
  assumes "read_state c req op s = Inr ((hs, hv), (ss, sv), (cs, cv))"
  shows "state_of (seen s) req = Some (make_state req hs ss cs)"
proof -
  have reads: "get_as as_HostState c (hspth req) s = Inr (hs, hv)" "get_as as_ServiceState c (sspth req) s = Inr (ss, sv)"
    "get_as as_Status c (cspth req) s = Inr (cs, cv)"
    using assms by (auto simp: read_state_def split: sum.splits)
  from reads [THEN get_as_seen] show ?thesis by (auto simp: state_of_def)
qed

lemma GetState_seen: "GetState c req s = Inr st \<Longrightarrow> state_of (seen s) req = Some st"
  using read_state_seen by (auto simp: GetState_def split: sum.splits)

text \<open>An update changes nothing, or writes the changed state into all three nodes.\<close>

lemma UpdateState_effect:
  assumes "UpdateState c req mutate s = (e, s')" and "wf_req req"
  shows "seen s' = seen s \<and> (e = None \<longrightarrow> (\<exists>st. state_of (seen s) req = Some st \<and> \<not> fst (mutate st)))
    \<or> (\<exists>st st' hv sv cv. state_of (seen s) req = Some st \<and> mutate st = (True, st')
        \<and> seen s' = written_state req st' hv sv cv (seen s))"
proof (cases "read_state c req ''update'' s")
  case (Inr r)
  obtain hs hv ss sv cs cv where r: "r = ((hs, hv), (ss, sv), (cs, cv))" by (metis prod.collapse)
  note read = read_state_seen [OF Inr [unfolded r]]
  obtain ok st where m: "mutate (make_state req hs ss cs) = (ok, st)" by (cases "mutate (make_state req hs ss cs)")
  show ?thesis
  proof (cases ok)
    case True
    obtain e2 where commit: "Commit c (update_ops req st hv sv cv) s = (e2, s')" "e = None \<longleftrightarrow> e2 = None"
      using assms(1) Inr r m True by (auto simp: UpdateState_def split: prod.splits option.splits)
    have "seen s' = written_state req st hv sv cv (seen s) \<or> (e \<noteq> None \<and> seen s' = seen s)"
      using Commit_tree [OF commit(1) commit_paths(2)] commit(2) update_commit [OF assms(2), of st hv sv cv "seen s"]
      by (auto split: if_splits)
    then show ?thesis using read m True by auto
  next
    case False
    then have "s' = s" using assms(1) Inr r m by (simp add: UpdateState_def)
    then show ?thesis using read m False by auto
  qed
qed (use assms(1) in \<open>auto simp: UpdateState_def\<close>)

lemma DeleteState_effect:
  assumes "DeleteState c req s = (e, s')" and "wf_req req"
  shows "seen s' = with_state (seen s) req None None None \<or> (e \<noteq> None \<and> seen s' = seen s)"
proof (cases "Coordinator.Exists c (hspth req) s")
  case hs: (Inr hsok)
  show ?thesis
  proof (cases "Coordinator.Exists c (cspth req) s")
    case cs: (Inr csok)
    show ?thesis
    proof (cases "Coordinator.Exists c (sspth req) s")
      case ss: (Inr ssok)
      obtain e2 where commit: "Commit c (delete_if hsok (hspth req) @ delete_if csok (cspth req) @ delete_if ssok (sspth req)) s = (e2, s')"
          "e = None \<longleftrightarrow> e2 = None"
        using assms(1) hs cs ss by (auto simp: DeleteState_def split: prod.splits option.splits)
      from Commit_tree [OF commit(1) commit_paths(3)] show ?thesis
        using delete_commit [OF assms(2) Exists_seen [OF hs] Exists_seen [OF cs] Exists_seen [OF ss]] commit(2) by auto
    qed (use assms(1) hs cs in \<open>auto simp: DeleteState_def\<close>)
  qed (use assms(1) hs in \<open>auto simp: DeleteState_def\<close>)
qed (use assms(1) in \<open>auto simp: DeleteState_def\<close>)

lemma IsValidState_seen: "IsValidState c req s = Inr b \<Longrightarrow> b \<longleftrightarrow> scheduled (seen s) req"
  using Exists_seen [of "hspth req" s] Exists_seen [of "sspth req" s] Exists_seen [of "cspth req" s]
  by (auto simp: IsValidState_def scheduled_def split: sum.splits bool.splits)

end

subsection \<open>What the operations promise\<close>

text \<open>
  The table of instances of a pool: the abstract state that the operations work on.
\<close>

definition table :: "string \<Rightarrow> nodes \<Rightarrow> StateRequest \<Rightarrow> State option" where
  "table pool t req = (if wf_req req \<and> req_PoolID req = pool then state_of t req else None)"

lemma state_of_other:
  "touches req t t' \<Longrightarrow> wf_req req \<Longrightarrow> wf_req a \<Longrightarrow> req_PoolID a = req_PoolID req \<Longrightarrow> a \<noteq> req \<Longrightarrow>
     state_of t' a = state_of t a"
  using touches_other [of req t t' a] by (simp add: state_of_def)

lemma table_touches:
  assumes "touches req t t'" and "wf_req req"
  shows "table (req_PoolID req) t' = (table (req_PoolID req) t)(req := state_of t' req)"
  using assms state_of_other [OF assms] by (auto simp: table_def fun_eq_iff)

lemma dir_touches:
  assumes "\<forall>q. q \<noteq> instances_path (req_PoolID req) (req_HostID req) \<longrightarrow> t1 q = t q" and "wf_req req"
  shows "touches req t t1" and "table (req_PoolID req) t1 = table (req_PoolID req) t"
    and "wf_req a \<Longrightarrow> req_PoolID a = req_PoolID req \<Longrightarrow> congruent t1 a \<longleftrightarrow> congruent t a"
proof -
  show touch: "touches req t t1" using assms(1) by (simp add: touches_def)
  have same: "t1 (hspth a) = t (hspth a) \<and> t1 (sspth a) = t (sspth a) \<and> t1 (cspth a) = t (cspth a)"
    if "wf_req a" "req_PoolID a = req_PoolID req" for a
    using assms instances_distinct [OF assms(2) that(1)] that(2) by simp
  then show "table (req_PoolID req) t1 = table (req_PoolID req) t"
    by (auto simp: table_def state_of_def fun_eq_iff)
  show "wf_req a \<Longrightarrow> req_PoolID a = req_PoolID req \<Longrightarrow> congruent t1 a \<longleftrightarrow> congruent t a"
    using same by (simp add: congruent_def)
qed

lemma touches_states [simp]: "touches req t (fresh_state now req t)" "touches req t (written_state req st hv sv cv t)"
  by (simp_all add: fresh_state_def written_state_def)

definition started_state :: "int \<Rightarrow> StateRequest \<Rightarrow> State" where
  "started_state now req =
     make_state req \<lparr>hs_DesiredState = SVCRun, hs_Scheduled = now\<rparr> zero_ServiceState StateStopped"

text \<open>
  The operations of a table. An operation that fails may still have taken effect.
\<close>

definition table_create :: "int \<Rightarrow> StateRequest \<Rightarrow> 'e option \<Rightarrow> (StateRequest \<Rightarrow> State option) \<Rightarrow> (StateRequest \<Rightarrow> State option) \<Rightarrow> bool" where
  "table_create now req e T T' \<longleftrightarrow>
     (T req = None \<and> T' = T(req \<mapsto> started_state now req)) \<or> (e \<noteq> None \<and> T' = T)"

definition table_update :: "(State \<Rightarrow> bool \<times> State) \<Rightarrow> StateRequest \<Rightarrow> 'e option \<Rightarrow> (StateRequest \<Rightarrow> State option) \<Rightarrow> (StateRequest \<Rightarrow> State option) \<Rightarrow> bool" where
  "table_update mutate req e T T' \<longleftrightarrow>
     (\<exists>st. T req = Some st \<and> fst (mutate st) \<and> T' = T(req \<mapsto> set_nodes req (snd (mutate st))))
     \<or> (T' = T \<and> (e = None \<longrightarrow> (\<exists>st. T req = Some st \<and> \<not> fst (mutate st))))"

definition table_delete :: "StateRequest \<Rightarrow> 'e option \<Rightarrow> (StateRequest \<Rightarrow> State option) \<Rightarrow> (StateRequest \<Rightarrow> State option) \<Rightarrow> bool" where
  "table_delete req e T T' \<longleftrightarrow> T' = T(req := None) \<or> (e \<noteq> None \<and> T' = T)"

lemma table_req: "wf_req req \<Longrightarrow> table (req_PoolID req) t req = state_of t req"
  by (simp add: table_def)

lemma table_states:
  assumes "wf_req req"
  shows "table (req_PoolID req) (fresh_state now req t) = (table (req_PoolID req) t)(req \<mapsto> started_state now req)"
    and "table (req_PoolID req) (written_state req st hv sv cv t) = (table (req_PoolID req) t)(req \<mapsto> set_nodes req st)"
    and "table (req_PoolID req) (with_state t req None None None) = (table (req_PoolID req) t)(req := None)"
  using table_touches [OF touches_states(1) assms] table_touches [OF touches_states(2) assms]
    table_touches [OF touches_with_state assms] state_of_fresh [OF assms] state_of_written [OF assms]
  by (simp_all add: started_state_def state_of_def with_state_same [OF assms])

context state_connection
begin

lemma CreateState_table:
  assumes "CreateState now c req s = (e, s')" and "wf_req req"
  shows "table_create now req e (table (req_PoolID req) (seen s)) (table (req_PoolID req) (seen s'))"
proof -
  obtain t1 where t1: "\<forall>q. q \<noteq> instances_path (req_PoolID req) (req_HostID req) \<longrightarrow> t1 q = seen s q"
    "(seen s' = fresh_state now req t1 \<and> \<not> scheduled (seen s) req) \<or> (e \<noteq> None \<and> seen s' = t1)"
    using CreateState_effect [OF assms] by blast
  have "state_of (seen s) req = None" if "\<not> scheduled (seen s) req"
    using that state_of_scheduled [of "seen s" req] by auto
  then show ?thesis
    using t1(2) table_states(1) [OF assms(2), of now t1] dir_touches(2) [OF t1(1) assms(2)]
    by (auto simp: table_create_def table_req [OF assms(2)])
qed

lemma UpdateState_table:
  assumes "UpdateState c req mutate s = (e, s')" and "wf_req req"
  shows "table_update mutate req e (table (req_PoolID req) (seen s)) (table (req_PoolID req) (seen s'))"
  using UpdateState_effect [OF assms]
proof (elim disjE exE conjE)
  fix st st' hv sv cv
  assume st: "state_of (seen s) req = Some st" "mutate st = (True, st')" "seen s' = written_state req st' hv sv cv (seen s)"
  show ?thesis
    unfolding table_update_def table_req [OF assms(2)] st(3) table_states(2) [OF assms(2)]
    using st(1,2) by (intro disjI1 exI [of _ st]) simp
qed (auto simp: table_update_def table_req [OF assms(2)])

lemma DeleteState_table:
  assumes "DeleteState c req s = (e, s')" and "wf_req req"
  shows "table_delete req e (table (req_PoolID req) (seen s)) (table (req_PoolID req) (seen s'))"
  using DeleteState_effect [OF assms] table_states(3) [OF assms(2), of "seen s"] by (auto simp: table_delete_def)

end

abbreviation pool_table :: "StateRequest \<Rightarrow> 's Conn \<Rightarrow> ('s \<Rightarrow> nodes) \<Rightarrow> 's \<Rightarrow> StateRequest \<Rightarrow> State option" where
  "pool_table req c tree s \<equiv> table (req_PoolID req) (view (c_basePath c) (tree s))"

text \<open>
  C3. Creating, updating and deleting an instance implement the operations of a table of
  instances. Without an error, creation adds an instance that was not there, in its initial
  state; an update replaces the state by the changed one, or leaves it when the change is
  declined; deletion removes it. With an error the table is as before or as if the
  operation had succeeded. No other instance of the pool is affected.
\<close>

theorem instances_refine_table:
  assumes "connection z tree c" and "wf_req req"
  shows "table_create now req (fst (CreateState now c req s)) (pool_table req c tree s) (pool_table req c tree (snd (CreateState now c req s)))
    \<and> table_update mutate req (fst (UpdateState c req mutate s)) (pool_table req c tree s) (pool_table req c tree (snd (UpdateState c req mutate s)))
    \<and> table_delete req (fst (DeleteState c req s)) (pool_table req c tree s) (pool_table req c tree (snd (DeleteState c req s)))"
proof -
  have conn: "state_connection z tree c" using assms(1) by (rule state_connection.intro)
  show ?thesis
    using state_connection.CreateState_table [OF conn prod.collapse [symmetric] assms(2)]
      state_connection.UpdateState_table [OF conn prod.collapse [symmetric] assms(2)]
      state_connection.DeleteState_table [OF conn prod.collapse [symmetric] assms(2)] by blast
qed

text \<open>Instances come and go as a whole.\<close>

definition all_congruent :: "string \<Rightarrow> nodes \<Rightarrow> bool" where
  "all_congruent pool t \<longleftrightarrow> (\<forall>req. wf_req req \<and> req_PoolID req = pool \<longrightarrow> congruent t req)"

inductive instance_step :: "'s Conn \<Rightarrow> string \<Rightarrow> 's \<Rightarrow> 's \<Rightarrow> bool" for c pool where
  create: "wf_req req \<Longrightarrow> req_PoolID req = pool \<Longrightarrow> CreateState now c req s = (e, s') \<Longrightarrow> instance_step c pool s s'"
| update: "wf_req req \<Longrightarrow> req_PoolID req = pool \<Longrightarrow> UpdateState c req mutate s = (e, s') \<Longrightarrow> instance_step c pool s s'"
| delete: "wf_req req \<Longrightarrow> req_PoolID req = pool \<Longrightarrow> DeleteState c req s = (e, s') \<Longrightarrow> instance_step c pool s s'"

lemma congruent_touches:
  assumes "all_congruent (req_PoolID req) t" and "touches req t t'" and "wf_req req" and "congruent t' req"
  shows "all_congruent (req_PoolID req) t'"
  unfolding all_congruent_def
proof (intro allI impI)
  fix a assume a: "wf_req a \<and> req_PoolID a = req_PoolID req"
  then show "congruent t' a"
    using assms congruent_other [OF assms(2,3), of a] by (cases "a = req") (auto simp: all_congruent_def)
qed

lemma congruent_states:
  assumes "wf_req req"
  shows "congruent (fresh_state now req t) req" "congruent (written_state req st hv sv cv t) req"
    "congruent (with_state t req None None None) req"
  by (simp_all add: congruent_def fresh_state_def written_state_def with_state_same [OF assms])

context state_connection
begin

lemma step_congruent:
  assumes "instance_step c pool s s'" and "all_congruent pool (seen s)"
  shows "all_congruent pool (seen s')"
  using assms
proof (induction rule: instance_step.induct)
  case (create req now s e s')
  obtain t1 where t1: "\<forall>q. q \<noteq> instances_path (req_PoolID req) (req_HostID req) \<longrightarrow> t1 q = seen s q"
    "(seen s' = fresh_state now req t1 \<and> \<not> scheduled (seen s) req) \<or> (e \<noteq> None \<and> seen s' = t1)"
    using CreateState_effect [OF create(3,1)] by blast
  have "all_congruent pool t1"
    using dir_touches(3) [OF t1(1) create(1)] create(2,4) by (auto simp: all_congruent_def)
  then show ?case
    using t1(2) congruent_touches [of req t1] touches_states(1) congruent_states(1) [OF create(1)] create(1,2) by auto
next
  case (update req mutate s e s')
  then show ?case
    using UpdateState_effect [OF update(3,1)] congruent_touches [of req "seen s"] touches_states(2)
      congruent_states(2) [OF update(1)] by auto
next
  case (delete req s e s')
  then show ?case
    using DeleteState_effect [OF delete(3,1)] congruent_touches [of req "seen s"] congruent_states(3) [OF delete(1)] by auto
qed

end

text \<open>
  C4. However instances are created, updated and deleted, with or without errors, an
  instance keeps having all three of its nodes or none of them.
\<close>

theorem instances_stay_congruent:
  assumes "connection z tree c" and "all_congruent pool (view (c_basePath c) (tree s))"
    and "(instance_step c pool)\<^sup>*\<^sup>* s s'"
  shows "all_congruent pool (view (c_basePath c) (tree s'))"
  using assms(3,2)
  by (induction rule: rtranclp_induct) (auto intro: state_connection.step_congruent [OF state_connection.intro [OF assms(1)]])

subsection \<open>Cleaning\<close>

text \<open>
  A child of a service is good if it can be parsed and, when it has the name of the
  instance it was parsed to, that instance is complete.
\<close>

definition good_child :: "string \<Rightarrow> string \<Rightarrow> nodes \<Rightarrow> string \<Rightarrow> bool" where
  "good_child pool svc t x \<longleftrightarrow>
     t (service_path pool svc @ [x]) = None
     \<or> (\<exists>req. service_request pool svc x = Inr req \<and> (x = StateID req \<longrightarrow> scheduled t req))"

lemma service_request_wf:
  assumes "service_request pool svc x = Inr req" and "plain svc"
  shows "wf_req req \<and> req_PoolID req = pool \<and> req_ServiceID req = svc"
  using assms ParseStateID_parts
  by (fastforce simp: service_request_def wf_req_def plain_def split: sum.splits)

lemma sspth_child: "req_PoolID req = pool \<Longrightarrow> req_ServiceID req = svc \<Longrightarrow> service_path pool svc @ [StateID req] = sspth req"
  by (simp add: sspth_def)

lemma parse_own: "wf_req req \<Longrightarrow> service_request (req_PoolID req) (req_ServiceID req) (StateID req) = Inr req"
  by (simp add: service_request_def Parse_StateID_req)

text \<open>Nodes below a child of a service belong to no instance of another name.\<close>

lemma child_prefix:
  assumes "svc \<noteq> ''''" and "plain svc" and "wf_req req" and "req_PoolID req = pool"
  shows "\<not> prefix (service_path pool svc @ [x]) (hspth req)"
    and "prefix (service_path pool svc @ [x]) (sspth req) \<Longrightarrow> x = StateID req \<and> req_ServiceID req = svc"
    and "prefix (service_path pool svc @ [x]) (cspth req) \<Longrightarrow> x = StateID req \<and> req_ServiceID req = svc"
  using assms by (auto simp: path_defs wf_req_def split: if_splits)

lemma unparsed_keeps:
  assumes "shrinks (service_path pool svc @ [y]) t t'" and "service_request pool svc y = Inl e"
    and "svc \<noteq> ''''" and "plain svc" and "wf_req req" and "req_PoolID req = pool"
  shows "t' (hspth req) = t (hspth req) \<and> t' (sspth req) = t (sspth req) \<and> t' (cspth req) = t (cspth req)"
proof -
  have "\<not> (y = StateID req \<and> req_ServiceID req = svc)" using assms(2,5,6) parse_own by force
  then have "\<not> prefix (service_path pool svc @ [y]) (hspth req)" "\<not> prefix (service_path pool svc @ [y]) (sspth req)"
    "\<not> prefix (service_path pool svc @ [y]) (cspth req)"
    using child_prefix [OF assms(3-6), of y] by blast+
  then show ?thesis using assms(1) unfolding shrinks_def by blast
qed

lemma state_keeps:
  assumes "t' (hspth req) = t (hspth req) \<and> t' (sspth req) = t (sspth req) \<and> t' (cspth req) = t (cspth req)"
  shows "state_of t' req = state_of t req" and "scheduled t' req \<longleftrightarrow> scheduled t req"
  using assms by (simp_all add: state_of_def scheduled_def)

lemma removed_keeps:
  assumes "\<not> scheduled t a" and "wf_req a" and "wf_req req" and "req_PoolID a = req_PoolID req" and "scheduled t req"
  shows "state_of (with_state t a None None None) req = state_of t req"
    and "scheduled (with_state t a None None None) req"
proof -
  have "req \<noteq> a" using assms(1,5) by auto
  note other = with_state_other [OF assms(2,3) assms(4) [symmetric] this, of t None None None]
  show "state_of (with_state t a None None None) req = state_of t req"
    and "scheduled (with_state t a None None None) req"
    using other assms(5) by (simp_all add: state_of_def scheduled_def)
qed

text \<open>What one round of cleaning may do to the tree, and what it keeps.\<close>

definition cleans :: "string \<Rightarrow> string \<Rightarrow> nodes \<Rightarrow> nodes \<Rightarrow> bool" where
  "cleans pool svc t t' \<longleftrightarrow>
     (\<forall>q. t q = None \<longrightarrow> t' q = None) \<and> (closed t \<longrightarrow> closed t')
     \<and> (\<forall>req. wf_req req \<and> req_PoolID req = pool \<and> scheduled t req \<longrightarrow>
          state_of t' req = state_of t req \<and> scheduled t' req)"

lemma cleans_refl: "cleans pool svc t t"
  by (simp add: cleans_def)

lemma cleans_trans: "cleans pool svc t t' \<Longrightarrow> cleans pool svc t' t'' \<Longrightarrow> cleans pool svc t t''"
  by (simp add: cleans_def)

lemma good_child_cleans:
  assumes "cleans pool svc t t'" and "good_child pool svc t x" and "plain svc"
  shows "good_child pool svc t' x"
  using assms(2) unfolding good_child_def
proof (elim disjE exE conjE)
  fix req assume req: "service_request pool svc x = Inr req" "x = StateID req \<longrightarrow> scheduled t req"
  then show "t' (service_path pool svc @ [x]) = None \<or>
      (\<exists>req. service_request pool svc x = Inr req \<and> (x = StateID req \<longrightarrow> scheduled t' req))"
    using assms(1) service_request_wf [OF req(1) assms(3)] by (auto simp: cleans_def)
qed (use assms(1) in \<open>simp add: cleans_def\<close>)

context state_connection
begin

lemma DeleteState_cleans:
  assumes "DeleteState c a s = (e, s')" and "\<not> scheduled (seen s) a" and "wf_req a" and "req_PoolID a = pool"
    and "closed (seen s) \<longrightarrow> closed (seen s')"
  shows "cleans pool svc (seen s) (seen s')"
  using DeleteState_effect [OF assms(1,3)] assms removed_keeps [OF assms(2,3)]
  by (auto simp: cleans_def with_state_def)

lemma Commit_closed: "Commit c ops s = (e, s') \<Longrightarrow> \<forall>r \<in> set ops. req_path r \<noteq> [] \<Longrightarrow> closed (seen s) \<Longrightarrow> closed (seen s')"
  using Commit_tree [of ops s e s'] closed_tree_ops [of "seen s"] by (auto simp: commit_tree_def bind_eq_Some_conv)

lemma DeleteState_closed: "DeleteState c a s = (e, s') \<Longrightarrow> closed (seen s) \<Longrightarrow> closed (seen s')"
  using Commit_closed commit_paths(3) by (fastforce simp: DeleteState_def split: sum.splits prod.splits option.splits)

lemma unparsed_cleans:
  assumes "Coordinator.Delete c (service_path pool svc @ [y]) s = (e, s')" and "service_request pool svc y = Inl e'"
    and "svc \<noteq> ''''" and "plain svc"
  shows "cleans pool svc (seen s) (seen s')"
proof -
  have d: "deletes (service_path pool svc @ [y]) e s s'" by (rule Delete_deletes [OF assms(1)]) simp
  then have less: "shrinks (service_path pool svc @ [y]) (seen s) (seen s')" by blast
  note keep = unparsed_keeps [OF less assms(2-4)]
  have "\<forall>q. seen s q = None \<longrightarrow> seen s' q = None" using shrinks_None [OF less] by blast
  then show ?thesis
    using d state_keeps [OF keep] by (auto simp: cleans_def)
qed

lemma clean_states_cleans:
  assumes "clean_states c (service_path pool svc) (service_request pool svc) ch s = (e, s')"
    and "svc \<noteq> ''''" and "plain svc" and "closed (seen s)"
  shows "cleans pool svc (seen s) (seen s') \<and> (e = None \<longrightarrow> (\<forall>x \<in> set ch. good_child pool svc (seen s') x))"
  using assms(1,4)
proof (induction ch arbitrary: s)
  case Nil
  then show ?case by (simp add: cleans_refl)
next
  case (Cons y ch)
  have later: ?case
    if clean: "cleans pool svc (seen s) (seen s1)" and good: "good_child pool svc (seen s1) y"
      and rest: "clean_states c (service_path pool svc) (service_request pool svc) ch s1 = (e, s')" for s1
  proof -
    have "closed (seen s1)" using clean Cons.prems(2) by (simp add: cleans_def)
    note IH = Cons.IH [OF rest this]
    then show ?thesis
      using clean good good_child_cleans [OF _ good assms(3)] cleans_trans by auto
  qed
  show ?case
  proof (cases "service_request pool svc y")
    case (Inl e')
    obtain e1 s1 where del: "Coordinator.Delete c (service_path pool svc @ [y]) s = (e1, s1)"
      by (cases "Coordinator.Delete c (service_path pool svc @ [y]) s")
    note clean = unparsed_cleans [OF del Inl assms(2,3)]
    show ?thesis
    proof (cases "e1 \<noteq> None \<and> e1 \<noteq> Some ErrNoNode")
      case True
      then show ?thesis using Cons.prems(1) Inl del clean by auto
    next
      case False
      then have "good_child pool svc (seen s1) y"
        using Delete_gone [OF del _ Cons.prems(2)] by (auto simp: good_child_def)
      then show ?thesis using later [OF clean] Cons.prems(1) Inl del False by auto
    qed
  next
    case (Inr req)
    note wf = service_request_wf [OF Inr assms(3)]
    show ?thesis
    proof (cases "IsValidState c req s")
      case (Inl e')
      then show ?thesis using Cons.prems(1) \<open>service_request pool svc y = Inr req\<close> cleans_refl by auto
    next
      case valid: (Inr ok)
      show ?thesis
      proof (cases ok)
        case True
        then have "good_child pool svc (seen s) y"
          using IsValidState_seen [OF valid] Inr by (auto simp: good_child_def)
        then show ?thesis using later [OF cleans_refl] Cons.prems(1) Inr valid True by auto
      next
        case False
        obtain e1 s1 where del: "DeleteState c req s = (e1, s1)" by (cases "DeleteState c req s")
        have clean: "cleans pool svc (seen s) (seen s1)"
          using DeleteState_cleans [OF del] IsValidState_seen [OF valid] False wf DeleteState_closed [OF del] by blast
        show ?thesis
        proof (cases e1)
          case None
          then have "seen s1 = with_state (seen s) req None None None"
            using DeleteState_effect [OF del] wf by blast
          then have "y = StateID req \<Longrightarrow> seen s1 (service_path pool svc @ [y]) = None"
            using sspth_child wf with_state_same(2) [of req] by simp
          then have "good_child pool svc (seen s1) y" using Inr by (auto simp: good_child_def)
          then show ?thesis using later [OF clean] Cons.prems(1) Inr valid False del None by auto
        next
          case (Some a)
          then show ?thesis using Cons.prems(1) Inr valid False del clean by auto
        qed
      qed
    qed
  qed
qed

end

text \<open>
  Cleaning the states of a service never touches a complete instance of the pool, and
  when it reports success every remaining child of the service can be parsed and, unless
  its name is not the one of the instance it was parsed to, belongs to a complete instance.
\<close>

theorem CleanServiceStates_valid:
  assumes "connection z tree c" and "closed (view (c_basePath c) (tree s))" and "svc \<noteq> ''''" and "plain svc"
    and "CleanServiceStates c pool svc s = (e, s')"
  shows "(\<forall>req. wf_req req \<and> req_PoolID req = pool \<and> scheduled (view (c_basePath c) (tree s)) req \<longrightarrow>
            state_of (view (c_basePath c) (tree s')) req = state_of (view (c_basePath c) (tree s)) req)
    \<and> (e = None \<longrightarrow> (\<forall>x. good_child pool svc (view (c_basePath c) (tree s')) x))"
proof -
  have conn: "state_connection z tree c" using assms(1) by (rule state_connection.intro)
  show ?thesis
  proof (cases "state_children c (service_path pool svc) s")
    case (Inl a)
    then show ?thesis using assms(5) by (auto simp: CleanServiceStates_def)
  next
    case (Inr ch)
    then have run: "clean_states c (service_path pool svc) (service_request pool svc) ch s = (e, s')"
      using assms(5) by (simp add: CleanServiceStates_def)
    note clean = state_connection.clean_states_cleans [OF conn run assms(3,4,2)]
    have listed: "x \<in> set ch" if "view (c_basePath c) (tree s) (service_path pool svc @ [x]) \<noteq> None" for x
      using Inr that connection.Children_seen [OF assms(1)] connection.Children_missing [OF assms(1)] assms(2)
      by (fastforce simp: state_children_def closed_def split: sum.splits if_splits)
    have "good_child pool svc (view (c_basePath c) (tree s')) x" if "e = None" for x
    proof (cases "x \<in> set ch")
      case False
      then have "view (c_basePath c) (tree s) (service_path pool svc @ [x]) = None" using listed by blast
      then show ?thesis using clean unfolding good_child_def cleans_def by blast
    qed (use clean that in blast)
    then show ?thesis using clean by (auto simp: cleans_def)
  qed
qed

subsection \<open>A pool in memory\<close>

definition sample_zk :: "Node mem" where
  "sample_zk = [([], EmptyData, 0), ([''services''], DirData, 0), ([''services'', ''s1''], DirData, 0),
     ([''hosts''], DirData, 0), ([''hosts'', ''h1''], DirData, 0)]"

definition sample_conn :: "Node mem Conn" where
  "sample_conn = mem_connection (\<lambda>_. False) [] 9"

definition sample_req :: "int \<Rightarrow> StateRequest" where
  "sample_req i = \<lparr>req_PoolID = '''', req_HostID = ''h1'', req_ServiceID = ''s1'', req_InstanceID = i\<rparr>"

lemma sample_connection: "connection (mem_zk (\<lambda>_. False)) map_of sample_conn"
  unfolding sample_conn_def by (rule mem.connection_axioms)

lemma sample_base: "c_basePath sample_conn = []"
  by (simp add: sample_conn_def)

lemma view_Nil [simp]: "view [] t = t"
  by (simp add: view_def fun_eq_iff)

lemma wf_sample: "wf_req (sample_req 0)"
  by (simp add: wf_req_def sample_req_def plain_def in_int64_def)

lemma sample_create:
  "fst (CreateState 7 sample_conn (sample_req 0) sample_zk) = None"
  "fst (DeleteState sample_conn (sample_req 0) (snd (CreateState 7 sample_conn (sample_req 0) sample_zk))) = None"
  by code_simp+

interpretation sample: state_connection "mem_zk (\<lambda>_. False)" map_of sample_conn
  using sample_connection by (rule state_connection.intro)

theorem instances_refine_table_witness:
  "pool_table (sample_req 0) sample_conn map_of (snd (CreateState 7 sample_conn (sample_req 0) sample_zk)) (sample_req 0)
     = Some (started_state 7 (sample_req 0))"
  using instances_refine_table [OF sample_connection wf_sample, of 7 sample_zk "\<lambda>st. (False, st)"] sample_create(1)
  by (simp add: table_create_def)

lemma sample_closed: "closed (map_of sample_zk)"
  by (auto simp: closed_def sample_zk_def Cons_eq_append_conv)

lemma sample_congruent: "all_congruent '''' (map_of sample_zk)"
proof -
  have "StateID req \<noteq> ''h1'' \<and> StateID req \<noteq> ''s1''" for req
    using StateID_dash [of req] by auto
  then show ?thesis
    by (auto simp: all_congruent_def congruent_def sample_zk_def path_defs pool_base_def)
qed

theorem instances_stay_congruent_witness:
  "all_congruent '''' (map_of (snd (CreateState 7 sample_conn (sample_req 0) sample_zk)))"
proof -
  have "instance_step sample_conn '''' sample_zk (snd (CreateState 7 sample_conn (sample_req 0) sample_zk))"
    by (rule instance_step.create [OF wf_sample _ prod.collapse [symmetric]]) (simp add: sample_req_def)
  then have "(instance_step sample_conn '''')\<^sup>*\<^sup>* sample_zk (snd (CreateState 7 sample_conn (sample_req 0) sample_zk))"
    by (rule r_into_rtranclp)
  from instances_stay_congruent [OF sample_connection _ this] show ?thesis
    using sample_congruent by (simp add: sample_base)
qed

text \<open>A service with a state whose name cannot be parsed.\<close>

theorem CleanServiceStates_valid_witness:
  "good_child '''' ''s1'' (map_of (snd (CleanServiceStates sample_conn '''' ''s1''
      (sample_zk @ [([''services'', ''s1'', ''junk''], DirData, 0)])))) ''junk''"
proof -
  let ?s = "sample_zk @ [([''services'', ''s1'', ''junk''], DirData, 0)] :: Node mem"
  have run: "CleanServiceStates sample_conn '''' ''s1'' ?s = (None, sample_zk)" by code_simp
  have "closed (map_of ?s)"
    by (auto simp: closed_def sample_zk_def Cons_eq_append_conv append_eq_Cons_conv)
  with CleanServiceStates_valid [OF sample_connection _ _ _ run] run show ?thesis
    by (simp add: sample_base plain_def)
qed

end
