(* ===== verification/Service_Listener.thy ===== *)
theory Service_Listener
  imports State_Nodes
begin

section \<open>Services in the coordinator and their instances\<close>

text \<open>
  \<^verbatim>\<open>zzk/service/service.go\<close> and \<^verbatim>\<open>zzk/service/servicestate.go\<close>: the service nodes that the master
  writes, and the listener that the scheduler runs for every service to keep as many
  instances as the service asks for. The choice of a host is a parameter of the listener;
  the scheduler passes the leader's \<^verbatim>\<open>SelectHost\<close>.
\<close>

datatype service_error =
    ServiceError string string string
  | ServiceStateError state_error
  | ServiceClientError client_error
  | IndexOutOfRange

subsection \<open>Service nodes\<close>

definition IsConfigurable :: "ServiceEndpoint \<Rightarrow> bool" where
  "IsConfigurable ep = (arc_Port (ep_AddressConfig ep) > 0 \<and> arc_Protocol (ep_AddressConfig ep) \<noteq> '''')"

definition zero_AddressAssignment :: AddressAssignment where
  "zero_AddressAssignment =
     \<lparr>aa_ID = '''', aa_AssignmentType = '''', aa_HostID = '''', aa_PoolID = '''', aa_IPAddr = '''',
      aa_Port = 0, aa_ServiceID = '''', aa_EndpointName = ''''\<rparr>"

definition copy_assignment :: "ServiceEndpoint \<Rightarrow> ServiceNode \<Rightarrow> ServiceNode" where
  "copy_assignment ep sn =
     (if IsConfigurable ep
      then sn\<lparr>sn_ShouldHaveAddressAssignment := True, sn_AddressAssignment := ep_AddressAssignment ep\<rparr>
      else sn)"

definition NewServiceNodeFromService :: "Service \<Rightarrow> ServiceNode" where
  "NewServiceNodeFromService svc =
     (let sn = \<lparr>sn_ID = svc_ID svc, sn_Name = svc_Name svc, sn_DesiredState = svc_DesiredState svc,
                sn_Instances = svc_Instances svc, sn_ChangeOptions = svc_ChangeOptions svc, sn_Locked = False,
                sn_HostPolicy = svc_HostPolicy svc, sn_CPUCommitment = svc_CPUCommitment svc,
                sn_RAMCommitment = svc_RAMCommitment svc, sn_ShouldHaveAddressAssignment = False,
                sn_AddressAssignment = zero_AddressAssignment\<rparr>
      in case svc_Endpoints svc of None \<Rightarrow> sn | Some eps \<Rightarrow> fold copy_assignment eps sn)"

definition zero_ServiceNode :: ServiceNode where
  "zero_ServiceNode =
     \<lparr>sn_ID = '''', sn_Name = '''', sn_DesiredState = 0, sn_Instances = 0, sn_ChangeOptions = [], sn_Locked = False,
      sn_HostPolicy = '''', sn_CPUCommitment = 0, sn_RAMCommitment = 0, sn_ShouldHaveAddressAssignment = False,
      sn_AddressAssignment = zero_AddressAssignment\<rparr>"

definition as_ServiceNode :: "Node data \<Rightarrow> ServiceNode" where
  "as_ServiceNode d =
     (case d of
        NodeData (ServiceNodeNode n) \<Rightarrow> n
      | NodeData (HostStateNode h) \<Rightarrow> zero_ServiceNode\<lparr>sn_DesiredState := hs_DesiredState h\<rparr>
      | _ \<Rightarrow> zero_ServiceNode)"

text \<open>
  One turn of the loop of \<^verbatim>\<open>UpdateServices\<close>. The node that is read back is marked as locked
  if \<^verbatim>\<open>setLockOnUpdate\<close> asks for it, but only its version is used afterwards: what is written
  is the node made from the service.
\<close>

definition update_service :: "'s Conn \<Rightarrow> bool \<Rightarrow> bool \<Rightarrow> Service \<Rightarrow> 's \<Rightarrow> service_error option \<times> 's" where
  "update_service c setLockOnCreate setLockOnUpdate svc s =
     (let pth = Join [''services'', svc_ID svc];
          sn = (NewServiceNodeFromService svc)\<lparr>sn_Locked := setLockOnCreate\<rparr>;
          err = \<lambda>msg. Some (ServiceError ''update'' (svc_ID svc) msg)
      in case CreateIfExists c pth (NodeData (ServiceNodeNode sn)) s of
           (None, s1) \<Rightarrow> (None, s1)
         | (Some e, s1) \<Rightarrow>
             (if e = ErrNodeExists then
                (case Coordinator.Get c pth s1 of
                   (e', d, version) \<Rightarrow>
                     (if e' \<noteq> None \<and> e' \<noteq> Some ErrEmptyNode then (err ''could not get service for update'', s1)
                      else (case (if setLockOnUpdate then (as_ServiceNode d)\<lparr>sn_Locked := True\<rparr> else as_ServiceNode d, version) of
                              (node, node_version) \<Rightarrow>
                                (case Coordinator.Set c pth (NodeData (ServiceNodeNode sn)) node_version s1 of
                                   (Some _, s2) \<Rightarrow> (err ''could not update service'', s2)
                                 | (None, s2) \<Rightarrow> (None, s2)))))
              else (err ''could not create service'', s1)))"

fun update_services :: "'s Conn \<Rightarrow> bool \<Rightarrow> bool \<Rightarrow> Service list \<Rightarrow> 's \<Rightarrow> service_error option \<times> 's" where
  "update_services c lockC lockU [] s = (None, s)"
| "update_services c lockC lockU (svc # svcs) s =
     (case update_service c lockC lockU svc s of
        (Some e, s') \<Rightarrow> (Some e, s')
      | (None, s') \<Rightarrow> update_services c lockC lockU svcs s')"

definition UpdateServices :: "'s Conn \<Rightarrow> Service list \<Rightarrow> bool \<Rightarrow> bool \<Rightarrow> 's \<Rightarrow> service_error option \<times> 's" where
  "UpdateServices c svcs setLockOnCreate setLockOnUpdate s =
     (if svcs = [] then (Some IndexOutOfRange, s)
      else (case CreateIfExists c [''services''] DirData s of
              (e, s1) \<Rightarrow>
                (if e \<noteq> None \<and> e \<noteq> Some ErrNodeExists
                 then (Some (ServiceError ''update'' '''' ''could not initialize services path in zookeeper''), s1)
                 else update_services c setLockOnCreate setLockOnUpdate svcs s1)))"

definition UpdateService :: "'s Conn \<Rightarrow> Service \<Rightarrow> bool \<Rightarrow> bool \<Rightarrow> 's \<Rightarrow> service_error option \<times> 's" where
  "UpdateService c svc setLockOnCreate setLockOnUpdate s = UpdateServices c [svc] setLockOnCreate setLockOnUpdate s"

definition RemoveService :: "'s Conn \<Rightarrow> string \<Rightarrow> string \<Rightarrow> 's \<Rightarrow> service_error option \<times> 's" where
  "RemoveService c poolID serviceID s =
     (let pth = service_path poolID serviceID;
          err = \<lambda>msg. Some (ServiceError ''delete'' serviceID msg)
      in case CleanServiceStates c poolID serviceID s of
           (Some e, s1) \<Rightarrow> (Some (ServiceStateError e), s1)
         | (None, s1) \<Rightarrow>
             (case Coordinator.Children c pth s1 of
                Inl _ \<Rightarrow> (err ''could not look up children of service'', s1)
              | Inr ch \<Rightarrow>
                  (if length ch > 0
                   then (err (''found '' @ show_nat (length ch) @ '' running instances''), s1)
                   else (case Coordinator.Delete c pth s1 of
                           (Some _, s2) \<Rightarrow> (err ''could not delete service'', s2)
                         | (None, s2) \<Rightarrow> (None, s2)))))"

fun sync_services :: "'s Conn \<Rightarrow> Service list \<Rightarrow> 's \<Rightarrow> service_error option \<times> 's" where
  "sync_services c [] s = (None, s)"
| "sync_services c (svc # svcs) s =
     (case UpdateService c svc False False s of
        (Some e, s') \<Rightarrow> (Some e, s')
      | (None, s') \<Rightarrow> sync_services c svcs s')"

fun delete_leftovers :: "'s Conn \<Rightarrow> string list \<Rightarrow> 's \<Rightarrow> service_error option \<times> 's" where
  "delete_leftovers c [] s = (None, s)"
| "delete_leftovers c (serviceid # chmap) s =
     (case Coordinator.Delete c (Join [''services'', serviceid]) s of
        (Some _, s') \<Rightarrow> (Some (ServiceError ''sync'' serviceid ''could not delete service''), s')
      | (None, s') \<Rightarrow> delete_leftovers c chmap s')"

text \<open>The children that no service has are removed in the order of the listing, which is arbitrary.\<close>

definition SyncServices :: "'s Conn \<Rightarrow> Service list \<Rightarrow> 's \<Rightarrow> service_error option \<times> 's" where
  "SyncServices c svcs s =
     (case state_children c [''services''] s of
        Inl e \<Rightarrow> (Some (ServiceStateError e), s)
      | Inr ch \<Rightarrow>
          (case sync_services c svcs s of
             (Some e, s1) \<Rightarrow> (Some e, s1)
           | (None, s1) \<Rightarrow> delete_leftovers c (filter (\<lambda>id. id \<notin> set (map svc_ID svcs)) ch) s1))"

subsection \<open>The listener\<close>

definition IsHostOnline :: "'s Conn \<Rightarrow> string \<Rightarrow> string \<Rightarrow> 's \<Rightarrow> client_error + bool" where
  "IsHostOnline c poolid hostid s =
     (case Coordinator.Children c (Join (pool_base poolid @ [''hosts'', hostid, ''online''])) s of
        Inl e \<Rightarrow> if e = ErrNoNode then Inr False else Inl e
      | Inr ch \<Rightarrow> Inr (length ch > 0))"

definition set_desired :: "DesiredState \<Rightarrow> State \<Rightarrow> State" where
  "set_desired ds st = st\<lparr>st_HostState := (st_HostState st)\<lparr>hs_DesiredState := ds\<rparr>\<rparr>"

definition stop_state :: "State \<Rightarrow> bool \<times> State" where
  "stop_state st =
     (if hs_DesiredState (st_HostState st) \<noteq> SVCStop then (True, set_desired SVCStop st) else (False, st))"

definition pause_state :: "State \<Rightarrow> bool \<times> State" where
  "pause_state st =
     (if hs_DesiredState (st_HostState st) = SVCRun then (True, set_desired SVCPause st) else (False, st))"

definition resume_state :: "State \<Rightarrow> bool \<times> State" where
  "resume_state st =
     (if hs_DesiredState (st_HostState st) = SVCPause then (True, set_desired SVCRun st) else (False, st))"

text \<open>A loop over requests that counts the ones that succeed and goes on after a failure.\<close>

fun each_request :: "(StateRequest \<Rightarrow> 's \<Rightarrow> bool \<times> 's) \<Rightarrow> StateRequest list \<Rightarrow> 's \<Rightarrow> (int \<times> bool) \<times> 's" where
  "each_request f [] s = ((0, True), s)"
| "each_request f (req # reqs) s =
     (case f req s of
        (pass, s1) \<Rightarrow>
          (case each_request f reqs s1 of
             ((delta, ok), s2) \<Rightarrow> ((if pass then delta + 1 else delta, ok \<and> pass), s2)))"

definition update_instance :: "'s Conn \<Rightarrow> (State \<Rightarrow> bool \<times> State) \<Rightarrow> StateRequest \<Rightarrow> 's \<Rightarrow> bool \<times> 's" where
  "update_instance c mutate req s = (case UpdateState c req mutate s of (e, s') \<Rightarrow> (e = None, s'))"

definition stop_one :: "'s Conn \<Rightarrow> StateRequest \<Rightarrow> 's \<Rightarrow> bool \<times> 's" where
  "stop_one c req s =
     (case IsHostOnline c (req_PoolID req) (req_HostID req) s of
        Inl _ \<Rightarrow> (False, s)
      | Inr True \<Rightarrow> update_instance c stop_state req s
      | Inr False \<Rightarrow> (case DeleteState c req s of (e, s') \<Rightarrow> (e = None, s')))"

definition Stop :: "'s Conn \<Rightarrow> StateRequest list \<Rightarrow> 's \<Rightarrow> (int \<times> bool) \<times> 's" where
  "Stop c reqs s = each_request (stop_one c) reqs s"

definition Pause :: "'s Conn \<Rightarrow> StateRequest list \<Rightarrow> 's \<Rightarrow> (int \<times> bool) \<times> 's" where
  "Pause c reqs s = each_request (update_instance c pause_state) reqs s"

definition Resume :: "'s Conn \<Rightarrow> StateRequest list \<Rightarrow> 's \<Rightarrow> (int \<times> bool) \<times> 's" where
  "Resume c reqs s = each_request (update_instance c resume_state) reqs s"

text \<open>
  The listener of one pool: its connection, the choice of a host and the clock.
\<close>

record 's Listener =
  l_conn :: "'s Conn"
  l_SelectHost :: "ServiceNode \<Rightarrow> 's \<Rightarrow> scheduler_error + string"
  l_poolid :: string
  l_now :: int

definition instance_request :: "'s Listener \<Rightarrow> ServiceNode \<Rightarrow> string \<Rightarrow> int \<Rightarrow> StateRequest" where
  "instance_request l sn hostID i =
     \<lparr>req_PoolID = l_poolid l, req_HostID = hostID, req_ServiceID = sn_ID sn, req_InstanceID = i\<rparr>"

definition Start :: "'s Listener \<Rightarrow> ServiceNode \<Rightarrow> int \<Rightarrow> 's \<Rightarrow> bool \<times> 's" where
  "Start l sn instanceID s =
     (case l_SelectHost l sn s of
        Inl _ \<Rightarrow> (False, s)
      | Inr hostID \<Rightarrow>
          (if hostID = '''' then (False, s)
           else (let req = instance_request l sn hostID instanceID in
             case DeleteState (l_conn l) req s of
               (_, s1) \<Rightarrow> (case CreateState (l_now l) (l_conn l) req s1 of (e, s2) \<Rightarrow> (e = None, s2)))))"

definition RestartAllOnInstanceZeroDown :: string where
  "RestartAllOnInstanceZeroDown = ''restartAllOnInstanceZeroDown''"

definition RestartAllOnInstanceChanged :: string where
  "RestartAllOnInstanceChanged = ''restartAllOnInstanceChanged''"

definition wanted_instances :: "ServiceNode \<Rightarrow> StateRequest list \<Rightarrow> int" where
  "wanted_instances sn reqs =
     (let count = int (length reqs) in
      if ChangeOptions_Contains (sn_ChangeOptions sn) RestartAllOnInstanceZeroDown
      then (if count \<noteq> 0 \<and> \<not> list_ex (\<lambda>req. req_InstanceID req = 0) reqs then 0 else sn_Instances sn)
      else if ChangeOptions_Contains (sn_ChangeOptions sn) RestartAllOnInstanceChanged
      then (if count \<noteq> 0 \<and> count \<noteq> sn_Instances sn then 0 else sn_Instances sn)
      else sn_Instances sn)"

text \<open>The inner loop of \<^verbatim>\<open>Sync\<close>: from an index on, the first one below the instance found there.\<close>

function find_gap :: "nat \<Rightarrow> StateRequest list \<Rightarrow> nat" where
  "find_gap i reqs =
     (if i < length reqs then (if int i < req_InstanceID (reqs ! i) then i else find_gap (Suc i) reqs) else i)"
  by pat_completeness auto
termination
  by (relation "measure (\<lambda>(i, reqs). length reqs - i)") auto

declare find_gap.simps [simp del]

definition zero_StateRequest :: StateRequest where
  "zero_StateRequest = \<lparr>req_PoolID = '''', req_HostID = '''', req_ServiceID = '''', req_InstanceID = 0\<rparr>"

text \<open>
  The outer loop, by the number of instances that are missing; \<open>i\<close> is the next index to
  look at.
\<close>

primrec start_missing :: "nat \<Rightarrow> 's Listener \<Rightarrow> ServiceNode \<Rightarrow> nat \<Rightarrow> StateRequest list \<Rightarrow> 's \<Rightarrow> (int \<times> bool) \<times> 's" where
  "start_missing 0 l sn i reqs s = ((0, True), s)"
| "start_missing (Suc n) l sn i reqs s =
     (let j = find_gap i reqs in
      case Start l sn (int j) s of
        (False, s1) \<Rightarrow> ((0, False), s1)
      | (True, s1) \<Rightarrow>
          (case start_missing n l sn (Suc j) (zero_StateRequest # reqs) s1 of
             ((delta, ok), s2) \<Rightarrow> ((delta + 1, ok), s2)))"

text \<open>\<open>None\<close> is the panic of a slice expression with a negative bound.\<close>

definition Sync :: "'s Listener \<Rightarrow> bool \<Rightarrow> ServiceNode \<Rightarrow> StateRequest list \<Rightarrow> 's \<Rightarrow> ((int \<times> bool) \<times> 's) option" where
  "Sync l isLocked sn reqs s =
     (let count = int (length reqs);
          wanted = wanted_instances sn reqs;
          sn' = sn\<lparr>sn_Instances := wanted\<rparr>
      in if isLocked \<and> count < wanted then Some ((0, True), s)
         else (let sorted = SortStateRequests reqs in
           if count < wanted then Some (start_missing (nat (wanted - count)) l sn' 0 sorted s)
           else if count > wanted then
             (if wanted < 0 then None
              else (case Stop (l_conn l) (drop (nat wanted) sorted) s of
                      ((delta, pass), s') \<Rightarrow> Some ((- delta, pass), s')))
           else Some ((0, True), s)))"

definition parse_or_zero :: "string \<Rightarrow> string \<Rightarrow> StateRequest" where
  "parse_or_zero poolid stateID =
     (case ParseStateID stateID of
        Inl _ \<Rightarrow> zero_StateRequest
      | Inr (hostID, serviceID, instanceID) \<Rightarrow>
          \<lparr>req_PoolID = poolid, req_HostID = hostID, req_ServiceID = serviceID, req_InstanceID = instanceID\<rparr>)"

definition getStateRequests :: "string \<Rightarrow> string list \<Rightarrow> StateRequest list \<times> bool" where
  "getStateRequests poolid stateIDs =
     (map (parse_or_zero poolid) stateIDs, list_all (\<lambda>x. \<not> isl (ParseStateID x)) stateIDs)"

text \<open>
  One round of \<^verbatim>\<open>Spawn\<close>: the listener ends, or waits for an event, with the timer set for
  another try or not.
\<close>

datatype round = Ends | Waits bool | Panics

definition spawn_round :: "'s Listener \<Rightarrow> string \<Rightarrow> 's \<Rightarrow> round \<times> 's" where
  "spawn_round l serviceID s =
     (let c = l_conn l; pth = service_path (l_poolid l) serviceID in
      case get_as as_ServiceNode c pth s of
        Inl _ \<Rightarrow> (Ends, s)
      | Inr (sDat, _) \<Rightarrow>
          (case CleanServiceStates c (l_poolid l) serviceID s of
             (Some _, s1) \<Rightarrow> (Ends, s1)
           | (None, s1) \<Rightarrow>
               (case Coordinator.Children c pth s1 of
                  Inl _ \<Rightarrow> (Ends, s1)
                | Inr stateIDs \<Rightarrow>
                    (case getStateRequests (l_poolid l) stateIDs of (reqs, parsed) \<Rightarrow>
                       (if sn_DesiredState sDat = SVCRun then
                          (case Resume c reqs s1 of ((_, resumed), s2) \<Rightarrow>
                             (case Sync l (sn_Locked sDat) sDat reqs s2 of
                                None \<Rightarrow> (Panics, s2)
                              | Some ((_, synced), s3) \<Rightarrow> (Waits (\<not> parsed \<or> \<not> resumed \<or> \<not> synced), s3)))
                        else if sn_DesiredState sDat = SVCPause then
                          (case Pause c reqs s1 of ((_, paused), s2) \<Rightarrow> (Waits (\<not> parsed \<or> \<not> paused), s2))
                        else if sn_DesiredState sDat = SVCStop then
                          (case Stop c reqs s1 of ((_, stopped), s2) \<Rightarrow> (Waits (\<not> parsed \<or> \<not> stopped), s2))
                        else (Waits (\<not> parsed), s1))))))"

subsection \<open>Filling the gaps\<close>

text \<open>The instances that the loop of \<^verbatim>\<open>Sync\<close> starts, one after the other, if nothing fails.\<close>

primrec planned :: "nat \<Rightarrow> nat \<Rightarrow> StateRequest list \<Rightarrow> nat list" where
  "planned 0 i reqs = []"
| "planned (Suc n) i reqs = (let j = find_gap i reqs in j # planned n (Suc j) (zero_StateRequest # reqs))"

abbreviation ids :: "StateRequest list \<Rightarrow> int list" where
  "ids reqs \<equiv> map req_InstanceID reqs"

text \<open>
  After \<open>d\<close> instances were started and \<open>i\<close> indices passed, the instances below \<open>i\<close> are
  exactly the first \<open>i - d\<close> ones.
\<close>

definition aligned :: "nat \<Rightarrow> nat \<Rightarrow> StateRequest list \<Rightarrow> bool" where
  "aligned d i rs \<longleftrightarrow> (\<forall>k < length rs. ids rs ! k < int i \<longleftrightarrow> k + d < i)"

lemma find_gap_aligned:
  assumes "sorted_wrt (<) (ids rs)" and "aligned d i rs" and "d \<le> i"
  shows "i \<le> find_gap i (replicate d zero_StateRequest @ rs)
    \<and> int (find_gap i (replicate d zero_StateRequest @ rs)) \<notin> set (ids rs)
    \<and> (\<forall>m. i \<le> m \<and> m < find_gap i (replicate d zero_StateRequest @ rs) \<longrightarrow> int m \<in> set (ids rs))
    \<and> aligned (Suc d) (Suc (find_gap i (replicate d zero_StateRequest @ rs))) rs"
  using assms(2,3)
proof (induction "length rs + d - i" arbitrary: i rule: less_induct)
  case less
  let ?reqs = "replicate d zero_StateRequest @ rs"
  have mono: "ids rs ! a < ids rs ! b" if "a < b" "b < length rs" for a b
    using assms(1) that sorted_wrt_nth_less [of "(<)" "ids rs" a b] by simp
  have al: "ids rs ! k < int i \<longleftrightarrow> k + d < i" if "k < length rs" for k
    using less.prems(1) that by (simp add: aligned_def)
  show ?case
  proof (cases "i < length ?reqs \<and> \<not> int i < req_InstanceID (?reqs ! i)")
    case True
    let ?k = "i - d"
    have k: "?k < length rs" "?reqs ! i = rs ! ?k" using True less.prems(2) by (auto simp: nth_append)
    have at: "ids rs ! ?k = int i" using True k al [OF k(1)] less.prems(2) by auto
    have "aligned d (Suc i) rs"
      unfolding aligned_def
    proof (intro allI impI)
      fix m assume m: "m < length rs"
      consider "m < ?k" | "m = ?k" | "?k < m" by linarith
      then show "ids rs ! m < int (Suc i) \<longleftrightarrow> m + d < Suc i"
        using at mono [of m ?k] mono [of ?k m] m k(1) less.prems(2) by cases auto
    qed
    then have IH: "Suc i \<le> find_gap (Suc i) ?reqs \<and> int (find_gap (Suc i) ?reqs) \<notin> set (ids rs)
        \<and> (\<forall>m. Suc i \<le> m \<and> m < find_gap (Suc i) ?reqs \<longrightarrow> int m \<in> set (ids rs))
        \<and> aligned (Suc d) (Suc (find_gap (Suc i) ?reqs)) rs"
    proof (rule less.hyps [rotated])
      have "i < length rs + d" using True by simp
      then show "length rs + d - Suc i < length rs + d - i" by linarith
    qed (use less.prems(2) in simp)
    moreover have "find_gap i ?reqs = find_gap (Suc i) ?reqs"
      using True by (subst find_gap.simps) auto
    moreover have "int i \<in> set (ids rs)" using at k(1) by (metis length_map nth_mem)
    ultimately show ?thesis by (metis Suc_leD le_antisym not_less_eq_eq)
  next
    case False
    then have stop: "find_gap i ?reqs = i" by (subst find_gap.simps) auto
    have out: "ids rs ! k \<noteq> int i" if k: "k < length rs" for k
    proof
      assume eq: "ids rs ! k = int i"
      then have "i - d \<le> k" using al [OF k] by simp
      moreover have "int i < ids rs ! (i - d)"
        using False eq k less.prems(2) calculation by (auto simp: nth_append)
      ultimately show False using eq mono [of "i - d" k] k by (cases "i - d = k") auto
    qed
    then have "int i \<notin> set (ids rs)" by (metis in_set_conv_nth length_map)
    moreover have "aligned (Suc d) (Suc i) rs"
      unfolding aligned_def
    proof (intro allI impI)
      fix k assume "k < length rs"
      from al [OF this] out [OF this] show "ids rs ! k < int (Suc i) \<longleftrightarrow> k + Suc d < Suc i" by linarith
    qed
    ultimately show ?thesis using stop by auto
  qed
qed

text \<open>The smallest numbers from \<open>i\<close> on that are not in \<open>S\<close>, in ascending order.\<close>

definition fills :: "int set \<Rightarrow> nat \<Rightarrow> nat list \<Rightarrow> bool" where
  "fills S i ps \<longleftrightarrow> sorted_wrt (<) ps \<and> (\<forall>p \<in> set ps. i \<le> p \<and> int p \<notin> S)
     \<and> (\<forall>p \<in> set ps. \<forall>m. i \<le> m \<and> m < p \<longrightarrow> int m \<in> S \<or> m \<in> set ps)"

lemma fills_Cons:
  assumes "i \<le> j" and "int j \<notin> S" and "\<forall>m. i \<le> m \<and> m < j \<longrightarrow> int m \<in> S" and "fills S (Suc j) ps"
  shows "fills S i (j # ps)"
  unfolding fills_def
proof (intro conjI ballI allI impI)
  show "sorted_wrt (<) (j # ps)" using assms(4) by (auto simp: fills_def)
next
  fix p assume p: "p \<in> set (j # ps)"
  show "i \<le> p" "int p \<notin> S" using p assms(1,2,4) by (auto simp: fills_def)
  fix m assume m: "i \<le> m \<and> m < p"
  consider "m < j" | "m = j" | "Suc j \<le> m" by linarith
  then show "int m \<in> S \<or> m \<in> set (j # ps)"
    using m p assms(3,4) by cases (auto simp: fills_def)
qed

lemma length_planned [simp]: "length (planned n i reqs) = n"
  by (induction n arbitrary: i reqs) (simp_all add: Let_def)

lemma planned_aligned:
  "sorted_wrt (<) (ids rs) \<Longrightarrow> aligned d i rs \<Longrightarrow> d \<le> i \<Longrightarrow>
     fills (set (ids rs)) i (planned n i (replicate d zero_StateRequest @ rs))"
proof (induction n arbitrary: d i)
  case (Suc n)
  let ?j = "find_gap i (replicate d zero_StateRequest @ rs)"
  note gap = find_gap_aligned [OF Suc.prems]
  have "fills (set (ids rs)) (Suc ?j) (planned n (Suc ?j) (replicate (Suc d) zero_StateRequest @ rs))"
    using Suc.IH [of "Suc d" "Suc ?j"] Suc.prems gap by simp
  then show ?case
    using gap fills_Cons [of i ?j] by (simp add: Let_def)
qed (simp add: fills_def)

lemma planned_fills:
  assumes "distinct (ids reqs)" and "\<forall>x \<in> set (ids reqs). 0 \<le> x"
  shows "fills (set (ids reqs)) 0 (planned n 0 (SortStateRequests reqs))"
proof -
  let ?rs = "SortStateRequests reqs"
  have set: "set (ids ?rs) = set (ids reqs)" by (simp add: SortStateRequests_def)
  have "distinct (ids ?rs)" using assms(1) by (simp add: SortStateRequests_def)
  moreover have "sorted_wrt (\<lambda>a b. \<not> Requests_Less b a) ?rs"
    unfolding SortStateRequests_def
    using strict_weak_order.ordered_go_sort [OF key_strict_weak_order [of req_InstanceID]] by (simp add: Requests_Less_def [abs_def])
  then have "sorted (ids ?rs)" by (simp add: sorted_wrt_map Requests_Less_def not_less)
  ultimately have "sorted_wrt (<) (ids ?rs)" by (simp add: strict_sorted_iff)
  moreover have "0 \<le> ids ?rs ! k" if "k < length ?rs" for k
    using assms(2) set that by (metis length_map nth_mem)
  then have "aligned 0 0 ?rs" by (auto simp: aligned_def not_less)
  ultimately show ?thesis using planned_aligned [of ?rs 0 0 n] set by simp
qed

text \<open>The numbers that fill the gaps of a set stay below the resulting number of elements.\<close>

lemma fills_bound:
  assumes "fills S 0 ps" and "finite S" and "p \<in> set ps"
  shows "p < length ps + card S"
proof -
  have "{..p} \<subseteq> set ps \<union> nat ` S"
  proof
    fix m assume "m \<in> {..p}"
    then have "m = p \<or> int m \<in> S \<or> m \<in> set ps"
      using assms(1,3) by (cases "m = p") (auto simp: fills_def)
    then show "m \<in> set ps \<union> nat ` S" using assms(3) by force
  qed
  then have "card {..p} \<le> card (set ps \<union> nat ` S)" using assms(2) by (intro card_mono) auto
  also have "\<dots> \<le> card (set ps) + card (nat ` S)" by (rule card_Un_le)
  also have "\<dots> \<le> length ps + card S" using assms(2) by (simp add: add_mono card_length card_image_le)
  finally show ?thesis by simp
qed

subsection \<open>What starting and stopping do to the table of instances\<close>

text \<open>The hosts that the scheduler may choose have names that state ids can hold.\<close>

definition plain_hosts :: "'s Listener \<Rightarrow> bool" where
  "plain_hosts l \<longleftrightarrow> (\<forall>sn s h. l_SelectHost l sn s = Inr h \<longrightarrow> plain h)"

definition add_instances :: "'s Listener \<Rightarrow> ServiceNode \<Rightarrow> (string \<times> nat) list \<Rightarrow>
    (StateRequest \<Rightarrow> State option) \<Rightarrow> StateRequest \<Rightarrow> State option" where
  "add_instances l sn hps T =
     fold (\<lambda>(h, p) T. T(instance_request l sn h (int p) \<mapsto> started_state (l_now l) (instance_request l sn h (int p)))) hps T"

locale listener = state_connection z tree "l_conn l"
  for z :: "(Node, 's) Zk" and tree :: "'s \<Rightarrow> nodes" and l :: "'s Listener" +
  assumes hosts: "plain_hosts l"
begin

abbreviation instances :: "'s \<Rightarrow> StateRequest \<Rightarrow> State option" where
  "instances s \<equiv> table (l_poolid l) (seen s)"

lemma Start_table:
  assumes "Start l sn i s = (True, s')" and "plain (sn_ID sn)" and "in_int64 i"
  shows "\<exists>h. h \<noteq> '''' \<and> l_SelectHost l sn s = Inr h
    \<and> instances s' = (instances s)(instance_request l sn h i \<mapsto> started_state (l_now l) (instance_request l sn h i))"
proof -
  obtain h where h: "l_SelectHost l sn s = Inr h" "h \<noteq> ''''"
    using assms(1) by (auto simp: Start_def split: sum.splits if_splits)
  let ?req = "instance_request l sn h i"
  have req: "wf_req ?req" "req_PoolID ?req = l_poolid l"
    using assms(2,3) h(1) hosts by (auto simp: wf_req_def instance_request_def plain_hosts_def)
  obtain e1 s1 where del: "DeleteState (l_conn l) ?req s = (e1, s1)" by (cases "DeleteState (l_conn l) ?req s")
  have create: "CreateState (l_now l) (l_conn l) ?req s1 = (None, s')"
    using assms(1) h del by (auto simp: Start_def Let_def split: prod.splits)
  show ?thesis
    using DeleteState_table [OF del req(1)] CreateState_table [OF create req(1)] h req(2)
    by (auto simp: table_delete_def table_create_def)
qed

lemma start_missing_table:
  "start_missing n l sn i reqs s = ((delta, True), s') \<Longrightarrow> plain (sn_ID sn) \<Longrightarrow>
     \<forall>p \<in> set (planned n i reqs). in_int64 (int p) \<Longrightarrow>
     delta = int n \<and> (\<exists>hs. length hs = n \<and> '''' \<notin> set hs \<and>
        instances s' = add_instances l sn (zip hs (planned n i reqs)) (instances s))"
proof (induction n arbitrary: i reqs s delta)
  case 0
  then show ?case by (simp add: add_instances_def)
next
  case (Suc n)
  let ?j = "find_gap i reqs"
  obtain s1 where start: "Start l sn (int ?j) s = (True, s1)"
    using Suc.prems(1) by (auto simp: Let_def split: prod.splits bool.splits)
  then obtain delta1 where rest: "start_missing n l sn (Suc ?j) (zero_StateRequest # reqs) s1 = ((delta1, True), s')" "delta = delta1 + 1"
    using Suc.prems(1) by (auto simp: Let_def split: prod.splits)
  obtain h where h: "h \<noteq> ''''" "instances s1 = (instances s)(instance_request l sn h (int ?j) \<mapsto> started_state (l_now l) (instance_request l sn h (int ?j)))"
    using Start_table [OF start Suc.prems(2)] Suc.prems(3) by (auto simp: Let_def)
  obtain hs where "delta1 = int n" "length hs = n" "'''' \<notin> set hs"
      "instances s' = add_instances l sn (zip hs (planned n (Suc ?j) (zero_StateRequest # reqs))) (instances s1)"
    using Suc.IH [OF rest(1) Suc.prems(2)] Suc.prems(3) by (auto simp: Let_def)
  then show ?case
    using h rest(2) by (intro conjI exI [of _ "h # hs"]) (auto simp: Let_def add_instances_def)
qed

lemma stop_one_table:
  assumes "stop_one (l_conn l) req s = (pass, s')" and "wf_req req" and "req_PoolID req = l_poolid l"
  shows "(\<forall>a. a \<noteq> req \<longrightarrow> instances s' a = instances s a)
    \<and> (pass \<longrightarrow> (case instances s' req of None \<Rightarrow> True | Some st \<Rightarrow> hs_DesiredState (st_HostState st) = SVCStop))"
proof (cases "IsHostOnline (l_conn l) (req_PoolID req) (req_HostID req) s")
  case (Inl e)
  then show ?thesis using assms(1) by (simp add: stop_one_def)
next
  case (Inr online)
  show ?thesis
  proof (cases online)
    case True
    obtain e where upd: "UpdateState (l_conn l) req stop_state s = (e, s')" "pass \<longleftrightarrow> e = None"
      using assms(1) Inr True by (auto simp: stop_one_def update_instance_def split: prod.splits)
    show ?thesis
      using UpdateState_table [OF upd(1) assms(2)] upd(2) assms(3)
      by (auto simp: table_update_def stop_state_def set_nodes_def set_desired_def make_state_def split: if_splits)
  next
    case False
    obtain e where del: "DeleteState (l_conn l) req s = (e, s')" "pass \<longleftrightarrow> e = None"
      using assms(1) Inr False by (auto simp: stop_one_def split: prod.splits)
    show ?thesis
      using DeleteState_table [OF del(1) assms(2)] del(2) assms(3) by (auto simp: table_delete_def)
  qed
qed

lemma Stop_table:
  assumes "Stop (l_conn l) reqs s = ((delta, ok), s')" and "distinct reqs" and "\<forall>req \<in> set reqs. wf_req req \<and> req_PoolID req = l_poolid l"
  shows "(\<forall>a. a \<notin> set reqs \<longrightarrow> instances s' a = instances s a)
    \<and> (ok \<longrightarrow> delta = int (length reqs)
        \<and> (\<forall>req \<in> set reqs. case instances s' req of None \<Rightarrow> True | Some st \<Rightarrow> hs_DesiredState (st_HostState st) = SVCStop))"
  using assms unfolding Stop_def
proof (induction reqs arbitrary: s delta ok)
  case (Cons req reqs)
  obtain pass s1 where one: "stop_one (l_conn l) req s = (pass, s1)" by (cases "stop_one (l_conn l) req s")
  obtain delta1 ok1 where rest: "each_request (stop_one (l_conn l)) reqs s1 = ((delta1, ok1), s')"
      "delta = (if pass then delta1 + 1 else delta1)" "ok = (ok1 \<and> pass)"
    using Cons.prems(1) one by (auto split: prod.splits)
  note first = stop_one_table [OF one]
  have "(\<forall>a. a \<notin> set reqs \<longrightarrow> instances s' a = instances s1 a)
    \<and> (ok1 \<longrightarrow> delta1 = int (length reqs)
        \<and> (\<forall>req \<in> set reqs. case instances s' req of None \<Rightarrow> True | Some st \<Rightarrow> hs_DesiredState (st_HostState st) = SVCStop))"
    using Cons.IH [OF rest(1)] Cons.prems(2,3) by simp
  then show ?case using first Cons.prems(2,3) rest(2,3) by auto
qed simp

end

subsection \<open>What synchronising promises\<close>

text \<open>The instances of the listener's pool.\<close>

abbreviation running :: "'s Listener \<Rightarrow> ('s \<Rightarrow> nodes) \<Rightarrow> 's \<Rightarrow> StateRequest \<Rightarrow> State option" where
  "running l tree s \<equiv> table (l_poolid l) (view (c_basePath (l_conn l)) (tree s))"

text \<open>
  C5. With fewer instances than wanted and no lock, \<open>Sync\<close> asks for the lowest instance
  numbers that are free, in ascending order, and all of them below the wanted number; when
  it reports success it has created exactly these instances, each on a host that the
  scheduler chose, and no other instance of the pool has changed. With a lock it creates
  nothing.
\<close>

theorem Sync_starts_lowest:
  assumes "listener z tree l" and "plain (sn_ID sn)" and "distinct (ids reqs)" and "\<forall>x \<in> set (ids reqs). 0 \<le> x"
    and "int (length reqs) < wanted_instances sn reqs" and "wanted_instances sn reqs < 2 ^ 63"
  shows "Sync l True sn reqs s = Some ((0, True), s)
    \<and> (\<exists>ps. fills (set (ids reqs)) 0 ps \<and> int (length ps + length reqs) = wanted_instances sn reqs
        \<and> (\<forall>p \<in> set ps. int p < wanted_instances sn reqs)
        \<and> (\<exists>delta ok s'. Sync l False sn reqs s = Some ((delta, ok), s')
            \<and> (ok \<longrightarrow> delta = int (length ps)
                \<and> (\<exists>hs. length hs = length ps \<and> '''' \<notin> set hs \<and>
                     running l tree s' =
                     add_instances l sn (zip hs ps) (running l tree s)))))"
proof -
  let ?n = "nat (wanted_instances sn reqs - int (length reqs))"
  let ?ps = "planned ?n 0 (SortStateRequests reqs)" and ?sn = "sn\<lparr>sn_Instances := wanted_instances sn reqs\<rparr>"
  have fills: "fills (set (ids reqs)) 0 ?ps" by (rule planned_fills [OF assms(3,4)])
  have "card (set (ids reqs)) = length reqs" using distinct_card [OF assms(3)] by simp
  then have bound: "p < ?n + length reqs" if "p \<in> set ?ps" for p
    using fills_bound [OF fills _ that] by simp
  have small: "\<forall>p \<in> set ?ps. int p < wanted_instances sn reqs"
  proof
    fix p assume "p \<in> set ?ps"
    from bound [OF this] show "int p < wanted_instances sn reqs" using assms(5) by linarith
  qed
  then have range: "\<forall>p \<in> set ?ps. in_int64 (int p)" using assms(6) by (auto simp: in_int64_def)
  have run: "Sync l False sn reqs s = Some (start_missing ?n l ?sn 0 (SortStateRequests reqs) s)"
    using assms(5) by (simp add: Sync_def Let_def)
  have request: "instance_request l ?sn h i = instance_request l sn h i" for h i
    by (simp add: instance_request_def)
  obtain delta ok s' where result: "start_missing ?n l ?sn 0 (SortStateRequests reqs) s = ((delta, ok), s')"
    by (metis prod.collapse)
  have "delta = int ?n \<and> (\<exists>hs. length hs = ?n \<and> '''' \<notin> set hs \<and>
      running l tree s' =
      add_instances l sn (zip hs ?ps) (running l tree s))" if ok
    using listener.start_missing_table [OF assms(1), of ?n ?sn 0 "SortStateRequests reqs" s delta s'] result that assms(2) range
    by (simp add: add_instances_def request)
  moreover have "int (length ?ps + length reqs) = wanted_instances sn reqs" using assms(5) by simp
  ultimately show ?thesis
    using assms(5) run result fills small by (intro conjI exI [of _ ?ps]) (simp_all add: Sync_def Let_def)
qed

text \<open>
  C6. With more instances than wanted, \<open>Sync\<close> keeps the lowest ones and stops the others:
  it touches no instance that it keeps, and when it reports success every other one is
  gone, because its host was offline, or marked to stop. A negative wanted number makes it
  panic.
\<close>

theorem Sync_stops_highest:
  assumes "listener z tree l" and "distinct reqs" and "\<forall>req \<in> set reqs. wf_req req \<and> req_PoolID req = l_poolid l"
    and "wanted_instances sn reqs < int (length reqs)"
  shows "(wanted_instances sn reqs < 0 \<longrightarrow> Sync l locked sn reqs s = None)
    \<and> (0 \<le> wanted_instances sn reqs \<longrightarrow>
        (\<exists>keep stop delta ok s'. mset reqs = mset keep + mset stop \<and> int (length keep) = wanted_instances sn reqs
          \<and> (\<forall>a \<in> set keep. \<forall>b \<in> set stop. req_InstanceID a \<le> req_InstanceID b)
          \<and> Sync l locked sn reqs s = Some ((delta, ok), s')
          \<and> (\<forall>a. a \<notin> set stop \<longrightarrow> running l tree s' a =
                running l tree s a)
          \<and> (ok \<longrightarrow> delta = - int (length stop) \<and> (\<forall>b \<in> set stop.
                case running l tree s' b of
                  None \<Rightarrow> True | Some st \<Rightarrow> hs_DesiredState (st_HostState st) = SVCStop))))"
proof -
  let ?w = "nat (wanted_instances sn reqs)" and ?rs = "SortStateRequests reqs"
  let ?keep = "take ?w ?rs" and ?stop = "drop ?w ?rs"
  show ?thesis
  proof (intro conjI impI)
    show "Sync l locked sn reqs s = None" if "wanted_instances sn reqs < 0"
      using that assms(4) by (simp add: Sync_def Let_def)
    assume pos: "0 \<le> wanted_instances sn reqs"
    have m: "mset reqs = mset ?keep + mset ?stop"
      by (simp add: SortStateRequests_def flip: mset_append)
    have "sorted_wrt (\<lambda>a b. \<not> Requests_Less b a) (?keep @ ?stop)"
      using strict_weak_order.ordered_go_sort [OF key_strict_weak_order [of req_InstanceID]]
      by (simp add: SortStateRequests_def Requests_Less_def [abs_def])
    then have order: "\<forall>a \<in> set ?keep. \<forall>b \<in> set ?stop. req_InstanceID a \<le> req_InstanceID b"
      unfolding sorted_wrt_append by (auto simp: Requests_Less_def not_less)
    have dist: "distinct ?stop" using assms(2) distinct_map_go_sort [of "\<lambda>x. x" Requests_Less reqs]
      by (simp add: SortStateRequests_def)
    have wf: "\<forall>req \<in> set ?stop. wf_req req \<and> req_PoolID req = l_poolid l"
      using assms(3) set_drop_subset [of ?w ?rs] by (auto simp: SortStateRequests_def)
    obtain delta ok s' where stop: "Stop (l_conn l) ?stop s = ((delta, ok), s')" by (metis prod.collapse)
    have len: "int (length ?keep) = wanted_instances sn reqs" using pos assms(4) by (simp add: SortStateRequests_def)
    have "Sync l locked sn reqs s = Some ((- delta, ok), s')"
      using pos assms(4) stop by (simp add: Sync_def Let_def)
    then show "\<exists>keep stop delta ok s'. mset reqs = mset keep + mset stop \<and> int (length keep) = wanted_instances sn reqs
          \<and> (\<forall>a \<in> set keep. \<forall>b \<in> set stop. req_InstanceID a \<le> req_InstanceID b)
          \<and> Sync l locked sn reqs s = Some ((delta, ok), s')
          \<and> (\<forall>a. a \<notin> set stop \<longrightarrow> running l tree s' a =
                running l tree s a)
          \<and> (ok \<longrightarrow> delta = - int (length stop) \<and> (\<forall>b \<in> set stop.
                case running l tree s' b of
                  None \<Rightarrow> True | Some st \<Rightarrow> hs_DesiredState (st_HostState st) = SVCStop))"
      using m len order listener.Stop_table [OF assms(1) stop dist wf]
      by (intro exI [of _ ?keep] exI [of _ ?stop] exI [of _ "- delta"] exI [of _ ok] exI [of _ s']) auto
  qed
qed

subsection \<open>Synchronising the service nodes\<close>

abbreviation service_node :: "Service \<Rightarrow> bool \<Rightarrow> Node data" where
  "service_node svc locked \<equiv> NodeData (ServiceNodeNode ((NewServiceNodeFromService svc)\<lparr>sn_Locked := locked\<rparr>))"

text \<open>A tree in which service nodes were written, and the node above them if it was missing.\<close>

definition writes_services :: "bool \<Rightarrow> Service list \<Rightarrow> nodes \<Rightarrow> nodes \<Rightarrow> bool" where
  "writes_services locked svcs t t' \<longleftrightarrow>
     (\<forall>q. q \<noteq> [''services''] \<and> (\<forall>svc \<in> set svcs. q \<noteq> [''services'', svc_ID svc]) \<longrightarrow> t' q = t q)
     \<and> (distinct (map svc_ID svcs) \<longrightarrow> (\<forall>svc \<in> set svcs. \<exists>v. t' [''services'', svc_ID svc] = Some (service_node svc locked, v)))"

context state_connection
begin

lemma update_service_writes:
  assumes "update_service c lockC lockU svc s = (None, s')" and "svc_ID svc \<noteq> ''''"
  shows "\<exists>v. seen s' = (seen s)([''services'', svc_ID svc] \<mapsto> (service_node svc lockC, v)) \<and> (closed (seen s) \<longrightarrow> closed (seen s'))"
proof -
  let ?p = "[''services'', svc_ID svc]" and ?n = "service_node svc lockC"
  obtain e s1 where create: "CreateIfExists c ?p ?n s = (e, s1)" by (metis prod.collapse)
  note created = CreateIfExists_performs [OF create]
  show ?thesis
  proof (cases e)
    case None
    then have "s' = s1" using assms create by (simp add: update_service_def Let_def)
    moreover have "seen s1 = (seen s)(?p \<mapsto> (?n, 0))" using created None by (auto simp: performs_None split: if_splits)
    ultimately show ?thesis using closed_performs created by blast
  next
    case (Some e')
    then have e': "e' = ErrNodeExists" and same: "seen s1 = seen s"
      using assms create CreateIfExists_exists [of ?p ?n s s1] by (auto simp: update_service_def Let_def split: if_splits)
    obtain v where "Coordinator.Set c ?p ?n v s1 = (None, s')"
      using assms create Some e'
      by (auto simp: update_service_def Let_def split: prod.splits if_splits option.splits)
    from Set_performs [OF this] have "performs (seen s) [ZSet ?p ?n v] (None :: client_error option) (seen s')" using same by simp
    moreover from this have "seen s' = (seen s)(?p \<mapsto> (?n, v + 1))"
      by (auto simp: performs_None split: option.splits if_splits)
    ultimately show ?thesis using closed_performs by blast
  qed
qed

lemma UpdateService_writes:
  assumes "UpdateService c svc lockC lockU s = (None, s')" and "svc_ID svc \<noteq> ''''"
  shows "writes_services lockC [svc] (seen s) (seen s') \<and> (closed (seen s) \<longrightarrow> closed (seen s'))"
proof -
  obtain e s1 where dir: "CreateIfExists c [''services''] DirData s = (e, s1)" by (metis prod.collapse)
  have e: "e = None \<or> e = Some ErrNodeExists" and update: "update_service c lockC lockU svc s1 = (None, s')"
    using assms(1) dir by (auto simp: UpdateService_def UpdateServices_def split: if_splits option.splits prod.splits)
  have made: "performs (seen s) [ZCreate [''services''] DirData] e (seen s1)" using CreateIfExists_performs [OF dir] by simp
  then have "seen s1 = seen s \<or> seen s1 = (seen s)([''services''] \<mapsto> (DirData, 0))"
    by (cases rule: performs_cases) (auto split: if_splits)
  then have "(\<forall>q. q \<noteq> [''services''] \<longrightarrow> seen s1 q = seen s q) \<and> (closed (seen s) \<longrightarrow> closed (seen s1))"
    using closed_performs made by auto
  with update_service_writes [OF update assms(2)] show ?thesis by (auto simp: writes_services_def)
qed

lemma sync_services_writes:
  "sync_services c svcs s = (None, s') \<Longrightarrow> \<forall>svc \<in> set svcs. svc_ID svc \<noteq> '''' \<Longrightarrow>
     writes_services False svcs (seen s) (seen s') \<and> (closed (seen s) \<longrightarrow> closed (seen s'))"
proof (induction svcs arbitrary: s)
  case Nil
  then show ?case by (simp add: writes_services_def)
next
  case (Cons svc svcs)
  obtain s1 where first: "UpdateService c svc False False s = (None, s1)" and rest: "sync_services c svcs s1 = (None, s')"
    using Cons.prems(1) by (auto split: prod.splits option.splits)
  note w1 = UpdateService_writes [OF first] and w2 = Cons.IH [OF rest]
  have "seen s' [''services'', svc_ID svc] = seen s1 [''services'', svc_ID svc]" if "svc_ID svc \<notin> svc_ID ` set svcs"
    using w2 that Cons.prems(2) by (auto simp: writes_services_def)
  with w1 w2 Cons.prems(2) show ?case by (auto simp: writes_services_def)
qed

lemma delete_leftovers_deletes:
  "delete_leftovers c old s = (None, s') \<Longrightarrow> '''' \<notin> set old \<Longrightarrow> closed (seen s) \<Longrightarrow>
     (\<forall>id \<in> set old. \<forall>r. seen s' (''services'' # id # r) = None)
     \<and> (\<forall>q. (\<forall>id \<in> set old. \<not> prefix [''services'', id] q) \<longrightarrow> seen s' q = seen s q)
     \<and> (\<forall>q. seen s q = None \<longrightarrow> seen s' q = None)"
proof (induction old arbitrary: s)
  case (Cons id old)
  obtain s1 where first: "Coordinator.Delete c [''services'', id] s = (None, s1)" and rest: "delete_leftovers c old s1 = (None, s')"
    using Cons.prems(1,2) by (auto split: prod.splits option.splits)
  note d = Delete_deletes [OF first]
  have IH: "(\<forall>id \<in> set old. \<forall>r. seen s' (''services'' # id # r) = None)
     \<and> (\<forall>q. (\<forall>id \<in> set old. \<not> prefix [''services'', id] q) \<longrightarrow> seen s' q = seen s1 q)
     \<and> (\<forall>q. seen s1 q = None \<longrightarrow> seen s' q = None)"
    using Cons.IH [OF rest] Cons.prems(2,3) d by simp
  have "\<forall>r. seen s1 (''services'' # id # r) = None" using d Cons.prems(3) by simp
  moreover have "\<forall>q. \<not> prefix [''services'', id] q \<longrightarrow> seen s1 q = seen s q" "\<forall>q. seen s q = None \<longrightarrow> seen s1 q = None"
    using d shrinks_None by (auto simp: shrinks_def simp del: not_None_eq)
  ultimately show ?case using IH by simp
qed simp

lemma SyncServices_parts:
  assumes "closed (seen s)" and "seen s [''services'', ''''] = None" and "\<forall>svc \<in> set svcs. svc_ID svc \<noteq> ''''"
    and "SyncServices c svcs s = (None, s')"
  obtains t where "writes_services False svcs (seen s) t"
    and "\<forall>id. seen s [''services'', id] \<noteq> None \<and> id \<notin> svc_ID ` set svcs \<longrightarrow> (\<forall>r. seen s' (''services'' # id # r) = None)"
    and "\<forall>q. (\<forall>id. id \<notin> svc_ID ` set svcs \<longrightarrow> \<not> prefix [''services'', id] q) \<longrightarrow> seen s' q = t q"
    and "\<forall>q. t q = None \<longrightarrow> seen s' q = None"
proof -
  obtain ch where ch: "state_children c [''services''] s = Inr ch"
    using assms(4) by (auto simp: SyncServices_def split: sum.splits)
  have listed: "x \<in> set ch \<longleftrightarrow> seen s [''services'', x] \<noteq> None" for x
    using ch Children_seen [of "[''services'']" s ch] Children_missing [of "[''services'']" s]
      closed_below [OF assms(1), of "[''services'']" "[x]"]
    by (auto simp: state_children_def split: sum.splits if_splits)
  let ?old = "filter (\<lambda>id. id \<notin> set (map svc_ID svcs)) ch"
  obtain s1 where sync: "sync_services c svcs s = (None, s1)" and rest: "delete_leftovers c ?old s1 = (None, s')"
    using assms(4) ch by (auto simp: SyncServices_def split: option.splits prod.splits)
  note w = sync_services_writes [OF sync assms(3)]
  have "'''' \<notin> set ?old" using listed assms(2) by auto
  note d = delete_leftovers_deletes [OF rest this]
  have old: "id \<in> set ?old \<longleftrightarrow> seen s [''services'', id] \<noteq> None \<and> id \<notin> svc_ID ` set svcs" for id
    by (simp add: listed del: not_None_eq)
  have "closed (seen s1)" using w assms(1) by blast
  note d' = d [OF this]
  show ?thesis
  proof (rule that [of "seen s1"])
    show "writes_services False svcs (seen s) (seen s1)" using w by blast
    show "\<forall>id. seen s [''services'', id] \<noteq> None \<and> id \<notin> svc_ID ` set svcs \<longrightarrow> (\<forall>r. seen s' (''services'' # id # r) = None)"
      using d' old by blast
    show "\<forall>q. (\<forall>id. id \<notin> svc_ID ` set svcs \<longrightarrow> \<not> prefix [''services'', id] q) \<longrightarrow> seen s' q = seen s1 q"
      using d' old by blast
    show "\<forall>q. seen s1 q = None \<longrightarrow> seen s' q = None" using d' by blast
  qed
qed

end

text \<open>
  C27. Synchronising the services of a pool, when it reports success, leaves exactly the given
  services below \<^verbatim>\<open>/services\<close>, each with the node made from it; the instances of a service
  that stays and everything outside \<^verbatim>\<open>/services\<close> are as before. In particular every service
  ends up unlocked, whatever its node said before.
\<close>

theorem SyncServices_exact:
  assumes "connection z tree c" and "closed (view (c_basePath c) (tree s))"
    and "view (c_basePath c) (tree s) [''services'', ''''] = None"
    and "distinct (map svc_ID svcs)" and "\<forall>svc \<in> set svcs. svc_ID svc \<noteq> ''''"
    and "SyncServices c svcs s = (None, s')"
  shows "(\<forall>id. view (c_basePath c) (tree s') [''services'', id] \<noteq> None \<longleftrightarrow> id \<in> svc_ID ` set svcs)
    \<and> (\<forall>svc \<in> set svcs. \<exists>v. view (c_basePath c) (tree s') [''services'', svc_ID svc] = Some (service_node svc False, v))
    \<and> (\<forall>q. \<not> prefix [''services''] q \<longrightarrow> view (c_basePath c) (tree s') q = view (c_basePath c) (tree s) q)
    \<and> (\<forall>svc \<in> set svcs. \<forall>r. r \<noteq> [] \<longrightarrow> view (c_basePath c) (tree s') (''services'' # svc_ID svc # r)
         = view (c_basePath c) (tree s) (''services'' # svc_ID svc # r))"
proof -
  let ?s = "view (c_basePath c) (tree s)" and ?s' = "view (c_basePath c) (tree s')"
  have conn: "state_connection z tree c" using assms(1) by (rule state_connection.intro)
  obtain t where w: "writes_services False svcs ?s t"
    and gone: "\<forall>id. ?s [''services'', id] \<noteq> None \<and> id \<notin> svc_ID ` set svcs \<longrightarrow> (\<forall>r. ?s' (''services'' # id # r) = None)"
    and kept: "\<forall>q. (\<forall>id. id \<notin> svc_ID ` set svcs \<longrightarrow> \<not> prefix [''services'', id] q) \<longrightarrow> ?s' q = t q"
    and absent: "\<forall>q. t q = None \<longrightarrow> ?s' q = None"
    by (rule state_connection.SyncServices_parts [OF conn assms(2,3,5,6)])
  have stays: "?s' (''services'' # svc_ID svc # r) = t (''services'' # svc_ID svc # r)" if "svc \<in> set svcs" for svc r
    using kept that by (force simp: image_iff)
  have stored: "\<forall>svc \<in> set svcs. \<exists>v. ?s' [''services'', svc_ID svc] = Some (service_node svc False, v)"
    using w assms(4) stays by (simp add: writes_services_def)
  have none: "?s' [''services'', id] = None" if "id \<notin> svc_ID ` set svcs" for id
  proof (cases "?s [''services'', id] = None")
    case True
    moreover have "t [''services'', id] = ?s [''services'', id]" using w that by (auto simp: writes_services_def)
    ultimately show ?thesis using absent by simp
  qed (use gone that in blast)
  have exact: "\<forall>id. ?s' [''services'', id] \<noteq> None \<longleftrightarrow> id \<in> svc_ID ` set svcs"
  proof (intro allI iffI)
    fix id assume "?s' [''services'', id] \<noteq> None"
    then show "id \<in> svc_ID ` set svcs" using none [of id] by (rule contrapos_np)
  next
    fix id assume "id \<in> svc_ID ` set svcs"
    then show "?s' [''services'', id] \<noteq> None" using stored by (elim imageE) (drule (1) bspec, elim exE, simp)
  qed
  have "?s' q = ?s q" if q: "\<not> prefix [''services''] q" for q
  proof -
    have "\<not> prefix [''services'', id] q" for id using q by (auto simp: prefix_def)
    then have "?s' q = t q" using kept by blast
    moreover have "q \<noteq> [''services'']" "\<And>x. q \<noteq> [''services'', x]" using q by auto
    then have "t q = ?s q" using w by (simp add: writes_services_def)
    ultimately show ?thesis by simp
  qed
  moreover have "\<forall>svc \<in> set svcs. \<forall>r. r \<noteq> [] \<longrightarrow> ?s' (''services'' # svc_ID svc # r) = ?s (''services'' # svc_ID svc # r)"
    using stays w by (auto simp: writes_services_def)
  ultimately show ?thesis using exact stored by blast
qed

subsection \<open>A listener on the pool in memory\<close>

text \<open>The listener of the sample pool asks the leader of the sample environment for hosts.\<close>

definition sample_listener :: "Node mem Listener" where
  "sample_listener = \<lparr>l_conn = sample_conn, l_SelectHost = \<lambda>sn s. leader_SelectHost sample_env sn, l_poolid = '''', l_now = 7\<rparr>"

lemma sample_leader:
  assumes "leader_SelectHost sample_env sn = Inr h"
  shows "h = '''' \<or> h = ''h1''"
proof -
  have "le_registered sample_env = Inr [\<lparr>h_ID = ''h1'', h_Cores = 4, h_TotalRAM = 1000\<rparr>]"
    and "mset (le_order sample_env xs) = mset xs" for xs
    by (simp_all add: sample_env_def)
  from leader_SelectHost_places [OF this(2,1) _ assms] have "h = '''' \<or>
      (\<exists>a \<in> set (authenticated_hosts sample_env [\<lparr>h_ID = ''h1'', h_Cores = 4, h_TotalRAM = 1000\<rparr>]). h_ID a = h)" by auto
  then show ?thesis by (auto simp: authenticated_hosts_def split: if_splits)
qed

interpretation sample_listener: listener "mem_zk (\<lambda>_. False)" map_of sample_listener
proof (rule listener.intro)
  show "state_connection (mem_zk (\<lambda>_. False)) map_of (l_conn sample_listener)"
    by (simp add: sample_listener_def sample.state_connection_axioms)
  show "listener_axioms sample_listener"
    using sample_leader by (fastforce simp: listener_axioms_def plain_hosts_def sample_listener_def plain_def)
qed

definition sample_service :: "int \<Rightarrow> ServiceNode" where
  "sample_service n = sample_node\<lparr>sn_ID := ''s1'', sn_Instances := n, sn_HostPolicy := Balance\<rparr>"

lemma sample_simps:
  "plain (sn_ID (sample_service n))" "req_InstanceID (sample_req i) = i" "req_PoolID (sample_req i) = l_poolid sample_listener"
  by (simp_all add: sample_service_def sample_req_def sample_listener_def plain_def)

theorem Sync_starts_lowest_witness:
  "\<exists>h s'. Sync sample_listener False (sample_service 2) [sample_req 0] sample_zk = Some ((1, True), s') \<and> h \<noteq> ''''
     \<and> running sample_listener map_of s' = add_instances sample_listener (sample_service 2) [(h, 1)]
         (running sample_listener map_of sample_zk)"
proof -
  let ?sync = "Sync sample_listener False (sample_service 2) [sample_req 0] sample_zk"
  have "map_option fst ?sync = Some (1, True)" by code_simp
  then obtain s' where run: "?sync = Some ((1, True), s')" by auto
  have wanted: "wanted_instances (sample_service 2) [sample_req 0] = 2" by code_simp
  obtain ps hs where ps: "fills {0} 0 ps" "length ps = 1" and hs: "length hs = length ps" "'''' \<notin> set hs"
    and table: "running sample_listener map_of s' = add_instances sample_listener (sample_service 2) (zip hs ps)
      (running sample_listener map_of sample_zk)"
    using Sync_starts_lowest [OF sample_listener.listener_axioms sample_simps(1), of "[sample_req 0]" 2 sample_zk] run
    by (simp add: wanted sample_simps) metis
  obtain p h where p: "ps = [p]" "hs = [h]" using ps(2) hs(1) by (auto simp: length_Suc_conv)
  with ps(1) have "p \<noteq> 0" and "\<forall>m < p. m = 0" by (auto simp: fills_def)
  then have "p = 1" by (metis less_one linorder_neqE_nat One_nat_def zero_neq_one)
  with run hs table p show ?thesis by (intro exI [of _ h] exI [of _ s']) auto
qed

theorem Sync_stops_highest_witness:
  "\<exists>stop s'. length stop = 1 \<and> set stop \<subseteq> {sample_req 0, sample_req 1}
     \<and> Sync sample_listener False (sample_service 1) [sample_req 1, sample_req 0] sample_zk = Some ((-1, True), s')
     \<and> (\<forall>a. a \<notin> set stop \<longrightarrow> running sample_listener map_of s' a = running sample_listener map_of sample_zk a)"
proof -
  let ?reqs = "[sample_req 1, sample_req 0]"
  let ?sync = "Sync sample_listener False (sample_service 1) ?reqs sample_zk"
  have "map_option fst ?sync = Some (-1, True)" by code_simp
  then obtain s' where run: "?sync = Some ((-1, True), s')" by auto
  have wanted: "wanted_instances (sample_service 1) ?reqs = 1" by code_simp
  have distinct: "distinct ?reqs" by (simp add: sample_req_def)
  have wf: "\<forall>req \<in> set ?reqs. wf_req req \<and> req_PoolID req = l_poolid sample_listener"
    by (simp add: sample_simps wf_req_def) (simp add: sample_req_def plain_def in_int64_def)
  obtain keep stop where parts: "mset ?reqs = mset keep + mset stop" "length stop = 1"
    and kept: "\<forall>a. a \<notin> set stop \<longrightarrow> running sample_listener map_of s' a = running sample_listener map_of sample_zk a"
    using Sync_stops_highest [OF sample_listener.listener_axioms distinct wf, of "sample_service 1" False sample_zk] run
    by (auto simp: wanted)
  have "set stop \<subseteq> set ?reqs" using parts(1) by (metis set_mset_mset set_mset_union sup_ge2)
  with parts(2) kept run show ?thesis by auto
qed

text \<open>One service is new, one is left over.\<close>

definition sample_svc :: Service where
  "sample_svc = \<lparr>svc_ID = ''s2'', svc_Name = ''web'', svc_Launch = ''auto'', svc_PoolID = ''p'', svc_ParentServiceID = '''',
     svc_Instances = 1, svc_InstanceLimits = \<lparr>mm_Min = 0, mm_Max = 0, mm_Default = 0\<rparr>, svc_DesiredState = SVCRun,
     svc_CurrentState = '''', svc_HostPolicy = Balance, svc_ChangeOptions = [], svc_Endpoints = None,
     svc_StartLevel = 0, svc_EmergencyShutdownLevel = 0, svc_EmergencyShutdown = False,
     svc_CPUCommitment = 1, svc_RAMCommitment = 1, svc_DeploymentID = '''', svc_DatabaseVersion = 0\<rparr>"

theorem SyncServices_exact_witness:
  "\<exists>s'. SyncServices sample_conn [sample_svc] sample_zk = (None, s')
     \<and> (\<forall>id. map_of s' [''services'', id] \<noteq> None \<longleftrightarrow> id = ''s2'')"
proof -
  have "fst (SyncServices sample_conn [sample_svc] sample_zk) = None" by code_simp
  then obtain s' where run: "SyncServices sample_conn [sample_svc] sample_zk = (None, s')" by (metis prod.collapse)
  have "map_of sample_zk [''services'', ''''] = None" by code_simp
  then show ?thesis
    using SyncServices_exact [OF sample_connection _ _ _ _ run] run sample_closed by (auto simp: sample_base sample_svc_def)
qed

end
