(* ===== verification/Host_Listener.thy ===== *)
theory Host_Listener
  imports State_Nodes
begin

section \<open>The instances of a host\<close>

text \<open>
  \<^verbatim>\<open>zzk/service/hoststate.go\<close>: the listener that a delegate runs for the instances scheduled
  to its host. It starts, attaches to, pauses, restarts and stops containers as the desired
  states of the instances say, and keeps a table of the containers it knows, so that a
  container outlives a lost connection to the coordinator.

  The containers are behind the interface \<^verbatim>\<open>HostStateHandler\<close>, a record of functions here;
  they work on the same state as the coordinator's server, so what happens elsewhere (a
  container that dies, a shutdown that begins) is part of any of these operations. A
  channel that reports the exit of a container is a number; receiving from it gives the
  state in which it delivers, or \<open>None\<close> if it never does. The table holds pointers to
  service states that the goroutine of the instance changes before it stores them again;
  it does so only while the listener is not shutting down, and nothing reads the table's
  copy in between, so the table holds values.
\<close>

type_synonym chan = nat

record 's HostStateHandler =
  h_StopContainer :: "string \<Rightarrow> int \<Rightarrow> 's \<Rightarrow> string option \<times> 's"
  h_AttachContainer :: "ServiceState \<Rightarrow> string \<Rightarrow> int \<Rightarrow> 's \<Rightarrow> (string + chan option) \<times> 's"
  h_StartContainer :: "string \<Rightarrow> int \<Rightarrow> 's \<Rightarrow> (string + ServiceState \<times> chan) \<times> 's"
  h_RestartContainer :: "string \<Rightarrow> int \<Rightarrow> 's \<Rightarrow> string option \<times> 's"
  h_ResumeContainer :: "string \<Rightarrow> int \<Rightarrow> 's \<Rightarrow> string option \<times> 's"
  h_PauseContainer :: "string \<Rightarrow> int \<Rightarrow> 's \<Rightarrow> string option \<times> 's"

type_synonym threads = "(string, ServiceState \<times> chan option) gomap"

record 's HostStateListener =
  hl_conn :: "'s Conn"
  hl_handler :: "'s HostStateHandler"
  hl_hostID :: string
  hl_shutdown :: "'s \<Rightarrow> bool"
  hl_now :: "'s \<Rightarrow> int"
  hl_receive :: "chan \<Rightarrow> 's \<Rightarrow> 's option"

subsection \<open>The table of containers\<close>

definition getExistingThreadStateIDs :: "threads \<Rightarrow> string list" where
  "getExistingThreadStateIDs ts = keys ts"

definition getExistingThread :: "string \<Rightarrow> threads \<Rightarrow> ServiceState option \<times> chan option" where
  "getExistingThread stateID ts =
     (case map_of ts stateID of None \<Rightarrow> (None, None) | Some (d, exited) \<Rightarrow> (Some d, exited))"

definition setExistingThread :: "string \<Rightarrow> ServiceState \<Rightarrow> chan option \<Rightarrow> threads \<Rightarrow> threads" where
  "setExistingThread stateID d containerExit ts = gset stateID (d, containerExit) ts"

definition setExistingThreadOrShutdown ::
    "'s HostStateListener \<Rightarrow> string \<Rightarrow> ServiceState \<Rightarrow> chan option \<Rightarrow> threads \<Rightarrow> 's \<Rightarrow> bool \<times> threads" where
  "setExistingThreadOrShutdown l stateID d containerExit ts s =
     (if hl_shutdown l s then (False, ts) else (True, setExistingThread stateID d containerExit ts))"

definition removeExistingThread :: "string \<Rightarrow> threads \<Rightarrow> threads" where
  "removeExistingThread stateID ts = gdel stateID ts"

definition with_service_state :: "ServiceState \<Rightarrow> State \<Rightarrow> bool \<times> State" where
  "with_service_state d st = (True, st\<lparr>st_ServiceState := d\<rparr>)"

definition updateServiceStateInZK ::
    "'s HostStateListener \<Rightarrow> ServiceState \<Rightarrow> StateRequest \<Rightarrow> 's \<Rightarrow> state_error option \<times> 's" where
  "updateServiceStateInZK l d req s = UpdateState (hl_conn l) req (with_service_state d) s"

subsection \<open>Stopping containers\<close>

definition host_req :: "'s HostStateListener \<Rightarrow> string \<Rightarrow> int \<Rightarrow> StateRequest" where
  "host_req l serviceID instanceID =
     \<lparr>req_PoolID = '''', req_HostID = hl_hostID l, req_ServiceID = serviceID, req_InstanceID = instanceID\<rparr>"

definition shutDownContainer :: "'s HostStateListener \<Rightarrow> string \<Rightarrow> chan option \<Rightarrow> 's \<Rightarrow> 's option" where
  "shutDownContainer l stateID containerExit s =
     (case ParseStateID stateID of
        Inl _ \<Rightarrow> Some s
      | Inr (hostID, serviceID, instanceID) \<Rightarrow>
          (if hostID \<noteq> hl_hostID l then Some s
           else (case h_StopContainer (hl_handler l) serviceID instanceID s of
                   (e, s1) \<Rightarrow>
                     map_option (\<lambda>s2. snd (DeleteState (hl_conn l) (host_req l serviceID instanceID) s2))
                       (case (e, containerExit) of
                          (None, Some ch) \<Rightarrow> hl_receive l ch s1
                        | _ \<Rightarrow> Some s1))))"

text \<open>
  The goroutines of \<^verbatim>\<open>cleanUpContainers\<close> run one after the other here, in the order of the
  list of ids, which is arbitrary.
\<close>

fun shut_down_all :: "'s HostStateListener \<Rightarrow> (string \<times> chan option) list \<Rightarrow> 's \<Rightarrow> 's option" where
  "shut_down_all l [] s = Some s"
| "shut_down_all l ((stateID, cExit) # rest) s =
     (case shutDownContainer l stateID cExit s of None \<Rightarrow> None | Some s' \<Rightarrow> shut_down_all l rest s')"

definition cleanUpContainers :: "'s HostStateListener \<Rightarrow> string list \<Rightarrow> threads \<Rightarrow> 's \<Rightarrow> (threads \<times> 's) option" where
  "cleanUpContainers l stateIDs ts s =
     map_option (Pair (fold removeExistingThread stateIDs ts))
       (shut_down_all l (map (\<lambda>x. (x, snd (getExistingThread x ts))) stateIDs) s)"

definition PostProcess :: "'s HostStateListener \<Rightarrow> string list \<Rightarrow> threads \<Rightarrow> 's \<Rightarrow> (threads \<times> 's) option" where
  "PostProcess l p ts s =
     (let orphanedStates = filter (\<lambda>x. x \<notin> set p) (getExistingThreadStateIDs ts) in
      if length orphanedStates > 0 then cleanUpContainers l orphanedStates ts s else Some (ts, s))"

text \<open>What runs once the shutdown channel is closed.\<close>

definition watchForShutdown :: "'s HostStateListener \<Rightarrow> threads \<Rightarrow> 's \<Rightarrow> (threads \<times> 's) option" where
  "watchForShutdown l ts s = cleanUpContainers l (getExistingThreadStateIDs ts) ts s"

subsection \<open>Setting the state of an instance\<close>

text \<open>
  A goroutine of an instance goes on with a channel and a service state, or ends; it may
  also wait forever. \<open>give_up\<close> is how it ends after a failure.
\<close>

type_synonym ('a, 's) outcome = "('a option \<times> threads \<times> 's) option"

definition give_up :: "'s HostStateListener \<Rightarrow> string \<Rightarrow> threads \<Rightarrow> 's \<Rightarrow> ('a, 's) outcome" where
  "give_up l stateID ts s = map_option (Pair None) (cleanUpContainers l [stateID] ts s)"

definition attach_instance :: "'s HostStateListener \<Rightarrow> chan option \<Rightarrow> ServiceState \<Rightarrow> string \<Rightarrow> StateRequest \<Rightarrow>
    threads \<Rightarrow> 's \<Rightarrow> (chan option, 's) outcome" where
  "attach_instance l containerExit ssdat stateID req ts s =
     (if containerExit \<noteq> None then Some (Some containerExit, ts, s)
      else (case h_AttachContainer (hl_handler l) ssdat (req_ServiceID req) (req_InstanceID req) s of
              (Inl _, s1) \<Rightarrow> give_up l stateID ts s1
            | (Inr exited, s1) \<Rightarrow>
                (case setExistingThreadOrShutdown l stateID ssdat exited ts s1 of
                   (False, ts1) \<Rightarrow> Some (None, ts1, s1)
                 | (True, ts1) \<Rightarrow> Some (Some exited, ts1, s1))))"

text \<open>The table first, then the coordinator.\<close>

definition save_state :: "'s HostStateListener \<Rightarrow> chan option \<Rightarrow> ServiceState \<Rightarrow> string \<Rightarrow> StateRequest \<Rightarrow>
    (State \<Rightarrow> bool \<times> State) \<Rightarrow> threads \<Rightarrow> 's \<Rightarrow> (chan option \<times> ServiceState, 's) outcome" where
  "save_state l containerExit ssdat stateID req mutate ts s =
     (case setExistingThreadOrShutdown l stateID ssdat containerExit ts s of
        (False, ts1) \<Rightarrow> Some (None, ts1, s)
      | (True, ts1) \<Rightarrow>
          (case UpdateState (hl_conn l) req mutate s of
             (Some _, s1) \<Rightarrow> Some (None, ts1, s1)
           | (None, s1) \<Rightarrow> Some (Some (containerExit, ssdat), ts1, s1)))"

definition restart_done :: "State \<Rightarrow> bool \<times> State" where
  "restart_done st =
     (if hs_DesiredState (st_HostState st) = SVCRestart
      then (True, st\<lparr>st_HostState := (st_HostState st)\<lparr>hs_DesiredState := SVCRun\<rparr>\<rparr>) else (False, st))"

definition restarted :: "ServiceState \<Rightarrow> State \<Rightarrow> bool \<times> State" where
  "restarted d st = (True, snd (restart_done (st\<lparr>st_ServiceState := d\<rparr>)))"

definition run_instance :: "'s HostStateListener \<Rightarrow> chan option \<Rightarrow> ServiceState \<Rightarrow> string \<Rightarrow> StateRequest \<Rightarrow>
    threads \<Rightarrow> 's \<Rightarrow> (chan option \<times> ServiceState, 's) outcome" where
  "run_instance l containerExit ssdat stateID req ts s =
     (if containerExit = None then
        (case h_StartContainer (hl_handler l) (req_ServiceID req) (req_InstanceID req) s of
           (Inl _, s1) \<Rightarrow> give_up l stateID ts s1
         | (Inr (started, exited), s1) \<Rightarrow>
             save_state l (Some exited) started stateID req (with_service_state started) ts s1)
      else if ss_Paused ssdat then
        (case h_ResumeContainer (hl_handler l) (req_ServiceID req) (req_InstanceID req) s of
           (Some _, s1) \<Rightarrow> give_up l stateID ts s1
         | (None, s1) \<Rightarrow>
             (let resumed = ssdat\<lparr>ss_Paused := False\<rparr> in
              save_state l containerExit resumed stateID req (with_service_state resumed) ts s1))
      else Some (Some (containerExit, ssdat), ts, s))"

definition restart_instance :: "'s HostStateListener \<Rightarrow> chan option \<Rightarrow> ServiceState \<Rightarrow> string \<Rightarrow> StateRequest \<Rightarrow>
    threads \<Rightarrow> 's \<Rightarrow> (chan option \<times> ServiceState, 's) outcome" where
  "restart_instance l containerExit ssdat stateID req ts s =
     (if ss_Restarted ssdat < ss_Started ssdat then
        (case h_RestartContainer (hl_handler l) (req_ServiceID req) (req_InstanceID req) s of
           (Some _, s1) \<Rightarrow> give_up l stateID ts s1
         | (None, s1) \<Rightarrow>
             (let d = ssdat\<lparr>ss_Restarted := hl_now l s1\<rparr> in
              save_state l containerExit d stateID req (restarted d) ts s1))
      else
        (case UpdateState (hl_conn l) req restart_done s of
           (Some _, s1) \<Rightarrow> Some (None, ts, s1)
         | (None, s1) \<Rightarrow> Some (Some (containerExit, ssdat), ts, s1)))"

definition pause_instance :: "'s HostStateListener \<Rightarrow> chan option \<Rightarrow> ServiceState \<Rightarrow> string \<Rightarrow> StateRequest \<Rightarrow>
    threads \<Rightarrow> 's \<Rightarrow> (chan option \<times> ServiceState, 's) outcome" where
  "pause_instance l containerExit ssdat stateID req ts s =
     (if containerExit \<noteq> None \<and> \<not> ss_Paused ssdat then
        (case h_PauseContainer (hl_handler l) (req_ServiceID req) (req_InstanceID req) s of
           (Some _, s1) \<Rightarrow> give_up l stateID ts s1
         | (None, s1) \<Rightarrow>
             (let paused = ssdat\<lparr>ss_Paused := True\<rparr> in
              save_state l containerExit paused stateID req (with_service_state paused) ts s1))
      else Some (Some (containerExit, ssdat), ts, s))"

definition desired_instance :: "'s HostStateListener \<Rightarrow> chan option \<Rightarrow> ServiceState \<Rightarrow> HostState \<Rightarrow> string \<Rightarrow> StateRequest \<Rightarrow>
    threads \<Rightarrow> 's \<Rightarrow> (chan option \<times> ServiceState, 's) outcome" where
  "desired_instance l containerExit ssdat hsdat stateID req ts s =
     (if hs_DesiredState hsdat = SVCRun then run_instance l containerExit ssdat stateID req ts s
      else if hs_DesiredState hsdat = SVCRestart then restart_instance l containerExit ssdat stateID req ts s
      else if hs_DesiredState hsdat = SVCPause then pause_instance l containerExit ssdat stateID req ts s
      else if hs_DesiredState hsdat = SVCStop then give_up l stateID ts s
      else Some (Some (containerExit, ssdat), ts, s))"

definition setInstanceState :: "'s HostStateListener \<Rightarrow> chan option \<Rightarrow> ServiceState \<Rightarrow> HostState \<Rightarrow> string \<Rightarrow> StateRequest \<Rightarrow>
    threads \<Rightarrow> 's \<Rightarrow> (chan option \<times> ServiceState, 's) outcome" where
  "setInstanceState l containerExit ssdat hsdat stateID req ts s =
     (case attach_instance l containerExit ssdat stateID req ts s of
        None \<Rightarrow> None
      | Some (None, ts1, s1) \<Rightarrow> Some (None, ts1, s1)
      | Some (Some exited, ts1, s1) \<Rightarrow> desired_instance l exited ssdat hsdat stateID req ts1 s1)"

definition handleContainerExit :: "'s HostStateListener \<Rightarrow> int \<Rightarrow> ServiceState \<Rightarrow> string \<Rightarrow> StateRequest \<Rightarrow>
    threads \<Rightarrow> 's \<Rightarrow> ServiceState option \<times> threads \<times> 's" where
  "handleContainerExit l timeExit ssdat stateID req ts s =
     (if hl_shutdown l s then (None, ts, s)
      else (let d = ssdat\<lparr>ss_Terminated := timeExit\<rparr>; ts1 = setExistingThread stateID d None ts in
            case updateServiceStateInZK l d req s of
              (Some _, s1) \<Rightarrow> (None, ts1, s1)
            | (None, s1) \<Rightarrow> (Some d, ts1, s1)))"

subsection \<open>The goroutine of an instance\<close>

definition host_path :: "'s HostStateListener \<Rightarrow> string list \<Rightarrow> zpath" where
  "host_path l nodes = Join ([''hosts'', hl_hostID l, ''instances''] @ nodes)"

text \<open>
  \<^verbatim>\<open>Spawn\<close> up to its loop: the request, the channel and the service state to go on with. A
  known container is attached to; its service state is the one in the table.
\<close>

definition spawn_begin :: "'s HostStateListener \<Rightarrow> string \<Rightarrow> threads \<Rightarrow> 's \<Rightarrow>
    (StateRequest \<times> chan option \<times> ServiceState, 's) outcome" where
  "spawn_begin l stateID ts s =
     (if hl_shutdown l s then Some (None, ts, s)
      else (case ParseStateID stateID of
              Inl _ \<Rightarrow> Some (None, ts, snd (Coordinator.Delete (hl_conn l) (host_path l [stateID]) s))
            | Inr (hostID, serviceID, instanceID) \<Rightarrow>
                (if hostID \<noteq> hl_hostID l
                 then Some (None, ts, snd (Coordinator.Delete (hl_conn l) (host_path l [stateID]) s))
                 else (let req = host_req l serviceID instanceID in
                   case getExistingThread stateID ts of
                     (None, containerExit) \<Rightarrow>
                       (case get_as as_ServiceState (hl_conn l) (Join [''services'', serviceID, stateID]) s of
                          Inl e \<Rightarrow> if e = ErrNoNode then give_up l stateID ts s else Some (None, ts, s)
                        | Inr (ssdat, _) \<Rightarrow> Some (Some (req, containerExit, ssdat), ts, s))
                   | (Some ssdat, containerExit) \<Rightarrow>
                       (case updateServiceStateInZK l ssdat req s of
                          (Some _, s1) \<Rightarrow> Some (None, ts, s1)
                        | (None, s1) \<Rightarrow> Some (Some (req, containerExit, ssdat), ts, s1))))))"

text \<open>One turn of the loop, up to the wait for an event.\<close>

definition spawn_turn :: "'s HostStateListener \<Rightarrow> string \<Rightarrow> StateRequest \<Rightarrow> chan option \<Rightarrow> ServiceState \<Rightarrow>
    threads \<Rightarrow> 's \<Rightarrow> (chan option \<times> ServiceState, 's) outcome" where
  "spawn_turn l stateID req containerExit ssdat ts s =
     (case get_as as_HostState (hl_conn l) (host_path l [stateID]) s of
        Inl e \<Rightarrow> if e = ErrNoNode then give_up l stateID ts s else Some (None, ts, s)
      | Inr (hsdat, _) \<Rightarrow>
          (case ExistsW (hl_conn l) (Join [''services'', req_ServiceID req, stateID]) s of
             Inl _ \<Rightarrow> Some (None, ts, s)
           | Inr False \<Rightarrow> give_up l stateID ts s
           | Inr True \<Rightarrow>
               (case setInstanceState l containerExit ssdat hsdat stateID req ts s of
                  None \<Rightarrow> None
                | Some (None, ts1, s1) \<Rightarrow> Some (None, ts1, s1)
                | Some (Some (exited, d), ts1, s1) \<Rightarrow>
                    (if ss_AssignedIP d \<noteq> '''' \<and> \<not> ss_Static d then
                       (case ExistsW (hl_conn l) (Join [''hosts'', hl_hostID l, ''ips'', IPID \<lparr>ip_PoolID = '''', ip_HostID = hl_hostID l, ip_IPAddress = ss_AssignedIP d\<rparr>]) s1 of
                          Inl _ \<Rightarrow> Some (None, ts1, s1)
                        | Inr False \<Rightarrow> give_up l stateID ts1 s1
                        | Inr True \<Rightarrow> Some (Some (exited, d), ts1, s1))
                     else Some (Some (exited, d), ts1, s1)))))"

text \<open>What a goroutine waits for, and how it goes on.\<close>

datatype host_event = NodeChanged | ContainerExited int | Cancelled

definition spawn_event :: "'s HostStateListener \<Rightarrow> string \<Rightarrow> StateRequest \<Rightarrow> chan option \<Rightarrow> ServiceState \<Rightarrow> host_event \<Rightarrow>
    threads \<Rightarrow> 's \<Rightarrow> (chan option \<times> ServiceState) option \<times> threads \<times> 's" where
  "spawn_event l stateID req containerExit ssdat ev ts s =
     (case ev of
        NodeChanged \<Rightarrow> (Some (containerExit, ssdat), ts, s)
      | ContainerExited timeExit \<Rightarrow>
          (case handleContainerExit l timeExit ssdat stateID req ts s of
             (None, ts1, s1) \<Rightarrow> (None, ts1, s1)
           | (Some d, ts1, s1) \<Rightarrow> (Some (None, d), ts1, s1))
      | Cancelled \<Rightarrow> (None, ts, s))"

subsection \<open>What a host promises\<close>

text \<open>
  The containers of a host that are running, named by service and instance, and the
  container whose exit a channel reports. Containers may die at any moment, so an operation
  may always make that set smaller; only starting a container adds to it. Operations on
  containers may change the status that is shown for an instance, and nothing else of the
  coordinator's table.
\<close>

definition core :: "(StateRequest \<Rightarrow> State option) \<Rightarrow> StateRequest \<Rightarrow> (HostState \<times> ServiceState) option" where
  "core T a = map_option (\<lambda>st. (st_HostState st, st_ServiceState st)) (T a)"

locale container_host = state_connection z tree "hl_conn l"
  for z :: "(Node, 's) Zk" and tree :: "'s \<Rightarrow> nodes" and l :: "'s HostStateListener" +
  fixes running :: "'s \<Rightarrow> (string \<times> int) set" and owner :: "chan \<Rightarrow> string \<times> int"
  assumes Delete_calm: "zk_Delete z p v s = (ze, s') \<Longrightarrow> running s' \<subseteq> running s"
    and Multi_calm: "zk_Multi z ops s = (ze, s') \<Longrightarrow> running s' \<subseteq> running s"
    and StopContainer: "h_StopContainer (hl_handler l) sid i s = (e, s') \<Longrightarrow>
          running s' \<subseteq> running s \<and> (e = None \<longrightarrow> (sid, i) \<notin> running s')
          \<and> core (table '''' (seen s')) = core (table '''' (seen s))"
    and AttachContainer: "h_AttachContainer (hl_handler l) d sid i s = (r, s') \<Longrightarrow>
          running s' \<subseteq> running s \<and> (\<forall>ch. r = Inr (Some ch) \<longrightarrow> owner ch = (sid, i))
          \<and> core (table '''' (seen s')) = core (table '''' (seen s))"
    and StartContainer: "h_StartContainer (hl_handler l) sid i s = (x, s') \<Longrightarrow>
          running s' \<subseteq> insert (sid, i) (running s) \<and> (\<forall>d ch. x = Inr (d, ch) \<longrightarrow> owner ch = (sid, i))
          \<and> core (table '''' (seen s')) = core (table '''' (seen s))"
    and RestartContainer: "h_RestartContainer (hl_handler l) sid i s = (e, s') \<Longrightarrow>
          running s' \<subseteq> running s \<and> core (table '''' (seen s')) = core (table '''' (seen s))"
    and ResumeContainer: "h_ResumeContainer (hl_handler l) sid i s = (e, s') \<Longrightarrow>
          running s' \<subseteq> running s \<and> core (table '''' (seen s')) = core (table '''' (seen s))"
    and PauseContainer: "h_PauseContainer (hl_handler l) sid i s = (e, s') \<Longrightarrow>
          running s' \<subseteq> running s \<and> core (table '''' (seen s')) = core (table '''' (seen s))"
    and receive: "hl_receive l ch s = Some s' \<Longrightarrow>
          running s' \<subseteq> running s \<and> core (table '''' (seen s')) = core (table '''' (seen s))"
    and receive_delivers: "owner ch \<notin> running s \<Longrightarrow> hl_receive l ch s \<noteq> None"
    and plain_host: "plain (hl_hostID l)"
begin

lemma Commit_calm: "Commit (hl_conn l) ops s = (e, s') \<Longrightarrow> running s' \<subseteq> running s"
  using Multi_calm by (auto simp: Commit_def connected xlate_eq split: sum.splits)
    (metis prod.collapse subsetD)

lemma UpdateState_calm: "UpdateState (hl_conn l) req mutate s = (e, s') \<Longrightarrow> running s' \<subseteq> running s"
  using Commit_calm by (auto simp: UpdateState_def split: sum.splits prod.splits bool.splits option.splits)

lemma DeleteState_calm: "DeleteState (hl_conn l) req s = (e, s') \<Longrightarrow> running s' \<subseteq> running s"
  using Commit_calm by (auto simp: DeleteState_def split: sum.splits prod.splits option.splits)

lemma delete_list_calm:
  assumes "\<And>child s e s'. del child s = (e, s') \<Longrightarrow> running s' \<subseteq> running s"
  shows "delete_list del children s = (e, s') \<Longrightarrow> running s' \<subseteq> running s"
proof (induction children arbitrary: s)
  case (Cons child children)
  then show ?case using assms by (auto split: prod.splits option.splits) (metis subsetD)+
qed simp

lemma conn_delete_calm: "conn_delete n z base p s = (e, s') \<Longrightarrow> running s' \<subseteq> running s"
proof (induction n arbitrary: p s e s')
  case (Suc n)
  have children: "running s2 \<subseteq> running s1"
    if "delete_list (\<lambda>child. conn_delete n z base (p @ [child])) ch s1 = (e1, s2)" for ch s1 e1 s2
    using that by (rule delete_list_calm [rotated]) (rule Suc.IH)
  show ?case
  proof (cases "conn_children z base p s")
    case (Inr ch)
    obtain e1 s1 where list: "delete_list (\<lambda>child. conn_delete n z base (p @ [child])) ch s = (e1, s1)"
      by (metis prod.collapse)
    from children [OF list] have "running s1 \<subseteq> running s" .
    moreover have "running s' \<subseteq> running s1"
      using Suc.prems Inr list Delete_calm [of "base @ p" _ s1]
      by (auto simp: xlate_eq split: option.splits sum.splits) (metis prod.collapse subsetD)
    ultimately show ?thesis by blast
  qed (use Suc.prems in simp)
qed simp

lemma Delete_calm_conn: "Coordinator.Delete (hl_conn l) p s = (e, s') \<Longrightarrow> running s' \<subseteq> running s"
  by (simp add: Coordinator.Delete_def connected conn_delete_calm)

end

subsection \<open>No container is lost\<close>

text \<open>The state ids of the host that stand for a container.\<close>

definition names :: "'s HostStateListener \<Rightarrow> string \<Rightarrow> string \<times> int \<Rightarrow> bool" where
  "names l x k \<longleftrightarrow> ParseStateID x = Inr (hl_hostID l, k)"

definition tracked :: "'s HostStateListener \<Rightarrow> threads \<Rightarrow> (string \<times> int) set" where
  "tracked l ts = {k. \<exists>x \<in> set (keys ts). names l x k}"

definition owned :: "'s HostStateListener \<Rightarrow> (chan \<Rightarrow> string \<times> int) \<Rightarrow> threads \<Rightarrow> bool" where
  "owned l own ts \<longleftrightarrow> (\<forall>x d ch. map_of ts x = Some (d, Some ch) \<longrightarrow> names l x (own ch))"

lemma names_unique: "names l x k \<Longrightarrow> names l x k' \<Longrightarrow> k = k'"
  by (simp add: names_def)

lemma tracked_iff: "k \<in> tracked l ts \<longleftrightarrow> (\<exists>x. map_of ts x \<noteq> None \<and> names l x k)"
  by (auto simp: tracked_def map_of_eq_None_keys)

lemma tracked_set: "tracked l (setExistingThread x d ex ts) = tracked l ts \<union> {k. names l x k}"
  by (auto simp: set_eq_iff tracked_iff setExistingThread_def)

lemma owned_set:
  "owned l own ts \<Longrightarrow> \<forall>ch. ex = Some ch \<longrightarrow> names l x (own ch) \<Longrightarrow> owned l own (setExistingThread x d ex ts)"
  by (auto simp: owned_def setExistingThread_def)

lemma map_of_remove_all:
  "map_of (fold removeExistingThread ids ts) x = (if x \<in> set ids then None else map_of ts x)"
  by (induction ids arbitrary: ts) (auto simp: removeExistingThread_def)

lemma owned_remove_all: "owned l own ts \<Longrightarrow> owned l own (fold removeExistingThread ids ts)"
  by (auto simp: owned_def map_of_remove_all split: if_splits)

text \<open>What an operation on the table and the containers must not do: lose a container.\<close>

definition loses_none :: "'s HostStateListener \<Rightarrow> ('s \<Rightarrow> (string \<times> int) set) \<Rightarrow> (chan \<Rightarrow> string \<times> int) \<Rightarrow>
    threads \<Rightarrow> 's \<Rightarrow> threads \<Rightarrow> 's \<Rightarrow> bool" where
  "loses_none l run own ts s ts' s' \<longleftrightarrow> run s' - tracked l ts' \<subseteq> run s - tracked l ts
     \<and> (owned l own ts \<longrightarrow> owned l own ts')"

locale reliable_host = container_host z tree l running owner
  for z :: "(Node, 's) Zk" and tree :: "'s \<Rightarrow> nodes" and l :: "'s HostStateListener"
    and running :: "'s \<Rightarrow> (string \<times> int) set" and owner :: "chan \<Rightarrow> string \<times> int" +
  assumes stops: "fst (h_StopContainer (hl_handler l) sid i s) = None"
begin

abbreviation keeps :: "threads \<Rightarrow> 's \<Rightarrow> threads \<Rightarrow> 's \<Rightarrow> bool" where
  "keeps \<equiv> loses_none l running owner"

lemma shutDownContainer_stops:
  assumes "shutDownContainer l x ex s = Some s'"
  shows "running s' \<subseteq> running s \<and> (\<forall>k. names l x k \<longrightarrow> k \<notin> running s')"
proof (cases "\<exists>k. names l x k")
  case True
  then obtain sid i where k: "ParseStateID x = Inr (hl_hostID l, sid, i)" by (auto simp: names_def)
  obtain s1 where stop: "h_StopContainer (hl_handler l) sid i s = (None, s1)"
    using stops by (metis prod.collapse)
  obtain s2 where s2: "(case ex of None \<Rightarrow> Some s1 | Some ch \<Rightarrow> hl_receive l ch s1) = Some s2"
      "s' = snd (DeleteState (hl_conn l) (host_req l sid i) s2)"
    using assms k stop by (auto simp: shutDownContainer_def split: option.splits)
  have "running s1 \<subseteq> running s" "(sid, i) \<notin> running s1" using StopContainer [OF stop] by auto
  moreover have "running s2 \<subseteq> running s1" using s2(1) receive by (auto split: option.splits)
  moreover have "running s' \<subseteq> running s2" using s2(2) DeleteState_calm by (metis prod.collapse)
  ultimately show ?thesis using k by (auto simp: names_def)
next
  case False
  then show ?thesis using assms by (auto simp: shutDownContainer_def names_def split: sum.splits if_splits)
qed

lemma shutDownContainer_returns:
  assumes "\<forall>ch. ex = Some ch \<longrightarrow> names l x (owner ch)"
  shows "shutDownContainer l x ex s \<noteq> None"
proof (cases "\<exists>k. names l x k")
  case True
  then obtain sid i where k: "ParseStateID x = Inr (hl_hostID l, sid, i)" by (auto simp: names_def)
  obtain s1 where stop: "h_StopContainer (hl_handler l) sid i s = (None, s1)"
    using stops by (metis prod.collapse)
  have "hl_receive l ch s1 \<noteq> None" if "ex = Some ch" for ch
    using receive_delivers [of ch s1] StopContainer [OF stop] assms that k by (auto simp: names_def)
  then show ?thesis using k stop by (auto simp: shutDownContainer_def split: option.splits)
next
  case False
  then show ?thesis by (auto simp: shutDownContainer_def names_def split: sum.splits)
qed

lemma shut_down_all_stops:
  "shut_down_all l xs s = Some s' \<Longrightarrow>
     running s' \<subseteq> running s \<and> (\<forall>x \<in> fst ` set xs. \<forall>k. names l x k \<longrightarrow> k \<notin> running s')"
proof (induction xs arbitrary: s)
  case (Cons a xs)
  obtain x ex where a: "a = (x, ex)" by (cases a)
  obtain s1 where "shutDownContainer l x ex s = Some s1" "shut_down_all l xs s1 = Some s'"
    using Cons.prems a by (auto split: option.splits)
  then show ?case using shutDownContainer_stops [of x ex s s1] Cons.IH [of s1] a by auto
qed simp

lemma shut_down_all_returns:
  "\<forall>(x, ex) \<in> set xs. \<forall>ch. ex = Some ch \<longrightarrow> names l x (owner ch) \<Longrightarrow> shut_down_all l xs s \<noteq> None"
proof (induction xs arbitrary: s)
  case (Cons a xs)
  then show ?case
    using shutDownContainer_returns [of "snd a" "fst a"] by (cases a) (auto split: option.splits)
qed simp

lemma keeps_refl: "running s' \<subseteq> running s \<Longrightarrow> keeps ts s ts s'"
  by (auto simp: loses_none_def)

lemma keeps_trans: "keeps ts s ts1 s1 \<Longrightarrow> keeps ts1 s1 ts2 s2 \<Longrightarrow> keeps ts s ts2 s2"
  by (auto simp: loses_none_def)

lemma cleanUpContainers_effect:
  assumes "cleanUpContainers l ids ts s = Some (ts', s')"
  shows "running s' \<subseteq> running s \<and> (\<forall>x \<in> set ids. \<forall>k. names l x k \<longrightarrow> k \<notin> running s')
    \<and> ts' = fold removeExistingThread ids ts"
  using assms shut_down_all_stops by (fastforce simp: cleanUpContainers_def)

lemma cleanUpContainers_keeps:
  assumes "cleanUpContainers l ids ts s = Some (ts', s')"
  shows "keeps ts s ts' s'"
  using cleanUpContainers_effect [OF assms] owned_remove_all
  by (fastforce simp: loses_none_def tracked_iff map_of_remove_all split: if_splits)

lemma cleanUpContainers_returns:
  assumes "owned l owner ts"
  shows "cleanUpContainers l ids ts s \<noteq> None"
proof -
  have "\<forall>(x, ex) \<in> set (map (\<lambda>x. (x, snd (getExistingThread x ts))) ids). \<forall>ch. ex = Some ch \<longrightarrow> names l x (owner ch)"
    using assms by (auto simp: getExistingThread_def owned_def split: option.splits)
  from shut_down_all_returns [OF this] show ?thesis by (simp add: cleanUpContainers_def)
qed

lemma give_up_keeps: "give_up l x ts s = Some (r, ts', s') \<Longrightarrow> keeps ts s ts' s' \<and> r = None"
  using cleanUpContainers_keeps by (auto simp: give_up_def)

lemma give_up_returns: "owned l owner ts \<Longrightarrow> give_up l x ts s \<noteq> None"
  using cleanUpContainers_returns by (simp add: give_up_def)

end

subsection \<open>What the goroutine of an instance keeps\<close>

text \<open>A request, a state id and a channel that belong together.\<close>

definition belongs :: "'s HostStateListener \<Rightarrow> (chan \<Rightarrow> string \<times> int) \<Rightarrow> string \<Rightarrow> StateRequest \<Rightarrow> chan option \<Rightarrow> bool" where
  "belongs l own x req ex \<longleftrightarrow> (\<exists>sid i. ParseStateID x = Inr (hl_hostID l, sid, i) \<and> req = host_req l sid i
     \<and> (\<forall>ch. ex = Some ch \<longrightarrow> own ch = (sid, i)))"

lemma belongs_names: "belongs l own x req ex \<Longrightarrow> names l x (req_ServiceID req, req_InstanceID req)"
  by (auto simp: belongs_def names_def host_req_def)

lemma belongs_chan: "belongs l own x req (Some ch) \<Longrightarrow> names l x (own ch)"
  by (auto simp: belongs_def names_def)

lemma belongs_other:
  "belongs l own x req ex \<Longrightarrow> \<forall>ch. ex' = Some ch \<longrightarrow> own ch = (req_ServiceID req, req_InstanceID req) \<Longrightarrow> belongs l own x req ex'"
  by (auto simp: belongs_def host_req_def)

context reliable_host
begin

lemma set_keeps:
  assumes "\<forall>ch. ex = Some ch \<longrightarrow> names l x (owner ch)" and "running s' \<subseteq> running s"
  shows "keeps ts s (setExistingThread x d ex ts) s'"
  using assms owned_set [of l owner ts ex x d] by (auto simp: loses_none_def tracked_set)

lemma setOrShutdown_keeps:
  assumes "setExistingThreadOrShutdown l x d ex ts s' = (b, ts')"
    and "\<forall>ch. ex = Some ch \<longrightarrow> names l x (owner ch)" and "running s' \<subseteq> running s"
  shows "keeps ts s ts' s' \<and> (b \<longrightarrow> ts' = setExistingThread x d ex ts)"
  using assms set_keeps keeps_refl by (auto simp: setExistingThreadOrShutdown_def split: if_splits)

lemma started_keeps:
  assumes "map_of ts x \<noteq> None" and "names l x k" and "running s' \<subseteq> insert k (running s)"
  shows "keeps ts s ts s'"
proof -
  have "k \<in> tracked l ts" using assms(1,2) by (auto simp: tracked_iff)
  then show ?thesis using assms(3) by (auto simp: loses_none_def)
qed

lemma save_keeps:
  assumes "save_state l ex d x req mutate ts s = Some (r, ts', s')" and "belongs l owner x req ex"
  shows "keeps ts s ts' s' \<and> (\<forall>ex' d'. r = Some (ex', d') \<longrightarrow> belongs l owner x req ex')"
proof -
  have chan: "\<forall>ch. ex = Some ch \<longrightarrow> names l x (owner ch)" using assms(2) belongs_chan by blast
  obtain b ts1 where entered: "setExistingThreadOrShutdown l x d ex ts s = (b, ts1)" by (metis prod.collapse)
  obtain e s1 where update: "UpdateState (hl_conn l) req mutate s = (e, s1)" by (metis prod.collapse)
  note keep = setOrShutdown_keeps [OF entered chan]
  show ?thesis
  proof (cases b)
    case True
    then have "s' = s1 \<and> ts' = ts1 \<and> (\<forall>ex' d'. r = Some (ex', d') \<longrightarrow> ex' = ex)"
      using assms(1) entered update by (auto simp: save_state_def split: option.splits)
    then show ?thesis
      using keeps_trans [OF conjunct1 [OF keep] keeps_refl [OF UpdateState_calm [OF update]], of s] assms(2) by auto
  next
    case False
    then show ?thesis using assms(1) entered keep by (auto simp: save_state_def)
  qed
qed

lemma attach_keeps:
  assumes "attach_instance l ex d x req ts s = Some (r, ts', s')" and "belongs l owner x req ex"
  shows "keeps ts s ts' s' \<and> (\<forall>ex'. r = Some ex' \<longrightarrow> belongs l owner x req ex' \<and> (ex' = None \<longrightarrow> map_of ts' x \<noteq> None))"
proof (cases "ex = None")
  case False
  then show ?thesis using assms by (auto simp: attach_instance_def intro: keeps_refl)
next
  case True
  obtain a s1 where attach: "h_AttachContainer (hl_handler l) d (req_ServiceID req) (req_InstanceID req) s = (a, s1)"
    by (metis prod.collapse)
  have calm: "running s1 \<subseteq> running s" using AttachContainer [OF attach] by simp
  show ?thesis
  proof (cases a)
    case (Inl e)
    then have up: "give_up l x ts s1 = Some (r, ts', s')" using assms(1) True attach by (simp add: attach_instance_def)
    from keeps_trans [OF keeps_refl [OF calm] conjunct1 [OF give_up_keeps [OF up]]] give_up_keeps [OF up]
    show ?thesis by simp
  next
    case (Inr ex')
    have own: "belongs l owner x req ex'" using belongs_other [OF assms(2)] AttachContainer [OF attach] Inr by auto
    obtain b ts1 where entered: "setExistingThreadOrShutdown l x d ex' ts s1 = (b, ts1)" by (metis prod.collapse)
    have "\<forall>ch. ex' = Some ch \<longrightarrow> names l x (owner ch)" using own belongs_chan by blast
    from setOrShutdown_keeps [OF entered this calm] show ?thesis
      using assms(1) True attach Inr entered own
      by (cases b) (auto simp: attach_instance_def setExistingThread_def)
  qed
qed

lemma give_up_keeps_from:
  assumes "give_up l x ts s1 = Some (r, ts', s')" and "keeps ts s ts s1"
  shows "keeps ts s ts' s' \<and> r = None"
  using give_up_keeps [OF assms(1)] keeps_trans [OF assms(2)] by blast

lemma save_keeps_from:
  assumes "save_state l ex d x req mutate ts s1 = Some (r, ts', s')" and "belongs l owner x req ex" and "keeps ts s ts s1"
  shows "keeps ts s ts' s' \<and> (\<forall>ex' d'. r = Some (ex', d') \<longrightarrow> belongs l owner x req ex')"
  using save_keeps [OF assms(1,2)] keeps_trans [OF assms(3)] by blast

lemma run_keeps:
  assumes "run_instance l ex d x req ts s = Some (r, ts', s')" and "belongs l owner x req ex"
    and "ex = None \<longrightarrow> map_of ts x \<noteq> None"
  shows "keeps ts s ts' s' \<and> (\<forall>ex' d'. r = Some (ex', d') \<longrightarrow> belongs l owner x req ex')"
proof (cases "ex = None")
  case True
  obtain a s1 where start: "h_StartContainer (hl_handler l) (req_ServiceID req) (req_InstanceID req) s = (a, s1)"
    by (metis prod.collapse)
  have keep: "keeps ts s ts s1"
    using started_keeps [OF _ belongs_names [OF assms(2)]] StartContainer [OF start] assms(3) True by simp
  have "belongs l owner x req (Some ch)" if "a = Inr (d', ch)" for d' ch
    using belongs_other [OF assms(2)] StartContainer [OF start] that by auto
  then show ?thesis
    using assms(1) True start give_up_keeps_from [OF _ keep] save_keeps_from [OF _ _ keep]
    by (auto simp: run_instance_def split: sum.splits prod.splits)
next
  case False
  obtain e s1 where resume: "h_ResumeContainer (hl_handler l) (req_ServiceID req) (req_InstanceID req) s = (e, s1)"
    by (metis prod.collapse)
  have keep: "keeps ts s ts s1" using ResumeContainer [OF resume] by (simp add: keeps_refl)
  show ?thesis
  proof (cases "ss_Paused d")
    case True
    then show ?thesis
      using assms(1,2) False resume give_up_keeps_from [OF _ keep] save_keeps_from [OF _ _ keep]
      by (cases e) (auto simp: run_instance_def Let_def)
  next
    case paused: False
    then show ?thesis using assms(1,2) False by (auto simp: run_instance_def keeps_refl)
  qed
qed

end

context reliable_host
begin

lemma restart_keeps:
  assumes "restart_instance l ex d x req ts s = Some (r, ts', s')" and "belongs l owner x req ex"
  shows "keeps ts s ts' s' \<and> (\<forall>ex' d'. r = Some (ex', d') \<longrightarrow> belongs l owner x req ex')"
proof (cases "ss_Restarted d < ss_Started d")
  case True
  obtain e s1 where restart: "h_RestartContainer (hl_handler l) (req_ServiceID req) (req_InstanceID req) s = (e, s1)"
    by (metis prod.collapse)
  have keep: "keeps ts s ts s1" using RestartContainer [OF restart] by (simp add: keeps_refl)
  show ?thesis
    using assms True restart give_up_keeps_from [OF _ keep] save_keeps_from [OF _ _ keep]
    by (cases e) (auto simp: restart_instance_def Let_def)
next
  case False
  obtain e s1 where update: "UpdateState (hl_conn l) req restart_done s = (e, s1)" by (metis prod.collapse)
  show ?thesis
    using assms False update keeps_refl [OF UpdateState_calm [OF update]]
    by (cases e) (auto simp: restart_instance_def)
qed

lemma pause_keeps:
  assumes "pause_instance l ex d x req ts s = Some (r, ts', s')" and "belongs l owner x req ex"
  shows "keeps ts s ts' s' \<and> (\<forall>ex' d'. r = Some (ex', d') \<longrightarrow> belongs l owner x req ex')"
proof (cases "ex \<noteq> None \<and> \<not> ss_Paused d")
  case True
  obtain e s1 where pause: "h_PauseContainer (hl_handler l) (req_ServiceID req) (req_InstanceID req) s = (e, s1)"
    by (metis prod.collapse)
  have keep: "keeps ts s ts s1" using PauseContainer [OF pause] by (simp add: keeps_refl)
  show ?thesis
    using assms True pause give_up_keeps_from [OF _ keep] save_keeps_from [OF _ _ keep]
    by (cases e) (auto simp: pause_instance_def Let_def)
next
  case False
  then show ?thesis using assms by (auto simp: pause_instance_def keeps_refl)
qed

lemma desired_keeps:
  assumes "desired_instance l ex d hs x req ts s = Some (r, ts', s')" and "belongs l owner x req ex"
    and "ex = None \<longrightarrow> map_of ts x \<noteq> None"
  shows "keeps ts s ts' s' \<and> (\<forall>ex' d'. r = Some (ex', d') \<longrightarrow> belongs l owner x req ex')"
  using assms run_keeps restart_keeps pause_keeps give_up_keeps
  by (fastforce simp: desired_instance_def keeps_refl split: if_splits)

lemma setInstanceState_keeps:
  assumes "setInstanceState l ex d hs x req ts s = Some (r, ts', s')" and "belongs l owner x req ex"
  shows "keeps ts s ts' s' \<and> (\<forall>ex' d'. r = Some (ex', d') \<longrightarrow> belongs l owner x req ex')"
proof -
  obtain r1 ts1 s1 where attach: "attach_instance l ex d x req ts s = Some (r1, ts1, s1)"
    using assms(1) by (auto simp: setInstanceState_def split: option.splits)
  note keep = attach_keeps [OF attach assms(2)]
  show ?thesis
  proof (cases r1)
    case None
    then show ?thesis using assms(1) attach keep by (simp add: setInstanceState_def)
  next
    case (Some ex1)
    then have "desired_instance l ex1 d hs x req ts1 s1 = Some (r, ts', s')"
      using assms(1) attach by (simp add: setInstanceState_def)
    from desired_keeps [OF this] keep Some show ?thesis using keeps_trans by blast
  qed
qed

lemma turn_keeps:
  assumes "spawn_turn l x req ex d ts s = Some (r, ts', s')" and "belongs l owner x req ex"
  shows "keeps ts s ts' s' \<and> (\<forall>ex' d'. r = Some (ex', d') \<longrightarrow> belongs l owner x req ex')"
proof -
  have still: "keeps ts s ts s" by (simp add: keeps_refl)
  consider (out) "give_up l x ts s = Some (r, ts', s')" | (stay) "r = None" "ts' = ts" "s' = s"
    | (entered) hs r1 ts1 s1 where "setInstanceState l ex d hs x req ts s = Some (r1, ts1, s1)"
        "(r, ts', s') = (r1, ts1, s1) \<or> (r = None \<and> ts' = ts1 \<and> s' = s1) \<or> give_up l x ts1 s1 = Some (r, ts', s')"
    using assms(1)
    by (fastforce simp: spawn_turn_def split: sum.splits if_splits bool.splits option.splits prod.splits)
  then show ?thesis
  proof cases
    case out
    then show ?thesis using give_up_keeps by fastforce
  next
    case stay
    then show ?thesis using still by simp
  next
    case entered
    note keep = setInstanceState_keeps [OF entered(1) assms(2)]
    from entered(2) show ?thesis using keep give_up_keeps [of x ts1 s1 r ts' s'] keeps_trans by blast
  qed
qed

lemma begin_keeps:
  assumes "spawn_begin l x ts s = Some (r, ts', s')" and "owned l owner ts"
  shows "keeps ts s ts' s' \<and> (\<forall>req ex d. r = Some (req, ex, d) \<longrightarrow> belongs l owner x req ex)"
proof (cases "hl_shutdown l s \<or> \<not> (\<exists>k. names l x k)")
  case True
  then have "r = None \<and> ts' = ts \<and> (s' = s \<or> (\<exists>p. s' = snd (Coordinator.Delete (hl_conn l) p s)))"
    using assms(1) by (auto simp: spawn_begin_def names_def split: if_splits sum.splits)
  then show ?thesis using Delete_calm_conn by (auto intro!: keeps_refl) (metis prod.collapse subsetD)
next
  case False
  then obtain sid i where parse: "ParseStateID x = Inr (hl_hostID l, sid, i)" by (auto simp: names_def)
  obtain od ex where thread: "getExistingThread x ts = (od, ex)" by (metis prod.collapse)
  have own: "belongs l owner x (host_req l sid i) ex"
    using parse thread assms(2)
    by (auto simp: belongs_def owned_def names_def getExistingThread_def split: option.splits)
  show ?thesis
  proof (cases od)
    case None
    then show ?thesis
      using assms(1) False parse thread own give_up_keeps
      by (fastforce simp: spawn_begin_def Let_def keeps_refl split: sum.splits if_splits prod.splits)
  next
    case (Some d)
    obtain e s1 where update: "updateServiceStateInZK l d (host_req l sid i) s = (e, s1)" by (metis prod.collapse)
    then have "running s1 \<subseteq> running s" using UpdateState_calm by (simp add: updateServiceStateInZK_def)
    then show ?thesis
      using assms(1) False parse thread Some update own
      by (cases e) (auto simp: spawn_begin_def Let_def keeps_refl)
  qed
qed

lemma event_keeps:
  assumes "spawn_event l x req ex d ev ts s = (r, ts', s')" and "belongs l owner x req ex"
  shows "keeps ts s ts' s' \<and> (\<forall>ex' d'. r = Some (ex', d') \<longrightarrow> belongs l owner x req ex')"
proof (cases "\<exists>t. ev = ContainerExited t \<and> \<not> hl_shutdown l s")
  case True
  then obtain t where ev: "ev = ContainerExited t" "\<not> hl_shutdown l s" by blast
  let ?d = "d\<lparr>ss_Terminated := t\<rparr>"
  obtain e s1 where update: "updateServiceStateInZK l ?d req s = (e, s1)" by (metis prod.collapse)
  then have "running s1 \<subseteq> running s" using UpdateState_calm by (simp add: updateServiceStateInZK_def)
  with set_keeps [of None x s1 s ts ?d] have "keeps ts s (setExistingThread x ?d None ts) s1" by simp
  then show ?thesis
    using assms ev update belongs_other [OF assms(2), of None]
    by (cases e) (auto simp: spawn_event_def handleContainerExit_def Let_def)
next
  case False
  then show ?thesis
    using assms by (cases ev) (auto simp: spawn_event_def handleContainerExit_def keeps_refl split: if_splits)
qed

end

subsection \<open>Operations one after the other\<close>

text \<open>
  The goroutines of the instances, the table and the state of host and coordinator. A step
  runs one operation to its end.
\<close>

type_synonym 's host = "(string \<Rightarrow> (StateRequest \<times> chan option \<times> ServiceState) option) \<times> threads \<times> 's"

inductive host_step :: "'s HostStateListener \<Rightarrow> 's host \<Rightarrow> 's host \<Rightarrow> bool" for l :: "'s HostStateListener" where
  spawned: "gs x = None \<Longrightarrow> spawn_begin l x ts s = Some (r, ts', s') \<Longrightarrow>
    host_step l (gs, ts, s) (gs(x := r), ts', s')"
| turned: "gs x = Some (req, ex, d) \<Longrightarrow> spawn_turn l x req ex d ts s = Some (r, ts', s') \<Longrightarrow>
    host_step l (gs, ts, s) (gs(x := map_option (Pair req) r), ts', s')"
| event: "gs x = Some (req, ex, d) \<Longrightarrow> spawn_event l x req ex d ev ts s = (r, ts', s') \<Longrightarrow>
    host_step l (gs, ts, s) (gs(x := map_option (Pair req) r), ts', s')"
| processed: "PostProcess l p ts s = Some (ts', s') \<Longrightarrow> host_step l (gs, ts, s) (gs, ts', s')"
| shut_down: "watchForShutdown l ts s = Some (ts', s') \<Longrightarrow> host_step l (gs, ts, s) (gs, ts', s')"

definition host_ok :: "'s HostStateListener \<Rightarrow> (chan \<Rightarrow> string \<times> int) \<Rightarrow> 's host \<Rightarrow> bool" where
  "host_ok l own st = (case st of (gs, ts, s) \<Rightarrow>
     owned l own ts \<and> (\<forall>x req ex d. gs x = Some (req, ex, d) \<longrightarrow> belongs l own x req ex))"

context reliable_host
begin

lemma PostProcess_keeps: "PostProcess l p ts s = Some (ts', s') \<Longrightarrow> keeps ts s ts' s'"
  using cleanUpContainers_keeps by (auto simp: PostProcess_def Let_def keeps_refl split: if_splits)

lemma watchForShutdown_keeps: "watchForShutdown l ts s = Some (ts', s') \<Longrightarrow> keeps ts s ts' s'"
  using cleanUpContainers_keeps by (auto simp: watchForShutdown_def)

lemma host_step_keeps:
  "host_step l (gs, ts, s) (gs', ts', s') \<Longrightarrow> host_ok l owner (gs, ts, s) \<Longrightarrow>
     keeps ts s ts' s' \<and> host_ok l owner (gs', ts', s')"
proof (induction "(gs, ts, s)" "(gs', ts', s')" rule: host_step.induct)
  case (spawned x r)
  then show ?case using begin_keeps [of x ts s r ts' s']
    by (auto simp: host_ok_def loses_none_def split: if_splits)
next
  case (turned x req ex d r)
  then have own: "belongs l owner x req ex" by (auto simp: host_ok_def)
  from turn_keeps [OF turned(2) own] turned(3,4) show ?case
    by (auto simp: host_ok_def loses_none_def split: if_splits)
next
  case (event x req ex d ev r)
  then have own: "belongs l owner x req ex" by (auto simp: host_ok_def)
  from event_keeps [OF event(2) own] event(3,4) show ?case
    by (auto simp: host_ok_def loses_none_def split: if_splits)
next
  case (processed p)
  from PostProcess_keeps [OF processed(1)] processed(2-) show ?case by (auto simp: host_ok_def loses_none_def)
next
  case shut_down
  from watchForShutdown_keeps [OF shut_down(1)] shut_down(2-) show ?case by (auto simp: host_ok_def loses_none_def)
qed

lemma host_steps_keep:
  assumes "(host_step l)\<^sup>*\<^sup>* (gs, ts, s) (gs', ts', s')" and "host_ok l owner (gs, ts, s)"
  shows "keeps ts s ts' s' \<and> host_ok l owner (gs', ts', s')"
  using assms
proof (induction "(gs', ts', s')" arbitrary: gs' ts' s' rule: rtranclp_induct)
  case base
  then show ?case by (simp add: keeps_refl)
next
  case (step y)
  obtain gs1 ts1 s1 where y: "y = (gs1, ts1, s1)" by (cases y)
  have "keeps ts s ts1 s1 \<and> host_ok l owner (gs1, ts1, s1)" using step.hyps(3) [OF y step.prems] .
  then show ?case using host_step_keeps step.hyps(2) y keeps_trans by blast
qed

lemma save_returns: "save_state l ex d x req mutate ts s \<noteq> None"
  by (auto simp: save_state_def split: prod.splits bool.splits option.splits)

lemma run_returns: "owned l owner ts \<Longrightarrow> run_instance l ex d x req ts s \<noteq> None"
  by (simp add: give_up_returns save_returns run_instance_def Let_def del: not_None_eq split: prod.split sum.split option.split)

lemma restart_returns: "owned l owner ts \<Longrightarrow> restart_instance l ex d x req ts s \<noteq> None"
  by (simp add: give_up_returns save_returns restart_instance_def Let_def del: not_None_eq split: prod.split option.split)

lemma pause_returns: "owned l owner ts \<Longrightarrow> pause_instance l ex d x req ts s \<noteq> None"
  by (simp add: give_up_returns save_returns pause_instance_def Let_def del: not_None_eq split: prod.split option.split)

lemma attach_returns: "owned l owner ts \<Longrightarrow> attach_instance l ex d x req ts s \<noteq> None"
  by (simp add: give_up_returns attach_instance_def del: not_None_eq split: prod.split sum.split bool.split)

lemma desired_returns: "owned l owner ts \<Longrightarrow> desired_instance l ex d hs x req ts s \<noteq> None"
  by (simp add: give_up_returns run_returns restart_returns pause_returns desired_instance_def del: not_None_eq)

lemma setInstanceState_returns:
  assumes "owned l owner ts" and "belongs l owner x req ex"
  shows "setInstanceState l ex d hs x req ts s \<noteq> None"
proof -
  obtain r1 ts1 s1 where attach: "attach_instance l ex d x req ts s = Some (r1, ts1, s1)"
    using attach_returns [OF assms(1), of ex d x req s] by auto
  from attach_keeps [OF attach assms(2)] assms(1) have "owned l owner ts1" by (simp add: loses_none_def)
  from desired_returns [OF this] attach show ?thesis by (simp add: setInstanceState_def del: not_None_eq split: option.split)
qed

lemma turn_returns:
  assumes "owned l owner ts" and "belongs l owner x req ex"
  shows "spawn_turn l x req ex d ts s \<noteq> None"
proof (cases "get_as as_HostState (hl_conn l) (host_path l [x]) s")
  case (Inl e)
  then show ?thesis by (simp add: spawn_turn_def give_up_returns [OF assms(1)] del: not_None_eq)
next
  case (Inr hv)
  obtain hs v where hv: "hv = (hs, v)" by (cases hv)
  obtain r1 ts1 s1 where entered: "setInstanceState l ex d hs x req ts s = Some (r1, ts1, s1)"
    using setInstanceState_returns [OF assms, of d hs s] by auto
  from setInstanceState_keeps [OF entered assms(2)] assms(1) have "owned l owner ts1" by (simp add: loses_none_def)
  note returns = give_up_returns [OF this] give_up_returns [OF assms(1)]
  show ?thesis
  proof (cases "ExistsW (hl_conn l) (Join [''services'', req_ServiceID req, x]) s")
    case (Inl e)
    then show ?thesis using Inr hv by (simp add: spawn_turn_def)
  next
    case ok: (Inr b)
    show ?thesis
    proof (cases b)
      case True
      note turn = Inr hv ok True entered
      show ?thesis
      proof (cases r1)
        case (Some r2)
        obtain ex2 d2 where "r2 = (ex2, d2)" by (cases r2)
        then show ?thesis using turn Some
          by (cases "ExistsW (hl_conn l) (Join [''hosts'', hl_hostID l, ''ips'', IPID \<lparr>ip_PoolID = '''', ip_HostID = hl_hostID l, ip_IPAddress = ss_AssignedIP d2\<rparr>]) s1")
            (auto simp: spawn_turn_def returns simp del: not_None_eq Join_simps split: bool.split)
      qed (use turn in \<open>simp add: spawn_turn_def del: Join_simps\<close>)
    qed (use Inr hv ok in \<open>simp add: spawn_turn_def returns del: not_None_eq Join_simps\<close>)
  qed
qed

lemma shutdown_empties:
  assumes "owned l owner ts"
  shows "\<exists>s2. watchForShutdown l ts s = Some ([], s2) \<and> running s2 \<subseteq> running s - tracked l ts"
proof -
  obtain ts2 s2 where run: "watchForShutdown l ts s = Some (ts2, s2)"
    using cleanUpContainers_returns [OF assms, of "getExistingThreadStateIDs ts" s] by (auto simp: watchForShutdown_def)
  note effect = cleanUpContainers_effect [OF run [unfolded watchForShutdown_def]]
  have "map_of ts2 x = None" for x
    using effect by (auto simp: map_of_remove_all getExistingThreadStateIDs_def map_of_eq_None_keys)
  then have "ts2 = []" by (metis list.exhaust map_of_Cons_code(2) option.distinct(1) surj_pair)
  moreover have "running s2 \<subseteq> running s - tracked l ts"
    using effect by (auto simp: tracked_def getExistingThreadStateIDs_def)
  ultimately show ?thesis using run by blast
qed

end


subsection \<open>What a turn does to the table and the coordinator\<close>

definition nodes_of :: "'s HostStateListener \<Rightarrow> ('s \<Rightarrow> nodes) \<Rightarrow> 's \<Rightarrow> StateRequest \<Rightarrow> (HostState \<times> ServiceState) option" where
  "nodes_of l tree s = core (table '''' (view (c_basePath (hl_conn l)) (tree s)))"

text \<open>Only one entry of the table and one instance may change.\<close>

definition only :: "'s HostStateListener \<Rightarrow> ('s \<Rightarrow> nodes) \<Rightarrow> string \<Rightarrow> StateRequest \<Rightarrow> threads \<Rightarrow> 's \<Rightarrow> threads \<Rightarrow> 's \<Rightarrow> bool" where
  "only l tree x req ts s ts' s' \<longleftrightarrow> (\<forall>y. y \<noteq> x \<longrightarrow> map_of ts' y = map_of ts y)
     \<and> (\<forall>a. a \<noteq> req \<longrightarrow> nodes_of l tree s' a = nodes_of l tree s a)"

lemma only_refl: "nodes_of l tree s' = nodes_of l tree s \<Longrightarrow> only l tree x req ts s ts s'"
  by (simp add: only_def)

lemma only_trans: "only l tree x req ts s ts1 s1 \<Longrightarrow> only l tree x req ts1 s1 ts2 s2 \<Longrightarrow> only l tree x req ts s ts2 s2"
  by (simp add: only_def)

lemma only_set: "nodes_of l tree s' = nodes_of l tree s \<Longrightarrow> only l tree x req ts s (setExistingThread x d ex ts) s'"
  by (simp add: only_def setExistingThread_def)

lemma belongs_wf:
  assumes "belongs l own x req ex" and "plain (hl_hostID l)"
  shows "wf_req req" "req_PoolID req = ''''"
  using assms ParseStateID_parts [of x] by (auto simp: belongs_def host_req_def wf_req_def plain_def)

context container_host
begin

lemma UpdateState_nodes:
  assumes "UpdateState (hl_conn l) req mutate s = (e, s')" and "wf_req req" and "req_PoolID req = ''''"
  shows "only l tree x req ts s ts s' \<and> (e = None \<longrightarrow> (\<exists>st. table '''' (seen s) req = Some st
    \<and> nodes_of l tree s' req = (if fst (mutate st)
        then Some (st_HostState (snd (mutate st)), st_ServiceState (snd (mutate st))) else nodes_of l tree s req)))"
  using UpdateState_table [OF assms(1,2)] assms(3)
  by (auto simp: table_update_def only_def nodes_of_def core_def set_nodes_def make_state_def)

lemma DeleteState_nodes:
  assumes "DeleteState (hl_conn l) req s = (e, s')" and "wf_req req" and "req_PoolID req = ''''"
  shows "only l tree x req ts s ts s'"
  using DeleteState_table [OF assms(1,2)] assms(3) by (auto simp: table_delete_def only_def nodes_of_def core_def)

lemma handler_nodes:
  "h_StopContainer (hl_handler l) sid i s = (e, s') \<Longrightarrow> nodes_of l tree s' = nodes_of l tree s"
  "h_AttachContainer (hl_handler l) d sid i s = (r, s') \<Longrightarrow> nodes_of l tree s' = nodes_of l tree s"
  "h_StartContainer (hl_handler l) sid i s = (y, s') \<Longrightarrow> nodes_of l tree s' = nodes_of l tree s"
  "h_RestartContainer (hl_handler l) sid i s = (e, s') \<Longrightarrow> nodes_of l tree s' = nodes_of l tree s"
  "h_ResumeContainer (hl_handler l) sid i s = (e, s') \<Longrightarrow> nodes_of l tree s' = nodes_of l tree s"
  "h_PauseContainer (hl_handler l) sid i s = (e, s') \<Longrightarrow> nodes_of l tree s' = nodes_of l tree s"
  "hl_receive l ch s = Some s' \<Longrightarrow> nodes_of l tree s' = nodes_of l tree s"
  using StopContainer AttachContainer StartContainer RestartContainer ResumeContainer PauseContainer receive
  by (simp_all add: nodes_of_def)

lemma give_up_only:
  assumes "give_up l x ts s = Some (r, ts', s')" and "belongs l owner x req ex"
  shows "only l tree x req ts s ts' s' \<and> r = None \<and> map_of ts' x = None"
proof -
  obtain sid i where x: "ParseStateID x = Inr (hl_hostID l, sid, i)" "req = host_req l sid i"
    using assms(2) by (auto simp: belongs_def)
  have down: "shutDownContainer l x (snd (getExistingThread x ts)) s = Some s'"
    and ts': "ts' = removeExistingThread x ts" "r = None"
    using assms(1) by (auto simp: give_up_def cleanUpContainers_def split: option.splits)
  obtain e s1 where stop: "h_StopContainer (hl_handler l) sid i s = (e, s1)" by (metis prod.collapse)
  obtain s2 where s2: "s2 = s1 \<or> (\<exists>ch. hl_receive l ch s1 = Some s2)" "s' = snd (DeleteState (hl_conn l) req s2)"
    using down x stop by (auto simp: shutDownContainer_def split: option.splits prod.splits)
  have "nodes_of l tree s2 = nodes_of l tree s" using s2(1) handler_nodes(1) [OF stop] handler_nodes(7) by metis
  moreover have "only l tree x req ts s2 ts s'"
    using DeleteState_nodes [OF _ belongs_wf [OF assms(2) plain_host]] s2(2) by (metis prod.collapse)
  ultimately show ?thesis using ts' by (auto simp: only_def removeExistingThread_def)
qed

lemma save_only:
  assumes "save_state l ex d x req mutate ts s = Some (r, ts', s')" and "wf_req req" and "req_PoolID req = ''''"
  shows "only l tree x req ts s ts' s' \<and> (\<forall>ex' d'. r = Some (ex', d') \<longrightarrow> ex' = ex \<and> d' = d \<and> map_of ts' x = Some (d, ex)
    \<and> (\<exists>st. table '''' (seen s) req = Some st \<and> (fst (mutate st) \<longrightarrow>
         nodes_of l tree s' req = Some (st_HostState (snd (mutate st)), st_ServiceState (snd (mutate st))))))"
proof (cases "hl_shutdown l s")
  case True
  then show ?thesis using assms(1) by (auto simp: save_state_def setExistingThreadOrShutdown_def only_refl)
next
  case False
  obtain e s1 where update: "UpdateState (hl_conn l) req mutate s = (e, s1)" by (metis prod.collapse)
  note nodes = UpdateState_nodes [OF update assms(2,3), of x "setExistingThread x d ex ts"]
  have "s' = s1" "ts' = setExistingThread x d ex ts" "\<forall>ex' d'. r = Some (ex', d') \<longrightarrow> e = None \<and> ex' = ex \<and> d' = d"
    using assms(1) False update by (auto simp: save_state_def setExistingThreadOrShutdown_def split: option.splits)
  moreover have "only l tree x req ts s ts' s1"
    using only_trans [OF only_set [OF refl] conjunct1 [OF nodes]] calculation(2) by simp
  ultimately show ?thesis using nodes by (auto simp: setExistingThread_def)
qed

end

text \<open>Table and coordinator agree on an instance.\<close>

definition stored :: "'s HostStateListener \<Rightarrow> ('s \<Rightarrow> nodes) \<Rightarrow> string \<Rightarrow> StateRequest \<Rightarrow> chan option \<Rightarrow> ServiceState \<Rightarrow>
    threads \<Rightarrow> 's \<Rightarrow> bool" where
  "stored l tree x req ex d ts s \<longleftrightarrow> map_of ts x = Some (d, ex) \<and> (\<exists>h. nodes_of l tree s req = Some (h, d))"

text \<open>What a desired state asks of the channel and the service state that a turn goes on with.\<close>

definition reached :: "'s HostStateListener \<Rightarrow> ('s \<Rightarrow> nodes) \<Rightarrow> HostState \<Rightarrow> StateRequest \<Rightarrow> chan option \<Rightarrow> ServiceState \<Rightarrow> 's \<Rightarrow> bool" where
  "reached l tree hs req ex d s \<longleftrightarrow>
     hs_DesiredState hs \<noteq> SVCStop
     \<and> (hs_DesiredState hs = SVCRun \<longrightarrow> ex \<noteq> None \<and> (ss_Paused d \<longrightarrow>
          (\<exists>s1 ch s2. h_StartContainer (hl_handler l) (req_ServiceID req) (req_InstanceID req) s1 = (Inr (d, ch), s2))))
     \<and> (hs_DesiredState hs = SVCPause \<longrightarrow> ex \<noteq> None \<longrightarrow> ss_Paused d)
     \<and> (hs_DesiredState hs = SVCRestart \<longrightarrow> (\<exists>h. nodes_of l tree s req = Some (h, d) \<and> hs_DesiredState h \<noteq> SVCRestart))"

lemmas state_fns = with_service_state_def restarted_def restart_done_def

context container_host
begin

lemma save_stored:
  assumes "save_state l ex d x req mutate ts s = Some (r, ts', s')" and "belongs l owner x req ex'"
    and "\<And>st. fst (mutate st) \<and> st_ServiceState (snd (mutate st)) = d"
  shows "only l tree x req ts s ts' s' \<and> (\<forall>ex1 d1. r = Some (ex1, d1) \<longrightarrow> ex1 = ex \<and> d1 = d \<and> stored l tree x req ex d ts' s'
    \<and> (\<exists>st. nodes_of l tree s' req = Some (st_HostState (snd (mutate st)), d)))"
  using save_only [OF assms(1) belongs_wf [OF assms(2) plain_host]] assms(3) by (auto simp: stored_def)

lemma attach_only:
  assumes "attach_instance l ex d x req ts s = Some (r, ts1, s1)" and "belongs l owner x req ex"
    and "ex \<noteq> None \<longrightarrow> map_of ts x = Some (d, ex)" and "nodes_of l tree s req = Some (h, d)"
  shows "only l tree x req ts s ts1 s1 \<and> (r = None \<longrightarrow> map_of ts1 x = None \<or> ts1 = ts)
    \<and> (\<forall>ex1. r = Some ex1 \<longrightarrow> stored l tree x req ex1 d ts1 s1)"
proof (cases "ex = None")
  case False
  then show ?thesis using assms by (auto simp: attach_instance_def only_refl stored_def)
next
  case True
  obtain a s2 where attach: "h_AttachContainer (hl_handler l) d (req_ServiceID req) (req_InstanceID req) s = (a, s2)"
    by (metis prod.collapse)
  note same = handler_nodes(2) [OF attach]
  show ?thesis
  proof (cases a)
    case (Inl e)
    then have "give_up l x ts s2 = Some (r, ts1, s1)" using assms(1) True attach by (simp add: attach_instance_def)
    from give_up_only [OF this assms(2)] only_trans [OF only_refl [OF same]] show ?thesis by blast
  next
    case (Inr ex1)
    then show ?thesis using assms(1,4) True attach same
      by (auto simp: attach_instance_def setExistingThreadOrShutdown_def stored_def setExistingThread_def only_def split: if_splits)
  qed
qed

lemma attach_belongs:
  assumes "attach_instance l ex d x req ts s = Some (Some ex1, ts1, s1)" and "belongs l owner x req ex"
  shows "belongs l owner x req ex1"
proof (cases "ex = None")
  case True
  obtain a s2 where attach: "h_AttachContainer (hl_handler l) d (req_ServiceID req) (req_InstanceID req) s = (a, s2)"
    by (metis prod.collapse)
  then have "a = Inr ex1"
    using assms(1) True by (auto simp: attach_instance_def setExistingThreadOrShutdown_def give_up_def split: sum.splits if_splits)
  with AttachContainer [OF attach] belongs_other [OF assms(2)] show ?thesis by auto
qed (use assms in \<open>auto simp: attach_instance_def\<close>)

lemma give_up_reached:
  assumes "give_up l x ts s1 = Some (r, ts', s')" and "nodes_of l tree s1 = nodes_of l tree s" and "belongs l owner x req ex"
  shows "only l tree x req ts s ts' s' \<and> r = None \<and> map_of ts' x = None"
  using give_up_only [OF assms(1,3)] only_trans [OF only_refl [OF assms(2)]] by blast

lemma run_reached:
  assumes "run_instance l ex d x req ts s = Some (r, ts', s')" and "belongs l owner x req ex"
    and "stored l tree x req ex d ts s" and "hs_DesiredState hs = SVCRun"
  shows "only l tree x req ts s ts' s' \<and> (\<forall>ex1 d1. r = Some (ex1, d1) \<longrightarrow>
    stored l tree x req ex1 d1 ts' s' \<and> reached l tree hs req ex1 d1 s')"
proof (cases "ex = None")
  case True
  obtain a s1 where start: "h_StartContainer (hl_handler l) (req_ServiceID req) (req_InstanceID req) s = (a, s1)"
    by (metis prod.collapse)
  note same = handler_nodes(3) [OF start]
  show ?thesis
  proof (cases a)
    case (Inl e)
    then show ?thesis using assms(1) True start give_up_reached [OF _ same assms(2)] by (auto simp: run_instance_def)
  next
    case (Inr b)
    obtain d2 ch where b: "b = (d2, ch)" by (cases b)
    then have save: "save_state l (Some ch) d2 x req (with_service_state d2) ts s1 = Some (r, ts', s')"
      using assms(1) True start Inr by (simp add: run_instance_def)
    have "\<exists>s1 ch s2. h_StartContainer (hl_handler l) (req_ServiceID req) (req_InstanceID req) s1 = (Inr (d2, ch), s2)"
      using start Inr b by blast
    then have "reached l tree hs req (Some ch) d2 s'" using assms(4) by (simp add: reached_def)
    with save_stored [OF save assms(2)] only_trans [OF only_refl [OF same]] show ?thesis
      by (auto simp: state_fns)
  qed
next
  case False
  obtain e s1 where resume: "h_ResumeContainer (hl_handler l) (req_ServiceID req) (req_InstanceID req) s = (e, s1)"
    by (metis prod.collapse)
  note same = handler_nodes(5) [OF resume]
  consider "\<not> ss_Paused d" | e' where "ss_Paused d" "e = Some e'" | "ss_Paused d" "e = None" by (cases e) auto
  then show ?thesis
  proof cases
    case 1
    then show ?thesis using assms False by (auto simp: run_instance_def only_refl reached_def)
  next
    case 2
    then show ?thesis using assms(1) False resume give_up_reached [OF _ same assms(2)] by (auto simp: run_instance_def)
  next
    case 3
    let ?d = "d\<lparr>ss_Paused := False\<rparr>"
    from 3 have save: "save_state l ex ?d x req (with_service_state ?d) ts s1 = Some (r, ts', s')"
      using assms(1) False resume by (auto simp: run_instance_def Let_def)
    from save_stored [OF save assms(2)] only_trans [OF only_refl [OF same]] False assms(4) show ?thesis
      by (auto simp: state_fns reached_def)
  qed
qed

lemma restart_reached:
  assumes "restart_instance l ex d x req ts s = Some (r, ts', s')" and "belongs l owner x req ex"
    and "stored l tree x req ex d ts s" and "hs_DesiredState hs = SVCRestart"
  shows "only l tree x req ts s ts' s' \<and> (\<forall>ex1 d1. r = Some (ex1, d1) \<longrightarrow>
    stored l tree x req ex1 d1 ts' s' \<and> reached l tree hs req ex1 d1 s')"
proof (cases "ss_Restarted d < ss_Started d")
  case True
  obtain e s1 where restart: "h_RestartContainer (hl_handler l) (req_ServiceID req) (req_InstanceID req) s = (e, s1)"
    by (metis prod.collapse)
  note same = handler_nodes(4) [OF restart]
  show ?thesis
  proof (cases e)
    case (Some e')
    then show ?thesis using assms(1) True restart give_up_reached [OF _ same assms(2)] by (auto simp: restart_instance_def)
  next
    case None
    let ?d = "d\<lparr>ss_Restarted := hl_now l s1\<rparr>"
    from None have save: "save_state l ex ?d x req (restarted ?d) ts s1 = Some (r, ts', s')"
      using assms(1) True restart by (auto simp: restart_instance_def Let_def)
    have "fst (restarted ?d st) \<and> st_ServiceState (snd (restarted ?d st)) = ?d
        \<and> hs_DesiredState (st_HostState (snd (restarted ?d st))) \<noteq> SVCRestart" for st
      by (simp add: state_fns)
    with save_stored [OF save assms(2)] only_trans [OF only_refl [OF same]] assms(4) show ?thesis
      by (auto simp: reached_def)
  qed
next
  case False
  obtain e s1 where update: "UpdateState (hl_conn l) req restart_done s = (e, s1)" by (metis prod.collapse)
  have nodes: "only l tree x req ts s ts s1" and effect: "e = None \<Longrightarrow> \<exists>st. table '''' (seen s) req = Some st
    \<and> nodes_of l tree s1 req = (if fst (restart_done st)
        then Some (st_HostState (snd (restart_done st)), st_ServiceState (snd (restart_done st))) else nodes_of l tree s req)"
    using UpdateState_nodes [OF update belongs_wf [OF assms(2) plain_host], of x ts] by blast+
  have "\<exists>h. nodes_of l tree s1 req = Some (h, d) \<and> hs_DesiredState h \<noteq> SVCRestart" if "e = None"
    using effect [OF that] assms(3)
    by (auto simp: state_fns stored_def nodes_of_def core_def split: if_splits)
  then show ?thesis using assms False update nodes
    by (cases e) (auto simp: restart_instance_def stored_def reached_def)
qed

lemma pause_reached:
  assumes "pause_instance l ex d x req ts s = Some (r, ts', s')" and "belongs l owner x req ex"
    and "stored l tree x req ex d ts s" and "hs_DesiredState hs = SVCPause"
  shows "only l tree x req ts s ts' s' \<and> (\<forall>ex1 d1. r = Some (ex1, d1) \<longrightarrow>
    stored l tree x req ex1 d1 ts' s' \<and> reached l tree hs req ex1 d1 s')"
proof (cases "ex \<noteq> None \<and> \<not> ss_Paused d")
  case True
  obtain e s1 where pause: "h_PauseContainer (hl_handler l) (req_ServiceID req) (req_InstanceID req) s = (e, s1)"
    by (metis prod.collapse)
  note same = handler_nodes(6) [OF pause]
  show ?thesis
  proof (cases e)
    case (Some e')
    then show ?thesis using assms(1) True pause give_up_reached [OF _ same assms(2)] by (auto simp: pause_instance_def)
  next
    case None
    let ?d = "d\<lparr>ss_Paused := True\<rparr>"
    from None have save: "save_state l ex ?d x req (with_service_state ?d) ts s1 = Some (r, ts', s')"
      using assms(1) True pause by (auto simp: pause_instance_def Let_def)
    from save_stored [OF save assms(2)] only_trans [OF only_refl [OF same]] assms(4) show ?thesis
      by (auto simp: state_fns reached_def)
  qed
next
  case False
  then show ?thesis using assms by (auto simp: pause_instance_def only_refl reached_def)
qed

end


subsection \<open>A host in memory\<close>

text \<open>A server that is one part of a larger state.\<close>

definition lift_zk :: "('n, 's) Zk \<Rightarrow> ('n, 's \<times> 'w) Zk" where
  "lift_zk z =
     \<lparr>zk_Create = \<lambda>p d (s, w). (case zk_Create z p d s of (e, s') \<Rightarrow> (e, (s', w))),
      zk_Set = \<lambda>p d v (s, w). (case zk_Set z p d v s of (e, s') \<Rightarrow> (e, (s', w))),
      zk_Delete = \<lambda>p v (s, w). (case zk_Delete z p v s of (e, s') \<Rightarrow> (e, (s', w))),
      zk_Exists = \<lambda>p (s, w). zk_Exists z p s,
      zk_Get = \<lambda>p (s, w). zk_Get z p s,
      zk_Children = \<lambda>p (s, w). zk_Children z p s,
      zk_Multi = \<lambda>ops (s, w). (case zk_Multi z ops s of (e, s') \<Rightarrow> (e, (s', w)))\<rparr>"

lemma zookeeper_lift:
  assumes "zookeeper z tree"
  shows "zookeeper (lift_zk z) (\<lambda>(s, w). tree s)"
proof -
  note laws = zookeeper.Create [OF assms] zookeeper.Create_exists [OF assms] zookeeper.Set [OF assms]
    zookeeper.Delete [OF assms] zookeeper.Delete_none [OF assms] zookeeper.Multi [OF assms]
    zookeeper.Exists [OF assms] zookeeper.Exists_none [OF assms] zookeeper.Get [OF assms]
    zookeeper.Get_none [OF assms] zookeeper.Children [OF assms] zookeeper.Children_none [OF assms]
  show ?thesis
    by unfold_locales (auto simp: lift_zk_def split: prod.splits dest: laws)
qed

text \<open>The containers of a host, of which one service has an image, and whether it is shutting down.\<close>

record World =
  w_containers :: "(string \<times> int) list"
  w_down :: bool

type_synonym sample_state = "Node mem \<times> World"

definition sample_container :: "string \<times> int" where "sample_container = (''s1'', 0)"

definition stop_in :: "string \<Rightarrow> int \<Rightarrow> sample_state \<Rightarrow> string option \<times> sample_state" where
  "stop_in v i s = (None, (fst s, (snd s)\<lparr>w_containers := filter (\<lambda>k. k \<noteq> (v, i)) (w_containers (snd s))\<rparr>))"

definition start_in :: "string \<Rightarrow> int \<Rightarrow> sample_state \<Rightarrow> (string + ServiceState \<times> chan) \<times> sample_state" where
  "start_in v i s =
     (if (v, i) = sample_container
      then (Inr (zero_ServiceState\<lparr>ss_ContainerID := ''c1'', ss_Started := 5\<rparr>, 0),
            (fst s, (snd s)\<lparr>w_containers := (v, i) # w_containers (snd s)\<rparr>))
      else (Inl ''no image'', s))"

definition attach_in :: "ServiceState \<Rightarrow> string \<Rightarrow> int \<Rightarrow> sample_state \<Rightarrow> (string + chan option) \<times> sample_state" where
  "attach_in d v i s =
     (Inr (if (v, i) = sample_container \<and> (v, i) \<in> set (w_containers (snd s)) then Some 0 else None), s)"

definition sample_handler :: "sample_state HostStateHandler" where
  "sample_handler =
     \<lparr>h_StopContainer = stop_in, h_AttachContainer = attach_in, h_StartContainer = start_in,
      h_RestartContainer = stop_in, h_ResumeContainer = \<lambda>_ _ s. (None, s), h_PauseContainer = \<lambda>_ _ s. (None, s)\<rparr>"

definition sample_up :: "sample_state \<Rightarrow> (string \<times> int) set" where
  "sample_up s = set (w_containers (snd s))"

definition sample_hl :: "sample_state HostStateListener" where
  "sample_hl =
     \<lparr>hl_conn = \<lparr>c_conn = Some (lift_zk (mem_zk (\<lambda>_. False))), c_basePath = [], c_stack = 9\<rparr>,
      hl_handler = sample_handler, hl_hostID = ''h1'', hl_shutdown = \<lambda>s. w_down (snd s), hl_now = \<lambda>_. 9,
      hl_receive = \<lambda>ch s. if sample_container \<in> set (w_containers (snd s)) then None else Some s\<rparr>"

definition sample_own :: "chan \<Rightarrow> string \<times> int" where "sample_own ch = sample_container"

definition sample_tree_of :: "sample_state \<Rightarrow> nodes" where "sample_tree_of = (\<lambda>(m, w). map_of m)"

lemmas sample_host_defs = sample_hl_def sample_handler_def stop_in_def start_in_def attach_in_def sample_own_def
  sample_up_def sample_tree_of_def sample_container_def

lemma sample_host_conn: "connection (lift_zk (mem_zk (\<lambda>_. False))) sample_tree_of (hl_conn sample_hl)"
  by (intro connection.intro connection_axioms.intro)
    (simp_all add: sample_hl_def sample_tree_of_def zookeeper_lift memory.zookeeper_axioms)

interpretation sample_host: reliable_host "lift_zk (mem_zk (\<lambda>_. False))" sample_tree_of sample_hl sample_up sample_own
proof (intro reliable_host.intro container_host.intro state_connection.intro sample_host_conn)
  show "container_host_axioms (lift_zk (mem_zk (\<lambda>_. False))) sample_tree_of sample_hl sample_up sample_own"
    by unfold_locales (auto simp: sample_host_defs lift_zk_def plain_def split: prod.splits if_splits)
  show "reliable_host_axioms sample_hl"
    by unfold_locales (simp add: sample_host_defs)
qed

text \<open>An instance that is scheduled to the host and was not started yet.\<close>

definition sample_scheduled :: sample_state where
  "sample_scheduled = (snd (CreateState 7 sample_conn (sample_req 0) sample_zk), \<lparr>w_containers = [], w_down = False\<rparr>)"

lemma sample_scheduled_nodes:
  "\<exists>h. nodes_of sample_hl sample_tree_of sample_scheduled (sample_req 0) = Some (h, zero_ServiceState)"
proof -
  obtain s' where create: "CreateState 7 sample_conn (sample_req 0) sample_zk = (None, s')"
    using sample_create(1) by (metis prod.collapse)
  from sample.CreateState_table [OF this wf_sample] create show ?thesis
    by (auto simp: nodes_of_def core_def table_create_def started_state_def make_state_def sample_base
        sample_scheduled_def sample_tree_of_def sample_hl_def sample_req_def)
qed



text \<open>
  The locks of the listener do not cover the start of a container. If the shutdown runs
  after an instance was entered into the table and before its container is started, the
  shutdown finds nothing to stop, empties the table and deletes the instance; the container
  is then started all the same, and the goroutine ends without stopping it. The container
  runs, no table and no node of the coordinator know it.
\<close>

theorem shutdown_leaks_container:
  "\<exists>ts1 s1 s2 s3.
     attach_instance sample_hl None zero_ServiceState ''h1-s1-0'' (sample_req 0) [] sample_scheduled = Some (Some None, ts1, s1)
     \<and> watchForShutdown sample_hl ts1 (fst s1, (snd s1)\<lparr>w_down := True\<rparr>) = Some ([], s2)
     \<and> run_instance sample_hl None zero_ServiceState ''h1-s1-0'' (sample_req 0) [] s2 = Some (None, [], s3)
     \<and> sample_up s3 = {sample_container} \<and> map_of (fst s3) (hspth (sample_req 0)) = None"
proof -
  let ?x = "''h1-s1-0''" and ?zk = "sample_zk @ [([''hosts'', ''h1'', ''instances''], DirData, 0)]"
  let ?s2 = "(?zk, \<lparr>w_containers = [], w_down = True\<rparr>)" and ?s3 = "(?zk, \<lparr>w_containers = [sample_container], w_down = True\<rparr>)"
  have "attach_instance sample_hl None zero_ServiceState ?x (sample_req 0) [] sample_scheduled
      = Some (Some None, [(?x, zero_ServiceState, None)], sample_scheduled)"
    by code_simp
  moreover have "watchForShutdown sample_hl [(?x, zero_ServiceState, None)] (fst sample_scheduled, (snd sample_scheduled)\<lparr>w_down := True\<rparr>)
      = Some ([], ?s2)"
    by code_simp
  moreover have "run_instance sample_hl None zero_ServiceState ?x (sample_req 0) [] ?s2 = Some (None, [], ?s3)"
    by code_simp
  moreover have "map_of ?zk (hspth (sample_req 0)) = None" by code_simp
  ultimately show ?thesis by (fastforce simp: sample_up_def)
qed

end
