(* ===== verification/Virtual_IPs.thy ===== *)
theory Virtual_IPs
  imports State_Nodes
begin

section \<open>Virtual addresses of a pool\<close>

text \<open>
  The assignment of a pool's virtual addresses to its hosts: the nodes of
  \<^verbatim>\<open>zzk/service/hostip.go\<close>, the online hosts (\<^verbatim>\<open>host.go\<close>, \<^verbatim>\<open>hostregistry.go\<close>), the assignment
  handler (\<^verbatim>\<open>assignment.go\<close>, \<^verbatim>\<open>selection.go\<close>), the synchronizer (\<^verbatim>\<open>synchronizer.go\<close>), the
  listener of the master (\<^verbatim>\<open>poollistener.go\<close>) and the release of a lost host's addresses
  (\<^verbatim>\<open>hostunassign.go\<close>). An assignment is a pair of nodes, one below the pool and one below the
  host, both named after the host and the address. The clock and the random choice of a
  host are arguments, and so is the order in which a Go map is gone through.
\<close>

datatype ip_error =
    IPClientError client_error
  | ErrInvalidIPID
  | ErrNoAssignedHost
  | ErrAlreadyAssigned
  | ErrNoHosts

record IP =
  full_OK :: bool
  full_HostIP :: HostIP
  full_HostID :: string
  full_IPAddress :: string

subsection \<open>The nodes of an assignment\<close>

definition ParseIPID :: "string \<Rightarrow> ip_error + (string \<times> string)" where
  "ParseIPID ipid =
     (case SplitN ipid (CHR ''-'') 2 of
        [hostid, ipaddress] \<Rightarrow> Inr (hostid, ipaddress)
      | _ \<Rightarrow> Inl ErrInvalidIPID)"

text \<open>The path builder of \<^verbatim>\<open>path.go\<close> always begins with \<^verbatim>\<open>/pools\<close>.\<close>

definition zk_ips :: "string \<Rightarrow> zpath" where
  "zk_ips poolID = Join [''pools'', poolID, ''ips'']"

definition zk_host :: "string \<Rightarrow> string \<Rightarrow> string list \<Rightarrow> zpath" where
  "zk_host poolID hostID nodes = Join ([''pools'', poolID, ''hosts'', hostID] @ nodes)"

definition pool_ips :: "string \<Rightarrow> zpath" where
  "pool_ips poolID = Join (pool_base poolID @ [''ips''])"

definition host_ips :: "string \<Rightarrow> string \<Rightarrow> zpath" where
  "host_ips poolID hostID = Join (pool_base poolID @ [''hosts'', hostID, ''ips''])"

definition ppth :: "IPRequest \<Rightarrow> zpath" where
  "ppth req = pool_ips (ip_PoolID req) @ [IPID req]"

definition hpth :: "IPRequest \<Rightarrow> zpath" where
  "hpth req = host_ips (ip_PoolID req) (ip_HostID req) @ [IPID req]"

definition as_PoolIP :: "Node data \<Rightarrow> bool" where
  "as_PoolIP d = (case d of NodeData (PoolIPNode ok) \<Rightarrow> ok | _ \<Rightarrow> False)"

definition as_HostIP :: "Node data \<Rightarrow> HostIP" where
  "as_HostIP d =
     (case d of NodeData (HostIPNode ip) \<Rightarrow> ip | _ \<Rightarrow> \<lparr>hip_Netmask = '''', hip_BindInterface = ''''\<rparr>)"

text \<open>The search for the host of an address in a list of names.\<close>

fun find_ip :: "string \<Rightarrow> string list \<Rightarrow> ip_error + string" where
  "find_ip address [] = Inl ErrNoAssignedHost"
| "find_ip address (hostIP # hostIPs) =
     (case ParseIPID hostIP of
        Inl e \<Rightarrow> Inl e
      | Inr (host, ip) \<Rightarrow> if ip = address then Inr host else find_ip address hostIPs)"

definition GetHostID :: "'s Conn \<Rightarrow> string \<Rightarrow> string \<Rightarrow> 's \<Rightarrow> ip_error + string" where
  "GetHostID c poolID address s =
     find_ip address (case Coordinator.Children c (zk_ips poolID) s of Inl _ \<Rightarrow> [] | Inr hostIPs \<Rightarrow> hostIPs)"

definition read_ip :: "'s Conn \<Rightarrow> IPRequest \<Rightarrow> 's \<Rightarrow> ip_error + ((bool \<times> int) \<times> (HostIP \<times> int))" where
  "read_ip c req s =
     (case get_as as_PoolIP c (ppth req) s of
        Inl e \<Rightarrow> Inl (IPClientError e)
      | Inr p \<Rightarrow>
          (case get_as as_HostIP c (hpth req) s of
             Inl e \<Rightarrow> Inl (IPClientError e)
           | Inr h \<Rightarrow> Inr (p, h)))"

definition make_ip :: "IPRequest \<Rightarrow> bool \<Rightarrow> HostIP \<Rightarrow> IP" where
  "make_ip req ok h =
     \<lparr>full_OK = ok, full_HostIP = h, full_HostID = ip_HostID req, full_IPAddress = ip_IPAddress req\<rparr>"

definition GetIP :: "'s Conn \<Rightarrow> IPRequest \<Rightarrow> 's \<Rightarrow> ip_error + IP" where
  "GetIP c req s =
     (case read_ip c req s of Inl e \<Rightarrow> Inl e | Inr ((ok, _), (h, _)) \<Rightarrow> Inr (make_ip req ok h))"

definition create_ip_ops :: "IPRequest \<Rightarrow> string \<Rightarrow> string \<Rightarrow> Node multiReq list" where
  "create_ip_ops req netmask iface =
     [MultiCreate (ppth req) (NodeData (PoolIPNode False)),
      MultiCreate (hpth req) (NodeData (HostIPNode \<lparr>hip_Netmask = netmask, hip_BindInterface = iface\<rparr>))]"

definition ip_commit :: "client_error option \<times> 's \<Rightarrow> ip_error option \<times> 's" where
  "ip_commit r = (map_option IPClientError (fst r), snd r)"

definition CreateIP :: "'s Conn \<Rightarrow> IPRequest \<Rightarrow> string \<Rightarrow> string \<Rightarrow> 's \<Rightarrow> ip_error option \<times> 's" where
  "CreateIP c req netmask iface s =
     (case CreateIfExists c (pool_ips (ip_PoolID req)) DirData s of
        (e, s1) \<Rightarrow>
          if e \<noteq> None \<and> e \<noteq> Some ErrNodeExists then (map_option IPClientError e, s1)
          else (case CreateIfExists c (host_ips (ip_PoolID req) (ip_HostID req)) DirData s1 of
                  (e, s2) \<Rightarrow>
                    if e \<noteq> None \<and> e \<noteq> Some ErrNodeExists then (map_option IPClientError e, s2)
                    else ip_commit (Commit c (create_ip_ops req netmask iface) s2)))"

definition update_ip_ops :: "IPRequest \<Rightarrow> IP \<Rightarrow> int \<Rightarrow> int \<Rightarrow> Node multiReq list" where
  "update_ip_ops req ip pver hver =
     [MultiSet (ppth req) (NodeData (PoolIPNode (full_OK ip))) pver,
      MultiSet (hpth req) (NodeData (HostIPNode (full_HostIP ip))) hver]"

definition UpdateIP :: "'s Conn \<Rightarrow> IPRequest \<Rightarrow> (IP \<Rightarrow> bool \<times> IP) \<Rightarrow> 's \<Rightarrow> ip_error option \<times> 's" where
  "UpdateIP c req mutate s =
     (case read_ip c req s of
        Inl e \<Rightarrow> (Some e, s)
      | Inr ((ok, pver), (h, hver)) \<Rightarrow>
          (case mutate (make_ip req ok h) of
             (False, _) \<Rightarrow> (None, s)
           | (True, ip) \<Rightarrow> ip_commit (Commit c (update_ip_ops req ip pver hver) s)))"

definition DeleteIP :: "'s Conn \<Rightarrow> IPRequest \<Rightarrow> 's \<Rightarrow> ip_error option \<times> 's" where
  "DeleteIP c req s =
     (case Coordinator.Exists c (ppth req) s of
        Inl e \<Rightarrow> (Some (IPClientError e), s)
      | Inr pok \<Rightarrow>
          (case Coordinator.Exists c (hpth req) s of
             Inl e \<Rightarrow> (Some (IPClientError e), s)
           | Inr hok \<Rightarrow> ip_commit (Commit c (delete_if pok (ppth req) @ delete_if hok (hpth req)) s)))"

subsection \<open>The hosts of a pool\<close>

text \<open>\<^verbatim>\<open>Children\<close> of a node that may be missing.\<close>

definition children_or_none :: "'s Conn \<Rightarrow> zpath \<Rightarrow> 's \<Rightarrow> ip_error + string list" where
  "children_or_none c p s =
     (case Coordinator.Children c p s of
        Inl e \<Rightarrow> if e = ErrNoNode then Inr [] else Inl (IPClientError e)
      | Inr ch \<Rightarrow> Inr ch)"

definition IsHostOnline :: "'s Conn \<Rightarrow> string \<Rightarrow> string \<Rightarrow> 's \<Rightarrow> ip_error + bool" where
  "IsHostOnline c poolid hostid s =
     map_sum id (\<lambda>ch. length ch > 0)
       (children_or_none c (Join (pool_base poolid @ [''hosts'', hostid, ''online''])) s)"

fun online_hosts :: "'s Conn \<Rightarrow> string \<Rightarrow> string list \<Rightarrow> 's \<Rightarrow> ip_error + string list" where
  "online_hosts c poolid [] s = Inr []"
| "online_hosts c poolid (hostid # ch) s =
     (case IsHostOnline c poolid hostid s of
        Inl e \<Rightarrow> Inl e
      | Inr isOnline \<Rightarrow>
          map_sum id (\<lambda>hosts. if isOnline then hostid # hosts else hosts) (online_hosts c poolid ch s))"

definition GetCurrentHosts :: "'s Conn \<Rightarrow> string \<Rightarrow> 's \<Rightarrow> ip_error + string list" where
  "GetCurrentHosts c poolid s =
     (case children_or_none c (Join [''pools'', poolid, ''hosts'']) s of
        Inl e \<Rightarrow> Inl e
      | Inr ch \<Rightarrow> online_hosts c poolid ch s)"

definition zero_HostData :: HostData where
  "zero_HostData =
     \<lparr>hd_ID = '''', hd_Name = '''', hd_PoolID = '''', hd_IPAddr = '''', hd_RPCPort = 0, hd_Cores = 0, hd_Memory = 0,
      hd_CoresCommitment = 0, hd_RAMCommitment = 0, hd_RAMLimit = '''', hd_PrivateNetwork = '''',
      hd_KernelVersion = '''', hd_KernelRelease = '''', hd_NatIP = ''''\<rparr>"

definition as_HostData :: "Node data \<Rightarrow> HostData" where
  "as_HostData d = (case d of NodeData (HostNodeNode h) \<Rightarrow> h | _ \<Rightarrow> zero_HostData)"

fun load_hosts :: "'s Conn \<Rightarrow> string \<Rightarrow> string list \<Rightarrow> 's \<Rightarrow> ip_error + HostData list" where
  "load_hosts c poolID [] s = Inr []"
| "load_hosts c poolID (hostid # hostids) s =
     (case children_or_none c (zk_host poolID hostid [''locked'']) s of
        Inl e \<Rightarrow> Inl e
      | Inr ch \<Rightarrow>
          if length ch > 0 then load_hosts c poolID hostids s
          else (case get_as as_HostData c (zk_host poolID hostid []) s of
                  Inl e \<Rightarrow> if e = ErrNoNode then load_hosts c poolID hostids s else Inl (IPClientError e)
                | Inr (hdat, _) \<Rightarrow> map_sum id (Cons hdat) (load_hosts c poolID hostids s)))"

definition GetRegisteredHostsForPool :: "'s Conn \<Rightarrow> string \<Rightarrow> 's \<Rightarrow> ip_error + HostData list" where
  "GetRegisteredHostsForPool c poolID s =
     (case GetCurrentHosts c poolID s of Inl e \<Rightarrow> Inl e | Inr hostids \<Rightarrow> load_hosts c poolID hostids s)"

subsection \<open>The assignment handler\<close>

text \<open>
  The handler's state is its table of timeouts. A reading of the environment is what one
  assignment sees: the clock when the excluded hosts are computed, the random number, and the
  clock when the chosen host is excluded.
\<close>

type_synonym timeouts = "(string, (string, int) gomap) gomap"

record reading =
  now_filter :: int
  rand_Intn :: nat
  now_add :: int

definition Timeout :: int where
  "Timeout = 10000000000"

definition Select :: "nat \<Rightarrow> HostData list \<Rightarrow> ip_error + HostData" where
  "Select r hosts = (if length hosts = 0 then Inl ErrNoHosts else Inr (hosts ! (r mod length hosts)))"

definition addExcludeHost :: "int \<Rightarrow> string \<Rightarrow> HostData \<Rightarrow> timeouts \<Rightarrow> timeouts" where
  "addExcludeHost now ipAddress host tm =
     (let tm = (if map_of tm ipAddress = None then gset ipAddress [] tm else tm)
      in gset ipAddress (gset (hd_ID host) (now + Timeout) (the (map_of tm ipAddress))) tm)"

definition getExcludedHostIDs :: "int \<Rightarrow> string \<Rightarrow> timeouts \<Rightarrow> string list" where
  "getExcludedHostIDs now ipAddress tm =
     (case map_of tm ipAddress of
        None \<Rightarrow> []
      | Some excludeHosts \<Rightarrow> map fst (filter (\<lambda>(hostID, timeout). now < timeout) excludeHosts))"

definition containsHostID :: "string list \<Rightarrow> string \<Rightarrow> bool" where
  "containsHostID hostIDs hid = list_ex (\<lambda>hostID. hostID = hid) hostIDs"

definition filterOutExcludedHosts :: "int \<Rightarrow> string \<Rightarrow> HostData list \<Rightarrow> timeouts \<Rightarrow> HostData list" where
  "filterOutExcludedHosts now ipAddress hosts tm =
     filter (\<lambda>host. \<not> containsHostID (getExcludedHostIDs now ipAddress tm) (hd_ID host)) hosts"

definition getAssignedHostID :: "'s Conn \<Rightarrow> string \<Rightarrow> string \<Rightarrow> 's \<Rightarrow> ip_error + string" where
  "getAssignedHostID c poolID ipAddress s =
     (case Coordinator.Exists c (zk_ips poolID) s of
        Inl e \<Rightarrow> Inl (IPClientError e)
      | Inr False \<Rightarrow> Inl ErrNoAssignedHost
      | Inr True \<Rightarrow>
          (case Coordinator.Children c (zk_ips poolID) s of
             Inl e \<Rightarrow> Inl (IPClientError e)
           | Inr ipIDs \<Rightarrow> find_ip ipAddress ipIDs))"

definition assignToHost :: "'s Conn \<Rightarrow> reading \<Rightarrow> string \<Rightarrow> string \<Rightarrow> string \<Rightarrow> string \<Rightarrow> timeouts \<Rightarrow> 's \<Rightarrow>
    ip_error option \<times> timeouts \<times> 's" where
  "assignToHost c r poolID ipAddress netmask binding tm s =
     (case GetRegisteredHostsForPool c poolID s of
        Inl e \<Rightarrow> (Some e, tm, s)
      | Inr hosts \<Rightarrow>
          (let hosts = filterOutExcludedHosts (now_filter r) ipAddress hosts tm in
           if length hosts = 0 then (Some ErrNoHosts, tm, s)
           else (case Select (rand_Intn r) hosts of
                   Inl e \<Rightarrow> (Some e, tm, s)
                 | Inr host \<Rightarrow>
                     (case CreateIP c \<lparr>ip_PoolID = poolID, ip_HostID = hd_ID host, ip_IPAddress = ipAddress\<rparr>
                        netmask binding s of
                        (e, s') \<Rightarrow> (e, addExcludeHost (now_add r) ipAddress host tm, s')))))"

definition Assign :: "'s Conn \<Rightarrow> reading \<Rightarrow> string \<Rightarrow> string \<Rightarrow> string \<Rightarrow> string \<Rightarrow> timeouts \<Rightarrow> 's \<Rightarrow>
    ip_error option \<times> timeouts \<times> 's" where
  "Assign c r poolID ipAddress netmask binding tm s =
     (case getAssignedHostID c poolID ipAddress s of
        Inl e \<Rightarrow> if e = ErrNoAssignedHost then assignToHost c r poolID ipAddress netmask binding tm s
                  else (Some e, tm, s)
      | Inr _ \<Rightarrow> (Some ErrAlreadyAssigned, tm, s))"

definition Unassign :: "'s Conn \<Rightarrow> string \<Rightarrow> string \<Rightarrow> 's \<Rightarrow> ip_error option \<times> 's" where
  "Unassign c poolID ipAddress s =
     (case getAssignedHostID c poolID ipAddress s of
        Inl e \<Rightarrow> (Some e, s)
      | Inr assignedHost \<Rightarrow>
          DeleteIP c \<lparr>ip_PoolID = poolID, ip_HostID = assignedHost, ip_IPAddress = ipAddress\<rparr> s)"

fun unassign_list :: "'s Conn \<Rightarrow> string \<Rightarrow> string \<Rightarrow> string list \<Rightarrow> 's \<Rightarrow> ip_error option \<times> 's" where
  "unassign_list c poolID hostID [] s = (None, s)"
| "unassign_list c poolID hostID (ipID # ipIDs) s =
     (case ParseIPID ipID of
        Inl e \<Rightarrow> (Some e, s)
      | Inr (_, ip) \<Rightarrow>
          (case DeleteIP c \<lparr>ip_PoolID = poolID, ip_HostID = hostID, ip_IPAddress = ip\<rparr> s of
             (Some e, s') \<Rightarrow> (Some e, s')
           | (None, s') \<Rightarrow> unassign_list c poolID hostID ipIDs s'))"

definition UnassignAll :: "'s Conn \<Rightarrow> string \<Rightarrow> string \<Rightarrow> 's \<Rightarrow> ip_error option \<times> 's" where
  "UnassignAll c poolID hostID s =
     (case Coordinator.Exists c (zk_host poolID hostID [''ips'']) s of
        Inl e \<Rightarrow> (Some (IPClientError e), s)
      | Inr False \<Rightarrow> (None, s)
      | Inr True \<Rightarrow>
          (case Coordinator.Children c (zk_host poolID hostID [''ips'']) s of
             Inl e \<Rightarrow> (Some (IPClientError e), s)
           | Inr ipIDs \<Rightarrow> unassign_list c poolID hostID ipIDs s))"

subsection \<open>The synchronizer and the listener\<close>

definition getVirtualIPMap :: "ResourcePool \<Rightarrow> (string, VirtualIP) gomap" where
  "getVirtualIPMap pool = fold (\<lambda>ip. gset (vip_IP ip) ip) (rp_VirtualIPs pool) []"

definition virtualIPsWithNoAssignment ::
    "(string, VirtualIP) gomap \<Rightarrow> (string, string) gomap \<Rightarrow> VirtualIP list" where
  "virtualIPsWithNoAssignment virtualIPs assignments =
     filter (\<lambda>ip. map_of assignments (vip_IP ip) = None) (map snd virtualIPs)"

definition assignmentsWithNoVirtualIP ::
    "(string, VirtualIP) gomap \<Rightarrow> (string, string) gomap \<Rightarrow> string list" where
  "assignmentsWithNoVirtualIP virtualIPs assignments =
     filter (\<lambda>ip. map_of virtualIPs ip = None) (keys assignments)"

text \<open>
  The handler's calls in a loop: the environment gives the assignments from the \<open>i\<close>-th on their
  readings.
\<close>

fun assign_list :: "'s Conn \<Rightarrow> (nat \<Rightarrow> reading) \<Rightarrow> nat \<Rightarrow> VirtualIP list \<Rightarrow> timeouts \<Rightarrow> 's \<Rightarrow>
    ip_error list \<times> timeouts \<times> 's" where
  "assign_list c env i [] tm s = ([], tm, s)"
| "assign_list c env i (ip # ips) tm s =
     (case Assign c (env i) (vip_PoolID ip) (vip_IP ip) (vip_Netmask ip) (vip_BindInterface ip) tm s of
        (e, tm, s) \<Rightarrow>
          (case assign_list c env (Suc i) ips tm s of
             (es, tm, s) \<Rightarrow> ((case e of None \<Rightarrow> es | Some e \<Rightarrow> e # es), tm, s)))"

fun unassign_ips :: "'s Conn \<Rightarrow> string \<Rightarrow> string list \<Rightarrow> 's \<Rightarrow> ip_error list \<times> 's" where
  "unassign_ips c poolID [] s = ([], s)"
| "unassign_ips c poolID (ip # ips) s =
     (case Unassign c poolID ip s of
        (e, s) \<Rightarrow>
          (case unassign_ips c poolID ips s of
             (es, s) \<Rightarrow> ((case e of None \<Rightarrow> es | Some e \<Rightarrow> e # es), s)))"

text \<open>
  \<^verbatim>\<open>Sync\<close>; \<open>perm\<close> is the order in which the map of virtual addresses is gone through. The
  errors are those of the \<^verbatim>\<open>SyncError\<close> that it returns, none when it returns nil.
\<close>

definition Sync :: "'s Conn \<Rightarrow> (nat \<Rightarrow> reading) \<Rightarrow> ((string, VirtualIP) gomap \<Rightarrow> (string, VirtualIP) gomap) \<Rightarrow>
    ResourcePool \<Rightarrow> (string, string) gomap \<Rightarrow> timeouts \<Rightarrow> 's \<Rightarrow> ip_error list \<times> timeouts \<times> 's" where
  "Sync c env perm pool assignments tm s =
     (let virtualIPMap = perm (getVirtualIPMap pool) in
      case assign_list c env 0 (virtualIPsWithNoAssignment virtualIPMap assignments) tm s of
        (es1, tm, s) \<Rightarrow>
          (case unassign_ips c (rp_ID pool) (assignmentsWithNoVirtualIP virtualIPMap assignments) s of
             (es2, s) \<Rightarrow> (es1 @ es2, tm, s)))"

fun getAssignmentMap :: "string list \<Rightarrow> (string, string) gomap \<Rightarrow> ip_error + (string, string) gomap" where
  "getAssignmentMap [] assignments = Inr assignments"
| "getAssignmentMap (hostIP # hostIPs) assignments =
     (case ParseIPID hostIP of
        Inl e \<Rightarrow> Inl e
      | Inr (host, ip) \<Rightarrow> getAssignmentMap hostIPs (gset ip host assignments))"

definition zero_ResourcePool :: ResourcePool where
  "zero_ResourcePool =
     \<lparr>rp_ID = '''', rp_Realm = '''', rp_Description = '''', rp_VirtualIPs = [], rp_CoreLimit = 0, rp_MemoryLimit = 0,
      rp_CoreCapacity = 0, rp_MemoryCapacity = 0, rp_MemoryCommitment = 0, rp_ConnectionTimeout = 0\<rparr>"

definition as_ResourcePool :: "Node data \<Rightarrow> ResourcePool" where
  "as_ResourcePool d = (case d of NodeData (PoolNodeNode p) \<Rightarrow> p | _ \<Rightarrow> zero_ResourcePool)"

text \<open>
  One turn of the loop of the pool listener: the listener returns, looks again at once, or
  waits for an event, after a synchronization with the given errors or without one. With
  errors it also sets the timer that ends the wait.
\<close>

datatype pool_outcome = PoolReturn | PoolAgain | PoolIdle | PoolSynced "ip_error list"

definition pool_turn :: "'s Conn \<Rightarrow> (nat \<Rightarrow> reading) \<Rightarrow> ((string, VirtualIP) gomap \<Rightarrow> (string, VirtualIP) gomap) \<Rightarrow>
    string \<Rightarrow> timeouts \<Rightarrow> 's \<Rightarrow> pool_outcome \<times> timeouts \<times> 's" where
  "pool_turn c env perm poolID tm s =
     (let poolPath = Join [''pools'', poolID] in
      case ExistsW c poolPath s of
        Inl _ \<Rightarrow> (PoolReturn, tm, s)
      | Inr False \<Rightarrow> (PoolIdle, tm, s)
      | Inr True \<Rightarrow>
          (case get_as as_ResourcePool c poolPath s of
             Inl e \<Rightarrow> (if e = ErrNoNode then PoolAgain else PoolReturn, tm, s)
           | Inr (pool, _) \<Rightarrow>
               (case (case ExistsW c (zk_ips poolID) s of
                        Inl e \<Rightarrow> Inl e
                      | Inr False \<Rightarrow> Inr []
                      | Inr True \<Rightarrow> Coordinator.Children c (zk_ips poolID) s) of
                  Inl _ \<Rightarrow> (PoolReturn, tm, s)
                | Inr children \<Rightarrow>
                    (case getAssignmentMap children [] of
                       Inl _ \<Rightarrow> (PoolReturn, tm, s)
                     | Inr assignments \<Rightarrow>
                         (case Sync c env perm pool assignments tm s of
                            (es, tm, s) \<Rightarrow> (PoolSynced es, tm, s))))))"

text \<open>
  The loop: each element of the list is what other clients did to the coordinator before a
  turn, and the environment of that turn; the list ends when the listener is shut down.
\<close>

fun pool_spawn :: "'s Conn \<Rightarrow> ((string, VirtualIP) gomap \<Rightarrow> (string, VirtualIP) gomap) \<Rightarrow> string \<Rightarrow>
    (('s \<Rightarrow> 's) \<times> (nat \<Rightarrow> reading)) list \<Rightarrow> timeouts \<Rightarrow> 's \<Rightarrow> timeouts \<times> 's" where
  "pool_spawn c perm poolID [] tm s = (tm, s)"
| "pool_spawn c perm poolID ((others, env) # turns) tm s =
     (case pool_turn c env perm poolID tm (others s) of
        (PoolReturn, tm, s) \<Rightarrow> (tm, s)
      | (_, tm, s) \<Rightarrow> pool_spawn c perm poolID turns tm s)"

subsection \<open>Names of assignments\<close>

definition wf_ip :: "IPRequest \<Rightarrow> bool" where
  "wf_ip req \<longleftrightarrow> ip_PoolID req \<noteq> '''' \<and> ip_HostID req \<noteq> '''' \<and> plain (ip_HostID req)"

lemma ParseIPID_IPID: "plain (ip_HostID req) \<Longrightarrow> ParseIPID (IPID req) = Inr (ip_HostID req, ip_IPAddress req)"
  using SplitN_append [of "CHR ''-''" "ip_HostID req" "ip_IPAddress req" 0]
  by (simp add: ParseIPID_def IPID_def plain_def numeral_2_eq_2)

lemma ParseIPID_parts:
  assumes "ParseIPID ipid = Inr (h, a)"
  shows "ipid = h @ CHR ''-'' # a \<and> plain h"
proof -
  have "\<exists>x r. dropWhile (\<lambda>x. x \<noteq> CHR ''-'') ipid = x # r \<and> h = takeWhile (\<lambda>x. x \<noteq> CHR ''-'') ipid \<and> a = r"
    using assms by (auto simp: ParseIPID_def numeral_2_eq_2 split: list.splits)
  then obtain x where drop: "dropWhile (\<lambda>x. x \<noteq> CHR ''-'') ipid = x # a" and h: "h = takeWhile (\<lambda>x. x \<noteq> CHR ''-'') ipid"
    by blast
  then have "x = CHR ''-''" by (metis (full_types) dropWhile_eq_Cons_conv)
  then show ?thesis
    using drop h takeWhile_dropWhile_id [of "\<lambda>x. x \<noteq> CHR ''-''" ipid] set_takeWhileD [of "CHR ''-''" "\<lambda>x. x \<noteq> CHR ''-''" ipid]
    by (auto simp: plain_def)
qed

lemma ParseIPID_iff:
  "ParseIPID ipid = Inr (h, a) \<longleftrightarrow> plain h \<and> ipid = IPID \<lparr>ip_PoolID = p, ip_HostID = h, ip_IPAddress = a\<rparr>"
  using ParseIPID_parts [of ipid h a] ParseIPID_IPID [of "\<lparr>ip_PoolID = p, ip_HostID = h, ip_IPAddress = a\<rparr>"]
  by (auto simp: IPID_def)

lemma IPID_nonempty [simp]: "IPID req \<noteq> ''''"
  by (simp add: IPID_def)

lemma IPID_inj:
  "plain (ip_HostID a) \<Longrightarrow> plain (ip_HostID b) \<Longrightarrow> IPID a = IPID b \<longleftrightarrow>
     ip_HostID a = ip_HostID b \<and> ip_IPAddress a = ip_IPAddress b"
  using ParseIPID_IPID [of a] ParseIPID_IPID [of b] by (metis IPID_def Inr_inject Pair_inject)

lemma ip_paths:
  "pool \<noteq> '''' \<Longrightarrow> zk_ips pool = [''pools'', pool, ''ips'']"
  "pool \<noteq> '''' \<Longrightarrow> pool_ips pool = [''pools'', pool, ''ips'']"
  "pool \<noteq> '''' \<Longrightarrow> host \<noteq> '''' \<Longrightarrow> host_ips pool host = [''pools'', pool, ''hosts'', host, ''ips'']"
  "pool \<noteq> '''' \<Longrightarrow> host \<noteq> '''' \<Longrightarrow> zk_host pool host nodes = [''pools'', pool, ''hosts'', host] @ Join nodes"
  by (simp_all add: zk_ips_def pool_ips_def host_ips_def zk_host_def pool_base_def Join_def)

text \<open>The request for a host and an address of a pool, and the table of nodes that stand for one.\<close>

abbreviation req_of :: "string \<Rightarrow> string \<Rightarrow> string \<Rightarrow> IPRequest" where
  "req_of pool h a \<equiv> \<lparr>ip_PoolID = pool, ip_HostID = h, ip_IPAddress = a\<rparr>"

definition good_host :: "string \<Rightarrow> bool" where
  "good_host h \<longleftrightarrow> plain h \<and> h \<noteq> ''''"

definition ip_table :: "string \<Rightarrow> nodes \<Rightarrow> string \<times> string \<Rightarrow> bool \<times> bool" where
  "ip_table pool t =
     (\<lambda>(h, a). if good_host h then (t (ppth (req_of pool h a)) \<noteq> None, t (hpth (req_of pool h a)) \<noteq> None)
               else (False, False))"

definition names_ok :: "string \<Rightarrow> nodes \<Rightarrow> bool" where
  "names_ok pool t \<longleftrightarrow>
     (\<forall>x. t (zk_ips pool @ [x]) \<noteq> None \<longrightarrow> (\<exists>h a. good_host h \<and> x = IPID (req_of pool h a)))"

definition hosts_ok :: "string \<Rightarrow> nodes \<Rightarrow> bool" where
  "hosts_ok pool t \<longleftrightarrow>
     (\<forall>h d v. t [''pools'', pool, ''hosts'', h] = Some (d, v) \<longrightarrow> h \<noteq> '''' \<and> good_host (hd_ID (as_HostData d)))"

lemma hosts_okD:
  "hosts_ok pool t \<Longrightarrow> t [''pools'', pool, ''hosts'', h] = Some (d, v) \<Longrightarrow> h \<noteq> '''' \<and> good_host (hd_ID (as_HostData d))"
  unfolding hosts_ok_def by blast

lemma path_lengths:
  assumes "pool \<noteq> ''''" "good_host h"
  shows "length (ppth (req_of pool h a)) = 4" "length (hpth (req_of pool h a)) = 6"
    "length (host_ips pool h) = 5"
  using assms by (simp_all add: ppth_def hpth_def ip_paths good_host_def)

lemma ppth_child: "pool \<noteq> '''' \<Longrightarrow> ppth (req_of pool h a) = zk_ips pool @ [IPID (req_of pool h a)]"
  by (simp add: ppth_def ip_paths)

lemma ppth_eq:
  "pool \<noteq> '''' \<Longrightarrow> good_host h \<Longrightarrow> good_host h' \<Longrightarrow> ppth (req_of pool h a) = ppth (req_of pool h' a') \<longleftrightarrow> h = h' \<and> a = a'"
  using IPID_inj [of "req_of pool h a" "req_of pool h' a'"] by (simp add: ppth_def good_host_def)

lemma hpth_eq:
  "pool \<noteq> '''' \<Longrightarrow> good_host h \<Longrightarrow> good_host h' \<Longrightarrow> hpth (req_of pool h a) = hpth (req_of pool h' a') \<longleftrightarrow> h = h' \<and> a = a'"
  using IPID_inj [of "req_of pool h a" "req_of pool h' a'"] by (auto simp: hpth_def ip_paths good_host_def)

lemma ppth_hpth: "pool \<noteq> '''' \<Longrightarrow> good_host h \<Longrightarrow> good_host h' \<Longrightarrow> ppth (req_of pool h a) \<noteq> hpth (req_of pool h' a')"
  using path_lengths(1) [of pool h a] path_lengths(2) [of pool h' a'] by (auto dest!: arg_cong [of _ _ length])

text \<open>Changing the two nodes of one assignment changes one entry of the table.\<close>

definition with_ip :: "nodes \<Rightarrow> IPRequest \<Rightarrow> (Node data \<times> int) option \<Rightarrow> (Node data \<times> int) option \<Rightarrow> nodes" where
  "with_ip t req p h = t(ppth req := p, hpth req := h)"

lemma table_with_ip:
  assumes "pool \<noteq> ''''" "good_host h"
  shows "ip_table pool (with_ip t (req_of pool h a) p q) = (ip_table pool t)((h, a) := (p \<noteq> None, q \<noteq> None))"
  using assms ppth_hpth [OF assms(1,2)] ppth_hpth [OF assms(1) _ assms(2)] ppth_eq [OF assms(1) _ assms(2)]
    hpth_eq [OF assms(1) _ assms(2)]
  by (auto simp: ip_table_def with_ip_def fun_eq_iff eq_commute [of "hpth _" "ppth _"])

text \<open>Whether two trees differ only in directories of addresses.\<close>

definition same_ips :: "string \<Rightarrow> nodes \<Rightarrow> nodes \<Rightarrow> bool" where
  "same_ips pool t t' \<longleftrightarrow> ip_table pool t' = ip_table pool t \<and> (names_ok pool t \<longrightarrow> names_ok pool t') \<and>
     (hosts_ok pool t \<longrightarrow> hosts_ok pool t')"

lemma same_ips_refl [simp]: "same_ips pool t t"
  by (simp add: same_ips_def)

lemma same_ips_trans: "same_ips pool t t' \<Longrightarrow> same_ips pool t' t'' \<Longrightarrow> same_ips pool t t''"
  by (simp add: same_ips_def)

lemma same_ips_dir:
  assumes "pool \<noteq> ''''" "length p = 3 \<or> length p = 5" "performs t [ZCreate p d] e t'"
  shows "same_ips pool t t'"
proof -
  have eq: "t' q = t q" if "length q = 4 \<or> length q = 6" for q
    using assms(2,3) that by (auto simp: performs_def bind_eq_Some_conv split: if_splits)
  then have "ip_table pool t' = ip_table pool t"
    using path_lengths [OF assms(1)] by (auto simp: ip_table_def fun_eq_iff)
  moreover have "t' (zk_ips pool @ [x]) = t (zk_ips pool @ [x])" for x
    using eq assms(1) by (simp add: ip_paths)
  ultimately show ?thesis
    using eq by (simp add: same_ips_def names_ok_def hosts_ok_def)
qed

lemma same_ips_with_ip:
  assumes "pool \<noteq> ''''" "good_host h" "same_ips pool t t1"
  shows "hosts_ok pool t \<longrightarrow> hosts_ok pool (with_ip t1 (req_of pool h a) p q)"
    and "names_ok pool t \<longrightarrow> names_ok pool (with_ip t1 (req_of pool h a) p q)"
proof -
  have hosts: "with_ip t1 (req_of pool h a) p q [''pools'', pool, ''hosts'', x] = t1 [''pools'', pool, ''hosts'', x]" for x
    using assms path_lengths(2) [OF assms(1,2), of a]
    by (auto simp: with_ip_def ppth_def ip_paths dest!: arg_cong [of "[''pools'', pool, ''hosts'', x]" _ length])
  have names: "with_ip t1 (req_of pool h a) p q (zk_ips pool @ [x]) =
      (if x = IPID (req_of pool h a) then p else t1 (zk_ips pool @ [x]))" for x
    using assms path_lengths(2) [OF assms(1,2), of a]
    by (auto simp: with_ip_def ppth_child ip_paths dest!: arg_cong [of _ "hpth (req_of pool h a)" length])
  show "names_ok pool t \<longrightarrow> names_ok pool (with_ip t1 (req_of pool h a) p q)"
  proof
    assume "names_ok pool t"
    then have "names_ok pool t1" using assms(3) by (simp add: same_ips_def)
    then show "names_ok pool (with_ip t1 (req_of pool h a) p q)"
      unfolding names_ok_def names using assms(2) by (metis (full_types))
  qed
  show "hosts_ok pool t \<longrightarrow> hosts_ok pool (with_ip t1 (req_of pool h a) p q)"
    using assms(3) unfolding same_ips_def hosts_ok_def hosts by blast
qed

text \<open>What a change of one entry keeps.\<close>

definition ip_step :: "string \<Rightarrow> string \<times> string \<Rightarrow> bool \<Rightarrow> nodes \<Rightarrow> nodes \<Rightarrow> bool" where
  "ip_step pool k b t t' \<longleftrightarrow> ip_table pool t' = (ip_table pool t)(k := (b, b)) \<and> (names_ok pool t \<longrightarrow> names_ok pool t') \<and>
     (hosts_ok pool t \<longrightarrow> hosts_ok pool t')"

lemma ip_step_with_ip:
  assumes "pool \<noteq> ''''" "good_host h" "same_ips pool t t1" "p \<noteq> None \<longleftrightarrow> b" "q \<noteq> None \<longleftrightarrow> b"
  shows "ip_step pool (h, a) b t (with_ip t1 (req_of pool h a) p q)"
  using assms same_ips_with_ip [OF assms(1-3)] table_with_ip [OF assms(1,2)] by (simp add: ip_step_def same_ips_def)

context state_connection
begin

lemma CreateIP_effect:
  assumes "CreateIP c (req_of pool h a) nm bi s = (e, s')" "pool \<noteq> ''''" "good_host h"
  shows "ip_step pool (h, a) True (seen s) (seen s') \<and> ip_table pool (seen s) (h, a) = (False, False)
    \<or> (e \<noteq> None \<and> same_ips pool (seen s) (seen s'))"
proof -
  let ?req = "req_of pool h a"
  obtain e1 s1 where d1: "CreateIfExists c (pool_ips pool) DirData s = (e1, s1)" by force
  obtain e2 s2 where d2: "CreateIfExists c (host_ips pool h) DirData s1 = (e2, s2)" by force
  have h: "h \<noteq> ''''" using assms(3) by (simp add: good_host_def)
  have s1: "same_ips pool (seen s) (seen s1)"
    using same_ips_dir [OF assms(2) _ CreateIfExists_performs [OF d1]] assms(2) by (simp add: ip_paths)
  have s2: "same_ips pool (seen s) (seen s2)"
    using same_ips_trans [OF s1 same_ips_dir [OF assms(2) _ CreateIfExists_performs [OF d2]]] assms(2) h by (simp add: ip_paths)
  consider (dir1) "e = map_option IPClientError e1" "e1 \<noteq> None" "s' = s1" | (dir2) "e = map_option IPClientError e2" "e2 \<noteq> None" "s' = s2"
    | (commit) e3 where "Commit c (create_ip_ops ?req nm bi) s2 = (e3, s')" "e = map_option IPClientError e3"
    using assms(1) d1 d2 by (cases "Commit c (create_ip_ops ?req nm bi) s2") (auto simp: CreateIP_def ip_commit_def split: if_splits)
  then show ?thesis
  proof cases
    case commit
    have paths: "\<forall>r \<in> set (create_ip_ops ?req nm bi). req_path r \<noteq> []"
      by (simp add: create_ip_ops_def req_path_def ppth_def hpth_def)
    have created: "seen s' = with_ip (seen s2) ?req (Some (NodeData (PoolIPNode False), 0))
        (Some (NodeData (HostIPNode \<lparr>hip_Netmask = nm, hip_BindInterface = bi\<rparr>), 0)) \<and> ip_table pool (seen s2) (h, a) = (False, False)"
      if "commit_tree (create_ip_ops ?req nm bi) (seen s2) = Some (seen s')"
      using that ppth_hpth [OF assms(2,3,3), of a a] assms(3)
      by (auto simp: commit_tree_def create_ip_ops_def with_ip_def ip_table_def bind_eq_Some_conv split: if_splits)
    show ?thesis
      using Commit_tree [OF commit(1) paths] created commit(2) ip_step_with_ip [OF assms(2,3) s2] s2
      by (auto simp: same_ips_def)
  qed (use s1 s2 in auto)
qed

lemma DeleteIP_effect:
  assumes "DeleteIP c (req_of pool h a) s = (e, s')" "pool \<noteq> ''''" "good_host h"
  shows "ip_step pool (h, a) False (seen s) (seen s') \<or> (e \<noteq> None \<and> seen s' = seen s)"
proof (cases "\<exists>pok hok. Coordinator.Exists c (ppth (req_of pool h a)) s = Inr pok \<and> Coordinator.Exists c (hpth (req_of pool h a)) s = Inr hok")
  case True
  then obtain pok hok where ex: "Coordinator.Exists c (ppth (req_of pool h a)) s = Inr pok"
    "Coordinator.Exists c (hpth (req_of pool h a)) s = Inr hok" by blast
  let ?ps = "(if pok then [ppth (req_of pool h a)] else []) @ (if hok then [hpth (req_of pool h a)] else [])"
  have ops: "delete_if pok (ppth (req_of pool h a)) @ delete_if hok (hpth (req_of pool h a)) = map MultiDelete ?ps"
    by (simp add: delete_if_def)
  obtain e2 where commit: "Commit c (map MultiDelete ?ps) s = (e2, s')" "e = map_option IPClientError e2"
    using assms(1) ex ops by (cases "Commit c (map MultiDelete ?ps) s") (simp add: DeleteIP_def ip_commit_def)
  have paths: "\<forall>r \<in> set (map MultiDelete ?ps :: Node multiReq list). req_path r \<noteq> []"
    by (auto simp: req_path_def ppth_def hpth_def)
  have "seen s' = with_ip (seen s) (req_of pool h a) None None"
    if "commit_tree (map MultiDelete ?ps) (seen s) = Some (seen s')"
  proof -
    from that obtain zops where "resolve (seen s) (map MultiDelete ?ps) = Some zops" "tree_ops zops (seen s) = Some (seen s')"
      by (auto simp: commit_tree_def bind_eq_Some_conv)
    from commit_deletes [OF this] show ?thesis
      using Exists_seen [OF ex(1)] Exists_seen [OF ex(2)] by (auto simp: with_ip_def fun_eq_iff)
  qed
  then show ?thesis
    using Commit_tree [OF commit(1) paths] commit(2) ip_step_with_ip [OF assms(2,3) same_ips_refl, of None False None] by auto
qed (use assms(1) in \<open>auto simp: DeleteIP_def split: sum.splits\<close>)

end

subsection \<open>The invariant of a pool\<close>

text \<open>
  In a good table the two nodes of an assignment exist together and an address has at most
  one host. In a good pool, also, the names of the assignments and the ids of the hosts are
  well formed.
\<close>

definition table_ok :: "(string \<times> string \<Rightarrow> bool \<times> bool) \<Rightarrow> bool" where
  "table_ok T \<longleftrightarrow> (\<forall>k. fst (T k) = snd (T k)) \<and> (\<forall>h h' a. fst (T (h, a)) \<longrightarrow> fst (T (h', a)) \<longrightarrow> h = h')"

definition pool_ok :: "string \<Rightarrow> nodes \<Rightarrow> bool" where
  "pool_ok pool t \<longleftrightarrow> names_ok pool t \<and> hosts_ok pool t \<and> table_ok (ip_table pool t)"

lemma pool_ok_same: "same_ips pool t t' \<Longrightarrow> pool_ok pool t \<Longrightarrow> pool_ok pool t'"
  by (simp add: same_ips_def pool_ok_def)

lemma pool_ok_delete: "ip_step pool k False t t' \<Longrightarrow> pool_ok pool t \<Longrightarrow> pool_ok pool t'"
  by (auto simp: ip_step_def pool_ok_def table_ok_def fun_upd_def)

lemma pool_ok_create:
  "ip_step pool (h, a) True t t' \<Longrightarrow> pool_ok pool t \<Longrightarrow> \<forall>h'. \<not> fst (ip_table pool t (h', a)) \<Longrightarrow> pool_ok pool t'"
  by (auto simp: ip_step_def pool_ok_def table_ok_def fun_upd_def)

lemma ParseIPID_error: "ParseIPID x = Inl e \<Longrightarrow> e = ErrInvalidIPID"
  by (auto simp: ParseIPID_def split: list.splits)

lemma find_ip_found: "find_ip a xs = Inr h \<Longrightarrow> \<exists>x \<in> set xs. ParseIPID x = Inr (h, a)"
  by (induction xs) (auto split: sum.splits if_splits)

lemma find_ip_none:
  "find_ip a xs = Inl ErrNoAssignedHost \<Longrightarrow> x \<in> set xs \<Longrightarrow> ParseIPID x = Inr (h, a') \<Longrightarrow> a' \<noteq> a"
  by (induction xs) (auto dest: ParseIPID_error split: sum.splits if_splits)

lemma fst_table: "pool \<noteq> '''' \<Longrightarrow> fst (ip_table pool t (h, a)) \<longleftrightarrow> good_host h \<and> t (zk_ips pool @ [IPID (req_of pool h a)]) \<noteq> None"
  by (simp add: ip_table_def ppth_child)

lemma names_ok_parse:
  assumes "names_ok pool t" "t (zk_ips pool @ [x]) \<noteq> None"
  obtains h a where "ParseIPID x = Inr (h, a)" "good_host h" "x = IPID (req_of pool h a)"
proof -
  obtain h a where "good_host h" "x = IPID (req_of pool h a)" using assms unfolding names_ok_def by blast
  then show thesis using that ParseIPID_IPID [of "req_of pool h a"] by (simp add: good_host_def)
qed

context state_connection
begin

lemma getAssignedHostID_found:
  assumes "getAssignedHostID c pool a s = Inr h" "pool \<noteq> ''''" "names_ok pool (seen s)"
  shows "fst (ip_table pool (seen s) (h, a))"
proof -
  obtain xs where xs: "Coordinator.Children c (zk_ips pool) s = Inr xs" "find_ip a xs = Inr h"
    using assms(1) by (auto simp: getAssignedHostID_def split: sum.splits bool.splits)
  then obtain x where x: "x \<in> set xs" "ParseIPID x = Inr (h, a)" using find_ip_found by blast
  then have node: "seen s (zk_ips pool @ [x]) \<noteq> None" using Children_seen [OF xs(1)] by blast
  obtain h' a' where "ParseIPID x = Inr (h', a')" "good_host h'" "x = IPID (req_of pool h' a')"
    using names_ok_parse [OF assms(3) node] .
  with x(2) node assms(2) show ?thesis by (simp add: fst_table)
qed

lemma getAssignedHostID_none:
  assumes "getAssignedHostID c pool a s = Inl ErrNoAssignedHost" "pool \<noteq> ''''" "closed (seen s)"
  shows "\<not> fst (ip_table pool (seen s) (h, a))"
proof (cases "seen s (zk_ips pool)")
  case None
  then show ?thesis using assms(2,3) by (simp add: fst_table closed_def)
next
  case (Some d)
  then obtain xs where xs: "Coordinator.Children c (zk_ips pool) s = Inr xs" "find_ip a xs = Inl ErrNoAssignedHost"
    using assms(1) Exists_seen [of "zk_ips pool" s]
    by (auto simp: getAssignedHostID_def split: sum.splits bool.splits)
  show ?thesis
  proof
    assume "fst (ip_table pool (seen s) (h, a))"
    then have h: "good_host h" and node: "seen s (zk_ips pool @ [IPID (req_of pool h a)]) \<noteq> None"
      using assms(2) by (simp_all add: fst_table)
    then have "IPID (req_of pool h a) \<in> set xs" using Children_seen [OF xs(1)] by blast
    then show False
      using find_ip_none [OF xs(2)] ParseIPID_IPID [of "req_of pool h a"] h by (auto simp: good_host_def)
  qed
qed

lemma online_hosts_subset: "online_hosts c pool hs s = Inr hosts \<Longrightarrow> set hosts \<subseteq> set hs"
proof (induction hs arbitrary: hosts)
  case (Cons h hs)
  then obtain b hosts' where "IsHostOnline c pool h s = Inr b" "online_hosts c pool hs s = Inr hosts'"
    "hosts = (if b then h # hosts' else hosts')"
    by (cases "online_hosts c pool hs s") (auto split: sum.splits)
  then show ?case using Cons.IH by auto
qed simp

lemma load_hosts_good:
  assumes "load_hosts c pool hs s = Inr hosts" "\<forall>h \<in> set hs. h \<noteq> ''''" "pool \<noteq> ''''" "hosts_ok pool (seen s)"
  shows "\<forall>hst \<in> set hosts. good_host (hd_ID hst)"
  using assms(1,2)
proof (induction hs arbitrary: hosts)
  case (Cons h hs)
  show ?case
  proof (cases "\<exists>hdat v. get_as as_HostData c (zk_host pool h []) s = Inr (hdat, v)")
    case True
    then obtain hdat v where get: "get_as as_HostData c (zk_host pool h []) s = Inr (hdat, v)" by blast
    then obtain d where d: "seen s (zk_host pool h []) = Some (d, v)" "hdat = as_HostData d" using get_as_seen [OF get] by blast
    have "zk_host pool h [] = [''pools'', pool, ''hosts'', h]" using assms(3) Cons.prems(2) by (simp add: ip_paths)
    then have "good_host (hd_ID hdat)" using d hosts_okD [OF assms(4), of h d v] by simp
    then show ?thesis
      using Cons.IH Cons.prems get by (cases "load_hosts c pool hs s") (auto split: sum.splits if_splits)
  next
    case False
    then show ?thesis
      using Cons by (cases "get_as as_HostData c (zk_host pool h []) s") (auto split: sum.splits if_splits)
  qed
qed simp

lemma registered_good:
  assumes "GetRegisteredHostsForPool c pool s = Inr hosts" "pool \<noteq> ''''" "hosts_ok pool (seen s)"
  shows "\<forall>hst \<in> set hosts. good_host (hd_ID hst)"
proof -
  obtain ids ch where ids: "load_hosts c pool ids s = Inr hosts" "online_hosts c pool ch s = Inr ids"
    "children_or_none c (Join [''pools'', pool, ''hosts'']) s = Inr ch"
    using assms(1) by (auto simp: GetRegisteredHostsForPool_def GetCurrentHosts_def split: sum.splits)
  have "h \<noteq> ''''" if "h \<in> set ch" for h
  proof -
    have "Coordinator.Children c [''pools'', pool, ''hosts''] s = Inr ch"
      using ids(3) that assms(2) by (auto simp: children_or_none_def split: sum.splits if_splits)
    then have "seen s [''pools'', pool, ''hosts'', h] \<noteq> None" using Children_seen that by fastforce
    then show ?thesis using assms(3) by (auto simp: hosts_ok_def)
  qed
  then show ?thesis
    using load_hosts_good [OF ids(1) _ assms(2,3)] online_hosts_subset [OF ids(2)] by blast
qed

end

lemma not_excluded: "hst \<in> set (filterOutExcludedHosts now a hosts tm) \<Longrightarrow> hst \<in> set hosts \<and> hd_ID hst \<notin> set (getExcludedHostIDs now a tm)"
  by (auto simp: filterOutExcludedHosts_def containsHostID_def list_ex_iff)

lemma addExcludeHost_excludes:
  "now < now0 + Timeout \<Longrightarrow> hd_ID host \<in> set (getExcludedHostIDs now a (addExcludeHost now0 a host tm))"
proof -
  assume "now < now0 + Timeout"
  moreover have "map_of (addExcludeHost now0 a host tm) a =
      Some (gset (hd_ID host) (now0 + Timeout) (case map_of tm a of None \<Rightarrow> [] | Some m \<Rightarrow> m))"
    by (auto simp: addExcludeHost_def Let_def split: option.splits)
  moreover have "(k, v) \<in> set (gset k v m)" for k :: string and v :: int and m
    by (metis gomap.lookup_set fun_upd_same map_of_SomeD)
  ultimately show ?thesis by (force simp: getExcludedHostIDs_def)
qed

context state_connection
begin

lemma assignToHost_effect:
  assumes "assignToHost c r pool a nm bi tm s = (e, tm', s')" "pool \<noteq> ''''" "hosts_ok pool (seen s)"
  shows "(\<exists>hst. hd_ID hst \<notin> set (getExcludedHostIDs (now_filter r) a tm) \<and> tm' = addExcludeHost (now_add r) a hst tm \<and>
        ip_step pool (hd_ID hst, a) True (seen s) (seen s'))
     \<or> (e \<noteq> None \<and> same_ips pool (seen s) (seen s'))"
proof (cases "GetRegisteredHostsForPool c pool s")
  case (Inr hosts)
  let ?hosts = "filterOutExcludedHosts (now_filter r) a hosts tm"
  show ?thesis
  proof (cases "?hosts = []")
    case False
    define hst where "hst = ?hosts ! (rand_Intn r mod length ?hosts)"
    have "hst \<in> set ?hosts" unfolding hst_def by (rule nth_mem) (use False in simp)
    then have hst: "hd_ID hst \<notin> set (getExcludedHostIDs (now_filter r) a tm)" "good_host (hd_ID hst)"
      using not_excluded registered_good [OF Inr assms(2,3)] by blast+
    have create: "CreateIP c (req_of pool (hd_ID hst) a) nm bi s = (e, s')" "tm' = addExcludeHost (now_add r) a hst tm"
      using assms(1) Inr False by (auto simp: assignToHost_def Select_def hst_def Let_def split: prod.splits)
    from CreateIP_effect [OF create(1) assms(2) hst(2)] create(2) hst(1) show ?thesis by blast
  qed (use assms(1) Inr in \<open>auto simp: assignToHost_def\<close>)
qed (use assms(1) in \<open>auto simp: assignToHost_def\<close>)

lemma Assign_effect:
  assumes "Assign c r pool a nm bi tm s = (e, tm', s')" "pool \<noteq> ''''" "hosts_ok pool (seen s)" "closed (seen s)"
  shows "(\<exists>hst. hd_ID hst \<notin> set (getExcludedHostIDs (now_filter r) a tm) \<and> tm' = addExcludeHost (now_add r) a hst tm \<and>
        ip_step pool (hd_ID hst, a) True (seen s) (seen s') \<and> (\<forall>h. \<not> fst (ip_table pool (seen s) (h, a))))
     \<or> (e \<noteq> None \<and> same_ips pool (seen s) (seen s'))"
proof (cases "getAssignedHostID c pool a s = Inl ErrNoAssignedHost")
  case True
  then have "assignToHost c r pool a nm bi tm s = (e, tm', s')" using assms(1) by (simp add: Assign_def)
  from assignToHost_effect [OF this assms(2,3)] getAssignedHostID_none [OF True assms(2,4)] show ?thesis by blast
next
  case False
  then have "e \<noteq> None \<and> s' = s" using assms(1) by (auto simp: Assign_def split: sum.splits if_splits)
  then show ?thesis by simp
qed

lemma Unassign_effect:
  assumes "Unassign c pool a s = (e, s')" "pool \<noteq> ''''" "names_ok pool (seen s)"
  shows "(\<exists>h. fst (ip_table pool (seen s) (h, a)) \<and> ip_step pool (h, a) False (seen s) (seen s')) \<or> (e \<noteq> None \<and> seen s' = seen s)"
proof (cases "getAssignedHostID c pool a s")
  case (Inr h)
  have found: "fst (ip_table pool (seen s) (h, a))" using getAssignedHostID_found [OF Inr assms(2,3)] .
  then have "good_host h" using assms(2) by (simp add: fst_table)
  then show ?thesis
    using DeleteIP_effect [of pool h a s e s'] assms(1,2) Inr found by (auto simp: Unassign_def)
qed (use assms(1) in \<open>auto simp: Unassign_def\<close>)

lemma CreateIfExists_closed: "CreateIfExists c p d s = (e, s') \<Longrightarrow> p \<noteq> [] \<Longrightarrow> closed (seen s) \<Longrightarrow> closed (seen s')"
  using CreateIfExists_performs closed_performs by blast

lemma CreateIP_closed:
  assumes "CreateIP c req nm bi s = (e, s')" "closed (seen s)"
  shows "closed (seen s')"
proof -
  obtain e1 s1 where d1: "CreateIfExists c (pool_ips (ip_PoolID req)) DirData s = (e1, s1)" by force
  obtain e2 s2 where d2: "CreateIfExists c (host_ips (ip_PoolID req) (ip_HostID req)) DirData s1 = (e2, s2)" by force
  obtain e3 s3 where d3: "Commit c (create_ip_ops req nm bi) s2 = (e3, s3)" by force
  have ne: "pool_ips (ip_PoolID req) \<noteq> []" "host_ips (ip_PoolID req) (ip_HostID req) \<noteq> []"
    by (simp_all add: pool_ips_def host_ips_def Join_def)
  have cl: "closed (seen s1)" "closed (seen s2)"
    using CreateIfExists_closed [OF d1 ne(1) assms(2)] CreateIfExists_closed [OF d2 ne(2)] by blast+
  moreover have "closed (seen s3)"
    using Commit_closed [OF d3 _ cl(2)] by (simp add: create_ip_ops_def req_path_def ppth_def hpth_def)
  ultimately show ?thesis
    using assms(1) d1 d2 d3 by (auto simp: CreateIP_def ip_commit_def split: if_splits)
qed

lemma DeleteIP_closed: "DeleteIP c req s = (e, s') \<Longrightarrow> closed (seen s) \<Longrightarrow> closed (seen s')"
proof -
  assume run: "DeleteIP c req s = (e, s')" and cl: "closed (seen s)"
  have paths: "\<forall>r \<in> set (delete_if pok (ppth req) @ delete_if hok (hpth req)). req_path r \<noteq> []" for pok hok
    by (auto simp: delete_if_def req_path_def ppth_def hpth_def)
  show ?thesis
  proof (cases "\<exists>pok hok. Coordinator.Exists c (ppth req) s = Inr pok \<and> Coordinator.Exists c (hpth req) s = Inr hok")
    case True
    then obtain pok hok where "Coordinator.Exists c (ppth req) s = Inr pok" "Coordinator.Exists c (hpth req) s = Inr hok" by blast
    then show ?thesis
      using run cl Commit_closed [OF _ paths, of pok hok s]
      by (cases "Commit c (delete_if pok (ppth req) @ delete_if hok (hpth req)) s") (simp add: DeleteIP_def ip_commit_def)
  qed (use run cl in \<open>auto simp: DeleteIP_def split: sum.splits\<close>)
qed

end

text \<open>A pool together with the shape of the tree.\<close>

definition pool_inv :: "string \<Rightarrow> nodes \<Rightarrow> bool" where
  "pool_inv pool t \<longleftrightarrow> pool_ok pool t \<and> closed t"

lemma table_cong: "pool_inv pool t \<Longrightarrow> fst (ip_table pool t k) = snd (ip_table pool t k)"
  unfolding pool_inv_def pool_ok_def table_ok_def by blast

text \<open>The addresses that have a host.\<close>

definition assigned :: "string \<Rightarrow> nodes \<Rightarrow> string set" where
  "assigned pool t = {a. \<exists>h. fst (ip_table pool t (h, a))}"

lemma assigned_same: "same_ips pool t t' \<Longrightarrow> assigned pool t' = assigned pool t"
  by (simp add: assigned_def same_ips_def)

lemma assigned_create: "ip_step pool (h, a) True t t' \<Longrightarrow> assigned pool t' = insert a (assigned pool t)"
  by (auto simp: assigned_def ip_step_def fun_upd_def split: if_splits)

lemma assigned_delete:
  assumes "ip_step pool (h, a) False t t'" "fst (ip_table pool t (h, a))" "pool_ok pool t"
  shows "assigned pool t' = assigned pool t - {a}"
proof -
  have "h' = h" if "fst (ip_table pool t (h', a))" for h'
    using that assms(2,3) by (simp add: pool_ok_def table_ok_def)
  then show ?thesis
    using assms(1) by (auto simp: assigned_def ip_step_def fun_upd_def split: if_splits)
qed

context state_connection
begin

lemma Assign_inv:
  assumes "Assign c r pool a nm bi tm s = (e, tm', s')" "pool \<noteq> ''''" "pool_inv pool (seen s)"
  shows "pool_inv pool (seen s') \<and>
     (assigned pool (seen s') = insert a (assigned pool (seen s)) \<and> a \<notin> assigned pool (seen s)
      \<or> e \<noteq> None \<and> assigned pool (seen s') = assigned pool (seen s))"
proof -
  have ok: "pool_ok pool (seen s)" "closed (seen s)" "hosts_ok pool (seen s)" using assms(3) by (simp_all add: pool_inv_def pool_ok_def)
  have cl: "closed (seen s')"
  proof (cases "s' = s")
    case False
    then obtain req where "CreateIP c req nm bi s = (e, s')"
      using assms(1) by (auto simp: Assign_def assignToHost_def Let_def split: sum.splits if_splits prod.splits)
    then show ?thesis using CreateIP_closed ok(2) by blast
  qed (use ok in simp)
  from Assign_effect [OF assms(1,2) ok(3,2)] show ?thesis
  proof
    assume "\<exists>hst. hd_ID hst \<notin> set (getExcludedHostIDs (now_filter r) a tm) \<and> tm' = addExcludeHost (now_add r) a hst tm \<and>
        ip_step pool (hd_ID hst, a) True (seen s) (seen s') \<and> (\<forall>h. \<not> fst (ip_table pool (seen s) (h, a)))"
    then obtain h where step: "ip_step pool (h, a) True (seen s) (seen s')" and none: "\<forall>h. \<not> fst (ip_table pool (seen s) (h, a))"
      by blast
    have "a \<notin> assigned pool (seen s)" using none by (simp add: assigned_def)
    then show ?thesis
      using pool_ok_create [OF step ok(1) none] cl assigned_create [OF step] by (simp add: pool_inv_def)
  next
    assume "e \<noteq> None \<and> same_ips pool (seen s) (seen s')"
    then show ?thesis using pool_ok_same ok(1) cl assigned_same by (auto simp: pool_inv_def)
  qed
qed

lemma Unassign_inv:
  assumes "Unassign c pool a s = (e, s')" "pool \<noteq> ''''" "pool_inv pool (seen s)"
  shows "pool_inv pool (seen s') \<and>
     (assigned pool (seen s') = assigned pool (seen s) - {a} \<or> e \<noteq> None \<and> seen s' = seen s)"
proof -
  have ok: "pool_ok pool (seen s)" "closed (seen s)" "names_ok pool (seen s)" using assms(3) by (simp_all add: pool_inv_def pool_ok_def)
  have cl: "closed (seen s')"
    using assms(1) DeleteIP_closed [OF _ ok(2)] ok(2) by (auto simp: Unassign_def split: sum.splits)
  from Unassign_effect [OF assms(1,2) ok(3)] show ?thesis
  proof
    assume "\<exists>h. fst (ip_table pool (seen s) (h, a)) \<and> ip_step pool (h, a) False (seen s) (seen s')"
    then obtain h where h: "fst (ip_table pool (seen s) (h, a))" "ip_step pool (h, a) False (seen s) (seen s')" by blast
    then show ?thesis
      using pool_ok_delete [OF h(2) ok(1)] cl assigned_delete [OF h(2,1) ok(1)] by (simp add: pool_inv_def)
  qed (use ok in \<open>auto simp: pool_inv_def\<close>)
qed

lemma assign_list_inv:
  assumes "assign_list c env i ips tm s = (es, tm', s')" "pool \<noteq> ''''" "pool_inv pool (seen s)"
    "\<forall>ip \<in> set ips. vip_PoolID ip = pool"
  shows "pool_inv pool (seen s') \<and> assigned pool (seen s') \<subseteq> vip_IP ` set ips \<union> assigned pool (seen s) \<and>
     assigned pool (seen s) \<subseteq> assigned pool (seen s') \<and> (es = [] \<longrightarrow> vip_IP ` set ips \<subseteq> assigned pool (seen s'))"
  using assms(1,3,4)
proof (induction ips arbitrary: i tm s es)
  case (Cons ip ips)
  obtain e tm1 s1 where first: "Assign c (env i) pool (vip_IP ip) (vip_Netmask ip) (vip_BindInterface ip) tm s = (e, tm1, s1)"
    by (metis prod.collapse)
  obtain es1 where rest: "assign_list c env (Suc i) ips tm1 s1 = (es1, tm', s')" "es = (case e of None \<Rightarrow> es1 | Some e \<Rightarrow> e # es1)"
    using Cons.prems(1,3) first by (auto split: prod.splits)
  note a = Assign_inv [OF first assms(2) Cons.prems(2)]
  have "\<forall>ip \<in> set ips. vip_PoolID ip = pool" using Cons.prems(3) by simp
  note ih = Cons.IH [OF rest(1) conjunct1 [OF a] this]
  have "es = [] \<Longrightarrow> e = None \<and> es1 = []" using rest(2) by (auto split: option.splits)
  then show ?case using a ih by auto
qed simp

lemma unassign_ips_inv:
  assumes "unassign_ips c pool ips s = (es, s')" "pool \<noteq> ''''" "pool_inv pool (seen s)"
  shows "pool_inv pool (seen s') \<and> assigned pool (seen s) - set ips \<subseteq> assigned pool (seen s') \<and>
     assigned pool (seen s') \<subseteq> assigned pool (seen s) \<and> (es = [] \<longrightarrow> assigned pool (seen s') = assigned pool (seen s) - set ips)"
  using assms(1,3)
proof (induction ips arbitrary: s es)
  case (Cons ip ips)
  obtain e s1 where first: "Unassign c pool ip s = (e, s1)" by force
  obtain es1 where rest: "unassign_ips c pool ips s1 = (es1, s')" "es = (case e of None \<Rightarrow> es1 | Some e \<Rightarrow> e # es1)"
    using Cons.prems(1) first by (auto split: prod.splits)
  note a = Unassign_inv [OF first assms(2) Cons.prems(2)]
  note ih = Cons.IH [OF rest(1) conjunct1 [OF a]]
  have "es = [] \<Longrightarrow> e = None \<and> es1 = []" using rest(2) by (auto split: option.splits)
  then show ?case using a ih by auto
qed simp

end

context state_connection
begin

lemma UpdateIP_inv:
  assumes "UpdateIP c (req_of pool h a) mutate s = (e, s')" "pool \<noteq> ''''" "good_host h" "pool_inv pool (seen s)"
  shows "pool_inv pool (seen s') \<and> ip_table pool (seen s') = ip_table pool (seen s)"
proof (cases "s' = s")
  case False
  let ?req = "req_of pool h a"
  obtain ok pv hip hv ip e2 where run: "get_as as_PoolIP c (ppth ?req) s = Inr (ok, pv)" "get_as as_HostIP c (hpth ?req) s = Inr (hip, hv)"
    "Commit c (update_ip_ops ?req ip pv hv) s = (e2, s')"
    using assms(1) False
    by (auto simp: UpdateIP_def read_ip_def ip_commit_def split: sum.splits prod.splits bool.splits)
      (metis prod.collapse)
  have paths: "\<forall>r \<in> set (update_ip_ops ?req ip pv hv). req_path r \<noteq> []"
    by (simp add: update_ip_ops_def req_path_def ppth_def hpth_def)
  have there: "ip_table pool (seen s) (h, a) = (True, True)"
    using get_as_seen [OF run(1)] get_as_seen [OF run(2)] assms(3) by (auto simp: ip_table_def)
  have "commit_tree (update_ip_ops ?req ip pv hv) (seen s) =
      (if (\<exists>d. seen s (ppth ?req) = Some (d, pv)) \<and> (\<exists>d. seen s (hpth ?req) = Some (d, hv))
       then Some (with_ip (seen s) ?req (Some (NodeData (PoolIPNode (full_OK ip)), pv + 1)) (Some (NodeData (HostIPNode (full_HostIP ip)), hv + 1)))
       else None)"
    using ppth_hpth [OF assms(2,3,3), of a a]
    by (auto simp: commit_tree_def update_ip_ops_def with_ip_def split: option.splits)
  then have "ip_step pool (h, a) True (seen s) (seen s') \<or> seen s' = seen s"
    using Commit_tree [OF run(3) paths]
      ip_step_with_ip [OF assms(2,3) same_ips_refl, where t = "seen s" and b = True and a = a
        and p = "Some (NodeData (PoolIPNode (full_OK ip)), pv + 1)" and q = "Some (NodeData (HostIPNode (full_HostIP ip)), hv + 1)"]
    by (auto split: if_splits)
  moreover have "closed (seen s')" using Commit_closed [OF run(3) paths] assms(4) by (simp add: pool_inv_def)
  ultimately show ?thesis
    using assms(4) there by (auto simp: pool_inv_def pool_ok_def ip_step_def fun_upd_idem)
qed (use assms in simp)

lemma unassign_list_inv:
  assumes "unassign_list c pool h xs s = (e, s')" "pool \<noteq> ''''" "good_host h" "pool_inv pool (seen s)"
  shows "pool_inv pool (seen s') \<and> (\<forall>k. fst (ip_table pool (seen s') k) \<longrightarrow> fst (ip_table pool (seen s) k)) \<and>
     (\<forall>k. fst k \<noteq> h \<longrightarrow> ip_table pool (seen s') k = ip_table pool (seen s) k) \<and>
     (e = None \<longrightarrow> (\<forall>x \<in> set xs. \<exists>h' a. ParseIPID x = Inr (h', a) \<and> ip_table pool (seen s') (h, a) = (False, False)))"
  using assms(1,4)
proof (induction xs arbitrary: s)
  case (Cons x xs)
  show ?case
  proof (cases "ParseIPID x")
    case (Inr p)
    obtain h' a where p: "p = (h', a)" by force
    obtain e1 s1 where del: "DeleteIP c (req_of pool h a) s = (e1, s1)" by force
    have ok: "pool_ok pool (seen s)" "closed (seen s)" using Cons.prems(2) by (simp_all add: pool_inv_def)
    have step: "ip_step pool (h, a) False (seen s) (seen s1) \<or> (e1 \<noteq> None \<and> seen s1 = seen s)"
      using DeleteIP_effect [OF del assms(2,3)] .
    then have inv1: "pool_inv pool (seen s1)"
      using pool_ok_delete [OF _ ok(1)] DeleteIP_closed [OF del ok(2)] ok by (auto simp: pool_inv_def)
    have less: "\<forall>k. fst (ip_table pool (seen s1) k) \<longrightarrow> fst (ip_table pool (seen s) k)"
        "\<forall>k. fst k \<noteq> h \<longrightarrow> ip_table pool (seen s1) k = ip_table pool (seen s) k"
      using step by (auto simp: ip_step_def split: if_splits)
    show ?thesis
    proof (cases e1)
      case None
      then have run: "unassign_list c pool h xs s1 = (e, s')" using Cons.prems(1) Inr p del by simp
      note ih = Cons.IH [OF run inv1]
      have "ip_table pool (seen s1) (h, a) = (False, False)" using step None by (auto simp: ip_step_def)
      then have "\<not> fst (ip_table pool (seen s') (h, a))" using ih by (metis fst_conv)
      then have "ip_table pool (seen s') (h, a) = (False, False)"
        using table_cong [OF conjunct1 [OF ih], of "(h, a)"] by (simp add: prod_eq_iff)
      then show ?thesis using ih less Inr p by auto
    qed (use Cons.prems Inr p del inv1 less in auto)
  qed (use Cons.prems in auto)
qed auto

lemma UnassignAll_inv:
  assumes "UnassignAll c pool h s = (e, s')" "pool \<noteq> ''''" "good_host h" "pool_inv pool (seen s)"
  shows "pool_inv pool (seen s') \<and> (\<forall>k. fst k \<noteq> h \<longrightarrow> ip_table pool (seen s') k = ip_table pool (seen s) k) \<and>
     (e = None \<longrightarrow> (\<forall>a. ip_table pool (seen s') (h, a) = (False, False)))"
proof -
  have cong: "ip_table pool (seen s) (h, a) = (b, b)" if "b \<longleftrightarrow> seen s (hpth (req_of pool h a)) \<noteq> None" for a b
    using that assms(3) table_cong [OF assms(4), of "(h, a)"] by (simp add: ip_table_def)
  have dir: "zk_host pool h [''ips''] = host_ips pool h" using assms(2,3) by (simp add: ip_paths good_host_def)
  have hp: "hpth (req_of pool h a) = host_ips pool h @ [IPID (req_of pool h a)]" for a by (simp add: hpth_def)
  show ?thesis
  proof (cases "Coordinator.Exists c (host_ips pool h) s = Inr False")
    case True
    then have "seen s (host_ips pool h) = None" using Exists_seen by blast
    then have "seen s (hpth (req_of pool h a)) = None" for a using assms(4) hp by (simp add: pool_inv_def closed_def)
    then have "ip_table pool (seen s) (h, a) = (False, False)" for a using cong [of False a] by simp
    then show ?thesis using assms(1,4) True dir by (simp add: UnassignAll_def)
  next
    case False
    show ?thesis
    proof (cases "Coordinator.Exists c (host_ips pool h) s = Inr True \<and> (\<exists>xs. Coordinator.Children c (host_ips pool h) s = Inr xs)")
      case True
      then obtain xs where xs: "Coordinator.Children c (host_ips pool h) s = Inr xs" by blast
      then have run: "unassign_list c pool h xs s = (e, s')" using assms(1) True dir by (simp add: UnassignAll_def)
      note inv = unassign_list_inv [OF run assms(2-4)]
      have "ip_table pool (seen s') (h, a) = (False, False)" if "e = None" for a
      proof (cases "IPID (req_of pool h a) \<in> set xs")
        case True
        then show ?thesis using inv that ParseIPID_IPID [of "req_of pool h a"] assms(3) by (fastforce simp: good_host_def)
      next
        case False
        then have "seen s (hpth (req_of pool h a)) = None" unfolding hp using Children_seen [OF xs] by blast
        then have "\<not> fst (ip_table pool (seen s) (h, a))" using cong [of False a] by simp
        then have "\<not> fst (ip_table pool (seen s') (h, a))" using inv by blast
        then show ?thesis using table_cong [OF conjunct1 [OF inv], of "(h, a)"] by (simp add: prod_eq_iff)
      qed
      then show ?thesis using inv by (intro conjI) auto
    next
      case False2: False
      then show ?thesis using assms(1,4) False dir by (auto simp: UnassignAll_def split: sum.splits bool.splits)
    qed
  qed
qed

end

subsection \<open>The maps of the synchronizer\<close>

lemma set_gset: "set (gset k v m) \<subseteq> insert (k, v) (set m)"
  by (induction m) (auto simp: gset_Cons split: if_splits)

lemma getVirtualIPMap_keys: "set (keys (getVirtualIPMap pool)) = vip_IP ` set (rp_VirtualIPs pool)"
proof -
  have "set (keys (fold (\<lambda>ip. gset (vip_IP ip) ip) ips m)) = vip_IP ` set ips \<union> set (keys m)"
    for ips :: "VirtualIP list" and m
    by (induction ips arbitrary: m) (simp_all only: fold_simps keys_gset, auto)
  from this [of "rp_VirtualIPs pool" "[]"] show ?thesis by (simp add: getVirtualIPMap_def)
qed

lemma getVirtualIPMap_entries:
  assumes "(k, ip) \<in> set (getVirtualIPMap pool)"
  shows "vip_IP ip = k \<and> ip \<in> set (rp_VirtualIPs pool)"
proof -
  have "set (fold (\<lambda>ip. gset (vip_IP ip) ip) ips m) \<subseteq> (\<lambda>ip. (vip_IP ip, ip)) ` set ips \<union> set m"
    for ips :: "VirtualIP list" and m
  proof (induction ips arbitrary: m)
    case (Cons ip ips)
    then show ?case using Cons.IH [of "gset (vip_IP ip) ip m"] set_gset [of "vip_IP ip" ip m] by auto
  qed simp
  from this [of "rp_VirtualIPs pool" "[]"] assms show ?thesis by (auto simp: getVirtualIPMap_def)
qed

lemma getAssignmentMap_keys:
  "getAssignmentMap xs m = Inr m' \<Longrightarrow>
     set (keys m') = set (keys m) \<union> {a. \<exists>x \<in> set xs. \<exists>h. ParseIPID x = Inr (h, a)}"
proof (induction xs arbitrary: m)
  case (Cons x xs)
  then obtain h a where x: "ParseIPID x = Inr (h, a)" "getAssignmentMap xs (gset a h m) = Inr m'"
    by (auto split: sum.splits)
  show ?case using Cons.IH [OF x(2)] x(1) unfolding keys_gset by auto
qed simp

text \<open>An order of going through a map goes through all its entries.\<close>

definition is_order :: "((string, VirtualIP) gomap \<Rightarrow> (string, VirtualIP) gomap) \<Rightarrow> bool" where
  "is_order perm \<longleftrightarrow> (\<forall>m. mset (perm m) = mset m)"

lemma is_order_set: "is_order perm \<Longrightarrow> set (perm m) = set m"
  unfolding is_order_def by (metis set_mset_mset)

context state_connection
begin

lemma Sync_converges:
  assumes "Sync c env perm pool m tm s = (es, tm', s')" "rp_ID pool \<noteq> ''''" "is_order perm"
    "\<forall>ip \<in> set (rp_VirtualIPs pool). vip_PoolID ip = rp_ID pool" "pool_inv (rp_ID pool) (seen s)"
    "set (keys m) = assigned (rp_ID pool) (seen s)"
  shows "pool_inv (rp_ID pool) (seen s') \<and>
     (es = [] \<longrightarrow> assigned (rp_ID pool) (seen s') = vip_IP ` set (rp_VirtualIPs pool))"
proof -
  let ?V = "perm (getVirtualIPMap pool)" and ?want = "vip_IP ` set (rp_VirtualIPs pool)"
  let ?new = "virtualIPsWithNoAssignment ?V m" and ?old = "assignmentsWithNoVirtualIP ?V m"
  have V: "set ?V = set (getVirtualIPMap pool)" using is_order_set [OF assms(3)] .
  have keys: "set (keys ?V) = ?want" using V getVirtualIPMap_keys [of pool] by simp
  have none: "map_of m k = None \<longleftrightarrow> k \<notin> assigned (rp_ID pool) (seen s)" for k
    using assms(6) map_of_eq_None_keys [of m k] by simp
  have none_V: "map_of ?V k = None \<longleftrightarrow> k \<notin> ?want" for k using keys map_of_eq_None_keys [of ?V k] by simp
  have new: "vip_IP ` set ?new = ?want - assigned (rp_ID pool) (seen s)"
  proof -
    have "(vip_IP \<circ> snd) ` set ?V = fst ` set ?V"
      by (rule image_cong [OF refl]) (use V getVirtualIPMap_entries [of _ _ pool] in auto)
    then have "vip_IP ` set (map snd ?V) = ?want" using keys by (simp add: image_comp)
    moreover have "vip_IP ` set (filter (\<lambda>ip. map_of m (vip_IP ip) = None) l) = vip_IP ` set l - assigned (rp_ID pool) (seen s)" for l :: "VirtualIP list"
      unfolding none by auto
    ultimately show ?thesis by (simp only: virtualIPsWithNoAssignment_def)
  qed
  have pools: "\<forall>ip \<in> set ?new. vip_PoolID ip = rp_ID pool"
    using V getVirtualIPMap_entries [of _ _ pool] assms(4) by (auto simp: virtualIPsWithNoAssignment_def)
  have old: "set ?old = assigned (rp_ID pool) (seen s) - ?want"
    using assms(6) none_V by (auto simp: assignmentsWithNoVirtualIP_def)
  obtain es1 tm1 s1 where a: "assign_list c env 0 ?new tm s = (es1, tm1, s1)" by (metis prod.collapse)
  obtain es2 where u: "unassign_ips c (rp_ID pool) ?old s1 = (es2, s')" "es = es1 @ es2"
    using assms(1) a by (auto simp: Sync_def Let_def split: prod.splits)
  note inv = assign_list_inv [OF a assms(2,5) pools]
  note inv2 = unassign_ips_inv [OF u(1) assms(2) conjunct1 [OF inv]]
  show ?thesis using inv inv2 new old u(2) by auto
qed

lemma ExistsW_seen: "ExistsW c p s = Inr b \<Longrightarrow> b \<longleftrightarrow> seen s p \<noteq> None"
  using Exists [of "c_basePath c @ p" s] by (simp add: ExistsW_def connected view_def)

lemma children_assigned:
  assumes "Coordinator.Children c (zk_ips pool) s = Inr xs" "getAssignmentMap xs [] = Inr m" "pool \<noteq> ''''" "pool_inv pool (seen s)"
  shows "set (keys m) = assigned pool (seen s)"
proof -
  have xs: "set xs = {x. seen s (zk_ips pool @ [x]) \<noteq> None}" using Children_seen [OF assms(1)] by simp
  have names: "names_ok pool (seen s)" using assms(4) by (simp add: pool_inv_def pool_ok_def)
  have "a \<in> assigned pool (seen s) \<longleftrightarrow> (\<exists>x \<in> set xs. \<exists>h. ParseIPID x = Inr (h, a))" for a
  proof
    assume "a \<in> assigned pool (seen s)"
    then obtain h where "good_host h" "IPID (req_of pool h a) \<in> set xs"
      using assms(3) xs by (auto simp: assigned_def fst_table)
    then show "\<exists>x \<in> set xs. \<exists>h. ParseIPID x = Inr (h, a)"
      using ParseIPID_IPID [of "req_of pool h a"] by (auto simp: good_host_def)
  next
    assume "\<exists>x \<in> set xs. \<exists>h. ParseIPID x = Inr (h, a)"
    then obtain x h where x: "ParseIPID x = Inr (h, a)" "seen s (zk_ips pool @ [x]) \<noteq> None" using xs by blast
    obtain h' a' where "ParseIPID x = Inr (h', a')" "good_host h'" "x = IPID (req_of pool h' a')"
      using names_ok_parse [OF names x(2)] .
    then have "fst (ip_table pool (seen s) (h, a))" using x assms(3) by (simp add: fst_table)
    then show "a \<in> assigned pool (seen s)" by (auto simp: assigned_def)
  qed
  then show ?thesis using getAssignmentMap_keys [OF assms(2)] by auto
qed

end

subsection \<open>What the components promise\<close>

text \<open>The actions on the assignments of a pool, in any order and with any outcome.\<close>

inductive ip_action :: "'s Conn \<Rightarrow> string \<Rightarrow> 's \<Rightarrow> 's \<Rightarrow> bool" for c pool where
  assign: "Assign c r pool a nm bi tm s = (e, tm', s') \<Longrightarrow> ip_action c pool s s'"
| unassign: "Unassign c pool a s = (e, s') \<Longrightarrow> ip_action c pool s s'"
| unassign_all: "good_host h \<Longrightarrow> UnassignAll c pool h s = (e, s') \<Longrightarrow> ip_action c pool s s'"
| update: "good_host h \<Longrightarrow> UpdateIP c (req_of pool h a) mutate s = (e, s') \<Longrightarrow> ip_action c pool s s'"



context state_connection
begin

lemma ip_action_inv: "ip_action c pool s s' \<Longrightarrow> pool \<noteq> '''' \<Longrightarrow> pool_inv pool (seen s) \<Longrightarrow> pool_inv pool (seen s')"
proof (induction rule: ip_action.induct)
  case (assign r a nm bi tm s e tm' s')
  then show ?case using Assign_inv [OF assign(1)] by simp
next
  case (unassign a s e s')
  then show ?case using Unassign_inv [OF unassign(1)] by simp
next
  case (unassign_all h s e s')
  then show ?case using UnassignAll_inv [OF unassign_all(2)] by simp
next
  case (update h a mutate s e s')
  then show ?case using UpdateIP_inv [OF update(2)] by simp
qed

lemma pool_turn_synced:
  assumes "pool_turn c env perm pool tm s = (PoolSynced es, tm', s')" "pool \<noteq> ''''" "is_order perm" "pool_inv pool (seen s)"
    "seen s [''pools'', pool] = Some (NodeData (PoolNodeNode p), v)" "rp_ID p = pool"
    "\<forall>ip \<in> set (rp_VirtualIPs p). vip_PoolID ip = pool"
  shows "pool_inv pool (seen s') \<and> (es = [] \<longrightarrow> assigned pool (seen s') = vip_IP ` set (rp_VirtualIPs p))"
proof -
  have path: "Join [''pools'', pool] = [''pools'', pool]" using assms(2) by simp
  obtain p' v' where get: "get_as as_ResourcePool c [''pools'', pool] s = Inr (p', v')"
    using assms(1) path by (auto simp: pool_turn_def Let_def split: sum.splits bool.splits if_splits)
  then have p': "p' = p" using get_as_seen [OF get] assms(5) by (auto simp: as_ResourcePool_def)
  have "ExistsW c (zk_ips pool) s = Inr False \<or> ExistsW c (zk_ips pool) s = Inr True"
    using assms(1) get path by (auto simp: pool_turn_def Let_def split: sum.splits bool.splits if_splits)
  then have "\<exists>m. set (keys m) = assigned pool (seen s) \<and> Sync c env perm p m tm s = (es, tm', s')"
  proof
    assume none: "ExistsW c (zk_ips pool) s = Inr False"
    then have "seen s (zk_ips pool @ [x]) = None" for x
      using ExistsW_seen [OF none] assms(4) unfolding pool_inv_def closed_def by blast
    then have "assigned pool (seen s) = {}" using assms(2) by (simp add: assigned_def fst_table)
    then show ?thesis
      using assms(1) get path none p' by (auto simp: pool_turn_def Let_def split: sum.splits bool.splits prod.splits)
  next
    assume "ExistsW c (zk_ips pool) s = Inr True"
    then obtain xs m where m: "Coordinator.Children c (zk_ips pool) s = Inr xs" "getAssignmentMap xs [] = Inr m"
        "Sync c env perm p m tm s = (es, tm', s')"
      using assms(1) get path p' by (auto simp: pool_turn_def Let_def split: sum.splits bool.splits prod.splits)
    then show ?thesis using children_assigned [OF m(1,2) assms(2,4)] by blast
  qed
  then show ?thesis
    using Sync_converges [of env perm p _ tm s es tm' s'] assms(2,3,4,6,7) by blast
qed

lemma Assign_waits:
  assumes "Assign c r pool a nm bi tm s = (e, tm1, s1)" "pool \<noteq> ''''" "pool_inv pool (seen s)"
    and "fst (ip_table pool (seen s1) (h, a))" "\<not> fst (ip_table pool (seen s) (h, a))"
    and "Assign c r' pool a nm' bi' tm1 s2 = (e', tm2, s3)" "pool_inv pool (seen s2)"
    and "now_filter r' < now_add r + Timeout"
    and "fst (ip_table pool (seen s3) (h, a))"
  shows "fst (ip_table pool (seen s2) (h, a))"
proof -
  have ok: "hosts_ok pool (seen s)" "closed (seen s)" "hosts_ok pool (seen s2)" "closed (seen s2)"
    using assms(3,7) by (simp_all add: pool_inv_def pool_ok_def)
  obtain hst where first: "tm1 = addExcludeHost (now_add r) a hst tm" "ip_step pool (hd_ID hst, a) True (seen s) (seen s1)"
    using Assign_effect [OF assms(1,2) ok(1,2)] assms(4,5) by (auto simp: same_ips_def)
  have h: "h = hd_ID hst" using first(2) assms(4,5) by (auto simp: ip_step_def split: if_splits)
  have excluded: "h \<in> set (getExcludedHostIDs (now_filter r') a tm1)"
    unfolding first(1) h by (rule addExcludeHost_excludes [OF assms(8)])
  from Assign_effect [OF assms(6,2) ok(3,4)] show ?thesis
    using excluded assms(9) by (auto simp: ip_step_def same_ips_def split: if_splits)
qed

end

text \<open>
  C10. However virtual addresses are assigned, unassigned, released with their host and updated,
  with or without errors of the coordinator, the node of an assignment below the pool and the
  one below the host exist together, and no address is ever assigned to two hosts.
\<close>

theorem address_has_one_host:
  assumes "connection z tree c" "pool \<noteq> ''''" "pool_inv pool (view (c_basePath c) (tree s))"
    and "(ip_action c pool)\<^sup>*\<^sup>* s s'"
  shows "pool_inv pool (view (c_basePath c) (tree s')) \<and>
    (\<forall>h h' a. fst (ip_table pool (view (c_basePath c) (tree s')) (h, a)) \<longrightarrow>
       fst (ip_table pool (view (c_basePath c) (tree s')) (h', a)) \<longrightarrow> h = h')"
proof -
  have "pool_inv pool (view (c_basePath c) (tree s'))"
    using assms(4,3)
    by (induction rule: rtranclp_induct)
      (auto intro: state_connection.ip_action_inv [OF state_connection.intro [OF assms(1)] _ assms(2)])
  then show ?thesis unfolding pool_inv_def pool_ok_def table_ok_def by blast
qed


text \<open>
  An address that was assigned to a host is not assigned to that host again before the
  timeout has passed since, whatever happened in the coordinator in between.
\<close>

theorem Assign_avoids_last_host:
  assumes "connection z tree c" "pool \<noteq> ''''" "pool_inv pool (view (c_basePath c) (tree s))"
    and "Assign c r pool a nm bi tm s = (e, tm1, s1)"
    and "fst (ip_table pool (view (c_basePath c) (tree s1)) (h, a))" "\<not> fst (ip_table pool (view (c_basePath c) (tree s)) (h, a))"
    and "pool_inv pool (view (c_basePath c) (tree s2))" "\<not> fst (ip_table pool (view (c_basePath c) (tree s2)) (h, a))"
    and "Assign c r' pool a nm' bi' tm1 s2 = (e', tm2, s3)" "now_filter r' < now_add r + Timeout"
  shows "\<not> fst (ip_table pool (view (c_basePath c) (tree s3)) (h, a))"
  using state_connection.Assign_waits [OF state_connection.intro [OF assms(1)] assms(4,2,3,5,6,9,7,10)] assms(8) by blast

text \<open>
  Releasing the addresses of a host, when it reports no error, leaves no address assigned
  to the host and every other assignment as it was.
\<close>

theorem UnassignAll_releases:
  assumes "connection z tree c" "pool \<noteq> ''''" "good_host h" "pool_inv pool (view (c_basePath c) (tree s))"
    and "UnassignAll c pool h s = (None, s')"
  shows "\<forall>k. ip_table pool (view (c_basePath c) (tree s')) k =
    (if fst k = h then (False, False) else ip_table pool (view (c_basePath c) (tree s)) k)"
  using state_connection.UnassignAll_inv [OF state_connection.intro [OF assms(1)] assms(5,2,3,4)]
  by (auto split: if_splits)

subsection \<open>A pool with two hosts\<close>

definition pool_ip :: "string \<Rightarrow> VirtualIP" where
  "pool_ip a = \<lparr>vip_PoolID = ''p1'', vip_IP = a, vip_Netmask = ''24'', vip_BindInterface = ''eth0''\<rparr>"

definition pool_p1 :: ResourcePool where
  "pool_p1 = zero_ResourcePool\<lparr>rp_ID := ''p1'', rp_VirtualIPs := [pool_ip ''10'']\<rparr>"

definition pool_zk :: "Node mem" where
  "pool_zk = [([], EmptyData, 0), ([''pools''], DirData, 0), ([''pools'', ''p1''], NodeData (PoolNodeNode pool_p1), 0),
     ([''pools'', ''p1'', ''hosts''], DirData, 0),
     ([''pools'', ''p1'', ''hosts'', ''h1''], NodeData (HostNodeNode (zero_HostData\<lparr>hd_ID := ''h1''\<rparr>)), 0),
     ([''pools'', ''p1'', ''hosts'', ''h1'', ''online''], DirData, 0),
     ([''pools'', ''p1'', ''hosts'', ''h1'', ''online'', ''e1''], DirData, 0),
     ([''pools'', ''p1'', ''hosts'', ''h2''], NodeData (HostNodeNode (zero_HostData\<lparr>hd_ID := ''h2''\<rparr>)), 0),
     ([''pools'', ''p1'', ''hosts'', ''h2'', ''online''], DirData, 0),
     ([''pools'', ''p1'', ''hosts'', ''h2'', ''online'', ''e2''], DirData, 0)]"

definition pool_reading :: reading where
  "pool_reading = \<lparr>now_filter = 0, rand_Intn = 0, now_add = 0\<rparr>"

lemma pool_zk_inv: "pool_inv ''p1'' (map_of pool_zk)"
proof -
  have "ip_table ''p1'' (map_of pool_zk) k = (False, False)" for k
    by (cases k) (auto simp: ip_table_def pool_zk_def ppth_def hpth_def ip_paths good_host_def)
  moreover have "names_ok ''p1'' (map_of pool_zk)" by (simp add: names_ok_def pool_zk_def ip_paths)
  moreover have "hosts_ok ''p1'' (map_of pool_zk)"
    by (auto simp: hosts_ok_def pool_zk_def as_HostData_def zero_HostData_def good_host_def plain_def split: if_splits)
  moreover have "closed (map_of pool_zk)" by (auto simp: closed_def pool_zk_def Cons_eq_append_conv)
  ultimately show ?thesis by (simp add: pool_inv_def pool_ok_def table_ok_def)
qed

lemma pool_turn_run:
  "fst (pool_turn sample_conn (\<lambda>_. pool_reading) (\<lambda>m. m) ''p1'' [] pool_zk) = PoolSynced []"
  by code_simp


theorem address_has_one_host_witness:
  "pool_inv ''p1'' (map_of (snd (snd (Assign sample_conn pool_reading ''p1'' ''10'' ''24'' ''eth0'' [] pool_zk))))"
proof -
  let ?r = "Assign sample_conn pool_reading ''p1'' ''10'' ''24'' ''eth0'' [] pool_zk"
  have "ip_action sample_conn ''p1'' pool_zk (snd (snd ?r))"
    by (rule ip_action.assign [of _ pool_reading _ "''10''" "''24''" "''eth0''" "[]" _ "fst ?r" "fst (snd ?r)"]) simp
  then have "(ip_action sample_conn ''p1'')\<^sup>*\<^sup>* pool_zk (snd (snd ?r))" by (rule r_into_rtranclp)
  from address_has_one_host [OF sample_connection _ _ this] show ?thesis
    using pool_zk_inv by (simp add: sample_base)
qed

abbreviation pool_assigned :: "ip_error option \<times> timeouts \<times> Node mem" where
  "pool_assigned \<equiv> Assign sample_conn pool_reading ''p1'' ''10'' ''24'' ''eth0'' [] pool_zk"

lemma pool_assigned_run:
  "fst (ip_table ''p1'' (map_of (snd (snd pool_assigned))) (''h1'', ''10''))"
  "\<not> fst (ip_table ''p1'' (map_of pool_zk) (''h1'', ''10''))"
  "fst (UnassignAll sample_conn ''p1'' ''h1'' (snd (snd pool_assigned))) = None"
  by code_simp+

lemma pool_assigned_inv: "pool_inv ''p1'' (map_of (snd (snd pool_assigned)))"
  using sample.Assign_inv [of pool_reading "''p1''" "''10''" "''24''" "''eth0''" "[]" pool_zk "fst pool_assigned"
      "fst (snd pool_assigned)" "snd (snd pool_assigned)"] pool_zk_inv
  by (simp add: sample_base)

theorem Assign_avoids_last_host_witness:
  "\<not> fst (ip_table ''p1'' (map_of (snd (snd (Assign sample_conn (pool_reading\<lparr>now_filter := 5\<rparr>) ''p1'' ''10'' ''24'' ''eth0''
     (fst (snd pool_assigned)) pool_zk)))) (''h1'', ''10''))"
proof -
  let ?r = "Assign sample_conn (pool_reading\<lparr>now_filter := 5\<rparr>) ''p1'' ''10'' ''24'' ''eth0'' (fst (snd pool_assigned)) pool_zk"
  have runs: "pool_assigned = (fst pool_assigned, fst (snd pool_assigned), snd (snd pool_assigned))"
    "?r = (fst ?r, fst (snd ?r), snd (snd ?r))" by simp_all
  have late: "now_filter (pool_reading\<lparr>now_filter := 5\<rparr>) < now_add pool_reading + Timeout"
    by (simp add: pool_reading_def Timeout_def)
  have base: "view (c_basePath sample_conn) t = t" for t :: nodes by (simp add: sample_base)
  show ?thesis
    using Assign_avoids_last_host [OF sample_connection, unfolded base, OF _ pool_zk_inv runs(1) pool_assigned_run(1,2) pool_zk_inv
        pool_assigned_run(2) runs(2) late] by simp
qed

theorem UnassignAll_releases_witness:
  "ip_table ''p1'' (map_of (snd (UnassignAll sample_conn ''p1'' ''h1'' (snd (snd pool_assigned))))) (''h1'', ''10'') = (False, False)"
proof -
  let ?r = "UnassignAll sample_conn ''p1'' ''h1'' (snd (snd pool_assigned))"
  have run: "?r = (None, snd ?r)" using pool_assigned_run(3) by (metis prod.collapse)
  have "good_host ''h1''" by (simp add: good_host_def plain_def)
  then show ?thesis
    using UnassignAll_releases [OF sample_connection _ _ _ run] pool_assigned_inv by (simp add: sample_base)
qed

end
