(* ===== verification/Host_IPs.thy ===== *)
theory Host_IPs
  imports Virtual_IPs
begin

section \<open>Virtual addresses on a host\<close>

text \<open>
  \<^verbatim>\<open>zzk/service/hostiplistener.go\<close> and \<^verbatim>\<open>node/virtualip.go\<close>: the delegate binds the addresses that
  the coordinator assigns to its host. The agent's \<^verbatim>\<open>BindIP\<close> and \<^verbatim>\<open>ReleaseIP\<close> work on the
  addresses that carry its label, which it lists, adds and removes with the command \<^verbatim>\<open>ip\<close>; the
  command and the parsing of its output are a record of operations with the laws of the
  locale \<open>ip_tool\<close>. The listener sees the agent through the interface \<^verbatim>\<open>HostIPHandler\<close>, locale
  \<open>ip_handler\<close>; \<open>ip_tool\<close> gives \<open>ip_handler\<close> for the agent as a sublocale.
\<close>

subsection \<open>The agent\<close>

record NodeIP =
  nip_Addr :: string
  nip_Device :: string
  nip_Label :: string

definition Matches :: "string \<Rightarrow> string \<Rightarrow> NodeIP \<Rightarrow> bool" where
  "Matches ipaddr device ip = (nip_Addr ip = ipaddr \<and> nip_Device ip = device)"

record 'h IPTool =
  it_show :: "'h \<Rightarrow> NodeIP list"
  it_to :: "string \<Rightarrow> 'h \<Rightarrow> NodeIP option"
  it_add :: "string \<Rightarrow> string \<Rightarrow> string \<Rightarrow> 'h \<Rightarrow> string option \<times> 'h"
  it_del :: "string \<Rightarrow> string \<Rightarrow> 'h \<Rightarrow> string option \<times> 'h"
  it_iface :: "string \<Rightarrow> 'h \<Rightarrow> string option"

definition TrimPrefix :: "string \<Rightarrow> string \<Rightarrow> string" where
  "TrimPrefix s p = (if prefix p s then drop (length p) s else s)"

definition label_ids :: "string \<Rightarrow> NodeIP list \<Rightarrow> int list" where
  "label_ids label ips =
     List.map_filter (\<lambda>ip. Atoi (TrimPrefix (nip_Label ip) (nip_Device ip @ '':'' @ label))) ips"

fun next_index :: "int \<Rightarrow> int list \<Rightarrow> int \<Rightarrow> int" where
  "next_index i [] nextIndex = nextIndex"
| "next_index i (x # ids) nextIndex = (if i = x then next_index (i + 1) ids (nextIndex + 1) else nextIndex)"

definition nextLabel :: "string \<Rightarrow> string \<Rightarrow> NodeIP list \<Rightarrow> string" where
  "nextLabel label device ips = device @ '':'' @ label @ show_int (next_index 0 (sort (label_ids label ips)) 0)"

definition Bind :: "string \<Rightarrow> 'h IPTool \<Rightarrow> string \<Rightarrow> string \<Rightarrow> 'h \<Rightarrow> string option \<times> 'h" where
  "Bind label tool ipaddr device h = it_add tool ipaddr device (nextLabel label device (it_show tool h)) h"

text \<open>
  The length of a network mask: \<^verbatim>\<open>net.ParseIP\<close> of a dotted address (anything else goes to the
  parser for IPv6, a parameter), and the leading ones of its four bytes when only zeros follow.
\<close>

definition parse_byte :: "string \<Rightarrow> nat option" where
  "parse_byte s = (case parse_digits s of None \<Rightarrow> None | Some n \<Rightarrow> if n \<le> 255 then Some n else None)"

definition ParseIP4 :: "(string \<Rightarrow> nat list option) \<Rightarrow> string \<Rightarrow> nat list option" where
  "ParseIP4 v6 s =
     (case SplitN s (CHR ''.'') 5 of
        [a, b, c, d] \<Rightarrow>
          (case those (map parse_byte [a, b, c, d]) of Some bs \<Rightarrow> Some bs | None \<Rightarrow> v6 s)
      | _ \<Rightarrow> v6 s)"

primrec lead :: "nat \<Rightarrow> nat \<Rightarrow> nat \<Rightarrow> nat \<times> nat" where
  "lead 0 n v = (n, v)"
| "lead (Suc k) n v = (if 128 \<le> v then lead k (n + 1) (2 * v mod 256) else (n, v))"

fun simpleMaskLength :: "nat list \<Rightarrow> nat \<Rightarrow> nat option" where
  "simpleMaskLength [] n = Some n"
| "simpleMaskLength (v # bs) n =
     (if v = 255 then simpleMaskLength bs (n + 8)
      else (case lead 8 n v of (n, v) \<Rightarrow> if v = 0 \<and> list_all (\<lambda>b. b = 0) bs then Some n else None))"

definition cidr :: "(string \<Rightarrow> nat list option) \<Rightarrow> string \<Rightarrow> nat" where
  "cidr v6 netmask =
     (case ParseIP4 v6 netmask of
        None \<Rightarrow> 0
      | Some bs \<Rightarrow> (case simpleMaskLength bs 0 of None \<Rightarrow> 0 | Some n \<Rightarrow> n))"

record 'h HostAgent =
  ag_label :: string
  ag_tool :: "'h IPTool"
  ag_v6 :: "string \<Rightarrow> nat list option"

definition bind_new :: "'h HostAgent \<Rightarrow> string \<Rightarrow> string \<Rightarrow> 'h \<Rightarrow> string option \<times> 'h" where
  "bind_new a ip iface h =
     (case it_iface (ag_tool a) iface h of
        Some e \<Rightarrow> (Some e, h)
      | None \<Rightarrow> Bind (ag_label a) (ag_tool a) ip iface h)"

definition BindIP :: "'h HostAgent \<Rightarrow> string \<Rightarrow> string \<Rightarrow> string \<Rightarrow> 'h \<Rightarrow> string option \<times> 'h" where
  "BindIP a ipprefix netmask iface h =
     (let ip = ipprefix @ ''/'' @ show_nat (cidr (ag_v6 a) netmask) in
      case it_to (ag_tool a) ipprefix h of
        Some vip \<Rightarrow>
          if \<not> Matches ip iface vip then
            (case it_del (ag_tool a) (nip_Addr vip) (nip_Device vip) h of
               (Some e, h) \<Rightarrow> (Some e, h)
             | (None, h) \<Rightarrow> bind_new a ip iface h)
          else (None, h)
      | None \<Rightarrow> bind_new a ip iface h)"

definition ReleaseIP :: "'h HostAgent \<Rightarrow> string \<Rightarrow> 'h \<Rightarrow> string option \<times> 'h" where
  "ReleaseIP a ipprefix h =
     (case it_to (ag_tool a) ipprefix h of
        Some vip \<Rightarrow> it_del (ag_tool a) (nip_Addr vip) (nip_Device vip) h
      | None \<Rightarrow> (None, h))"

subsection \<open>The listener\<close>

record 'h HostIPHandler =
  hh_BindIP :: "string \<Rightarrow> string \<Rightarrow> string \<Rightarrow> 'h \<Rightarrow> string option \<times> 'h"
  hh_ReleaseIP :: "string \<Rightarrow> 'h \<Rightarrow> string option \<times> 'h"

record ('h, 's) HostIPListener =
  ipl_hostid :: string
  ipl_handler :: "'h HostIPHandler"
  ipl_conn :: "'s Conn"

text \<open>What the listener works on: its passive threads, the network of the host, the coordinator.\<close>

record ('h, 's) Site =
  ip_passive :: "string list"
  ip_net :: 'h
  ip_zk :: 's

definition ip_request :: "('h, 's) HostIPListener \<Rightarrow> string \<Rightarrow> IPRequest" where
  "ip_request l ipaddr = \<lparr>ip_PoolID = '''', ip_HostID = ipl_hostid l, ip_IPAddress = ipaddr\<rparr>"

definition NewHostIPListener :: "string \<Rightarrow> string list \<Rightarrow> string list" where
  "NewHostIPListener hostid binds =
     remdups (map (\<lambda>ip. IPID \<lparr>ip_PoolID = '''', ip_HostID = hostid, ip_IPAddress = ip\<rparr>) binds)"

definition ipl_Path :: "('h, 's) HostIPListener \<Rightarrow> zpath" where
  "ipl_Path l = Join [''hosts'', ipl_hostid l, ''ips'']"

definition ip_release :: "('h, 's) HostIPListener \<Rightarrow> IPRequest \<Rightarrow> ('h, 's) Site \<Rightarrow> ('h, 's) Site" where
  "ip_release l req w =
     w\<lparr>ip_net := snd (hh_ReleaseIP (ipl_handler l) (ip_IPAddress req) (ip_net w)),
       ip_zk := snd (DeleteIP (ipl_conn l) req (ip_zk w))\<rparr>"

definition saveThread :: "string \<Rightarrow> ('h, 's) Site \<Rightarrow> ('h, 's) Site" where
  "saveThread i w = w\<lparr>ip_passive := List.insert i (ip_passive w)\<rparr>"

definition loadThread :: "('h, 's) HostIPListener \<Rightarrow> IPRequest \<Rightarrow> ('h, 's) Site \<Rightarrow> bool \<times> ('h, 's) Site" where
  "loadThread l req w =
     (let ipok = ip_IPAddress req \<in> set (ip_passive w) in
      case Coordinator.Exists (ipl_conn l) (Join [''ips'', IPID req]) (ip_zk w) of
        Inl _ \<Rightarrow> (False, w)
      | Inr ok \<Rightarrow>
          (let w1 = (if ipok then w\<lparr>ip_passive := removeAll (ip_IPAddress req) (ip_passive w)\<rparr> else w)
           in (ok, if ok then w1 else ip_release l req w1)))"

definition post_release :: "('h, 's) HostIPListener \<Rightarrow> string \<Rightarrow> ('h, 's) Site \<Rightarrow> ('h, 's) Site" where
  "post_release l i w =
     ip_release l (ip_request l (case ParseIPID i of Inl _ \<Rightarrow> '''' | Inr (_, ipaddr) \<Rightarrow> ipaddr))
       (w\<lparr>ip_passive := removeAll i (ip_passive w)\<rparr>)"

definition Post :: "('h, 's) HostIPListener \<Rightarrow> string list \<Rightarrow> ('h, 's) Site \<Rightarrow> ('h, 's) Site" where
  "Post l p w = fold (\<lambda>i w. if i \<in> set p then w else post_release l i w) (ip_passive w) w"

definition ip_Exited :: "('h, 's) HostIPListener \<Rightarrow> ('h, 's) Site \<Rightarrow> ('h, 's) Site" where
  "ip_Exited l w = Post l [] w"

text \<open>\<^verbatim>\<open>Spawn\<close> up to its loop, one turn of the loop, and its event; \<^term>\<open>True\<close> says that it goes on.\<close>

definition ip_begin :: "('h, 's) HostIPListener \<Rightarrow> string \<Rightarrow> ('h, 's) Site \<Rightarrow> bool \<times> ('h, 's) Site" where
  "ip_begin l ipid w =
     (case ParseIPID ipid of
        Inl _ \<Rightarrow> (False, w\<lparr>ip_zk := snd (Coordinator.Delete (ipl_conn l) (ipl_Path l @ [ipid]) (ip_zk w))\<rparr>)
      | Inr (_, ipaddr) \<Rightarrow> loadThread l (ip_request l ipaddr) w)"

definition set_ok :: "IP \<Rightarrow> bool \<times> IP" where
  "set_ok ip = (if \<not> full_OK ip then (True, ip\<lparr>full_OK := True\<rparr>) else (False, ip))"

definition ip_turn :: "('h, 's) HostIPListener \<Rightarrow> string \<Rightarrow> string \<Rightarrow> ('h, 's) Site \<Rightarrow> bool \<times> ('h, 's) Site" where
  "ip_turn l ipid ipaddr w =
     (let req = ip_request l ipaddr in
      case get_as as_HostIP (ipl_conn l) (ipl_Path l @ [ipid]) (ip_zk w) of
        Inl e \<Rightarrow> (False, if e = ErrNoNode then ip_release l req w else saveThread ipid w)
      | Inr (hdat, _) \<Rightarrow>
          (case ExistsW (ipl_conn l) (Join [''ips'', ipid]) (ip_zk w) of
             Inl _ \<Rightarrow> (False, saveThread ipid w)
           | Inr False \<Rightarrow> (False, ip_release l req w)
           | Inr True \<Rightarrow>
               (case hh_BindIP (ipl_handler l) ipaddr (hip_Netmask hdat) (hip_BindInterface hdat) (ip_net w) of
                  (Some _, h) \<Rightarrow> (False, ip_release l req (w\<lparr>ip_net := h\<rparr>))
                | (None, h) \<Rightarrow>
                    (case UpdateIP (ipl_conn l) req set_ok (ip_zk w) of
                       (Some _, s) \<Rightarrow> (False, saveThread ipid (w\<lparr>ip_net := h, ip_zk := s\<rparr>))
                     | (None, s) \<Rightarrow> (True, w\<lparr>ip_net := h, ip_zk := s\<rparr>)))))"

definition ip_cancelled :: "string \<Rightarrow> ('h, 's) Site \<Rightarrow> ('h, 's) Site" where
  "ip_cancelled ipid w = saveThread ipid w"

subsection \<open>Labels\<close>

text \<open>The part of a bound address before its last slash.\<close>

definition addr_prefix :: "string \<Rightarrow> string" where
  "addr_prefix s = rev (tl (dropWhile (\<lambda>x. x \<noteq> CHR ''/'') (rev s)))"

lemma addr_prefix_cidr [simp]: "addr_prefix (a @ CHR ''/'' # show_nat n) = a"
proof -
  have digits: "x \<noteq> CHR ''/''" if "x \<in> set (show_nat n)" for x
    using show_nat_digits [of n] that by (auto simp: list_all_iff is_digit_def)
  have "dropWhile (\<lambda>x. x \<noteq> CHR ''/'') (rev (show_nat n) @ CHR ''/'' # rev a) = CHR ''/'' # rev a"
    using digits by (subst dropWhile_append2) auto
  then show ?thesis by (simp add: addr_prefix_def)
qed

text \<open>On distinct numbers in order, the count stops at the first one that is missing.\<close>

lemma next_index_gap:
  "sorted ids \<Longrightarrow> distinct ids \<Longrightarrow> \<forall>x \<in> set ids. i \<le> x \<Longrightarrow>
     (let r = next_index i ids n in n \<le> r \<and> r \<le> n + int (length ids) \<and> (i + (r - n)) \<notin> set ids \<and> {i ..< i + (r - n)} \<subseteq> set ids)"
proof (induction i ids n rule: next_index.induct)
  case (2 i x ids n)
  show ?case
  proof (cases "i = x")
    case True
    have "\<forall>y \<in> set ids. i + 1 \<le> y" using 2(2-4) True by (auto simp: order_le_less)
    then have IH: "let r = next_index (i + 1) ids (n + 1) in n + 1 \<le> r \<and> r \<le> n + 1 + int (length ids) \<and>
        i + 1 + (r - (n + 1)) \<notin> set ids \<and> {i + 1 ..< i + 1 + (r - (n + 1))} \<subseteq> set ids"
      using 2(1) [OF True] 2(2,3) by simp
    let ?r = "next_index (i + 1) ids (n + 1)"
    have "{i ..< i + (?r - n)} \<subseteq> insert i {i + 1 ..< i + 1 + (?r - (n + 1))}" by auto
    then show ?thesis using IH True by (auto simp: Let_def)
  qed (use 2(2,4) in \<open>auto simp: Let_def\<close>)
qed (simp add: Let_def)

definition has_index :: "string \<Rightarrow> NodeIP \<Rightarrow> int \<Rightarrow> bool" where
  "has_index label ip n \<longleftrightarrow> 0 \<le> n \<and> n < 2 ^ 63 \<and> nip_Label ip = nip_Device ip @ '':'' @ label @ show_int n"

lemma has_index_Atoi: "has_index label ip n \<Longrightarrow> Atoi (TrimPrefix (nip_Label ip) (nip_Device ip @ '':'' @ label)) = Some n"
  using Atoi_show_int [of n] by (simp add: has_index_def TrimPrefix_def in_int64_def)

lemma has_index_unique: "has_index label ip n \<Longrightarrow> has_index label ip n' \<Longrightarrow> n = n'"
  using has_index_Atoi by (metis option.inject)

text \<open>Every address carries the label with a number of its own.\<close>

definition labelled :: "string \<Rightarrow> NodeIP set \<Rightarrow> bool" where
  "labelled label A \<longleftrightarrow> (\<forall>ip \<in> A. \<exists>n. has_index label ip n) \<and>
     (\<forall>ip \<in> A. \<forall>ip' \<in> A. \<forall>n. has_index label ip n \<and> has_index label ip' n \<longrightarrow> ip = ip')"

lemma label_ids_labelled:
  "labelled label (set ips) \<Longrightarrow> set (label_ids label ips) = {n. \<exists>ip \<in> set ips. has_index label ip n}"
proof (induction ips)
  case (Cons ip ips)
  have "labelled label (set ips)" using Cons.prems by (auto simp: labelled_def)
  note IH = Cons.IH [OF this]
  obtain n where n: "has_index label ip n" using Cons.prems by (auto simp: labelled_def)
  then have "label_ids label (ip # ips) = n # label_ids label ips"
    using has_index_Atoi [OF n] by (simp add: label_ids_def map_filter_simps)
  moreover have "{m. has_index label ip m} = {n}" using n has_index_unique by blast
  ultimately show ?case using IH by (simp add: Collect_disj_eq)
qed (simp add: label_ids_def map_filter_simps)

lemma distinct_label_ids:
  "labelled label (set ips) \<Longrightarrow> distinct ips \<Longrightarrow> distinct (label_ids label ips)"
proof (induction ips)
  case (Cons ip ips)
  have ok: "labelled label (set ips)" using Cons.prems(1) by (auto simp: labelled_def)
  obtain n where n: "has_index label ip n" using Cons.prems by (auto simp: labelled_def)
  have "n \<notin> set (label_ids label ips)"
    using label_ids_labelled [OF ok] n Cons.prems by (auto simp: labelled_def)
  moreover have "label_ids label (ip # ips) = n # label_ids label ips"
    using has_index_Atoi [OF n] by (simp add: label_ids_def map_filter_simps)
  ultimately show ?case using Cons.IH [OF ok] Cons.prems(2) by simp
qed (simp add: label_ids_def map_filter_simps)

lemma length_label_ids: "length (label_ids label ips) \<le> length ips"
  by (induction ips) (auto simp: label_ids_def map_filter_simps split: option.splits)

lemma nextLabel_fresh:
  assumes "labelled label (set ips)" "distinct ips" "int (length ips) < 2 ^ 63"
  shows "labelled label (insert \<lparr>nip_Addr = a, nip_Device = d, nip_Label = nextLabel label d ips\<rparr> (set ips))"
proof -
  let ?ids = "sort (label_ids label ips)"
  let ?n = "next_index 0 ?ids 0"
  let ?new = "\<lparr>nip_Addr = a, nip_Device = d, nip_Label = nextLabel label d ips\<rparr>"
  have "\<forall>x \<in> set ?ids. 0 \<le> x" using label_ids_labelled [OF assms(1)] by (auto simp: has_index_def)
  then have gap: "0 \<le> ?n" "?n \<le> int (length ips)" "?n \<notin> set (label_ids label ips)"
    using next_index_gap [of ?ids 0 0] distinct_label_ids [OF assms(1,2)] length_label_ids [of label ips] by (auto simp: Let_def)
  have new: "has_index label ?new ?n" using gap assms(3) by (simp add: has_index_def nextLabel_def)
  have "\<not> has_index label ip ?n" if "ip \<in> set ips" for ip using gap(3) label_ids_labelled [OF assms(1)] that by blast
  moreover have "m = ?n" if "has_index label ?new m" for m using that new has_index_unique by blast
  ultimately show ?thesis using assms(1) new unfolding labelled_def by blast
qed

subsection \<open>What the agent needs and what it promises\<close>

text \<open>
  The command lists the addresses with the label, finds those of a prefix, adds and removes
  one. A command that fails changes nothing. No prefix has two addresses.
\<close>

abbreviation prefix_of :: "NodeIP \<Rightarrow> string" where
  "prefix_of ip \<equiv> addr_prefix (nip_Addr ip)"

definition one_each :: "NodeIP set \<Rightarrow> bool" where
  "one_each A \<longleftrightarrow> (\<forall>ip \<in> A. \<forall>ip' \<in> A. prefix_of ip = prefix_of ip' \<longrightarrow> ip = ip')"

locale ip_tool =
  fixes tool :: "'h IPTool" and addrs :: "'h \<Rightarrow> NodeIP set"
  assumes show_all: "set (it_show tool h) = addrs h" "distinct (it_show tool h)"
    and to_some: "it_to tool p h = Some ip \<Longrightarrow> ip \<in> addrs h \<and> prefix_of ip = p"
    and to_none: "it_to tool p h = None \<Longrightarrow> ip \<in> addrs h \<Longrightarrow> prefix_of ip \<noteq> p"
    and add: "it_add tool a d lab h = (e, h') \<Longrightarrow>
      addrs h' = (if e = None then insert \<lparr>nip_Addr = a, nip_Device = d, nip_Label = lab\<rparr> (addrs h) else addrs h)"
    and del: "it_del tool a d h = (e, h') \<Longrightarrow>
      addrs h' = (if e = None then {ip \<in> addrs h. \<not> Matches a d ip} else addrs h)"
begin

definition others :: "string \<Rightarrow> 'h \<Rightarrow> NodeIP set" where
  "others p h = {ip \<in> addrs h. prefix_of ip \<noteq> p}"

lemma release_found:
  assumes "it_to tool p h = Some vip" "it_del tool (nip_Addr vip) (nip_Device vip) h = (e, h')" "one_each (addrs h)"
  shows "addrs h' = (if e = None then others p h else addrs h)"
proof -
  have vip: "vip \<in> addrs h" "prefix_of vip = p" using to_some [OF assms(1)] by auto
  have "ip = vip \<longleftrightarrow> Matches (nip_Addr vip) (nip_Device vip) ip" "ip = vip \<longleftrightarrow> prefix_of ip = p" if "ip \<in> addrs h" for ip
    using assms(3) vip that unfolding one_each_def Matches_def by metis+
  then show ?thesis using del [OF assms(2)] by (auto simp: others_def)
qed

lemma none_found: "it_to tool p h = None \<Longrightarrow> others p h = addrs h"
  using to_none by (auto simp: others_def)

lemma bind_new_adds:
  assumes "ag_tool a = tool" "bind_new a ip iface h = (e, h')"
  shows "addrs h' = (if e = None then insert \<lparr>nip_Addr = ip, nip_Device = iface, nip_Label = nextLabel (ag_label a) iface (it_show tool h)\<rparr> (addrs h)
    else addrs h)"
  using assms add by (auto simp: bind_new_def Bind_def split: option.splits)

abbreviation bound_ip :: "'h HostAgent \<Rightarrow> string \<Rightarrow> string \<Rightarrow> string" where
  "bound_ip a p netmask \<equiv> p @ ''/'' @ show_nat (cidr (ag_v6 a) netmask)"

lemma BindIP_cases:
  assumes "ag_tool a = tool" "BindIP a p netmask iface h = (e, h')" "one_each (addrs h)"
  obtains (error) "e \<noteq> None" "addrs h' = addrs h \<or> addrs h' = others p h"
    | (kept) vip where "e = None" "h' = h" "vip \<in> addrs h" "Matches (bound_ip a p netmask) iface vip"
    | (new) h1 where "e = None" "addrs h1 = others p h"
        "addrs h' = insert \<lparr>nip_Addr = bound_ip a p netmask, nip_Device = iface, nip_Label = nextLabel (ag_label a) iface (it_show tool h1)\<rparr> (others p h)"
proof (cases "it_to tool p h")
  case None
  then have "bind_new a (bound_ip a p netmask) iface h = (e, h')" using assms(1,2) by (simp add: BindIP_def Let_def)
  note b = bind_new_adds [OF assms(1) this] and n = none_found [OF None]
  show ?thesis
  proof (cases e)
    case None
    then show ?thesis using new [of h] b n by simp
  next
    case (Some x)
    then show ?thesis using error b by simp
  qed
next
  case (Some vip)
  note vip = to_some [OF Some]
  show ?thesis
  proof (cases "Matches (bound_ip a p netmask) iface vip")
    case True
    then show ?thesis using kept [of vip] vip assms(1,2) Some by (simp add: BindIP_def Let_def)
  next
    case False
    obtain e1 h1 where d: "it_del tool (nip_Addr vip) (nip_Device vip) h = (e1, h1)" by force
    note r = release_found [OF Some d assms(3)]
    show ?thesis
    proof (cases e1)
      case None
      then have "bind_new a (bound_ip a p netmask) iface h1 = (e, h')" using assms(1,2) Some d False by (simp add: BindIP_def Let_def)
      note b = bind_new_adds [OF assms(1) this]
      show ?thesis
      proof (cases e)
        case None
        then show ?thesis using new [of h1] b r \<open>e1 = None\<close> by simp
      next
        case (Some x)
        then show ?thesis using error b r \<open>e1 = None\<close> by simp
      qed
    next
      case (Some x)
      then have "e = Some x" "h' = h1" using assms(1,2) d False \<open>it_to tool p h = Some vip\<close> by (simp_all add: BindIP_def Let_def)
      then show ?thesis using error r Some by simp
    qed
  qed
qed

lemma ReleaseIP_releases:
  assumes "ag_tool a = tool" "ReleaseIP a p h = (e, h')" "one_each (addrs h)"
  shows "addrs h' = (if e = None then others p h else addrs h)"
proof (cases "it_to tool p h")
  case None
  then show ?thesis using assms(1,2) none_found [OF None] by (simp add: ReleaseIP_def)
next
  case (Some vip)
  then show ?thesis using assms release_found by (simp add: ReleaseIP_def)
qed

text \<open>The address is bound as asked; all others stay; prefixes and labels stay unambiguous.\<close>

lemma one_each_others: "one_each (addrs h) \<Longrightarrow> one_each (others p h)"
  by (auto simp: one_each_def others_def)

lemma labelled_others: "labelled label (addrs h) \<Longrightarrow> labelled label (others p h)"
  unfolding labelled_def others_def by blast

lemma BindIP_effect:
  assumes "ag_tool a = tool" "BindIP a p netmask iface h = (e, h')" "one_each (addrs h)"
  shows "one_each (addrs h') \<and> others p h' = others p h \<and>
    (e = None \<longrightarrow> (\<exists>vip. {ip \<in> addrs h'. prefix_of ip = p} = {vip} \<and> Matches (bound_ip a p netmask) iface vip)) \<and>
    (e \<noteq> None \<longrightarrow> addrs h' \<subseteq> addrs h)"
  using assms
proof (cases rule: BindIP_cases)
  case error
  then show ?thesis using assms(3) one_each_others [OF assms(3)] by (auto simp: others_def)
next
  case (kept vip)
  then have "prefix_of vip = p" by (simp add: Matches_def)
  then have "{ip \<in> addrs h'. prefix_of ip = p} = {vip}" using kept assms(3) unfolding one_each_def by blast
  then show ?thesis using kept assms(3) by blast
next
  case (new h1)
  let ?vip = "\<lparr>nip_Addr = bound_ip a p netmask, nip_Device = iface, nip_Label = nextLabel (ag_label a) iface (it_show tool h1)\<rparr>"
  have p: "prefix_of ?vip = p" by simp
  have "one_each (addrs h')" using new(3) one_each_others [OF assms(3), of p] p by (auto simp: one_each_def others_def)
  moreover have "others p h' = others p h" "{ip \<in> addrs h'. prefix_of ip = p} = {?vip}" using new(3) p by (auto simp: others_def)
  moreover have "Matches (bound_ip a p netmask) iface ?vip" by (simp add: Matches_def)
  ultimately show ?thesis using new(1) by blast
qed

lemma BindIP_labelled:
  assumes "ag_tool a = tool" "BindIP a p netmask iface h = (e, h')" "one_each (addrs h)"
    and "labelled (ag_label a) (addrs h)" "int (card (addrs h)) < 2 ^ 63"
  shows "labelled (ag_label a) (addrs h')"
  using assms(1-3)
proof (cases rule: BindIP_cases)
  case error
  then show ?thesis using assms(4) labelled_others by auto
next
  case (kept vip)
  then show ?thesis using assms(4) by simp
next
  case (new h1)
  have fin: "finite (addrs h)" by (metis show_all(1) List.finite_set)
  have "length (it_show tool h1) = card (addrs h1)" using show_all [of h1] distinct_card by metis
  also have "\<dots> \<le> card (addrs h)" using new(2) fin by (auto simp: others_def intro: card_mono)
  finally have "int (length (it_show tool h1)) < 2 ^ 63" using assms(5) by simp
  moreover have "labelled (ag_label a) (set (it_show tool h1))" using new(2) labelled_others [OF assms(4)] show_all(1) by simp
  ultimately show ?thesis using nextLabel_fresh show_all new(2,3) by metis
qed

end

subsection \<open>No address is lost\<close>

text \<open>What the listener relies on: the interface \<^verbatim>\<open>HostIPHandler\<close> with its documented behaviour.\<close>

locale ip_handler =
  fixes hdl :: "'h HostIPHandler" and ok :: "'h \<Rightarrow> bool" and bound :: "'h \<Rightarrow> string set"
  assumes BindIP: "hh_BindIP hdl a nm i h = (e, h') \<Longrightarrow> ok h \<Longrightarrow>
      ok h' \<and> bound h' \<subseteq> insert a (bound h) \<and> (e = None \<longrightarrow> a \<in> bound h')"
    and ReleaseIP: "hh_ReleaseIP hdl a h = (e, h') \<Longrightarrow> ok h \<Longrightarrow>
      ok h' \<and> bound h' \<subseteq> bound h \<and> (e = None \<longrightarrow> a \<notin> bound h')"

locale reliable_handler = ip_handler hdl ok bound
  for hdl :: "'h HostIPHandler" and ok :: "'h \<Rightarrow> bool" and bound :: "'h \<Rightarrow> string set" +
  assumes releases: "ok h \<Longrightarrow> fst (hh_ReleaseIP hdl a h) = None"

text \<open>
  The goroutines of the listener: threads that are spawned, take turns and end, the
  framework that calls \<^verbatim>\<open>Post\<close> with a set that contains at least the active threads, and other
  clients of the coordinator, which may do anything to it. An address has no dash.
\<close>

definition address_plain :: "string \<Rightarrow> bool" where
  "address_plain ipid \<longleftrightarrow> (case ParseIPID ipid of Inl _ \<Rightarrow> True | Inr (_, a) \<Rightarrow> plain a)"

inductive ipl_step :: "('h, 's) HostIPListener \<Rightarrow> string list \<times> ('h, 's) Site \<Rightarrow> string list \<times> ('h, 's) Site \<Rightarrow> bool"
  for l where
  spawn: "address_plain ipid \<Longrightarrow> ip_begin l ipid w = (True, w') \<Longrightarrow> ipl_step l (active, w) (ipid # active, w')"
| spawn_end: "address_plain ipid \<Longrightarrow> ip_begin l ipid w = (False, w') \<Longrightarrow> ipl_step l (active, w) (active, w')"
| turn: "ipid \<in> set active \<Longrightarrow> ParseIPID ipid = Inr (h, a) \<Longrightarrow> ip_turn l ipid a w = (True, w') \<Longrightarrow> ipl_step l (active, w) (active, w')"
| turn_end: "ipid \<in> set active \<Longrightarrow> ParseIPID ipid = Inr (h, a) \<Longrightarrow> ip_turn l ipid a w = (False, w') \<Longrightarrow>
    ipl_step l (active, w) (removeAll ipid active, w')"
| cancel: "ipid \<in> set active \<Longrightarrow> ipl_step l (active, w) (removeAll ipid active, ip_cancelled ipid w)"
| post: "set active \<subseteq> set p \<Longrightarrow> ipl_step l (active, w) (active, Post l p w)"
| others: "ipl_step l (active, w) (active, w\<lparr>ip_zk := s\<rparr>)"

inductive_cases ipl_stepE: "ipl_step l (active, w) y"

context reliable_handler
begin

definition known :: "string list \<Rightarrow> string list \<Rightarrow> 'h \<Rightarrow> bool" where
  "known pas active h \<longleftrightarrow> ok h \<and> (\<forall>a \<in> bound h. \<exists>i \<in> set pas \<union> set active. \<exists>x. ParseIPID i = Inr (x, a))"

abbreviation kept :: "string list \<times> ('h, 's) Site \<Rightarrow> bool" where
  "kept c \<equiv> known (ip_passive (snd c)) (fst c) (ip_net (snd c))"

lemma known_ex: "known pas active h \<Longrightarrow> b \<in> bound h \<Longrightarrow> \<exists>j \<in> set pas \<union> set active. \<exists>y. ParseIPID j = Inr (y, b)"
  unfolding known_def by blast

lemma release_known:
  assumes "ipl_handler l = hdl" "ok (ip_net w)"
  shows "ok (ip_net (ip_release l req w)) \<and> bound (ip_net (ip_release l req w)) \<subseteq> bound (ip_net w) - {ip_IPAddress req} \<and>
    ip_passive (ip_release l req w) = ip_passive w"
proof -
  obtain e h' where r: "hh_ReleaseIP hdl (ip_IPAddress req) (ip_net w) = (e, h')" by force
  then have "e = None" using releases [OF assms(2), of "ip_IPAddress req"] by simp
  then show ?thesis using ReleaseIP [OF r assms(2)] r assms(1) by (auto simp: ip_release_def)
qed

lemma release_drops:
  assumes "ipl_handler l = hdl" "known (ip_passive w) active (ip_net w)" "ParseIPID i = Inr (x, ip_IPAddress req)"
  shows "known (removeAll i (ip_passive w)) (removeAll i active) (ip_net (ip_release l req w))"
proof -
  have "ok (ip_net w)" using assms(2) by (simp add: known_def)
  note r = release_known [OF assms(1) this, of req]
  have "\<exists>j \<in> set (removeAll i (ip_passive w)) \<union> set (removeAll i active). \<exists>x. ParseIPID j = Inr (x, b)"
    if "b \<in> bound (ip_net (ip_release l req w))" for b
  proof -
    have "b \<in> bound (ip_net w)" "b \<noteq> ip_IPAddress req" using r that by auto
    then obtain j y where "j \<in> set (ip_passive w) \<union> set active" "ParseIPID j = Inr (y, b)" using known_ex [OF assms(2)] by blast
    moreover from this have "j \<noteq> i" using assms(3) \<open>b \<noteq> ip_IPAddress req\<close> by auto
    ultimately show ?thesis by auto
  qed
  then show ?thesis using r by (auto simp: known_def)
qed

lemma known_mono: "known pas active h \<Longrightarrow> set pas \<union> set active \<subseteq> set pas' \<union> set active' \<Longrightarrow> known pas' active' h"
  unfolding known_def by blast

lemma post_release_kept:
  assumes "ipl_handler l = hdl" "known (ip_passive w) active (ip_net w)" "i \<notin> set active"
  shows "known (ip_passive (post_release l i w)) active (ip_net (post_release l i w)) \<and>
    ip_passive (post_release l i w) = removeAll i (ip_passive w)"
proof -
  let ?w = "w\<lparr>ip_passive := removeAll i (ip_passive w)\<rparr>"
  have ok: "ok (ip_net ?w)" using assms(2) by (simp add: known_def)
  have act: "removeAll i active = active" using assms(3) by simp
  show ?thesis
  proof (cases "ParseIPID i")
    case (Inl e)
    note r = release_known [OF assms(1) ok, of "ip_request l ''''"]
    have "known (removeAll i (ip_passive w)) active (ip_net (ip_release l (ip_request l '''') ?w))"
      unfolding known_def
    proof (intro conjI ballI)
      fix b assume "b \<in> bound (ip_net (ip_release l (ip_request l '''') ?w))"
      then have "b \<in> bound (ip_net w)" using r by auto
      then obtain j y where "j \<in> set (ip_passive w) \<union> set active" "ParseIPID j = Inr (y, b)" using known_ex [OF assms(2)] by blast
      moreover from this have "j \<noteq> i" using Inl by auto
      ultimately show "\<exists>j \<in> set (removeAll i (ip_passive w)) \<union> set active. \<exists>x. ParseIPID j = Inr (x, b)" by auto
    qed (use r in simp)
    then show ?thesis using Inl r by (simp add: post_release_def)
  next
    case (Inr xa)
    then obtain x a where i: "ParseIPID i = Inr (x, a)" by (cases xa) auto
    have same: "ip_net (ip_release l (ip_request l a) ?w) = ip_net (ip_release l (ip_request l a) w)"
      by (simp add: ip_release_def)
    note r = release_known [OF assms(1) ok, of "ip_request l a"]
    have "known (removeAll i (ip_passive w)) active (ip_net (ip_release l (ip_request l a) w))"
      using release_drops [OF assms(1,2), of i x "ip_request l a"] i act by (simp add: ip_request_def)
    then show ?thesis using i r same by (simp add: post_release_def)
  qed
qed

lemma Post_kept:
  assumes "ipl_handler l = hdl" "known (ip_passive w) active (ip_net w)" "set active \<subseteq> set p"
  shows "known (ip_passive (Post l p w)) active (ip_net (Post l p w)) \<and> set (ip_passive (Post l p w)) = set (ip_passive w) \<inter> set p"
proof -
  let ?f = "\<lambda>i w. if i \<in> set p then w else post_release l i w"
  have "known (ip_passive (fold ?f xs v)) active (ip_net (fold ?f xs v)) \<and>
      set (ip_passive (fold ?f xs v)) = set (ip_passive v) - (set xs - set p)"
    if "known (ip_passive v) active (ip_net v)" for xs v
    using that
  proof (induction xs arbitrary: v)
    case (Cons i xs)
    have "known (ip_passive (?f i v)) active (ip_net (?f i v)) \<and> set (ip_passive (?f i v)) = set (ip_passive v) - ({i} - set p)"
    proof (cases "i \<in> set p")
      case False
      then have "i \<notin> set active" using assms(3) by blast
      from post_release_kept [OF assms(1) Cons.prems this] show ?thesis using False by auto
    qed (use Cons.prems in simp)
    then show ?case using Cons.IH [of "?f i v"] by auto
  qed simp
  from this [OF assms(2), of "ip_passive w"] show ?thesis unfolding Post_def by auto
qed

end

lemma ip_turn_cases:
  assumes "ip_turn l ipid a w = (b, w')"
  obtains (released) "\<not> b" "w' = ip_release l (ip_request l a) w"
    | (saved) "\<not> b" "w' = saveThread ipid w"
    | (bind_failed) nm i e h where "hh_BindIP (ipl_handler l) a nm i (ip_net w) = (Some e, h)"
        "\<not> b" "w' = ip_release l (ip_request l a) (w\<lparr>ip_net := h\<rparr>)"
    | (update_failed) nm i h s where "hh_BindIP (ipl_handler l) a nm i (ip_net w) = (None, h)"
        "\<not> b" "w' = saveThread ipid (w\<lparr>ip_net := h, ip_zk := s\<rparr>)"
    | (bound) hdat v h s where "get_as as_HostIP (ipl_conn l) (ipl_Path l @ [ipid]) (ip_zk w) = Inr (hdat, v)"
        "hh_BindIP (ipl_handler l) a (hip_Netmask hdat) (hip_BindInterface hdat) (ip_net w) = (None, h)"
        "UpdateIP (ipl_conn l) (ip_request l a) set_ok (ip_zk w) = (None, s)" "b" "w' = w\<lparr>ip_net := h, ip_zk := s\<rparr>"
proof (cases "get_as as_HostIP (ipl_conn l) (ipl_Path l @ [ipid]) (ip_zk w)")
  case (Inl e)
  then have "ip_turn l ipid a w = (False, if e = ErrNoNode then ip_release l (ip_request l a) w else saveThread ipid w)"
    by (simp add: ip_turn_def Let_def)
  then show ?thesis using assms released saved by (auto split: if_splits)
next
  case (Inr hv)
  obtain hdat v where hv: "hv = (hdat, v)" by force
  obtain e h where bind: "hh_BindIP (ipl_handler l) a (hip_Netmask hdat) (hip_BindInterface hdat) (ip_net w) = (e, h)" by force
  obtain e' s where upd: "UpdateIP (ipl_conn l) (ip_request l a) set_ok (ip_zk w) = (e', s)" by force
  define q where q: "q = Join [''ips'', ipid]"
  note run = assms [unfolded ip_turn_def Let_def, folded q]
  consider (err) x where "ExistsW (ipl_conn l) q (ip_zk w) = Inl x"
    | (no) "ExistsW (ipl_conn l) q (ip_zk w) = Inr False"
    | (yes) "ExistsW (ipl_conn l) q (ip_zk w) = Inr True"
    by (metis (full_types) sum.exhaust)
  then show ?thesis
  proof cases
    case err
    then show ?thesis using run Inr hv saved by simp
  next
    case no
    then show ?thesis using run Inr hv released by simp
  next
    case yes
    show ?thesis
    proof (cases e)
      case (Some x)
      then show ?thesis using run Inr hv yes bind bind_failed by simp
    next
      case None
      then show ?thesis using run Inr hv yes bind upd update_failed [of "hip_Netmask hdat" "hip_BindInterface hdat" h s] bound by (cases e') simp_all
    qed
  qed
qed

lemma ParseIPID_plain: "plain a \<Longrightarrow> \<exists>e. ParseIPID a = Inl e"
  using ParseIPID_parts [of a] by (cases "ParseIPID a") (auto simp: plain_def)

context reliable_handler
begin

lemma known_junk:
  assumes "known pas active h" "ParseIPID i = Inl e"
  shows "known (removeAll i pas) active h"
proof -
  have "\<exists>j \<in> set (removeAll i pas) \<union> set active. \<exists>y. ParseIPID j = Inr (y, b)" if b: "b \<in> bound h" for b
  proof -
    obtain j y where "j \<in> set pas \<union> set active" "ParseIPID j = Inr (y, b)" using known_ex [OF assms(1) b] by blast
    moreover from this have "j \<noteq> i" using assms(2) by auto
    ultimately show ?thesis by auto
  qed
  then show ?thesis using assms(1) unfolding known_def by blast
qed

lemma release_kept:
  assumes "ipl_handler l = hdl" "known (ip_passive w) active (ip_net w)"
  shows "known (ip_passive (ip_release l req w)) active (ip_net (ip_release l req w))"
proof -
  have "ok (ip_net w)" using assms(2) by (simp add: known_def)
  note r = release_known [OF assms(1) this, of req]
  then show ?thesis using assms(2) unfolding known_def by (metis Diff_iff subset_iff)
qed

lemma ip_begin_kept:
  assumes "ipl_handler l = hdl" "known (ip_passive w) active (ip_net w)" "ip_begin l ipid w = (b, w')" "address_plain ipid"
  shows "known (ip_passive w') active (ip_net w')"
proof (cases "ParseIPID ipid")
  case (Inl e)
  then show ?thesis using assms(2,3) by (auto simp: ip_begin_def)
next
  case (Inr xa)
  then obtain x a where i: "ParseIPID ipid = Inr (x, a)" by (cases xa) auto
  obtain e where e: "ParseIPID a = Inl e" using ParseIPID_plain assms(4) i by (auto simp: address_plain_def)
  let ?w1 = "if a \<in> set (ip_passive w) then w\<lparr>ip_passive := removeAll a (ip_passive w)\<rparr> else w"
  have w1: "known (ip_passive ?w1) active (ip_net ?w1)" using known_junk [OF assms(2) e] assms(2) by simp
  have "w' = w \<or> w' = ?w1 \<or> w' = ip_release l (ip_request l a) ?w1"
    using assms(3) i by (auto simp: ip_begin_def loadThread_def Let_def ip_request_def split: sum.splits if_splits)
  then show ?thesis using assms(2) w1 release_kept [OF assms(1) w1, of "ip_request l a"] by presburger
qed

lemma bind_kept:
  assumes "known pas active h" "ipid \<in> set active" "ParseIPID ipid = Inr (x, a)" "hh_BindIP hdl a nm i h = (e, h')"
  shows "known pas active h'"
proof -
  have "ok h" using assms(1) by (simp add: known_def)
  note b = BindIP [OF assms(4) this]
  have "\<exists>j \<in> set pas \<union> set active. \<exists>y. ParseIPID j = Inr (y, c)" if "c \<in> bound h'" for c
    using that b known_ex [OF assms(1), of c] assms(2,3) by blast
  then show ?thesis using b unfolding known_def by blast
qed

lemma save_kept: "known (ip_passive w) active (ip_net w) \<Longrightarrow> known (ip_passive (saveThread i w)) (removeAll i active) (ip_net (saveThread i w))"
  by (rule known_mono [of "ip_passive w" active]) (auto simp: saveThread_def)

lemma ip_turn_kept:
  assumes "ipl_handler l = hdl" "known (ip_passive w) active (ip_net w)" "ip_turn l ipid a w = (b, w')"
    and "ipid \<in> set active" "ParseIPID ipid = Inr (x, a)"
  shows "known (ip_passive w') (if b then active else removeAll ipid active) (ip_net w')"
proof -
  have rel: "known (ip_passive (ip_release l (ip_request l a) v)) (removeAll ipid active) (ip_net (ip_release l (ip_request l a) v))"
    if "known (ip_passive v) active (ip_net v)" for v
  proof -
    have "ip_passive (ip_release l (ip_request l a) v) = ip_passive v" by (simp add: ip_release_def)
    then show ?thesis using release_drops [OF assms(1) that, of ipid x "ip_request l a"] assms(5)
      by (auto simp: ip_request_def intro: known_mono)
  qed
  show ?thesis
    using assms(3)
  proof (cases rule: ip_turn_cases)
    case released
    then show ?thesis using rel [OF assms(2)] by simp
  next
    case saved
    then show ?thesis using save_kept [OF assms(2)] by simp
  next
    case (bind_failed nm i e h)
    then show ?thesis using rel [of "w\<lparr>ip_net := h\<rparr>"] bind_kept [OF assms(2,4,5)] assms(1) by simp
  next
    case (update_failed nm i h s)
    then show ?thesis using save_kept [of "w\<lparr>ip_net := h, ip_zk := s\<rparr>" active ipid] bind_kept [OF assms(2,4,5)] assms(1) by simp
  next
    case (bound hdat v h s)
    then show ?thesis using bind_kept [OF assms(2,4,5)] assms(1) by simp
  qed
qed

lemma ipl_step_kept: "ipl_step l c c' \<Longrightarrow> ipl_handler l = hdl \<Longrightarrow> kept c \<Longrightarrow> kept c'"
proof (induction rule: ipl_step.induct)
  case (spawn ipid w w' active)
  then have "known (ip_passive w') active (ip_net w')" using ip_begin_kept [OF spawn(3) _ spawn(2,1)] by simp
  then have "known (ip_passive w') (ipid # active) (ip_net w')" by (rule known_mono) auto
  then show ?case by simp
next
  case (spawn_end ipid w w' active)
  then show ?case using ip_begin_kept [OF spawn_end(3) _ spawn_end(2,1)] by simp
next
  case (turn ipid active h a w w')
  then show ?case using ip_turn_kept [OF turn(4) _ turn(3,1,2)] by simp
next
  case (turn_end ipid active h a w w')
  then show ?case using ip_turn_kept [OF turn_end(4) _ turn_end(3,1,2)] by simp
next
  case (cancel ipid active w)
  then show ?case using save_kept by (simp add: ip_cancelled_def)
next
  case (post active p w)
  then show ?case using Post_kept [OF post(2) _ post(1)] by simp
qed simp

lemma Exited_releases:
  assumes "ipl_handler l = hdl" "kept ([], w)"
  shows "bound (ip_net (ip_Exited l w)) = {}"
proof -
  have k: "known (ip_passive (Post l [] w)) [] (ip_net (Post l [] w))" "ip_passive (Post l [] w) = []"
    using Post_kept [OF assms(1), of w "[]" "[]"] assms(2) by auto
  then show ?thesis unfolding ip_Exited_def using known_ex [OF k(1)] k(2) by auto
qed

end

text \<open>The agent as a handler. It is reliable when removing an address that exists does not fail.\<close>

definition agent_handler :: "'h HostAgent \<Rightarrow> 'h HostIPHandler" where
  "agent_handler a = \<lparr>hh_BindIP = BindIP a, hh_ReleaseIP = ReleaseIP a\<rparr>"

locale reliable_tool = ip_tool tool addrs
  for tool :: "'h IPTool" and addrs :: "'h \<Rightarrow> NodeIP set" +
  fixes agent :: "'h HostAgent"
  assumes agent_tool: "ag_tool agent = tool"
    and del_works: "ip \<in> addrs h \<Longrightarrow> fst (it_del tool (nip_Addr ip) (nip_Device ip) h) = None"

sublocale reliable_tool < agent: reliable_handler "agent_handler agent" "\<lambda>h. one_each (addrs h)" "\<lambda>h. prefix_of ` addrs h"
proof
  fix a nm i h e h'
  assume "hh_BindIP (agent_handler agent) a nm i h = (e, h')" "one_each (addrs h)"
  then have b: "one_each (addrs h') \<and> others a h' = others a h \<and>
    (e = None \<longrightarrow> (\<exists>vip. {ip \<in> addrs h'. prefix_of ip = a} = {vip} \<and> Matches (bound_ip agent a nm) i vip)) \<and> (e \<noteq> None \<longrightarrow> addrs h' \<subseteq> addrs h)"
    using BindIP_effect [OF agent_tool] by (simp add: agent_handler_def)
  have "prefix_of ip \<in> insert a (prefix_of ` addrs h)" if "ip \<in> addrs h'" for ip
  proof (cases "prefix_of ip = a")
    case False
    then have "ip \<in> others a h'" using that by (simp add: others_def)
    then show ?thesis using b by (auto simp: others_def)
  qed simp
  moreover have "a \<in> prefix_of ` addrs h'" if "e = None" using b that by auto
  ultimately show "one_each (addrs h') \<and> prefix_of ` addrs h' \<subseteq> insert a (prefix_of ` addrs h) \<and> (e = None \<longrightarrow> a \<in> prefix_of ` addrs h')"
    using b by blast
next
  fix a h e h'
  assume "hh_ReleaseIP (agent_handler agent) a h = (e, h')" and one: "one_each (addrs h)"
  then have "addrs h' = (if e = None then others a h else addrs h)" using ReleaseIP_releases [OF agent_tool] by (simp add: agent_handler_def)
  then show "one_each (addrs h') \<and> prefix_of ` addrs h' \<subseteq> prefix_of ` addrs h \<and> (e = None \<longrightarrow> a \<notin> prefix_of ` addrs h')"
    using one one_each_others [OF one, of a] by (auto simp: others_def)
next
  fix h a
  show "fst (hh_ReleaseIP (agent_handler agent) a h) = None"
    using agent_tool del_works to_some by (auto simp: agent_handler_def ReleaseIP_def split: option.splits)
qed

context reliable_handler
begin

lemma reach_kept: "(ipl_step l)\<^sup>*\<^sup>* c c' \<Longrightarrow> ipl_handler l = hdl \<Longrightarrow> kept c \<Longrightarrow> kept c'"
  by (induction rule: rtranclp_induct) (auto intro: ipl_step_kept)

lemma start_known:
  assumes "plain hid" "bound h \<subseteq> set binds" "ok h"
  shows "known (NewHostIPListener hid binds) [] h"
proof -
  have "ParseIPID (IPID \<lparr>ip_PoolID = '''', ip_HostID = hid, ip_IPAddress = a\<rparr>) = Inr (hid, a)" for a
    using assms(1) by (simp add: ParseIPID_IPID)
  then show ?thesis using assms(2,3) by (fastforce simp: known_def NewHostIPListener_def)
qed

lemma listener_keeps:
  assumes "ipl_handler l = hdl" "plain (ipl_hostid l)" "ok (ip_net w)" "bound (ip_net w) \<subseteq> set binds"
    and "ip_passive w = NewHostIPListener (ipl_hostid l) binds" "(ipl_step l)\<^sup>*\<^sup>* ([], w) (active, w')"
  shows "known (ip_passive w') active (ip_net w') \<and> (active = [] \<longrightarrow> bound (ip_net (ip_Exited l w')) = {})"
proof -
  have "kept ([], w)" using start_known [OF assms(2,4,3)] assms(5) by simp
  from reach_kept [OF assms(6,1) this] show ?thesis using Exited_releases [OF assms(1), of w'] by auto
qed

end

context reliable_tool
begin

lemmas agent_keeps = agent.listener_keeps agent.known_ex

end



context state_connection
begin

lemma set_ok_effect:
  assumes "UpdateIP c req set_ok s = (None, s')"
  shows "\<exists>d v. seen s' (ppth req) = Some (d, v) \<and> as_PoolIP d"
proof -
  obtain ok pver hd hver where read: "get_as as_PoolIP c (ppth req) s = Inr (ok, pver)" "get_as as_HostIP c (hpth req) s = Inr (hd, hver)"
    using assms by (auto simp: UpdateIP_def read_ip_def split: sum.splits)
  show ?thesis
  proof (cases ok)
    case True
    then have "s' = s" using assms read by (simp add: UpdateIP_def read_ip_def set_ok_def make_ip_def)
    then show ?thesis using get_as_seen [OF read(1)] True by auto
  next
    case False
    let ?ip = "(make_ip req ok hd)\<lparr>full_OK := True\<rparr>"
    have run: "Commit c (update_ip_ops req ?ip pver hver) s = (None, s')"
      using assms read False by (auto simp: UpdateIP_def read_ip_def set_ok_def make_ip_def ip_commit_def prod_eq_iff)
    have "\<forall>r \<in> set (update_ip_ops req ?ip pver hver). req_path r \<noteq> []" by (simp add: update_ip_ops_def req_path_def ppth_def hpth_def)
    from Commit_tree [OF run this] have "commit_tree (update_ip_ops req ?ip pver hver) (seen s) = Some (seen s')" by simp
    moreover have "ppth req \<noteq> hpth req" by (auto simp: ppth_def hpth_def pool_ips_def host_ips_def pool_base_def)
    moreover obtain d d' where "seen s (ppth req) = Some (d, pver)" "seen s (hpth req) = Some (d', hver)"
      using get_as_seen [OF read(1)] get_as_seen [OF read(2)] by auto
    ultimately have "seen s' (ppth req) = Some (NodeData (PoolIPNode True), pver + 1)"
      by (auto simp: commit_tree_def update_ip_ops_def) (metis fun_upd_apply)
    then show ?thesis by (simp add: as_PoolIP_def)
  qed
qed

end

text \<open>
  A thread that goes on waiting has done its work: the host has exactly the address that the
  node of the coordinator asks for, bound with the node's mask on the node's interface, and the
  pool's node of the address says that it is in use.
\<close>

theorem ip_turn_binds:
  assumes "connection z tree (ipl_conn l)" "ip_tool tool addrs" "ag_tool a = tool" "ipl_handler l = agent_handler a"
    and "one_each (addrs (ip_net w))" "ip_turn l ipid p w = (True, w')"
  shows "\<exists>hdat v d dv vip. view (c_basePath (ipl_conn l)) (tree (ip_zk w)) (ipl_Path l @ [ipid]) = Some (hdat, v) \<and>
    {ip \<in> addrs (ip_net w'). prefix_of ip = p} = {vip} \<and>
    Matches (p @ ''/'' @ show_nat (cidr (ag_v6 a) (hip_Netmask (as_HostIP hdat)))) (hip_BindInterface (as_HostIP hdat)) vip \<and>
    view (c_basePath (ipl_conn l)) (tree (ip_zk w')) (ppth (ip_request l p)) = Some (d, dv) \<and> as_PoolIP d"
  using assms(6)
proof (cases rule: ip_turn_cases)
  case (bound hdat v h s)
  note conn = state_connection.intro [OF assms(1)]
  obtain d where "view (c_basePath (ipl_conn l)) (tree (ip_zk w)) (ipl_Path l @ [ipid]) = Some (d, v)" "hdat = as_HostIP d"
    using state_connection.get_as_seen [OF conn bound(1)] by auto
  moreover have "BindIP a p (hip_Netmask hdat) (hip_BindInterface hdat) (ip_net w) = (None, h)"
    using bound(2) assms(4) by (simp add: agent_handler_def)
  note ip_tool.BindIP_effect [OF assms(2,3) this assms(5)]
  moreover note state_connection.set_ok_effect [OF conn bound(3)]
  ultimately show ?thesis using bound(5) by auto
qed simp_all

subsection \<open>A host in memory\<close>

definition mem_tool :: "NodeIP list IPTool" where
  "mem_tool = \<lparr>it_show = remdups, it_to = (\<lambda>p h. List.find (\<lambda>ip. prefix_of ip = p) h),
     it_add = (\<lambda>a d lab h. if list_ex (Matches a d) h then (Some ''exists'', h)
                             else (None, \<lparr>nip_Addr = a, nip_Device = d, nip_Label = lab\<rparr> # h)),
     it_del = (\<lambda>a d h. if list_ex (Matches a d) h then (None, filter (\<lambda>ip. \<not> Matches a d ip) h) else (Some ''missing'', h)),
     it_iface = (\<lambda>i h. None)\<rparr>"

definition mem_agent :: "NodeIP list HostAgent" where
  "mem_agent = \<lparr>ag_label = ''z'', ag_tool = mem_tool, ag_v6 = (\<lambda>_. None)\<rparr>"

interpretation memory_tool: reliable_tool mem_tool set mem_agent
  by unfold_locales
    (auto simp: mem_tool_def mem_agent_def find_Some_iff find_None_iff list_ex_iff Matches_def split: if_splits)

definition ip_listener :: "(NodeIP list, Node mem) HostIPListener" where
  "ip_listener = \<lparr>ipl_hostid = ''h1'', ipl_handler = agent_handler mem_agent, ipl_conn = sample_conn\<rparr>"

definition ip_zk0 :: "Node mem" where
  "ip_zk0 = [([], EmptyData, 0), ([''ips''], DirData, 0), ([''ips'', ''h1-10.0.0.5''], NodeData (PoolIPNode False), 0),
     ([''hosts''], DirData, 0), ([''hosts'', ''h1''], DirData, 0), ([''hosts'', ''h1'', ''ips''], DirData, 0),
     ([''hosts'', ''h1'', ''ips'', ''h1-10.0.0.5''],
        NodeData (HostIPNode \<lparr>hip_Netmask = ''255.255.254.0'', hip_BindInterface = ''eth0''\<rparr>), 0)]"

text \<open>The host starts with an address that was left bound with another mask.\<close>

definition old_ip :: NodeIP where
  "old_ip = \<lparr>nip_Addr = ''10.0.0.5/16'', nip_Device = ''eth1'', nip_Label = ''eth1:z0''\<rparr>"

definition site0 :: "(NodeIP list, Node mem) Site" where
  "site0 = \<lparr>ip_passive = NewHostIPListener ''h1'' [''10.0.0.5''], ip_net = [old_ip], ip_zk = ip_zk0\<rparr>"

definition site1 :: "(NodeIP list, Node mem) Site" where
  "site1 = snd (ip_turn ip_listener ''h1-10.0.0.5'' ''10.0.0.5'' (snd (ip_begin ip_listener ''h1-10.0.0.5'' site0)))"

lemma site_runs:
  "fst (ip_begin ip_listener ''h1-10.0.0.5'' site0) = True"
  "fst (ip_turn ip_listener ''h1-10.0.0.5'' ''10.0.0.5'' (snd (ip_begin ip_listener ''h1-10.0.0.5'' site0))) = True"
  "ip_net (snd (ip_begin ip_listener ''h1-10.0.0.5'' site0)) = [old_ip]"
  "ip_net site1 = [\<lparr>nip_Addr = ''10.0.0.5/23'', nip_Device = ''eth0'', nip_Label = ''eth0:z0''\<rparr>]"
  "ParseIPID ''h1-10.0.0.5'' = Inr (''h1'', ''10.0.0.5'')"
  by code_simp+

text \<open>
  The passive table is keyed by the id of an address, but the thread that takes an entry over
  looks it up, and deletes it, by the address: the entry stays while the thread is active.
\<close>

lemma passive_entry_stays: "''h1-10.0.0.5'' \<in> set (ip_passive (snd (ip_begin ip_listener ''h1-10.0.0.5'' site0)))"
  by code_simp

lemma old_prefix: "prefix_of old_ip = ''10.0.0.5''" "one_each {old_ip}" "labelled ''z'' {old_ip}"
proof -
  show "prefix_of old_ip = ''10.0.0.5''" by code_simp
  show "one_each {old_ip}" by (simp add: one_each_def)
  have "show_int 0 = ''0''" by code_simp
  then have "has_index ''z'' old_ip 0" by (simp add: has_index_def old_ip_def)
  then show "labelled ''z'' {old_ip}" by (auto simp: labelled_def)
qed



theorem ip_turn_binds_witness:
  "\<exists>d v. map_of (ip_zk site1) [''ips'', ''h1-10.0.0.5''] = Some (d, v) \<and> as_PoolIP d"
proof -
  let ?w = "snd (ip_begin ip_listener ''h1-10.0.0.5'' site0)"
  have run: "ip_turn ip_listener ''h1-10.0.0.5'' ''10.0.0.5'' ?w = (True, site1)"
    using site_runs(2) by (simp add: site1_def prod_eq_iff)
  have l: "ipl_conn ip_listener = sample_conn" "ipl_handler ip_listener = agent_handler mem_agent" "ag_tool mem_agent = mem_tool"
    by (simp_all add: ip_listener_def mem_agent_def)
  have "connection (mem_zk (\<lambda>_. False)) map_of (ipl_conn ip_listener)" "one_each (set (ip_net ?w))"
    using sample_connection old_prefix(2) site_runs(3) l by simp_all
  from ip_turn_binds [OF this(1) memory_tool.ip_tool_axioms l(3,2) this(2) run]
  show ?thesis by (simp add: l(1) sample_base ppth_def pool_ips_def pool_base_def ip_request_def IPID_def ip_listener_def) blast
qed

end
