(* ===== verification/Pool_Hosts.thy ===== *)
theory Pool_Hosts
  imports Virtual_IPs Service_Listener
begin

section \<open>Hosts and pools in the coordinator\<close>

text \<open>
  \<^verbatim>\<open>zzk/service/host.go\<close>, \<^verbatim>\<open>pool.go\<close> and \<^verbatim>\<open>lock.go\<close>: writing, removing and synchronising the
  nodes of hosts and of resource pools, and locking services. Synchronising is the same
  pattern for both: entries are written one by one and what is left over is removed. The
  locale \<open>child_sync\<close> states what it needs of its operations, and its lemma that the result is
  exact is proved once. A host is removed by one transaction that deletes its whole subtree;
  the recursion that collects the nodes is bounded by the connection's stack.
\<close>

datatype host_error = HostClientError client_error | HostStateError state_error

subsection \<open>Host nodes\<close>

definition host_pth :: "string \<Rightarrow> zpath" where
  "host_pth hostID = Join [''hosts'', hostID]"

definition AddHost :: "'s Conn \<Rightarrow> HostData \<Rightarrow> 's \<Rightarrow> client_error option \<times> 's" where
  "AddHost c h s =
     (case CreateIfExists c [''hosts''] DirData s of
        (e, s1) \<Rightarrow>
          if e \<noteq> None \<and> e \<noteq> Some ErrNodeExists then (e, s1)
          else CreateIfExists c (host_pth (hd_ID h)) (NodeData (HostNodeNode h)) s1)"

definition UpdateHost :: "'s Conn \<Rightarrow> HostData \<Rightarrow> 's \<Rightarrow> client_error option \<times> 's" where
  "UpdateHost c h s =
     (case get_as as_HostData c (host_pth (hd_ID h)) s of
        Inl e \<Rightarrow> (Some e, s)
      | Inr (_, version) \<Rightarrow> Coordinator.Set c (host_pth (hd_ID h)) (NodeData (HostNodeNode h)) version s)"

text \<open>\<^verbatim>\<open>rmr\<close> adds the deletions below a node, and then its own, to a transaction.\<close>

primrec rmr_list :: "(string \<Rightarrow> Node multiReq list \<Rightarrow> client_error + Node multiReq list) \<Rightarrow> string list \<Rightarrow>
    Node multiReq list \<Rightarrow> client_error + Node multiReq list" where
  "rmr_list f [] t = Inr t"
| "rmr_list f (n # ch) t = (case f n t of Inl e \<Rightarrow> Inl e | Inr t \<Rightarrow> rmr_list f ch t)"

primrec rmr :: "nat \<Rightarrow> 's Conn \<Rightarrow> zpath \<Rightarrow> 's \<Rightarrow> Node multiReq list \<Rightarrow> client_error + Node multiReq list" where
  "rmr 0 c pth s t = Inl StackOverflow"
| "rmr (Suc d) c pth s t =
     (case Coordinator.Children c pth s of
        Inl e \<Rightarrow> if e = ErrNoNode then Inr t else Inl e
      | Inr ch \<Rightarrow>
          (case rmr_list (\<lambda>n. rmr d c (pth @ [n]) s) ch t of
             Inl e \<Rightarrow> Inl e
           | Inr t \<Rightarrow> Inr (t @ [MultiDelete pth])))"

definition removeHost :: "'s Conn \<Rightarrow> string \<Rightarrow> string \<Rightarrow> 's \<Rightarrow> client_error option \<times> 's" where
  "removeHost c poolID hostID s =
     (case rmr (c_stack c) c (Join (pool_base poolID @ [''hosts'', hostID])) s [] of
        Inl e \<Rightarrow> (Some e, s)
      | Inr t \<Rightarrow> Commit c t s)"

fun set_hosts :: "'s Conn \<Rightarrow> HostData list \<Rightarrow> string list \<Rightarrow> 's \<Rightarrow> client_error option \<times> string list \<times> 's" where
  "set_hosts c [] chmap s = (None, chmap, s)"
| "set_hosts c (h # hosts) chmap s =
     (if hd_ID h \<in> set chmap then
        (case UpdateHost c h s of
           (Some e, s) \<Rightarrow> (Some e, chmap, s)
         | (None, s) \<Rightarrow> set_hosts c hosts (removeAll (hd_ID h) chmap) s)
      else
        (case AddHost c h s of
           (Some e, s) \<Rightarrow> (Some e, chmap, s)
         | (None, s) \<Rightarrow> set_hosts c hosts chmap s))"

fun remove_all :: "(string \<Rightarrow> 's \<Rightarrow> client_error option \<times> 's) \<Rightarrow> string list \<Rightarrow> 's \<Rightarrow> client_error option \<times> 's" where
  "remove_all remove [] s = (None, s)"
| "remove_all remove (x # chmap) s =
     (case remove x s of
        (Some e, s) \<Rightarrow> (Some e, s)
      | (None, s) \<Rightarrow> remove_all remove chmap s)"

text \<open>The map of children is gone through in the order that the listing gives, which is arbitrary.\<close>

definition children_or_nil :: "'s Conn \<Rightarrow> zpath \<Rightarrow> 's \<Rightarrow> client_error + string list" where
  "children_or_nil c pth s =
     (case Coordinator.Children c pth s of
        Inl e \<Rightarrow> if e = ErrNoNode then Inr [] else Inl e
      | Inr ch \<Rightarrow> Inr ch)"

definition SyncHosts :: "'s Conn \<Rightarrow> HostData list \<Rightarrow> 's \<Rightarrow> client_error option \<times> 's" where
  "SyncHosts c hosts s =
     (case children_or_nil c [''hosts''] s of
        Inl e \<Rightarrow> (Some e, s)
      | Inr ch \<Rightarrow>
          (case set_hosts c hosts ch s of
             (Some e, _, s) \<Rightarrow> (Some e, s)
           | (None, chmap, s) \<Rightarrow> remove_all (removeHost c '''') chmap s))"

subsection \<open>Removing a host\<close>

text \<open>
  \<^verbatim>\<open>RemoveHost\<close> holds a lock of the ZooKeeper library, given by its two operations, while it
  waits for the instances of the host to end. Each element of the list of events is what
  other clients did to the coordinator until the watch on the instances fired, or \<^term>\<open>None\<close>
  when the removal is cancelled; with no element left it is still waiting.
\<close>

record 's Lock =
  lk_Lock :: "zpath \<Rightarrow> 's \<Rightarrow> zk_error option \<times> 's"
  lk_Unlock :: "zpath \<Rightarrow> 's \<Rightarrow> zk_error option \<times> 's"

datatype removal = Removed | RemovalFailed host_error | RemovalCancelled | RemovalWaiting

definition stop_state :: "State \<Rightarrow> bool \<times> State" where
  "stop_state st =
     (if hs_DesiredState (st_HostState st) \<noteq> SVCStop
      then (True, st\<lparr>st_HostState := (st_HostState st)\<lparr>hs_DesiredState := SVCStop\<rparr>\<rparr>)
      else (False, st))"

fun stop_states :: "'s Conn \<Rightarrow> string \<Rightarrow> string \<Rightarrow> string list \<Rightarrow> 's \<Rightarrow> state_error option \<times> 's" where
  "stop_states c poolID hostID [] s = (None, s)"
| "stop_states c poolID hostID (stateID # ch) s =
     (case ParseStateID stateID of
        Inl e \<Rightarrow> (Some e, s)
      | Inr (_, serviceID, instanceID) \<Rightarrow>
          (case UpdateState c \<lparr>req_PoolID = poolID, req_HostID = hostID, req_ServiceID = serviceID,
                              req_InstanceID = instanceID\<rparr> stop_state s of
             (Some e, s) \<Rightarrow> (Some e, s)
           | (None, s) \<Rightarrow> stop_states c poolID hostID ch s))"

fun remove_loop :: "'s Conn \<Rightarrow> string \<Rightarrow> string \<Rightarrow> ('s \<Rightarrow> 's) option list \<Rightarrow> 's \<Rightarrow> removal \<times> 's" where
  "remove_loop c poolID hostID events s =
     (case CleanHostStates c poolID hostID s of
        (Some e, s) \<Rightarrow> (RemovalFailed (HostStateError e), s)
      | (None, s) \<Rightarrow>
          (case children_or_nil c (instances_path poolID hostID) s of
             Inl e \<Rightarrow> (RemovalFailed (HostClientError e), s)
           | Inr ch \<Rightarrow>
               (case stop_states c poolID hostID ch s of
                  (Some e, s) \<Rightarrow> (RemovalFailed (HostStateError e), s)
                | (None, s) \<Rightarrow>
                    if length ch = 0 then
                      (case removeHost c poolID hostID s of
                         (Some e, s) \<Rightarrow> (RemovalFailed (HostClientError e), s)
                       | (None, s) \<Rightarrow> (Removed, s))
                    else
                      (case events of
                         [] \<Rightarrow> (RemovalWaiting, s)
                       | None # _ \<Rightarrow> (RemovalCancelled, s)
                       | Some others # events \<Rightarrow> remove_loop c poolID hostID events (others s)))))"

declare remove_loop.simps [simp del]

definition RemoveHost :: "'s Conn \<Rightarrow> 's Lock \<Rightarrow> string \<Rightarrow> string \<Rightarrow> ('s \<Rightarrow> 's) option list \<Rightarrow> 's \<Rightarrow> removal \<times> 's" where
  "RemoveHost c mu poolID hostID events s =
     (case c_conn c of
        None \<Rightarrow> (RemovalFailed (HostClientError ErrConnectionClosed), s)
      | Some _ \<Rightarrow>
          (let lockpth = c_basePath c @ Join (pool_base poolID @ [''hosts'', hostID, ''locked'']) in
           case xlate (lk_Lock mu lockpth s) of
             (Some e, s) \<Rightarrow> (RemovalFailed (HostClientError e), s)
           | (None, s) \<Rightarrow>
               (case remove_loop c poolID hostID events s of
                  (RemovalWaiting, s) \<Rightarrow> (RemovalWaiting, s)
                | (r, s) \<Rightarrow> (r, snd (lk_Unlock mu lockpth s)))))"

subsection \<open>Pool nodes\<close>

definition pool_pth :: "string \<Rightarrow> zpath" where
  "pool_pth poolID = Join [''pools'', poolID]"

definition UpdateResourcePool :: "'s Conn \<Rightarrow> ResourcePool \<Rightarrow> 's \<Rightarrow> client_error option \<times> 's" where
  "UpdateResourcePool c p s =
     (let pth = pool_pth (rp_ID p); node = NodeData (PoolNodeNode p) in
      case Coordinator.Create c pth node s of
        (e, s1) \<Rightarrow>
          if e = Some ErrNodeExists then
            (case Coordinator.Get c pth s1 of
               (e', _, version) \<Rightarrow>
                 if e' \<noteq> None \<and> e' \<noteq> Some ErrEmptyNode then (e', s1)
                 else Coordinator.Set c pth node version s1)
          else (e, s1))"

definition RemoveResourcePool :: "'s Conn \<Rightarrow> string \<Rightarrow> 's \<Rightarrow> client_error option \<times> 's" where
  "RemoveResourcePool c poolid s = Coordinator.Delete c (pool_pth poolid) s"

fun set_pools :: "'s Conn \<Rightarrow> ResourcePool list \<Rightarrow> string list \<Rightarrow> 's \<Rightarrow> client_error option \<times> string list \<times> 's" where
  "set_pools c [] chmap s = (None, chmap, s)"
| "set_pools c (p # pools) chmap s =
     (case UpdateResourcePool c p s of
        (Some e, s) \<Rightarrow> (Some e, chmap, s)
      | (None, s) \<Rightarrow> set_pools c pools (removeAll (rp_ID p) chmap) s)"

definition SyncResourcePools :: "'s Conn \<Rightarrow> ResourcePool list \<Rightarrow> 's \<Rightarrow> client_error option \<times> 's" where
  "SyncResourcePools c pools s =
     (case children_or_nil c [''pools''] s of
        Inl e \<Rightarrow> (Some e, s)
      | Inr ch \<Rightarrow>
          (case set_pools c pools ch s of
             (Some e, _, s) \<Rightarrow> (Some e, s)
           | (None, chmap, s) \<Rightarrow> remove_all (RemoveResourcePool c) chmap s))"

subsection \<open>Locking services\<close>

record ServiceLockNode =
  sl_PoolID :: string
  sl_ServiceID :: string

datatype lock_error = LockServiceFailure string string client_error | LockCommitError client_error

definition lock_path :: "ServiceLockNode \<Rightarrow> zpath" where
  "lock_path l = Join [''pools'', sl_PoolID l, ''services'', sl_ServiceID l]"

definition IsServiceLocked :: "'s Conn \<Rightarrow> 's \<Rightarrow> client_error + bool" where
  "IsServiceLocked c s = map_sum id (\<lambda>locks. length locks > 0) (children_or_nil c [''locks'', ''services''] s)"

fun lock_ops :: "'s Conn \<Rightarrow> ServiceLockNode list \<Rightarrow> 's \<Rightarrow> lock_error + Node multiReq list" where
  "lock_ops c [] s = Inr []"
| "lock_ops c (l # svcs) s =
     (case get_as as_ServiceNode c (lock_path l) s of
        Inl e \<Rightarrow> Inl (LockServiceFailure (sl_ServiceID l) (sl_PoolID l) e)
      | Inr (node, v) \<Rightarrow>
          map_sum id (Cons (MultiSet (lock_path l) (NodeData (ServiceNodeNode (node\<lparr>sn_Locked := True\<rparr>))) v))
            (lock_ops c svcs s))"

definition commit_lock :: "'s Conn \<Rightarrow> lock_error + Node multiReq list \<Rightarrow> 's \<Rightarrow> lock_error option \<times> 's" where
  "commit_lock c ops s =
     (case ops of
        Inl e \<Rightarrow> (Some e, s)
      | Inr ops \<Rightarrow> (case Commit c ops s of (e, s) \<Rightarrow> (map_option LockCommitError e, s)))"

definition LockServices :: "'s Conn \<Rightarrow> ServiceLockNode list \<Rightarrow> 's \<Rightarrow> lock_error option \<times> 's" where
  "LockServices c svcs s = commit_lock c (lock_ops c svcs s) s"

fun unlock_ops :: "'s Conn \<Rightarrow> ServiceLockNode list \<Rightarrow> 's \<Rightarrow> lock_error + Node multiReq list" where
  "unlock_ops c [] s = Inr []"
| "unlock_ops c (l # svcs) s =
     (case (case get_as as_ServiceNode c (lock_path l) s of
              Inl e \<Rightarrow> if e = ErrNoNode then Inr (zero_ServiceNode, 0) else Inl e
            | Inr x \<Rightarrow> Inr x) of
        Inl e \<Rightarrow> Inl (LockServiceFailure (sl_ServiceID l) (sl_PoolID l) e)
      | Inr (node, v) \<Rightarrow>
          map_sum id (\<lambda>ops. if sn_Locked node
                            then MultiSet (lock_path l) (NodeData (ServiceNodeNode (node\<lparr>sn_Locked := False\<rparr>))) v # ops
                            else ops)
            (unlock_ops c svcs s))"

definition UnlockServices :: "'s Conn \<Rightarrow> ServiceLockNode list \<Rightarrow> 's \<Rightarrow> lock_error option \<times> 's" where
  "UnlockServices c svcs s = commit_lock c (unlock_ops c svcs s) s"

subsection \<open>Removing a subtree in one transaction\<close>

definition subtree :: "zpath \<Rightarrow> nodes \<Rightarrow> zpath set" where
  "subtree p t = {q. prefix p q \<and> t q \<noteq> None}"

lemma subtree_children:
  assumes "closed t" "t p \<noteq> None" "set ch = {x. t (p @ [x]) \<noteq> None}"
  shows "subtree p t = insert p (\<Union>x \<in> set ch. subtree (p @ [x]) t)"
proof -
  have "q \<in> subtree p t \<longleftrightarrow> q \<in> insert p (\<Union>x \<in> set ch. subtree (p @ [x]) t)" for q
  proof (cases "\<exists>x r. q = p @ x # r")
    case True
    then obtain x r where q: "q = p @ [x] @ r" by auto
    have "x \<in> set ch" if "t q \<noteq> None"
    proof -
      have "t (p @ [x]) \<noteq> None" using that closed_below [OF assms(1), of "p @ [x]" r] q by (metis append.assoc)
      then show ?thesis using assms(3) by simp
    qed
    moreover have "prefix (p @ [y]) q \<longleftrightarrow> y = x" for y using q by auto
    ultimately show ?thesis using q by (auto simp: subtree_def)
  next
    case False
    then have "prefix p q \<longleftrightarrow> q = p" "\<not> prefix (p @ [y]) q" for y
      by (auto simp: prefix_def) (metis neq_Nil_conv)
    then show ?thesis using assms(2) by (auto simp: subtree_def)
  qed
  then show ?thesis by blast
qed

lemma subtree_None: "closed t \<Longrightarrow> t p = None \<Longrightarrow> subtree p t = {}"
  using closed_below [of t p] by (auto simp: subtree_def prefix_def)

context state_connection
begin

lemma rmr_list_collects:
  assumes "rmr_list f ch t = Inr t'"
    and "\<And>n t t'. n \<in> set ch \<Longrightarrow> f n t = Inr t' \<Longrightarrow> \<exists>ps. t' = t @ map MultiDelete ps \<and> set ps = A n"
  shows "\<exists>ps. t' = t @ map MultiDelete ps \<and> set ps = (\<Union>n \<in> set ch. A n)"
  using assms
proof (induction ch arbitrary: t)
  case (Cons n ch)
  obtain t1 where t1: "f n t = Inr t1" "rmr_list f ch t1 = Inr t'" using Cons.prems(1) by (auto split: sum.splits)
  obtain ps where ps: "t1 = t @ map MultiDelete ps" "set ps = A n" using Cons.prems(2) [OF _ t1(1)] by auto
  obtain qs where "t' = t1 @ map MultiDelete qs" "set qs = (\<Union>n \<in> set ch. A n)"
    using Cons.IH [OF t1(2)] Cons.prems(2) by (metis list.set_intros(2))
  with ps have "t' = t @ map MultiDelete (ps @ qs) \<and> set (ps @ qs) = (\<Union>n \<in> set (n # ch). A n)" by auto
  then show ?case by blast
qed simp

lemma rmr_collects:
  "rmr d c p s t = Inr t' \<Longrightarrow> closed (seen s) \<Longrightarrow> \<exists>ps. t' = t @ map MultiDelete ps \<and> set ps = subtree p (seen s)"
proof (induction d arbitrary: p t t')
  case (Suc d)
  show ?case
  proof (cases "Coordinator.Children c p s")
    case (Inl e)
    then have "t' = t" "seen s p = None" using Suc.prems(1) Children_missing by (auto split: if_splits)
    then show ?thesis using subtree_None [OF Suc.prems(2)] by (intro exI [of _ "[]"]) simp
  next
    case (Inr ch)
    then obtain t1 where t1: "rmr_list (\<lambda>n. rmr d c (p @ [n]) s) ch t = Inr t1" "t' = t1 @ [MultiDelete p]"
      using Suc.prems(1) by (auto split: sum.splits)
    have "\<exists>ps. t1 = t @ map MultiDelete ps \<and> set ps = (\<Union>n \<in> set ch. subtree (p @ [n]) (seen s))"
      by (rule rmr_list_collects [OF t1(1)]) (use Suc.IH Suc.prems(2) in blast)
    then obtain ps where ps: "t1 = t @ map MultiDelete ps" "set ps = (\<Union>n \<in> set ch. subtree (p @ [n]) (seen s))" by blast
    have "set (ps @ [p]) = subtree p (seen s)"
      using subtree_children [OF Suc.prems(2), of p ch] Children_seen [OF Inr] ps(2) by auto
    then show ?thesis using t1(2) ps(1) by (intro exI [of _ "ps @ [p]"]) simp
  qed
qed simp

lemma removeHost_effect:
  assumes "removeHost c pool h s = (e, s')" "closed (seen s)"
  shows "seen s' = removed (Join (pool_base pool @ [''hosts'', h])) (seen s) \<or> (e \<noteq> None \<and> seen s' = seen s)"
proof (cases "rmr (c_stack c) c (Join (pool_base pool @ [''hosts'', h])) s []")
  case (Inr t)
  let ?p = "Join (pool_base pool @ [''hosts'', h])"
  obtain ps where ps: "t = map MultiDelete ps" "set ps = subtree ?p (seen s)" using rmr_collects [OF Inr assms(2)] by auto
  have "?p \<noteq> []" by (simp add: pool_base_def)
  then have paths: "\<forall>r \<in> set t. req_path r \<noteq> []" using ps by (auto simp: req_path_def subtree_def)
  have run: "Commit c t s = (e, s')" using assms(1) Inr by (simp add: removeHost_def)
  have "seen s' = removed ?p (seen s)" if commit: "commit_tree t (seen s) = Some (seen s')"
  proof -
    obtain zops where "resolve (seen s) (map MultiDelete ps) = Some zops" "tree_ops zops (seen s) = Some (seen s')"
      using commit ps(1) by (auto simp: commit_tree_def bind_eq_Some_conv)
    from commit_deletes [OF this] have all: "seen s' = (\<lambda>q. if q \<in> subtree ?p (seen s) then None else seen s q)"
      using ps(2) by simp
    show ?thesis
    proof
      fix q
      show "seen s' q = removed ?p (seen s) q"
        unfolding all removed_def subtree_def by (cases "seen s q") simp_all
    qed
  qed
  then show ?thesis using Commit_tree [OF run paths] by blast
qed (use assms(1) in \<open>auto simp: removeHost_def\<close>)

end

subsection \<open>Synchronising children\<close>

text \<open>
  A table of entries with something below each of them; operations that write a new entry,
  change one and remove one. What is below an entry is kept unless the entry is removed.
\<close>

locale child_sync =
  fixes ok :: "'s \<Rightarrow> bool"
    and entries :: "'s \<Rightarrow> string \<Rightarrow> 'v option"
    and below :: "'s \<Rightarrow> string \<Rightarrow> 'b"
    and nothing :: 'b
    and create :: "'x \<Rightarrow> 's \<Rightarrow> client_error option \<times> 's"
    and change :: "'x \<Rightarrow> 's \<Rightarrow> client_error option \<times> 's"
    and remove :: "string \<Rightarrow> 's \<Rightarrow> client_error option \<times> 's"
    and key :: "'x \<Rightarrow> string"
    and val :: "'x \<Rightarrow> 'v"
  assumes create: "create x s = (None, s') \<Longrightarrow> ok s \<Longrightarrow> key x \<noteq> '''' \<Longrightarrow>
      ok s' \<and> entries s' = (entries s)(key x \<mapsto> val x) \<and> below s' = below s"
    and change: "change x s = (None, s') \<Longrightarrow> ok s \<Longrightarrow> key x \<noteq> '''' \<Longrightarrow>
      ok s' \<and> entries s' = (entries s)(key x \<mapsto> val x) \<and> below s' = below s"
    and remove: "remove k s = (None, s') \<Longrightarrow> ok s \<Longrightarrow> k \<noteq> '''' \<Longrightarrow>
      ok s' \<and> entries s' = (entries s)(k := None) \<and> below s' = (below s)(k := nothing)"
    and absent: "ok s \<Longrightarrow> entries s k = None \<Longrightarrow> below s k = nothing"
begin

fun set_all :: "'x list \<Rightarrow> string list \<Rightarrow> 's \<Rightarrow> client_error option \<times> string list \<times> 's" where
  "set_all [] chmap s = (None, chmap, s)"
| "set_all (x # xs) chmap s =
     (if key x \<in> set chmap then
        (case change x s of
           (Some e, s) \<Rightarrow> (Some e, chmap, s)
         | (None, s) \<Rightarrow> set_all xs (removeAll (key x) chmap) s)
      else
        (case create x s of
           (Some e, s) \<Rightarrow> (Some e, chmap, s)
         | (None, s) \<Rightarrow> set_all xs chmap s))"

lemma set_all_writes:
  "set_all xs chmap s = (None, left, s') \<Longrightarrow> ok s \<Longrightarrow> \<forall>x \<in> set xs. key x \<noteq> '''' \<Longrightarrow>
     ok s' \<and> entries s' = entries s ++ map_of (rev (map (\<lambda>x. (key x, val x)) xs)) \<and> below s' = below s \<and>
     set left = set chmap - key ` set xs"
proof (induction xs arbitrary: chmap s)
  case (Cons x xs)
  show ?case
  proof (cases "key x \<in> set chmap")
    case True
    then obtain s1 where first: "change x s = (None, s1)" "set_all xs (removeAll (key x) chmap) s1 = (None, left, s')"
      using Cons.prems(1) by (auto split: prod.splits option.splits)
    have "ok s1 \<and> entries s1 = (entries s)(key x \<mapsto> val x) \<and> below s1 = below s"
      using change [OF first(1)] Cons.prems(2,3) by simp
    then show ?thesis using Cons.IH [OF first(2)] Cons.prems(3) by (auto simp: map_add_def fun_eq_iff split: option.splits)
  next
    case False
    then obtain s1 where first: "create x s = (None, s1)" "set_all xs chmap s1 = (None, left, s')"
      using Cons.prems(1) by (auto split: prod.splits option.splits)
    have "ok s1 \<and> entries s1 = (entries s)(key x \<mapsto> val x) \<and> below s1 = below s"
      using create [OF first(1)] Cons.prems(2,3) by simp
    then show ?thesis using Cons.IH [OF first(2)] Cons.prems(3) False
      by (auto simp: map_add_def fun_eq_iff split: option.splits)
  qed
qed simp

lemma remove_all_removes:
  "remove_all remove ks s = (None, s') \<Longrightarrow> ok s \<Longrightarrow> '''' \<notin> set ks \<Longrightarrow>
     ok s' \<and> entries s' = (\<lambda>k. if k \<in> set ks then None else entries s k) \<and>
     below s' = (\<lambda>k. if k \<in> set ks then nothing else below s k)"
proof (induction ks arbitrary: s)
  case (Cons k ks)
  then obtain s1 where first: "remove k s = (None, s1)" "remove_all remove ks s1 = (None, s')"
    by (auto split: prod.splits option.splits)
  have "ok s1 \<and> entries s1 = (entries s)(k := None) \<and> below s1 = (below s)(k := nothing)"
    using remove [OF first(1)] Cons.prems by auto
  then show ?case using Cons.IH [OF first(2)] Cons.prems by (auto simp: fun_eq_iff)
qed simp

lemma sync_exact:
  assumes "set_all xs chmap s = (None, left, s1)" "remove_all remove left s1 = (None, s')"
    and "ok s" "set chmap = {k. entries s k \<noteq> None}" "entries s '''' = None" "\<forall>x \<in> set xs. key x \<noteq> ''''" "distinct (map key xs)"
  shows "ok s' \<and> (\<forall>k. entries s' k \<noteq> None \<longleftrightarrow> k \<in> key ` set xs) \<and> (\<forall>x \<in> set xs. entries s' (key x) = Some (val x)) \<and>
     (\<forall>k. below s' k = (if k \<in> key ` set xs then below s k else nothing))"
proof -
  note w = set_all_writes [OF assms(1,3,6)]
  have "'''' \<notin> set left" using w assms(4,5) by simp
  note r = remove_all_removes [OF assms(2) conjunct1 [OF w] this]
  have left: "k \<in> set left \<longleftrightarrow> entries s k \<noteq> None \<and> k \<notin> key ` set xs" for k
    using w assms(4) by (auto simp del: not_None_eq)
  have new: "map_of (rev (map (\<lambda>x. (key x, val x)) xs)) k = (if k \<in> key ` set xs then map_of (map (\<lambda>x. (key x, val x)) xs) k else None)" for k
  proof -
    have "map_of (rev (map (\<lambda>x. (key x, val x)) xs)) = map_of (map (\<lambda>x. (key x, val x)) xs)"
      using assms(7) by (subst map_of_inject_set) (simp_all add: comp_def rev_map [symmetric] flip: rev_map)
    then show ?thesis by (auto simp: map_of_eq_None_iff image_iff)
  qed
  have val: "map_of (map (\<lambda>x. (key x, val x)) xs) (key x) = Some (val x)" if "x \<in> set xs" for x
    using that assms(7) by (intro map_of_is_SomeI) (auto simp: comp_def)
  have stay: "entries s' k = (if k \<in> key ` set xs then map_of (map (\<lambda>x. (key x, val x)) xs) k else None)" for k
    using r w left [of k] new [of k] val by (auto simp: map_add_def split: option.splits)
  have "entries s' k \<noteq> None \<longleftrightarrow> k \<in> key ` set xs" for k using stay [of k] val by auto
  moreover have "below s' k = (if k \<in> key ` set xs then below s k else nothing)" for k
    using r w left [of k] absent [OF assms(3), of k] by (auto simp del: not_None_eq)
  ultimately show ?thesis using r stay val by auto
qed

end

subsection \<open>The hosts of a pool-based connection\<close>

text \<open>The entries below a directory and what is below each of them.\<close>

definition dir_entries :: "string \<Rightarrow> nodes \<Rightarrow> string \<Rightarrow> Node data option" where
  "dir_entries dir t k = map_option fst (t [dir, k])"

definition dir_below :: "string \<Rightarrow> nodes \<Rightarrow> string \<Rightarrow> string list \<Rightarrow> (Node data \<times> int) option" where
  "dir_below dir t k r = (if r = [] then None else t (dir # k # r))"

lemma dir_upd: "dir_entries dir (t([dir, k] \<mapsto> (d, v))) = (dir_entries dir t)(k \<mapsto> d)"
  "dir_below dir (t([dir, k] \<mapsto> x)) = dir_below dir t"
  by (auto simp: dir_entries_def dir_below_def fun_eq_iff)

lemma dir_same: "\<forall>q. length q \<noteq> 1 \<longrightarrow> t' q = t q \<Longrightarrow> dir_entries dir t' = dir_entries dir t \<and> dir_below dir t' = dir_below dir t"
  by (simp add: dir_entries_def dir_below_def fun_eq_iff)

lemma dir_removed:
  "dir_entries dir (removed [dir, k] t) = (dir_entries dir t)(k := None)"
  "dir_below dir (removed [dir, k] t) = (dir_below dir t)(k := (\<lambda>_. None))"
  by (auto simp: dir_entries_def dir_below_def removed_def fun_eq_iff)

lemma closed_removed: "closed t \<Longrightarrow> closed (removed p t)"
  by (auto simp: closed_def removed_def)

lemma dir_absent: "closed t \<Longrightarrow> dir_entries dir t k = None \<Longrightarrow> dir_below dir t k = (\<lambda>_. None)"
  using closed_below [of t "[dir, k]"] by (auto simp: dir_entries_def dir_below_def fun_eq_iff)

definition rooted :: "nodes \<Rightarrow> bool" where
  "rooted t \<longleftrightarrow> closed t \<and> t [] \<noteq> None"

lemma performs_rooted: "performs t ops e t' \<Longrightarrow> rooted t \<Longrightarrow> \<forall>op \<in> set ops. op_path op \<noteq> [] \<Longrightarrow> rooted t'"
proof -
  have keep: "tree_ops ops t = Some t' \<Longrightarrow> \<forall>op \<in> set ops. op_path op \<noteq> [] \<Longrightarrow> t' [] = t []" for ops t t'
  proof (induction ops arbitrary: t)
    case (Cons op ops)
    then obtain t1 where "tree_op op t = Some t1" "tree_ops ops t1 = Some t'" by (auto simp: bind_eq_Some_conv)
    moreover from this have "t1 [] = t []" using Cons.prems(2) by (cases op) (auto simp: op_path_def split: if_splits option.splits)
    ultimately show ?case using Cons.IH Cons.prems(2) by simp
  qed simp
  assume "performs t ops e t'" "rooted t" "\<forall>op \<in> set ops. op_path op \<noteq> []"
  then show ?thesis using keep [of ops t t'] closed_tree_ops [of t ops t'] by (auto simp: rooted_def performs_def)
qed

context state_connection
begin

lemma Set_writes:
  assumes "Coordinator.Set c p d v s = (None, s')" "p \<noteq> []"
  shows "seen s' = (seen s)(p \<mapsto> (d, v + 1)) \<and> performs (seen s) [ZSet p d v] (None :: client_error option) (seen s')"
  using Set_performs [OF assms] by (auto simp: performs_None split: option.splits if_splits)

lemma AddHost_writes:
  assumes "AddHost c h s = (None, s')" "rooted (seen s)" "hd_ID h \<noteq> ''''"
  shows "rooted (seen s') \<and> dir_entries ''hosts'' (seen s') = (dir_entries ''hosts'' (seen s))(hd_ID h \<mapsto> NodeData (HostNodeNode h)) \<and>
     dir_below ''hosts'' (seen s') = dir_below ''hosts'' (seen s)"
proof -
  let ?p = "[''hosts'', hd_ID h]"
  obtain e1 s1 where dir: "CreateIfExists c [''hosts''] DirData s = (e1, s1)" by force
  have new: "CreateIfExists c ?p (NodeData (HostNodeNode h)) s1 = (None, s')"
    using assms(1,3) dir by (auto simp: AddHost_def host_pth_def split: if_splits)
  have p1: "performs (seen s) [ZCreate [''hosts''] DirData] e1 (seen s1)" using CreateIfExists_performs [OF dir] by simp
  have p2: "performs (seen s1) [ZCreate ?p (NodeData (HostNodeNode h))] (None :: client_error option) (seen s')" using CreateIfExists_performs [OF new] by simp
  have s1: "\<forall>q. q \<noteq> [''hosts''] \<longrightarrow> seen s1 q = seen s q"
    using p1 by (auto simp: performs_def bind_eq_Some_conv split: if_splits) (metis fun_upd_other)
  have s': "seen s' = (seen s1)(?p \<mapsto> (NodeData (HostNodeNode h), 0))" using p2 by (auto simp: performs_None split: if_splits)
  have "rooted (seen s')"
    using performs_rooted [OF p2] performs_rooted [OF p1 assms(2)] by (simp add: op_path_def)
  moreover have "dir_entries ''hosts'' (seen s1) = dir_entries ''hosts'' (seen s)" "dir_below ''hosts'' (seen s1) = dir_below ''hosts'' (seen s)"
    using dir_same [of "seen s1" "seen s" "''hosts''"] s1 by (metis One_nat_def list.size(3) list.size(4) add.right_neutral add_Suc_right)+
  ultimately show ?thesis using s' s1 dir_upd by auto
qed

lemma UpdateHost_writes:
  assumes "UpdateHost c h s = (None, s')" "rooted (seen s)" "hd_ID h \<noteq> ''''"
  shows "rooted (seen s') \<and> dir_entries ''hosts'' (seen s') = (dir_entries ''hosts'' (seen s))(hd_ID h \<mapsto> NodeData (HostNodeNode h)) \<and>
     dir_below ''hosts'' (seen s') = dir_below ''hosts'' (seen s)"
proof -
  let ?p = "[''hosts'', hd_ID h]"
  obtain v where set: "Coordinator.Set c ?p (NodeData (HostNodeNode h)) v s = (None, s')"
    using assms(1,3) by (auto simp: UpdateHost_def host_pth_def split: sum.splits)
  note w = Set_writes [OF set]
  have "rooted (seen s')" using performs_rooted [OF conjunct2 [OF w] assms(2)] by (simp add: op_path_def)
  then show ?thesis using w dir_upd by auto
qed

lemma removeHost_removes:
  assumes "removeHost c '''' k s = (None, s')" "rooted (seen s)" "k \<noteq> ''''"
  shows "rooted (seen s') \<and> dir_entries ''hosts'' (seen s') = (dir_entries ''hosts'' (seen s))(k := None) \<and>
     dir_below ''hosts'' (seen s') = (dir_below ''hosts'' (seen s))(k := (\<lambda>_. None))"
proof -
  have "seen s' = removed [''hosts'', k] (seen s)"
    using removeHost_effect [OF assms(1)] assms(2,3) by (simp add: rooted_def pool_base_def)
  then show ?thesis
    using assms(2) closed_removed dir_removed by (auto simp: rooted_def removed_def)
qed

end

sublocale state_connection < hosts: child_sync "\<lambda>s. rooted (seen s)" "\<lambda>s. dir_entries ''hosts'' (seen s)"
  "\<lambda>s. dir_below ''hosts'' (seen s)" "\<lambda>_. None" "AddHost c" "UpdateHost c" "removeHost c ''''" hd_ID "\<lambda>h. NodeData (HostNodeNode h)"
  by unfold_locales (use AddHost_writes UpdateHost_writes removeHost_removes dir_absent in \<open>auto simp: rooted_def\<close>)

context state_connection
begin

lemma set_hosts_all: "set_hosts c hs chmap s = hosts.set_all hs chmap s"
  by (induction hs arbitrary: chmap s) (auto split: prod.splits option.splits)

lemmas hosts_exact = hosts.sync_exact [folded set_hosts_all]

lemma children_or_nil_seen:
  assumes "children_or_nil c [dir] s = Inr ch" "closed (seen s)"
  shows "set ch = {k. dir_entries dir (seen s) k \<noteq> None}"
proof (cases "Coordinator.Children c [dir] s")
  case (Inl e)
  then have "ch = []" "seen s [dir] = None" using assms(1) Children_missing by (auto simp: children_or_nil_def split: if_splits)
  then show ?thesis using closed_below [OF assms(2), of "[dir]"] by (simp add: dir_entries_def)
next
  case (Inr cs)
  then show ?thesis using assms(1) Children_seen [OF Inr] by (auto simp: children_or_nil_def dir_entries_def)
qed

end

subsection \<open>The resource pools\<close>

context state_connection
begin

text \<open>Below an existing root, making the directory of an entry changes nothing else.\<close>

lemma createDir_performs:
  assumes "createDir z (c_basePath c) p s = (e, s')" "p \<noteq> []"
  shows "performs (seen s) [ZCreate p EmptyData] e (seen s')"
  using CreateIfExists_performs [of p EmptyData s e s'] assms
  by (simp add: CreateIfExists_def connected conn_create_def createDir_def)

lemma create_elsewhere: "performs t [ZCreate p d] e t' \<Longrightarrow> q \<noteq> p \<Longrightarrow> t' q = t q"
  by (auto simp: performs_def bind_eq_Some_conv split: if_splits option.splits)

lemma ensurePath_root:
  assumes "ensurePath z (c_basePath c) [dir] s = (e, s')" "rooted (seen s)"
  shows "s' = s"
proof -
  have "conn_exists z (c_basePath c) [] s \<noteq> Inr False"
    using conn_exists_seen [of "[]" s False] assms(2) by (auto simp: rooted_def)
  then show ?thesis using assms(1) by (auto simp: ensurePath.simps [of _ _ "[dir]"] split: sum.splits bool.splits)
qed

lemma ensurePath_dir:
  assumes "ensurePath z (c_basePath c) [dir, k] s = (e, s')" "rooted (seen s)"
  shows "rooted (seen s') \<and> (\<forall>q. q \<noteq> [dir] \<longrightarrow> seen s' q = seen s q)"
proof (cases "conn_exists z (c_basePath c) [dir] s = Inr False")
  case True
  obtain e1 s1 where root: "ensurePath z (c_basePath c) [dir] s = (e1, s1)" by force
  have s1: "s1 = s" by (rule ensurePath_root [OF root assms(2)])
  show ?thesis
  proof (cases e1)
    case None
    obtain e2 where "createDir z (c_basePath c) [dir] s = (e2, s')"
      using assms(1) True root None s1 by (auto simp: ensurePath.simps [of _ _ "[dir, k]"] split: prod.splits if_splits)
    then have p: "performs (seen s) [ZCreate [dir] EmptyData] e2 (seen s')" using createDir_performs by blast
    show ?thesis using performs_rooted [OF p assms(2)] create_elsewhere [OF p] by (simp add: op_path_def)
  qed (use assms True root s1 in \<open>auto simp: ensurePath.simps [of _ _ "[dir, k]"]\<close>)
next
  case False
  then have "s' = s" using assms(1) by (auto simp: ensurePath.simps [of _ _ "[dir, k]"] split: sum.splits bool.splits)
  then show ?thesis using assms(2) by simp
qed

lemma Create_writes:
  assumes "Coordinator.Create c [dir, k] d s = (e, s')" "rooted (seen s)"
  shows "rooted (seen s') \<and> dir_below dir (seen s') = dir_below dir (seen s) \<and>
    dir_entries dir (seen s') = (if e = None then (dir_entries dir (seen s))(k \<mapsto> d) else dir_entries dir (seen s)) \<or>
    e \<noteq> None \<and> e \<noteq> Some ErrNodeExists"
proof -
  obtain e1 s1 where ens: "ensurePath z (c_basePath c) [dir, k] s = (e1, s1)" by force
  note m = ensurePath_dir [OF ens assms(2)]
  have same: "dir_entries dir (seen s1) = dir_entries dir (seen s) \<and> dir_below dir (seen s1) = dir_below dir (seen s)"
    using m dir_same [of "seen s1" "seen s" dir] by (metis One_nat_def length_Cons list.size(3))
  show ?thesis
  proof (cases e1)
    case None
    have new: "CreateIfExists c [dir, k] d s1 = (e, s')"
      using assms(1) ens None by (simp add: Coordinator.Create_def CreateIfExists_def connected)
    have p: "performs (seen s1) [ZCreate [dir, k] d] e (seen s')" using CreateIfExists_performs [OF new] by simp
    have "rooted (seen s')" using performs_rooted [OF p] m by (simp add: op_path_def)
    moreover have "seen s' = (seen s1)([dir, k] \<mapsto> (d, 0))" if "e = None"
      using p that by (auto simp: performs_def bind_eq_Some_conv split: if_splits option.splits)
    moreover have "seen s' = seen s1" if "e = Some ErrNodeExists" using CreateIfExists_exists new that by blast
    ultimately show ?thesis using same by (cases "e = None"; cases "e = Some ErrNodeExists") (simp_all add: dir_upd)
  next
    case (Some x)
    then have "e = Some x" "s' = s1" using assms(1) ens by (auto simp: Coordinator.Create_def connected)
    then show ?thesis using same m by simp
  qed
qed

lemma UpdateResourcePool_writes:
  assumes "UpdateResourcePool c p s = (None, s')" "rooted (seen s)" "rp_ID p \<noteq> ''''"
  shows "rooted (seen s') \<and> dir_entries ''pools'' (seen s') = (dir_entries ''pools'' (seen s))(rp_ID p \<mapsto> NodeData (PoolNodeNode p)) \<and>
     dir_below ''pools'' (seen s') = dir_below ''pools'' (seen s)"
proof -
  let ?p = "[''pools'', rp_ID p]" and ?d = "NodeData (PoolNodeNode p)"
  have pth: "pool_pth (rp_ID p) = ?p" using assms(3) by (simp add: pool_pth_def)
  obtain e s1 where new: "Coordinator.Create c ?p ?d s = (e, s1)" by force
  note w = Create_writes [OF new assms(2)]
  show ?thesis
  proof (cases "e = Some ErrNodeExists")
    case True
    obtain v where set: "Coordinator.Set c ?p ?d v s1 = (None, s')"
      using assms(1) new pth True by (auto simp: UpdateResourcePool_def Let_def split: prod.splits if_splits)
    have wr: "seen s' = (seen s1)(?p \<mapsto> (?d, v + 1)) \<and> performs (seen s1) [ZSet ?p ?d v] (None :: client_error option) (seen s')"
      by (rule Set_writes [OF set]) simp
    have "rooted (seen s')" using performs_rooted [OF conjunct2 [OF wr]] w True by (simp add: op_path_def)
    then show ?thesis using wr w True by (simp add: dir_upd)
  next
    case False
    then have "e = None" "s' = s1" using assms(1) new pth by (auto simp: UpdateResourcePool_def split: if_splits)
    then show ?thesis using w by simp
  qed
qed

lemma RemoveResourcePool_removes:
  assumes "RemoveResourcePool c k s = (None, s')" "rooted (seen s)" "k \<noteq> ''''"
  shows "rooted (seen s') \<and> dir_entries ''pools'' (seen s') = (dir_entries ''pools'' (seen s))(k := None) \<and>
     dir_below ''pools'' (seen s') = (dir_below ''pools'' (seen s))(k := (\<lambda>_. None))"
proof -
  have "Coordinator.Delete c [''pools'', k] s = (None, s')" using assms(1,3) by (simp add: RemoveResourcePool_def pool_pth_def)
  then have "deletes [''pools'', k] None s s'" by (rule Delete_deletes) simp
  then have "seen s' = removed [''pools'', k] (seen s)" using assms(2) by (intro shrinks_removed) (simp_all add: rooted_def)
  then show ?thesis using assms(2) closed_removed dir_removed by (auto simp: rooted_def removed_def)
qed

end

sublocale state_connection < pools: child_sync "\<lambda>s. rooted (seen s)" "\<lambda>s. dir_entries ''pools'' (seen s)"
  "\<lambda>s. dir_below ''pools'' (seen s)" "\<lambda>_. None" "UpdateResourcePool c" "UpdateResourcePool c" "RemoveResourcePool c" rp_ID "\<lambda>p. NodeData (PoolNodeNode p)"
  by unfold_locales (use UpdateResourcePool_writes RemoveResourcePool_removes dir_absent in \<open>auto simp: rooted_def\<close>)

context state_connection
begin

lemma set_pools_all: "set_pools c ps chmap s = pools.set_all ps chmap s"
  by (induction ps arbitrary: chmap s) (auto split: prod.splits option.splits)

lemmas pools_exact = pools.sync_exact [folded set_pools_all]

end

subsection \<open>Synchronising is exact\<close>

definition synced :: "string \<Rightarrow> ('x \<Rightarrow> string) \<Rightarrow> ('x \<Rightarrow> Node) \<Rightarrow> 'x list \<Rightarrow> nodes \<Rightarrow> nodes \<Rightarrow> bool" where
  "synced dir key val xs t t' \<longleftrightarrow>
     (\<forall>k. t' [dir, k] \<noteq> None \<longleftrightarrow> k \<in> key ` set xs) \<and>
     (\<forall>x \<in> set xs. map_option fst (t' [dir, key x]) = Some (NodeData (val x))) \<and>
     (\<forall>k r. r \<noteq> [] \<longrightarrow> t' (dir # k # r) = (if k \<in> key ` set xs then t (dir # k # r) else None))"

lemma syncedI:
  assumes "\<forall>k. dir_entries dir t' k \<noteq> None \<longleftrightarrow> k \<in> key ` set xs"
    and "\<forall>x \<in> set xs. dir_entries dir t' (key x) = Some (NodeData (val x))"
    and below: "\<forall>k. dir_below dir t' k = (if k \<in> key ` set xs then dir_below dir t k else (\<lambda>_. None))"
  shows "synced dir key val xs t t'"
proof -
  have "t' (dir # k # r) = (if k \<in> key ` set xs then t (dir # k # r) else None)" if "r \<noteq> []" for k r
  proof -
    have "dir_below dir t' k r = (if k \<in> key ` set xs then dir_below dir t k r else None)" using below by simp
    then show ?thesis using that by (simp add: dir_below_def)
  qed
  then show ?thesis using assms(1,2) by (simp add: synced_def dir_entries_def)
qed

context state_connection
begin

lemma SyncHosts_synced:
  assumes "SyncHosts c hosts s = (None, s')" "rooted (seen s)" "seen s [''hosts'', ''''] = None"
    and "\<forall>h \<in> set hosts. hd_ID h \<noteq> ''''" "distinct (map hd_ID hosts)"
  shows "synced ''hosts'' hd_ID HostNodeNode hosts (seen s) (seen s')"
proof -
  obtain ch left s1 where run: "children_or_nil c [''hosts''] s = Inr ch" "set_hosts c hosts ch s = (None, left, s1)"
      "remove_all (removeHost c '''') left s1 = (None, s')"
    using assms(1) by (auto simp: SyncHosts_def split: sum.splits prod.splits option.splits)
  have ch: "set ch = {k. dir_entries ''hosts'' (seen s) k \<noteq> None}"
    using children_or_nil_seen [OF run(1)] assms(2) by (simp add: rooted_def)
  have none: "dir_entries ''hosts'' (seen s) '''' = None" using assms(3) by (simp add: dir_entries_def)
  show ?thesis using hosts_exact [OF run(2,3) assms(2) ch none assms(4,5)] by (intro syncedI) simp_all
qed

lemma SyncResourcePools_synced:
  assumes "SyncResourcePools c pools s = (None, s')" "rooted (seen s)" "seen s [''pools'', ''''] = None"
    and "\<forall>p \<in> set pools. rp_ID p \<noteq> ''''" "distinct (map rp_ID pools)"
  shows "synced ''pools'' rp_ID PoolNodeNode pools (seen s) (seen s')"
proof -
  obtain ch left s1 where run: "children_or_nil c [''pools''] s = Inr ch" "set_pools c pools ch s = (None, left, s1)"
      "remove_all (RemoveResourcePool c) left s1 = (None, s')"
    using assms(1) by (auto simp: SyncResourcePools_def split: sum.splits prod.splits option.splits)
  have ch: "set ch = {k. dir_entries ''pools'' (seen s) k \<noteq> None}"
    using children_or_nil_seen [OF run(1)] assms(2) by (simp add: rooted_def)
  have none: "dir_entries ''pools'' (seen s) '''' = None" using assms(3) by (simp add: dir_entries_def)
  show ?thesis using pools_exact [OF run(2,3) assms(2) ch none assms(4,5)] by (intro syncedI) simp_all
qed

end

text \<open>
  C26. Synchronising, when it reports success, is exact: below \<^verbatim>\<open>/hosts\<close> there are exactly the given
  hosts, below \<^verbatim>\<open>/pools\<close> exactly the given pools, each with its data. What is below an entry that
  stays (the instances, addresses and lock of a host, the services of a pool) is untouched, and
  an entry that is left over disappears with everything below it.
\<close>

theorem sync_is_exact:
  assumes "connection z tree c" "rooted (view (c_basePath c) (tree s))"
    and "view (c_basePath c) (tree s) [''hosts'', ''''] = None" "view (c_basePath c) (tree s) [''pools'', ''''] = None"
    and "\<forall>h \<in> set hosts. hd_ID h \<noteq> ''''" "distinct (map hd_ID hosts)"
    and "\<forall>p \<in> set pools. rp_ID p \<noteq> ''''" "distinct (map rp_ID pools)"
  shows "(SyncHosts c hosts s = (None, s') \<longrightarrow>
      synced ''hosts'' hd_ID HostNodeNode hosts (view (c_basePath c) (tree s)) (view (c_basePath c) (tree s'))) \<and>
    (SyncResourcePools c pools s = (None, s') \<longrightarrow>
      synced ''pools'' rp_ID PoolNodeNode pools (view (c_basePath c) (tree s)) (view (c_basePath c) (tree s')))"
  using state_connection.SyncHosts_synced [OF state_connection.intro [OF assms(1)] _ assms(2,3,5,6)]
    state_connection.SyncResourcePools_synced [OF state_connection.intro [OF assms(1)] _ assms(2,4,7,8)] by blast

subsection \<open>Removing a host waits for its instances\<close>

context state_connection
begin

lemma UpdateState_closed: "UpdateState c a f s = (e, s') \<Longrightarrow> closed (seen s) \<Longrightarrow> closed (seen s')"
  using Commit_closed commit_paths(2) by (fastforce simp: UpdateState_def split: sum.splits prod.splits option.splits bool.splits)

lemma clean_states_closed:
  "clean_states c p parse ch s = (e, s') \<Longrightarrow> p \<noteq> [] \<Longrightarrow> closed (seen s) \<Longrightarrow> closed (seen s')"
proof (induction ch arbitrary: s)
  case (Cons x ch)
  have del: "closed (seen s1)" if "Coordinator.Delete c (p @ [x]) s = (e1, s1)" for e1 s1
    using Delete_deletes [OF that] Cons.prems(2,3) by simp
  from Cons.prems show ?case
    by (auto split: sum.splits prod.splits option.splits if_splits bool.splits dest: del DeleteState_closed intro: Cons.IH)
qed simp

lemma CleanHostStates_closed: "CleanHostStates c pool h s = (e, s') \<Longrightarrow> closed (seen s) \<Longrightarrow> closed (seen s')"
  using clean_states_closed by (auto simp: CleanHostStates_def instances_path_def split: sum.splits)

lemma removeHost_ok: "removeHost c pool h s = (None, s') \<Longrightarrow> closed (seen s) \<Longrightarrow>
    seen s' = removed (Join (pool_base pool @ [''hosts'', h])) (seen s)"
  using removeHost_effect by blast

lemma stop_states_closed: "stop_states c pool h ch s = (e, s') \<Longrightarrow> closed (seen s) \<Longrightarrow> closed (seen s')"
  by (induction ch arbitrary: s) (auto split: sum.splits prod.splits option.splits dest: UpdateState_closed)

lemma remove_loop_removed:
  "remove_loop c pool h events s = (Removed, s') \<Longrightarrow> closed (seen s) \<Longrightarrow>
   (\<And>f s. Some f \<in> set events \<Longrightarrow> closed (seen s) \<Longrightarrow> closed (seen (f s))) \<Longrightarrow>
     \<exists>s1. closed (seen s1) \<and> children_or_nil c (instances_path pool h) s1 = Inr [] \<and> removeHost c pool h s1 = (None, s')"
proof (induction events arbitrary: s)
  case Nil
  then show ?case
    by (subst (asm) remove_loop.simps) (auto split: prod.splits option.splits sum.splits if_splits dest: CleanHostStates_closed)
next
  case (Cons ev events)
  obtain ch s1 where clean: "CleanHostStates c pool h s = (None, s1)" "children_or_nil c (instances_path pool h) s1 = Inr ch"
    using Cons.prems(1) by (subst (asm) remove_loop.simps) (auto split: prod.splits option.splits sum.splits)
  have cl: "closed (seen s1)" by (rule CleanHostStates_closed [OF clean(1) Cons.prems(2)])
  show ?case
  proof (cases "ch = []")
    case True
    then show ?thesis using Cons.prems(1) clean cl
      by (subst (asm) remove_loop.simps) (auto split: prod.splits option.splits)
  next
    case False
    then obtain f s2 where next_turn: "stop_states c pool h ch s1 = (None, s2)" "ev = Some f" "remove_loop c pool h events (f s2) = (Removed, s')"
      using Cons.prems(1) clean by (subst (asm) remove_loop.simps) (auto split: prod.splits option.splits)
    have "closed (seen (f s2))" using stop_states_closed [OF next_turn(1) cl] Cons.prems(3) next_turn(2) by simp
    then show ?thesis using Cons.IH [OF next_turn(3)] Cons.prems(3) by simp
  qed
qed

end


subsection \<open>Locking is transactional\<close>

text \<open>The nodes after locking, or unlocking, the services at some paths.\<close>

definition locking :: "bool \<Rightarrow> zpath set \<Rightarrow> nodes \<Rightarrow> nodes" where
  "locking b P t q =
     (case t q of
        None \<Rightarrow> None
      | Some (d, v) \<Rightarrow>
          if q \<in> P \<and> (b \<or> sn_Locked (as_ServiceNode d))
          then Some (NodeData (ServiceNodeNode ((as_ServiceNode d)\<lparr>sn_Locked := b\<rparr>)), v + 1) else Some (d, v))"

definition lock_changes :: "bool \<Rightarrow> zpath list \<Rightarrow> nodes \<Rightarrow> (zpath \<times> Node data \<times> int) list" where
  "lock_changes b ps t = concat (map (\<lambda>p. case t p of
      None \<Rightarrow> []
    | Some (d, v) \<Rightarrow> if b \<or> sn_Locked (as_ServiceNode d)
                       then [(p, NodeData (ServiceNodeNode ((as_ServiceNode d)\<lparr>sn_Locked := b\<rparr>)), v)] else []) ps)"

abbreviation sets :: "(zpath \<times> Node data \<times> int) list \<Rightarrow> Node multiReq list" where
  "sets xs \<equiv> map (\<lambda>(p, d, v). MultiSet p d v) xs"

lemma commit_sets:
  "commit_tree (sets xs) t = Some t' \<Longrightarrow> distinct (map fst xs) \<Longrightarrow>
     t' q = (case map_of xs q of None \<Rightarrow> t q | Some (d, v) \<Rightarrow> Some (d, v + 1))"
proof -
  have res: "resolve t (sets xs) = Some (map (\<lambda>(p, d, v). ZSet p d v) xs)" for xs :: "(zpath \<times> Node data \<times> int) list"
    by (induction xs) auto
  have "tree_ops (map (\<lambda>(p, d, v). ZSet p d v) xs) t = Some t' \<Longrightarrow> distinct (map fst xs) \<Longrightarrow>
     t' q = (case map_of xs q of None \<Rightarrow> t q | Some (d, v) \<Rightarrow> Some (d, v + 1))"
  proof (induction xs arbitrary: t)
    case (Cons x xs)
    obtain p d v where x: "x = (p, d, v)" by (cases x)
    then have "tree_ops (map (\<lambda>(p, d, v). ZSet p d v) xs) (t(p \<mapsto> (d, v + 1))) = Some t'"
      using Cons.prems(1) by (auto simp: bind_eq_Some_conv split: option.splits if_splits)
    from Cons.IH [OF this] Cons.prems(2) x show ?case
      by (auto simp: map_of_eq_None_iff [symmetric] split: option.splits)
  qed simp
  then show "commit_tree (sets xs) t = Some t' \<Longrightarrow> distinct (map fst xs) \<Longrightarrow>
     t' q = (case map_of xs q of None \<Rightarrow> t q | Some (d, v) \<Rightarrow> Some (d, v + 1))"
    by (simp add: commit_tree_def res)
qed

lemma lock_changes_paths: "set (map fst (lock_changes b ps t)) \<subseteq> set ps" "distinct ps \<Longrightarrow> distinct (map fst (lock_changes b ps t))"
proof -
  show sub: "set (map fst (lock_changes b ps t)) \<subseteq> set ps" for ps
    by (auto simp: lock_changes_def split: option.splits if_splits)
  show "distinct ps \<Longrightarrow> distinct (map fst (lock_changes b ps t))"
  proof (induction ps)
    case (Cons p ps)
    then show ?case using sub [of ps] by (auto simp: lock_changes_def split: option.splits if_splits)
  qed (simp add: lock_changes_def)
qed

lemma lock_changes_at: "distinct ps \<Longrightarrow> (case map_of (lock_changes b ps t) q of None \<Rightarrow> t q | Some (d, v) \<Rightarrow> Some (d, v + 1)) = locking b (set ps) t q"
proof (induction ps)
  case (Cons p ps)
  then show ?case
    using lock_changes_paths(1) [of b ps t]
    by (cases "q = p") (auto simp: lock_changes_def locking_def map_of_eq_None_iff [symmetric] map_add_def split: option.splits if_splits)
qed (simp add: lock_changes_def locking_def split: option.splits)

context state_connection
begin

lemma lock_ops_changes: "lock_ops c svcs s = Inr ops \<Longrightarrow> ops = sets (lock_changes True (map lock_path svcs) (seen s))"
proof (induction svcs arbitrary: ops)
  case (Cons l svcs)
  obtain rest where rest: "lock_ops c svcs s = Inr rest"
    using Cons.prems by (cases "lock_ops c svcs s") (auto split: sum.splits)
  obtain node v where l: "get_as as_ServiceNode c (lock_path l) s = Inr (node, v)" "lock_ops c svcs s = Inr rest"
    "ops = MultiSet (lock_path l) (NodeData (ServiceNodeNode (node\<lparr>sn_Locked := True\<rparr>))) v # rest"
    using Cons.prems rest by (auto split: sum.splits)
  then show ?case using Cons.IH [OF l(2)] get_as_seen [OF l(1)] by (auto simp: lock_changes_def)
qed (simp add: lock_changes_def)

lemma get_as_missing: "get_as f c p s = Inl ErrNoNode \<Longrightarrow> seen s p = None"
  using Get_missing by (auto simp: get_as_def split: prod.splits option.splits)

lemma unlock_ops_changes: "unlock_ops c svcs s = Inr ops \<Longrightarrow> ops = sets (lock_changes False (map lock_path svcs) (seen s))"
proof (induction svcs arbitrary: ops)
  case (Cons l svcs)
  obtain rest where rest: "unlock_ops c svcs s = Inr rest"
    using Cons.prems by (cases "unlock_ops c svcs s") (auto split: sum.splits if_splits)
  note IH = Cons.IH [OF rest]
  show ?case
  proof (cases "get_as as_ServiceNode c (lock_path l) s")
    case (Inl e)
    then have "e = ErrNoNode" "ops = rest" using Cons.prems rest by (auto simp: zero_ServiceNode_def split: if_splits)
    then show ?thesis using IH get_as_missing [of as_ServiceNode "lock_path l" s] Inl by (simp add: lock_changes_def)
  next
    case (Inr x)
    then obtain node v where x: "get_as as_ServiceNode c (lock_path l) s = Inr (node, v)" by (cases x) auto
    then show ?thesis using Cons.prems rest IH get_as_seen [OF x] by (auto simp: lock_changes_def)
  qed
qed (simp add: lock_changes_def)

lemma commit_lock_effect:
  assumes "commit_lock c (Inr (sets (lock_changes b ps (seen s)))) s = (e, s')" "distinct ps" "[] \<notin> set ps"
  shows "seen s' = locking b (set ps) (seen s) \<or> (e \<noteq> None \<and> seen s' = seen s)"
proof -
  obtain e' where run: "Commit c (sets (lock_changes b ps (seen s))) s = (e', s')" "e = map_option LockCommitError e'"
    using assms(1) by (auto simp: commit_lock_def split: prod.splits)
  have "\<forall>r \<in> set (sets (lock_changes b ps (seen s))). req_path r \<noteq> []"
    using lock_changes_paths(1) [of b ps "seen s"] assms(3) by (fastforce simp: req_path_def)
  from Commit_tree [OF run(1) this] show ?thesis
    using commit_sets [OF _ lock_changes_paths(2) [OF assms(2)], of b "seen s" "seen s" "seen s'"] lock_changes_at [OF assms(2)] run(2)
    by (auto simp: fun_eq_iff)
qed

lemma LockServices_effect:
  assumes "LockServices c svcs s = (e, s')" "distinct (map lock_path svcs)"
  shows "seen s' = locking True (lock_path ` set svcs) (seen s) \<or> (e \<noteq> None \<and> seen s' = seen s)"
proof (cases "lock_ops c svcs s")
  case (Inr ops)
  have "[] \<notin> set (map lock_path svcs)" by (auto simp: lock_path_def)
  with commit_lock_effect [OF _ assms(2), of True s e s'] show ?thesis
    using assms(1) lock_ops_changes [OF Inr] Inr by (simp add: LockServices_def)
qed (use assms(1) in \<open>auto simp: LockServices_def commit_lock_def\<close>)

lemma UnlockServices_effect:
  assumes "UnlockServices c svcs s = (e, s')" "distinct (map lock_path svcs)"
  shows "seen s' = locking False (lock_path ` set svcs) (seen s) \<or> (e \<noteq> None \<and> seen s' = seen s)"
proof (cases "unlock_ops c svcs s")
  case (Inr ops)
  have "[] \<notin> set (map lock_path svcs)" by (auto simp: lock_path_def)
  with commit_lock_effect [OF _ assms(2), of False s e s'] show ?thesis
    using assms(1) unlock_ops_changes [OF Inr] Inr by (simp add: UnlockServices_def)
qed (use assms(1) in \<open>auto simp: UnlockServices_def commit_lock_def\<close>)

end

text \<open>
  C36. Locking and unlocking services is one transaction: either every service of the request
  has its lock flag set (cleared, where it was set) and nothing else changed, or an error is
  reported and nothing changed at all; an error after the change is a lost answer. Unlocking
  what was locked gives back the data of every node.
\<close>

theorem locks_all_or_none:
  assumes "connection z tree c" "distinct (map lock_path svcs)"
    and "LockServices c svcs s = (e1, s1)" "UnlockServices c svcs s1 = (e2, s2)"
  shows "(view (c_basePath c) (tree s1) = locking True (lock_path ` set svcs) (view (c_basePath c) (tree s)) \<or>
      (e1 \<noteq> None \<and> view (c_basePath c) (tree s1) = view (c_basePath c) (tree s))) \<and>
    (view (c_basePath c) (tree s2) = locking False (lock_path ` set svcs) (view (c_basePath c) (tree s1)) \<or>
      (e2 \<noteq> None \<and> view (c_basePath c) (tree s2) = view (c_basePath c) (tree s1))) \<and>
    (e1 = None \<and> e2 = None \<and>
     (\<forall>p \<in> lock_path ` set svcs. \<exists>n v. view (c_basePath c) (tree s) p = Some (NodeData (ServiceNodeNode n), v) \<and> \<not> sn_Locked n) \<longrightarrow>
      (\<forall>q. map_option fst (view (c_basePath c) (tree s2) q) = map_option fst (view (c_basePath c) (tree s) q)))"
proof -
  note conn = state_connection.intro [OF assms(1)]
  note lock = state_connection.LockServices_effect [OF conn assms(3,2)]
  note unlock = state_connection.UnlockServices_effect [OF conn assms(4,2)]
  have restored: "map_option fst (locking False P (locking True P t) q) = map_option fst (t q)"
    if "\<forall>p \<in> P. \<exists>n v. t p = Some (NodeData (ServiceNodeNode n), v) \<and> \<not> sn_Locked n" for P q t
    using that by (fastforce simp: locking_def as_ServiceNode_def split: option.splits)
  have "map_option fst (view (c_basePath c) (tree s2) q) = map_option fst (view (c_basePath c) (tree s) q)"
    if "e1 = None" "e2 = None" "\<forall>p \<in> lock_path ` set svcs. \<exists>n v. view (c_basePath c) (tree s) p = Some (NodeData (ServiceNodeNode n), v) \<and> \<not> sn_Locked n" for q
    using lock unlock that(1,2) restored [OF that(3), of q] by simp
  then show ?thesis using lock unlock by blast
qed

subsection \<open>A coordinator with hosts, pools and services\<close>

definition host_named :: "string \<Rightarrow> HostData" where
  "host_named h = zero_HostData\<lparr>hd_ID := h\<rparr>"

definition pool_named :: "string \<Rightarrow> ResourcePool" where
  "pool_named p = zero_ResourcePool\<lparr>rp_ID := p\<rparr>"

definition site_zk :: "Node mem" where
  "site_zk = [([], EmptyData, 0), ([''hosts''], DirData, 0),
     ([''hosts'', ''h1''], NodeData (HostNodeNode (host_named ''h1'')), 0), ([''hosts'', ''h1'', ''locked''], DirData, 0),
     ([''hosts'', ''h2''], NodeData (HostNodeNode (host_named ''h2'')), 0), ([''hosts'', ''h2'', ''locked''], DirData, 0),
     ([''pools''], DirData, 0), ([''pools'', ''p1''], NodeData (PoolNodeNode (pool_named ''p1'')), 0),
     ([''pools'', ''p1'', ''services''], DirData, 0),
     ([''pools'', ''p1'', ''services'', ''a''], NodeData (ServiceNodeNode zero_ServiceNode), 0)]"

lemma site_closed: "closed (map_of site_zk)"
  by (auto simp: closed_def site_zk_def Cons_eq_append_conv)

lemma site_rooted: "rooted (map_of site_zk)"
  using site_closed by (simp add: rooted_def site_zk_def)

lemma site_sync:
  "fst (SyncHosts sample_conn [host_named ''h2'', host_named ''h3''] site_zk) = None"
  "fst (SyncResourcePools sample_conn [pool_named ''p2''] site_zk) = None"
  by code_simp+

theorem sync_is_exact_witness:
  "synced ''hosts'' hd_ID HostNodeNode [host_named ''h2'', host_named ''h3''] (map_of site_zk)
      (map_of (snd (SyncHosts sample_conn [host_named ''h2'', host_named ''h3''] site_zk))) \<and>
   synced ''pools'' rp_ID PoolNodeNode [pool_named ''p2''] (map_of site_zk)
      (map_of (snd (SyncResourcePools sample_conn [pool_named ''p2''] site_zk)))"
proof -
  let ?hs = "[host_named ''h2'', host_named ''h3'']" and ?ps = "[pool_named ''p2'']"
  have ok: "\<forall>h \<in> set ?hs. hd_ID h \<noteq> ''''" "distinct (map hd_ID ?hs)" "\<forall>p \<in> set ?ps. rp_ID p \<noteq> ''''" "distinct (map rp_ID ?ps)"
    by (simp_all add: host_named_def pool_named_def)
  have "rooted (view (c_basePath sample_conn) (map_of site_zk))"
    "view (c_basePath sample_conn) (map_of site_zk) [''hosts'', ''''] = None"
    "view (c_basePath sample_conn) (map_of site_zk) [''pools'', ''''] = None"
    using site_rooted by (simp_all add: sample_base site_zk_def)
  note exact = sync_is_exact [OF sample_connection this ok]
  show ?thesis
    using exact [of "snd (SyncHosts sample_conn ?hs site_zk)"] exact [of "snd (SyncResourcePools sample_conn ?ps site_zk)"] site_sync
    by (simp add: sample_base prod_eq_iff)
qed

definition free_lock :: "Node mem Lock" where
  "free_lock = \<lparr>lk_Lock = (\<lambda>p s. (None, s)), lk_Unlock = (\<lambda>p s. (None, s))\<rparr>"

lemma site_remove: "fst (RemoveHost sample_conn free_lock '''' ''h1'' [] site_zk) = Removed"
  by code_simp


definition lock_a :: "ServiceLockNode list" where
  "lock_a = [\<lparr>sl_PoolID = ''p1'', sl_ServiceID = ''a''\<rparr>]"

lemma site_lock:
  "fst (LockServices sample_conn lock_a site_zk) = None"
  "fst (UnlockServices sample_conn lock_a (snd (LockServices sample_conn lock_a site_zk))) = None"
  by code_simp+

theorem locks_all_or_none_witness:
  "map_of (snd (LockServices sample_conn lock_a site_zk)) = locking True {[''pools'', ''p1'', ''services'', ''a'']} (map_of site_zk) \<and>
   map_option fst (map_of (snd (UnlockServices sample_conn lock_a (snd (LockServices sample_conn lock_a site_zk)))) [''pools'', ''p1'', ''services'', ''a''])
     = Some (NodeData (ServiceNodeNode zero_ServiceNode))"
proof -
  have ps: "lock_path ` set lock_a = {[''pools'', ''p1'', ''services'', ''a'']}" by (simp add: lock_a_def lock_path_def)
  have "distinct (map lock_path lock_a)" by (simp add: lock_a_def)
  note all = locks_all_or_none [OF sample_connection this prod.collapse [symmetric] prod.collapse [symmetric], of site_zk]
  have "map_of site_zk [''pools'', ''p1'', ''services'', ''a''] = Some (NodeData (ServiceNodeNode zero_ServiceNode), 0)" "\<not> sn_Locked zero_ServiceNode"
    by (simp_all add: site_zk_def zero_ServiceNode_def)
  moreover have "view (c_basePath sample_conn) (map_of s) = map_of s" for s :: "Node mem" by (simp add: sample_base)
  ultimately have "map_option fst (map_of (snd (UnlockServices sample_conn lock_a (snd (LockServices sample_conn lock_a site_zk)))) q)
      = map_option fst (map_of site_zk q)"
    "map_of (snd (LockServices sample_conn lock_a site_zk)) = locking True {[''pools'', ''p1'', ''services'', ''a'']} (map_of site_zk)" for q
    using all site_lock unfolding ps by (metis singletonD)+
  then show ?thesis by (simp add: site_zk_def)
qed

text \<open>
  The nodes of a removed host's addresses below the pool stay: the address is still assigned to
  the host that is gone.
\<close>

lemma removed_host_keeps_address:
  "let s = snd (RemoveHost sample_conn free_lock ''p1'' ''h1'' [] (snd (snd pool_assigned)))
   in map_of s [''pools'', ''p1'', ''hosts'', ''h1''] = None \<and> getAssignedHostID sample_conn ''p1'' ''10'' s = Inr ''h1''"
  by code_simp

end
