(* ===== verification/Host_Registry.thy ===== *)
theory Host_Registry
  imports Pool_Hosts
begin

section \<open>The availability of hosts\<close>

text \<open>
  \<^verbatim>\<open>zzk/service/hostregistry.go\<close>: for every host of a pool the master runs a loop that watches
  whether the host is online and, after an outage that lasted long enough while other hosts
  are online, releases its addresses and removes its instances so that they are scheduled
  elsewhere. A run of the loop is a turn that reads the coordinator and then waits; where it
  waits is a value of \<open>wait\<close>, and what ends the wait an \<open>event\<close>. Timers are the time at which
  they are due, on a clock that is an argument; a timer that was received from is \<^term>\<open>None\<close>.
  That another host is online arrives over a channel that the loops share, as the event
  \<open>OtherOnline\<close>.
\<close>

type_synonym timer = "int option"

definition NewTimer :: "int \<Rightarrow> int \<Rightarrow> timer" where
  "NewTimer now d = Some (now + d)"

definition fires :: "int \<Rightarrow> timer \<Rightarrow> bool" where
  "fires now t = (case t of None \<Rightarrow> False | Some due \<Rightarrow> due \<le> now)"

text \<open>Durations are 64-bit numbers of nanoseconds.\<close>

definition GetConnectionTimeout :: "ResourcePool \<Rightarrow> int" where
  "GetConnectionTimeout p = sint (word_of_int (rp_ConnectionTimeout p) * 1000000 :: 64 word)"

text \<open>The node of a pool is written from a pool, so it always has the fields of one.\<close>

definition getTimeout :: "'s Conn \<Rightarrow> string \<Rightarrow> 's \<Rightarrow> int" where
  "getTimeout c poolid s =
     (case get_as as_ResourcePool c (Join [''pools'', poolid]) s of
        Inl _ \<Rightarrow> 0
      | Inr (p, _) \<Rightarrow> GetConnectionTimeout p)"

record Watch =
  hr_isOnline :: bool
  hr_outage :: int
  hr_firstTimeout :: bool
  hr_offlineTimer :: timer
  hr_onlineTimer :: timer
  hr_connectionTimeout :: int

definition watch_start :: "int \<Rightarrow> int \<Rightarrow> Watch" where
  "watch_start now timeout =
     \<lparr>hr_isOnline = False, hr_outage = now, hr_firstTimeout = True, hr_offlineTimer = NewTimer now timeout,
      hr_onlineTimer = NewTimer now 0, hr_connectionTimeout = 0\<rparr>"

datatype wait = WaitOffer | WaitLocked | WaitIdle | WaitOffline | WaitOther | WaitOnline | WaitSecond | WaitDone

datatype event = Taken | LockEv | AvailEv | OnlineEv | Cancelled | OfflineTimer | OtherOnline | OnlineTimer

datatype place = Loop | Waits wait | Returned

text \<open>Whether a node has children, when it exists.\<close>

definition has_children :: "'s Conn \<Rightarrow> zpath \<Rightarrow> 's \<Rightarrow> client_error + bool option" where
  "has_children c pth s =
     (case ExistsW c pth s of
        Inl e \<Rightarrow> Inl e
      | Inr False \<Rightarrow> Inr None
      | Inr True \<Rightarrow> map_sum id (\<lambda>ch. Some (length ch > 0)) (Coordinator.Children c pth s))"

definition set_online :: "int \<Rightarrow> int \<Rightarrow> bool \<Rightarrow> Watch \<Rightarrow> Watch" where
  "set_online now timeout isAvailable v =
     (if \<not> isAvailable \<and> hr_isOnline v then
        v\<lparr>hr_isOnline := False, hr_outage := now, hr_connectionTimeout := timeout, hr_firstTimeout := True,
          hr_offlineTimer := NewTimer now timeout\<rparr>
      else if isAvailable \<and> \<not> hr_isOnline v then v\<lparr>hr_isOnline := True\<rparr>
      else v)"

definition where_to_wait :: "bool \<Rightarrow> bool \<Rightarrow> bool \<Rightarrow> wait" where
  "where_to_wait isOnline isLocked isRunning =
     (if isOnline then (if \<not> isLocked then WaitOffer else WaitLocked)
      else if \<not> isRunning then WaitIdle else WaitOffline)"

definition registry_rest :: "'s Conn \<Rightarrow> string \<Rightarrow> string \<Rightarrow> Watch \<Rightarrow> 's \<Rightarrow> place \<times> Watch \<times> 's" where
  "registry_rest c poolid hostid v s =
     (case has_children c (zk_host poolid hostid [''locked'']) s of
        Inl _ \<Rightarrow> (Returned, v, s)
      | Inr locked \<Rightarrow>
          (case CleanHostStates c poolid hostid s of
             (Some _, s) \<Rightarrow> (Returned, v, s)
           | (None, s) \<Rightarrow>
               (case children_or_nil c (zk_host poolid hostid [''instances'']) s of
                  Inl _ \<Rightarrow> (Returned, v, s)
                | Inr ch \<Rightarrow>
                    (Waits (where_to_wait (hr_isOnline v) (locked = Some True) (length ch > 0)), v, s))))"

definition registry_turn :: "'s Conn \<Rightarrow> string \<Rightarrow> string \<Rightarrow> int \<Rightarrow> Watch \<Rightarrow> 's \<Rightarrow> place \<times> Watch \<times> 's" where
  "registry_turn c poolid hostid now v s =
     (case ExistsW c (zk_host poolid hostid []) s of
        Inl _ \<Rightarrow> (Returned, v, s)
      | Inr False \<Rightarrow> (Returned, v, s)
      | Inr True \<Rightarrow>
          (case has_children c (zk_host poolid hostid [''online'']) s of
             Inl _ \<Rightarrow> (Returned, v, s)
           | Inr online \<Rightarrow>
               (let s = (if online = None then snd (DeleteHostStates c poolid hostid s) else s);
                    isAvailable = (online = Some True)
                in registry_rest c poolid hostid (set_online now (getTimeout c poolid s) isAvailable v) s)))"

text \<open>What an outage removes: instances that are to stop anyway or that are not bound to an address.\<close>

definition unscheduled :: "State \<Rightarrow> bool" where
  "unscheduled st \<longleftrightarrow> hs_DesiredState (st_HostState st) = SVCStop \<or> \<not> ss_Static (st_ServiceState st)"

definition clean_up :: "'s Conn \<Rightarrow> string \<Rightarrow> string \<Rightarrow> 's \<Rightarrow> 's" where
  "clean_up c poolid hostid s =
     snd (DeleteHostStatesWhen c poolid hostid unscheduled (snd (UnassignAll c poolid hostid s)))"

text \<open>The events of the nested selects; \<^term>\<open>None\<close> where the code does not wait for the event.\<close>

fun registry_event :: "'s Conn \<Rightarrow> string \<Rightarrow> string \<Rightarrow> int \<Rightarrow> wait \<Rightarrow> event \<Rightarrow> Watch \<Rightarrow> 's \<Rightarrow> (place \<times> Watch \<times> 's) option" where
  "registry_event c poolid hostid now w Cancelled v s = Some (Returned, v, s)"
| "registry_event c poolid hostid now w AvailEv v s = Some (Loop, v, s)"
| "registry_event c poolid hostid now w OnlineEv v s = Some (Loop, v, s)"
| "registry_event c poolid hostid now w LockEv v s = (if w = WaitOffer \<or> w = WaitLocked then Some (Loop, v, s) else None)"
| "registry_event c poolid hostid now w Taken v s = (if w = WaitOffer then Some (Loop, v, s) else None)"
| "registry_event c poolid hostid now w OfflineTimer v s =
     (if w = WaitOffline \<and> fires now (hr_offlineTimer v)
      then Some (Waits WaitOther, v\<lparr>hr_offlineTimer := NewTimer now 0\<rparr>, s) else None)"
| "registry_event c poolid hostid now w OnlineTimer v s =
     (if w = WaitOnline \<and> fires now (hr_onlineTimer v)
      then Some (Waits WaitSecond, v\<lparr>hr_onlineTimer := NewTimer now 0\<rparr>, s) else None)"
| "registry_event c poolid hostid now w OtherOnline v s =
     (if w = WaitOther then
        Some (Waits WaitOnline,
              (if hr_firstTimeout v
               then v\<lparr>hr_onlineTimer := NewTimer now (hr_connectionTimeout v), hr_firstTimeout := False\<rparr> else v), s)
      else if w = WaitSecond then Some (Waits WaitDone, v, clean_up c poolid hostid s)
      else None)"

text \<open>\<^verbatim>\<open>GetRegisteredHosts\<close>: each element is the coordinator when a host went online, or a cancellation.\<close>

fun GetRegisteredHosts :: "'s Conn \<Rightarrow> string \<Rightarrow> 's option list \<Rightarrow> 's \<Rightarrow> (ip_error + HostData list) option" where
  "GetRegisteredHosts c poolid later s =
     (case GetRegisteredHostsForPool c poolid s of
        Inl e \<Rightarrow> Some (Inl e)
      | Inr hosts \<Rightarrow>
          if length hosts > 0 then Some (Inr hosts)
          else (case later of
                  [] \<Rightarrow> None
                | None # _ \<Rightarrow> Some (Inr [])
                | Some s' # later \<Rightarrow> GetRegisteredHosts c poolid later s'))"

declare GetRegisteredHosts.simps [simp del]

subsection \<open>What a cleanup removes\<close>

text \<open>Instances that satisfy a condition were removed; all others are as before.\<close>

definition only_removes :: "(StateRequest \<Rightarrow> State \<Rightarrow> bool) \<Rightarrow> (StateRequest \<Rightarrow> State option) \<Rightarrow> (StateRequest \<Rightarrow> State option) \<Rightarrow> bool" where
  "only_removes P T T' \<longleftrightarrow> (\<forall>req. T' req = T req \<or> (T' req = None \<and> (\<exists>st. T req = Some st \<and> P req st)))"

lemma only_removes_refl [simp]: "only_removes P T T"
  by (simp add: only_removes_def)

lemma only_removes_trans: "only_removes P T T' \<Longrightarrow> only_removes P T' T'' \<Longrightarrow> only_removes P T T''"
  unfolding only_removes_def by metis

lemma table_outside:
  assumes "\<And>req. wf_req req \<Longrightarrow> req_PoolID req = pool \<Longrightarrow>
    t' (hspth req) = t (hspth req) \<and> t' (sspth req) = t (sspth req) \<and> t' (cspth req) = t (cspth req)"
  shows "table pool t' = table pool t"
  using assms by (auto simp: table_def state_of_def fun_eq_iff)

lemma ip_paths_apart:
  assumes "pool \<noteq> ''''" "good_host h" "wf_req req" "req_PoolID req = pool"
  shows "hspth req \<notin> {ppth (req_of pool h a), hpth (req_of pool h a)}" "sspth req \<notin> {ppth (req_of pool h a), hpth (req_of pool h a)}"
    "cspth req \<notin> {ppth (req_of pool h a), hpth (req_of pool h a)}"
  using assms by (auto simp: path_defs ppth_def hpth_def ip_paths good_host_def pool_base_def split: if_splits)

context state_connection
begin

lemma DeleteIP_frame:
  assumes "DeleteIP c req s = (e, s')" "q \<notin> {ppth req, hpth req}"
  shows "seen s' q = seen s q"
proof (cases "\<exists>pok hok. Coordinator.Exists c (ppth req) s = Inr pok \<and> Coordinator.Exists c (hpth req) s = Inr hok")
  case True
  then obtain pok hok where ex: "Coordinator.Exists c (ppth req) s = Inr pok" "Coordinator.Exists c (hpth req) s = Inr hok" by blast
  let ?ps = "(if pok then [ppth req] else []) @ (if hok then [hpth req] else [])"
  have ops: "delete_if pok (ppth req) @ delete_if hok (hpth req) = map MultiDelete ?ps" by (simp add: delete_if_def)
  obtain e2 where commit: "Commit c (map MultiDelete ?ps) s = (e2, s')"
    using assms(1) ex ops by (cases "Commit c (map MultiDelete ?ps) s") (simp add: DeleteIP_def ip_commit_def)
  have paths: "\<forall>r \<in> set (map MultiDelete ?ps :: Node multiReq list). req_path r \<noteq> []"
    by (auto simp: req_path_def ppth_def hpth_def)
  have "seen s' q = seen s q" if "commit_tree (map MultiDelete ?ps) (seen s) = Some (seen s')"
  proof -
    from that obtain zops where "resolve (seen s) (map MultiDelete ?ps) = Some zops" "tree_ops zops (seen s) = Some (seen s')"
      by (auto simp: commit_tree_def bind_eq_Some_conv)
    from commit_deletes [OF this] show ?thesis using assms(2) by (auto split: if_splits)
  qed
  then show ?thesis using Commit_tree [OF commit paths] by auto
qed (use assms(1) in \<open>auto simp: DeleteIP_def split: sum.splits\<close>)

lemma DeleteIP_table:
  assumes "DeleteIP c (req_of pool h a) s = (e, s')" "pool \<noteq> ''''" "good_host h"
  shows "table pool (seen s') = table pool (seen s)"
  using DeleteIP_frame [OF assms(1)] ip_paths_apart [OF assms(2,3)] by (intro table_outside) blast

lemma unassign_list_table:
  "unassign_list c pool h xs s = (e, s') \<Longrightarrow> pool \<noteq> '''' \<Longrightarrow> good_host h \<Longrightarrow> table pool (seen s') = table pool (seen s)"
proof (induction xs arbitrary: s)
  case (Cons x xs)
  then show ?case
    by (auto split: sum.splits prod.splits option.splits dest: DeleteIP_table)
qed simp

lemma UnassignAll_table:
  assumes "UnassignAll c pool h s = (e, s')" "pool \<noteq> ''''" "good_host h"
  shows "table pool (seen s') = table pool (seen s)"
  using assms unassign_list_table by (auto simp: UnassignAll_def split: sum.splits bool.splits)

lemma host_request_wf:
  assumes "host_request pool h x = Inr req" "plain h"
  shows "wf_req req \<and> req_PoolID req = pool \<and> req_HostID req = h"
proof -
  obtain y svc i where "ParseStateID x = Inr (y, svc, i)"
    "req = \<lparr>req_PoolID = pool, req_HostID = h, req_ServiceID = svc, req_InstanceID = i\<rparr>"
    using assms(1) by (auto simp: host_request_def split: sum.splits)
  then show ?thesis using ParseStateID_parts [of x] assms(2) by (auto simp: wf_req_def plain_def)
qed

lemma delete_states_removes:
  assumes "\<And>req s. when req s \<Longrightarrow> wf_req req \<Longrightarrow> req_PoolID req = pool \<Longrightarrow> table pool (seen s) req = None \<or> (\<exists>st. table pool (seen s) req = Some st \<and> P req st)"
    and "delete_states c (host_request pool h) when ch s = (n, s')" "plain h"
  shows "only_removes (\<lambda>req st. req_HostID req = h \<and> P req st) (table pool (seen s)) (table pool (seen s'))"
  using assms(2)
proof (induction ch arbitrary: s n)
  case (Cons x ch)
  show ?case
  proof (cases "\<exists>req. host_request pool h x = Inr req \<and> when req s")
    case True
    then obtain req where req: "host_request pool h x = Inr req" "when req s" by blast
    obtain e s1 where del: "DeleteState c req s = (e, s1)" by force
    note wf = host_request_wf [OF req(1) assms(3)]
    have "table_delete req e (table pool (seen s)) (table pool (seen s1))" using DeleteState_table [OF del] wf by auto
    then have "only_removes (\<lambda>req st. req_HostID req = h \<and> P req st) (table pool (seen s)) (table pool (seen s1))"
      using assms(1) [OF req(2)] wf by (auto simp: only_removes_def table_delete_def split: if_splits)
    moreover obtain m where "delete_states c (host_request pool h) when ch s1 = (m, s')"
      using Cons.prems req del by (auto split: option.splits prod.splits)
    ultimately show ?thesis using Cons.IH only_removes_trans by blast
  next
    case False
    then have "delete_states c (host_request pool h) when ch s = (n, s')" using Cons.prems by (auto split: sum.splits)
    then show ?thesis by (rule Cons.IH)
  qed
qed simp

lemma clean_up_removes:
  assumes "pool \<noteq> ''''" "good_host h"
  shows "only_removes (\<lambda>req st. req_HostID req = h \<and> unscheduled st) (table pool (seen s)) (table pool (seen (clean_up c pool h s)))"
proof -
  obtain e s1 where un: "UnassignAll c pool h s = (e, s1)" by force
  obtain n s2 where del: "DeleteHostStatesWhen c pool h unscheduled s1 = (n, s2)" by force
  have "only_removes (\<lambda>req st. req_HostID req = h \<and> unscheduled st) (table pool (seen s1)) (table pool (seen s2))"
  proof (cases "state_children c (instances_path pool h) s1")
    case (Inl e)
    then show ?thesis using del by (simp add: DeleteHostStatesWhen_def)
  next
    case (Inr ch)
    let ?when = "\<lambda>req s'. case GetState c req s' of Inl _ \<Rightarrow> False | Inr state \<Rightarrow> unscheduled state"
    have "delete_states c (host_request pool h) ?when ch s1 = (n, s2)" using del Inr by (simp add: DeleteHostStatesWhen_def)
    then show ?thesis
    proof (rule delete_states_removes [rotated])
      show "plain h" using assms(2) by (simp add: good_host_def)
      fix req s'
      assume "?when req s'" "wf_req req" "req_PoolID req = pool"
      then show "table pool (seen s') req = None \<or> (\<exists>st. table pool (seen s') req = Some st \<and> unscheduled st)"
        using GetState_seen [of req s'] by (auto simp: table_def split: sum.splits)
    qed
  qed
  then show ?thesis using UnassignAll_table [OF un assms] un del by (simp add: clean_up_def)
qed

end

subsection \<open>Runs of the loop\<close>

text \<open>A place, the variables of the loop, the time, and the coordinator, which others change too.\<close>

inductive registry_step :: "'s Conn \<Rightarrow> string \<Rightarrow> string \<Rightarrow> place \<times> Watch \<times> int \<times> 's \<Rightarrow> place \<times> Watch \<times> int \<times> 's \<Rightarrow> bool"
  for c pool h where
  turn: "t \<le> now \<Longrightarrow> registry_turn c pool h now v s = (p, v', s') \<Longrightarrow> registry_step c pool h (Loop, v, t, s) (p, v', now, s')"
| event: "t \<le> now \<Longrightarrow> registry_event c pool h now w ev v s = Some (p, v', s') \<Longrightarrow>
    registry_step c pool h (Waits w, v, t, s) (p, v', now, s')"
| others: "t \<le> now \<Longrightarrow> registry_step c pool h (p, v, t, s) (p, v, now, s')"

definition late :: "place \<Rightarrow> bool" where
  "late p \<longleftrightarrow> p \<in> {Waits WaitOther, Waits WaitOnline, Waits WaitSecond, Waits WaitDone}"

definition due_from :: "int \<Rightarrow> timer \<Rightarrow> bool" where
  "due_from b t \<longleftrightarrow> (\<forall>due. t = Some due \<longrightarrow> b \<le> due)"

definition timely :: "place \<Rightarrow> Watch \<Rightarrow> int \<Rightarrow> bool" where
  "timely p v t \<longleftrightarrow>
     hr_outage v \<le> t \<and>
     (late p \<or> p = Waits WaitOffline \<longrightarrow> \<not> hr_isOnline v) \<and>
     (\<not> hr_isOnline v \<longrightarrow> hr_connectionTimeout v = 0 \<or> due_from (hr_outage v + hr_connectionTimeout v) (hr_offlineTimer v)) \<and>
     (\<not> hr_isOnline v \<and> \<not> hr_firstTimeout v \<longrightarrow> due_from (hr_outage v + 2 * hr_connectionTimeout v) (hr_onlineTimer v)) \<and>
     (late p \<longrightarrow> hr_outage v + hr_connectionTimeout v \<le> t) \<and>
     (p = Waits WaitOnline \<longrightarrow> \<not> hr_firstTimeout v) \<and>
     (p = Waits WaitSecond \<or> p = Waits WaitDone \<longrightarrow> hr_outage v + 2 * hr_connectionTimeout v \<le> t)"

lemma timely_start: "timely Loop (watch_start now timeout) now"
  by (simp add: timely_def watch_start_def late_def)

lemma registry_turn_places:
  assumes "registry_turn c pool h now v s = (p, v', s')"
  shows "(p = Returned \<and> v' = v) \<or> (\<exists>b timeout l r. v' = set_online now timeout b v \<and>
    (p = Returned \<or> p = Waits (where_to_wait (hr_isOnline v') l r)))"
  using assms unfolding registry_turn_def registry_rest_def Let_def
  by (auto split: sum.splits bool.splits prod.splits option.splits)

lemma timely_set_online: "timely Loop v t \<Longrightarrow> t \<le> now \<Longrightarrow> timely Loop (set_online now timeout b v) now"
  by (auto simp: timely_def set_online_def late_def NewTimer_def due_from_def)

lemma timely_place: "timely Loop v t \<Longrightarrow> \<not> late p \<Longrightarrow> (p = Waits WaitOffline \<Longrightarrow> \<not> hr_isOnline v) \<Longrightarrow> timely p v t"
  by (auto simp: timely_def late_def)

lemma timely_turn:
  assumes "registry_turn c pool h now v s = (p, v', s')" "timely Loop v t" "t \<le> now"
  shows "timely p v' now"
proof -
  have "timely Loop v now" using assms(2,3) by (auto simp: timely_def late_def)
  then have "timely Returned v now" by (rule timely_place) (simp_all add: late_def)
  moreover have "timely p (set_online now timeout b v) now"
    if "p = Returned \<or> p = Waits (where_to_wait (hr_isOnline (set_online now timeout b v)) l r)" for b timeout l r
    using timely_set_online [OF assms(2,3), of timeout b]
    by (rule timely_place) (use that in \<open>auto simp: where_to_wait_def late_def split: if_splits\<close>)
  ultimately show ?thesis using registry_turn_places [OF assms(1)] by blast
qed

lemma timely_event:
  assumes "registry_event c pool h now w ev v s = Some (p, v', s')" "timely (Waits w) v t" "t \<le> now"
  shows "timely p v' now"
  using assms
  by (cases ev) (auto simp: timely_def late_def due_from_def fires_def NewTimer_def split: if_splits option.splits)

lemma timely_later: "timely p v t \<Longrightarrow> t \<le> now \<Longrightarrow> timely p v now"
  by (simp add: timely_def) linarith

abbreviation on_time :: "place \<times> Watch \<times> int \<times> 's \<Rightarrow> bool" where
  "on_time x \<equiv> timely (fst x) (fst (snd x)) (fst (snd (snd x)))"

lemma timely_step: "registry_step c pool h x y \<Longrightarrow> on_time x \<Longrightarrow> on_time y"
proof (induction rule: registry_step.induct)
  case (turn t now v s p v' s')
  then show ?case using timely_turn [OF turn(2)] by simp
next
  case (event t now w ev v s p v' s')
  then show ?case using timely_event [OF event(2)] by simp
next
  case (others t now p v s s')
  then show ?case using timely_later by simp
qed

lemma timely_reach: "(registry_step c pool h)\<^sup>*\<^sup>* x y \<Longrightarrow> on_time x \<Longrightarrow> on_time y"
  by (induction rule: rtranclp_induct) (auto intro: timely_step)


subsection \<open>What a turn does\<close>

lemma junk_apart:
  assumes "host_request pool h x = Inl e" "pool \<noteq> ''''" "good_host h" "wf_req req" "req_PoolID req = pool"
  shows "\<not> prefix (instances_path pool h @ [x]) (hspth req)" "\<not> prefix (instances_path pool h @ [x]) (sspth req)"
    "\<not> prefix (instances_path pool h @ [x]) (cspth req)"
proof -
  have "x \<noteq> StateID req" using assms(1,4) Parse_StateID_req [of req] by (auto simp: host_request_def)
  then show "\<not> prefix (instances_path pool h @ [x]) (hspth req)"
    using assms(2,3) by (auto simp: path_defs pool_base_def good_host_def prefix_def split: if_splits)
  show "\<not> prefix (instances_path pool h @ [x]) (sspth req)" "\<not> prefix (instances_path pool h @ [x]) (cspth req)"
    using assms(2,3,5) by (auto simp: path_defs pool_base_def good_host_def prefix_def split: if_splits)
qed

context state_connection
begin

lemma junk_table:
  assumes "Coordinator.Delete c (instances_path pool h @ [x]) s = (e, s')" "host_request pool h x = Inl e'" "pool \<noteq> ''''" "good_host h"
  shows "table pool (seen s') = table pool (seen s)"
proof (rule table_outside)
  fix req
  assume req: "wf_req req" "req_PoolID req = pool"
  have sh: "shrinks (instances_path pool h @ [x]) (seen s) (seen s')" using Delete_deletes [OF assms(1)] by simp
  have "seen s' q = seen s q" if "\<not> prefix (instances_path pool h @ [x]) q" for q
    using sh that unfolding shrinks_def by blast
  then show "seen s' (hspth req) = seen s (hspth req) \<and> seen s' (sspth req) = seen s (sspth req) \<and> seen s' (cspth req) = seen s (cspth req)"
    using junk_apart [OF assms(2-4) req] by blast
qed

lemma invalid_table:
  assumes "DeleteState c req s = (e, s')" "IsValidState c req s = Inr False" "wf_req req"
  shows "table (req_PoolID req) (seen s') = table (req_PoolID req) (seen s)"
proof -
  have "table (req_PoolID req) (seen s) req = None"
    using IsValidState_seen [OF assms(2)] state_of_scheduled [of "seen s" req] by (auto simp: table_def)
  then show ?thesis using DeleteState_table [OF assms(1,3)] by (auto simp: table_delete_def)
qed

lemma clean_states_table:
  "clean_states c (instances_path pool h) (host_request pool h) ch s = (e, s') \<Longrightarrow> pool \<noteq> '''' \<Longrightarrow> good_host h \<Longrightarrow>
     table pool (seen s') = table pool (seen s)"
proof (induction ch arbitrary: s)
  case (Cons x ch)
  show ?case
  proof (cases "host_request pool h x")
    case (Inl e')
    obtain e1 s1 where del: "Coordinator.Delete c (instances_path pool h @ [x]) s = (e1, s1)" by force
    have "table pool (seen s1) = table pool (seen s)" by (rule junk_table [OF del Inl Cons.prems(2,3)])
    then show ?thesis using Cons Inl del by (auto split: if_splits)
  next
    case (Inr req)
    have wf: "wf_req req" "req_PoolID req = pool"
      using host_request_wf [OF Inr] Cons.prems(3) by (auto simp: good_host_def)
    obtain e1 s1 where del: "DeleteState c req s = (e1, s1)" by force
    have "IsValidState c req s = Inr False \<Longrightarrow> table pool (seen s1) = table pool (seen s)"
      using invalid_table [OF del _ wf(1)] wf(2) by simp
    then show ?thesis using Cons Inr del by (auto split: sum.splits bool.splits option.splits)
  qed
qed simp

lemma CleanHostStates_table:
  assumes "CleanHostStates c pool h s = (e, s')" "pool \<noteq> ''''" "good_host h"
  shows "table pool (seen s') = table pool (seen s)"
  using assms clean_states_table by (auto simp: CleanHostStates_def split: sum.splits)

lemma DeleteHostStates_removes:
  assumes "plain h"
  shows "only_removes (\<lambda>req st. req_HostID req = h) (table pool (seen s)) (table pool (seen (snd (DeleteHostStates c pool h s))))"
proof (cases "state_children c (instances_path pool h) s")
  case (Inl e)
  then show ?thesis by (simp add: DeleteHostStates_def)
next
  case (Inr ch)
  obtain n s' where del: "delete_states c (host_request pool h) (\<lambda>_ _. True) ch s = (n, s')" by force
  have "only_removes (\<lambda>req st. req_HostID req = h \<and> True) (table pool (seen s)) (table pool (seen s'))"
    by (rule delete_states_removes [OF _ del assms]) (auto simp: not_None_eq)
  then show ?thesis using del Inr by (simp add: DeleteHostStates_def)
qed

lemma has_children_seen:
  assumes "has_children c p s = Inr b" "closed (seen s)"
  shows "(b = None \<longleftrightarrow> seen s p = None) \<and> (b = Some True \<longleftrightarrow> (\<exists>x. seen s (p @ [x]) \<noteq> None))"
proof (cases b)
  case None
  then have "ExistsW c p s = Inr False" using assms(1) by (auto simp: has_children_def map_sum_def split: sum.splits bool.splits)
  then have "seen s p = None" using ExistsW_seen by blast
  then show ?thesis using None closed_below [OF assms(2)] by simp
next
  case (Some d)
  then obtain ch where ch: "Coordinator.Children c p s = Inr ch" "d \<longleftrightarrow> ch \<noteq> []"
    using assms(1) by (auto simp: has_children_def map_sum_def split: sum.splits bool.splits)
  have "ch \<noteq> [] \<longleftrightarrow> (\<exists>x. seen s (p @ [x]) \<noteq> None)" using Children_seen [OF ch(1)] by (metis (mono_tags, lifting) empty_iff empty_set mem_Collect_eq neq_Nil_conv list.set_intros(1))
  then show ?thesis using Some Children_seen [OF ch(1)] ch(2) by simp
qed

end

context state_connection
begin

lemma registry_turn_effect:
  assumes "registry_turn c pool h now v s = (p, v', s')" "pool \<noteq> ''''" "good_host h" "closed (seen s)"
  shows "only_removes (\<lambda>req st. req_HostID req = h \<and> seen s (zk_host pool h [''online'']) = None) (table pool (seen s)) (table pool (seen s')) \<and>
    (\<forall>w. p = Waits w \<longrightarrow> (hr_isOnline v' \<longleftrightarrow> (\<exists>x. seen s (zk_host pool h [''online''] @ [x]) \<noteq> None)) \<and>
      (w = WaitOffer \<or> w = WaitLocked \<longleftrightarrow> hr_isOnline v'))"
proof (cases "ExistsW c (zk_host pool h []) s = Inr True \<and> (\<exists>online. has_children c (zk_host pool h [''online'']) s = Inr online)")
  case True
  then obtain online where on: "has_children c (zk_host pool h [''online'']) s = Inr online" by blast
  define s1 where "s1 = (if online = None then snd (DeleteHostStates c pool h s) else s)"
  define v1 where "v1 = set_online now (getTimeout c pool s1) (online = Some True) v"
  note seen_on = has_children_seen [OF on assms(4)]
  have rem: "only_removes (\<lambda>req st. req_HostID req = h \<and> seen s (zk_host pool h [''online'']) = None) (table pool (seen s)) (table pool (seen s1))"
    using DeleteHostStates_removes [of h pool s] assms(3) seen_on by (simp add: s1_def good_host_def)
  have v1: "hr_isOnline v1 \<longleftrightarrow> online = Some True" by (auto simp: v1_def set_online_def)
  have turn: "registry_rest c pool h v1 s1 = (p, v', s')"
    using assms(1) True on unfolding registry_turn_def Let_def by (simp add: v1_def s1_def)
  obtain e s2 where clean: "CleanHostStates c pool h s1 = (e, s2)" by force
  note same = CleanHostStates_table [OF clean assms(2,3)]
  have res: "s' = s1 \<or> s' = s2" "p = Returned \<or> (v' = v1 \<and> (\<exists>l r. p = Waits (where_to_wait (hr_isOnline v1) l r)))"
    using turn clean by (auto simp: registry_rest_def split: sum.splits option.splits)
  have "table pool (seen s') = table pool (seen s1)" using res(1) same by auto
  then show ?thesis using rem res(2) v1 seen_on by (auto simp: where_to_wait_def split: if_splits)
next
  case False
  then have "p = Returned" "s' = s" using assms(1) by (auto simp: registry_turn_def split: sum.splits bool.splits)
  then show ?thesis by simp
qed

end

text \<open>
  A turn removes complete instances only when the host has reported a clean shutdown (its node
  \<^verbatim>\<open>online\<close> is gone), and then only those of this host; cleaning up incomplete ones leaves the
  table of instances alone. Afterwards the loop takes the host for online exactly when the node
  \<^verbatim>\<open>online\<close> has a child, and only then offers it to others.
\<close>

theorem registry_turn_safe:
  assumes "connection z tree c" "pool \<noteq> ''''" "good_host h" "closed (view (c_basePath c) (tree s))"
    and "registry_turn c pool h now v s = (p, v', s')"
  shows "only_removes (\<lambda>req st. req_HostID req = h \<and> view (c_basePath c) (tree s) (zk_host pool h [''online'']) = None)
      (table pool (view (c_basePath c) (tree s))) (table pool (view (c_basePath c) (tree s'))) \<and>
    (\<forall>w. p = Waits w \<longrightarrow>
      (hr_isOnline v' \<longleftrightarrow> (\<exists>x. view (c_basePath c) (tree s) (zk_host pool h [''online''] @ [x]) \<noteq> None)) \<and>
      (w = WaitOffer \<or> w = WaitLocked \<longleftrightarrow> hr_isOnline v'))"
  by (rule state_connection.registry_turn_effect [OF state_connection.intro [OF assms(1)] assms(5,2,3,4)])

subsection \<open>An outage\<close>

definition outage_req :: StateRequest where
  "outage_req = \<lparr>req_PoolID = ''p1'', req_HostID = ''h1'', req_ServiceID = ''s1'', req_InstanceID = 0\<rparr>"

definition outage_zk :: "bool \<Rightarrow> Node mem" where
  "outage_zk online = [([], EmptyData, 0), ([''pools''], DirData, 0),
     ([''pools'', ''p1''], NodeData (PoolNodeNode (zero_ResourcePool\<lparr>rp_ID := ''p1'', rp_ConnectionTimeout := 10\<rparr>)), 0),
     ([''pools'', ''p1'', ''services''], DirData, 0), ([''pools'', ''p1'', ''services'', ''s1''], DirData, 0),
     ([''pools'', ''p1'', ''services'', ''s1'', ''h1-s1-0''], NodeData (ServiceStateNode zero_ServiceState), 0),
     ([''pools'', ''p1'', ''services'', ''s1'', ''h1-s1-0'', ''current''], NodeData (CurrentStateNode ''running''), 0),
     ([''pools'', ''p1'', ''hosts''], DirData, 0),
     ([''pools'', ''p1'', ''hosts'', ''h1''], NodeData (HostNodeNode (zero_HostData\<lparr>hd_ID := ''h1''\<rparr>)), 0),
     ([''pools'', ''p1'', ''hosts'', ''h1'', ''instances''], DirData, 0),
     ([''pools'', ''p1'', ''hosts'', ''h1'', ''instances'', ''h1-s1-0''], NodeData (HostStateNode zero_HostState), 0),
     ([''pools'', ''p1'', ''hosts'', ''h1'', ''online''], DirData, 0)] @
     (if online then [([''pools'', ''p1'', ''hosts'', ''h1'', ''online'', ''e1''], DirData, 0)] else [])"

text \<open>The host is online at time 0, its connection is gone at time 5, and the timeout is ten milliseconds.\<close>

definition watch_off :: "bool \<Rightarrow> int \<Rightarrow> int \<Rightarrow> Watch" where
  "watch_off first off on = \<lparr>hr_isOnline = False, hr_outage = 5, hr_firstTimeout = first, hr_offlineTimer = Some off,
     hr_onlineTimer = Some on, hr_connectionTimeout = 10000000\<rparr>"

lemma outage_run:
  "registry_turn sample_conn ''p1'' ''h1'' 0 (watch_start 0 0) (outage_zk True) =
     (Waits WaitOffer, (watch_start 0 0)\<lparr>hr_isOnline := True\<rparr>, outage_zk True)"
  "registry_turn sample_conn ''p1'' ''h1'' 5 ((watch_start 0 0)\<lparr>hr_isOnline := True\<rparr>) (outage_zk False) =
     (Waits WaitOffline, watch_off True 10000005 0, outage_zk False)"
  "registry_event sample_conn ''p1'' ''h1'' 10000005 WaitOffline OfflineTimer (watch_off True 10000005 0) (outage_zk False) =
     Some (Waits WaitOther, watch_off True 10000005 0, outage_zk False)"
  "registry_event sample_conn ''p1'' ''h1'' 10000005 WaitOther OtherOnline (watch_off True 10000005 0) (outage_zk False) =
     Some (Waits WaitOnline, watch_off False 10000005 20000005, outage_zk False)"
  "registry_event sample_conn ''p1'' ''h1'' 20000005 WaitOnline OnlineTimer (watch_off False 10000005 20000005) (outage_zk False) =
     Some (Waits WaitSecond, watch_off False 10000005 20000005, outage_zk False)"
  by code_simp+

lemma outage_cleans:
  "table ''p1'' (map_of (outage_zk False)) outage_req \<noteq> None"
  "table ''p1'' (map_of (clean_up sample_conn ''p1'' ''h1'' (outage_zk False))) outage_req = None"
  by code_simp+

lemma outage_reach:
  "(registry_step sample_conn ''p1'' ''h1'')\<^sup>*\<^sup>* (Loop, watch_start 0 0, 0, outage_zk True)
     (Waits WaitSecond, watch_off False 10000005 20000005, 20000005, outage_zk False)"
proof -
  let ?S = "registry_step sample_conn ''p1'' ''h1''" and ?v = "(watch_start 0 0)\<lparr>hr_isOnline := True\<rparr>"
  have "?S (Loop, watch_start 0 0, 0, outage_zk True) (Waits WaitOffer, ?v, 0, outage_zk True)"
    by (rule registry_step.turn [OF _ outage_run(1)]) simp
  moreover have "?S (Waits WaitOffer, ?v, 0, outage_zk True) (Waits WaitOffer, ?v, 5, outage_zk False)"
    by (rule registry_step.others) simp
  moreover have "?S (Waits WaitOffer, ?v, 5, outage_zk False) (Loop, ?v, 5, outage_zk False)"
    by (rule registry_step.event [of _ _ _ _ _ _ OnlineEv]) simp_all
  moreover have "?S (Loop, ?v, 5, outage_zk False) (Waits WaitOffline, watch_off True 10000005 0, 5, outage_zk False)"
    by (rule registry_step.turn [OF _ outage_run(2)]) simp
  moreover have "?S (Waits WaitOffline, watch_off True 10000005 0, 5, outage_zk False) (Waits WaitOther, watch_off True 10000005 0, 10000005, outage_zk False)"
    by (rule registry_step.event [OF _ outage_run(3)]) simp
  moreover have "?S (Waits WaitOther, watch_off True 10000005 0, 10000005, outage_zk False)
      (Waits WaitOnline, watch_off False 10000005 20000005, 10000005, outage_zk False)"
    by (rule registry_step.event [OF _ outage_run(4)]) simp
  moreover have "?S (Waits WaitOnline, watch_off False 10000005 20000005, 10000005, outage_zk False)
      (Waits WaitSecond, watch_off False 10000005 20000005, 20000005, outage_zk False)"
    by (rule registry_step.event [OF _ outage_run(5)]) simp
  ultimately show ?thesis by (meson converse_rtranclp_into_rtranclp rtranclp.rtrancl_refl)
qed


text \<open>
  A host that is already offline when the loop starts is not given the second wait: the
  timeout that it uses is only read when an outage is noticed, and is zero before.
\<close>

lemma start_offline_one_wait:
  "registry_turn sample_conn ''p1'' ''h1'' 0 (watch_start 0 (getTimeout sample_conn ''p1'' (outage_zk False))) (outage_zk False) =
     (Waits WaitOffline, watch_start 0 10000000, outage_zk False) \<and>
   (let v1 = watch_start 0 10000000;
        v2 = v1\<lparr>hr_onlineTimer := Some 10000000, hr_firstTimeout := False\<rparr>
    in registry_event sample_conn ''p1'' ''h1'' 10000000 WaitOffline OfflineTimer v1 (outage_zk False) = Some (Waits WaitOther, v1, outage_zk False) \<and>
       registry_event sample_conn ''p1'' ''h1'' 10000000 WaitOther OtherOnline v1 (outage_zk False) = Some (Waits WaitOnline, v2, outage_zk False) \<and>
       registry_event sample_conn ''p1'' ''h1'' 10000000 WaitOnline OnlineTimer v2 (outage_zk False) = Some (Waits WaitSecond, v2, outage_zk False))"
  by code_simp

theorem registry_turn_safe_witness:
  "\<exists>x. map_of (outage_zk True) [''pools'', ''p1'', ''hosts'', ''h1'', ''online'', x] \<noteq> None"
proof -
  have "closed (map_of (outage_zk True))" by (auto simp: closed_def outage_zk_def Cons_eq_append_conv)
  then show ?thesis
    using registry_turn_safe [OF sample_connection _ _ _ outage_run(1)]
    by (simp add: sample_base good_host_def plain_def ip_paths)
qed

end
