(* ===== verification/Listeners.thy ===== *)
theory Listeners
  imports Coordinator
begin

section \<open>The framework of listeners\<close>

text \<open>
  \<^verbatim>\<open>zzk/listen.go\<close> and \<^verbatim>\<open>zzk/zzk.go\<close>. \<^verbatim>\<open>Listen2\<close> and \<^verbatim>\<open>Listen\<close> keep one goroutine for every child of
  a node: a turn lists the children and spawns a goroutine for each that has none, and the loop
  waits for a change, for a goroutine that reports its end, or for the shutdown, after which
  it waits for all goroutines to report. \<^verbatim>\<open>Start\<close> runs a master listener and, beside it, a
  group of child listeners that it restarts a few times. Goroutines are the names of their
  nodes; one that has returned waits in \<open>fw_ended\<close> until the loop receives its report.
\<close>

subsection \<open>Goroutines for the children of a node\<close>

record Frame =
  fw_active :: "string list"
  fw_running :: "string list"
  fw_ended :: "string list"

datatype fplace = FLoop | FWait | FDrain | FOver

definition frame_start :: Frame where
  "frame_start = \<lparr>fw_active = [], fw_running = [], fw_ended = []\<rparr>"

fun spawn_new :: "string list \<Rightarrow> Frame \<Rightarrow> Frame" where
  "spawn_new [] fw = fw"
| "spawn_new (n # ch) fw =
     spawn_new ch
       (if n \<in> set (fw_active fw) then fw
        else fw\<lparr>fw_active := n # fw_active fw, fw_running := n # fw_running fw\<rparr>)"

text \<open>
  A turn of \<^verbatim>\<open>Listen2\<close>, and one of \<^verbatim>\<open>Listen\<close>: where the loop goes, the goroutines, and the set
  that is handed to \<^verbatim>\<open>Post\<close> or \<^verbatim>\<open>PostProcess\<close>, if it is called.
\<close>

definition Listen2_turn :: "('n, 's) Connection \<Rightarrow> zpath \<Rightarrow> 's \<Rightarrow> Frame \<Rightarrow> fplace \<times> Frame \<times> string list option" where
  "Listen2_turn c pth s fw =
     (case ExistsW c pth s of
        Inl _ \<Rightarrow> (FDrain, fw, None)
      | Inr ok \<Rightarrow>
          (case (if ok then Coordinator.Children c pth s else Inr []) of
             Inl e \<Rightarrow> (if e = ErrNoNode then FLoop else FDrain, fw, None)
           | Inr ch \<Rightarrow> (let fw = spawn_new ch fw in (FWait, fw, Some (fw_active fw)))))"

definition Listen_turn :: "('n, 's) Connection \<Rightarrow> zpath \<Rightarrow> 's \<Rightarrow> Frame \<Rightarrow> fplace \<times> Frame \<times> string list option" where
  "Listen_turn c pth s fw =
     (case Coordinator.Children c pth s of
        Inl _ \<Rightarrow> (FDrain, fw, None)
      | Inr nodes \<Rightarrow> (let fw = spawn_new nodes fw in (FWait, fw, Some (fw_active fw))))"

definition received :: "string \<Rightarrow> Frame \<Rightarrow> Frame" where
  "received n fw = fw\<lparr>fw_active := removeAll n (fw_active fw), fw_ended := remove1 n (fw_ended fw)\<rparr>"

text \<open>
  The events: the watch fires with the type of its event, a goroutine reports, the shutdown
  is signalled. In \<^verbatim>\<open>Listen2\<close> a shutdown that is pending takes precedence over any event; in
  \<^verbatim>\<open>Listen\<close> the listener has to be ready again after a new session.
\<close>

datatype watch_event = NodeDeleted | Session | OtherChange

datatype fevent = Watch watch_event | Report string | Shutdown

definition Listen2_event :: "fevent \<Rightarrow> bool \<Rightarrow> Frame \<Rightarrow> (fplace \<times> Frame) option" where
  "Listen2_event ev shutdown fw =
     (let next = (if shutdown then FDrain else FLoop) in
      case ev of
        Watch _ \<Rightarrow> Some (next, fw)
      | Report n \<Rightarrow> if n \<in> set (fw_ended fw) then Some (next, received n fw) else None
      | Shutdown \<Rightarrow> if shutdown then Some (FDrain, fw) else None)"

definition Listen_event :: "fevent \<Rightarrow> bool \<Rightarrow> bool \<Rightarrow> Frame \<Rightarrow> (fplace \<times> Frame) option" where
  "Listen_event ev shutdown ready fw =
     (case ev of
        Watch NodeDeleted \<Rightarrow> Some (FDrain, fw)
      | Watch Session \<Rightarrow> Some (if ready then FLoop else FDrain, fw)
      | Watch OtherChange \<Rightarrow> Some (FLoop, fw)
      | Report n \<Rightarrow> if n \<in> set (fw_ended fw) then Some (FLoop, received n fw) else None
      | Shutdown \<Rightarrow> if shutdown then Some (FDrain, fw) else None)"

text \<open>The deferred loop that waits for all goroutines.\<close>

definition drain :: "string option \<Rightarrow> Frame \<Rightarrow> (fplace \<times> Frame) option" where
  "drain report fw =
     (if fw_active fw = [] then Some (FOver, fw)
      else (case report of
              Some n \<Rightarrow> if n \<in> set (fw_ended fw) then Some (FDrain, received n fw) else None
            | None \<Rightarrow> None))"

subsection \<open>Starting listeners together\<close>

definition retryLimit :: nat where
  "retryLimit = 2"

text \<open>
  The states of \<^verbatim>\<open>Start\<close>: waiting for the master to be ready, running, returning (its deferred
  calls close the children's channel and wait for the children and the master), returned.
  The goroutine of the children: not started, in its i-th run, over. \<open>st_closed\<close> is the channel
  \<^verbatim>\<open>_shutdown\<close>.
\<close>

datatype start_place = AwaitReady | Run | Unwind | Back

datatype child_place = NoChild | ChildRun nat | ChildOver

record Starting =
  st_place :: start_place
  st_child :: child_place
  st_master :: bool
  st_closed :: bool
  st_shutdown :: bool

definition start_begin :: Starting where
  "start_begin = \<lparr>st_place = AwaitReady, st_child = NoChild, st_master = True, st_closed = False, st_shutdown = False\<rparr>"

text \<open>A group of child listeners has ended; it is restarted unless the shutdown was signalled.\<close>

definition child_ends :: "nat \<Rightarrow> bool \<Rightarrow> child_place" where
  "child_ends i over = (if over then ChildOver else if i + 1 \<le> retryLimit then ChildRun (i + 1) else ChildOver)"

inductive start_step :: "Starting \<Rightarrow> Starting \<Rightarrow> bool" where
  signal: "start_step x (x\<lparr>st_shutdown := True\<rparr>)"
| master_ends: "st_master x \<Longrightarrow> start_step x (x\<lparr>st_master := False\<rparr>)"
| group_ends: "st_child x = ChildRun i \<Longrightarrow> start_step x (x\<lparr>st_child := child_ends i (st_closed x)\<rparr>)"
| ready: "st_place x = AwaitReady \<Longrightarrow> start_step x (x\<lparr>st_place := Run, st_child := ChildRun 0\<rparr>)"
| not_ready: "st_place x = AwaitReady \<Longrightarrow> start_step x (x\<lparr>st_place := Unwind\<rparr>)"
| early: "st_place x = AwaitReady \<Longrightarrow> \<not> st_master x \<or> st_shutdown x \<Longrightarrow> start_step x (x\<lparr>st_place := Run\<rparr>)"
| stop: "st_place x = Run \<Longrightarrow> \<not> st_master x \<or> st_shutdown x \<Longrightarrow> start_step x (x\<lparr>st_place := Unwind, st_closed := True\<rparr>)"
| leaves: "st_place x = Unwind \<Longrightarrow> st_child x \<in> {NoChild, ChildOver} \<Longrightarrow> \<not> st_master x \<Longrightarrow> start_step x (x\<lparr>st_place := Back\<rparr>)"

subsection \<open>One goroutine for a node, and none left behind\<close>

text \<open>
  Runs of \<^verbatim>\<open>Listen2\<close> (\<open>two\<close>) or of \<^verbatim>\<open>Listen\<close>, over any states of the coordinator. A goroutine
  returns at any time; the last component is the set of the last call of \<^verbatim>\<open>Post\<close>.
\<close>

type_synonym fstate = "fplace \<times> Frame \<times> string list option"

inductive fw_step :: "('n, 's) Connection \<Rightarrow> zpath \<Rightarrow> bool \<Rightarrow> fstate \<Rightarrow> fstate \<Rightarrow> bool" for c pth two where
  turn: "(if two then Listen2_turn else Listen_turn) c pth s fw = x \<Longrightarrow> fw_step c pth two (FLoop, fw, p) x"
| event: "(if two then Listen2_event ev shutdown fw else Listen_event ev shutdown ready fw) = Some (q, fw') \<Longrightarrow>
    fw_step c pth two (FWait, fw, p) (q, fw', None)"
| drain: "drain report fw = Some (q, fw') \<Longrightarrow> fw_step c pth two (FDrain, fw, p) (q, fw', None)"
| returns: "n \<in> set (fw_running fw) \<Longrightarrow>
    fw_step c pth two (q, fw, p) (q, fw\<lparr>fw_running := remove1 n (fw_running fw), fw_ended := n # fw_ended fw\<rparr>, None)"

inductive_cases fw_drainE: "fw_step c pth two (FDrain, fw, p) y"

definition frame_inv :: "Frame \<Rightarrow> bool" where
  "frame_inv fw \<longleftrightarrow> distinct (fw_active fw) \<and> distinct (fw_running fw @ fw_ended fw) \<and>
     set (fw_active fw) = set (fw_running fw) \<union> set (fw_ended fw)"

definition fstate_inv :: "fstate \<Rightarrow> bool" where
  "fstate_inv x \<longleftrightarrow> (case x of (q, fw, p) \<Rightarrow> frame_inv fw \<and> (\<forall>ps. p = Some ps \<longrightarrow> ps = fw_active fw) \<and> (q = FOver \<longrightarrow> fw_active fw = []))"

lemma frame_start_inv: "frame_inv frame_start"
  by (simp add: frame_inv_def frame_start_def)

lemma spawn_new_inv: "frame_inv fw \<Longrightarrow> frame_inv (spawn_new ch fw) \<and> set (fw_active (spawn_new ch fw)) = set (fw_active fw) \<union> set ch"
proof (induction ch fw rule: spawn_new.induct)
  case (2 n ch fw)
  let ?fw = "if n \<in> set (fw_active fw) then fw else fw\<lparr>fw_active := n # fw_active fw, fw_running := n # fw_running fw\<rparr>"
  have "frame_inv ?fw" using 2(2) by (auto simp: frame_inv_def)
  then show ?case using 2(1) by auto
qed simp

lemma received_inv: "frame_inv fw \<Longrightarrow> n \<in> set (fw_ended fw) \<Longrightarrow> frame_inv (received n fw)"
  by (auto simp: frame_inv_def received_def distinct_remove1 set_remove1_eq distinct_removeAll)

lemma returns_inv:
  "frame_inv fw \<Longrightarrow> n \<in> set (fw_running fw) \<Longrightarrow>
     frame_inv (fw\<lparr>fw_running := remove1 n (fw_running fw), fw_ended := n # fw_ended fw\<rparr>)"
  by (auto simp: frame_inv_def distinct_remove1 set_remove1_eq)

lemma turn_inv:
  assumes "(if two then Listen2_turn else Listen_turn) c pth s fw = x" "frame_inv fw"
  shows "fstate_inv x"
  using assms spawn_new_inv [OF assms(2)]
  by (auto simp: Listen2_turn_def Listen_turn_def fstate_inv_def Let_def split: sum.splits if_splits)

lemma event_inv:
  assumes "(if two then Listen2_event ev shutdown fw else Listen_event ev shutdown ready fw) = Some (q, fw')" "frame_inv fw"
  shows "frame_inv fw' \<and> q \<noteq> FOver"
  using assms received_inv [OF assms(2)]
  by (auto simp: Listen2_event_def Listen_event_def Let_def split: fevent.splits watch_event.splits if_splits)

lemma drain_inv: "drain report fw = Some (q, fw') \<Longrightarrow> frame_inv fw \<Longrightarrow> frame_inv fw' \<and> (q = FOver \<longrightarrow> fw_active fw' = [])"
  using received_inv by (auto simp: drain_def split: if_splits option.splits)

lemma fw_step_inv: "fw_step c pth two x y \<Longrightarrow> fstate_inv x \<Longrightarrow> fstate_inv y"
proof (induction rule: fw_step.induct)
  case (turn s fw x p)
  then show ?case using turn_inv [OF turn(1)] by (simp add: fstate_inv_def)
next
  case (event ev shutdown fw ready q fw' p)
  then show ?case using event_inv [OF event(1)] by (simp add: fstate_inv_def)
next
  case (drain report fw q fw' p)
  then show ?case using drain_inv [OF drain(1)] by (simp add: fstate_inv_def)
next
  case (returns n fw q p)
  then show ?case using returns_inv [OF _ returns(1)] by (auto simp: fstate_inv_def frame_inv_def)
qed

lemma fw_reach_inv: "(fw_step c pth two)\<^sup>*\<^sup>* x y \<Longrightarrow> fstate_inv x \<Longrightarrow> fstate_inv y"
  by (induction rule: rtranclp_induct) (auto intro: fw_step_inv)

text \<open>
  C13. In every run of a listener each child of the node has at most one goroutine; the set that is
  handed to the listener for post-processing contains every goroutine that still runs; and
  when the listener returns, all of its goroutines have returned.
\<close>

theorem listener_goroutines:
  assumes "(fw_step c pth two)\<^sup>*\<^sup>* (FLoop, frame_start, None) (q, fw, p)"
  shows "distinct (fw_running fw @ fw_ended fw) \<and> (\<forall>ps. p = Some ps \<longrightarrow> set (fw_running fw) \<subseteq> set ps) \<and>
    (q = FOver \<longrightarrow> fw_running fw = [] \<and> fw_ended fw = [])"
proof -
  have "fstate_inv (q, fw, p)" using fw_reach_inv [OF assms] frame_start_inv by (simp add: fstate_inv_def)
  then show ?thesis by (auto simp: fstate_inv_def frame_inv_def)
qed

definition drain_left :: "fstate \<Rightarrow> nat" where
  "drain_left x = (case x of (q, fw, p) \<Rightarrow> if q = FOver then 2 * length (fw_running fw) + length (fw_ended fw) else
     1 + 2 * length (fw_running fw) + length (fw_ended fw))"

lemma drain_nearer:
  assumes "fw_step c pth two (FDrain, fw, p) y"
  shows "fst y \<in> {FDrain, FOver} \<and> drain_left y < drain_left (FDrain, fw, p)"
  using assms
proof (rule fw_drainE)
  fix report q fw'
  assume "y = (q, fw', None)" "drain report fw = Some (q, fw')"
  then show ?thesis
    by (auto simp: drain_def received_def drain_left_def length_remove1 split: if_splits option.splits)
      (metis diff_less length_pos_if_in_set lessI)
next
  fix n
  assume y: "y = (FDrain, fw\<lparr>fw_running := remove1 n (fw_running fw), fw_ended := n # fw_ended fw\<rparr>, None)" "n \<in> set (fw_running fw)"
  then obtain m where "length (fw_running fw) = Suc m" using length_pos_if_in_set gr0_conv_Suc by metis
  then show ?thesis using y by (simp add: drain_left_def length_remove1)
qed

lemma drain_steps:
  assumes "fstate_inv (FDrain, fw, p)"
  shows "\<exists>y. fw_step c pth two (FDrain, fw, p) y"
proof -
  have "set (fw_active fw) = set (fw_running fw) \<union> set (fw_ended fw)" using assms by (simp add: fstate_inv_def frame_inv_def)
  then consider "fw_active fw = []" | n where "n \<in> set (fw_running fw)" | n where "n \<in> set (fw_ended fw)" "fw_active fw \<noteq> []"
    by (cases "fw_active fw") auto
  then show ?thesis
  proof cases
    case 1
    then have "drain None fw = Some (FOver, fw)" by (simp add: drain_def)
    then show ?thesis by (blast intro: fw_step.drain)
  next
    case 2
    then show ?thesis by (blast intro: fw_step.returns)
  next
    case (3 n)
    then have "drain (Some n) fw = Some (FDrain, received n fw)" by (simp add: drain_def)
    then show ?thesis by (blast intro: fw_step.drain)
  qed
qed

lemma drain_reaches_end:
  assumes "fstate_inv (FDrain, fw, p)"
  shows "\<exists>fw'. (fw_step c pth two)\<^sup>*\<^sup>* (FDrain, fw, p) (FOver, fw', None)"
  using assms
proof (induction "drain_left (FDrain, fw, p)" arbitrary: fw p rule: less_induct)
  case less
  obtain q fw' p' where y: "fw_step c pth two (FDrain, fw, p) (q, fw', p')" using drain_steps [OF less.prems] by (metis prod.exhaust)
  have "p' = None" using y by (cases rule: fw_drainE) auto
  note near = drain_nearer [OF y]
  show ?case
  proof (cases "q = FOver")
    case True
    then show ?thesis using y \<open>p' = None\<close> by blast
  next
    case False
    then have q: "q = FDrain" using near by simp
    from less.hyps [of fw' p'] near fw_step_inv [OF y less.prems]
    obtain fw'' where "(fw_step c pth two)\<^sup>*\<^sup>* (FDrain, fw', p') (FOver, fw'', None)" unfolding q by blast
    then show ?thesis using y unfolding q by (metis converse_rtranclp_into_rtranclp)
  qed
qed


subsection \<open>A group of listeners\<close>

definition start_inv :: "Starting \<Rightarrow> bool" where
  "start_inv x \<longleftrightarrow> (st_place x = Back \<longrightarrow> \<not> st_master x \<and> (\<forall>i. st_child x \<noteq> ChildRun i)) \<and>
     (\<forall>i. st_child x = ChildRun i \<longrightarrow> i \<le> retryLimit) \<and> (st_place x = AwaitReady \<longrightarrow> st_child x = NoChild)"

lemma start_step_inv: "start_step x y \<Longrightarrow> start_inv x \<Longrightarrow> start_inv y"
  by (induction rule: start_step.induct) (auto simp: start_inv_def child_ends_def split: if_splits)

lemma start_reach_inv: "start_step\<^sup>*\<^sup>* x y \<Longrightarrow> start_inv x \<Longrightarrow> start_inv y"
  by (induction rule: rtranclp_induct) (auto intro: start_step_inv)

text \<open>
  The group of child listeners is run at most three times, and \<^verbatim>\<open>Start\<close> returns only after the
  master and every run of the children have ended. But that the children have ended for good
  is never noticed: the channel that \<^verbatim>\<open>Start\<close> waits on is another variable than the one that
  they close, so that it stays where it is until the master ends or the shutdown is signalled.
\<close>

theorem Start_waits:
  assumes "start_step\<^sup>*\<^sup>* start_begin x"
  shows "(\<forall>i. st_child x = ChildRun i \<longrightarrow> i < 3) \<and>
    (st_place x = Back \<longrightarrow> \<not> st_master x \<and> (\<forall>i. st_child x \<noteq> ChildRun i)) \<and>
    (st_place x = Run \<and> st_child x = ChildOver \<and> st_master x \<and> \<not> st_shutdown x \<longrightarrow>
      (\<forall>y. start_step x y \<longrightarrow> st_place y = Run \<and> (\<not> st_master y \<or> st_shutdown y)))"
proof -
  have "start_inv x" using start_reach_inv [OF assms] by (simp add: start_inv_def start_begin_def)
  moreover have "st_place y = Run \<and> (\<not> st_master y \<or> st_shutdown y)"
    if "start_step x y" "st_place x = Run" "st_child x = ChildOver" "st_master x" "\<not> st_shutdown x" for y
    using that by (cases rule: start_step.cases) auto
  ultimately show ?thesis by (auto simp: start_inv_def retryLimit_def)
qed

lemma children_die_unnoticed:
  "\<exists>x. start_step\<^sup>*\<^sup>* start_begin x \<and> st_place x = Run \<and> st_child x = ChildOver \<and> st_master x \<and> \<not> st_shutdown x"
proof -
  let ?x = "\<lambda>p ch. \<lparr>st_place = p, st_child = ch, st_master = True, st_closed = False, st_shutdown = False\<rparr>"
  have "start_step start_begin (?x Run (ChildRun 0))" using start_step.ready [of start_begin] by (simp add: start_begin_def)
  moreover have "start_step (?x Run (ChildRun 0)) (?x Run (ChildRun 1))"
    using start_step.group_ends [of "?x Run (ChildRun 0)" 0] by (simp add: child_ends_def retryLimit_def)
  moreover have "start_step (?x Run (ChildRun 1)) (?x Run (ChildRun 2))"
    using start_step.group_ends [of "?x Run (ChildRun 1)" 1] by (simp add: child_ends_def retryLimit_def numeral_2_eq_2)
  moreover have "start_step (?x Run (ChildRun 2)) (?x Run ChildOver)"
    using start_step.group_ends [of "?x Run (ChildRun 2)" 2] by (simp add: child_ends_def retryLimit_def)
  ultimately have "start_step\<^sup>*\<^sup>* start_begin (?x Run ChildOver)"
    by (meson converse_rtranclp_into_rtranclp rtranclp.rtrancl_refl)
  then show ?thesis by (intro exI [of _ "?x Run ChildOver"]) simp
qed

subsection \<open>A node with two children\<close>

definition two_tree :: "string mem" where
  "two_tree = [([], EmptyData, 0), ([''a''], DirData, 0), ([''a'', ''x''], DirData, 0), ([''a'', ''y''], DirData, 0)]"

abbreviation two_conn :: "(string, string mem) Connection" where
  "two_conn \<equiv> mem_connection (\<lambda>_. False) [] 3"

definition two_frame :: Frame where
  "two_frame = \<lparr>fw_active = [''y'', ''x''], fw_running = [''y'', ''x''], fw_ended = []\<rparr>"

lemma two_reach:
  "(fw_step two_conn [''a''] True)\<^sup>*\<^sup>* (FLoop, frame_start, None) (FWait, two_frame, Some [''y'', ''x''])"
  "(fw_step two_conn [''a''] True)\<^sup>*\<^sup>* (FLoop, frame_start, None) (FDrain, two_frame, None)"
proof -
  have "Listen2_turn two_conn [''a''] two_tree frame_start = (FWait, two_frame, Some [''y'', ''x''])" by code_simp
  then have "fw_step two_conn [''a''] True (FLoop, frame_start, None) (FWait, two_frame, Some [''y'', ''x''])"
    by (intro fw_step.turn) simp
  then show one: "(fw_step two_conn [''a''] True)\<^sup>*\<^sup>* (FLoop, frame_start, None) (FWait, two_frame, Some [''y'', ''x''])" by blast
  have "fw_step two_conn [''a''] True (FWait, two_frame, Some [''y'', ''x'']) (FDrain, two_frame, None)"
    by (rule fw_step.event [of _ Shutdown True]) (simp add: Listen2_event_def)
  then show "(fw_step two_conn [''a''] True)\<^sup>*\<^sup>* (FLoop, frame_start, None) (FDrain, two_frame, None)"
    using one by (rule rtranclp.rtrancl_into_rtrancl [rotated])
qed

theorem listener_goroutines_witness: "set (fw_running two_frame) \<subseteq> set [''y'', ''x'']"
  using listener_goroutines [OF two_reach(1)] by simp


theorem Start_waits_witness: "\<exists>x. st_place x = Run \<and> st_child x = ChildOver \<and> (\<forall>y. start_step x y \<longrightarrow> st_place y = Run)"
  using children_die_unnoticed Start_waits by blast

end
