(* ===== verification/Circular.thy ===== *)
theory Circular
  imports Prelude
begin

section \<open>The circular buffer\<close>

text \<open>
  The byte buffer of \<^verbatim>\<open>commons/circular/buffer.go\<close>: an array of one slot more than the
  buffer may hold, a read and a write position that go round it, and the empty buffer
  told from the full one by the slot that is never used. An index outside the array and a
  remainder by zero are panics, the value \<^term>\<open>None\<close>. The locale \<open>last_bytes\<close> is what the
  buffer promises: a queue that keeps the last bytes written to it. Its lemmas carry the
  loops of \<^verbatim>\<open>Write\<close> and \<^verbatim>\<open>Read\<close>.
\<close>

subsection \<open>The data and the operations\<close>

type_synonym byte = "8 word"

record Buffer =
  buf_size :: int
  buf_start :: int
  buf_end :: int
  buf_bytes :: "byte list"

text \<open>
  \<^verbatim>\<open>make([]byte, n)\<close> panics for a negative length; the sum \<^verbatim>\<open>size + 1\<close> is one of 64 bits,
  so that the largest integer gives a negative length.
\<close>

definition NewBuffer :: "int \<Rightarrow> Buffer option" where
  "NewBuffer sz =
     (let n = (if sz = 2 ^ 63 - 1 then - (2 ^ 63) else sz + 1)
      in if n < 0 then None
         else Some \<lparr>buf_size = n, buf_start = 0, buf_end = 0, buf_bytes = replicate (nat n) 0\<rparr>)"

definition in_array :: "int \<Rightarrow> 'a list \<Rightarrow> bool" where
  "in_array i xs = (0 \<le> i \<and> i < int (length xs))"

definition IsEmpty :: "Buffer \<Rightarrow> bool" where
  "IsEmpty b = (buf_end b = buf_start b)"

definition IsFull :: "Buffer \<Rightarrow> bool option" where
  "IsFull b = (if buf_size b = 0 then None else Some ((buf_end b + 1) mod buf_size b = buf_start b))"

definition writebyte :: "byte \<Rightarrow> Buffer \<Rightarrow> Buffer option" where
  "writebyte bbyte b =
     (if \<not> in_array (buf_end b) (buf_bytes b) \<or> buf_size b = 0 then None
      else let b = b\<lparr>buf_bytes := (buf_bytes b)[nat (buf_end b) := bbyte]\<rparr>;
               b = b\<lparr>buf_end := (buf_end b + 1) mod buf_size b\<rparr>
           in Some (if buf_end b = buf_start b then b\<lparr>buf_start := (buf_start b + 1) mod buf_size b\<rparr>
                    else b))"

definition readbyte :: "Buffer \<Rightarrow> (byte \<times> Buffer) option" where
  "readbyte b =
     (if \<not> in_array (buf_start b) (buf_bytes b) \<or> buf_size b = 0 then None
      else Some (buf_bytes b ! nat (buf_start b),
                 b\<lparr>buf_start := (buf_start b + 1) mod buf_size b\<rparr>))"

fun Write_loop :: "byte list \<Rightarrow> Buffer \<Rightarrow> Buffer option" where
  "Write_loop [] b = Some b"
| "Write_loop (bbyte # p) b =
     (case writebyte bbyte b of None \<Rightarrow> None | Some b \<Rightarrow> Write_loop p b)"

definition Write :: "byte list \<Rightarrow> Buffer \<Rightarrow> (nat \<times> Buffer) option" where
  "Write p b = map_option (\<lambda>b. (length p, b)) (Write_loop p b)"

text \<open>The loop of \<^verbatim>\<open>Read\<close> from index \<open>i\<close>: it fills \<open>p\<close> from there and counts the bytes.\<close>

function Read_loop :: "nat \<Rightarrow> byte list \<Rightarrow> nat \<Rightarrow> Buffer \<Rightarrow> (nat \<times> byte list \<times> Buffer) option" where
  "Read_loop i p n b =
     (if i < length p then
        if IsEmpty b then Some (n, p, b)
        else case readbyte b of
          None \<Rightarrow> None
        | Some (bbyte, b) \<Rightarrow> Read_loop (i + 1) (p[i := bbyte]) (n + 1) b
      else Some (n, p, b))"
  by pat_completeness auto
termination by (relation "measure (\<lambda>(i, p, n, b). length p - i)") auto

declare Read_loop.simps [simp del]

definition Read :: "byte list \<Rightarrow> Buffer \<Rightarrow> (nat \<times> byte list \<times> Buffer) option" where
  "Read p b = Read_loop 0 p 0 b"

subsection \<open>What the buffer promises\<close>

text \<open>
  The bytes that a buffer holds, oldest first, its capacity, and the last \<open>n\<close> elements
  of a list.
\<close>

definition buf_len :: "Buffer \<Rightarrow> nat" where
  "buf_len b = nat ((buf_end b - buf_start b) mod buf_size b)"

definition buf_pos :: "Buffer \<Rightarrow> nat \<Rightarrow> int" where
  "buf_pos b i = (buf_start b + int i) mod buf_size b"

definition buf_at :: "Buffer \<Rightarrow> nat \<Rightarrow> byte" where
  "buf_at b i = buf_bytes b ! nat (buf_pos b i)"

definition contents :: "Buffer \<Rightarrow> byte list" where
  "contents b = map (buf_at b) [0..<buf_len b]"

definition capacity :: "Buffer \<Rightarrow> nat" where
  "capacity b = nat (buf_size b - 1)"

definition buf_inv :: "Buffer \<Rightarrow> bool" where
  "buf_inv b = (0 < buf_size b \<and> int (length (buf_bytes b)) = buf_size b \<and>
     0 \<le> buf_start b \<and> buf_start b < buf_size b \<and> 0 \<le> buf_end b \<and> buf_end b < buf_size b)"

definition last_n :: "nat \<Rightarrow> 'a list \<Rightarrow> 'a list" where
  "last_n n xs = drop (length xs - n) xs"

lemma last_n_append: "last_n n (last_n n xs @ ys) = last_n n (xs @ ys)"
  by (cases "n \<le> length xs") (auto simp: last_n_def add.commute)

lemma last_n_short: "length xs \<le> n \<Longrightarrow> last_n n xs = xs"
  by (simp add: last_n_def)

lemma length_last_n: "length (last_n n xs) = min n (length xs)"
  by (simp add: last_n_def)

lemma Read_loop_simps:
  "Read_loop i p n b =
     (if length p \<le> i \<or> IsEmpty b then Some (n, p, b)
      else case readbyte b of
        None \<Rightarrow> None
      | Some (bbyte, b) \<Rightarrow> Read_loop (Suc i) (p[i := bbyte]) (Suc n) b)"
  by (subst Read_loop.simps) (auto split: option.splits)

locale last_bytes =
  fixes inv :: "'b \<Rightarrow> bool"
    and held :: "'b \<Rightarrow> 'x list"
    and cap :: "'b \<Rightarrow> nat"
    and put :: "'x \<Rightarrow> 'b \<Rightarrow> 'b option"
    and get :: "'b \<Rightarrow> ('x \<times> 'b) option"
  assumes bounded: "inv b \<Longrightarrow> length (held b) \<le> cap b"
    and put_held: "inv b \<Longrightarrow>
      \<exists>b'. put x b = Some b' \<and> inv b' \<and> cap b' = cap b \<and> held b' = last_n (cap b) (held b @ [x])"
    and get_held: "inv b \<Longrightarrow> held b = x # xs \<Longrightarrow>
      \<exists>b'. get b = Some (x, b') \<and> inv b' \<and> cap b' = cap b \<and> held b' = xs"
begin

fun puts :: "'x list \<Rightarrow> 'b \<Rightarrow> 'b option" where
  "puts [] b = Some b"
| "puts (x # xs) b = (case put x b of None \<Rightarrow> None | Some b' \<Rightarrow> puts xs b')"

fun gets :: "nat \<Rightarrow> 'b \<Rightarrow> ('x list \<times> 'b) option" where
  "gets 0 b = Some ([], b)"
| "gets (Suc n) b =
     (if held b = [] then Some ([], b)
      else case get b of
        None \<Rightarrow> None
      | Some (x, b') \<Rightarrow> map_option (\<lambda>(xs, b''). (x # xs, b'')) (gets n b'))"

lemma puts_held:
  "inv b \<Longrightarrow> \<exists>b'. puts xs b = Some b' \<and> inv b' \<and> cap b' = cap b \<and> held b' = last_n (cap b) (held b @ xs)"
proof (induction xs arbitrary: b)
  case Nil
  then show ?case using bounded by (simp add: last_n_short)
next
  case (Cons x xs)
  obtain b1 where b1: "put x b = Some b1" "inv b1" "cap b1 = cap b" "held b1 = last_n (cap b) (held b @ [x])"
    using put_held [OF Cons.prems] by blast
  with Cons.IH [OF b1(2)] show ?case by (auto simp: last_n_append)
qed

lemma gets_held:
  "inv b \<Longrightarrow> \<exists>b'. gets n b = Some (take n (held b), b') \<and> inv b' \<and> cap b' = cap b \<and> held b' = drop n (held b)"
proof (induction n arbitrary: b)
  case (Suc n)
  show ?case
  proof (cases "held b")
    case (Cons x xs)
    then obtain b1 where b1: "get b = Some (x, b1)" "inv b1" "cap b1 = cap b" "held b1 = xs"
      using get_held [OF Suc.prems] by blast
    with Suc.IH [OF b1(2)] Cons show ?thesis by auto
  qed (use Suc.prems in auto)
qed auto

end

subsection \<open>The array implements the promise\<close>

lemma ring_sub:
  fixes n s e :: int
  assumes "0 \<le> s" "s < n" "0 \<le> e" "e < n"
  shows "(e - s) mod n = (if s \<le> e then e - s else e - s + n)"
proof -
  have "(e - s) mod n = (e - s + n) mod n" by simp
  then show ?thesis using assms by (auto simp: mod_pos_pos_trivial simp del: mod_add_self2)
qed

lemma ring_add:
  fixes n s i :: int
  assumes "0 \<le> s" "s < n" "0 \<le> i" "i \<le> n"
  shows "(s + i) mod n = (if s + i < n then s + i else s + i - n)"
proof -
  have "(s + i) mod n = (s + i - n) mod n" by simp
  then show ?thesis using assms by (auto simp: mod_pos_pos_trivial simp del: minus_mod_self2)
qed

lemma buf_len_eq:
  "buf_inv b \<Longrightarrow> int (buf_len b) =
     (if buf_start b \<le> buf_end b then buf_end b - buf_start b else buf_end b - buf_start b + buf_size b)"
  using ring_sub [of "buf_start b" "buf_size b" "buf_end b"] by (simp add: buf_len_def buf_inv_def)

lemma buf_pos_eq:
  "buf_inv b \<Longrightarrow> i \<le> buf_len b \<Longrightarrow>
     buf_pos b i = (if buf_start b + int i < buf_size b then buf_start b + int i
                    else buf_start b + int i - buf_size b)"
  using ring_add [of "buf_start b" "buf_size b" "int i"] buf_len_eq [of b]
  by (auto simp: buf_pos_def buf_inv_def split: if_splits)

lemma buf_pos_nonneg: "buf_inv b \<Longrightarrow> 0 \<le> buf_pos b i"
  by (simp add: buf_pos_def buf_inv_def)

lemma buf_pos_end: "buf_inv b \<Longrightarrow> i \<le> buf_len b \<Longrightarrow> buf_pos b i = buf_end b \<longleftrightarrow> i = buf_len b"
  using buf_pos_eq [of b i] buf_len_eq [of b] by (auto simp: buf_inv_def split: if_splits)

lemma contents_empty: "buf_inv b \<Longrightarrow> contents b = [] \<longleftrightarrow> IsEmpty b"
  using buf_len_eq [of b] by (auto simp: contents_def IsEmpty_def buf_inv_def split: if_splits)

lemma contents_bounded: "buf_inv b \<Longrightarrow> length (contents b) \<le> capacity b"
  using buf_len_eq [of b] by (auto simp: contents_def capacity_def buf_inv_def split: if_splits)

lemma IsFull_iff: "buf_inv b \<Longrightarrow> IsFull b = Some (length (contents b) = capacity b)"
  using buf_len_eq [of b] ring_add [of "buf_end b" "buf_size b" 1]
  by (auto simp: contents_def capacity_def IsFull_def buf_inv_def split: if_splits)

lemma writebyte_contents:
  assumes "buf_inv b"
  shows "\<exists>b'. writebyte x b = Some b' \<and> buf_inv b' \<and> capacity b' = capacity b \<and>
     contents b' = last_n (capacity b) (contents b @ [x])"
proof -
  define b' where "b' = the (writebyte x b)"
  have ok: "writebyte x b = Some b'" "buf_inv b'" "buf_size b' = buf_size b"
    "buf_bytes b' = (buf_bytes b)[nat (buf_end b) := x]"
    "buf_end b' = (if buf_end b + 1 < buf_size b then buf_end b + 1 else 0)"
    "buf_start b' = (if buf_end b' = buf_start b then (buf_start b + 1) mod buf_size b else buf_start b)"
    "(buf_start b + 1) mod buf_size b = (if buf_start b + 1 < buf_size b then buf_start b + 1 else 0)"
    using assms ring_add [of "buf_end b" "buf_size b" 1] ring_add [of "buf_start b" "buf_size b" 1]
    by (auto simp: b'_def writebyte_def in_array_def buf_inv_def Let_def split: if_splits)
  define full where "full \<longleftrightarrow> buf_end b' = buf_start b"
  have len: "int (buf_len b') = int (buf_len b) + (if full then 0 else 1)"
    using buf_len_eq [OF assms] buf_len_eq [OF ok(2)] ok(3,5,6,7) assms by (auto simp: full_def buf_inv_def)
  have cap: "length (contents b @ [x]) - capacity b = (if full then 1 else 0)"
    using buf_len_eq [OF assms] ok(5) assms
    by (auto simp: full_def buf_inv_def contents_def capacity_def split: if_splits)
  have at: "buf_at b' i = (contents b @ [x]) ! (i + (if full then 1 else 0))" if "i < buf_len b'" for i
  proof -
    let ?j = "i + (if full then 1 else 0)"
    have j: "?j \<le> buf_len b" using that len by auto
    have "buf_pos b' i = buf_pos b ?j"
      using assms ok(3,6) by (auto simp: buf_pos_def full_def buf_inv_def mod_simps algebra_simps)
    then have "buf_at b' i = (buf_bytes b)[nat (buf_end b) := x] ! nat (buf_pos b ?j)"
      by (simp add: buf_at_def ok(4))
    then show ?thesis
      using j buf_pos_end [OF assms j] assms buf_pos_nonneg [OF assms, of i] buf_pos_nonneg [OF assms, of "Suc i"]
      by (auto simp: contents_def nth_append nth_list_update buf_at_def buf_inv_def nat_eq_iff)
  qed
  have "contents b' = last_n (capacity b) (contents b @ [x])"
    by (rule nth_equalityI)
      (use len cap at in \<open>auto simp: last_n_def contents_def nth_append split: if_splits\<close>)
  then show ?thesis using ok by (auto simp: capacity_def)
qed

lemma readbyte_contents:
  assumes "buf_inv b" "contents b = x # xs"
  shows "\<exists>b'. readbyte b = Some (x, b') \<and> buf_inv b' \<and> capacity b' = capacity b \<and> contents b' = xs"
proof -
  define b' where "b' = b\<lparr>buf_start := (buf_start b + 1) mod buf_size b\<rparr>"
  have start: "buf_start b' = (if buf_start b + 1 < buf_size b then buf_start b + 1 else 0)"
    using assms(1) ring_add [of "buf_start b" "buf_size b" 1] by (auto simp: b'_def buf_inv_def)
  have inv: "buf_inv b'" using assms(1) start by (auto simp: b'_def buf_inv_def)
  have "0 < buf_len b" using assms(2) by (cases "buf_len b") (auto simp: contents_def)
  then have len: "buf_len b = Suc (buf_len b')"
    using buf_len_eq [OF assms(1)] buf_len_eq [OF inv] start assms(1)
    by (auto simp: b'_def buf_inv_def split: if_splits)
  have at: "buf_at b' i = buf_at b (Suc i)" for i
    by (simp add: b'_def buf_at_def buf_pos_def mod_simps algebra_simps)
  have "contents b = buf_at b 0 # contents b'"
    using at by (auto simp: contents_def len map_upt_Suc simp del: upt_Suc)
  then show ?thesis
    using assms inv
    by (auto simp: readbyte_def in_array_def buf_inv_def b'_def capacity_def buf_at_def buf_pos_def)
qed

interpretation ring: last_bytes buf_inv contents capacity writebyte readbyte
  by unfold_locales (simp_all add: contents_bounded writebyte_contents readbyte_contents)

lemma Write_loop_puts: "Write_loop p b = ring.puts p b"
  by (induction p arbitrary: b) (auto split: option.splits)

lemma Read_loop_gets:
  "buf_inv b \<Longrightarrow> i \<le> length p \<Longrightarrow>
     Read_loop i p n b =
       map_option (\<lambda>(xs, b'). (n + length xs, take i p @ xs @ drop (i + length xs) p, b'))
         (ring.gets (length p - i) b)"
proof (induction "length p - i" arbitrary: i p n b)
  case 0
  then show ?case by (simp add: Read_loop_simps)
next
  case (Suc k)
  then have left: "length p - i = Suc (length p - Suc i)" "i < length p" by simp_all
  show ?case
  proof (cases "contents b")
    case Nil
    then show ?thesis using Suc.prems left contents_empty [of b] by (subst Read_loop_simps) simp
  next
    case (Cons x xs)
    then obtain b1 where b1: "readbyte b = Some (x, b1)" "buf_inv b1"
      using readbyte_contents [OF Suc.prems(1)] by blast
    have "Read_loop i p n b = Read_loop (Suc i) (p[i := x]) (Suc n) b1"
      using b1 Cons Suc.prems left contents_empty [of b] by (subst Read_loop_simps) simp
    also have "\<dots> = map_option (\<lambda>(xs, b'). (Suc n + length xs, take (Suc i) (p[i := x]) @ xs @ drop (Suc i + length xs) (p[i := x]), b'))
       (ring.gets (length p - Suc i) b1)"
      using Suc.hyps(1) [of "p[i := x]" "Suc i" b1 "Suc n"] Suc.hyps(2) b1(2) left by simp
    finally show ?thesis
      using b1 Cons left
      by (auto simp: option.map_comp comp_def case_prod_beta take_Suc_conv_app_nth upd_conv_take_nth_drop
          add.commute intro!: option.map_cong)
  qed
qed

lemma NewBuffer_empty:
  "0 \<le> n \<Longrightarrow> n < 2 ^ 63 - 1 \<Longrightarrow>
     \<exists>b. NewBuffer n = Some b \<and> buf_inv b \<and> capacity b = nat n \<and> contents b = []"
  by (auto simp: NewBuffer_def Let_def buf_inv_def capacity_def contents_def buf_len_def)

lemma Write_contents:
  assumes "buf_inv b"
  shows "\<exists>b'. Write p b = Some (length p, b') \<and> buf_inv b' \<and> capacity b' = capacity b \<and>
     contents b' = last_n (capacity b) (contents b @ p)"
  using ring.puts_held [OF assms, of p] by (auto simp: Write_def Write_loop_puts)

lemma Read_contents:
  assumes "buf_inv b"
  shows "\<exists>b'. Read p b = Some (min (length p) (length (contents b)),
       take (length p) (contents b) @ drop (length (contents b)) p, b') \<and>
     buf_inv b' \<and> capacity b' = capacity b \<and> contents b' = drop (length p) (contents b)"
  using ring.gets_held [OF assms, of "length p"] Read_loop_gets [OF assms, of 0 p 0]
  by (auto simp: Read_def min_def)

subsection \<open>Sequences of calls\<close>

text \<open>
  A client's calls on one buffer and what they return, on the array and on the queue of
  bytes that the type's comment describes: at most \<open>n\<close> unread bytes, the last ones written.
\<close>

datatype buf_call = CallWrite "byte list" | CallRead "byte list"
datatype buf_result = Wrote nat | ReadBytes nat "byte list"

fun run_buffer :: "buf_call list \<Rightarrow> Buffer \<Rightarrow> buf_result list option" where
  "run_buffer [] b = Some []"
| "run_buffer (CallWrite p # cs) b =
     (case Write p b of None \<Rightarrow> None | Some (n, b) \<Rightarrow> map_option (Cons (Wrote n)) (run_buffer cs b))"
| "run_buffer (CallRead p # cs) b =
     (case Read p b of None \<Rightarrow> None | Some (n, p, b) \<Rightarrow> map_option (Cons (ReadBytes n p)) (run_buffer cs b))"

fun run_queue :: "nat \<Rightarrow> buf_call list \<Rightarrow> byte list \<Rightarrow> buf_result list" where
  "run_queue n [] q = []"
| "run_queue n (CallWrite p # cs) q = Wrote (length p) # run_queue n cs (last_n n (q @ p))"
| "run_queue n (CallRead p # cs) q =
     ReadBytes (min (length p) (length q)) (take (length p) q @ drop (length q) p) #
     run_queue n cs (drop (length p) q)"

lemma run_buffer_queue: "buf_inv b \<Longrightarrow> run_buffer cs b = Some (run_queue (capacity b) cs (contents b))"
proof (induction cs arbitrary: b)
  case (Cons c cs)
  show ?case
  proof (cases c)
    case (CallWrite p)
    then show ?thesis using Write_contents [OF Cons.prems, of p] Cons.IH by auto
  next
    case (CallRead p)
    then show ?thesis using Read_contents [OF Cons.prems, of p] Cons.IH by auto
  qed
qed simp

text \<open>
  C37. A circular buffer of size \<open>n\<close> answers every sequence of writes and reads without a panic
  and as the queue that keeps the last \<open>n\<close> unread bytes: each write reports the whole of its
  bytes as written, and each read returns the oldest bytes still held and removes them.
\<close>

theorem buffer_refines_queue:
  assumes "0 \<le> n" "n < 2 ^ 63 - 1"
  shows "\<exists>b. NewBuffer n = Some b \<and> run_buffer cs b = Some (run_queue (nat n) cs [])"
  using NewBuffer_empty [OF assms] run_buffer_queue by metis

theorem buffer_refines_queue_witness:
  "\<exists>b. NewBuffer 2 = Some b \<and>
     run_buffer [CallWrite [1, 2, 3], CallRead [0], CallWrite [4], CallRead [0, 0, 0]] b =
       Some [Wrote 3, ReadBytes 1 [2], Wrote 1, ReadBytes 2 [3, 4, 0]]"
  using buffer_refines_queue [of 2 "[CallWrite [1, 2, 3], CallRead [0], CallWrite [4], CallRead [0, 0, 0]]"]
  by (simp add: last_n_def numeral_eq_Suc del: run_buffer.simps)

text \<open>
  The buffer is full exactly when it holds as many bytes as it was created for, and empty
  exactly when it holds none, in every state that writes and reads can reach; the array
  positions stay inside the array.
\<close>

lemma full_and_empty:
  assumes "buf_inv b"
  shows "IsFull b = Some (length (contents b) = capacity b) \<and> IsEmpty b = (contents b = []) \<and>
     length (contents b) \<le> capacity b"
  using assms by (simp add: IsFull_iff contents_empty contents_bounded)

text \<open>
  The comment of the type gives the zero value as a buffer of size 0 whose writes are
  discarded. Its array is empty, and the first byte written is an index out of range.
\<close>

definition zero_Buffer :: Buffer where
  "zero_Buffer = \<lparr>buf_size = 0, buf_start = 0, buf_end = 0, buf_bytes = []\<rparr>"

lemma zero_Buffer_panics: "p \<noteq> [] \<Longrightarrow> Write p zero_Buffer = None"
  by (cases p) (simp_all add: Write_def writebyte_def zero_Buffer_def in_array_def)

end
