(* ===== verification/Image_ID.thy ===== *)
theory Image_ID
  imports Go_Strings
begin

section \<open>Docker image identifiers\<close>

text \<open>
  The parser and printer of image identifiers, \<^verbatim>\<open>commons/imageid.go\<close>. A Go string is a
  list of bytes (\<^typ>\<open>string\<close>), which the scanner reads as runes, natural numbers, by
  UTF-8; the scanner's state machine appends the low byte of each rune to a token. The
  tables of package \<^verbatim>\<open>unicode\<close> above Latin-1 are an argument of the model. The index
  \<^verbatim>\<open>scanned[0]\<close> of an empty slice is the error \<open>IndexOutOfRange\<close>, a panic.
\<close>

subsection \<open>Runes\<close>

type_synonym rune = nat

record Tables =
  letterTable :: "rune \<Rightarrow> bool"
  digitTable :: "rune \<Rightarrow> bool"

definition between :: "nat \<Rightarrow> nat \<Rightarrow> nat \<Rightarrow> bool" where
  "between lo hi r = (lo \<le> r \<and> r \<le> hi)"

text \<open>\<^verbatim>\<open>unicode.IsLetter\<close> and \<^verbatim>\<open>unicode.IsDigit\<close>: their own tables up to \<^verbatim>\<open>MaxLatin1\<close>.\<close>

definition IsLetter :: "Tables \<Rightarrow> rune \<Rightarrow> bool" where
  "IsLetter tb r =
     (if r \<le> 255 then
        between 65 90 r \<or> between 97 122 r \<or> r = 170 \<or> r = 181 \<or> r = 186 \<or>
        between 192 214 r \<or> between 216 246 r \<or> between 248 255 r
      else letterTable tb r)"

definition IsDigit :: "Tables \<Rightarrow> rune \<Rightarrow> bool" where
  "IsDigit tb r = (if r \<le> 255 then between 48 57 r else digitTable tb r)"

definition RuneError :: rune where
  "RuneError = 65533"

definition cont :: "nat \<Rightarrow> bool" where
  "cont b = between 128 191 b"

text \<open>
  \<^verbatim>\<open>utf8.DecodeRune\<close> on the bytes from the current one on: the rune and its width, with the
  ranges of the second byte that rule out overlong forms, surrogates and runes over 10FFFF.
\<close>

definition DecodeRune :: "nat list \<Rightarrow> rune \<times> nat" where
  "DecodeRune bs =
     (case bs of
        [] \<Rightarrow> (RuneError, 0)
      | b0 # r0 \<Rightarrow>
          if b0 < 128 then (b0, 1)
          else case r0 of
            [] \<Rightarrow> (RuneError, 1)
          | b1 # r1 \<Rightarrow>
              if between 194 223 b0 \<and> cont b1 then ((b0 - 192) * 64 + (b1 - 128), 2)
              else case r1 of
                [] \<Rightarrow> (RuneError, 1)
              | b2 # r2 \<Rightarrow>
                  if between 224 239 b0 \<and> cont b2 \<and>
                     between (if b0 = 224 then 160 else 128) (if b0 = 237 then 159 else 191) b1
                  then ((b0 - 224) * 4096 + (b1 - 128) * 64 + (b2 - 128), 3)
                  else case r2 of
                    [] \<Rightarrow> (RuneError, 1)
                  | b3 # _ \<Rightarrow>
                      if between 240 244 b0 \<and> cont b2 \<and> cont b3 \<and>
                         between (if b0 = 240 then 144 else 128) (if b0 = 244 then 143 else 191) b1
                      then ((b0 - 240) * 262144 + (b1 - 128) * 4096 + (b2 - 128) * 64 + (b3 - 128), 4)
                      else (RuneError, 1))"

lemma DecodeRune_width: "bs \<noteq> [] \<Longrightarrow> 1 \<le> snd (DecodeRune bs)"
  by (auto simp: DecodeRune_def split: list.splits)

text \<open>\<^verbatim>\<open>bufio.ScanRunes\<close> over a whole string.\<close>

function ScanRunes :: "nat list \<Rightarrow> rune list" where
  "ScanRunes [] = []"
| "ScanRunes (b # bs) = (let (r, w) = DecodeRune (b # bs) in r # ScanRunes (drop w (b # bs)))"
  by pat_completeness auto
termination
proof (relation "measure length", goal_cases)
  case (2 b bs x r w)
  then have "w = snd (DecodeRune (b # bs))" by (metis snd_conv)
  then show ?case using DecodeRune_width [of "b # bs"] by simp
qed simp

definition runes :: "string \<Rightarrow> rune list" where
  "runes s = ScanRunes (map of_char s)"

definition byte_of :: "rune \<Rightarrow> char" where
  "byte_of r = char_of (r mod 256)"

definition colon :: rune where "colon = 58"
definition dash :: rune where "dash = 45"
definition period :: rune where "period = 46"
definition slash :: rune where "slash = 47"
definition underscore :: rune where "underscore = 95"

subsection \<open>The scanner\<close>

record ImageID =
  img_Host :: string
  img_Port :: int
  img_User :: string
  img_Repo :: string
  img_Tag :: string

definition no_ImageID :: ImageID where
  "no_ImageID = \<lparr>img_Host = [], img_Port = 0, img_User = [], img_Repo = [], img_Tag = []\<rparr>"

datatype scan_state =
    scanningHostOrRepoName
  | scanningHost
  | scanningPortOrTag
  | scanningPort
  | scanningRepoNameOrRepo
  | scanningRepoName
  | scanningRepo
  | scanningTag

datatype image_error =
    BadHostOrName | BadHostname | BadHostOrRepoName | BadPortNumber | BadRepoName | BadRepo
  | BadTag rune | BadPortOrTag | BadAtoi string | IncompleteImageID | EmptyImage | IndexOutOfRange

record scan =
  sc_state :: scan_state
  sc_scanned :: "string list"
  sc_tokbuf :: string
  sc_result :: ImageID

definition scan_start :: scan where
  "scan_start = \<lparr>sc_state = scanningHostOrRepoName, sc_scanned = [], sc_tokbuf = [], sc_result = no_ImageID\<rparr>"

definition append_rune :: "rune \<Rightarrow> scan \<Rightarrow> scan" where
  "append_rune r s = s\<lparr>sc_tokbuf := sc_tokbuf s @ [byte_of r]\<rparr>"

definition goto :: "scan_state \<Rightarrow> scan \<Rightarrow> scan" where
  "goto st s = s\<lparr>sc_state := st\<rparr>"

text \<open>\<^verbatim>\<open>tokbuf = []byte{}\<close> after the token has been stored, and the next state.\<close>

definition next_token :: "scan_state \<Rightarrow> scan \<Rightarrow> scan" where
  "next_token st s = s\<lparr>sc_tokbuf := [], sc_state := st\<rparr>"

definition push_token :: "scan_state \<Rightarrow> scan \<Rightarrow> scan" where
  "push_token st s = next_token st (s\<lparr>sc_scanned := sc_scanned s @ [sc_tokbuf s]\<rparr>)"

definition on_result :: "(ImageID \<Rightarrow> ImageID) \<Rightarrow> scan \<Rightarrow> scan" where
  "on_result f s = s\<lparr>sc_result := f (sc_result s)\<rparr>"

text \<open>\<^verbatim>\<open>scanned[0]\<close> stored in the result, and \<^verbatim>\<open>scanned = []string{}\<close>.\<close>

definition pop_scanned :: "(string \<Rightarrow> ImageID \<Rightarrow> ImageID) \<Rightarrow> scan \<Rightarrow> image_error + scan" where
  "pop_scanned f s =
     (case sc_scanned s of [] \<Rightarrow> Inl IndexOutOfRange | x # _ \<Rightarrow> Inr (on_result (f x) (s\<lparr>sc_scanned := []\<rparr>)))"

definition and_then :: "'e + 'a \<Rightarrow> ('a \<Rightarrow> 'e + 'b) \<Rightarrow> 'e + 'b" where
  "and_then x f = (case x of Inl e \<Rightarrow> Inl e | Inr a \<Rightarrow> f a)"

definition set_port :: "scan \<Rightarrow> image_error + scan" where
  "set_port s =
     (case Atoi (sc_tokbuf s) of
        None \<Rightarrow> Inl (BadAtoi (sc_tokbuf s))
      | Some portno \<Rightarrow> Inr (next_token scanningRepoName (on_result (img_Port_update (\<lambda>_. portno)) s)))"

definition alnum :: "Tables \<Rightarrow> rune \<Rightarrow> bool" where
  "alnum tb r = (IsLetter tb r \<or> IsDigit tb r)"

fun scan_rune :: "Tables \<Rightarrow> rune \<Rightarrow> scan_state \<Rightarrow> scan \<Rightarrow> image_error + scan" where
  "scan_rune tb r scanningHostOrRepoName s =
     (if alnum tb r \<or> r = dash then Inr (append_rune r s)
      else if r = period then Inr (goto scanningHost (append_rune r s))
      else if r = underscore then Inr (goto scanningRepoName (append_rune r s))
      else if r = slash then Inr (push_token scanningRepoNameOrRepo s)
      else if r = colon then Inr (push_token scanningPortOrTag s)
      else Inl BadHostOrName)"
| "scan_rune tb r scanningHost s =
     (if alnum tb r \<or> r = period \<or> r = dash then Inr (append_rune r s)
      else if r = colon then
        Inr (next_token scanningPort (on_result (img_Host_update (\<lambda>_. sc_tokbuf s)) s))
      else if r = slash then
        Inr (next_token scanningRepoName (on_result (img_Host_update (\<lambda>_. sc_tokbuf s)) s))
      else Inl BadHostname)"
| "scan_rune tb r scanningRepoNameOrRepo s =
     (if alnum tb r \<or> r = dash \<or> r = underscore then Inr (append_rune r s)
      else if r = period then
        and_then (pop_scanned (\<lambda>x. img_User_update (\<lambda>_. x)) s)
          (\<lambda>s. Inr (goto scanningRepo (append_rune r s)))
      else if r = colon then
        and_then (pop_scanned (\<lambda>x. img_User_update (\<lambda>_. x)) s)
          (\<lambda>s. Inr (next_token scanningTag (on_result (img_Repo_update (\<lambda>_. sc_tokbuf s)) s)))
      else if r = slash then
        and_then (pop_scanned (\<lambda>x. img_Host_update (\<lambda>_. x)) s)
          (\<lambda>s. Inr (next_token scanningRepo (on_result (img_User_update (\<lambda>_. sc_tokbuf s)) s)))
      else Inl BadHostOrRepoName)"
| "scan_rune tb r scanningPort s =
     (if IsDigit tb r then Inr (append_rune r s)
      else if r = slash then set_port s
      else Inl BadPortNumber)"
| "scan_rune tb r scanningRepoName s =
     (if alnum tb r \<or> r = dash \<or> r = underscore then Inr (append_rune r s)
      else if r = slash then
        Inr (next_token scanningRepo (on_result (img_User_update (\<lambda>_. sc_tokbuf s)) s))
      else if r = colon then
        Inr (next_token scanningTag (on_result (img_Repo_update (\<lambda>_. sc_tokbuf s)) s))
      else if r = period then
        Inr (goto scanningRepo (append_rune r (on_result (img_User_update (\<lambda>_. [])) s)))
      else Inl BadRepoName)"
| "scan_rune tb r scanningRepo s =
     (if alnum tb r \<or> r = dash \<or> r = underscore \<or> r = period then Inr (append_rune r s)
      else if r = colon then
        Inr (next_token scanningTag (on_result (img_Repo_update (\<lambda>_. sc_tokbuf s)) s))
      else Inl BadRepo)"
| "scan_rune tb r scanningTag s =
     (if alnum tb r \<or> r = dash \<or> r = underscore \<or> r = period then Inr (append_rune r s)
      else Inl (BadTag r))"
| "scan_rune tb r scanningPortOrTag s =
     (if IsDigit tb r then Inr (append_rune r s)
      else if IsLetter tb r \<or> r = dash \<or> r = period then
        and_then (pop_scanned (\<lambda>x. img_Repo_update (\<lambda>_. x)) (append_rune r s))
          (\<lambda>s. Inr (goto scanningTag s))
      else if r = slash then
        and_then (pop_scanned (\<lambda>x. img_Host_update (\<lambda>_. x)) s) set_port
      else Inl BadPortOrTag)"

fun scan_loop :: "Tables \<Rightarrow> rune list \<Rightarrow> scan \<Rightarrow> image_error + scan" where
  "scan_loop tb [] s = Inr s"
| "scan_loop tb (r # rs) s = and_then (scan_rune tb r (sc_state s) s) (scan_loop tb rs)"

text \<open>The switch after the loop; here \<^verbatim>\<open>scanned\<close> is read without being emptied.\<close>

definition first_scanned :: "scan \<Rightarrow> image_error + string" where
  "first_scanned s = (case sc_scanned s of [] \<Rightarrow> Inl IndexOutOfRange | x # _ \<Rightarrow> Inr x)"

definition scan_end :: "scan \<Rightarrow> image_error + ImageID" where
  "scan_end s =
     (case sc_state s of
        scanningHostOrRepoName \<Rightarrow> Inr ((sc_result s)\<lparr>img_Repo := sc_tokbuf s\<rparr>)
      | scanningRepoName \<Rightarrow> Inr ((sc_result s)\<lparr>img_Repo := sc_tokbuf s\<rparr>)
      | scanningRepo \<Rightarrow> Inr ((sc_result s)\<lparr>img_Repo := sc_tokbuf s\<rparr>)
      | scanningRepoNameOrRepo \<Rightarrow>
          and_then (first_scanned s) (\<lambda>x. Inr ((sc_result s)\<lparr>img_User := x, img_Repo := sc_tokbuf s\<rparr>))
      | scanningPort \<Rightarrow> Inl IncompleteImageID
      | scanningHost \<Rightarrow> Inl IncompleteImageID
      | scanningPortOrTag \<Rightarrow>
          and_then (first_scanned s) (\<lambda>x. Inr ((sc_result s)\<lparr>img_Repo := x, img_Tag := sc_tokbuf s\<rparr>))
      | scanningTag \<Rightarrow> Inr ((sc_result s)\<lparr>img_Tag := sc_tokbuf s\<rparr>))"

definition ParseImageID :: "Tables \<Rightarrow> string \<Rightarrow> image_error + ImageID" where
  "ParseImageID tb iid = and_then (scan_loop tb (runes iid) scan_start) scan_end"

subsection \<open>The operations on identifiers\<close>

definition JoinRepoTag :: "string \<Rightarrow> string \<Rightarrow> string" where
  "JoinRepoTag repo tag = repo @ '':'' @ tag"

definition RenameImageID :: "Tables \<Rightarrow> string \<Rightarrow> string \<Rightarrow> string \<Rightarrow> string \<Rightarrow> image_error + ImageID" where
  "RenameImageID tb dockerRegistry tenantId imgID tag =
     (if imgID = [] then Inl EmptyImage
      else and_then (ParseImageID tb (dockerRegistry @ ''/'' @ imgID)) (\<lambda>throwaway.
        ParseImageID tb (dockerRegistry @ ''/'' @ tenantId @ ''/'' @ img_Repo throwaway @ '':'' @ tag)))"

definition BaseName :: "ImageID \<Rightarrow> string" where
  "BaseName iid =
     (if img_Host iid \<noteq> [] then
        img_Host iid @ (if img_Port iid \<noteq> 0 then '':'' @ show_int (img_Port iid) else []) @ ''/''
      else []) @
     (if img_User iid \<noteq> [] then img_User iid @ ''/'' else []) @ img_Repo iid"

definition String :: "ImageID \<Rightarrow> string" where
  "String iid = BaseName iid @ (if img_Tag iid \<noteq> [] then '':'' @ img_Tag iid else [])"

definition Registry :: "ImageID \<Rightarrow> string" where
  "Registry iid =
     (if length (img_Host iid) = 0 then []
      else img_Host iid @ (if img_Port iid \<noteq> 0 then '':'' @ show_int (img_Port iid) else []))"

definition IsLatest :: "ImageID \<Rightarrow> bool" where
  "IsLatest iid = (img_Tag iid = [] \<or> img_Tag iid = ''latest'')"

definition Equals :: "ImageID \<Rightarrow> ImageID \<Rightarrow> bool" where
  "Equals iid iid2 =
     (if BaseName iid \<noteq> BaseName iid2 then False
      else img_Tag iid = img_Tag iid2 \<or> (IsLatest iid \<and> IsLatest iid2))"

definition Validate :: "Tables \<Rightarrow> ImageID \<Rightarrow> bool" where
  "Validate tb iid =
     (case ParseImageID tb (String iid) of Inl _ \<Rightarrow> False | Inr piid \<Rightarrow> piid = iid)"

definition Copy :: "ImageID \<Rightarrow> ImageID" where
  "Copy iid = no_ImageID\<lparr>img_Host := img_Host iid, img_Port := img_Port iid, img_User := img_User iid,
     img_Repo := img_Repo iid, img_Tag := img_Tag iid\<rparr>"

definition Merge :: "ImageID \<Rightarrow> ImageID \<Rightarrow> ImageID" where
  "Merge new iid =
     (let iid = (if img_Host new \<noteq> [] then iid\<lparr>img_Host := img_Host new\<rparr> else iid);
          iid = (if img_Port new \<noteq> 0 then iid\<lparr>img_Port := img_Port new\<rparr> else iid);
          iid = (if img_User new \<noteq> [] then iid\<lparr>img_User := img_User new\<rparr> else iid);
          iid = (if img_Repo new \<noteq> [] then iid\<lparr>img_Repo := img_Repo new\<rparr> else iid)
      in if img_Tag new \<noteq> [] then iid\<lparr>img_Tag := img_Tag new\<rparr> else iid)"

subsection \<open>The scanner never panics\<close>

text \<open>
  Typing of the scanner's state, in the two halves of a type soundness proof: the state
  that expects a pending name has one, and every rune keeps it so.
\<close>

definition pending_ok :: "scan \<Rightarrow> bool" where
  "pending_ok s = (sc_state s \<in> {scanningRepoNameOrRepo, scanningPortOrTag} \<longrightarrow> sc_scanned s \<noteq> [])"

lemmas scan_defs = append_rune_def goto_def next_token_def push_token_def on_result_def pop_scanned_def
  set_port_def and_then_def first_scanned_def

lemma scan_rune_pending:
  assumes "pending_ok s"
  shows "case scan_rune tb r (sc_state s) s of Inl e \<Rightarrow> e \<noteq> IndexOutOfRange | Inr s' \<Rightarrow> pending_ok s'"
  using assms
  by (cases "sc_state s") (auto simp: pending_ok_def scan_defs split: option.splits list.splits)

lemma scan_loop_pending:
  "pending_ok s \<Longrightarrow> case scan_loop tb rs s of Inl e \<Rightarrow> e \<noteq> IndexOutOfRange | Inr s' \<Rightarrow> pending_ok s'"
proof (induction rs arbitrary: s)
  case (Cons r rs)
  then show ?case
    using scan_rune_pending [OF Cons.prems, of tb r]
    by (cases "scan_rune tb r (sc_state s) s") (auto simp: and_then_def)
qed simp

lemma scan_end_pending: "pending_ok s \<Longrightarrow> scan_end s \<noteq> Inl IndexOutOfRange"
  by (auto simp: scan_end_def pending_ok_def scan_defs split: scan_state.splits list.splits)

lemma ParseImageID_no_panic: "ParseImageID tb iid \<noteq> Inl IndexOutOfRange"
  using scan_loop_pending [of scan_start tb "runes iid"] scan_end_pending
  by (auto simp: ParseImageID_def and_then_def pending_ok_def scan_start_def split: sum.splits)

subsection \<open>ASCII text\<close>

definition ascii :: "string \<Rightarrow> bool" where
  "ascii s = list_all (\<lambda>c. (of_char c :: nat) < 128) s"

definition alnum_ch :: "char \<Rightarrow> bool" where
  "alnum_ch c = (let r = of_char c in between 48 57 r \<or> between 65 90 r \<or> between 97 122 r)"

definition plain_ch :: "char \<Rightarrow> bool" where
  "plain_ch c = (alnum_ch c \<or> c = CHR ''-'')"

definition host_ch :: "char \<Rightarrow> bool" where
  "host_ch c = (plain_ch c \<or> c = CHR ''.'')"

definition user_ch :: "char \<Rightarrow> bool" where
  "user_ch c = (plain_ch c \<or> c = CHR ''_'')"

definition repo_ch :: "char \<Rightarrow> bool" where
  "repo_ch c = (user_ch c \<or> c = CHR ''.'')"

lemma separator_char [simp]:
  "(of_char CHR ''/'' :: nat) = slash" "(of_char CHR '':'' :: nat) = colon"
  "(of_char CHR ''.'' :: nat) = period" "(of_char CHR ''_'' :: nat) = underscore" "(of_char CHR ''-'' :: nat) = dash"
  by (simp_all add: dash_def period_def underscore_def slash_def colon_def)

lemma char_rune: "c = CHR ''-'' \<longleftrightarrow> (of_char c :: nat) = dash" "c = CHR ''.'' \<longleftrightarrow> (of_char c :: nat) = period"
  "c = CHR ''_'' \<longleftrightarrow> (of_char c :: nat) = underscore" "c = CHR ''/'' \<longleftrightarrow> (of_char c :: nat) = slash"
  "c = CHR '':'' \<longleftrightarrow> (of_char c :: nat) = colon"
  by (metis of_char_eq_iff separator_char)+

lemma byte_of_char [simp]: "byte_of (of_char c) = c"
  by (simp add: byte_of_def)

lemma ScanRunes_ascii: "list_all (\<lambda>b. b < 128) bs \<Longrightarrow> ScanRunes bs = bs"
  by (induction bs) (auto simp: DecodeRune_def)

lemma runes_ascii: "ascii s \<Longrightarrow> runes s = map of_char s"
  by (simp add: runes_def ascii_def ScanRunes_ascii list_all_iff)

lemma alnum_ascii: "(of_char c :: nat) < 128 \<Longrightarrow> alnum tb (of_char c) = alnum_ch c"
  by (auto simp: alnum_def alnum_ch_def IsLetter_def IsDigit_def between_def Let_def)

lemma IsDigit_ascii: "(of_char c :: nat) < 128 \<Longrightarrow> IsDigit tb (of_char c) = is_digit c"
  by (auto simp: IsDigit_def between_def is_digit_def)

lemma alnum_ch_ascii: "alnum_ch c \<Longrightarrow> (of_char c :: nat) < 128"
  by (auto simp: alnum_ch_def between_def Let_def)

lemma repo_ch_ascii: "repo_ch c \<Longrightarrow> (of_char c :: nat) < 128"
  by (auto simp: repo_ch_def user_ch_def plain_ch_def dest: alnum_ch_ascii)

lemma ch_mono: "plain_ch c \<Longrightarrow> host_ch c" "plain_ch c \<Longrightarrow> user_ch c" "user_ch c \<Longrightarrow> repo_ch c"
  "plain_ch c \<Longrightarrow> repo_ch c" "is_digit c \<Longrightarrow> repo_ch c" "host_ch c \<Longrightarrow> repo_ch c"
  by (auto simp: host_ch_def user_ch_def repo_ch_def plain_ch_def alnum_ch_def is_digit_def between_def Let_def)

text \<open>The separators belong to no class.\<close>

lemma separator_alnum [simp]:
  "\<not> alnum tb dash" "\<not> alnum tb period" "\<not> alnum tb underscore" "\<not> alnum tb slash" "\<not> alnum tb colon"
  "\<not> IsDigit tb dash" "\<not> IsDigit tb period" "\<not> IsDigit tb underscore" "\<not> IsDigit tb slash" "\<not> IsDigit tb colon"
  "\<not> IsLetter tb underscore" "\<not> IsLetter tb slash" "\<not> IsLetter tb colon" "\<not> IsLetter tb dash" "\<not> IsLetter tb period"
  by (simp_all add: alnum_def IsLetter_def IsDigit_def between_def dash_def period_def underscore_def
      slash_def colon_def)

lemma separator_distinct [simp]:
  "dash \<noteq> period" "dash \<noteq> underscore" "dash \<noteq> slash" "dash \<noteq> colon" "period \<noteq> underscore" "period \<noteq> slash"
  "period \<noteq> colon" "underscore \<noteq> slash" "underscore \<noteq> colon" "slash \<noteq> colon"
  "period \<noteq> dash" "underscore \<noteq> dash" "slash \<noteq> dash" "colon \<noteq> dash" "underscore \<noteq> period" "slash \<noteq> period"
  "colon \<noteq> period" "slash \<noteq> underscore" "colon \<noteq> underscore" "colon \<noteq> slash"
  by (simp_all add: dash_def period_def underscore_def slash_def colon_def)

subsection \<open>The fields of a parsed identifier\<close>

definition wf_fields :: "ImageID \<Rightarrow> bool" where
  "wf_fields iid =
     (list_all host_ch (img_Host iid) \<and> 0 \<le> img_Port iid \<and> img_Port iid < 2 ^ 63 \<and>
      list_all user_ch (img_User iid) \<and> list_all repo_ch (img_Repo iid) \<and> list_all repo_ch (img_Tag iid))"

fun token_ch :: "scan_state \<Rightarrow> char \<Rightarrow> bool" where
  "token_ch scanningHostOrRepoName = plain_ch"
| "token_ch scanningHost = host_ch"
| "token_ch scanningPortOrTag = is_digit"
| "token_ch scanningPort = is_digit"
| "token_ch scanningRepoNameOrRepo = user_ch"
| "token_ch scanningRepoName = user_ch"
| "token_ch scanningRepo = repo_ch"
| "token_ch scanningTag = repo_ch"

definition scan_typed :: "scan \<Rightarrow> bool" where
  "scan_typed s = (list_all (token_ch (sc_state s)) (sc_tokbuf s) \<and> list_all (list_all plain_ch) (sc_scanned s) \<and>
     wf_fields (sc_result s))"

lemma list_all_weaken: "list_all P xs \<Longrightarrow> (\<And>x. P x \<Longrightarrow> Q x) \<Longrightarrow> list_all Q xs"
  by (simp add: list_all_iff)

lemma classes_mono:
  "list_all plain_ch xs \<Longrightarrow> list_all host_ch xs" "list_all plain_ch xs \<Longrightarrow> list_all user_ch xs"
  "list_all user_ch xs \<Longrightarrow> list_all repo_ch xs" "list_all plain_ch xs \<Longrightarrow> list_all repo_ch xs"
  "list_all is_digit xs \<Longrightarrow> list_all repo_ch xs" "list_all host_ch xs \<Longrightarrow> list_all repo_ch xs"
  by (simp_all add: list_all_iff ch_mono)

lemma Atoi_digits: "list_all is_digit s \<Longrightarrow> Atoi s = Some i \<Longrightarrow> 0 \<le> i \<and> i < 2 ^ 63"
  using Atoi_range [of s i] sign_no_digit
  by (cases s) (auto simp: Atoi_def Let_def in_int64_def split: if_splits option.splits)

lemma wf_fields_update:
  assumes "wf_fields r"
  shows "list_all host_ch x \<Longrightarrow> wf_fields (r\<lparr>img_Host := x\<rparr>)"
    and "list_all user_ch x \<Longrightarrow> wf_fields (r\<lparr>img_User := x\<rparr>)"
    and "list_all repo_ch x \<Longrightarrow> wf_fields (r\<lparr>img_Repo := x\<rparr>)"
    and "list_all repo_ch x \<Longrightarrow> wf_fields (r\<lparr>img_Tag := x\<rparr>)"
    and "list_all is_digit x \<Longrightarrow> Atoi x = Some i \<Longrightarrow> wf_fields (r\<lparr>img_Port := i\<rparr>)"
  using assms Atoi_digits [of x i] by (simp_all add: wf_fields_def)

lemma typed_append: "scan_typed s \<Longrightarrow> token_ch (sc_state s) (byte_of r) \<Longrightarrow> scan_typed (append_rune r s)"
  by (simp add: scan_typed_def append_rune_def)

lemma typed_goto:
  "scan_typed s \<Longrightarrow> (\<And>c. token_ch (sc_state s) c \<Longrightarrow> token_ch st c) \<Longrightarrow> token_ch st (byte_of r) \<Longrightarrow>
     scan_typed (goto st (append_rune r s))"
  by (auto simp: scan_typed_def append_rune_def goto_def elim: list_all_weaken)

lemma typed_store:
  "scan_typed s \<Longrightarrow> wf_fields (f (sc_result s)) \<Longrightarrow> scan_typed (next_token st (on_result f s))"
  by (simp add: scan_typed_def next_token_def on_result_def)

lemma typed_push: "scan_typed s \<Longrightarrow> sc_state s = scanningHostOrRepoName \<Longrightarrow> scan_typed (push_token st s)"
  by (simp add: scan_typed_def push_token_def next_token_def)

lemma typed_pop:
  assumes "pop_scanned f s = Inr s'" "scan_typed s"
    "\<And>x r. wf_fields r \<Longrightarrow> list_all plain_ch x \<Longrightarrow> wf_fields (f x r)"
  shows "scan_typed s' \<and> sc_state s' = sc_state s"
  using assms by (auto simp: pop_scanned_def on_result_def scan_typed_def split: list.splits)

lemma typed_token: "scan_typed s \<Longrightarrow> list_all (token_ch (sc_state s)) (sc_tokbuf s)" "scan_typed s \<Longrightarrow> wf_fields (sc_result s)"
  by (simp_all add: scan_typed_def)

lemma typed_port: "scan_typed s \<Longrightarrow> token_ch (sc_state s) = is_digit \<Longrightarrow> set_port s = Inr s' \<Longrightarrow> scan_typed s'"
  using typed_token [of s] by (auto simp: set_port_def intro!: typed_store wf_fields_update split: option.splits)

lemma byte_of_separator [simp]:
  "byte_of dash = CHR ''-''" "byte_of period = CHR ''.''" "byte_of underscore = CHR ''_''"
  using byte_of_char [of "CHR ''-''"] byte_of_char [of "CHR ''.''"] byte_of_char [of "CHR ''_''"]
  by (simp_all add: dash_def period_def underscore_def)

lemma separator_ch [simp]: "plain_ch CHR ''-''" "host_ch CHR ''-''" "user_ch CHR ''-''" "repo_ch CHR ''-''"
  "host_ch CHR ''.''" "repo_ch CHR ''.''" "user_ch CHR ''_''" "repo_ch CHR ''_''"
  by (simp_all add: plain_ch_def host_ch_def user_ch_def repo_ch_def)

lemma alnum_ch_kinds: "alnum_ch c \<Longrightarrow> plain_ch c" "alnum_ch c \<Longrightarrow> host_ch c" "alnum_ch c \<Longrightarrow> user_ch c" "alnum_ch c \<Longrightarrow> repo_ch c"
  by (simp_all add: plain_ch_def host_ch_def user_ch_def repo_ch_def)

lemma scan_rune_typed:
  assumes "scan_typed s" "r < 128" "scan_rune tb r (sc_state s) s = Inr s'"
  shows "scan_typed s'"
proof -
  have "(of_char (byte_of r) :: nat) = r" using assms(2) by (simp add: byte_of_def)
  then have cls: "alnum tb r = alnum_ch (byte_of r)" "IsDigit tb r = is_digit (byte_of r)"
    "IsLetter tb r \<Longrightarrow> alnum_ch (byte_of r)"
    using alnum_ascii [of "byte_of r" tb] IsDigit_ascii [of "byte_of r" tb] assms(2) by (auto simp: alnum_def)
  note run = assms(1,3) typed_token [OF assms(1)]
  note intros = typed_append typed_goto typed_push typed_store wf_fields_update classes_mono alnum_ch_kinds ch_mono
  show ?thesis
  proof (cases "sc_state s")
    case scanningPortOrTag
    with run show ?thesis
      by (auto simp: cls(1,2) scan_defs scan_typed_def
          intro!: wf_fields_update intro: alnum_ch_kinds classes_mono dest!: cls(3)
          split: if_splits list.splits option.splits)
  next
    case scanningRepoNameOrRepo
    with run show ?thesis
      by (auto simp: cls(1,2) scan_defs scan_typed_def
          intro!: wf_fields_update intro: alnum_ch_kinds classes_mono dest!: cls(3)
          split: if_splits list.splits option.splits)
  next
    case scanningRepoName
    with run show ?thesis
      by (auto simp: cls(1,2) scan_defs scan_typed_def
          intro!: wf_fields_update intro: alnum_ch_kinds classes_mono dest!: cls(3)
          split: if_splits list.splits option.splits)
  next
    case scanningPort
    with run show ?thesis
      by (auto simp: cls(1,2) intro!: typed_append split: if_splits dest: typed_port)
  qed (use run in \<open>auto simp: cls(1,2) intro!: intros split: if_splits\<close>)
qed

lemma scan_loop_typed:
  "scan_typed s \<Longrightarrow> ascii cs \<Longrightarrow> scan_loop tb (map of_char cs) s = Inr s' \<Longrightarrow> scan_typed s'"
proof (induction cs arbitrary: s)
  case (Cons c cs)
  then show ?case
    using scan_rune_typed [OF Cons.prems(1), of "of_char c" tb]
    by (auto simp: and_then_def ascii_def split: sum.splits)
qed simp

lemma scan_end_typed: "scan_typed s \<Longrightarrow> scan_end s = Inr r \<Longrightarrow> wf_fields r"
  by (cases "sc_state s")
    (auto simp: scan_typed_def wf_fields_def scan_end_def scan_defs split: list.splits intro: classes_mono)

lemma scan_start_typed: "scan_typed scan_start"
  by (simp add: scan_start_def scan_typed_def wf_fields_def no_ImageID_def)

lemma ParseImageID_fields:
  "ascii iid \<Longrightarrow> ParseImageID tb iid = Inr r \<Longrightarrow> wf_fields r"
  using scan_loop_typed [of scan_start iid tb] scan_end_typed
  by (cases "scan_loop tb (map of_char iid) scan_start")
    (simp_all add: ParseImageID_def runes_ascii and_then_def scan_start_typed)

subsection \<open>Printing and parsing\<close>

lemma scan_loop_append:
  "scan_loop tb (xs @ ys) s = and_then (scan_loop tb xs s) (scan_loop tb ys)"
  by (induction xs arbitrary: s) (auto simp: and_then_def split: sum.splits)

lemma and_then_Inr [simp]: "and_then (Inr x) f = f x"
  by (simp add: and_then_def)

lemma and_then_Inl [simp]: "and_then (Inl e) f = Inl e"
  by (simp add: and_then_def)

text \<open>The scanner stays in a state over the characters of that state's token.\<close>

definition stay_ch :: "scan_state \<Rightarrow> char \<Rightarrow> bool" where
  "stay_ch st c = ((of_char c :: nat) < 128 \<and> token_ch st c)"

lemma scan_rune_stay:
  assumes "(of_char c :: nat) < 128" "token_ch st c"
  shows "scan_rune tb (of_char c) st s = Inr (append_rune (of_char c) s)"
  using assms alnum_ascii [OF assms(1), of tb] IsDigit_ascii [OF assms(1), of tb]
  by (cases st) (auto simp: char_rune plain_ch_def host_ch_def user_ch_def repo_ch_def)

lemma token_ch_ascii: "token_ch st c \<Longrightarrow> (of_char c :: nat) < 128"
  by (rule repo_ch_ascii, cases st) (auto intro: ch_mono)

lemma scan_span:
  "list_all (token_ch (sc_state s)) xs \<Longrightarrow>
     scan_loop tb (map of_char xs @ rs) s = scan_loop tb rs (s\<lparr>sc_tokbuf := sc_tokbuf s @ xs\<rparr>)"
proof (induction xs arbitrary: s)
  case (Cons c xs)
  then show ?case
    using scan_rune_stay [of c "sc_state s" tb s] token_ch_ascii [of "sc_state s" c]
      Cons.IH [of "append_rune (of_char c) s"]
    by (simp add: append_rune_def)
qed simp

text \<open>The same with the state as a record expression, so that rewriting runs the scanner.\<close>

abbreviation scan_at :: "scan_state \<Rightarrow> string list \<Rightarrow> string \<Rightarrow> ImageID \<Rightarrow> scan" where
  "scan_at st sc tok r \<equiv> \<lparr>sc_state = st, sc_scanned = sc, sc_tokbuf = tok, sc_result = r\<rparr>"

definition parse_from :: "Tables \<Rightarrow> string \<Rightarrow> scan \<Rightarrow> image_error + ImageID" where
  "parse_from tb cs s = and_then (scan_loop tb (map of_char cs) s) scan_end"

lemma parse_from_Nil: "parse_from tb [] s = scan_end s"
  by (simp add: parse_from_def)

lemma parse_from_Cons:
  "parse_from tb (c # cs) s = and_then (scan_rune tb (of_char c) (sc_state s) s) (parse_from tb cs)"
  by (auto simp: parse_from_def and_then_def split: sum.splits)

lemma parse_from_span:
  "list_all (token_ch st) xs \<Longrightarrow>
     parse_from tb (xs @ cs) (scan_at st sc tok r) = parse_from tb cs (scan_at st sc (tok @ xs) r)"
  using scan_span [of "scan_at st sc tok r" xs tb "map of_char cs"] by (simp add: parse_from_def)

lemma ParseImageID_from: "ascii iid \<Longrightarrow> ParseImageID tb iid = parse_from tb iid (scan_at scanningHostOrRepoName [] [] no_ImageID)"
  by (simp add: ParseImageID_def parse_from_def runes_ascii scan_start_def)

lemma parse_separator:
  "parse_from tb (CHR ''/'' # cs) s = and_then (scan_rune tb slash (sc_state s) s) (parse_from tb cs)"
  "parse_from tb (CHR '':'' # cs) s = and_then (scan_rune tb colon (sc_state s) s) (parse_from tb cs)"
  "parse_from tb (CHR ''.'' # cs) s = and_then (scan_rune tb period (sc_state s) s) (parse_from tb cs)"
  "parse_from tb (CHR ''_'' # cs) s = and_then (scan_rune tb underscore (sc_state s) s) (parse_from tb cs)"
  "parse_from tb (CHR ''-'' # cs) s = and_then (scan_rune tb dash (sc_state s) s) (parse_from tb cs)"
  by (simp_all only: parse_from_Cons separator_char)

lemmas parse_run = parse_separator parse_from_Nil parse_from_span
  append_rune_def goto_def next_token_def push_token_def on_result_def pop_scanned_def first_scanned_def scan_end_def

definition tag_part :: "string \<Rightarrow> string" where
  "tag_part tag = (if tag \<noteq> [] then CHR '':'' # tag else [])"

lemma parse_tag:
  "list_all repo_ch tag \<Longrightarrow> parse_from tb tag (scan_at scanningTag sc tok r) = Inr (r\<lparr>img_Tag := tok @ tag\<rparr>)"
  using parse_from_span [of scanningTag tag tb "[]" sc tok r] by (simp add: parse_run)

lemma parse_repo:
  assumes "list_all repo_ch xs" "list_all repo_ch tag" "img_Tag r = []"
  shows "parse_from tb (xs @ tag_part tag) (scan_at scanningRepo sc tok r) =
     Inr (r\<lparr>img_Repo := tok @ xs, img_Tag := tag\<rparr>)"
  using assms parse_tag [of tag tb sc "[]"]
  by (cases r) (auto simp: parse_run tag_part_def)

text \<open>A repository name up to its first character outside a class.\<close>

lemma split_class:
  obtains a b where "xs = a @ b" "list_all P a" "b = [] \<or> \<not> P (hd b)"
  by (metis append_Nil2 hd_dropWhile list_all_iff set_takeWhileD takeWhile_dropWhile_id)

lemma split_repo:
  assumes "list_all repo_ch xs"
  obtains a b where "xs = a @ b" "list_all user_ch a" "b = [] \<or> (\<exists>b'. b = CHR ''.'' # b' \<and> list_all repo_ch b')"
proof -
  obtain a b where "xs = a @ b" "list_all user_ch a" "b = [] \<or> \<not> user_ch (hd b)" using split_class .
  then show thesis using assms that by (cases b) (auto simp: repo_ch_def)
qed

lemma split_bare:
  assumes "list_all repo_ch xs"
  obtains a b where "xs = a @ b" "list_all plain_ch a"
    "b = [] \<or> (\<exists>c b'. b = c # b' \<and> c \<in> {CHR ''.'', CHR ''_''} \<and> list_all repo_ch b')"
proof -
  obtain a b where "xs = a @ b" "list_all plain_ch a" "b = [] \<or> \<not> plain_ch (hd b)" using split_class .
  then show thesis using assms that by (cases b) (auto simp: repo_ch_def user_ch_def)
qed

lemma parse_reponame:
  assumes "list_all repo_ch xs" "list_all repo_ch tag" "img_Tag r = []" "img_User r = []"
  shows "parse_from tb (xs @ tag_part tag) (scan_at scanningRepoName sc tok r) =
     Inr (r\<lparr>img_Repo := tok @ xs, img_Tag := tag\<rparr>)"
proof -
  obtain a b where ab: "xs = a @ b" "list_all user_ch a" "b = [] \<or> (\<exists>b'. b = CHR ''.'' # b' \<and> list_all repo_ch b')"
    using split_repo [OF assms(1)] .
  show ?thesis
  proof (cases "b = []")
    case True
    then show ?thesis
      using ab assms parse_tag [of tag tb sc "[]"] by (cases r) (auto simp: parse_run tag_part_def)
  next
    case False
    then show ?thesis
      using ab assms parse_repo [of _ tag _ tb sc "tok @ a @ ''.''"] by (cases r) (auto simp: parse_run)
  qed
qed

lemma parse_user_repo:
  assumes "list_all user_ch user" "list_all repo_ch xs" "list_all repo_ch tag" "img_Tag r = []"
  shows "parse_from tb (user @ CHR ''/'' # xs @ tag_part tag) (scan_at scanningRepoName sc tok r) =
     Inr (r\<lparr>img_User := tok @ user, img_Repo := xs, img_Tag := tag\<rparr>)"
  using assms parse_repo [of xs tag _ tb sc "[]"] by (simp add: parse_run)

lemma parse_pending:
  assumes "list_all repo_ch xs" "list_all repo_ch tag" "img_Tag r = []"
  shows "parse_from tb (xs @ tag_part tag) (scan_at scanningRepoNameOrRepo [u] tok r) =
     Inr (r\<lparr>img_User := u, img_Repo := tok @ xs, img_Tag := tag\<rparr>)"
proof -
  obtain a b where ab: "xs = a @ b" "list_all user_ch a" "b = [] \<or> (\<exists>b'. b = CHR ''.'' # b' \<and> list_all repo_ch b')"
    using split_repo [OF assms(1)] .
  show ?thesis
  proof (cases "b = []")
    case True
    then show ?thesis
      using ab assms parse_tag [of tag tb "[]" "[]"] by (cases r) (auto simp: parse_run tag_part_def)
  next
    case False
    then show ?thesis
      using ab assms parse_repo [of _ tag _ tb "[]" "tok @ a @ ''.''"] by (cases r) (auto simp: parse_run)
  qed
qed

lemma parse_host_incomplete:
  "CHR ''/'' \<notin> set cs \<Longrightarrow> sc_state s \<in> {scanningHost, scanningPort} \<Longrightarrow> \<exists>e. parse_from tb cs s = Inl e"
proof (induction cs arbitrary: s)
  case (Cons c cs)
  then have "(of_char c :: nat) \<noteq> slash" by (metis char_rune(4) list.set_intros(1))
  with Cons show ?case
    by (auto simp: parse_from_Cons append_rune_def next_token_def on_result_def)
qed (auto simp: parse_from_Nil scan_end_def)

definition breaks :: "(char \<Rightarrow> bool) \<Rightarrow> char \<Rightarrow> string \<Rightarrow> bool" where
  "breaks P c xs = (case dropWhile P xs of [] \<Rightarrow> False | x # _ \<Rightarrow> x = c)"

text \<open>
  A name without host and user is read as a possible host until its first underscore, and its
  tag as a possible port while it has only digits.
\<close>

definition bare_ok :: "string \<Rightarrow> string \<Rightarrow> bool" where
  "bare_ok repo tag = (\<not> breaks plain_ch CHR ''.'' repo \<and> (list_all plain_ch repo \<longrightarrow> \<not> breaks is_digit CHR ''_'' tag))"

lemma breaks_append: "list_all P a \<Longrightarrow> breaks P c (a @ b) = breaks P c b"
  by (induction a) (auto simp: breaks_def)

lemma breaks_Cons: "\<not> P x \<Longrightarrow> breaks P c (x # xs) = (x = c)"
  by (simp add: breaks_def)

lemma breaks_Nil [simp]: "breaks P c [] = False"
  by (simp add: breaks_def)

lemma repo_ch_slash: "list_all repo_ch xs \<Longrightarrow> CHR ''/'' \<notin> set xs"
  by (auto simp: list_all_iff repo_ch_def user_ch_def plain_ch_def alnum_ch_def between_def dest!: bspec)

lemma not_plain: "\<not> plain_ch CHR ''.''" "\<not> plain_ch CHR ''_''" "\<not> is_digit CHR ''_''"
  by (simp_all add: plain_ch_def alnum_ch_def between_def is_digit_def)

abbreviation scan_bare :: scan where
  "scan_bare \<equiv> scan_at scanningHostOrRepoName [] [] no_ImageID"

lemma scan_tag_start:
  "IsLetter tb r \<or> r = dash \<or> r = period \<Longrightarrow> \<not> IsDigit tb r \<Longrightarrow>
     scan_rune tb r scanningPortOrTag (scan_at scanningPortOrTag [x] tok res) =
       Inr (scan_at scanningTag [] (tok @ [byte_of r]) (res\<lparr>img_Repo := x\<rparr>))"
  by (auto simp: parse_run)

lemma parse_port_or_tag:
  assumes "list_all repo_ch tag" "img_Tag r = []"
  shows "if breaks is_digit CHR ''_'' tag then \<exists>e. parse_from tb tag (scan_at scanningPortOrTag [x] [] r) = Inl e
     else parse_from tb tag (scan_at scanningPortOrTag [x] [] r) = Inr (r\<lparr>img_Repo := x, img_Tag := tag\<rparr>)"
proof -
  obtain a b where ab: "tag = a @ b" "list_all is_digit a" "b = [] \<or> \<not> is_digit (hd b)" using split_class .
  show ?thesis
  proof (cases b)
    case Nil
    then show ?thesis using ab assms breaks_append [of is_digit a _ "[]"] parse_from_span [of scanningPortOrTag a tb "[]"]
      by (simp add: parse_run)
  next
    case (Cons c b')
    have repo: "repo_ch c" "list_all repo_ch b'" using assms Cons ab(1) by simp_all
    note asc = repo_ch_ascii [OF repo(1)]
    have kind: "c = CHR ''_'' \<or> (c \<noteq> CHR ''_'' \<and> (IsLetter tb (of_char c) \<or> of_char c = dash \<or> of_char c = period))"
      "\<not> IsDigit tb (of_char c)"
      using repo ab(3) Cons alnum_ascii [OF asc, of tb] IsDigit_ascii [OF asc, of tb]
      by (auto simp: repo_ch_def user_ch_def plain_ch_def alnum_def dash_def period_def)
    have br: "breaks is_digit CHR ''_'' tag = (c = CHR ''_'')"
      using ab Cons by (simp add: breaks_append breaks_Cons)
    have "parse_from tb tag (scan_at scanningPortOrTag [x] [] r) = parse_from tb (c # b') (scan_at scanningPortOrTag [x] a r)"
      using ab Cons by (simp add: parse_from_span)
    then show ?thesis
      using br kind assms parse_tag [OF repo(2), of tb "[]" "a @ [c]" "r\<lparr>img_Repo := x\<rparr>"] ab Cons
        scan_tag_start [of tb "of_char c" x a r]
      by (cases "c = CHR ''_''") (simp_all add: parse_separator, simp add: parse_from_Cons)
  qed
qed

lemma parse_bare:
  assumes "list_all repo_ch xs" "list_all repo_ch tag"
  shows "if bare_ok xs tag then parse_from tb (xs @ tag_part tag) scan_bare = Inr (no_ImageID\<lparr>img_Repo := xs, img_Tag := tag\<rparr>)
     else \<exists>e. parse_from tb (xs @ tag_part tag) scan_bare = Inl e"
proof -
  obtain a b where ab: "xs = a @ b" "list_all plain_ch a"
    "b = [] \<or> (\<exists>c b'. b = c # b' \<and> c \<in> {CHR ''.'', CHR ''_''} \<and> list_all repo_ch b')"
    using split_bare [OF assms(1)] .
  consider (plain) "b = []" | (host) b' where "b = CHR ''.'' # b'" "list_all repo_ch b'"
    | (name) b' where "b = CHR ''_'' # b'" "list_all repo_ch b'"
    using ab(3) by auto
  then show ?thesis
  proof cases
    case plain
    then have "bare_ok xs tag \<longleftrightarrow> \<not> breaks is_digit CHR ''_'' tag"
      using ab breaks_append [of plain_ch a _ "[]"] by (simp add: bare_ok_def)
    then show ?thesis
      using plain ab parse_port_or_tag [OF assms(2), of no_ImageID tb xs]
        parse_from_span [of scanningHostOrRepoName a tb "[]" "[]" "[]" no_ImageID]
      by (cases "tag = []") (auto simp: parse_run tag_part_def no_ImageID_def)
  next
    case host
    have "\<not> bare_ok xs tag" using ab host by (simp add: bare_ok_def breaks_append breaks_Cons not_plain)
    moreover have "CHR ''/'' \<notin> set (b' @ tag_part tag)"
      using repo_ch_slash [OF host(2)] repo_ch_slash [OF assms(2)] by (auto simp: tag_part_def)
    ultimately show ?thesis
      using ab host parse_host_incomplete [of "b' @ tag_part tag" "scan_at scanningHost [] (a @ ''.'') no_ImageID" tb]
      by (simp add: parse_run)
  next
    case name
    have "bare_ok xs tag" using ab name by (simp add: bare_ok_def breaks_append breaks_Cons not_plain)
    then show ?thesis
      using ab name assms parse_reponame [OF name(2) assms(2), of no_ImageID tb "[]" "a @ ''_''"]
      by (simp add: parse_run no_ImageID_def)
  qed
qed

text \<open>The identifiers that the printer and the parser agree on.\<close>

definition wf_id :: "ImageID \<Rightarrow> bool" where
  "wf_id iid =
     (wf_fields iid \<and>
      (if img_Host iid = [] then
         img_Port iid = 0 \<and> (img_User iid = [] \<longrightarrow> bare_ok (img_Repo iid) (img_Tag iid))
       else img_Port iid = 0 \<and> CHR ''.'' \<notin> set (img_Host iid) \<longrightarrow> img_User iid \<noteq> []))"

lemma String_parts:
  "String iid =
     (if img_Host iid \<noteq> [] then
        img_Host iid @ (if img_Port iid \<noteq> 0 then CHR '':'' # show_int (img_Port iid) else []) @ ''/''
      else []) @
     (if img_User iid \<noteq> [] then img_User iid @ ''/'' else []) @ img_Repo iid @ tag_part (img_Tag iid)"
  by (simp add: String_def BaseName_def tag_part_def)

lemma digits_show: "0 \<le> i \<Longrightarrow> list_all is_digit (show_int i)"
  using show_nat_digits [of "nat i"] by (simp add: show_int_def)

lemma repo_ascii: "list_all repo_ch xs \<Longrightarrow> ascii xs"
  by (auto simp: ascii_def list_all_iff dest: repo_ch_ascii)

lemma ascii_append [simp]: "ascii (xs @ ys) = (ascii xs \<and> ascii ys)"
  by (simp add: ascii_def)

lemma ascii_separator [simp]: "ascii (CHR ''/'' # xs) = ascii xs" "ascii (CHR '':'' # xs) = ascii xs" "ascii []"
  by (simp_all add: ascii_def)

lemma fields_ascii: "wf_fields iid \<Longrightarrow> ascii (String iid)"
  using repo_ascii [OF classes_mono(6), of "img_Host iid"] repo_ascii [OF classes_mono(3), of "img_User iid"]
    repo_ascii [OF classes_mono(5), OF digits_show, of "img_Port iid"] repo_ascii
  by (auto simp: String_parts wf_fields_def tag_part_def)

text \<open>After the host and its separator: the rest of an identifier from the state \<open>scanningRepoName\<close>.\<close>

lemma parse_rest:
  assumes "wf_fields iid" "img_Tag r = []" "img_User r = []"
  shows "parse_from tb ((if img_User iid \<noteq> [] then img_User iid @ ''/'' else []) @ img_Repo iid @ tag_part (img_Tag iid))
       (scan_at scanningRepoName sc [] r) =
     Inr (r\<lparr>img_User := img_User iid, img_Repo := img_Repo iid, img_Tag := img_Tag iid\<rparr>)"
  using assms parse_user_repo [of "img_User iid" "img_Repo iid" "img_Tag iid" r tb sc "[]"]
    parse_reponame [of "img_Repo iid" "img_Tag iid" r tb sc "[]"]
  by (cases r) (auto simp: wf_fields_def)

lemma split_host:
  assumes "list_all host_ch xs"
  obtains (plain) "list_all plain_ch xs" "CHR ''.'' \<notin> set xs"
  | (dotted) a b where "xs = a @ CHR ''.'' # b" "list_all plain_ch a" "list_all host_ch b"
proof -
  obtain a b where "xs = a @ b" "list_all plain_ch a" "b = [] \<or> \<not> plain_ch (hd b)" using split_class .
  then show thesis using assms that not_plain
    by (cases b) (auto simp: host_ch_def list_all_iff)
qed

lemma parse_host_port:
  assumes "list_all host_ch host" "0 < port" "port < 2 ^ 63"
  shows "parse_from tb (host @ CHR '':'' # show_int port @ CHR ''/'' # cs) scan_bare =
     parse_from tb cs (scan_at scanningRepoName [] [] (no_ImageID\<lparr>img_Host := host, img_Port := port\<rparr>))"
proof -
  have port: "Atoi (show_int port) = Some port" using assms by (simp add: Atoi_show_int in_int64_def)
  show ?thesis
    using assms(1)
  proof (cases rule: split_host)
    case plain
    then show ?thesis using port digits_show [of port] assms(2)
      by (simp add: parse_run set_port_def)
  next
    case dotted
    then show ?thesis using port digits_show [of port] assms(2)
      by (simp add: parse_run set_port_def)
  qed
qed

lemma parse_host_dotted:
  assumes "list_all host_ch host" "CHR ''.'' \<in> set host"
  shows "parse_from tb (host @ CHR ''/'' # cs) scan_bare =
     parse_from tb cs (scan_at scanningRepoName [] [] (no_ImageID\<lparr>img_Host := host\<rparr>))"
  using assms(1)
proof (cases rule: split_host)
  case dotted
  then show ?thesis by (simp add: parse_run)
qed (use assms in simp)

lemma parse_host_user:
  assumes "list_all plain_ch host" "list_all user_ch user" "list_all repo_ch xs" "list_all repo_ch tag"
  shows "parse_from tb (host @ CHR ''/'' # user @ CHR ''/'' # xs @ tag_part tag) scan_bare =
     Inr (no_ImageID\<lparr>img_Host := host, img_User := user, img_Repo := xs, img_Tag := tag\<rparr>)"
  using assms parse_repo [of xs tag _ tb "[]" "[]"] by (simp add: parse_run no_ImageID_def)

lemma parse_user_bare:
  assumes "list_all user_ch user" "list_all repo_ch xs" "list_all repo_ch tag"
  shows "parse_from tb (user @ CHR ''/'' # xs @ tag_part tag) scan_bare =
     Inr (no_ImageID\<lparr>img_User := user, img_Repo := xs, img_Tag := tag\<rparr>)"
proof -
  obtain a b where ab: "user = a @ b" "list_all plain_ch a" "b = [] \<or> \<not> plain_ch (hd b)" using split_class .
  show ?thesis
  proof (cases b)
    case Nil
    then show ?thesis using ab assms parse_pending [of xs tag no_ImageID tb user "[]"]
      by (simp add: parse_run no_ImageID_def)
  next
    case (Cons c b')
    then have "c = CHR ''_''" "list_all user_ch b'" using ab assms by (auto simp: user_ch_def)
    then show ?thesis
      using ab Cons assms parse_user_repo [of b' xs tag no_ImageID tb "[]" "a @ ''_''"]
      by (simp add: parse_run no_ImageID_def)
  qed
qed

text \<open>What the parser makes of a printed identifier, by the shape of its registry.\<close>

lemma parse_no_host:
  assumes "wf_fields iid" "img_Host iid = []"
  shows "if img_User iid = [] \<longrightarrow> bare_ok (img_Repo iid) (img_Tag iid)
     then ParseImageID tb (String iid) = Inr (iid\<lparr>img_Port := 0\<rparr>)
     else \<exists>e. ParseImageID tb (String iid) = Inl e"
proof -
  have "ParseImageID tb (String iid) = parse_from tb (String iid) scan_bare"
    by (rule ParseImageID_from) (rule fields_ascii [OF assms(1)])
  then show ?thesis
    using assms parse_bare [of "img_Repo iid" "img_Tag iid" tb]
      parse_user_bare [of "img_User iid" "img_Repo iid" "img_Tag iid" tb]
    by (cases iid) (auto simp: String_parts wf_fields_def no_ImageID_def split: if_splits)
qed

lemma parse_with_host:
  assumes "wf_fields iid" "img_Host iid \<noteq> []"
  shows "ParseImageID tb (String iid) =
     (if img_Port iid = 0 \<and> CHR ''.'' \<notin> set (img_Host iid) \<and> img_User iid = []
      then Inr (iid\<lparr>img_Host := [], img_User := img_Host iid\<rparr>) else Inr iid)"
proof -
  have start: "ParseImageID tb (String iid) = parse_from tb (String iid) scan_bare"
    by (rule ParseImageID_from) (rule fields_ascii [OF assms(1)])
  have wf: "list_all host_ch (img_Host iid)" "list_all user_ch (img_User iid)" "list_all repo_ch (img_Repo iid)"
    "list_all repo_ch (img_Tag iid)" "0 \<le> img_Port iid" "img_Port iid < 2 ^ 63"
    using assms(1) by (simp_all add: wf_fields_def)
  have rest: "parse_from tb ((if img_User iid \<noteq> [] then img_User iid @ ''/'' else []) @ img_Repo iid @ tag_part (img_Tag iid))
      (scan_at scanningRepoName [] [] (no_ImageID\<lparr>img_Host := img_Host iid, img_Port := img_Port iid\<rparr>)) = Inr iid"
    using parse_rest [OF assms(1)] by (cases iid) (simp add: no_ImageID_def)
  have plain: "list_all plain_ch (img_Host iid)" if "CHR ''.'' \<notin> set (img_Host iid)"
    using that wf(1) by (auto simp: list_all_iff host_ch_def)
  consider (port) "0 < img_Port iid" | (dotted) "img_Port iid = 0" "CHR ''.'' \<in> set (img_Host iid)"
    | (user) "img_Port iid = 0" "CHR ''.'' \<notin> set (img_Host iid)" "img_User iid \<noteq> []"
    | (none) "img_Port iid = 0" "CHR ''.'' \<notin> set (img_Host iid)" "img_User iid = []"
    using wf(5) by force
  then show ?thesis
  proof cases
    case port
    then show ?thesis using start rest parse_host_port [OF wf(1) port wf(6)] assms(2) by (simp add: String_parts)
  next
    case dotted
    then show ?thesis using start rest parse_host_dotted [OF wf(1) dotted(2)] assms(2)
      by (simp add: String_parts no_ImageID_def)
  next
    case user
    then show ?thesis using start parse_host_user [OF plain wf(2,3,4)] assms(2)
      by (cases iid) (simp add: String_parts no_ImageID_def)
  next
    case none
    then show ?thesis using start parse_user_bare [OF classes_mono(2) [OF plain] wf(3,4)] assms(2)
      by (cases iid) (simp add: String_parts no_ImageID_def)
  qed
qed

lemma Validate_parse: "Validate tb iid \<longleftrightarrow> ParseImageID tb (String iid) = Inr iid"
  by (auto simp: Validate_def split: sum.splits)

text \<open>
  C34. Printing and parsing an image identifier give it back exactly when its fields are made of
  the characters of the grammar, the port is a non-negative machine integer that stands with a
  host, a host without dot and port comes with a user, and a name with neither host nor user has
  no dot before its first underscore and, when it has no underscore, a tag whose leading digits
  are not followed by one. For identifiers of ASCII text this is what \<^verbatim>\<open>Validate\<close> decides.
\<close>

theorem Validate_iff_wf:
  assumes "ascii (String iid)"
  shows "Validate tb iid \<longleftrightarrow> wf_id iid"
proof -
  have "wf_fields iid" if "Validate tb iid"
    using that ParseImageID_fields [OF assms] by (auto simp: Validate_parse)
  moreover have "Validate tb iid \<longleftrightarrow> wf_id iid" if "wf_fields iid"
    using that parse_no_host [OF that, of tb] parse_with_host [OF that, of tb]
    by (cases iid) (auto simp: Validate_parse wf_id_def split: if_splits)
  ultimately show ?thesis by (auto simp: wf_id_def)
qed

abbreviation no_tables :: Tables where
  "no_tables \<equiv> \<lparr>letterTable = \<lambda>_. False, digitTable = \<lambda>_. False\<rparr>"

abbreviation sample_id :: ImageID where
  "sample_id \<equiv> \<lparr>img_Host = ''quay.io'', img_Port = 5000, img_User = ''zenoss'', img_Repo = ''core_5.0'', img_Tag = ''1.2''\<rparr>"

lemma sample_id_wf: "wf_id sample_id"
  by (simp add: wf_id_def wf_fields_def repo_ch_def user_ch_def host_ch_def plain_ch_def alnum_ch_def between_def)

theorem Validate_iff_wf_witness:
  "ascii (String sample_id) \<and> Validate no_tables sample_id"
  using Validate_iff_wf [of sample_id no_tables] sample_id_wf
    fields_ascii [of sample_id] by (simp add: wf_id_def)



text \<open>
  Renaming an image for a tenant: with a registry of the form host and port, and an image named
  by a repository with or without user and tag, the result has the host and port of the registry,
  the tenant as user, the repository of the image and the new tag.
\<close>

theorem RenameImageID_renames:
  assumes "list_all host_ch host" "host \<noteq> []" "0 < port" "port < 2 ^ 63"
    and "list_all user_ch tenant" "tenant \<noteq> []" "list_all repo_ch tag" "tag \<noteq> []"
    and "list_all user_ch user" "list_all repo_ch repo" "repo \<noteq> []" "list_all repo_ch oldtag"
  shows "RenameImageID tb (host @ '':'' @ show_int port) tenant
       ((if user \<noteq> [] then user @ ''/'' else []) @ repo @ (if oldtag \<noteq> [] then '':'' @ oldtag else [])) tag =
     Inr \<lparr>img_Host = host, img_Port = port, img_User = tenant, img_Repo = repo, img_Tag = tag\<rparr>"
proof -
  define old where "old = \<lparr>img_Host = host, img_Port = port, img_User = user, img_Repo = repo, img_Tag = oldtag\<rparr>"
  define new where "new = \<lparr>img_Host = host, img_Port = port, img_User = tenant, img_Repo = repo, img_Tag = tag\<rparr>"
  have wf: "wf_fields old" "wf_fields new" using assms by (simp_all add: old_def new_def wf_fields_def)
  have "ParseImageID tb (String old) = Inr old" "ParseImageID tb (String new) = Inr new"
    using parse_with_host [OF wf(1), of tb] parse_with_host [OF wf(2), of tb] assms
    by (simp_all add: old_def new_def)
  then show ?thesis
    using assms
    by (cases "user = []"; cases "oldtag = []") (simp_all add: RenameImageID_def String_def BaseName_def old_def new_def)
qed

theorem RenameImageID_renames_witness:
  "RenameImageID no_tables (''localhost'' @ '':'' @ show_int 5000) ''myLittleTenant'' ''zenoss/core-unstable:5.0.0'' ''latest'' =
     Inr \<lparr>img_Host = ''localhost'', img_Port = 5000, img_User = ''myLittleTenant'', img_Repo = ''core-unstable'',
           img_Tag = ''latest''\<rparr>"
  using RenameImageID_renames [of "''localhost''" 5000 "''myLittleTenant''" "''latest''" "''zenoss''" "''core-unstable''" "''5.0.0''" no_tables]
  by (simp add: repo_ch_def user_ch_def host_ch_def plain_ch_def alnum_ch_def between_def)

subsection \<open>Where the parser differs from its grammar\<close>

text \<open>
  The comment gives a grammar that these inputs do not follow: a tag such as \<^verbatim>\<open>1_2\<close> is refused
  after a bare repository and accepted after a user, a bare repository with a dot is refused, the
  empty text is accepted, and a letter outside ASCII is cut to its low byte.
\<close>

lemma bare_tag_underscore: "ParseImageID tb ''repo:1_2'' = Inl BadPortOrTag"
  by (simp add: ParseImageID_from ascii_def parse_from_Cons scan_defs alnum_def IsLetter_def IsDigit_def between_def
      dash_def period_def underscore_def slash_def colon_def)

lemma user_tag_underscore: "\<exists>iid. ParseImageID tb ''user/repo:1_2'' = Inr iid"
  using parse_user_bare [of "''user''" "''repo''" "''1_2''" tb]
  by (simp add: ParseImageID_from ascii_def repo_ch_def user_ch_def plain_ch_def alnum_ch_def between_def tag_part_def)

lemma bare_repo_dot: "\<exists>e. ParseImageID tb ''my.repo'' = Inl e"
  using parse_bare [of "''my.repo''" "[]" tb]
  by (simp add: ParseImageID_from ascii_def bare_ok_def breaks_def repo_ch_def user_ch_def plain_ch_def alnum_ch_def
      between_def tag_part_def)

lemma empty_image_valid: "Validate tb no_ImageID"
  by (simp add: Validate_parse ParseImageID_def String_def BaseName_def no_ImageID_def runes_def scan_start_def scan_end_def)

lemma letter_cut_to_byte:
  assumes "letterTable tb 321"
  shows "ParseImageID tb [char_of (197 :: nat), char_of (129 :: nat)] = ParseImageID tb ''A''"
proof -
  have "runes [char_of (197 :: nat), char_of (129 :: nat)] = [321]" "runes ''A'' = [65]"
    by (simp_all add: runes_def DecodeRune_def between_def cont_def)
  then show ?thesis
    using assms
    by (simp add: ParseImageID_def scan_start_def alnum_def IsLetter_def between_def append_rune_def byte_of_def scan_end_def)
qed

subsection \<open>Equality and merging\<close>

lemma Equals_iff_printed:
  "Equals a b \<longleftrightarrow> BaseName a = BaseName b \<and> (img_Tag a = img_Tag b \<or> {img_Tag a, img_Tag b} \<subseteq> {[], ''latest''})"
  by (auto simp: Equals_def IsLatest_def)

lemma Equals_equivalence: "Equals a a" "Equals a b \<Longrightarrow> Equals b a" "Equals a b \<Longrightarrow> Equals b c \<Longrightarrow> Equals a c"
  by (auto simp: Equals_def IsLatest_def split: if_splits)

lemma Copy_id: "Copy iid = iid"
  by (cases iid) (simp add: Copy_def no_ImageID_def)

lemma Merge_fields:
  "Merge new iid = \<lparr>img_Host = (if img_Host new = [] then img_Host iid else img_Host new),
     img_Port = (if img_Port new = 0 then img_Port iid else img_Port new),
     img_User = (if img_User new = [] then img_User iid else img_User new),
     img_Repo = (if img_Repo new = [] then img_Repo iid else img_Repo new),
     img_Tag = (if img_Tag new = [] then img_Tag iid else img_Tag new)\<rparr>"
  by (cases iid) (simp add: Merge_def Let_def)

lemma Merge_assoc: "Merge c (Merge b a) = Merge (Merge c b) a"
  by (simp add: Merge_fields)

end
