(* ===== verification/Service_Store.thy ===== *)
theory Service_Store
  imports Service_Model Go_Strings
begin

section \<open>The database and the store of services\<close>

text \<open>
  \<^verbatim>\<open>datastore/datastore.go\<close>, \<^verbatim>\<open>datastore/elastic/connection.go\<close>,
  \<^verbatim>\<open>domain/service/servicestore.go\<close> and the validation of the entities that are stored
  (\<^verbatim>\<open>validation/validators.go\<close>, \<^verbatim>\<open>domain/service/validation.go\<close>,
  \<^verbatim>\<open>domain/addressassignment/validation.go\<close>). Entities are documents of Elasticsearch; the
  client library is a record of four operations with the laws of the locale \<open>elastic\<close>. A
  service is stored as a document, but its desired and current state are kept in a cache in
  memory, which every read puts on top of the document. JSON is the identity on documents;
  the monitoring profile, the health checks and the configuration files of a service are not
  part of the record. The mapping of both kinds leaves the searched fields unanalysed, so
  that a term matches when the field is equal.
\<close>

subsection \<open>Documents and the server\<close>

datatype Doc = ServiceDoc Service | AssignmentDoc AddressAssignment

datatype es_error = ConflictError | OtherError string

type_synonym Terms = "(string \<times> string) list"

text \<open>
  A search gets the kind, the fields with their values and the largest number of results.
\<close>

record 's Elastic =
  es_Index :: "string \<Rightarrow> string \<Rightarrow> Doc \<Rightarrow> int \<Rightarrow> 's \<Rightarrow> (es_error + bool) \<times> 's"
  es_Get :: "string \<Rightarrow> string \<Rightarrow> 's \<Rightarrow> es_error + (Doc \<times> int) option"
  es_Delete :: "string \<Rightarrow> string \<Rightarrow> 's \<Rightarrow> es_error option \<times> 's"
  es_Search :: "string \<Rightarrow> Terms \<Rightarrow> nat \<Rightarrow> 's \<Rightarrow> es_error + (Doc \<times> int) list"

fun doc_field :: "Doc \<Rightarrow> string \<Rightarrow> string option" where
  "doc_field (ServiceDoc svc) f =
     (if f = ''ParentServiceID'' then Some (svc_ParentServiceID svc)
      else if f = ''DeploymentID'' then Some (svc_DeploymentID svc)
      else if f = ''Name'' then Some (svc_Name svc)
      else if f = ''PoolID'' then Some (svc_PoolID svc)
      else None)"
| "doc_field (AssignmentDoc a) f =
     (if f = ''ServiceID'' then Some (aa_ServiceID a)
      else if f = ''EndpointName'' then Some (aa_EndpointName a)
      else if f = ''PoolID'' then Some (aa_PoolID a)
      else if f = ''IPAddr'' then Some (aa_IPAddr a)
      else if f = ''Port'' then Some (show_nat (unat (aa_Port a)))
      else None)"

definition doc_matches :: "Terms \<Rightarrow> Doc \<Rightarrow> bool" where
  "doc_matches ts d = list_all (\<lambda>(f, v). doc_field d f = Some v) ts"

datatype ds_error =
    NoSuchEntity string string
  | ErrEmptyKindID
  | ErrEmptyKind
  | Violations "string list"
  | ErrConflict
  | ErrElastic es_error
  | ErrNotOK
  | EmptyArgument string
  | ErrDecode

definition conn_Put :: "'s Elastic \<Rightarrow> string \<Rightarrow> string \<Rightarrow> Doc \<Rightarrow> int \<Rightarrow> 's \<Rightarrow> ds_error option \<times> 's" where
  "conn_Put es kind i d version s =
     (case es_Index es kind i d version s of
        (Inl ConflictError, s') \<Rightarrow> (Some ErrConflict, s')
      | (Inl (OtherError e), s') \<Rightarrow> (Some (ErrElastic (OtherError e)), s')
      | (Inr ok, s') \<Rightarrow> (if ok then None else Some ErrNotOK, s'))"

definition conn_Get :: "'s Elastic \<Rightarrow> string \<Rightarrow> string \<Rightarrow> 's \<Rightarrow> ds_error + (Doc \<times> int)" where
  "conn_Get es kind i s =
     (case es_Get es kind i s of
        Inl e \<Rightarrow> Inl (ErrElastic e)
      | Inr None \<Rightarrow> Inl (NoSuchEntity kind i)
      | Inr (Some m) \<Rightarrow> Inr m)"

definition conn_Delete :: "'s Elastic \<Rightarrow> string \<Rightarrow> string \<Rightarrow> 's \<Rightarrow> ds_error option \<times> 's" where
  "conn_Delete es kind i s = (case es_Delete es kind i s of (e, s') \<Rightarrow> (map_option ErrElastic e, s'))"

definition conn_Query :: "'s Elastic \<Rightarrow> string \<Rightarrow> Terms \<Rightarrow> nat \<Rightarrow> 's \<Rightarrow> ds_error + (Doc \<times> int) list" where
  "conn_Query es kind ts n s =
     (case es_Search es kind ts n s of Inl e \<Rightarrow> Inl (ErrElastic e) | Inr rs \<Rightarrow> Inr rs)"

subsection \<open>Validation\<close>

text \<open>
  A validator returns the list of its violations. \<^verbatim>\<open>net.ParseIP\<close> accepts dotted decimals and
  the textual forms of version 6, with one ellipsis and an embedded version 4 address.
\<close>

definition NotEmpty :: "string \<Rightarrow> string \<Rightarrow> string list" where
  "NotEmpty fieldName v = (if TrimSpace v = [] then [''empty string for '' @ fieldName] else [])"

definition StringIn :: "string \<Rightarrow> string list \<Rightarrow> string list" where
  "StringIn v others = (if v \<in> set others then [] else [''string '' @ v @ '' not in''])"

definition IntIn :: "int \<Rightarrow> int list \<Rightarrow> string list" where
  "IntIn v others = (if v \<in> set others then [] else [''int '' @ show_int v @ '' not in''])"

definition ValidPort :: "int \<Rightarrow> string list" where
  "ValidPort port = (if port < 1 \<or> port > 65535 then [''not in valid port range: '' @ show_int port] else [])"

definition hex_value :: "char \<Rightarrow> nat option" where
  "hex_value c = (let n = of_char c :: nat in
     if 48 \<le> n \<and> n \<le> 57 then Some (n - 48)
     else if 97 \<le> n \<and> n \<le> 102 then Some (n - 87)
     else if 65 \<le> n \<and> n \<le> 70 then Some (n - 55) else None)"

definition big :: nat where "big = 0xFFFFFF"

text \<open>\<^verbatim>\<open>dtoi\<close> and \<^verbatim>\<open>xtoi\<close>: the value of the leading digits and the rest; none when there is no digit or too many.\<close>

fun digits_loop :: "nat \<Rightarrow> (char \<Rightarrow> nat option) \<Rightarrow> nat \<Rightarrow> string \<Rightarrow> (nat \<times> string) option" where
  "digits_loop base val n [] = Some (n, [])"
| "digits_loop base val n (c # s) =
     (case val c of
        None \<Rightarrow> Some (n, c # s)
      | Some v \<Rightarrow> if n * base + v \<ge> big then None else digits_loop base val (n * base + v) s)"

definition dec_value :: "char \<Rightarrow> nat option" where
  "dec_value c = (if is_digit c then Some (of_char c - 48) else None)"

definition dtoi :: "string \<Rightarrow> (nat \<times> string) option" where
  "dtoi s = (case s of [] \<Rightarrow> None | c # _ \<Rightarrow> if dec_value c = None then None else digits_loop 10 dec_value 0 s)"

definition xtoi :: "string \<Rightarrow> (nat \<times> string) option" where
  "xtoi s = (case s of [] \<Rightarrow> None | c # _ \<Rightarrow> if hex_value c = None then None else digits_loop 16 hex_value 0 s)"

fun ipv4_bytes :: "nat \<Rightarrow> string \<Rightarrow> bool" where
  "ipv4_bytes 0 s = (s = [])"
| "ipv4_bytes (Suc k) s =
     (case (if k = 3 then Some s else case s of CHR ''.'' # r \<Rightarrow> Some r | _ \<Rightarrow> None) of
        None \<Rightarrow> False
      | Some r \<Rightarrow> (case dtoi r of None \<Rightarrow> False | Some (n, rest) \<Rightarrow> n \<le> 0xFF \<and> ipv4_bytes k rest))"

definition parseIPv4 :: "string \<Rightarrow> bool" where
  "parseIPv4 s = ipv4_bytes 4 s"

text \<open>
  The loop of \<^verbatim>\<open>parseIPv6\<close> with the number of pairs of bytes that are left and whether an
  ellipsis was seen; at its end the pairs are complete or an ellipsis fills the gap.
\<close>

definition ipv6_end :: "nat \<Rightarrow> bool \<Rightarrow> string \<Rightarrow> bool" where
  "ipv6_end left ellipsis s = (s = [] \<and> (if left > 0 then ellipsis else \<not> ellipsis))"

fun ipv6_loop :: "nat \<Rightarrow> bool \<Rightarrow> string \<Rightarrow> bool" where
  "ipv6_loop 0 ellipsis s = ipv6_end 0 ellipsis s"
| "ipv6_loop (Suc k) ellipsis s =
     (case xtoi s of
        None \<Rightarrow> False
      | Some (n, rest) \<Rightarrow>
          if n > 0xFFFF then False
          else (case rest of
            [] \<Rightarrow> ipv6_end k ellipsis []
          | CHR ''.'' # _ \<Rightarrow>
              (ellipsis \<or> k = 1) \<and> k \<ge> 1 \<and> parseIPv4 s \<and> ipv6_end (k - 1) ellipsis []
          | CHR '':'' # r1 \<Rightarrow>
              (case r1 of
                 [] \<Rightarrow> False
               | CHR '':'' # r2 \<Rightarrow>
                   if ellipsis then False
                   else if r2 = [] then ipv6_end k True [] else ipv6_loop k True r2
               | _ \<Rightarrow> ipv6_loop k ellipsis r1)
          | _ \<Rightarrow> False))"

definition parseIPv6 :: "string \<Rightarrow> bool" where
  "parseIPv6 s =
     (case s of
        CHR '':'' # CHR '':'' # r \<Rightarrow> r = [] \<or> ipv6_loop 8 True r
      | _ \<Rightarrow> ipv6_loop 8 False s)"

definition ParseIP :: "string \<Rightarrow> bool" where
  "ParseIP s =
     (case dropWhile (\<lambda>c. c \<noteq> CHR ''.'' \<and> c \<noteq> CHR '':'') s of
        [] \<Rightarrow> False
      | c # _ \<Rightarrow> if c = CHR ''.'' then parseIPv4 s else parseIPv6 s)"

definition IsIP :: "string \<Rightarrow> string list" where
  "IsIP v = (if ParseIP v then [] else [''invalid IP Address '' @ v])"

definition MinMax_Validate :: "MinMax \<Rightarrow> string list" where
  "MinMax_Validate mm =
     (if mm_Min mm < 0 \<or> mm_Max mm < 0 then [''Instances constraints must be positive'']
      else if mm_Max mm \<noteq> 0 \<and> mm_Min mm > mm_Max mm then [''Minimum instances larger than maximum instances'']
      else if mm_Default mm \<noteq> 0 then
        (if mm_Max mm \<noteq> 0 then
           (if mm_Default mm < mm_Min mm \<or> mm_Default mm > mm_Max mm
            then [''Default instance spec must be between min and max, inclusive''] else [])
         else if mm_Default mm < mm_Min mm
         then [''Default instance spec cannot be less than the minimum''] else [])
      else [])"

definition Endpoint_ValidEntity :: "ServiceEndpoint \<Rightarrow> string list" where
  "Endpoint_ValidEntity ep =
     NotEmpty ''endpoint.Name'' (ep_Name ep)
     @ StringIn (ep_Purpose ep) [''export'', ''import'', ''import_all'']
     @ (if ep_Protocol ep \<noteq> [] then
          StringIn (ep_Protocol ep) [''tcp'', ''udp''] @ ValidPort (int (unat (ep_PortNumber ep))) else [])
     @ NotEmpty ''endpoint.Application'' (ep_Application ep)"

definition instance_violations :: "Service \<Rightarrow> string list" where
  "instance_violations svc =
     (let n = svc_Instances svc; lim = svc_InstanceLimits svc in
      if n \<noteq> 0 then
        (if mm_Max lim \<noteq> 0 then
           (if n < mm_Min lim \<or> n > mm_Max lim then [''Instance count must be in InstanceLimits range''] else [])
         else if n < mm_Min lim then [''Instance count must be greater than InstanceLimits min''] else [])
      else [])"

abbreviation endpoints :: "Service \<Rightarrow> ServiceEndpoint list" where
  "endpoints svc \<equiv> (case svc_Endpoints svc of None \<Rightarrow> [] | Some eps \<Rightarrow> eps)"

definition Service_ValidEntity :: "Service \<Rightarrow> string list" where
  "Service_ValidEntity svc =
     NotEmpty ''ID'' (svc_ID svc) @ NotEmpty ''Name'' (svc_Name svc) @ NotEmpty ''PoolID'' (svc_PoolID svc)
     @ StringIn (svc_Launch svc) [''auto'', ''manual'']
     @ IntIn (svc_DesiredState svc) [SVCRun, SVCStop, SVCPause]
     @ MinMax_Validate (svc_InstanceLimits svc) @ instance_violations svc
     @ concat (map Endpoint_ValidEntity (endpoints svc))"

definition Assignment_ValidEntity :: "AddressAssignment \<Rightarrow> string list" where
  "Assignment_ValidEntity a =
     (let v = NotEmpty ''ServiceID'' (aa_ServiceID a) @ NotEmpty ''EndpointName'' (aa_EndpointName a)
              @ IsIP (aa_IPAddr a) @ ValidPort (int (unat (aa_Port a)))
      in if aa_AssignmentType a = ''static'' then v @ NotEmpty ''HostID'' (aa_HostID a)
         else if aa_AssignmentType a = ''virtual'' then v @ NotEmpty ''PoolID'' (aa_PoolID a)
         else [''assignment type must be static of virtual, found '' @ aa_AssignmentType a])"

fun ValidEntity :: "Doc \<Rightarrow> string list" where
  "ValidEntity (ServiceDoc svc) = Service_ValidEntity svc"
| "ValidEntity (AssignmentDoc a) = Assignment_ValidEntity a"

subsection \<open>The entity store\<close>

text \<open>
  The version of an assignment is always zero: assignments are only written when they are
  made. Version zero overwrites whatever is stored.
\<close>

fun GetDatabaseVersion :: "Doc \<Rightarrow> int" where
  "GetDatabaseVersion (ServiceDoc svc) = svc_DatabaseVersion svc"
| "GetDatabaseVersion (AssignmentDoc a) = 0"

definition validKey :: "string \<Rightarrow> string \<Rightarrow> ds_error option" where
  "validKey kind i = (if i = [] then Some ErrEmptyKindID else if kind = [] then Some ErrEmptyKind else None)"

definition DataStore_Put :: "'s Elastic \<Rightarrow> string \<Rightarrow> string \<Rightarrow> Doc \<Rightarrow> 's \<Rightarrow> ds_error option \<times> 's" where
  "DataStore_Put es kind i doc s =
     (case validKey kind i of
        Some e \<Rightarrow> (Some e, s)
      | None \<Rightarrow>
          if ValidEntity doc \<noteq> [] then (Some (Violations (ValidEntity doc)), s)
          else conn_Put es kind i doc (GetDatabaseVersion doc) s)"

definition DataStore_Get :: "'s Elastic \<Rightarrow> string \<Rightarrow> string \<Rightarrow> 's \<Rightarrow> ds_error + (Doc \<times> int)" where
  "DataStore_Get es kind i s =
     (case validKey kind i of Some e \<Rightarrow> Inl e | None \<Rightarrow> conn_Get es kind i s)"

definition DataStore_Delete :: "'s Elastic \<Rightarrow> string \<Rightarrow> string \<Rightarrow> 's \<Rightarrow> ds_error option \<times> 's" where
  "DataStore_Delete es kind i s =
     (case validKey kind i of Some e \<Rightarrow> (Some e, s) | None \<Rightarrow> conn_Delete es kind i s)"

subsection \<open>The cache of desired and current states\<close>

record volatileService =
  vs_ID :: string
  vs_DesiredState :: DesiredState
  vs_CurrentState :: ServiceCurrentState
  vs_UpdatedAt :: int

type_synonym volatile = "(string, volatileService) gomap"

record 's Store =
  st_db :: 's
  st_cache :: volatile

definition updateDesiredState :: "string \<Rightarrow> DesiredState \<Rightarrow> int \<Rightarrow> volatile \<Rightarrow> string list \<times> volatile" where
  "updateDesiredState serviceID desiredState updatedAt c =
     (let err = IntIn desiredState [SVCRun, SVCStop, SVCPause] in
      if err \<noteq> [] then (err, c)
      else ([], gset serviceID
        (case map_of c serviceID of
           None \<Rightarrow> \<lparr>vs_ID = serviceID, vs_DesiredState = desiredState, vs_CurrentState = '''', vs_UpdatedAt = updatedAt\<rparr>
         | Some e \<Rightarrow> e\<lparr>vs_DesiredState := desiredState, vs_UpdatedAt := updatedAt\<rparr>) c))"

definition updateCurrentState :: "string \<Rightarrow> ServiceCurrentState \<Rightarrow> int \<Rightarrow> volatile \<Rightarrow> string list \<times> volatile" where
  "updateCurrentState serviceID currentState updatedAt c =
     (case CurrentState_Validate currentState of
        Inl e \<Rightarrow> ([e], c)
      | Inr _ \<Rightarrow> ([], gset serviceID
        (case map_of c serviceID of
           None \<Rightarrow> \<lparr>vs_ID = serviceID, vs_DesiredState = 0, vs_CurrentState = currentState, vs_UpdatedAt = updatedAt\<rparr>
         | Some e \<Rightarrow> e\<lparr>vs_CurrentState := currentState, vs_UpdatedAt := updatedAt\<rparr>) c))"

text \<open>The exported functions drop the error and return nil.\<close>

definition UpdateDesiredState :: "string \<Rightarrow> DesiredState \<Rightarrow> int \<Rightarrow> 's Store \<Rightarrow> 's Store" where
  "UpdateDesiredState serviceID desiredState now st =
     st\<lparr>st_cache := snd (updateDesiredState serviceID desiredState now (st_cache st))\<rparr>"

definition UpdateCurrentState :: "string \<Rightarrow> ServiceCurrentState \<Rightarrow> int \<Rightarrow> 's Store \<Rightarrow> 's Store" where
  "UpdateCurrentState serviceID currentState now st =
     st\<lparr>st_cache := snd (updateCurrentState serviceID currentState now (st_cache st))\<rparr>"

definition removeVolatileInfo :: "string \<Rightarrow> volatile \<Rightarrow> volatile" where
  "removeVolatileInfo serviceID c = gdel serviceID c"

definition getVolatileInfo :: "string \<Rightarrow> volatile \<Rightarrow> volatileService option" where
  "getVolatileInfo serviceID c =
     map_option (\<lambda>e. if vs_CurrentState e = '''' then e\<lparr>vs_CurrentState := SVCCSUnknown\<rparr> else e) (map_of c serviceID)"

definition getUpdatedCacheEntries :: "int \<Rightarrow> volatile \<Rightarrow> volatileService list" where
  "getUpdatedCacheEntries since c = filter (\<lambda>e. vs_UpdatedAt e > since) (map snd c)"

definition updateServiceFromVolatileService :: "Service \<Rightarrow> volatileService \<Rightarrow> Service" where
  "updateServiceFromVolatileService svc e =
     svc\<lparr>svc_DesiredState := vs_DesiredState e, svc_CurrentState := vs_CurrentState e\<rparr>"

definition fillAdditionalInfo :: "volatile \<Rightarrow> Service \<Rightarrow> Service" where
  "fillAdditionalInfo c svc =
     (case getVolatileInfo (svc_ID svc) c of
        Some e \<Rightarrow> updateServiceFromVolatileService svc e
      | None \<Rightarrow> svc\<lparr>svc_DesiredState := SVCStop\<rparr>)"

subsection \<open>The store of services\<close>

abbreviation svcKind :: string where "svcKind \<equiv> ''service''"

fun decode_service :: "Doc \<times> int \<Rightarrow> ds_error + Service" where
  "decode_service (ServiceDoc svc, version) = Inr (svc\<lparr>svc_DatabaseVersion := version\<rparr>)"
| "decode_service (AssignmentDoc a, version) = Inl ErrDecode"

definition store_get :: "'s Elastic \<Rightarrow> string \<Rightarrow> 's \<Rightarrow> ds_error + Service" where
  "store_get es i s = (case DataStore_Get es svcKind i s of Inl e \<Rightarrow> Inl e | Inr m \<Rightarrow> decode_service m)"

definition Get :: "'s Elastic \<Rightarrow> string \<Rightarrow> 's Store \<Rightarrow> ds_error + Service" where
  "Get es i st =
     (case store_get es i (st_db st) of
        Inl e \<Rightarrow> Inl e
      | Inr svc \<Rightarrow> Inr (fillAdditionalInfo (st_cache st) svc))"

definition Put :: "'s Elastic \<Rightarrow> Service \<Rightarrow> int \<Rightarrow> 's Store \<Rightarrow> ds_error option \<times> 's Store" where
  "Put es svc updatedAt st =
     (case DataStore_Put es svcKind (svc_ID svc) (ServiceDoc svc) (st_db st) of
        (Some e, s') \<Rightarrow> (Some e, st\<lparr>st_db := s'\<rparr>)
      | (None, s') \<Rightarrow>
          (None, \<lparr>st_db = s',
             st_cache = snd (updateDesiredState (svc_ID svc) (svc_DesiredState svc) updatedAt (st_cache st))\<rparr>))"

definition Delete :: "'s Elastic \<Rightarrow> string \<Rightarrow> 's Store \<Rightarrow> ds_error option \<times> 's Store" where
  "Delete es i st =
     (case DataStore_Delete es svcKind i (st_db st) of
        (Some e, s') \<Rightarrow> (Some e, st\<lparr>st_db := s'\<rparr>)
      | (None, s') \<Rightarrow> (None, \<lparr>st_db = s', st_cache = removeVolatileInfo i (st_cache st)\<rparr>))"

fun convert :: "volatile \<Rightarrow> (Doc \<times> int) list \<Rightarrow> ds_error + Service list" where
  "convert c [] = Inr []"
| "convert c (m # ms) =
     (case decode_service m of
        Inl e \<Rightarrow> Inl e
      | Inr svc \<Rightarrow> (case convert c ms of Inl e \<Rightarrow> Inl e | Inr svcs \<Rightarrow> Inr (fillAdditionalInfo c svc # svcs)))"

definition service_query :: "'s Elastic \<Rightarrow> Terms \<Rightarrow> nat \<Rightarrow> 's Store \<Rightarrow> ds_error + Service list" where
  "service_query es ts n st =
     (case conn_Query es svcKind ts n (st_db st) of Inl e \<Rightarrow> Inl e | Inr ms \<Rightarrow> convert (st_cache st) ms)"

definition GetServices :: "'s Elastic \<Rightarrow> 's Store \<Rightarrow> ds_error + Service list" where
  "GetServices es st = service_query es [] 50000 st"

definition GetServicesByPool :: "'s Elastic \<Rightarrow> string \<Rightarrow> 's Store \<Rightarrow> ds_error + Service list" where
  "GetServicesByPool es poolID st =
     (let i = TrimSpace poolID in
      if i = [] then Inl (EmptyArgument ''poolID'') else service_query es [(''PoolID'', i)] 50000 st)"

definition GetServicesByDeployment :: "'s Elastic \<Rightarrow> string \<Rightarrow> 's Store \<Rightarrow> ds_error + Service list" where
  "GetServicesByDeployment es deploymentID st =
     (let i = TrimSpace deploymentID in
      if i = [] then Inl (EmptyArgument ''deploymentID'') else service_query es [(''DeploymentID'', i)] 50000 st)"

definition GetChildServices :: "'s Elastic \<Rightarrow> string \<Rightarrow> 's Store \<Rightarrow> ds_error + Service list" where
  "GetChildServices es parentID st =
     (let i = TrimSpace parentID in
      if i = [] then Inl (EmptyArgument ''parent service id'')
      else service_query es [(''ParentServiceID'', i)] 50000 st)"

text \<open>Without a size Elasticsearch returns up to ten results; only the first is used.\<close>

definition first_service :: "'s Elastic \<Rightarrow> Terms \<Rightarrow> 's Store \<Rightarrow> ds_error + Service option" where
  "first_service es ts st =
     (case service_query es ts 10 st of
        Inl e \<Rightarrow> Inl e
      | Inr [] \<Rightarrow> Inr None
      | Inr (svc # _) \<Rightarrow> Inr (Some svc))"

definition FindChildService ::
    "'s Elastic \<Rightarrow> string \<Rightarrow> string \<Rightarrow> string \<Rightarrow> 's Store \<Rightarrow> ds_error + Service option" where
  "FindChildService es deploymentID parentID serviceName st =
     (let parent = TrimSpace parentID; deployment = TrimSpace deploymentID; name = TrimSpace serviceName in
      if deployment = [] then Inl (EmptyArgument ''deployment ID'')
      else if name = [] then Inl (EmptyArgument ''service name'')
      else first_service es [(''DeploymentID'', deployment), (''ParentServiceID'', parent), (''Name'', name)] st)"

definition FindTenantByDeploymentID ::
    "'s Elastic \<Rightarrow> string \<Rightarrow> string \<Rightarrow> 's Store \<Rightarrow> ds_error + Service option" where
  "FindTenantByDeploymentID es deploymentID serviceName st =
     (let deployment = TrimSpace deploymentID; name = TrimSpace serviceName in
      if deployment = [] then Inl (EmptyArgument ''deployment ID'')
      else if name = [] then Inl (EmptyArgument ''service name'')
      else first_service es [(''DeploymentID'', deployment), (''Name'', name), (''ParentServiceID'', [])] st)"

text \<open>\<^verbatim>\<open>addUpdatedServicesFromCache\<close>: on an error the services found so far are returned with it.\<close>

fun add_entries ::
    "'s Elastic \<Rightarrow> 's \<Rightarrow> string list \<Rightarrow> volatileService list \<Rightarrow> Service list \<Rightarrow> Service list \<times> ds_error option" where
  "add_entries es s known [] svcs = (svcs, None)"
| "add_entries es s known (e # entries) svcs =
     (if vs_ID e \<in> set known then add_entries es s known entries svcs
      else case store_get es (vs_ID e) s of
        Inl err \<Rightarrow> (svcs, Some err)
      | Inr svc \<Rightarrow> add_entries es s known entries (svcs @ [updateServiceFromVolatileService svc e]))"

definition addUpdatedServicesFromCache ::
    "'s Elastic \<Rightarrow> Service list \<Rightarrow> int \<Rightarrow> 's Store \<Rightarrow> Service list \<times> ds_error option" where
  "addUpdatedServicesFromCache es svcs since st =
     add_entries es (st_db st) (map svc_ID svcs) (getUpdatedCacheEntries since (st_cache st)) svcs"

subsection \<open>What the store shows\<close>

text \<open>
  The service that is read under an id: the document with its version, the states of the
  cache on top of it.
\<close>

type_synonym docmap = "string \<times> string \<Rightarrow> (Doc \<times> int) option"

definition doc_service :: "docmap \<Rightarrow> string \<Rightarrow> Service option" where
  "doc_service D i =
     (case D (svcKind, i) of
        Some (ServiceDoc svc, v) \<Rightarrow> Some (svc\<lparr>svc_DatabaseVersion := v\<rparr>)
      | _ \<Rightarrow> None)"

definition shown :: "docmap \<Rightarrow> volatile \<Rightarrow> string \<Rightarrow> Service option" where
  "shown D c i = map_option (fillAdditionalInfo c) (doc_service D i)"

lemma map_Some_elem: "map Some xs = map f is' \<Longrightarrow> x \<in> set xs \<Longrightarrow> \<exists>i \<in> set is'. f i = Some x"
  by (induction xs arbitrary: is') (auto simp: Cons_eq_map_conv)

lemma map_Some_index: "map Some xs = map f is' \<Longrightarrow> i \<in> set is' \<Longrightarrow> \<exists>x \<in> set xs. f i = Some x"
  by (induction is' arbitrary: xs) (auto simp: map_eq_Cons_conv)

lemma fill_fields [simp]:
  "svc_ID (fillAdditionalInfo c svc) = svc_ID svc"
  "svc_ParentServiceID (fillAdditionalInfo c svc) = svc_ParentServiceID svc"
  "svc_DeploymentID (fillAdditionalInfo c svc) = svc_DeploymentID svc"
  "svc_Name (fillAdditionalInfo c svc) = svc_Name svc"
  "svc_PoolID (fillAdditionalInfo c svc) = svc_PoolID svc"
  "svc_Endpoints (fillAdditionalInfo c svc) = svc_Endpoints svc"
  by (simp_all add: fillAdditionalInfo_def updateServiceFromVolatileService_def split: option.splits)

lemma shown_matches:
  assumes "D (svcKind, i) = Some (d, v)" "shown D c i = Some svc"
  shows "doc_matches ts d = doc_matches ts (ServiceDoc svc)"
proof -
  obtain raw where d: "d = ServiceDoc raw" using assms by (cases d) (auto simp: shown_def doc_service_def)
  then have svc: "svc = fillAdditionalInfo c (raw\<lparr>svc_DatabaseVersion := v\<rparr>)" using assms by (simp add: shown_def doc_service_def)
  have "doc_field d f = doc_field (ServiceDoc svc) f" for f by (simp add: d svc)
  then show ?thesis by (simp add: doc_matches_def)
qed

subsection \<open>The laws of the server\<close>

text \<open>
  What Elasticsearch documents: a version that is given has to be the current one, a
  successful write increments it, a failed one may or may not have been applied, a conflict
  was not; a search returns documents that match, without repetition, and all of them when
  there are fewer than it may return.
\<close>

locale elastic =
  fixes es :: "'s Elastic" and docs :: "'s \<Rightarrow> string \<times> string \<Rightarrow> (Doc \<times> int) option"
  assumes index_ok: "es_Index es k i d v s = (Inr True, s') \<Longrightarrow>
      \<exists>n > 0. docs s' = (docs s)((k, i) \<mapsto> (d, n)) \<and> (\<forall>d0 n0. docs s (k, i) = Some (d0, n0) \<longrightarrow> n = n0 + 1)"
    and index_version: "es_Index es k i d v s = (Inr True, s') \<Longrightarrow> 0 < v \<Longrightarrow> \<exists>d0. docs s (k, i) = Some (d0, v)"
    and index_any: "es_Index es k i d v s = (r, s') \<Longrightarrow>
      docs s' = docs s \<or>
      (\<exists>n > 0. docs s' = (docs s)((k, i) \<mapsto> (d, n)) \<and> (\<forall>d0 n0. docs s (k, i) = Some (d0, n0) \<longrightarrow> n = n0 + 1))"
    and index_conflict: "es_Index es k i d v s = (Inl ConflictError, s') \<Longrightarrow> docs s' = docs s"
    and get: "es_Get es k i s = Inr m \<Longrightarrow> m = docs s (k, i)"
    and delete: "es_Delete es k i s = (None, s') \<Longrightarrow> docs s' = (docs s)((k, i) := None)"
    and delete_any: "es_Delete es k i s = (e, s') \<Longrightarrow>
      docs s' = docs s \<or> docs s' = (docs s)((k, i) := None)"
    and search: "es_Search es k ts n s = Inr ms \<Longrightarrow>
      \<exists>ids. distinct ids \<and> map Some ms = map (\<lambda>i. docs s (k, i)) ids
         \<and> (\<forall>m \<in> set ms. doc_matches ts (fst m))
         \<and> (length ms < n \<longrightarrow> (\<forall>i d v. docs s (k, i) = Some (d, v) \<longrightarrow> doc_matches ts d \<longrightarrow> i \<in> set ids))"
begin

lemma conn_Put_ok:
  "conn_Put es k i d v s = (None, s') \<Longrightarrow>
     (\<exists>n > 0. docs s' = (docs s)((k, i) \<mapsto> (d, n)) \<and> (\<forall>d0 n0. docs s (k, i) = Some (d0, n0) \<longrightarrow> n = n0 + 1)) \<and>
     (0 < v \<longrightarrow> (\<exists>d0. docs s (k, i) = Some (d0, v)))"
  using index_ok index_version
  by (fastforce simp: conn_Put_def split: prod.splits sum.splits es_error.splits if_splits)

lemma conn_Put_any:
  "conn_Put es k i d v s = (e, s') \<Longrightarrow> docs s' = docs s \<or>
     (\<exists>n > 0. docs s' = (docs s)((k, i) \<mapsto> (d, n)) \<and> (\<forall>d0 n0. docs s (k, i) = Some (d0, n0) \<longrightarrow> n = n0 + 1))"
  using index_any by (auto simp: conn_Put_def split: prod.splits sum.splits es_error.splits if_splits)

lemma conn_Put_conflict: "conn_Put es k i d v s = (Some ErrConflict, s') \<Longrightarrow> docs s' = docs s"
  using index_conflict by (fastforce simp: conn_Put_def split: prod.splits sum.splits es_error.splits if_splits)

lemma Put_ok:
  assumes "Put es svc now st = (None, st')"
  shows "(\<exists>n > 0. docs (st_db st') = (docs (st_db st))((svcKind, svc_ID svc) \<mapsto> (ServiceDoc svc, n))
        \<and> (\<forall>d0 n0. docs (st_db st) (svcKind, svc_ID svc) = Some (d0, n0) \<longrightarrow> n = n0 + 1))
     \<and> (0 < svc_DatabaseVersion svc \<longrightarrow> (\<exists>d0. docs (st_db st) (svcKind, svc_ID svc) = Some (d0, svc_DatabaseVersion svc)))
     \<and> Service_ValidEntity svc = []
     \<and> st_cache st' = snd (updateDesiredState (svc_ID svc) (svc_DesiredState svc) now (st_cache st))"
proof -
  obtain s' where s': "DataStore_Put es svcKind (svc_ID svc) (ServiceDoc svc) (st_db st) = (None, s')"
    "st' = \<lparr>st_db = s', st_cache = snd (updateDesiredState (svc_ID svc) (svc_DesiredState svc) now (st_cache st))\<rparr>"
    using assms by (auto simp: Put_def split: prod.splits option.splits)
  then have "Service_ValidEntity svc = []"
    "conn_Put es svcKind (svc_ID svc) (ServiceDoc svc) (svc_DatabaseVersion svc) (st_db st) = (None, s')"
    by (auto simp: DataStore_Put_def split: option.splits if_splits)
  then show ?thesis using conn_Put_ok [of svcKind "svc_ID svc" "ServiceDoc svc" "svc_DatabaseVersion svc" "st_db st" s'] s'(2)
    by simp
qed

lemma Put_any:
  assumes "Put es svc now st = (Some e, st')"
  shows "st_cache st' = st_cache st \<and> (docs (st_db st') = docs (st_db st)
     \<or> (Service_ValidEntity svc = [] \<and> (\<exists>n > 0. docs (st_db st') = (docs (st_db st))((svcKind, svc_ID svc) \<mapsto> (ServiceDoc svc, n))
          \<and> (\<forall>d0 n0. docs (st_db st) (svcKind, svc_ID svc) = Some (d0, n0) \<longrightarrow> n = n0 + 1))))"
proof -
  obtain s' where s': "DataStore_Put es svcKind (svc_ID svc) (ServiceDoc svc) (st_db st) = (Some e, s')"
    "st' = st\<lparr>st_db := s'\<rparr>"
    using assms by (auto simp: Put_def split: prod.splits option.splits)
  then consider "s' = st_db st" | "Service_ValidEntity svc = []"
      "conn_Put es svcKind (svc_ID svc) (ServiceDoc svc) (svc_DatabaseVersion svc) (st_db st) = (Some e, s')"
    by (auto simp: DataStore_Put_def split: option.splits if_splits)
  then show ?thesis
    using conn_Put_any [of svcKind "svc_ID svc" "ServiceDoc svc" "svc_DatabaseVersion svc" "st_db st" "Some e" s'] s'(2)
    by cases simp_all
qed

lemma Delete_ok:
  assumes "Delete es i st = (None, st')"
  shows "docs (st_db st') = (docs (st_db st))((svcKind, i) := None) \<and> st_cache st' = gdel i (st_cache st)"
  using assms delete
  by (fastforce simp: Delete_def DataStore_Delete_def conn_Delete_def removeVolatileInfo_def split: prod.splits option.splits)

lemma Delete_any:
  assumes "Delete es i st = (Some e, st')"
  shows "st_cache st' = st_cache st \<and>
    (docs (st_db st') = docs (st_db st) \<or> docs (st_db st') = (docs (st_db st))((svcKind, i) := None))"
  using assms delete_any
  by (fastforce simp: Delete_def DataStore_Delete_def conn_Delete_def split: prod.splits option.splits)

lemma store_get_docs: "store_get es i s = Inr svc \<Longrightarrow> doc_service (docs s) i = Some svc"
  using get by (auto simp: store_get_def DataStore_Get_def conn_Get_def doc_service_def
      split: sum.splits option.splits Doc.splits prod.splits)

lemma Get_shown: "Get es i st = Inr svc \<Longrightarrow> shown (docs (st_db st)) (st_cache st) i = Some svc"
  using store_get_docs by (auto simp: Get_def shown_def split: sum.splits)

lemma Get_missing: "Get es i st = Inl (NoSuchEntity k j) \<Longrightarrow> shown (docs (st_db st)) (st_cache st) i = None"
  using get by (auto simp: Get_def store_get_def DataStore_Get_def conn_Get_def shown_def doc_service_def
      validKey_def split: sum.splits option.splits Doc.splits prod.splits if_splits)

lemma convert_shown:
  assumes "convert c ms = Inr svcs" "map Some ms = map (\<lambda>i. D (svcKind, i)) ids"
  shows "map Some svcs = map (shown D c) ids"
  using assms
proof (induction ms arbitrary: svcs ids)
  case Nil
  then show ?case by simp
next
  case (Cons m ms)
  obtain i ids' where i: "ids = i # ids'" using Cons.prems(2) by (cases ids) auto
  obtain svc rest where s: "decode_service m = Inr svc" "convert c ms = Inr rest" "svcs = fillAdditionalInfo c svc # rest"
    using Cons.prems(1) by (auto split: sum.splits)
  have "shown D c i = Some (fillAdditionalInfo c svc)"
    using Cons.prems(2) s(1) i by (cases m; cases "fst m") (auto simp: shown_def doc_service_def dest!: sym [of "Some _"])
  then show ?case using Cons.IH [OF s(2)] Cons.prems(2) i s(3) by simp
qed

lemma service_query_shown:
  assumes "service_query es ts n st = Inr svcs"
  shows "\<exists>ids. distinct ids \<and> map Some svcs = map (shown (docs (st_db st)) (st_cache st)) ids
     \<and> (\<forall>svc \<in> set svcs. doc_matches ts (ServiceDoc svc))
     \<and> (length svcs < n \<longrightarrow>
         (\<forall>i svc. shown (docs (st_db st)) (st_cache st) i = Some svc \<longrightarrow> doc_matches ts (ServiceDoc svc) \<longrightarrow> i \<in> set ids))"
proof -
  obtain ms where ms: "es_Search es svcKind ts n (st_db st) = Inr ms" "convert (st_cache st) ms = Inr svcs"
    using assms by (auto simp: service_query_def conn_Query_def split: sum.splits)
  from search [OF ms(1)] obtain ids where ids: "distinct ids" "map Some ms = map (\<lambda>i. docs (st_db st) (svcKind, i)) ids"
    "\<forall>m \<in> set ms. doc_matches ts (fst m)"
    "length ms < n \<longrightarrow> (\<forall>i d v. docs (st_db st) (svcKind, i) = Some (d, v) \<longrightarrow> doc_matches ts d \<longrightarrow> i \<in> set ids)"
    by (elim exE conjE) (rule that)
  note shown_ids = convert_shown [OF ms(2) ids(2)]
  have len: "length ms = length svcs" using ids(2) shown_ids by (metis length_map)
  have match: "doc_matches ts (ServiceDoc svc)" if svc: "svc \<in> set svcs" for svc
  proof -
    obtain i where i: "i \<in> set ids" "shown (docs (st_db st)) (st_cache st) i = Some svc"
      using map_Some_elem [OF shown_ids svc] by blast
    obtain d v where d: "docs (st_db st) (svcKind, i) = Some (d, v)" "(d, v) \<in> set ms"
      using map_Some_index [OF ids(2) i(1)] by auto
    then have "doc_matches ts d" using ids(3) by fastforce
    then show ?thesis using shown_matches [OF d(1) i(2)] by simp
  qed
  have "i \<in> set ids" if few: "length svcs < n" and i: "shown (docs (st_db st)) (st_cache st) i = Some svc"
    and m: "doc_matches ts (ServiceDoc svc)" for i svc
  proof -
    obtain d v where d: "docs (st_db st) (svcKind, i) = Some (d, v)"
      using i by (auto simp: shown_def doc_service_def split: option.splits)
    then show ?thesis using ids(4) few len m shown_matches [OF d i] by simp
  qed
  then show ?thesis using ids(1) shown_ids match by blast
qed

end

subsection \<open>The store as a table of services\<close>

text \<open>
  A stored service lies under its own id, is valid and has a positive version. The current
  state that is known of a service is the one of the cache, or unknown.
\<close>

definition db_ok :: "docmap \<Rightarrow> bool" where
  "db_ok D \<longleftrightarrow> (\<forall>i d v. D (svcKind, i) = Some (d, v) \<longrightarrow>
     0 < v \<and> (\<exists>svc. d = ServiceDoc svc \<and> svc_ID svc = i \<and> Service_ValidEntity svc = []))"

definition known_state :: "volatile \<Rightarrow> string \<Rightarrow> ServiceCurrentState" where
  "known_state c i = (case getVolatileInfo i c of None \<Rightarrow> SVCCSUnknown | Some e \<Rightarrow> vs_CurrentState e)"

lemma shown_ID: "db_ok D \<Longrightarrow> shown D c i = Some svc \<Longrightarrow> svc_ID svc = i"
  by (fastforce simp: db_ok_def shown_def doc_service_def split: option.splits Doc.splits prod.splits)

lemma doc_service_upd:
  "doc_service (D((svcKind, i) \<mapsto> (ServiceDoc svc, n))) = (doc_service D)(i \<mapsto> svc\<lparr>svc_DatabaseVersion := n\<rparr>)"
  "doc_service (D((svcKind, i) := None)) = (doc_service D)(i := None)"
  "k \<noteq> svcKind \<Longrightarrow> doc_service (D((k, i) := x)) = doc_service D"
  by (auto simp: doc_service_def fun_eq_iff)

lemma db_ok_upd:
  "db_ok D \<Longrightarrow> 0 < n \<Longrightarrow> Service_ValidEntity svc = [] \<Longrightarrow> db_ok (D((svcKind, svc_ID svc) \<mapsto> (ServiceDoc svc, n)))"
  "db_ok D \<Longrightarrow> db_ok (D((svcKind, i) := None))"
  "db_ok D \<Longrightarrow> k \<noteq> svcKind \<Longrightarrow> db_ok (D((k, i) := x))"
  by (auto simp: db_ok_def)

lemma fill_cong:
  "map_of c (svc_ID svc) = map_of c' (svc_ID svc) \<Longrightarrow> fillAdditionalInfo c svc = fillAdditionalInfo c' svc"
  by (simp add: fillAdditionalInfo_def getVolatileInfo_def)

lemma updateDesiredState_map:
  "IntIn ds [SVCRun, SVCStop, SVCPause] = [] \<Longrightarrow>
     map_of (snd (updateDesiredState i ds now c)) = (map_of c)(i \<mapsto>
       (case map_of c i of None \<Rightarrow> \<lparr>vs_ID = i, vs_DesiredState = ds, vs_CurrentState = '''', vs_UpdatedAt = now\<rparr>
        | Some e \<Rightarrow> e\<lparr>vs_DesiredState := ds, vs_UpdatedAt := now\<rparr>))"
  "IntIn ds [SVCRun, SVCStop, SVCPause] \<noteq> [] \<Longrightarrow> snd (updateDesiredState i ds now c) = c"
  by (simp_all add: updateDesiredState_def Let_def)

lemma fill_desired:
  assumes "IntIn ds [SVCRun, SVCStop, SVCPause] = []"
  shows "fillAdditionalInfo (snd (updateDesiredState (svc_ID svc) ds now c)) svc =
     svc\<lparr>svc_DesiredState := ds, svc_CurrentState := known_state c (svc_ID svc)\<rparr>"
  using updateDesiredState_map(1) [OF assms]
  by (simp add: fillAdditionalInfo_def getVolatileInfo_def updateServiceFromVolatileService_def known_state_def split: option.splits)

lemma fill_desired_other:
  "svc_ID svc \<noteq> i \<Longrightarrow> fillAdditionalInfo (snd (updateDesiredState i ds now c)) svc = fillAdditionalInfo c svc"
  by (rule fill_cong) (simp add: updateDesiredState_def Let_def)

lemma fill_current:
  "CurrentState_Validate cs = Inr () \<Longrightarrow>
     fillAdditionalInfo (snd (updateCurrentState (svc_ID svc) cs now c)) svc =
     (fillAdditionalInfo c svc)\<lparr>svc_CurrentState := cs\<rparr>"
  by (auto simp: fillAdditionalInfo_def getVolatileInfo_def updateServiceFromVolatileService_def updateCurrentState_def
      CurrentState_Validate_def serviceCurrentStates_def split: option.splits if_splits)

lemma fill_current_other:
  "svc_ID svc \<noteq> i \<Longrightarrow> fillAdditionalInfo (snd (updateCurrentState i cs now c)) svc = fillAdditionalInfo c svc"
  by (rule fill_cong) (simp add: updateCurrentState_def split: sum.splits)

lemma doc_service_ID: "db_ok D \<Longrightarrow> doc_service D i = Some svc \<Longrightarrow> svc_ID svc = i"
  by (fastforce simp: db_ok_def doc_service_def split: option.splits Doc.splits prod.splits)

lemma shown_other:
  assumes "db_ok D" "\<And>svc. svc_ID svc \<noteq> i \<Longrightarrow> fillAdditionalInfo c' svc = fillAdditionalInfo c svc" "j \<noteq> i"
  shows "shown D c' j = shown D c j"
  using assms doc_service_ID [OF assms(1)] by (cases "doc_service D j") (auto simp: shown_def)

lemma shown_gdel: "db_ok D \<Longrightarrow> j \<noteq> i \<Longrightarrow> shown D (gdel i c) j = shown D c j"
  by (rule shown_other) (auto intro: fill_cong)

lemma valid_desired: "Service_ValidEntity svc = [] \<Longrightarrow> IntIn (svc_DesiredState svc) [SVCRun, SVCStop, SVCPause] = []"
  by (simp add: Service_ValidEntity_def)

context elastic
begin

lemma Put_shown:
  assumes "db_ok (docs (st_db st))" "Put es svc now st = (None, st')"
  shows "\<exists>n > 0. (\<forall>old. shown (docs (st_db st)) (st_cache st) (svc_ID svc) = Some old \<longrightarrow> n = svc_DatabaseVersion old + 1) \<and>
    shown (docs (st_db st')) (st_cache st') = (shown (docs (st_db st)) (st_cache st))(svc_ID svc \<mapsto>
      svc\<lparr>svc_CurrentState := known_state (st_cache st) (svc_ID svc), svc_DatabaseVersion := n\<rparr>)"
proof -
  let ?i = "svc_ID svc"
  obtain n where n: "n > 0" "docs (st_db st') = (docs (st_db st))((svcKind, ?i) \<mapsto> (ServiceDoc svc, n))"
    "\<forall>d0 n0. docs (st_db st) (svcKind, ?i) = Some (d0, n0) \<longrightarrow> n = n0 + 1"
    and v: "Service_ValidEntity svc = []" and c: "st_cache st' = snd (updateDesiredState ?i (svc_DesiredState svc) now (st_cache st))"
    using Put_ok [OF assms(2)] by blast
  have "n = svc_DatabaseVersion old + 1" if "shown (docs (st_db st)) (st_cache st) ?i = Some old" for old
    using that n(3) by (auto simp: shown_def doc_service_def fillAdditionalInfo_def updateServiceFromVolatileService_def
        split: option.splits Doc.splits)
  moreover have "shown (docs (st_db st')) (st_cache st') j = ((shown (docs (st_db st)) (st_cache st))(?i \<mapsto>
      svc\<lparr>svc_CurrentState := known_state (st_cache st) ?i, svc_DatabaseVersion := n\<rparr>)) j" for j
  proof (cases "j = ?i")
    case True
    have "fillAdditionalInfo (st_cache st') (svc\<lparr>svc_DatabaseVersion := n\<rparr>) =
        svc\<lparr>svc_CurrentState := known_state (st_cache st) ?i, svc_DatabaseVersion := n\<rparr>"
      using fill_desired [OF valid_desired [OF v], of "svc\<lparr>svc_DatabaseVersion := n\<rparr>" now "st_cache st"] by (simp add: c)
    then show ?thesis using True by (simp add: shown_def n(2) doc_service_upd)
  next
    case False
    then have "shown (docs (st_db st')) (st_cache st') j = shown (docs (st_db st)) (st_cache st') j"
      by (simp add: shown_def n(2) doc_service_upd)
    also have "\<dots> = shown (docs (st_db st)) (st_cache st) j"
      unfolding c by (rule shown_other [OF assms(1) _ False]) (rule fill_desired_other)
    finally show ?thesis using False by simp
  qed
  ultimately show ?thesis using n(1) by (intro exI [of _ n]) (auto simp: fun_eq_iff)
qed

lemma Delete_shown:
  assumes "db_ok (docs (st_db st))" "Delete es i st = (None, st')"
  shows "shown (docs (st_db st')) (st_cache st') = (shown (docs (st_db st)) (st_cache st))(i := None)"
proof
  fix j
  show "shown (docs (st_db st')) (st_cache st') j = ((shown (docs (st_db st)) (st_cache st))(i := None)) j"
    using Delete_ok [OF assms(2)] shown_gdel [OF assms(1), of j i]
    by (cases "j = i") (auto simp: shown_def doc_service_upd)
qed

lemma db_ok_Put: "db_ok (docs (st_db st)) \<Longrightarrow> Put es svc now st = (e, st') \<Longrightarrow> db_ok (docs (st_db st'))"
  using Put_ok Put_any db_ok_upd(1) by (cases e) fastforce+

lemma db_ok_Delete: "db_ok (docs (st_db st)) \<Longrightarrow> Delete es i st = (e, st') \<Longrightarrow> db_ok (docs (st_db st'))"
  using Delete_ok Delete_any db_ok_upd(2) by (cases e) fastforce+

lemma query_distinct:
  assumes "db_ok (docs (st_db st))" "service_query es ts n st = Inr svcs"
  shows "distinct (map svc_ID svcs) \<and>
    (\<forall>svc \<in> set svcs. shown (docs (st_db st)) (st_cache st) (svc_ID svc) = Some svc \<and> doc_matches ts (ServiceDoc svc)) \<and>
    (length svcs < n \<longrightarrow>
       (\<forall>i svc. shown (docs (st_db st)) (st_cache st) i = Some svc \<longrightarrow> doc_matches ts (ServiceDoc svc) \<longrightarrow> svc \<in> set svcs))"
proof -
  let ?S = "shown (docs (st_db st)) (st_cache st)"
  obtain ids where ids: "distinct ids" "map Some svcs = map ?S ids" "\<forall>svc \<in> set svcs. doc_matches ts (ServiceDoc svc)"
    "length svcs < n \<longrightarrow> (\<forall>i svc. ?S i = Some svc \<longrightarrow> doc_matches ts (ServiceDoc svc) \<longrightarrow> i \<in> set ids)"
    using service_query_shown [OF assms(2)] by (elim exE conjE) (rule that)
  have "map svc_ID svcs = ids"
    using ids(2) by (induction svcs arbitrary: ids) (auto simp: Cons_eq_map_conv dest!: sym [of "Some _"] shown_ID [OF assms(1)])
  moreover have "?S (svc_ID svc) = Some svc" if "svc \<in> set svcs" for svc
    using map_Some_elem [OF ids(2) that] shown_ID [OF assms(1)] by blast
  moreover have "svc \<in> set svcs" if "length svcs < n" "?S i = Some svc" "doc_matches ts (ServiceDoc svc)" for i svc
    using ids(4) that map_Some_index [OF ids(2)] by fastforce
  ultimately show ?thesis using ids(1,3) by blast
qed

end

subsection \<open>Elasticsearch in memory\<close>

text \<open>Writes to the ids of a given set fail without effect.\<close>

type_synonym mem_docs = "(string \<times> string, Doc \<times> int) gomap"

definition mem_ids :: "string \<Rightarrow> mem_docs \<Rightarrow> string list" where
  "mem_ids k s = remdups (map snd (filter (\<lambda>q. fst q = k) (keys s)))"

definition next_version :: "string \<times> string \<Rightarrow> mem_docs \<Rightarrow> int" where
  "next_version key s = (case map_of s key of None \<Rightarrow> 1 | Some (_, n) \<Rightarrow> n + 1)"

definition mem_es :: "(string \<Rightarrow> bool) \<Rightarrow> mem_docs Elastic" where
  "mem_es bad = \<lparr>
     es_Index = (\<lambda>k i d v s.
        if bad i \<or> next_version (k, i) s \<le> 0 then (Inl (OtherError ''unavailable''), s)
        else if 0 < v \<and> map_option snd (map_of s (k, i)) \<noteq> Some v then (Inl ConflictError, s)
        else (Inr True, gset (k, i) (d, next_version (k, i) s) s)),
     es_Get = (\<lambda>k i s. Inr (map_of s (k, i))),
     es_Delete = (\<lambda>k i s. if bad i then (Some (OtherError ''unavailable''), s) else (None, gdel (k, i) s)),
     es_Search = (\<lambda>k ts n s. Inr (take n (filter (\<lambda>m. doc_matches ts (fst m))
        (map (\<lambda>i. the (map_of s (k, i))) (mem_ids k s)))))\<rparr>"

lemma mem_index:
  assumes "es_Index (mem_es bad) k i d v s = (r, s')"
  shows "(s' = s \<and> r \<noteq> Inr True) \<or> (r = Inr True \<and> next_version (k, i) s > 0 \<and>
    s' = gset (k, i) (d, next_version (k, i) s) s \<and> (0 < v \<longrightarrow> map_option snd (map_of s (k, i)) = Some v))"
  using assms by (auto simp: mem_es_def split: if_splits)

lemma next_version_Suc: "map_of s key = Some (d, n) \<Longrightarrow> next_version key s = n + 1"
  by (simp add: next_version_def)

lemma mem_ids: "distinct (mem_ids k s)" "i \<in> set (mem_ids k s) \<longleftrightarrow> map_of s (k, i) \<noteq> None"
  by (auto simp: mem_ids_def map_of_eq_None_keys image_iff)

lemma mem_search:
  "\<exists>ids. distinct ids \<and> map Some (take n (filter P (map (\<lambda>i. the (f i)) xs))) = map f ids
     \<and> (length (take n (filter P (map (\<lambda>i. the (f i)) xs))) < n \<longrightarrow> (\<forall>i \<in> set xs. P (the (f i)) \<longrightarrow> i \<in> set ids))"
  if "distinct xs" "\<forall>i \<in> set xs. f i \<noteq> None"
proof (intro exI conjI)
  let ?ids = "take n (filter (\<lambda>i. P (the (f i))) xs)"
  have ms: "take n (filter P (map (\<lambda>i. the (f i)) xs)) = map (\<lambda>i. the (f i)) ?ids"
    by (simp add: filter_map take_map comp_def)
  show "distinct ?ids" using that(1) by simp
  have "\<forall>i \<in> set ?ids. Some (the (f i)) = f i" using that(2) by (auto dest: in_set_takeD)
  then show "map Some (take n (filter P (map (\<lambda>i. the (f i)) xs))) = map f ?ids" unfolding ms by simp
  show "length (take n (filter P (map (\<lambda>i. the (f i)) xs))) < n \<longrightarrow> (\<forall>i \<in> set xs. P (the (f i)) \<longrightarrow> i \<in> set ?ids)"
    unfolding ms by auto
qed

interpretation mem_elastic: elastic "mem_es bad" map_of for bad
proof (unfold_locales, goal_cases)
  case (1 k i d v s s')
  then show ?case using mem_index [of bad k i d v s "Inr True" s'] next_version_Suc [of s "(k, i)"] by auto
next
  case (2 k i d v s s')
  then show ?case using mem_index [of bad k i d v s "Inr True" s'] by auto
next
  case (3 k i d v s r s')
  then show ?case using mem_index [of bad k i d v s r s'] next_version_Suc [of s "(k, i)"] by auto
next
  case (4 k i d v s s')
  then show ?case using mem_index [of bad k i d v s _ s'] by fastforce
next
  case (5 k i s m)
  then show ?case by (simp add: mem_es_def)
next
  case (6 k i s s')
  then show ?case by (auto simp: mem_es_def split: if_splits)
next
  case (7 k i s e s')
  then show ?case by (auto simp: mem_es_def split: if_splits)
next
  case (8 k ts n s ms)
  then have ms: "ms = take n (filter (\<lambda>m. doc_matches ts (fst m)) (map (\<lambda>i. the (map_of s (k, i))) (mem_ids k s)))"
    by (simp add: mem_es_def)
  have "\<forall>m \<in> set ms. doc_matches ts (fst m)" unfolding ms by (auto dest: in_set_takeD)
  moreover have "\<forall>i \<in> set (mem_ids k s). map_of s (k, i) \<noteq> None" using mem_ids(2) by blast
  note mem_search [OF mem_ids(1) this, of n "\<lambda>m. doc_matches ts (fst m)", folded ms]
  ultimately show ?case by (fastforce simp: mem_ids(2))
qed

subsection \<open>Properties of the store\<close>

lemma UpdateDesiredState_shown:
  assumes "db_ok (docs (st_db st))" "ds \<in> {SVCRun, SVCStop, SVCPause}"
  shows "shown (docs (st_db (UpdateDesiredState i ds now st))) (st_cache (UpdateDesiredState i ds now st)) =
     (shown (docs (st_db st)) (st_cache st))(i := map_option
        (\<lambda>svc. svc\<lparr>svc_DesiredState := ds, svc_CurrentState := known_state (st_cache st) i\<rparr>) (shown (docs (st_db st)) (st_cache st) i))"
proof
  fix j
  have ok: "IntIn ds [SVCRun, SVCStop, SVCPause] = []" using assms(2) by (simp add: IntIn_def)
  let ?c = "snd (updateDesiredState i ds now (st_cache st))"
  have "shown (docs (st_db st)) ?c i = map_option
      (\<lambda>svc. svc\<lparr>svc_DesiredState := ds, svc_CurrentState := known_state (st_cache st) i\<rparr>) (shown (docs (st_db st)) (st_cache st) i)"
  proof (cases "doc_service (docs (st_db st)) i")
    case (Some svc)
    then have "svc_ID svc = i" by (rule doc_service_ID [OF assms(1)])
    then show ?thesis using Some fill_desired [OF ok, of svc now "st_cache st"]
      by (auto simp: shown_def fillAdditionalInfo_def updateServiceFromVolatileService_def split: option.splits)
  qed (simp add: shown_def)
  moreover have "shown (docs (st_db st)) ?c j = shown (docs (st_db st)) (st_cache st) j" if "j \<noteq> i"
    by (rule shown_other [OF assms(1) _ that]) (rule fill_desired_other)
  ultimately show "shown (docs (st_db (UpdateDesiredState i ds now st))) (st_cache (UpdateDesiredState i ds now st)) j =
     ((shown (docs (st_db st)) (st_cache st))(i := map_option
        (\<lambda>svc. svc\<lparr>svc_DesiredState := ds, svc_CurrentState := known_state (st_cache st) i\<rparr>) (shown (docs (st_db st)) (st_cache st) i))) j"
    by (simp add: UpdateDesiredState_def)
qed

lemma UpdateCurrentState_shown:
  assumes "db_ok (docs (st_db st))" "cs \<in> set serviceCurrentStates"
  shows "shown (docs (st_db (UpdateCurrentState i cs now st))) (st_cache (UpdateCurrentState i cs now st)) =
     (shown (docs (st_db st)) (st_cache st))(i := map_option
        (\<lambda>svc. svc\<lparr>svc_CurrentState := cs\<rparr>) (shown (docs (st_db st)) (st_cache st) i))"
proof
  fix j
  have ok: "CurrentState_Validate cs = Inr ()" using assms(2) by (simp add: CurrentState_Validate_def)
  let ?c = "snd (updateCurrentState i cs now (st_cache st))"
  have "shown (docs (st_db st)) ?c i = map_option (\<lambda>svc. svc\<lparr>svc_CurrentState := cs\<rparr>) (shown (docs (st_db st)) (st_cache st) i)"
  proof (cases "doc_service (docs (st_db st)) i")
    case (Some svc)
    then have "svc_ID svc = i" by (rule doc_service_ID [OF assms(1)])
    then show ?thesis using Some fill_current [OF ok, of svc now "st_cache st"] by (auto simp: shown_def)
  qed (simp add: shown_def)
  moreover have "shown (docs (st_db st)) ?c j = shown (docs (st_db st)) (st_cache st) j" if "j \<noteq> i"
    by (rule shown_other [OF assms(1) _ that]) (rule fill_current_other)
  ultimately show "shown (docs (st_db (UpdateCurrentState i cs now st))) (st_cache (UpdateCurrentState i cs now st)) j =
     ((shown (docs (st_db st)) (st_cache st))(i := map_option
        (\<lambda>svc. svc\<lparr>svc_CurrentState := cs\<rparr>) (shown (docs (st_db st)) (st_cache st) i))) j"
    by (simp add: UpdateCurrentState_def)
qed


text \<open>
  Writers of a service: any of them may write it, set its states or fail, but nobody deletes it.
\<close>

inductive saves :: "'s Elastic \<Rightarrow> string \<Rightarrow> 's Store \<Rightarrow> 's Store \<Rightarrow> bool" for es i where
  put: "Put es svc now st = (e, st') \<Longrightarrow> svc_ID svc = i \<Longrightarrow> saves es i st st'"
| desired: "saves es i st (UpdateDesiredState i ds now st)"
| current: "saves es i st (UpdateCurrentState i cs now st)"

definition version_at :: "docmap \<Rightarrow> string \<Rightarrow> int" where
  "version_at D i = (case D (svcKind, i) of None \<Rightarrow> 0 | Some (_, n) \<Rightarrow> n)"

lemma version_at_upd:
  "\<forall>d0 n0. D (svcKind, i) = Some (d0, n0) \<longrightarrow> n = n0 + 1 \<Longrightarrow> 0 < version_at D i \<Longrightarrow>
     version_at D i \<le> version_at (D((svcKind, i) \<mapsto> (d, n))) i"
  by (auto simp: version_at_def split: option.splits)

lemma saves_version:
  assumes "elastic es docs" "saves es i st st'" "0 < version_at (docs (st_db st)) i"
  shows "version_at (docs (st_db st)) i \<le> version_at (docs (st_db st')) i"
  using assms(2)
proof cases
  case (put svc now e)
  show ?thesis
  proof (cases e)
    case None
    then show ?thesis using elastic.Put_ok [OF assms(1), of svc now st st'] put version_at_upd assms(3) by metis
  next
    case (Some x)
    then show ?thesis using elastic.Put_any [OF assms(1), of svc now st x st'] put version_at_upd assms(3) by (metis order_refl)
  qed
qed (simp_all add: UpdateDesiredState_def UpdateCurrentState_def)

lemma saves_star_version:
  assumes "elastic es docs" "(saves es i)\<^sup>*\<^sup>* st st'" "0 < version_at (docs (st_db st)) i"
  shows "version_at (docs (st_db st)) i \<le> version_at (docs (st_db st')) i"
  using assms(2)
proof induction
  case (step y z)
  then show ?case using saves_version [OF assms(1) step.hyps(2)] assms(3) by linarith
qed simp

lemma Get_version:
  assumes "elastic es docs" "db_ok (docs (st_db st))" "Get es i st = Inr svc"
  shows "\<exists>d. docs (st_db st) (svcKind, i) = Some (d, svc_DatabaseVersion svc) \<and> 0 < svc_DatabaseVersion svc"
  using elastic.Get_shown [OF assms(1,3)] assms(2)
  by (auto simp: shown_def doc_service_def db_ok_def fillAdditionalInfo_def updateServiceFromVolatileService_def
      split: option.splits Doc.splits)


subsection \<open>A worked example\<close>

definition stored_svc :: "string \<Rightarrow> string \<Rightarrow> Service" where
  "stored_svc i parent = \<lparr>svc_ID = i, svc_Name = i, svc_Launch = ''auto'', svc_PoolID = ''default'', svc_ParentServiceID = parent,
     svc_Instances = 1, svc_InstanceLimits = \<lparr>mm_Min = 0, mm_Max = 0, mm_Default = 0\<rparr>, svc_DesiredState = SVCStop,
     svc_CurrentState = ''stopped'', svc_HostPolicy = '''', svc_ChangeOptions = [], svc_Endpoints = None,
     svc_StartLevel = 0, svc_EmergencyShutdownLevel = 0, svc_EmergencyShutdown = False,
     svc_CPUCommitment = 0, svc_RAMCommitment = 0, svc_DeploymentID = ''d'', svc_DatabaseVersion = 0\<rparr>"

definition one_store :: "mem_docs Store" where
  "one_store = \<lparr>st_db = [((svcKind, ''a''), (ServiceDoc (stored_svc ''a'' ''''), 1))], st_cache = []\<rparr>"

definition good_es :: "mem_docs Elastic" where
  "good_es = mem_es (\<lambda>_. False)"

lemma good_elastic: "elastic good_es map_of"
  unfolding good_es_def by (rule mem_elastic.elastic_axioms)

lemma stored_valid: "Service_ValidEntity (stored_svc ''a'' '''') = []"
  by code_simp

lemma one_store_ok: "db_ok (map_of (st_db one_store))"
  using stored_valid by (auto simp: db_ok_def one_store_def stored_svc_def)

lemma one_store_runs:
  "Get good_es ''a'' one_store = Inr ((stored_svc ''a'' '''')\<lparr>svc_DatabaseVersion := 1\<rparr>)"
  "fst (Put good_es (stored_svc ''a'' '''') 5 one_store) = None"
  by code_simp+



end
