(* ===== verification/Service_Tree.thy ===== *)
theory Service_Tree
  imports Service_Store
begin

section \<open>The tree of services\<close>

text \<open>
  \<^verbatim>\<open>domain/service/walk.go\<close> and the walks of \<^verbatim>\<open>facade/service.go\<close>. A service names its
  parent; the services without one are the tenants. A walk visits the children of a service,
  as the database returns them, and then the service. It is recursive on the tree that it
  reads, which may be deeper than the stack or have a cycle, so the walk gets the depth of
  the stack and its result is an option. What a walk needs of the store are the laws of the
  locale \<open>service_reads\<close>; the operations of \<open>Service_Store\<close> have them.
\<close>

datatype facade_error =
    StoreError ds_error
  | ErrServiceExists
  | ErrServiceCollision
  | ErrTenantDoesNotMatch
  | ErrServiceMissingAssignment
  | ErrServiceDuplicateEndpoint
  | ErrEmergencyShutdownNoOp
  | ErrInvalidServiceOption string
  | FacadeFailure string
  | PanicNilPointer

subsection \<open>Walking\<close>

fun Walk ::
    "nat \<Rightarrow> (string \<Rightarrow> 's \<Rightarrow> ds_error + Service) \<Rightarrow> (string \<Rightarrow> 's \<Rightarrow> ds_error + Service list) \<Rightarrow>
     (Service \<Rightarrow> 's \<Rightarrow> facade_error option \<times> 's) \<Rightarrow> string \<Rightarrow> 's \<Rightarrow> (facade_error option \<times> 's) option"
  and Walk_children ::
    "nat \<Rightarrow> (string \<Rightarrow> 's \<Rightarrow> ds_error + Service) \<Rightarrow> (string \<Rightarrow> 's \<Rightarrow> ds_error + Service list) \<Rightarrow>
     (Service \<Rightarrow> 's \<Rightarrow> facade_error option \<times> 's) \<Rightarrow> Service list \<Rightarrow> 's \<Rightarrow> (facade_error option \<times> 's) option" where
  "Walk 0 getService getChildren visitFn serviceID s = None"
| "Walk (Suc n) getService getChildren visitFn serviceID s =
     (case getChildren serviceID s of
        Inl e \<Rightarrow> Some (Some (StoreError e), s)
      | Inr subServices \<Rightarrow>
          (case Walk_children n getService getChildren visitFn subServices s of
             None \<Rightarrow> None
           | Some (Some e, s1) \<Rightarrow> Some (Some e, s1)
           | Some (None, s1) \<Rightarrow>
               (case getService serviceID s1 of
                  Inl e \<Rightarrow> Some (Some (StoreError e), s1)
                | Inr svc \<Rightarrow> Some (visitFn svc s1))))"
| "Walk_children n getService getChildren visitFn [] s = Some (None, s)"
| "Walk_children n getService getChildren visitFn (svc # svcs) s =
     (case Walk n getService getChildren visitFn (svc_ID svc) s of
        None \<Rightarrow> None
      | Some (Some e, s1) \<Rightarrow> Some (Some e, s1)
      | Some (None, s1) \<Rightarrow> Walk_children n getService getChildren visitFn svcs s1)"

text \<open>\<^verbatim>\<open>walkServices\<close> reads the store of the facade, which is a part of the walk's state.\<close>

definition walkServices ::
    "nat \<Rightarrow> 's Elastic \<Rightarrow> ('w \<Rightarrow> 's Store) \<Rightarrow> string \<Rightarrow> bool \<Rightarrow> (Service \<Rightarrow> 'w \<Rightarrow> facade_error option \<times> 'w) \<Rightarrow>
     'w \<Rightarrow> (facade_error option \<times> 'w) option" where
  "walkServices n es store serviceID traverse visitFn w =
     Walk n (\<lambda>i w. Get es i (store w)) (\<lambda>i w. if \<not> traverse then Inr [] else GetChildServices es i (store w))
       visitFn serviceID w"

subsection \<open>Trees\<close>

text \<open>
  The tree that a table of services stands for, as the relation of a service to its parent.
\<close>

type_synonym services = "string \<Rightarrow> Service option"

definition child_of :: "services \<Rightarrow> string \<Rightarrow> string \<Rightarrow> bool" where
  "child_of T i p \<longleftrightarrow> p \<noteq> '''' \<and> (\<exists>svc. T i = Some svc \<and> svc_ParentServiceID svc = p)"

definition acyclic_tree :: "services \<Rightarrow> bool" where
  "acyclic_tree T \<longleftrightarrow> (\<forall>i. \<not> (child_of T)\<^sup>+\<^sup>+ i i)"

definition children :: "services \<Rightarrow> string \<Rightarrow> Service set" where
  "children T p = {c. T (svc_ID c) = Some c \<and> svc_ParentServiceID c = p}"

text \<open>
  The walks of a tree: the services that are visited, in this order, for one order of the
  children of each service.
\<close>

inductive walks :: "services \<Rightarrow> string \<Rightarrow> Service list \<Rightarrow> bool" for T where
  walks: "distinct cs \<Longrightarrow> set cs = children T i \<Longrightarrow> list_all2 (\<lambda>c xs. walks T (svc_ID c) xs) cs xss \<Longrightarrow>
     T i = Some svc \<Longrightarrow> walks T i (concat xss @ [svc])"

inductive_cases walksE: "walks T i xs"

text \<open>Visiting a list of services without an error.\<close>

fun visits :: "(Service \<Rightarrow> 's \<Rightarrow> facade_error option \<times> 's) \<Rightarrow> Service list \<Rightarrow> 's \<Rightarrow> 's option" where
  "visits visitFn [] s = Some s"
| "visits visitFn (svc # svcs) s =
     (case visitFn svc s of (None, s') \<Rightarrow> visits visitFn svcs s' | (Some _, _) \<Rightarrow> None)"

lemma visits_append: "visits v (xs @ ys) s = (case visits v xs s of None \<Rightarrow> None | Some s' \<Rightarrow> visits v ys s')"
  by (induction xs arbitrary: s) (auto split: prod.splits option.splits)

definition tree_ids :: "services \<Rightarrow> bool" where
  "tree_ids T \<longleftrightarrow> (\<forall>i svc. T i = Some svc \<longrightarrow> svc_ID svc = i \<and> i \<noteq> '''')"

lemma children_ids: "tree_ids T \<Longrightarrow> c \<in> children T p \<Longrightarrow> p \<noteq> '''' \<Longrightarrow> child_of T (svc_ID c) p"
  by (auto simp: children_def child_of_def)

lemma child_children: "tree_ids T \<Longrightarrow> child_of T i p \<Longrightarrow> \<exists>c \<in> children T p. svc_ID c = i"
  by (auto simp: children_def child_of_def tree_ids_def)

lemma walks_nonempty: "walks T i xs \<Longrightarrow> \<exists>svc. T i = Some svc \<and> svc \<in> set xs"
  by (auto elim: walksE)

lemma zip_right: "list_all2 P cs xss \<Longrightarrow> xs \<in> set xss \<Longrightarrow> \<exists>c. (c, xs) \<in> set (zip cs xss)"
  by (induction rule: list_all2_induct) auto

lemma zip_left: "list_all2 P cs xss \<Longrightarrow> c \<in> set cs \<Longrightarrow> \<exists>xs. (c, xs) \<in> set (zip cs xss)"
  by (induction rule: list_all2_induct) auto

text \<open>Who is walked: the service and everything below it.\<close>

lemma walks_set:
  assumes "walks T i xs" "tree_ids T"
  shows "set xs = {svc. T (svc_ID svc) = Some svc \<and> (child_of T)\<^sup>*\<^sup>* (svc_ID svc) i}"
  using assms(1)
proof induction
  case (walks cs i xss svc)
  have i: "svc_ID svc = i" "i \<noteq> ''''" using walks.hyps(3) assms(2) by (auto simp: tree_ids_def)
  have sub: "set xs = {svc. T (svc_ID svc) = Some svc \<and> (child_of T)\<^sup>*\<^sup>* (svc_ID svc) (svc_ID c)}"
    if "(c, xs) \<in> set (zip cs xss)" for c xs
    using walks.IH that by (auto simp: list_all2_iff)
  show ?case
  proof (intro set_eqI iffI)
    fix x assume x: "x \<in> set (concat xss @ [svc])"
    show "x \<in> {svc. T (svc_ID svc) = Some svc \<and> (child_of T)\<^sup>*\<^sup>* (svc_ID svc) i}"
    proof (cases "x = svc")
      case False
      then obtain xs where "xs \<in> set xss" "x \<in> set xs" using x by auto
      then obtain c where c: "(c, xs) \<in> set (zip cs xss)" using zip_right [OF walks.IH] by blast
      then have "c \<in> children T i" using walks.hyps(2) set_zip_leftD [OF c] by simp
      then have "child_of T (svc_ID c) i" using children_ids [OF assms(2)] i(2) by blast
      then show ?thesis using sub [OF c] \<open>x \<in> set xs\<close> by (auto intro: rtranclp.rtrancl_into_rtrancl)
    qed (use walks.hyps(3) i in auto)
  next
    fix x assume "x \<in> {svc. T (svc_ID svc) = Some svc \<and> (child_of T)\<^sup>*\<^sup>* (svc_ID svc) i}"
    then have x: "T (svc_ID x) = Some x" "(child_of T)\<^sup>*\<^sup>* (svc_ID x) i" by auto
    show "x \<in> set (concat xss @ [svc])"
      using x(2)
    proof (cases rule: rtranclp.cases)
      case rtrancl_refl
      then show ?thesis using x(1) walks.hyps(3) by simp
    next
      case (rtrancl_into_rtrancl b)
      then obtain c where c: "c \<in> set cs" "svc_ID c = b"
        using child_children [OF assms(2)] walks.hyps(2) by blast
      then obtain xs where "(c, xs) \<in> set (zip cs xss)" using zip_left [OF walks.IH] by blast
      then have "x \<in> set xs" "xs \<in> set xss" using sub x(1) rtrancl_into_rtrancl c(2) by (auto dest: set_zip_rightD)
      then show ?thesis by auto
    qed
  qed
qed

text \<open>A walk exists only where there is no cycle.\<close>

lemma accp_no_cycle: "Wellfounded.accp R x \<Longrightarrow> \<not> R\<^sup>+\<^sup>+ x x"
proof (induction rule: accp.induct)
  case (accI x)
  show ?case
  proof
    assume "R\<^sup>+\<^sup>+ x x"
    then obtain y where y: "R\<^sup>*\<^sup>* x y" "R y x" by (auto elim: tranclp.cases intro: tranclp_into_rtranclp)
    then have "R\<^sup>+\<^sup>+ y y" by (intro rtranclp_into_tranclp2)
    then show False using accI.IH [OF y(2)] by simp
  qed
qed

lemma walks_accp:
  assumes "walks T i xs" "tree_ids T"
  shows "Wellfounded.accp (child_of T) i"
  using assms(1)
proof induction
  case (walks cs i xss svc)
  show ?case
  proof (rule accp.intros)
    fix j assume "child_of T j i"
    then obtain c where c: "c \<in> set cs" "svc_ID c = j" using child_children [OF assms(2)] walks.hyps(2) by blast
    then obtain xs where "(c, xs) \<in> set (zip cs xss)" using zip_left [OF walks.IH] by blast
    then show "Wellfounded.accp (child_of T) j" using walks.IH c(2) by (auto simp: list_all2_iff)
  qed
qed

lemma parent_unique: "child_of T i p \<Longrightarrow> child_of T i q \<Longrightarrow> p = q"
  by (auto simp: child_of_def)

lemma ancestors_chain: "(child_of T)\<^sup>*\<^sup>* x a \<Longrightarrow> (child_of T)\<^sup>*\<^sup>* x b \<Longrightarrow> (child_of T)\<^sup>*\<^sup>* a b \<or> (child_of T)\<^sup>*\<^sup>* b a"
proof (induction rule: rtranclp_induct)
  case (step y z)
  from step.IH [OF step.prems] show ?case
  proof
    assume "(child_of T)\<^sup>*\<^sup>* y b"
    then show ?thesis using step.hyps(2) parent_unique by (metis converse_rtranclpE r_into_rtranclp)
  next
    assume "(child_of T)\<^sup>*\<^sup>* b y"
    then show ?thesis using step.hyps(2) by (metis rtranclp.rtrancl_into_rtrancl)
  qed
qed simp

lemma siblings_disjoint:
  assumes "child_of T c i" "child_of T d i" "c \<noteq> d" "\<not> (child_of T)\<^sup>+\<^sup>+ i i"
    and "(child_of T)\<^sup>*\<^sup>* x c" "(child_of T)\<^sup>*\<^sup>* x d"
  shows False
proof -
  have no: "\<not> (child_of T)\<^sup>*\<^sup>* a b" if ab: "child_of T a i" "child_of T b i" "a \<noteq> b" for a b
  proof
    assume "(child_of T)\<^sup>*\<^sup>* a b"
    then obtain p where p: "child_of T a p" "(child_of T)\<^sup>*\<^sup>* p b" using ab(3) by (auto elim: converse_rtranclpE)
    then have "p = i" using ab(1) parent_unique by blast
    then show False using rtranclp_into_tranclp1 [OF p(2) ab(2)] assms(4) by simp
  qed
  then show False using ancestors_chain [OF assms(5,6)] assms(1-3) by blast
qed

lemma distinct_subtrees:
  assumes "list_all2 P cs xss" "distinct cs"
    and "\<forall>(c, xs) \<in> set (zip cs xss). distinct (map f xs) \<and> f ` set xs \<subseteq> D c"
    and "\<forall>c \<in> set cs. \<forall>d \<in> set cs. c \<noteq> d \<longrightarrow> D c \<inter> D d = {}"
  shows "distinct (map f (concat xss)) \<and> f ` set (concat xss) \<subseteq> (\<Union>c \<in> set cs. D c)"
  using assms
proof (induction rule: list_all2_induct)
  case (Cons c cs xs xss)
  then have IH: "distinct (map f (concat xss)) \<and> f ` set (concat xss) \<subseteq> (\<Union>c \<in> set cs. D c)" by simp
  have apart: "D c \<inter> (\<Union>c \<in> set cs. D c) = {}" using Cons.prems(1,3) by auto
  have own: "distinct (map f xs)" "f ` set xs \<subseteq> D c" using Cons.prems(2) by simp_all
  then have "f ` set xs \<inter> f ` set (concat xss) = {}" using IH apart by blast
  then have "distinct (map f (xs @ concat xss))" using IH own(1) unfolding map_append distinct_append set_map by blast
  moreover have "f ` set (xs @ concat xss) \<subseteq> (\<Union>c \<in> set (c # cs). D c)"    using Un_mono [OF own(2) conjunct2 [OF IH]] by (simp only: set_append image_Un list.set UN_insert)
  ultimately show ?case by simp
qed simp

lemma walks_distinct:
  assumes "walks T i xs" "tree_ids T"
  shows "distinct (map svc_ID xs)"
  using assms(1)
proof induction
  case (walks cs i xss svc)
  have w: "walks T i (concat xss @ [svc])" using walks by (intro walks.walks) (auto elim: list_all2_mono)
  have acyclic: "\<not> (child_of T)\<^sup>+\<^sup>+ i i" by (rule accp_no_cycle [OF walks_accp [OF w assms(2)]])
  have i: "svc_ID svc = i" "i \<noteq> ''''" using walks.hyps(3) assms(2) by (auto simp: tree_ids_def)
  have c: "child_of T (svc_ID c) i" if "c \<in> set cs" for c using that walks.hyps(2) children_ids [OF assms(2)] i(2) by blast
  let ?D = "\<lambda>c. {x. (child_of T)\<^sup>*\<^sup>* x (svc_ID c)}"
  have "distinct (map svc_ID (concat xss)) \<and> svc_ID ` set (concat xss) \<subseteq> (\<Union>c \<in> set cs. ?D c)"
  proof (rule distinct_subtrees [OF walks.IH walks.hyps(1)])
    show "\<forall>(c, xs) \<in> set (zip cs xss). distinct (map svc_ID xs) \<and> svc_ID ` set xs \<subseteq> ?D c"
      using walks.IH walks_set [OF _ assms(2)] by (fastforce simp: list_all2_iff)
    show "\<forall>c \<in> set cs. \<forall>d \<in> set cs. c \<noteq> d \<longrightarrow> ?D c \<inter> ?D d = {}"
    proof (intro ballI impI)
      fix c d assume cd: "c \<in> set cs" "d \<in> set cs" "c \<noteq> d"
      then have "svc_ID c \<noteq> svc_ID d" using walks.hyps(2) by (auto simp: children_def)
      then show "?D c \<inter> ?D d = {}" using siblings_disjoint [OF c [OF cd(1)] c [OF cd(2)] _ acyclic] by blast
    qed
  qed
  moreover have "i \<notin> (\<Union>c \<in> set cs. ?D c)" using c acyclic by (auto dest: rtranclp_into_tranclp1)
  ultimately show ?case using i(1) by auto
qed

text \<open>Children come before their parents.\<close>

fun children_first :: "services \<Rightarrow> Service set \<Rightarrow> Service list \<Rightarrow> bool" where
  "children_first T seen [] \<longleftrightarrow> True"
| "children_first T seen (x # xs) \<longleftrightarrow> children T (svc_ID x) \<subseteq> seen \<and> children_first T (insert x seen) xs"

lemma children_first_append:
  "children_first T seen (xs @ ys) \<longleftrightarrow> children_first T seen xs \<and> children_first T (seen \<union> set xs) ys"
  by (induction xs arbitrary: seen) auto

lemma children_first_mono: "children_first T seen xs \<Longrightarrow> seen \<subseteq> seen' \<Longrightarrow> children_first T seen' xs"
  by (induction xs arbitrary: seen seen') (auto, blast)

lemma children_first_concat: "list_all (children_first T {}) xss \<Longrightarrow> children_first T seen (concat xss)"
  by (induction xss arbitrary: seen) (auto simp: children_first_append intro: children_first_mono)

lemma walks_order:
  assumes "walks T i xs" "tree_ids T"
  shows "children_first T {} xs"
  using assms(1)
proof induction
  case (walks cs i xss svc)
  have "list_all (children_first T {}) xss"
    using walks.IH by (auto simp: list_all_iff dest: zip_right [OF walks.IH] simp: list_all2_iff)
  then have "children_first T {} (concat xss)" by (rule children_first_concat)
  moreover have "children T (svc_ID svc) \<subseteq> set (concat xss)"
  proof
    fix c assume "c \<in> children T (svc_ID svc)"
    then have "c \<in> set cs" using walks.hyps(2,3) assms(2) by (auto simp: tree_ids_def)
    then obtain xs where z: "(c, xs) \<in> set (zip cs xss)" using zip_left [OF walks.IH] by blast
    then obtain c' where "T (svc_ID c) = Some c'" "c' \<in> set xs" using walks.IH walks_nonempty by (fastforce simp: list_all2_iff)
    moreover have "T (svc_ID c) = Some c" using \<open>c \<in> set cs\<close> walks.hyps(2) by (auto simp: children_def)
    ultimately show "c \<in> set (concat xss)" using set_zip_rightD [OF z] by auto
  qed
  ultimately show ?case by (simp add: children_first_append)
qed

text \<open>The stack that a walk needs: one frame for each service below.\<close>

definition below :: "services \<Rightarrow> string \<Rightarrow> string set" where
  "below A i = insert i {j. A j \<noteq> None \<and> (child_of A)\<^sup>*\<^sup>* j i}"

lemma finite_below: "finite (dom A) \<Longrightarrow> finite (below A i)"
  by (auto simp: below_def dom_def intro: rev_finite_subset)

lemma below_child:
  assumes "finite (dom A)" "acyclic_tree A" "child_of A c i"
  shows "card (below A c) < card (below A i)"
proof (rule psubset_card_mono)
  show "finite (below A i)" by (rule finite_below [OF assms(1)])
  have "below A c \<subseteq> below A i"
  proof
    fix j assume "j \<in> below A c"
    then have "A j \<noteq> None \<and> (child_of A)\<^sup>*\<^sup>* j c" using assms(3) by (auto simp: below_def child_of_def)
    then show "j \<in> below A i" using rtranclp.rtrancl_into_rtrancl [of "child_of A" j c i] assms(3) by (simp add: below_def)
  qed
  moreover have "i \<notin> below A c"
  proof
    assume "i \<in> below A c"
    then have "i = c \<or> (child_of A)\<^sup>*\<^sup>* i c" by (auto simp: below_def)
    then have "(child_of A)\<^sup>*\<^sup>* i c" by auto
    then show False using rtranclp_into_tranclp1 [of "child_of A" i c i] assms(2,3) by (simp add: acyclic_tree_def)
  qed
  moreover have "i \<in> below A i" by (simp add: below_def)
  ultimately show "below A c \<subset> below A i" by blast
qed

subsection \<open>What a walk does\<close>

text \<open>
  A walk relies on two reads of a table, where they succeed: the service of an id, and all
  services with a given parent.
\<close>

locale service_reads =
  fixes getService :: "string \<Rightarrow> 's \<Rightarrow> ds_error + Service"
    and getChildren :: "string \<Rightarrow> 's \<Rightarrow> ds_error + Service list"
    and T :: "'s \<Rightarrow> services"
    and readable :: "'s \<Rightarrow> bool"
  assumes ids: "readable s \<Longrightarrow> tree_ids (T s) \<and> (\<forall>i \<in> dom (T s). trimmed i)"
    and get: "readable s \<Longrightarrow> getService i s = Inr svc \<Longrightarrow> T s i = Some svc"
    and children_read: "readable s \<Longrightarrow> trimmed i \<Longrightarrow> getChildren i s = Inr cs \<Longrightarrow> distinct cs \<and> set cs = children (T s) i"
begin

definition keeps_tree :: "(Service \<Rightarrow> 's \<Rightarrow> facade_error option \<times> 's) \<Rightarrow> bool" where
  "keeps_tree visitFn \<longleftrightarrow> (\<forall>svc s e s'. readable s \<longrightarrow> visitFn svc s = (e, s') \<longrightarrow> readable s' \<and> T s' = T s)"

lemma keeps_treeD: "keeps_tree v \<Longrightarrow> readable s \<Longrightarrow> v svc s = (e, s') \<Longrightarrow> readable s' \<and> T s' = T s"
  by (simp add: keeps_tree_def)

abbreviation walk :: "nat \<Rightarrow> (Service \<Rightarrow> 's \<Rightarrow> facade_error option \<times> 's) \<Rightarrow> string \<Rightarrow> 's \<Rightarrow> (facade_error option \<times> 's) option" where
  "walk n \<equiv> Walk n getService getChildren"

abbreviation walk_children ::
    "nat \<Rightarrow> (Service \<Rightarrow> 's \<Rightarrow> facade_error option \<times> 's) \<Rightarrow> Service list \<Rightarrow> 's \<Rightarrow> (facade_error option \<times> 's) option" where
  "walk_children n \<equiv> Walk_children n getService getChildren"

lemma Walk_children_keeps:
  assumes "\<And>i s e s'. walk n v i s = Some (e, s') \<Longrightarrow> readable s \<Longrightarrow> readable s' \<and> T s' = T s"
  shows "walk_children n v cs s = Some (e, s') \<Longrightarrow> readable s \<Longrightarrow> readable s' \<and> T s' = T s"
proof (induction cs arbitrary: s)
  case (Cons c cs)
  obtain e1 s1 where w: "walk n v (svc_ID c) s = Some (e1, s1)" using Cons.prems(1) by (auto split: option.splits)
  then have 1: "readable s1 \<and> T s1 = T s" using assms Cons.prems(2) by blast
  then show ?case using Cons w by (cases e1) auto
qed simp

lemma Walk_keeps:
  assumes "keeps_tree v"
  shows "walk n v i s = Some (e, s') \<Longrightarrow> readable s \<Longrightarrow> readable s' \<and> T s' = T s"
proof (induction n arbitrary: i s e s')
  case (Suc n)
  show ?case
  proof (cases "getChildren i s")
    case (Inr cs)
    obtain e1 s1 where w: "walk_children n v cs s = Some (e1, s1)" using Suc.prems(1) Inr by (auto split: option.splits)
    have 1: "readable s1 \<and> T s1 = T s" by (rule Walk_children_keeps [OF Suc.IH w Suc.prems(2)])
    show ?thesis
    proof (cases e1)
      case None
      then show ?thesis using Suc.prems(1) Inr w 1 keeps_treeD [OF assms, of s1] by (cases "getService i s1") auto
    qed (use Suc.prems(1) Inr w 1 in auto)
  qed (use Suc.prems in auto)
qed simp

lemma Walk_children_sound:
  assumes "keeps_tree v"
    and "\<And>i s s'. walk n v i s = Some (None, s') \<Longrightarrow> readable s \<Longrightarrow> trimmed i \<Longrightarrow> \<exists>xs. walks (T s) i xs \<and> visits v xs s = Some s'"
  shows "walk_children n v cs s = Some (None, s') \<Longrightarrow> readable s \<Longrightarrow> \<forall>c \<in> set cs. trimmed (svc_ID c) \<Longrightarrow>
    \<exists>xss. list_all2 (\<lambda>c xs. walks (T s) (svc_ID c) xs) cs xss \<and> visits v (concat xss) s = Some s'"
proof (induction cs arbitrary: s)
  case (Cons c cs)
  obtain s1 where w: "walk n v (svc_ID c) s = Some (None, s1)" "walk_children n v cs s1 = Some (None, s')"
    using Cons.prems(1) by (auto split: option.splits)
  obtain xs where xs: "walks (T s) (svc_ID c) xs" "visits v xs s = Some s1" using assms(2) [OF w(1) Cons.prems(2)] Cons.prems(3) by auto
  have s1: "readable s1" "T s1 = T s" using Walk_keeps [OF assms(1) w(1) Cons.prems(2)] by simp_all
  obtain xss where "list_all2 (\<lambda>c xs. walks (T s1) (svc_ID c) xs) cs xss" "visits v (concat xss) s1 = Some s'"
    using Cons.IH [OF w(2) s1(1)] Cons.prems(3) by auto
  then have "list_all2 (\<lambda>c xs. walks (T s) (svc_ID c) xs) (c # cs) (xs # xss) \<and> visits v (concat (xs # xss)) s = Some s'"
    using xs s1(2) by (simp add: visits_append)
  then show ?case by blast
qed simp

lemma Walk_sound:
  assumes "keeps_tree v"
  shows "walk n v i s = Some (None, s') \<Longrightarrow> readable s \<Longrightarrow> trimmed i \<Longrightarrow> \<exists>xs. walks (T s) i xs \<and> visits v xs s = Some s'"
proof (induction n arbitrary: i s s')
  case (Suc n)
  obtain cs s1 svc where w: "getChildren i s = Inr cs" "walk_children n v cs s = Some (None, s1)"
      "getService i s1 = Inr svc" "v svc s1 = (None, s')"
    using Suc.prems(1) by (auto split: sum.splits option.splits prod.splits)
  note cs = children_read [OF Suc.prems(2,3) w(1)]
  have "\<forall>c \<in> set cs. trimmed (svc_ID c)" using cs ids [OF Suc.prems(2)] by (auto simp: children_def)
  then obtain xss where xss: "list_all2 (\<lambda>c xs. walks (T s) (svc_ID c) xs) cs xss" "visits v (concat xss) s = Some s1"
    using Walk_children_sound [OF assms Suc.IH w(2) Suc.prems(2)] by blast
  have s1: "readable s1" "T s1 = T s"
    using Walk_children_keeps [OF Walk_keeps [OF assms] w(2) Suc.prems(2)] by simp_all
  have "walks (T s) i (concat xss @ [svc])"
    using cs xss(1) get [OF s1(1) w(3)] s1(2) by (intro walks.walks) simp_all
  moreover have "visits v (concat xss @ [svc]) s = Some s'" using xss(2) w(4) by (simp add: visits_append)
  ultimately show ?case by blast
qed simp

lemma Walk_children_returns:
  assumes "keeps_tree v"
    and "\<And>c s. c \<in> set cs \<Longrightarrow> readable s \<Longrightarrow> T s = A \<Longrightarrow> walk n v (svc_ID c) s \<noteq> None"
  shows "readable s \<Longrightarrow> T s = A \<Longrightarrow> walk_children n v cs s \<noteq> None"
  using assms(2)
proof (induction cs arbitrary: s)
  case (Cons c cs)
  obtain e s1 where w: "walk n v (svc_ID c) s = Some (e, s1)" using Cons.prems by fastforce
  then have "readable s1" "T s1 = A" using Walk_keeps [OF assms(1) w] Cons.prems(1,2) by auto
  then show ?case using Cons w by (cases e) simp_all
qed simp

lemma Walk_returns:
  assumes "keeps_tree v" "finite (dom A)" "acyclic_tree A"
  shows "readable s \<Longrightarrow> T s = A \<Longrightarrow> i \<noteq> '''' \<Longrightarrow> trimmed i \<Longrightarrow> card (below A i) \<le> n \<Longrightarrow> walk n v i s \<noteq> None"
proof (induction n arbitrary: i s)
  case 0
  then show ?case using finite_below [OF assms(2)] by (auto simp: below_def)
next
  case (Suc n)
  show ?case
  proof (cases "getChildren i s")
    case (Inr cs)
    have cs: "set cs = children A i" using children_read [OF Suc.prems(1,4) Inr] Suc.prems(2) by simp
    have ids': "tree_ids A" "\<forall>i \<in> dom A. trimmed i" using ids [OF Suc.prems(1)] Suc.prems(2) by simp_all
    have "walk n v (svc_ID c) s' \<noteq> None" if c: "c \<in> set cs" "readable s'" "T s' = A" for c s'
    proof -
      have "child_of A (svc_ID c) i" using children_ids [OF ids'(1)] c(1) cs Suc.prems(3) by blast
      from below_child [OF assms(2,3) this] have "card (below A (svc_ID c)) \<le> n" using Suc.prems(5) by linarith
      moreover have c': "A (svc_ID c) = Some c" using c(1) cs by (simp add: children_def)
      then have "svc_ID c \<noteq> ''''" using ids'(1) unfolding tree_ids_def by blast
      moreover have "trimmed (svc_ID c)" using c' ids'(2) by (metis domI)
      ultimately show ?thesis using Suc.IH [OF c(2,3)] by blast
    qed
    then have "walk_children n v cs s \<noteq> None" using Walk_children_returns [OF assms(1)] Suc.prems(1,2) by blast
    then show ?thesis using Inr by (auto split: option.splits sum.splits)
  qed simp
qed

end

subsection \<open>Walks over the store\<close>

text \<open>
  The store answers the reads of a walk as long as it holds fewer services than a search may
  return and ids have no white space at their ends, which a search strips.
\<close>

definition small_tree :: "services \<Rightarrow> bool" where
  "small_tree T \<longleftrightarrow> finite (dom T) \<and> card (dom T) < 50000 \<and> (\<forall>i \<in> dom T. i \<noteq> '''' \<and> trimmed i)"

definition store_readable :: "('s \<Rightarrow> docmap) \<Rightarrow> 's Store \<Rightarrow> bool" where
  "store_readable docs st \<longleftrightarrow> db_ok (docs (st_db st)) \<and> small_tree (shown (docs (st_db st)) (st_cache st))"

abbreviation tree_of :: "('s \<Rightarrow> docmap) \<Rightarrow> 's Store \<Rightarrow> services" where
  "tree_of docs st \<equiv> shown (docs (st_db st)) (st_cache st)"

lemma readable_ids: "store_readable docs st \<Longrightarrow> tree_ids (tree_of docs st)"
  using shown_ID by (fastforce simp: store_readable_def small_tree_def tree_ids_def)

lemma matches_parent [simp]: "doc_matches [(''ParentServiceID'', p)] (ServiceDoc svc) \<longleftrightarrow> svc_ParentServiceID svc = p"
  by (simp add: doc_matches_def)

lemma few_services:
  assumes "small_tree T" "distinct (map svc_ID svcs)" "\<forall>svc \<in> set svcs. T (svc_ID svc) = Some svc"
  shows "length svcs < 50000"
proof -
  have "svc_ID ` set svcs \<subseteq> dom T" using assms(3) by auto
  then have "card (svc_ID ` set svcs) \<le> card (dom T)" using assms(1) by (intro card_mono) (auto simp: small_tree_def)
  moreover have "card (svc_ID ` set svcs) = length svcs" using distinct_card [OF assms(2)] by simp
  ultimately show ?thesis using assms(1) by (simp add: small_tree_def)
qed

lemma GetChildServices_children:
  assumes "elastic es docs" "store_readable docs st" "trimmed i" "GetChildServices es i st = Inr cs"
  shows "distinct cs \<and> set cs = children (tree_of docs st) i"
proof -
  have q: "service_query es [(''ParentServiceID'', i)] 50000 st = Inr cs"
    using assms(3,4) by (auto simp: GetChildServices_def Let_def trimmed_def split: if_splits)
  note found = elastic.query_distinct [OF assms(1) _ q]
  have ok: "db_ok (docs (st_db st))" "small_tree (tree_of docs st)" using assms(2) by (simp_all add: store_readable_def)
  then have "length cs < 50000" using found few_services by blast
  then have "set cs = children (tree_of docs st) i" using found [OF ok(1)] by (auto simp: children_def)
  then show ?thesis using found [OF ok(1)] by (simp add: distinct_map)
qed

sublocale elastic \<subseteq> reads: service_reads "Get es" "GetChildServices es" "tree_of docs" "store_readable docs"
proof
  fix s :: "'s Store" and i svc cs
  show "store_readable docs s \<Longrightarrow> tree_ids (tree_of docs s) \<and> (\<forall>i \<in> dom (tree_of docs s). trimmed i)"
    using readable_ids by (auto simp: store_readable_def small_tree_def)
  show "Get es i s = Inr svc \<Longrightarrow> tree_of docs s i = Some svc" by (rule Get_shown)
  show "store_readable docs s \<Longrightarrow> trimmed i \<Longrightarrow> GetChildServices es i s = Inr cs \<Longrightarrow> distinct cs \<and> set cs = children (tree_of docs s) i"
    by (rule GetChildServices_children [OF elastic_axioms])
qed

lemma walk_reads:
  assumes "elastic es docs"
  shows "service_reads (\<lambda>i w. Get es i (store w)) (\<lambda>i w. GetChildServices es i (store w))
    (\<lambda>w. tree_of docs (store w)) (\<lambda>w. store_readable docs (store w))"
proof
  fix w i svc cs
  show "store_readable docs (store w) \<Longrightarrow> tree_ids (tree_of docs (store w)) \<and> (\<forall>i \<in> dom (tree_of docs (store w)). trimmed i)"
    using readable_ids by (auto simp: store_readable_def small_tree_def)
  show "Get es i (store w) = Inr svc \<Longrightarrow> tree_of docs (store w) i = Some svc" by (rule elastic.Get_shown [OF assms])
  show "store_readable docs (store w) \<Longrightarrow> trimmed i \<Longrightarrow> GetChildServices es i (store w) = Inr cs \<Longrightarrow>
      distinct cs \<and> set cs = children (tree_of docs (store w)) i"
    by (rule GetChildServices_children [OF assms])
qed

definition keeps_services :: "('s \<Rightarrow> docmap) \<Rightarrow> ('w \<Rightarrow> 's Store) \<Rightarrow> (Service \<Rightarrow> 'w \<Rightarrow> facade_error option \<times> 'w) \<Rightarrow> bool" where
  "keeps_services docs store visitFn \<longleftrightarrow> (\<forall>svc w e w'. store_readable docs (store w) \<longrightarrow> visitFn svc w = (e, w') \<longrightarrow>
     store_readable docs (store w') \<and> tree_of docs (store w') = tree_of docs (store w))"

lemma keeps_tree_services:
  assumes "elastic es docs"
  shows "service_reads.keeps_tree (\<lambda>w. tree_of docs (store w)) (\<lambda>w. store_readable docs (store w)) v = keeps_services docs store v"
  unfolding service_reads.keeps_tree_def [OF walk_reads [OF assms]] keeps_services_def ..

text \<open>The services at a node of the tree and below it.\<close>

definition subtree_of :: "services \<Rightarrow> string \<Rightarrow> Service set" where
  "subtree_of T i = {svc. T (svc_ID svc) = Some svc \<and> (child_of T)\<^sup>*\<^sup>* (svc_ID svc) i}"

lemma walk_visits:
  assumes "elastic es docs" "store_readable docs (store w)" "trimmed i" "keeps_services docs store v"
    and "walkServices n es store i True v w = Some (None, w')"
  shows "\<exists>xs. visits v xs w = Some w' \<and> walks (tree_of docs (store w)) i xs"
  using service_reads.Walk_sound [OF walk_reads [OF assms(1), of store], where v = v and s = w and i = i and n = n and s' = w']
    assms(2-5) by (auto simp: walkServices_def keeps_tree_services [OF assms(1)])

lemma walk_keeps:
  assumes "elastic es docs" "store_readable docs (store w)" "keeps_services docs store v"
    and "walkServices n es store i True v w = Some (e, w')"
  shows "store_readable docs (store w') \<and> tree_of docs (store w') = tree_of docs (store w)"
  using service_reads.Walk_keeps [OF walk_reads [OF assms(1), of store], where v = v and s = w and i = i and n = n and s' = w']
    assms(2-4) by (auto simp: walkServices_def keeps_tree_services [OF assms(1)])



subsection \<open>Counting\<close>

text \<open>
  \<^verbatim>\<open>countServices\<close>: the visitor keeps the ids it has seen and the tally beside the store.
\<close>

definition count_visit :: "(Service \<Rightarrow> bool) \<Rightarrow> Service \<Rightarrow> 's Store \<times> string list \<times> nat \<Rightarrow> facade_error option \<times> 's Store \<times> string list \<times> nat" where
  "count_visit check svc w =
     (case w of (st, alreadyChecked, tally) \<Rightarrow>
        (None, if svc_ID svc \<in> set alreadyChecked then w
               else (st, svc_ID svc # alreadyChecked, if check svc then tally + 1 else tally)))"

fun count_loop ::
    "nat \<Rightarrow> 's Elastic \<Rightarrow> (Service \<Rightarrow> bool) \<Rightarrow> string list \<Rightarrow> 's Store \<times> string list \<times> nat \<Rightarrow> (facade_error + nat) option" where
  "count_loop n es check [] w = Some (Inr (snd (snd w)))"
| "count_loop n es check (serviceID # serviceIDs) w =
     (case walkServices n es fst serviceID True (count_visit check) w of
        None \<Rightarrow> None
      | Some (Some e, _) \<Rightarrow> Some (Inl e)
      | Some (None, w') \<Rightarrow> count_loop n es check serviceIDs w')"

definition countServices :: "nat \<Rightarrow> 's Elastic \<Rightarrow> string list \<Rightarrow> (Service \<Rightarrow> bool) \<Rightarrow> 's Store \<Rightarrow> (facade_error + nat) option" where
  "countServices n es serviceIDs check st = count_loop n es check serviceIDs (st, [], 0)"

definition counted :: "services \<Rightarrow> (Service \<Rightarrow> bool) \<Rightarrow> string list \<Rightarrow> nat \<Rightarrow> bool" where
  "counted T check ids tally \<longleftrightarrow> tally = card {i \<in> set ids. \<exists>svc. T i = Some svc \<and> check svc}"

lemma count_visit_counted:
  assumes "counted T check ids tally" "T (svc_ID svc) = Some svc"
    and "count_visit check svc (st, ids, tally) = (e, st', ids', tally')"
  shows "e = None \<and> st' = st \<and> set ids' = insert (svc_ID svc) (set ids) \<and> counted T check ids' tally'"
proof (cases "svc_ID svc \<in> set ids")
  case False
  let ?S = "{i \<in> set ids. \<exists>svc. T i = Some svc \<and> check svc}"
  have "{i \<in> set (svc_ID svc # ids). \<exists>svc. T i = Some svc \<and> check svc} = (if check svc then insert (svc_ID svc) ?S else ?S)"
    using assms(2) by (auto simp del: not_None_eq)
  moreover have "svc_ID svc \<notin> ?S" "finite ?S" using False by auto
  moreover have "ids' = svc_ID svc # ids" "e = None" "st' = st" "tally' = (if check svc then tally + 1 else tally)"
    using assms(3) False by (simp_all add: count_visit_def split: if_splits)
  ultimately show ?thesis using assms(1) unfolding counted_def by simp
qed (use assms in \<open>auto simp: count_visit_def\<close>)

lemma count_visits:
  assumes "visits (count_visit check) xs (st, ids, tally) = Some (st', ids', tally')"
    and "\<forall>svc \<in> set xs. T (svc_ID svc) = Some svc" "counted T check ids tally"
  shows "st' = st \<and> set ids' = set ids \<union> svc_ID ` set xs \<and> counted T check ids' tally'"
  using assms
proof (induction xs arbitrary: ids tally)
  case (Cons svc xs)
  obtain e st1 ids1 tally1 where v: "count_visit check svc (st, ids, tally) = (e, st1, ids1, tally1)" by (metis prod_cases4)
  have 1: "e = None \<and> st1 = st \<and> set ids1 = insert (svc_ID svc) (set ids) \<and> counted T check ids1 tally1"
    by (rule count_visit_counted [OF Cons.prems(3) _ v]) (use Cons.prems(2) in simp)
  then show ?case using Cons.IH [of ids1 tally1] Cons.prems(1,2) v by auto
qed simp

lemma count_keeps: "keeps_services docs fst (count_visit check)"
  by (auto simp: keeps_services_def count_visit_def split: if_splits)

lemma count_loop_counted:
  assumes "elastic es docs" "store_readable docs st" "\<forall>i \<in> set serviceIDs. trimmed i"
    and "count_loop n es check serviceIDs (st, ids, tally) = Some (Inr k)" "counted (tree_of docs st) check ids tally"
  shows "\<exists>ids'. set ids' = set ids \<union> (\<Union>i \<in> set serviceIDs. svc_ID ` subtree_of (tree_of docs st) i) \<and> counted (tree_of docs st) check ids' k"
  using assms(3-5)
proof (induction serviceIDs arbitrary: ids tally)
  case Nil
  then show ?case by auto
next
  case (Cons i serviceIDs)
  obtain st1 ids1 tally1 where w: "walkServices n es fst i True (count_visit check) (st, ids, tally) = Some (None, (st1, ids1, tally1))"
      "count_loop n es check serviceIDs (st1, ids1, tally1) = Some (Inr k)"
    using Cons.prems(2) by (auto split: option.splits)
  obtain xs where xs: "visits (count_visit check) xs (st, ids, tally) = Some (st1, ids1, tally1)" "walks (tree_of docs st) i xs"
    using walk_visits [OF assms(1) _ _ count_keeps w(1)] assms(2) Cons.prems(1) by auto
  have set: "set xs = subtree_of (tree_of docs st) i"
    using walks_set [OF xs(2) readable_ids [OF assms(2)]] by (simp add: subtree_of_def)
  have "\<forall>svc \<in> set xs. tree_of docs st (svc_ID svc) = Some svc" unfolding set by (simp add: subtree_of_def)
  from count_visits [OF xs(1) this Cons.prems(3)]
  have 1: "st1 = st" "set ids1 = set ids \<union> svc_ID ` set xs" "counted (tree_of docs st) check ids1 tally1" by auto
  obtain ids' where "set ids' = set ids1 \<union> (\<Union>i \<in> set serviceIDs. svc_ID ` subtree_of (tree_of docs st) i)"
      "counted (tree_of docs st) check ids' k"
    using Cons.IH [OF _ w(2) [unfolded 1(1)] 1(3)] Cons.prems(1) by auto
  then show ?case using 1(2) set by (intro exI [of _ ids']) auto
qed

lemma card_checked:
  assumes own: "\<And>svc. svc \<in> A \<Longrightarrow> T (svc_ID svc) = Some svc"
  shows "card {i \<in> svc_ID ` A. \<exists>svc. T i = Some svc \<and> check svc} = card {svc \<in> A. check svc}"
proof -
  have "{i \<in> svc_ID ` A. \<exists>svc. T i = Some svc \<and> check svc} = svc_ID ` {svc \<in> A. check svc}"
  proof (intro set_eqI iffI)
    fix i assume "i \<in> {i \<in> svc_ID ` A. \<exists>svc. T i = Some svc \<and> check svc}"
    then obtain svc svc' where s: "svc \<in> A" "i = svc_ID svc" "T i = Some svc'" "check svc'" by blast
    then have "svc' = svc" using own [OF s(1)] by simp
    then show "i \<in> svc_ID ` {svc \<in> A. check svc}" using s by blast
  next
    fix i assume "i \<in> svc_ID ` {svc \<in> A. check svc}"
    then obtain svc where "svc \<in> A" "i = svc_ID svc" "check svc" by blast
    then show "i \<in> {i \<in> svc_ID ` A. \<exists>svc. T i = Some svc \<and> check svc}" using own by blast
  qed
  moreover have "inj_on svc_ID {svc \<in> A. check svc}"
  proof (rule inj_onI)
    fix a b assume ab: "a \<in> {svc \<in> A. check svc}" "b \<in> {svc \<in> A. check svc}" "svc_ID a = svc_ID b"
    then have "T (svc_ID a) = Some a" "T (svc_ID b) = Some b" using own by blast+
    then show "a = b" using ab(3) by (metis option.inject)
  qed
  ultimately show ?thesis by (simp add: card_image)
qed

text \<open>
  The number of services that a request affects counts every service once, however often
  the subtrees of the request overlap.
\<close>

theorem countServices_counts:
  assumes "elastic es docs" "store_readable docs st" "\<forall>i \<in> set serviceIDs. trimmed i"
    and "countServices n es serviceIDs check st = Some (Inr k)"
  shows "k = card {svc \<in> (\<Union>i \<in> set serviceIDs. subtree_of (tree_of docs st) i). check svc}"
proof -
  let ?T = "tree_of docs st" and ?A = "\<Union>i \<in> set serviceIDs. subtree_of (tree_of docs st) i"
  have "counted ?T check [] 0" by (simp add: counted_def)
  then obtain ids where ids: "set ids = svc_ID ` ?A" "counted ?T check ids k"
    using count_loop_counted [OF assms(1-3), of n check "[]" 0 k] assms(4) unfolding image_UN by (auto simp: countServices_def)
  have "k = card {i \<in> svc_ID ` ?A. \<exists>svc. ?T i = Some svc \<and> check svc}" using ids(2) unfolding counted_def ids(1) .
  also have "\<dots> = card {svc \<in> ?A. check svc}" by (rule card_checked) (auto simp only: subtree_of_def)
  finally show ?thesis .
qed

subsection \<open>A worked example\<close>

lemma acyclic_rank: "(\<And>i p. child_of T i p \<Longrightarrow> rank p < (rank i :: nat)) \<Longrightarrow> acyclic_tree T"
proof -
  assume less: "\<And>i p. child_of T i p \<Longrightarrow> rank p < rank i"
  have "rank j < rank i" if "(child_of T)\<^sup>+\<^sup>+ i j" for i j
    using that by induction (auto dest: less)
  then show ?thesis by (fastforce simp: acyclic_tree_def)
qed

definition three_store :: "mem_docs Store" where
  "three_store = \<lparr>st_db = [((svcKind, ''a''), (ServiceDoc (stored_svc ''a'' ''''), 1)),
     ((svcKind, ''b''), (ServiceDoc (stored_svc ''b'' ''a''), 1)), ((svcKind, ''c''), (ServiceDoc (stored_svc ''c'' ''b''), 1))],
     st_cache = []\<rparr>"

definition read_svc :: "string \<Rightarrow> string \<Rightarrow> Service" where
  "read_svc i p = (stored_svc i p)\<lparr>svc_DatabaseVersion := 1, svc_DesiredState := SVCStop\<rparr>"

lemma three_tree:
  "tree_of map_of three_store = [''a'' \<mapsto> read_svc ''a'' '''', ''b'' \<mapsto> read_svc ''b'' ''a'', ''c'' \<mapsto> read_svc ''c'' ''b'']"
  by (auto simp: fun_eq_iff shown_def doc_service_def three_store_def fillAdditionalInfo_def getVolatileInfo_def read_svc_def)

lemma three_children: "child_of (tree_of map_of three_store) i p \<longleftrightarrow> (i = ''b'' \<and> p = ''a'') \<or> (i = ''c'' \<and> p = ''b'')"
  by (auto simp: child_of_def three_tree read_svc_def stored_svc_def)

lemma three_acyclic: "acyclic_tree (tree_of map_of three_store)"
  by (rule acyclic_rank [of _ "\<lambda>i. if i = ''a'' then 0 else if i = ''b'' then 1 else 2"]) (auto simp: three_children)

lemma stored_valid3:
  "Service_ValidEntity (stored_svc ''b'' ''a'') = []" "Service_ValidEntity (stored_svc ''c'' ''b'') = []"
  "trimmed ''a''" "trimmed ''b''" "trimmed ''c''"
  by code_simp+

lemma three_readable: "store_readable map_of three_store"
proof -
  have "db_ok (map_of (st_db three_store))"
    using stored_valid stored_valid3 by (auto simp: db_ok_def three_store_def stored_svc_def)
  moreover have "dom (tree_of map_of three_store) = {''c'', ''b'', ''a''}" by (simp add: three_tree)
  then have "small_tree (tree_of map_of three_store)" using stored_valid3 by (simp add: small_tree_def)
  ultimately show ?thesis by (simp add: store_readable_def)
qed

lemmas query_defs = GetChildServices_def service_query_def conn_Query_def good_es_def mem_es_def mem_ids_def
  TrimSpace_def is_space_def doc_matches_def
lemmas get_defs = Get_def store_get_def DataStore_Get_def validKey_def conn_Get_def good_es_def mem_es_def

lemma three_reads:
  "GetChildServices good_es ''a'' three_store = Inr [read_svc ''b'' ''a'']"
  "GetChildServices good_es ''b'' three_store = Inr [read_svc ''c'' ''b'']"
  "GetChildServices good_es ''c'' three_store = Inr []"
  "Get good_es ''a'' three_store = Inr (read_svc ''a'' '''')"
  "Get good_es ''b'' three_store = Inr (read_svc ''b'' ''a'')"
  "Get good_es ''c'' three_store = Inr (read_svc ''c'' ''b'')"
  by (simp_all add: query_defs get_defs three_store_def stored_svc_def read_svc_def fillAdditionalInfo_def getVolatileInfo_def)

lemma read_svc_ID [simp]: "svc_ID (read_svc i p) = i"
  by (simp add: read_svc_def stored_svc_def)

lemma three_walk:
  "walkServices 4 good_es fst ''a'' True (count_visit (\<lambda>_. True)) (three_store, [], 0) =
     Some (None, (three_store, [''a'', ''b'', ''c''], 3))"
  "countServices 4 good_es [''b'', ''a''] (\<lambda>svc. svc_ID svc \<noteq> ''c'') three_store = Some (Inr 2)"
  by (simp_all add: walkServices_def countServices_def three_reads count_visit_def eval_nat_numeral)



theorem countServices_counts_witness:
  "card {svc \<in> (\<Union>i \<in> {''b'', ''a''}. subtree_of (tree_of map_of three_store) i). svc_ID svc \<noteq> ''c''} = 2"
  using countServices_counts [OF good_elastic three_readable _ three_walk(2)] stored_valid3 by simp

end
