(* ===== verification/Address_Assignments.thy ===== *)
theory Address_Assignments
  imports Service_Tree
begin

section \<open>Address assignments\<close>

text \<open>
  \<^verbatim>\<open>facade/addressassignment.go\<close>, \<^verbatim>\<open>domain/addressassignment/addressassignmentstore.go\<close> and
  the part of \<^verbatim>\<open>facade/service.go\<close> that gives addresses to the endpoints of services. An
  assignment is a document that binds an address and a port of a pool to an endpoint of a
  service. The stores of pools and hosts, the source of random numbers and the request to
  restart a service are the record \<open>Sources\<close>. A nil pool is \<^term>\<open>None\<close>, and reading a field of
  it is the error \<open>PanicNilPointer\<close>.
\<close>

subsection \<open>The store of assignments\<close>

abbreviation aaKind :: string where "aaKind \<equiv> ''addressassignment''"

fun decode_assignment :: "Doc \<times> int \<Rightarrow> ds_error + AddressAssignment" where
  "decode_assignment (AssignmentDoc a, version) = Inr a"
| "decode_assignment (ServiceDoc svc, version) = Inl ErrDecode"

fun convert_assignments :: "(Doc \<times> int) list \<Rightarrow> ds_error + AddressAssignment list" where
  "convert_assignments [] = Inr []"
| "convert_assignments (m # ms) =
     (case decode_assignment m of
        Inl e \<Rightarrow> Inl e
      | Inr a \<Rightarrow> (case convert_assignments ms of Inl e \<Rightarrow> Inl e | Inr as \<Rightarrow> Inr (a # as)))"

definition assignment_query :: "'s Elastic \<Rightarrow> Terms \<Rightarrow> nat \<Rightarrow> 's \<Rightarrow> ds_error + AddressAssignment list" where
  "assignment_query es ts n s =
     (case conn_Query es aaKind ts n s of Inl e \<Rightarrow> Inl e | Inr ms \<Rightarrow> convert_assignments ms)"

definition GetAllAddressAssignments :: "'s Elastic \<Rightarrow> 's \<Rightarrow> ds_error + AddressAssignment list" where
  "GetAllAddressAssignments es s = assignment_query es [] 50000 s"

definition GetServiceAddressAssignments :: "'s Elastic \<Rightarrow> string \<Rightarrow> 's \<Rightarrow> ds_error + AddressAssignment list" where
  "GetServiceAddressAssignments es serviceID s = assignment_query es [(''ServiceID'', serviceID)] 50000 s"

definition port_string :: "16 word \<Rightarrow> string" where
  "port_string port = show_nat (unat port)"

definition GetServiceAddressAssignmentsByPort ::
    "'s Elastic \<Rightarrow> string \<Rightarrow> 16 word \<Rightarrow> 's \<Rightarrow> ds_error + AddressAssignment list" where
  "GetServiceAddressAssignmentsByPort es poolID port s =
     (let pool = TrimSpace poolID in
      if pool = [] then Inl (EmptyArgument ''poolID'')
      else if port = 0 then Inl (EmptyArgument ''port'')
      else assignment_query es [(''PoolID'', pool), (''Port'', port_string port)] 50000 s)"

fun first_of :: "ds_error + 'a list \<Rightarrow> ds_error + 'a option" where
  "first_of (Inl e) = Inl e"
| "first_of (Inr []) = Inr None"
| "first_of (Inr (x # xs)) = Inr (Some x)"

definition FindAssignmentByServiceEndpoint ::
    "'s Elastic \<Rightarrow> string \<Rightarrow> string \<Rightarrow> 's \<Rightarrow> ds_error + AddressAssignment option" where
  "FindAssignmentByServiceEndpoint es serviceID endpointName s =
     (let svc = TrimSpace serviceID; endpoint = TrimSpace endpointName in
      if svc = [] then Inl (EmptyArgument ''service ID'')
      else if endpoint = [] then Inl (EmptyArgument ''endpoint name'')
      else first_of (assignment_query es [(''ServiceID'', svc), (''EndpointName'', endpoint)] 10 s))"

definition FindAssignmentByHostPort ::
    "'s Elastic \<Rightarrow> string \<Rightarrow> string \<Rightarrow> 16 word \<Rightarrow> 's \<Rightarrow> ds_error + AddressAssignment option" where
  "FindAssignmentByHostPort es poolID ipAddr port s =
     (let pool = TrimSpace poolID; addr = TrimSpace ipAddr in
      if pool = [] then Inl (EmptyArgument ''poolID'')
      else if addr = [] then Inl (EmptyArgument ''hostIP'')
      else if port = 0 then Inl (EmptyArgument ''port'')
      else first_of (assignment_query es [(''PoolID'', pool), (''IPAddr'', addr), (''Port'', port_string port)] 50000 s))"

subsection \<open>Adding and removing\<close>

record HostIPResource =
  hip_HostID :: string
  hip_IPAddress :: string

record PoolHost =
  ph_ID :: string
  ph_PoolID :: string
  ph_IPs :: "HostIPResource list"

text \<open>Of the virtual addresses of a pool only the address is read here.\<close>

record ResourcePool =
  rp_ID :: string
  rp_VirtualIPs :: "string list"
  rp_Permissions :: u64

record 's Sources =
  so_GetPool :: "string \<Rightarrow> 's \<Rightarrow> ds_error + ResourcePool"
  so_HasVirtualIP :: "string \<Rightarrow> string \<Rightarrow> 's \<Rightarrow> ds_error + bool"
  so_GetHostByIP :: "string \<Rightarrow> 's \<Rightarrow> ds_error + PoolHost option"
  so_FindHostsWithPoolID :: "string \<Rightarrow> 's \<Rightarrow> ds_error + PoolHost list"
  so_NewUUID36 :: "'s \<Rightarrow> string option"
  so_Intn :: "nat \<Rightarrow> 's \<Rightarrow> nat"
  so_RebalanceService :: "string \<Rightarrow> 's Store \<Rightarrow> 's Store"

definition GetResourcePool :: "'s Sources \<Rightarrow> string \<Rightarrow> 's \<Rightarrow> facade_error + ResourcePool option" where
  "GetResourcePool so poolID s =
     (case so_GetPool so poolID s of
        Inr pool \<Rightarrow> Inr (Some pool)
      | Inl (NoSuchEntity k i) \<Rightarrow> Inr None
      | Inl e \<Rightarrow> Inl (StoreError e))"

definition RemoveAddressAssignment :: "'s Elastic \<Rightarrow> string \<Rightarrow> 's Store \<Rightarrow> facade_error option \<times> 's Store" where
  "RemoveAddressAssignment es i st =
     (case DataStore_Get es aaKind i (st_db st) of
        Inl e \<Rightarrow> (Some (StoreError e), st)
      | Inr m \<Rightarrow>
          (case decode_assignment m of
             Inl e \<Rightarrow> (Some (StoreError e), st)
           | Inr _ \<Rightarrow>
               (case DataStore_Delete es aaKind i (st_db st) of
                  (e, s') \<Rightarrow> (map_option StoreError e, st\<lparr>st_db := s'\<rparr>))))"

definition assign ::
    "'s Elastic \<Rightarrow> 's Sources \<Rightarrow> AddressAssignment \<Rightarrow> 's Store \<Rightarrow> (facade_error + string) \<times> 's Store" where
  "assign es so a st =
     (if Assignment_ValidEntity a \<noteq> [] then (Inl (StoreError (Violations (Assignment_ValidEntity a))), st)
      else case FindAssignmentByServiceEndpoint es (aa_ServiceID a) (aa_EndpointName a) (st_db st) of
        Inl e \<Rightarrow> (Inl (StoreError e), st)
      | Inr (Some _) \<Rightarrow> (Inl (FacadeFailure ''found assignment for endpoint''), st)
      | Inr None \<Rightarrow>
          (case FindAssignmentByHostPort es (aa_PoolID a) (aa_IPAddr a) (aa_Port a) (st_db st) of
             Inl e \<Rightarrow> (Inl (StoreError e), st)
           | Inr (Some _) \<Rightarrow> (Inl (FacadeFailure ''found assignment for port''), st)
           | Inr None \<Rightarrow>
               (case so_NewUUID36 so (st_db st) of
                  None \<Rightarrow> (Inl (FacadeFailure ''uuid''), st)
                | Some i \<Rightarrow>
                    (case DataStore_Put es aaKind i (AssignmentDoc (a\<lparr>aa_ID := i\<rparr>)) (st_db st) of
                       (Some e, s') \<Rightarrow> (Inl (StoreError e), st\<lparr>st_db := s'\<rparr>)
                     | (None, s') \<Rightarrow> (Inr i, st\<lparr>st_db := s'\<rparr>)))))"

text \<open>\<^verbatim>\<open>EqualIP\<close>, as it is written.\<close>

definition EqualIP :: "AddressAssignment \<Rightarrow> AddressAssignment \<Rightarrow> bool" where
  "EqualIP a b =
     (if aa_PoolID a \<noteq> aa_PoolID b then False
      else if aa_IPAddr a = aa_IPAddr b then False
      else if aa_Port a \<noteq> aa_Port b then False
      else if aa_ServiceID a \<noteq> aa_ServiceID b then False
      else if aa_EndpointName a \<noteq> aa_EndpointName b then False
      else True)"

subsection \<open>Choosing an address\<close>

record ipinfo =
  ip_IP :: string
  ip_Type :: string
  ip_HostID :: string

definition IsConfigurable :: "ServiceEndpoint \<Rightarrow> bool" where
  "IsConfigurable ep = (arc_Port (ep_AddressConfig ep) > 0 \<and> arc_Protocol (ep_AddressConfig ep) \<noteq> '''')"

text \<open>
  A set of ports is the list of its keys in the order of one iteration; nil is the empty list,
  which behaves like it.
\<close>

type_synonym Ports = "16 word list"

fun ports_loop :: "ServiceEndpoint list \<Rightarrow> Ports \<Rightarrow> facade_error + Ports" where
  "ports_loop [] ports = Inr ports"
| "ports_loop (ep # eps) ports =
     (if IsConfigurable ep then
        (let port = arc_Port (ep_AddressConfig ep) in
         if port \<in> set ports then Inl (FacadeFailure ''multiple endpoints found at port'')
         else ports_loop eps (ports @ [port]))
      else ports_loop eps ports)"

definition GetPorts :: "ServiceEndpoint list \<Rightarrow> facade_error + Ports" where
  "GetPorts eps = ports_loop eps []"

fun ignored_ips :: "'s Elastic \<Rightarrow> string \<Rightarrow> Ports \<Rightarrow> 's \<Rightarrow> ds_error + string list" where
  "ignored_ips es poolID [] s = Inr []"
| "ignored_ips es poolID (port # ports) s =
     (case GetServiceAddressAssignmentsByPort es poolID port s of
        Inl e \<Rightarrow> Inl e
      | Inr as \<Rightarrow> (case ignored_ips es poolID ports s of Inl e \<Rightarrow> Inl e | Inr ips \<Rightarrow> Inr (map aa_IPAddr as @ ips)))"

definition pool_ips :: "ResourcePool \<Rightarrow> PoolHost list \<Rightarrow> string list \<Rightarrow> ipinfo list" where
  "pool_ips pool hosts ignoreips =
     map (\<lambda>ip. \<lparr>ip_IP = ip, ip_Type = ''virtual'', ip_HostID = ''''\<rparr>) (filter (\<lambda>ip. ip \<notin> set ignoreips) (rp_VirtualIPs pool))
     @ map (\<lambda>h. \<lparr>ip_IP = hip_IPAddress h, ip_Type = ''static'', ip_HostID = hip_HostID h\<rparr>)
         (filter (\<lambda>h. hip_IPAddress h \<notin> set ignoreips) (concat (map ph_IPs hosts)))"

definition getAutoAssignment ::
    "'s Elastic \<Rightarrow> 's Sources \<Rightarrow> string \<Rightarrow> Ports \<Rightarrow> 's \<Rightarrow> facade_error + ipinfo" where
  "getAutoAssignment es so poolID ports s =
     (case GetResourcePool so poolID s of
        Inl e \<Rightarrow> Inl e
      | Inr pool \<Rightarrow>
          (case ignored_ips es poolID ports s of
             Inl e \<Rightarrow> Inl (StoreError e)
           | Inr ignoreips \<Rightarrow>
               (case pool of
                  None \<Rightarrow> Inl PanicNilPointer
                | Some p \<Rightarrow>
                    (case so_FindHostsWithPoolID so poolID s of
                       Inl e \<Rightarrow> Inl (StoreError e)
                     | Inr hosts \<Rightarrow>
                         (let ips = pool_ips p hosts ignoreips in
                          if ips = [] then Inl (FacadeFailure ''No IPs are available to be assigned'')
                          else Inr (ips ! so_Intn so (length ips) s))))))"

fun ports_free :: "'s Elastic \<Rightarrow> string \<Rightarrow> string \<Rightarrow> Ports \<Rightarrow> 's \<Rightarrow> facade_error option" where
  "ports_free es poolID ipAddr [] s = None"
| "ports_free es poolID ipAddr (port # ports) s =
     (case FindAssignmentByHostPort es poolID ipAddr port s of
        Inl e \<Rightarrow> Some (StoreError e)
      | Inr (Some _) \<Rightarrow> Some (FacadeFailure ''assignment exists'')
      | Inr None \<Rightarrow> ports_free es poolID ipAddr ports s)"

definition getManualAssignment ::
    "'s Elastic \<Rightarrow> 's Sources \<Rightarrow> string \<Rightarrow> string \<Rightarrow> Ports \<Rightarrow> 's \<Rightarrow> facade_error + ipinfo" where
  "getManualAssignment es so poolID ipAddr ports s =
     (case ports_free es poolID ipAddr ports s of
        Some e \<Rightarrow> Inl e
      | None \<Rightarrow>
          (case GetResourcePool so poolID s of
             Inl e \<Rightarrow> Inl e
           | Inr None \<Rightarrow> Inl PanicNilPointer
           | Inr (Some pool) \<Rightarrow>
               if ipAddr \<in> set (rp_VirtualIPs pool) then Inr \<lparr>ip_IP = ipAddr, ip_Type = ''virtual'', ip_HostID = ''''\<rparr>
               else (case so_GetHostByIP so ipAddr s of
                 Inl e \<Rightarrow> Inl (StoreError e)
               | Inr None \<Rightarrow> Inl (FacadeFailure ''host not found'')
               | Inr (Some host) \<Rightarrow>
                   if ph_PoolID host \<noteq> poolID then Inl (FacadeFailure ''host not found in pool'')
                   else (case List.find (\<lambda>h. hip_IPAddress h = ipAddr) (ph_IPs host) of
                     None \<Rightarrow> Inl (FacadeFailure ''host IP not found'')
                   | Some h \<Rightarrow> Inr \<lparr>ip_IP = hip_IPAddress h, ip_Type = ''static'', ip_HostID = hip_HostID h\<rparr>))))"

subsection \<open>Assigning addresses to a service\<close>

record AssignmentRequest =
  ar_ServiceID :: string
  ar_IPAddress :: string
  ar_AutoAssignment :: bool

text \<open>
  The loop that looks for the one address which all assignments of a service have; it drops
  the ports that are assigned already from the set of ports.
\<close>

fun current_ip :: "AddressAssignment list \<Rightarrow> string \<Rightarrow> Ports \<Rightarrow> string \<times> Ports" where
  "current_ip [] ipaddr ports = (ipaddr, ports)"
| "current_ip (a # as) ipaddr ports =
     (if ipaddr = '''' then current_ip as (aa_IPAddr a) (removeAll (aa_Port a) ports)
      else if ipaddr \<noteq> aa_IPAddr a then ('''', ports)
      else current_ip as ipaddr (removeAll (aa_Port a) ports))"

text \<open>The error of the manual assignment is ignored there, but a panic is not.\<close>

definition choose_ip ::
    "'s Elastic \<Rightarrow> 's Sources \<Rightarrow> AssignmentRequest \<Rightarrow> string \<Rightarrow> AddressAssignment list \<Rightarrow> Ports \<Rightarrow> 's \<Rightarrow>
     (facade_error + ipinfo) \<times> Ports" where
  "choose_ip es so r poolID as ports s =
     (if ar_AutoAssignment r then
        (case current_ip as '''' ports of
           (ipaddr, ports') \<Rightarrow>
             ((case (if ipaddr = '''' then Inl (FacadeFailure '''') else getManualAssignment es so poolID ipaddr ports' s) of
                 Inl PanicNilPointer \<Rightarrow> Inl PanicNilPointer
               | Inl e \<Rightarrow> getAutoAssignment es so poolID ports s
               | Inr ip \<Rightarrow> if ip_IP ip = '''' then getAutoAssignment es so poolID ports s else Inr ip), ports'))
      else
        (let ports' = fold (\<lambda>a. if aa_IPAddr a = ar_IPAddress r then removeAll (aa_Port a) else (\<lambda>p. p)) as ports
         in (getManualAssignment es so poolID (ar_IPAddress r) ports' s, ports')))"

fun remove_others ::
    "'s Elastic \<Rightarrow> string \<Rightarrow> AddressAssignment list \<Rightarrow> 's Store \<Rightarrow> facade_error option \<times> 's Store" where
  "remove_others es ipaddr [] st = (None, st)"
| "remove_others es ipaddr (a # as) st =
     (if aa_IPAddr a = ipaddr then remove_others es ipaddr as st
      else case RemoveAddressAssignment es (aa_ID a) st of
        (Some e, st') \<Rightarrow> (Some e, st')
      | (None, st') \<Rightarrow> remove_others es ipaddr as st')"

definition new_assignment :: "Service \<Rightarrow> ipinfo \<Rightarrow> ServiceEndpoint \<Rightarrow> AddressAssignment" where
  "new_assignment svc ip ep =
     \<lparr>aa_ID = '''', aa_AssignmentType = ip_Type ip, aa_HostID = ip_HostID ip, aa_PoolID = svc_PoolID svc,
      aa_IPAddr = ip_IP ip, aa_Port = arc_Port (ep_AddressConfig ep), aa_ServiceID = svc_ID svc, aa_EndpointName = ep_Name ep\<rparr>"

fun assign_endpoints ::
    "'s Elastic \<Rightarrow> 's Sources \<Rightarrow> Service \<Rightarrow> ipinfo \<Rightarrow> string list \<Rightarrow> ServiceEndpoint list \<Rightarrow> bool \<Rightarrow> 's Store \<Rightarrow>
     (facade_error + bool) \<times> 's Store" where
  "assign_endpoints es so svc ip exclude [] restart st = (Inr restart, st)"
| "assign_endpoints es so svc ip exclude (ep # eps) restart st =
     (if ep_Name ep \<notin> set exclude \<and> IsConfigurable ep then
        (case assign es so (new_assignment svc ip ep) st of
           (Inl e, st') \<Rightarrow> (Inl e, st')
         | (Inr _, st') \<Rightarrow> assign_endpoints es so svc ip exclude eps True st')
      else assign_endpoints es so svc ip exclude eps restart st)"

text \<open>The ports are one map for all services of a walk, so they are part of its state.\<close>

definition IpVisitorFn ::
    "'s Elastic \<Rightarrow> 's Sources \<Rightarrow> AssignmentRequest \<Rightarrow> Service \<Rightarrow> 's Store \<times> Ports \<Rightarrow> facade_error option \<times> ('s Store \<times> Ports)" where
  "IpVisitorFn es so r svc w =
     (case w of (st, ports) \<Rightarrow>
        (case GetServiceAddressAssignments es (svc_ID svc) (st_db st) of
           Inl e \<Rightarrow> (Some (StoreError e), w)
         | Inr as \<Rightarrow>
             (case choose_ip es so r (svc_PoolID svc) as ports (st_db st) of
                (Inl e, ports') \<Rightarrow> (Some e, (st, ports'))
              | (Inr ip, ports') \<Rightarrow>
                  (case remove_others es (ip_IP ip) as st of
                     (Some e, st1) \<Rightarrow> (Some e, (st1, ports'))
                   | (None, st1) \<Rightarrow>
                       (case assign_endpoints es so svc ip (map aa_EndpointName (filter (\<lambda>a. aa_IPAddr a = ip_IP ip) as))
                               (endpoints svc) False st1 of
                          (Inl e, st2) \<Rightarrow> (Some e, (st2, ports'))
                        | (Inr restart, st2) \<Rightarrow>
                            (None, (if restart \<and> svc_DesiredState svc = SVCRun then so_RebalanceService so (svc_ID svc) st2 else st2,
                                    ports')))))))"

fun restore_endpoints ::
    "'s Elastic \<Rightarrow> 's Sources \<Rightarrow> Service \<Rightarrow> ServiceEndpoint list \<Rightarrow> 's Store \<Rightarrow> facade_error option \<times> 's Store" where
  "restore_endpoints es so svc [] st = (None, st)"
| "restore_endpoints es so svc (ep # eps) st =
     (let addr = aa_IPAddr (ep_AddressAssignment ep); port = arc_Port (ep_AddressConfig ep) in
      if addr = '''' then restore_endpoints es so svc eps st
      else case (case getManualAssignment es so (svc_PoolID svc) addr [port] (st_db st) of
                   Inl PanicNilPointer \<Rightarrow> Inl PanicNilPointer
                 | Inl e \<Rightarrow> getAutoAssignment es so (svc_PoolID svc) [port] (st_db st)
                 | Inr ip \<Rightarrow> Inr ip) of
             Inl PanicNilPointer \<Rightarrow> (Some PanicNilPointer, st)
           | Inl e \<Rightarrow> restore_endpoints es so svc eps st
           | Inr ip \<Rightarrow>
               (case assign es so (new_assignment svc ip ep) st of
                  (Inl e, st') \<Rightarrow> (Some e, st')
                | (Inr _, st') \<Rightarrow> restore_endpoints es so svc eps st'))"

definition restoreIPs :: "'s Elastic \<Rightarrow> 's Sources \<Rightarrow> Service \<Rightarrow> 's Store \<Rightarrow> facade_error option \<times> 's Store" where
  "restoreIPs es so svc st = restore_endpoints es so svc (endpoints svc) st"

subsection \<open>Reading the addresses of a service\<close>

definition HasIP :: "'s Sources \<Rightarrow> string \<Rightarrow> string \<Rightarrow> 's \<Rightarrow> ds_error + bool" where
  "HasIP so poolID ipAddr s =
     (case so_HasVirtualIP so poolID ipAddr s of
        Inl e \<Rightarrow> Inl e
      | Inr True \<Rightarrow> Inr True
      | Inr False \<Rightarrow>
          (case so_GetHostByIP so ipAddr s of
             Inl e \<Rightarrow> Inl e
           | Inr None \<Rightarrow> Inr False
           | Inr (Some host) \<Rightarrow> Inr (ph_PoolID host = poolID)))"

definition zero_assignment :: AddressAssignment where
  "zero_assignment = \<lparr>aa_ID = '''', aa_AssignmentType = '''', aa_HostID = '''', aa_PoolID = '''', aa_IPAddr = '''',
     aa_Port = 0, aa_ServiceID = '''', aa_EndpointName = ''''\<rparr>"

definition RemoveAssignment :: "ServiceEndpoint \<Rightarrow> ServiceEndpoint" where
  "RemoveAssignment ep = ep\<lparr>ep_AddressAssignment := zero_assignment\<rparr>"

definition SetAssignment :: "AddressAssignment \<Rightarrow> ServiceEndpoint \<Rightarrow> ServiceEndpoint" where
  "SetAssignment a ep = (if arc_Port (ep_AddressConfig ep) = 0 then ep else ep\<lparr>ep_AddressAssignment := a\<rparr>)"

text \<open>
  One endpoint: the error, the endpoint as it is left behind and the store. A stale
  assignment is deleted.
\<close>

definition fill_endpoint ::
    "'s Elastic \<Rightarrow> 's Sources \<Rightarrow> Service \<Rightarrow> ServiceEndpoint \<Rightarrow> 's Store \<Rightarrow> facade_error option \<times> ServiceEndpoint \<times> 's Store" where
  "fill_endpoint es so svc ep0 st =
     (let ep = RemoveAssignment ep0;
          stale = (\<lambda>a. case DataStore_Delete es aaKind (aa_ID a) (st_db st) of
                     (e, s') \<Rightarrow> (map_option StoreError e, ep, st\<lparr>st_db := s'\<rparr>)) in
      if \<not> IsConfigurable ep then (None, ep, st)
      else case FindAssignmentByServiceEndpoint es (svc_ID svc) (ep_Name ep) (st_db st) of
        Inl e \<Rightarrow> (Some (StoreError e), ep, st)
      | Inr None \<Rightarrow> (None, ep, st)
      | Inr (Some a) \<Rightarrow>
          if aa_Port a \<noteq> arc_Port (ep_AddressConfig ep) then stale a
          else (case HasIP so (svc_PoolID svc) (aa_IPAddr a) (st_db st) of
            Inl e \<Rightarrow> (Some (StoreError e), ep, st)
          | Inr False \<Rightarrow> stale a
          | Inr True \<Rightarrow> (None, SetAssignment a ep, st)))"

fun fill_endpoints ::
    "'s Elastic \<Rightarrow> 's Sources \<Rightarrow> Service \<Rightarrow> ServiceEndpoint list \<Rightarrow> 's Store \<Rightarrow>
     facade_error option \<times> ServiceEndpoint list \<times> 's Store" where
  "fill_endpoints es so svc [] st = (None, [], st)"
| "fill_endpoints es so svc (ep # eps) st =
     (case fill_endpoint es so svc ep st of
        (Some e, ep', st') \<Rightarrow> (Some e, ep' # eps, st')
      | (None, ep', st') \<Rightarrow>
          (case fill_endpoints es so svc eps st' of (e, eps', st'') \<Rightarrow> (e, ep' # eps', st'')))"

definition fillServiceAddr ::
    "'s Elastic \<Rightarrow> 's Sources \<Rightarrow> Service \<Rightarrow> 's Store \<Rightarrow> facade_error option \<times> Service \<times> 's Store" where
  "fillServiceAddr es so svc st =
     (case svc_Endpoints svc of
        None \<Rightarrow> (None, svc, st)
      | Some eps \<Rightarrow> (case fill_endpoints es so svc eps st of
           (e, eps', st') \<Rightarrow> (e, svc\<lparr>svc_Endpoints := Some eps'\<rparr>, st')))"

text \<open>
  \<^verbatim>\<open>GetService\<close> without the configuration files, which are not part of the record.
\<close>

definition GetService :: "'s Elastic \<Rightarrow> 's Sources \<Rightarrow> string \<Rightarrow> 's Store \<Rightarrow> (facade_error + Service) \<times> 's Store" where
  "GetService es so i st =
     (case Get es i st of
        Inl e \<Rightarrow> (Inl (StoreError e), st)
      | Inr svc \<Rightarrow>
          (case fillServiceAddr es so svc st of
             (Some e, _, st') \<Rightarrow> (Inl e, st')
           | (None, svc', st') \<Rightarrow> (Inr svc', st')))"

definition AssignIPs ::
    "nat \<Rightarrow> 's Elastic \<Rightarrow> 's Sources \<Rightarrow> AssignmentRequest \<Rightarrow> 's Store \<Rightarrow> (facade_error option \<times> 's Store) option" where
  "AssignIPs n es so r st =
     (case GetService es so (ar_ServiceID r) st of
        (Inl e, st') \<Rightarrow> Some (Some e, st')
      | (Inr svc, st') \<Rightarrow>
          (let portmap = (case GetPorts (endpoints svc) of Inl _ \<Rightarrow> [] | Inr ports \<Rightarrow> ports) in
           case walkServices n es fst (ar_ServiceID r) True (IpVisitorFn es so r) (st', portmap) of
             None \<Rightarrow> None
           | Some (e, (st'', _)) \<Rightarrow> Some (e, st'')))"

text \<open>\<^verbatim>\<open>RemoveIPs\<close>: the endpoints whose application has the given name.\<close>

fun remove_endpoint_ips ::
    "'s Elastic \<Rightarrow> string \<Rightarrow> string \<Rightarrow> ServiceEndpoint list \<Rightarrow> 's Store \<Rightarrow> facade_error option \<times> 's Store" where
  "remove_endpoint_ips es serviceID endpointName [] st = (None, st)"
| "remove_endpoint_ips es serviceID endpointName (ep # eps) st =
     (if ep_Application ep \<noteq> endpointName then remove_endpoint_ips es serviceID endpointName eps st
      else case FindAssignmentByServiceEndpoint es serviceID (ep_Name ep) (st_db st) of
        Inl e \<Rightarrow> (Some (StoreError e), st)
      | Inr None \<Rightarrow> remove_endpoint_ips es serviceID endpointName eps st
      | Inr (Some a) \<Rightarrow>
          (case RemoveAddressAssignment es (aa_ID a) st of
             (Some e, st') \<Rightarrow> (Some e, st')
           | (None, st') \<Rightarrow> remove_endpoint_ips es serviceID endpointName eps st'))"

definition RemoveIPs :: "'s Elastic \<Rightarrow> string \<Rightarrow> string \<Rightarrow> 's Store \<Rightarrow> facade_error option \<times> 's Store" where
  "RemoveIPs es serviceID endpointName st =
     (case Get es serviceID st of
        Inl e \<Rightarrow> (Some (StoreError e), st)
      | Inr svc \<Rightarrow> remove_endpoint_ips es serviceID endpointName (endpoints svc) st)"

subsection \<open>The table of assignments\<close>

definition assignments :: "docmap \<Rightarrow> string \<Rightarrow> AddressAssignment option" where
  "assignments D i = (case D (aaKind, i) of Some (AssignmentDoc a, v) \<Rightarrow> Some a | _ \<Rightarrow> None)"

text \<open>Searches strip white space from their arguments, so they only find what has none at its ends.\<close>

definition clean :: "AddressAssignment \<Rightarrow> bool" where
  "clean a \<longleftrightarrow> trimmed (aa_PoolID a) \<and> trimmed (aa_IPAddr a) \<and> trimmed (aa_ServiceID a) \<and> trimmed (aa_EndpointName a)"

definition same_address :: "AddressAssignment \<Rightarrow> AddressAssignment \<Rightarrow> bool" where
  "same_address a b \<longleftrightarrow> aa_PoolID a = aa_PoolID b \<and> aa_IPAddr a = aa_IPAddr b \<and> aa_Port a = aa_Port b"

definition same_endpoint :: "AddressAssignment \<Rightarrow> AddressAssignment \<Rightarrow> bool" where
  "same_endpoint a b \<longleftrightarrow> aa_ServiceID a = aa_ServiceID b \<and> aa_EndpointName a = aa_EndpointName b"

definition unique_addresses :: "(string \<Rightarrow> AddressAssignment option) \<Rightarrow> bool" where
  "unique_addresses A \<longleftrightarrow> (\<forall>i j a b. A i = Some a \<longrightarrow> A j = Some b \<longrightarrow> clean a \<longrightarrow> clean b \<longrightarrow>
     same_address a b \<or> same_endpoint a b \<longrightarrow> i = j)"

definition unused :: "(string \<Rightarrow> AddressAssignment option) \<Rightarrow> AddressAssignment \<Rightarrow> bool" where
  "unused A a \<longleftrightarrow> (clean a \<longrightarrow> (\<forall>j b. A j = Some b \<longrightarrow> clean b \<longrightarrow> \<not> same_address a b \<and> \<not> same_endpoint a b))"

text \<open>One change of the table: an assignment is dropped, or one that conflicts with none is added.\<close>

inductive changes :: "(string \<Rightarrow> AddressAssignment option) \<Rightarrow> (string \<Rightarrow> AddressAssignment option) \<Rightarrow> bool" where
  drop: "changes A (A(i := None))"
| add: "unused A a \<Longrightarrow> changes A (A(i \<mapsto> a))"

lemma same_sym: "same_address a b = same_address b a" "same_endpoint a b = same_endpoint b a"
  by (auto simp: same_address_def same_endpoint_def)

lemma changes_unique: "changes A B \<Longrightarrow> unique_addresses A \<Longrightarrow> unique_addresses B"
proof (induction rule: changes.induct)
  case (add A a i)
  show ?case
    unfolding unique_addresses_def
  proof (intro allI impI)
    fix k l b c assume "(A(i \<mapsto> a)) k = Some b" "(A(i \<mapsto> a)) l = Some c" "clean b" "clean c" "same_address b c \<or> same_endpoint b c"
    moreover have "same_address c b \<or> same_endpoint c b" using calculation(5) by (simp add: same_sym [of c b])
    ultimately show "k = l" using add unfolding unused_def unique_addresses_def fun_upd_apply by (metis option.inject)
  qed
qed (auto simp: unique_addresses_def split: if_splits)

lemma changes_star_unique: "changes\<^sup>*\<^sup>* A B \<Longrightarrow> unique_addresses A \<Longrightarrow> unique_addresses B"
  by (induction rule: rtranclp_induct) (auto intro: changes_unique)

lemma assignments_upd [simp]:
  "assignments (D((aaKind, i) := None)) = (assignments D)(i := None)"
  "assignments (D((aaKind, i) \<mapsto> (AssignmentDoc a, v))) = (assignments D)(i \<mapsto> a)"
  "k \<noteq> aaKind \<Longrightarrow> assignments (D((k, i) := x)) = assignments D"
  by (auto simp: assignments_def fun_eq_iff)

lemma trimmed_TrimSpace: "trimmed s \<Longrightarrow> TrimSpace s = s"
  by (simp add: trimmed_def)

lemma port_string_inj [simp]: "port_string p = port_string q \<longleftrightarrow> p = q"
  using digits_value_show by (metis port_string_def unsigned_word_eqI)

lemma doc_field_simps [simp]: "doc_matches [] d"
  "doc_matches ((f, v) # ts) d \<longleftrightarrow> doc_field d f = Some v \<and> doc_matches ts d"
  by (simp_all add: doc_matches_def)

lemma convert_assignments_docs:
  assumes "convert_assignments ms = Inr as" "map Some ms = map (\<lambda>i. D (aaKind, i)) ids"
  shows "map Some as = map (assignments D) ids \<and> map AssignmentDoc as = map fst ms"
  using assms
proof (induction ms arbitrary: as ids)
  case (Cons m ms)
  obtain i ids' where i: "ids = i # ids'" using Cons.prems(2) by (cases ids) auto
  obtain a v rest where s: "m = (AssignmentDoc a, v)" "convert_assignments ms = Inr rest" "as = a # rest"
    using Cons.prems(1) by (cases m; cases "fst m") (auto split: sum.splits)
  have "D (aaKind, i) = Some m" using Cons.prems(2) i by (auto dest: sym)
  then have "assignments D i = Some a" using s(1) by (simp add: assignments_def)
  then show ?case using Cons.IH [OF s(2)] Cons.prems(2) i s(1,3) by simp
qed simp

text \<open>What an operation may do to the database: it changes assignments and nothing else of the store.\<close>

definition only_assignments :: "('s \<Rightarrow> docmap) \<Rightarrow> 's Store \<Rightarrow> 's Store \<Rightarrow> bool" where
  "only_assignments docs st st' \<longleftrightarrow> st_cache st' = st_cache st \<and> (\<forall>k i. k \<noteq> aaKind \<longrightarrow> docs (st_db st') (k, i) = docs (st_db st) (k, i))"

abbreviation table_of :: "('s \<Rightarrow> docmap) \<Rightarrow> 's Store \<Rightarrow> string \<Rightarrow> AddressAssignment option" where
  "table_of docs st \<equiv> assignments (docs (st_db st))"

lemma only_assignments_refl [simp]: "only_assignments docs st st"
  by (simp add: only_assignments_def)

lemma only_assignments_trans: "only_assignments docs st st1 \<Longrightarrow> only_assignments docs st1 st2 \<Longrightarrow> only_assignments docs st st2"
  by (simp add: only_assignments_def)

text \<open>A stored assignment lies under its own id.\<close>

definition filed :: "docmap \<Rightarrow> bool" where
  "filed D \<longleftrightarrow> (\<forall>i d v. D (aaKind, i) = Some (d, v) \<longrightarrow> (\<exists>a. d = AssignmentDoc a \<and> aa_ID a = i))"

context elastic begin

lemma assignment_query_docs:
  assumes "assignment_query es ts n s = Inr as"
  shows "\<exists>ids. distinct ids \<and> map Some as = map (assignments (docs s)) ids \<and> (\<forall>a \<in> set as. doc_matches ts (AssignmentDoc a)) \<and>
    (length as < n \<longrightarrow> (\<forall>i a. assignments (docs s) i = Some a \<longrightarrow> doc_matches ts (AssignmentDoc a) \<longrightarrow> i \<in> set ids))"
proof -
  obtain ms where ms: "es_Search es aaKind ts n s = Inr ms" "convert_assignments ms = Inr as"
    using assms by (auto simp: assignment_query_def conn_Query_def split: sum.splits)
  from search [OF ms(1)] obtain ids where ids: "distinct ids" "map Some ms = map (\<lambda>i. docs s (aaKind, i)) ids"
    "\<forall>m \<in> set ms. doc_matches ts (fst m)"
    "length ms < n \<longrightarrow> (\<forall>i d v. docs s (aaKind, i) = Some (d, v) \<longrightarrow> doc_matches ts d \<longrightarrow> i \<in> set ids)"
    by (elim exE conjE) (rule that)
  note found = convert_assignments_docs [OF ms(2) ids(2)]
  then have len: "length ms = length as" by (metis length_map)
  have "\<forall>a \<in> set as. doc_matches ts (AssignmentDoc a)"
  proof
    fix a assume "a \<in> set as"
    then have "AssignmentDoc a \<in> fst ` set ms" using found by (metis image_eqI list.set_map)
    then show "doc_matches ts (AssignmentDoc a)" using ids(3) by auto
  qed
  moreover have "i \<in> set ids" if few: "length as < n" and a: "assignments (docs s) i = Some a" and m: "doc_matches ts (AssignmentDoc a)" for i a
  proof -
    obtain v where "docs s (aaKind, i) = Some (AssignmentDoc a, v)"
      using a by (auto simp: assignments_def split: option.splits Doc.splits)
    then show ?thesis using ids(4) len few m by simp
  qed
  ultimately show ?thesis using ids(1) found by blast
qed

lemma FindByEndpoint_none:
  assumes "FindAssignmentByServiceEndpoint es i ep s = Inr None" "assignments (docs s) j = Some b" "trimmed i" "trimmed ep"
  shows "\<not> (aa_ServiceID b = i \<and> aa_EndpointName b = ep)"
proof -
  have "assignment_query es [(''ServiceID'', i), (''EndpointName'', ep)] 10 s = Inr []"
    using assms by (auto simp: FindAssignmentByServiceEndpoint_def trimmed_TrimSpace Let_def split: if_splits elim!: first_of.elims)
  from assignment_query_docs [OF this] show ?thesis using assms(2) by fastforce
qed

lemma FindByHostPort_none:
  assumes "FindAssignmentByHostPort es p ip port s = Inr None" "assignments (docs s) j = Some b" "trimmed p" "trimmed ip"
  shows "\<not> (aa_PoolID b = p \<and> aa_IPAddr b = ip \<and> aa_Port b = port)"
proof -
  have "assignment_query es [(''PoolID'', p), (''IPAddr'', ip), (''Port'', port_string port)] 50000 s = Inr []"
    using assms by (auto simp: FindAssignmentByHostPort_def trimmed_TrimSpace Let_def split: if_splits elim!: first_of.elims)
  from assignment_query_docs [OF this] show ?thesis using assms(2) by (fastforce simp flip: port_string_def)
qed

lemma first_found:
  assumes "first_of (assignment_query es ts n s) = Inr (Some a)"
  shows "(\<exists>i. assignments (docs s) i = Some a) \<and> doc_matches ts (AssignmentDoc a)"
proof -
  obtain as where as: "assignment_query es ts n s = Inr (a # as)" using assms by (auto elim!: first_of.elims)
  from assignment_query_docs [OF as] show ?thesis by (metis list.set_intros(1) map_Some_elem)
qed

lemma put_assignment:
  assumes "DataStore_Put es aaKind i (AssignmentDoc a) s = (e, s')"
  shows "(\<forall>k j. k \<noteq> aaKind \<longrightarrow> docs s' (k, j) = docs s (k, j)) \<and>
    (assignments (docs s') = assignments (docs s) \<and> e \<noteq> None \<or> assignments (docs s') = (assignments (docs s))(i \<mapsto> a))"
proof (cases "\<exists>e'. e = Some e' \<and> s' = s")
  case False
  then have put: "conn_Put es aaKind i (AssignmentDoc a) 0 s = (e, s')"
    using assms by (auto simp: DataStore_Put_def split: option.splits if_splits)
  show ?thesis
  proof (cases e)
    case None
    then show ?thesis using conn_Put_ok [OF put [unfolded None]] by auto
  next
    case (Some e')
    then show ?thesis using conn_Put_any [OF put] by auto
  qed
qed auto

lemma delete_assignment:
  assumes "DataStore_Delete es aaKind i s = (e, s')"
  shows "(\<forall>k j. k \<noteq> aaKind \<longrightarrow> docs s' (k, j) = docs s (k, j)) \<and>
    (assignments (docs s') = assignments (docs s) \<and> e \<noteq> None \<or> assignments (docs s') = (assignments (docs s))(i := None))"
proof (cases "e = None")
  case True
  then have "docs s' = (docs s)((aaKind, i) := None)"
    using assms delete by (auto simp: DataStore_Delete_def conn_Delete_def split: option.splits prod.splits)
  then show ?thesis by simp
next
  case False
  then have "docs s' = docs s \<or> docs s' = (docs s)((aaKind, i) := None)"
    using assms delete_any by (fastforce simp: DataStore_Delete_def conn_Delete_def split: option.splits prod.splits)
  then show ?thesis using False by auto
qed

text \<open>Adding one assignment.\<close>

lemma assign_outcome:
  assumes "assign es so a st = (r, st')"
  shows "only_assignments docs st st' \<and> (table_of docs st' = table_of docs st \<and> (\<forall>i. r \<noteq> Inr i) \<or>
    ((\<exists>i. table_of docs st' = (table_of docs st)(i \<mapsto> a\<lparr>aa_ID := i\<rparr>)) \<and> unused (table_of docs st) a \<and> Assignment_ValidEntity a = []))"
proof (cases "Assignment_ValidEntity a = [] \<and> FindAssignmentByServiceEndpoint es (aa_ServiceID a) (aa_EndpointName a) (st_db st) = Inr None
    \<and> FindAssignmentByHostPort es (aa_PoolID a) (aa_IPAddr a) (aa_Port a) (st_db st) = Inr None \<and> so_NewUUID36 so (st_db st) \<noteq> None")
  case False
  then have "st' = st \<and> (\<forall>i. r \<noteq> Inr i)"
    using assms unfolding assign_def by (auto split: if_splits sum.splits option.splits)
  then show ?thesis by simp
next
  case True
  then obtain i where i: "so_NewUUID36 so (st_db st) = Some i" by blast
  obtain e s' where put: "DataStore_Put es aaKind i (AssignmentDoc (a\<lparr>aa_ID := i\<rparr>)) (st_db st) = (e, s')" by fastforce
  have free: "Assignment_ValidEntity a = []" "FindAssignmentByServiceEndpoint es (aa_ServiceID a) (aa_EndpointName a) (st_db st) = Inr None"
      "FindAssignmentByHostPort es (aa_PoolID a) (aa_IPAddr a) (aa_Port a) (st_db st) = Inr None" using True by simp_all
  have st': "st' = st\<lparr>st_db := s'\<rparr>" "e \<noteq> None \<longrightarrow> (\<forall>i. r \<noteq> Inr i)"
    using assms True i put by (cases e; auto simp: assign_def)+
  have "unused (table_of docs st) a"
    using FindByEndpoint_none [OF free(2)] FindByHostPort_none [OF free(3)]
    by (fastforce simp: unused_def clean_def same_address_def same_endpoint_def)
  then show ?thesis using put_assignment [OF put] st' free(1) by (auto simp: only_assignments_def)
qed

lemma unused_ID [simp]: "unused A (a\<lparr>aa_ID := i\<rparr>) = unused A a"
  by (simp add: unused_def clean_def same_address_def same_endpoint_def)

lemma assign_changes:
  "assign es so a st = (r, st') \<Longrightarrow> only_assignments docs st st' \<and> changes\<^sup>*\<^sup>* (table_of docs st) (table_of docs st')"
  using assign_outcome [of so a st r st'] changes.add [of "table_of docs st" "a\<lparr>aa_ID := _\<rparr>"] by auto

lemma remove_outcome:
  assumes "RemoveAddressAssignment es i st = (e, st')"
  shows "only_assignments docs st st' \<and> (table_of docs st' = table_of docs st \<and> e \<noteq> None \<or> table_of docs st' = (table_of docs st)(i := None))"
proof (cases "st' = st \<and> e \<noteq> None")
  case False
  obtain e0 s' where d: "DataStore_Delete es aaKind i (st_db st) = (e0, s')" by fastforce
  then have "st' = st\<lparr>st_db := s'\<rparr>" "e = map_option StoreError e0"
    using assms False by (auto simp: RemoveAddressAssignment_def split: sum.splits)
  then show ?thesis using delete_assignment [OF d] by (auto simp: only_assignments_def)
qed simp

lemma remove_changes:
  "RemoveAddressAssignment es i st = (e, st') \<Longrightarrow> only_assignments docs st st' \<and> changes\<^sup>*\<^sup>* (table_of docs st) (table_of docs st')"
  using remove_outcome [of i st e st'] changes.drop [of "table_of docs st" i] by auto

end

text \<open>The effect of an operation: only assignments change, one drop or conflict-free addition after the other.\<close>

definition alters :: "('s \<Rightarrow> docmap) \<Rightarrow> 's Store \<Rightarrow> 's Store \<Rightarrow> bool" where
  "alters docs st st' \<longleftrightarrow> only_assignments docs st st' \<and> changes\<^sup>*\<^sup>* (table_of docs st) (table_of docs st')"

lemma alters_refl [simp]: "alters docs st st"
  by (simp add: alters_def)

lemma alters_trans: "alters docs st st1 \<Longrightarrow> alters docs st1 st2 \<Longrightarrow> alters docs st st2"
  using only_assignments_trans rtranclp_trans [of changes] by (fastforce simp: alters_def)

context elastic begin

lemma remove_others_alters: "remove_others es ip as st = (e, st') \<Longrightarrow> alters docs st st'"
proof (induction as arbitrary: st)
  case (Cons a as)
  show ?case
  proof (cases "aa_IPAddr a = ip")
    case False
    obtain e1 st1 where r: "RemoveAddressAssignment es (aa_ID a) st = (e1, st1)" by fastforce
    then have "alters docs st st1" using remove_changes by (simp add: alters_def)
    then have "alters docs st st1 \<and> (st' = st1 \<or> remove_others es ip as st1 = (e, st'))"
      using Cons.prems r False by (cases e1) auto
    then show ?thesis using Cons.IH alters_trans by blast
  qed (use Cons in simp)
qed simp

lemma assign_endpoints_alters: "assign_endpoints es so svc ip ex eps b st = (r, st') \<Longrightarrow> alters docs st st'"
proof (induction eps arbitrary: b st)
  case (Cons ep eps)
  show ?case
  proof (cases "ep_Name ep \<notin> set ex \<and> IsConfigurable ep")
    case True
    obtain r1 st1 where a: "assign es so (new_assignment svc ip ep) st = (r1, st1)" by fastforce
    then have "alters docs st st1" using assign_changes by (simp add: alters_def)
    then have "alters docs st st1 \<and> (st' = st1 \<or> assign_endpoints es so svc ip ex eps True st1 = (r, st'))"
      using Cons.prems a True by (cases r1) auto
    then show ?thesis using Cons.IH alters_trans by blast
  qed (use Cons in auto)
qed simp

lemma restore_endpoints_alters: "restore_endpoints es so svc eps st = (e, st') \<Longrightarrow> alters docs st st'"
proof (induction eps arbitrary: st)
  case (Cons ep eps)
  let ?ip = "case getManualAssignment es so (svc_PoolID svc) (aa_IPAddr (ep_AddressAssignment ep)) [arc_Port (ep_AddressConfig ep)] (st_db st) of
      Inl PanicNilPointer \<Rightarrow> Inl PanicNilPointer
    | Inl e \<Rightarrow> getAutoAssignment es so (svc_PoolID svc) [arc_Port (ep_AddressConfig ep)] (st_db st)
    | Inr ip \<Rightarrow> Inr ip"
  show ?case
  proof (cases "aa_IPAddr (ep_AddressAssignment ep) = ''''")
    case False
    show ?thesis
    proof (cases ?ip)
      case (Inl e1)
      then have "e1 = PanicNilPointer \<and> st' = st \<or> restore_endpoints es so svc eps st = (e, st')"
        using Cons.prems False by (cases e1) (simp_all add: Let_def)
      then show ?thesis using Cons.IH by auto
    next
      case (Inr ip)
      obtain r1 st1 where a: "assign es so (new_assignment svc ip ep) st = (r1, st1)" by fastforce
      then have "alters docs st st1" using assign_changes by (simp add: alters_def)
      moreover have "st' = st1 \<or> restore_endpoints es so svc eps st1 = (e, st')"
        using Cons.prems False Inr a by (cases r1) (simp_all add: Let_def)
      ultimately show ?thesis using Cons.IH alters_trans by blast
    qed
  qed (use Cons in \<open>simp add: Let_def\<close>)
qed simp

lemma remove_endpoint_ips_alters: "remove_endpoint_ips es i nm eps st = (e, st') \<Longrightarrow> alters docs st st'"
proof (induction eps arbitrary: st)
  case (Cons ep eps)
  show ?case
  proof (cases "ep_Application ep = nm")
    case True
    show ?thesis
    proof (cases "FindAssignmentByServiceEndpoint es i (ep_Name ep) (st_db st)")
      case (Inr o')
      show ?thesis
      proof (cases o')
        case (Some a)
        obtain e1 st1 where r: "RemoveAddressAssignment es (aa_ID a) st = (e1, st1)" by fastforce
        then have "alters docs st st1" using remove_changes by (simp add: alters_def)
        then have "alters docs st st1 \<and> (st' = st1 \<or> remove_endpoint_ips es i nm eps st1 = (e, st'))"
          using Cons.prems r True Inr Some by (cases e1) auto
        then show ?thesis using Cons.IH alters_trans by blast
      qed (use Cons True Inr in simp)
    qed (use Cons True in simp)
  qed (use Cons in simp)
qed simp

lemma fill_endpoint_alters:
  assumes "fill_endpoint es so svc ep st = (e, ep', st')"
  shows "alters docs st st'"
proof (cases "st' = st")
  case False
  have "\<exists>i. st' = st\<lparr>st_db := snd (DataStore_Delete es aaKind i (st_db st))\<rparr>"
    using assms False
    by (auto simp: fill_endpoint_def Let_def case_prod_beta split: if_splits sum.splits option.splits bool.splits)
  then obtain i where "st' = st\<lparr>st_db := snd (DataStore_Delete es aaKind i (st_db st))\<rparr>" ..
  moreover obtain e0 s' where d: "DataStore_Delete es aaKind i (st_db st) = (e0, s')" by fastforce
  moreover note delete_assignment [OF d]
  ultimately show ?thesis using changes.drop [of "table_of docs st" i]
    by (auto simp: alters_def only_assignments_def)
qed simp

lemma fill_endpoints_alters: "fill_endpoints es so svc eps st = (e, eps', st') \<Longrightarrow> alters docs st st'"
proof (induction eps arbitrary: st e eps' st')
  case (Cons ep eps)
  obtain e1 ep1 st1 where f: "fill_endpoint es so svc ep st = (e1, ep1, st1)" by (metis prod_cases3)
  obtain e2 eps2 st2 where g: "fill_endpoints es so svc eps st1 = (e2, eps2, st2)" by (metis prod_cases3)
  have "st' = st1 \<or> st' = st2" using Cons.prems f g by (cases e1) auto
  then show ?case using Cons.IH [OF g] fill_endpoint_alters [OF f] alters_trans by blast
qed simp

lemma fillServiceAddr_alters: "fillServiceAddr es so svc st = (e, svc', st') \<Longrightarrow> alters docs st st'"
  using fill_endpoints_alters by (auto simp: fillServiceAddr_def split: option.splits prod.splits)

lemma GetService_alters: "GetService es so i st = (r, st') \<Longrightarrow> alters docs st st'"
  using fillServiceAddr_alters by (fastforce simp: GetService_def split: sum.splits option.splits prod.splits)

end

subsection \<open>Every address has one endpoint\<close>

text \<open>
  What the operations rely on besides the database: a random number is below its bound, a
  generated id is new, and restarting a service, which reads its addresses and drops stale ones, changes the table of
  assignments in the same steps.
\<close>

locale address_sources = elastic es docs for es :: "'s Elastic" and docs +
  fixes so :: "'s Sources"
  assumes intn: "0 < n \<Longrightarrow> so_Intn so n s < n"
    and uuid: "so_NewUUID36 so s = Some i \<Longrightarrow> docs s (aaKind, i) = None"
    and rebalance: "changes\<^sup>*\<^sup>* (table_of docs st) (table_of docs (so_RebalanceService so i st))"
begin

lemma IpVisitorFn_changes:
  assumes "IpVisitorFn es so r svc (st, ports) = (e, (st', ports'))"
  shows "changes\<^sup>*\<^sup>* (table_of docs st) (table_of docs st')"
proof (cases "st' = st")
  case False
  obtain as ip where as: "GetServiceAddressAssignments es (svc_ID svc) (st_db st) = Inr as"
      "choose_ip es so r (svc_PoolID svc) as ports (st_db st) = (Inr ip, ports')"
    using assms False by (auto simp: IpVisitorFn_def split: sum.splits prod.splits option.splits)
  obtain e1 st1 where rem: "remove_others es (ip_IP ip) as st = (e1, st1)" by fastforce
  let ?ex = "map aa_EndpointName (filter (\<lambda>a. aa_IPAddr a = ip_IP ip) as)"
  obtain r2 st2 where asg: "assign_endpoints es so svc ip ?ex (endpoints svc) False st1 = (r2, st2)" by fastforce
  have "st' = st1 \<or> st' = st2 \<or> st' = so_RebalanceService so (svc_ID svc) st2"
    using assms as rem asg by (cases e1; cases r2) (auto simp: IpVisitorFn_def split: if_splits)
  then show ?thesis
    using remove_others_alters [OF rem] assign_endpoints_alters [OF asg] rebalance rtranclp_trans [of changes]
    by (metis alters_def)
qed simp

end

text \<open>What a visitor does to the state, a walk does.\<close>

lemma Walk_related:
  assumes "\<And>svc w e w'. v svc w = (e, w') \<Longrightarrow> R w w'" "\<And>w. R w w" "\<And>w1 w2 w3. R w1 w2 \<Longrightarrow> R w2 w3 \<Longrightarrow> R w1 w3"
  shows "Walk n gs gc v i w = Some (e, w') \<Longrightarrow> R w w'"
proof (induction n arbitrary: i w e w')
  case (Suc n)
  have children: "Walk_children n gs gc v cs w = Some (e, w') \<Longrightarrow> R w w'" for cs w e w'
  proof (induction cs arbitrary: w)
    case (Cons c cs)
    obtain e1 w1 where c: "Walk n gs gc v (svc_ID c) w = Some (e1, w1)" using Cons.prems by (auto split: option.splits)
    then have "w' = w1 \<or> Walk_children n gs gc v cs w1 = Some (e, w')" using Cons.prems by (cases e1) auto
    then show ?case using Suc.IH [OF c] Cons.IH assms(3) by blast
  qed (simp add: assms(2))
  show ?case
  proof (cases "gc i w")
    case (Inr cs)
    obtain e1 w1 where c: "Walk_children n gs gc v cs w = Some (e1, w1)" using Suc.prems Inr by (auto split: option.splits)
    have "w' = w1 \<or> (\<exists>svc. v svc w1 = (e, w'))" using Suc.prems Inr c by (cases e1; cases "gs i w1") auto
    then show ?thesis using children [OF c] assms(1,3) by blast
  qed (use Suc.prems assms(2) in simp)
qed simp

text \<open>The operations on assignments, in any order and with any outcome.\<close>

inductive assignment_op :: "'s Elastic \<Rightarrow> 's Sources \<Rightarrow> 's Store \<Rightarrow> 's Store \<Rightarrow> bool" for es so where
  assigned: "assign es so a st = (r, st') \<Longrightarrow> assignment_op es so st st'"
| removed: "RemoveAddressAssignment es i st = (e, st') \<Longrightarrow> assignment_op es so st st'"
| ips_removed: "RemoveIPs es i nm st = (e, st') \<Longrightarrow> assignment_op es so st st'"
| restored: "restoreIPs es so svc st = (e, st') \<Longrightarrow> assignment_op es so st st'"
| all_assigned: "AssignIPs n es so r st = Some (e, st') \<Longrightarrow> assignment_op es so st st'"
| read: "GetService es so i st = (svc, st') \<Longrightarrow> assignment_op es so st st'"

context address_sources begin

lemma AssignIPs_changes:
  assumes "AssignIPs n es so r st = Some (e, st')"
  shows "changes\<^sup>*\<^sup>* (table_of docs st) (table_of docs st')"
proof -
  obtain r1 st1 where g: "GetService es so (ar_ServiceID r) st = (r1, st1)" by fastforce
  have 1: "changes\<^sup>*\<^sup>* (table_of docs st) (table_of docs st1)" using GetService_alters [OF g] by (simp add: alters_def)
  show ?thesis
  proof (cases r1)
    case (Inr svc)
    obtain ports ports' where w: "walkServices n es fst (ar_ServiceID r) True (IpVisitorFn es so r) (st1, ports) = Some (e, (st', ports'))"
      using assms g Inr by (auto simp: AssignIPs_def Let_def split: option.splits)
    have "changes\<^sup>*\<^sup>* (table_of docs (fst w)) (table_of docs (fst w'))" if "IpVisitorFn es so r svc w = (e, w')" for svc w e w'
      using IpVisitorFn_changes [of r svc "fst w" "snd w" e "fst w'" "snd w'"] that by simp
    then have "changes\<^sup>*\<^sup>* (table_of docs (fst (st1, ports))) (table_of docs (fst (st', ports')))"
      using Walk_related [of "IpVisitorFn es so r" "\<lambda>w w'. changes\<^sup>*\<^sup>* (table_of docs (fst w)) (table_of docs (fst w'))", OF _ _ _ w [unfolded walkServices_def]]
        rtranclp_trans [of changes] by blast
    then show ?thesis using 1 rtranclp_trans [of changes] by simp
  qed (use assms g 1 in \<open>simp add: AssignIPs_def\<close>)
qed

lemma assignment_op_changes: "assignment_op es so st st' \<Longrightarrow> changes\<^sup>*\<^sup>* (table_of docs st) (table_of docs st')"
proof (induction rule: assignment_op.induct)
  case (assigned a st r st')
  then show ?case using assign_changes by blast
next
  case (removed i st e st')
  then show ?case using remove_changes by blast
next
  case (ips_removed i nm st e st')
  then show ?case using remove_endpoint_ips_alters by (fastforce simp: RemoveIPs_def alters_def split: sum.splits)
next
  case (restored svc st e st')
  then show ?case using restore_endpoints_alters by (fastforce simp: restoreIPs_def alters_def)
next
  case (all_assigned n r st e st')
  then show ?case by (rule AssignIPs_changes)
next
  case (read i st svc st')
  then show ?case using GetService_alters by (simp add: alters_def)
qed

lemma assignment_ops_changes: "(assignment_op es so)\<^sup>*\<^sup>* st st' \<Longrightarrow> changes\<^sup>*\<^sup>* (table_of docs st) (table_of docs st')"
  by (induction rule: rtranclp_induct) (use assignment_op_changes rtranclp_trans [of changes] in blast)+

end


subsection \<open>What the visitor does to a service\<close>

text \<open>An address that a pool offers: one of its virtual addresses or an address of one of its hosts.\<close>

definition offered :: "'s Sources \<Rightarrow> string \<Rightarrow> string \<Rightarrow> 's \<Rightarrow> bool" where
  "offered so poolID x s \<longleftrightarrow> (\<exists>pool. so_GetPool so poolID s = Inr pool \<and>
     (x \<in> set (rp_VirtualIPs pool) \<or>
      (\<exists>hosts. so_FindHostsWithPoolID so poolID s = Inr hosts \<and> x \<in> hip_IPAddress ` set (concat (map ph_IPs hosts))) \<or>
      (\<exists>h. so_GetHostByIP so x s = Inr (Some h) \<and> ph_PoolID h = poolID \<and> x \<in> hip_IPAddress ` set (ph_IPs h))))"

definition small_table :: "(string \<Rightarrow> AddressAssignment option) \<Rightarrow> bool" where
  "small_table A \<longleftrightarrow> finite (dom A) \<and> card (dom A) < 50000"

lemma pool_Some: "GetResourcePool so p s = Inr (Some pool) \<longleftrightarrow> so_GetPool so p s = Inr pool"
  by (auto simp: GetResourcePool_def split: sum.splits ds_error.splits)

lemma getManualAssignment_offered:
  assumes "getManualAssignment es so p x ports s = Inr ip"
  shows "ip_IP ip = x \<and> offered so p x s"
proof -
  obtain pool where pool: "so_GetPool so p s = Inr pool" "GetResourcePool so p s = Inr (Some pool)"
    using assms by (auto simp: getManualAssignment_def simp flip: pool_Some split: sum.splits option.splits)
  show ?thesis
  proof (cases "x \<in> set (rp_VirtualIPs pool)")
    case True
    then show ?thesis using assms pool by (auto simp: getManualAssignment_def offered_def split: option.splits)
  next
    case False
    obtain h hip where "so_GetHostByIP so x s = Inr (Some h)" "ph_PoolID h = p" "List.find (\<lambda>h. hip_IPAddress h = x) (ph_IPs h) = Some hip"
        "ip_IP ip = hip_IPAddress hip"
      using assms pool False
      by (auto simp: getManualAssignment_def split: sum.splits option.splits if_splits)
    then show ?thesis using pool(1) by (auto simp: offered_def find_Some_iff)
  qed
qed

lemma pool_ips_offered:
  assumes "ip \<in> set (pool_ips pool hosts ign)" "so_GetPool so p s = Inr pool" "so_FindHostsWithPoolID so p s = Inr hosts"
  shows "offered so p (ip_IP ip) s"
proof -
  have "ip_IP ip \<in> set (rp_VirtualIPs pool) \<or> ip_IP ip \<in> hip_IPAddress ` set (concat (map ph_IPs hosts))"
    using assms(1) unfolding pool_ips_def set_append set_map set_filter by auto
  then show ?thesis using assms(2,3) unfolding offered_def by blast
qed

lemma getAutoAssignment_offered:
  assumes "getAutoAssignment es so p ports s = Inr ip" "\<And>n. 0 < n \<Longrightarrow> so_Intn so n s < n"
  shows "offered so p (ip_IP ip) s"
proof -
  obtain pool where pool: "GetResourcePool so p s = Inr (Some pool)"
    using assms(1) by (auto simp: getAutoAssignment_def split: sum.splits option.splits)
  obtain hosts where hosts: "so_FindHostsWithPoolID so p s = Inr hosts"
    using assms(1) pool by (auto simp: getAutoAssignment_def split: sum.splits)
  obtain ign where ip: "pool_ips pool hosts ign \<noteq> []" "ip = pool_ips pool hosts ign ! so_Intn so (length (pool_ips pool hosts ign)) s"
    using assms(1) pool hosts by (auto simp: getAutoAssignment_def Let_def split: sum.splits if_splits)
  then have "ip \<in> set (pool_ips pool hosts ign)" using assms(2) by simp
  then show ?thesis using pool_ips_offered pool hosts by (simp add: pool_Some)
qed

lemma choose_ip_offered:
  assumes "choose_ip es so r p as ports s = (Inr ip, ports')" "\<And>n. 0 < n \<Longrightarrow> so_Intn so n s < n"
  shows "offered so p (ip_IP ip) s"
proof (cases "ar_AutoAssignment r")
  case True
  obtain x q where c: "current_ip as '''' ports = (x, q)" by fastforce
  have "getAutoAssignment es so p ports s = Inr ip \<or> getManualAssignment es so p x q s = Inr ip"
    using assms(1) True c
    by (auto simp: choose_ip_def split: if_splits sum.splits facade_error.splits)
  then show ?thesis
  proof
    show ?thesis if "getAutoAssignment es so p ports s = Inr ip" using that assms(2) by (rule getAutoAssignment_offered)
    show ?thesis if "getManualAssignment es so p x q s = Inr ip" using getManualAssignment_offered [OF that] by simp
  qed
next
  case False
  then have "\<exists>q. getManualAssignment es so p (ar_IPAddress r) q s = Inr ip" using assms(1) by (auto simp: choose_ip_def Let_def)
  then show ?thesis using getManualAssignment_offered by metis
qed

lemma filed_ID: "filed D \<Longrightarrow> assignments D i = Some a \<Longrightarrow> aa_ID a = i"
  by (fastforce simp: filed_def assignments_def split: option.splits Doc.splits)

context elastic begin

lemma service_assignments:
  assumes "GetServiceAddressAssignments es i s = Inr as" "small_table (assignments (docs s))" "filed (docs s)"
  shows "set as = {a. assignments (docs s) (aa_ID a) = Some a \<and> aa_ServiceID a = i}"
proof -
  from assignment_query_docs [OF assms(1) [unfolded GetServiceAddressAssignments_def]]
  obtain ids where ids: "distinct ids" "map Some as = map (assignments (docs s)) ids"
    "\<forall>a \<in> set as. doc_matches [(''ServiceID'', i)] (AssignmentDoc a)"
    "length as < 50000 \<longrightarrow> (\<forall>j a. assignments (docs s) j = Some a \<longrightarrow> doc_matches [(''ServiceID'', i)] (AssignmentDoc a) \<longrightarrow> j \<in> set ids)"
    by (elim exE conjE) (rule that)
  have "set ids \<subseteq> dom (assignments (docs s))" using map_Some_index [OF ids(2)] by blast
  then have "card (set ids) < 50000" using assms(2) card_mono [of "dom (assignments (docs s))" "set ids"] by (simp add: small_table_def)
  moreover have "length as = length ids" using ids(2) by (metis length_map)
  ultimately have few: "length as < 50000" using ids(1) by (simp add: distinct_card)
  have found: "assignments (docs s) (aa_ID a) = Some a \<and> aa_ServiceID a = i" if "a \<in> set as" for a
    using map_Some_elem [OF ids(2) that] filed_ID [OF assms(3)] ids(3) that by fastforce
  have "a \<in> set as" if "assignments (docs s) (aa_ID a) = Some a" "aa_ServiceID a = i" for a
  proof -
    have "aa_ID a \<in> set ids" using ids(4) few that by simp
    then show ?thesis using map_Some_index [OF ids(2)] that(1) by fastforce
  qed
  then show ?thesis using found by blast
qed

lemma remove_others_table:
  "remove_others es ip as st = (None, st') \<Longrightarrow>
     table_of docs st' = (\<lambda>i. if \<exists>a \<in> set as. aa_ID a = i \<and> aa_IPAddr a \<noteq> ip then None else table_of docs st i)"
proof (induction as arbitrary: st)
  case (Cons a as)
  show ?case
  proof (cases "aa_IPAddr a = ip")
    case False
    obtain e st1 where r: "RemoveAddressAssignment es (aa_ID a) st = (e, st1)" by fastforce
    then have e: "e = None" "remove_others es ip as st1 = (None, st')" using Cons.prems False by (cases e; simp)+
    then have "table_of docs st1 = (table_of docs st)(aa_ID a := None)" using remove_outcome [OF r] by blast
    then show ?thesis using Cons.IH [OF e(2)] False by (auto simp: fun_eq_iff)
  qed (use Cons in auto)
qed simp

end

context address_sources begin

text \<open>An assignment that was added, under its new id.\<close>

definition added :: "Service \<Rightarrow> ipinfo \<Rightarrow> ServiceEndpoint list \<Rightarrow> AddressAssignment \<Rightarrow> bool" where
  "added svc ip eps a \<longleftrightarrow> (\<exists>ep \<in> set eps. \<exists>i. a = (new_assignment svc ip ep)\<lparr>aa_ID := i\<rparr>)"

lemma assign_fresh:
  assumes "assign es so a st = (Inr i, st')"
  shows "table_of docs st' = (table_of docs st)(i \<mapsto> a\<lparr>aa_ID := i\<rparr>) \<and> table_of docs st i = None"
proof -
  have free: "Assignment_ValidEntity a = []" "FindAssignmentByServiceEndpoint es (aa_ServiceID a) (aa_EndpointName a) (st_db st) = Inr None"
      "FindAssignmentByHostPort es (aa_PoolID a) (aa_IPAddr a) (aa_Port a) (st_db st) = Inr None"
    using assms unfolding assign_def by (auto split: if_splits sum.splits option.splits)
  obtain j where j: "so_NewUUID36 so (st_db st) = Some j" using assms free by (auto simp: assign_def split: option.splits)
  obtain e s' where put: "DataStore_Put es aaKind j (AssignmentDoc (a\<lparr>aa_ID := j\<rparr>)) (st_db st) = (e, s')" by fastforce
  have "e = None" "i = j" "st' = st\<lparr>st_db := s'\<rparr>" using assms free j put by (cases e; simp add: assign_def)+
  then show ?thesis using put_assignment [OF put] uuid [OF j] by (simp add: assignments_def)
qed

lemma assign_endpoints_table:
  "assign_endpoints es so svc ip ex eps b st = (Inr b', st') \<Longrightarrow>
     table_of docs st \<subseteq>\<^sub>m table_of docs st' \<and>
     (\<forall>i a. table_of docs st' i = Some a \<longrightarrow> table_of docs st i = Some a \<or> added svc ip eps a) \<and>
     (\<forall>ep \<in> set eps. ep_Name ep \<notin> set ex \<longrightarrow> IsConfigurable ep \<longrightarrow>
        (\<exists>i a. table_of docs st' i = Some a \<and> aa_ServiceID a = svc_ID svc \<and> aa_EndpointName a = ep_Name ep))"
proof (induction eps arbitrary: b st)
  case (Cons ep eps)
  show ?case
  proof (cases "ep_Name ep \<notin> set ex \<and> IsConfigurable ep")
    case True
    obtain r st1 where a: "assign es so (new_assignment svc ip ep) st = (r, st1)" by fastforce
    then obtain i where r: "r = Inr i" "assign_endpoints es so svc ip ex eps True st1 = (Inr b', st')"
      using Cons.prems True by (cases r) auto
    let ?a = "(new_assignment svc ip ep)\<lparr>aa_ID := i\<rparr>"
    have t: "table_of docs st1 = (table_of docs st)(i \<mapsto> ?a)" "table_of docs st i = None"
      using assign_fresh [OF a [unfolded r(1)]] by simp_all
    note IH = Cons.IH [OF r(2)]
    have le: "table_of docs st \<subseteq>\<^sub>m table_of docs st1" using t by (auto simp: map_le_def dom_def)
    then have "table_of docs st \<subseteq>\<^sub>m table_of docs st'" using IH map_le_trans by blast
    moreover have "\<exists>i a. table_of docs st' i = Some a \<and> aa_ServiceID a = svc_ID svc \<and> aa_EndpointName a = ep_Name ep"
    proof (intro exI conjI)
      show "table_of docs st' i = Some ?a" using IH t(1) by (auto simp: map_le_def dom_def)
    qed (simp_all add: new_assignment_def)
    moreover have "table_of docs st j = Some x \<or> added svc ip (ep # eps) x" if "table_of docs st' j = Some x" for j x
    proof -
      have "table_of docs st1 j = Some x \<or> added svc ip eps x" using IH that by blast
      then show ?thesis using t(1) by (cases "j = i") (auto simp: added_def)
    qed
    ultimately show ?thesis using IH by auto
  next
    case False
    then have "assign_endpoints es so svc ip ex eps b st = (Inr b', st')"
      using Cons.prems by (cases "IsConfigurable ep") auto
    from Cons.IH [OF this] show ?thesis using False by (auto simp: added_def)
  qed
qed simp

lemma IpVisitorFn_steps:
  assumes "IpVisitorFn es so r svc (st, ports) = (None, (st', ports'))"
  shows "\<exists>as ip st1 st2 b. GetServiceAddressAssignments es (svc_ID svc) (st_db st) = Inr as \<and>
     choose_ip es so r (svc_PoolID svc) as ports (st_db st) = (Inr ip, ports') \<and>
     remove_others es (ip_IP ip) as st = (None, st1) \<and>
     assign_endpoints es so svc ip (map aa_EndpointName (filter (\<lambda>a. aa_IPAddr a = ip_IP ip) as)) (endpoints svc) False st1 = (Inr b, st2) \<and>
     st' = (if b \<and> svc_DesiredState svc = SVCRun then so_RebalanceService so (svc_ID svc) st2 else st2)"
proof -
  obtain as ip where as: "GetServiceAddressAssignments es (svc_ID svc) (st_db st) = Inr as"
      "choose_ip es so r (svc_PoolID svc) as ports (st_db st) = (Inr ip, ports')"
    using assms by (auto simp: IpVisitorFn_def split: sum.splits prod.splits option.splits)
  obtain e1 st1 where rem: "remove_others es (ip_IP ip) as st = (e1, st1)" by fastforce
  let ?ex = "map aa_EndpointName (filter (\<lambda>a. aa_IPAddr a = ip_IP ip) as)"
  obtain r2 st2 where asg: "assign_endpoints es so svc ip ?ex (endpoints svc) False st1 = (r2, st2)" by fastforce
  show ?thesis
    using assms as rem asg by (cases e1; cases r2) (auto simp: IpVisitorFn_def split: if_splits)
qed

end

context address_sources begin

lemma kept_others:
  assumes as: "GetServiceAddressAssignments es i (st_db st) = Inr as" and small: "small_table (table_of docs st)" and filed: "filed (docs (st_db st))"
    and rem: "remove_others es x as st = (None, st1)"
  shows "table_of docs st1 j = Some a \<longleftrightarrow> table_of docs st j = Some a \<and> (aa_ServiceID a = i \<longrightarrow> aa_IPAddr a = x)"
proof -
  have "b = a" if "b \<in> set as" "aa_ID b = j" "table_of docs st j = Some a" for b
    using service_assignments [OF as small filed] that by auto
  moreover have "a \<in> set as \<and> aa_ID a = j" if "table_of docs st j = Some a" "aa_ServiceID a = i"
    using service_assignments [OF as small filed] filed_ID [OF filed that(1)] that by simp
  moreover have "aa_ServiceID b = i" if "b \<in> set as" for b using service_assignments [OF as small filed] that by auto
  ultimately show ?thesis unfolding remove_others_table [OF rem] by (auto split: if_splits)
qed

lemma visitor_outcome:
  assumes "filed (docs (st_db st))" "small_table (table_of docs st)"
    and "IpVisitorFn es so r svc (st, ports) = (None, (st', ports'))"
  shows "\<exists>st2 x. (st' = st2 \<or> (st' = so_RebalanceService so (svc_ID svc) st2 \<and> svc_DesiredState svc = SVCRun)) \<and>
    offered so (svc_PoolID svc) x (st_db st) \<and>
    (\<forall>i a. table_of docs st2 i = Some a \<and> aa_ServiceID a = svc_ID svc \<longrightarrow> aa_IPAddr a = x) \<and>
    (\<forall>ep \<in> set (endpoints svc). IsConfigurable ep \<longrightarrow>
       (\<exists>i a. table_of docs st2 i = Some a \<and> aa_ServiceID a = svc_ID svc \<and> aa_EndpointName a = ep_Name ep)) \<and>
    (\<forall>i a. aa_ServiceID a \<noteq> svc_ID svc \<longrightarrow> table_of docs st2 i = Some a \<longleftrightarrow> table_of docs st i = Some a)"
proof -
  obtain as ip st1 st2 b where v: "GetServiceAddressAssignments es (svc_ID svc) (st_db st) = Inr as"
      "choose_ip es so r (svc_PoolID svc) as ports (st_db st) = (Inr ip, ports')" "remove_others es (ip_IP ip) as st = (None, st1)"
      "assign_endpoints es so svc ip (map aa_EndpointName (filter (\<lambda>a. aa_IPAddr a = ip_IP ip) as)) (endpoints svc) False st1 = (Inr b, st2)"
      "st' = (if b \<and> svc_DesiredState svc = SVCRun then so_RebalanceService so (svc_ID svc) st2 else st2)"
    using IpVisitorFn_steps [OF assms(3)] by blast
  note kept = kept_others [OF v(1) assms(2,1) v(3)]
  note table = assign_endpoints_table [OF v(4)]
  have new: "aa_IPAddr a = ip_IP ip \<and> aa_ServiceID a = svc_ID svc" if "added svc ip eps a" for a eps
    using that by (auto simp: added_def new_assignment_def)
  have le: "table_of docs st2 i = Some a" if "table_of docs st1 i = Some a" for i a
    using table that by (metis domI map_le_def)
  have "\<exists>i a. table_of docs st2 i = Some a \<and> aa_ServiceID a = svc_ID svc \<and> aa_EndpointName a = ep_Name ep"
    if ep: "ep \<in> set (endpoints svc)" "IsConfigurable ep" for ep
  proof (cases "ep_Name ep \<in> set (map aa_EndpointName (filter (\<lambda>a. aa_IPAddr a = ip_IP ip) as))")
    case True
    then obtain a where a: "a \<in> set as" "aa_IPAddr a = ip_IP ip" "aa_EndpointName a = ep_Name ep" by auto
    then have "table_of docs st (aa_ID a) = Some a \<and> aa_ServiceID a = svc_ID svc" using service_assignments [OF v(1) assms(2,1)] by simp
    then show ?thesis using kept a le by blast
  qed (use table ep in blast)
  moreover have "aa_IPAddr a = ip_IP ip" if "table_of docs st2 i = Some a" "aa_ServiceID a = svc_ID svc" for i a
    using table that kept new by blast
  moreover have "table_of docs st2 i = Some a \<longleftrightarrow> table_of docs st i = Some a" if "aa_ServiceID a \<noteq> svc_ID svc" for i a
    using table kept new le that by blast
  moreover have "offered so (svc_PoolID svc) (ip_IP ip) (st_db st)" using choose_ip_offered [OF v(2) intn] .
  moreover have "st' = st2 \<or> (st' = so_RebalanceService so (svc_ID svc) st2 \<and> svc_DesiredState svc = SVCRun)" using v(5) by simp
  ultimately show ?thesis by blast
qed

end

text \<open>
  C20. A service for which the visitor succeeds has one address, which its pool offers: all its
  assignments are at that address, and every endpoint that can have an assignment has one.
  The assignments of other services are left alone. After that the service is restarted if it
  was to run and has new assignments.
\<close>

theorem visitor_assigns:
  assumes "address_sources es docs so" "filed (docs (st_db st))" "small_table (table_of docs st)"
    and "IpVisitorFn es so r svc (st, ports) = (None, (st', ports'))"
  shows "\<exists>st2 x. (st' = st2 \<or> (st' = so_RebalanceService so (svc_ID svc) st2 \<and> svc_DesiredState svc = SVCRun)) \<and>
    offered so (svc_PoolID svc) x (st_db st) \<and>
    (\<forall>i a. table_of docs st2 i = Some a \<and> aa_ServiceID a = svc_ID svc \<longrightarrow> aa_IPAddr a = x) \<and>
    (\<forall>ep \<in> set (endpoints svc). IsConfigurable ep \<longrightarrow>
       (\<exists>i a. table_of docs st2 i = Some a \<and> aa_ServiceID a = svc_ID svc \<and> aa_EndpointName a = ep_Name ep)) \<and>
    (\<forall>i a. aa_ServiceID a \<noteq> svc_ID svc \<longrightarrow> table_of docs st2 i = Some a \<longleftrightarrow> table_of docs st i = Some a)"
  by (rule address_sources.visitor_outcome [OF assms])

subsection \<open>Pools and hosts in memory\<close>

text \<open>
  Pools and hosts are lists; an id is longer than every id that is stored; a service that is
  restarted has its addresses read.
\<close>

definition fresh_id :: "mem_docs \<Rightarrow> string" where
  "fresh_id s = replicate (Suc (sum_list (map (\<lambda>d. length (snd (fst d))) s))) CHR ''u''"

definition mem_base :: "ResourcePool list \<Rightarrow> PoolHost list \<Rightarrow> mem_docs Sources" where
  "mem_base pools hosts =
     \<lparr>so_GetPool = (\<lambda>p s. case List.find (\<lambda>q. rp_ID q = p) pools of None \<Rightarrow> Inl (NoSuchEntity ''resourcepool'' p) | Some q \<Rightarrow> Inr q),
      so_HasVirtualIP = (\<lambda>p x s. Inr (\<exists>q \<in> set pools. rp_ID q = p \<and> x \<in> set (rp_VirtualIPs q))),
      so_GetHostByIP = (\<lambda>x s. Inr (List.find (\<lambda>h. x \<in> set (map hip_IPAddress (ph_IPs h))) hosts)),
      so_FindHostsWithPoolID = (\<lambda>p s. Inr (filter (\<lambda>h. ph_PoolID h = p) hosts)),
      so_NewUUID36 = (\<lambda>s. Some (fresh_id s)),
      so_Intn = (\<lambda>n s. 0),
      so_RebalanceService = (\<lambda>i st. st)\<rparr>"

definition mem_sources :: "(string \<Rightarrow> bool) \<Rightarrow> ResourcePool list \<Rightarrow> PoolHost list \<Rightarrow> mem_docs Sources" where
  "mem_sources bad pools hosts =
     (mem_base pools hosts)\<lparr>so_RebalanceService := \<lambda>i st. snd (GetService (mem_es bad) (mem_base pools hosts) i st)\<rparr>"

lemma fresh_id_new: "map_of s (k, fresh_id s) = None"
proof -
  have "length i \<le> sum_list (map (\<lambda>d. length (snd (fst d))) s)" if "((k, i), x) \<in> set s" for i x
    using member_le_sum_list [of "length i" "map (\<lambda>d. length (snd (fst d))) s"] that by force
  moreover have "length (fresh_id s) = Suc (sum_list (map (\<lambda>d. length (snd (fst d))) s))" by (simp add: fresh_id_def)
  ultimately show ?thesis by (metis lessI map_of_SomeD not_None_eq not_le)
qed

interpretation mem_addresses: address_sources "mem_es bad" map_of "mem_sources bad pools hosts" for bad pools hosts
proof
  show "0 < n \<Longrightarrow> so_Intn (mem_sources bad pools hosts) n s < n" for n s by (simp add: mem_sources_def mem_base_def)
  show "so_NewUUID36 (mem_sources bad pools hosts) s = Some i \<Longrightarrow> map_of s (aaKind, i) = None" for s i
    using fresh_id_new [of s aaKind] by (auto simp: mem_sources_def mem_base_def)
  show "changes\<^sup>*\<^sup>* (table_of map_of st) (table_of map_of (so_RebalanceService (mem_sources bad pools hosts) i st))" for i st
    using mem_elastic.GetService_alters [of bad "mem_base pools hosts" i st, OF prod.collapse [symmetric]] by (simp add: mem_sources_def alters_def)
qed

subsection \<open>A worked example\<close>

definition web_endpoint :: ServiceEndpoint where
  "web_endpoint = \<lparr>ep_Name = ''web'', ep_Purpose = ''export'', ep_Protocol = ''tcp'', ep_PortNumber = 80, ep_Application = ''web'',
     ep_ApplicationTemplate = '''', ep_AddressConfig = \<lparr>arc_Port = 80, arc_Protocol = ''tcp''\<rparr>, ep_VHostList = [],
     ep_AddressAssignment = zero_assignment, ep_PortList = []\<rparr>"

definition web_svc :: Service where
  "web_svc = (stored_svc ''a'' '''')\<lparr>svc_Endpoints := Some [web_endpoint]\<rparr>"

definition one_pool :: "mem_docs Sources" where
  "one_pool = mem_sources (\<lambda>_. False) [\<lparr>rp_ID = ''default'', rp_VirtualIPs = [''10.0.0.1'', ''10.0.0.2''], rp_Permissions = 3\<rparr>] []"

definition auto_request :: AssignmentRequest where
  "auto_request = \<lparr>ar_ServiceID = ''a'', ar_IPAddress = '''', ar_AutoAssignment = True\<rparr>"

definition no_docs :: "mem_docs Store" where
  "no_docs = \<lparr>st_db = [], st_cache = []\<rparr>"

lemma one_pool_sources: "address_sources good_es map_of one_pool"
  unfolding good_es_def one_pool_def by (rule mem_addresses.address_sources_axioms)

definition web_address :: AddressAssignment where
  "web_address = new_assignment web_svc \<lparr>ip_IP = ''10.0.0.1'', ip_Type = ''virtual'', ip_HostID = ''''\<rparr> web_endpoint"

lemma no_docs_queries [simp]: "assignment_query good_es ts n [] = Inr []"
  by (simp add: assignment_query_def conn_Query_def good_es_def mem_es_def mem_ids_def)

lemma parseIPv4_4: "parseIPv4 s = ipv4_bytes (Suc (Suc (Suc (Suc 0)))) s"
  by (simp add: parseIPv4_def eval_nat_numeral)

lemma web_strings:
  "NotEmpty ''ServiceID'' ''a'' = []" "NotEmpty ''EndpointName'' ''web'' = []" "NotEmpty ''PoolID'' ''default'' = []"
  "TrimSpace ''a'' = ''a''" "TrimSpace ''web'' = ''web''" "TrimSpace ''default'' = ''default''" "TrimSpace ''10.0.0.1'' = ''10.0.0.1''"
  by code_simp+

lemma web_ip: "IsIP ''10.0.0.1'' = []" "ValidPort 80 = []"
  by (simp_all add: IsIP_def ParseIP_def parseIPv4_4 dtoi_def dec_value_def is_digit_def big_def ValidPort_def)

lemma web_address_valid: "Assignment_ValidEntity (web_address\<lparr>aa_ID := i\<rparr>) = []" "Assignment_ValidEntity web_address = []"
  by (simp_all add: web_address_def new_assignment_def web_svc_def stored_svc_def web_endpoint_def Assignment_ValidEntity_def web_strings web_ip)

lemma put_runs: "i \<noteq> [] \<Longrightarrow> DataStore_Put good_es aaKind i (AssignmentDoc (web_address\<lparr>aa_ID := i\<rparr>)) [] =
    (None, [((aaKind, i), (AssignmentDoc (web_address\<lparr>aa_ID := i\<rparr>), 1))])"
  by (simp add: DataStore_Put_def web_address_valid validKey_def conn_Put_def good_es_def mem_es_def next_version_def)

lemma web_fields: "aa_ServiceID web_address = ''a''" "aa_EndpointName web_address = ''web''" "aa_PoolID web_address = ''default''"
    "aa_IPAddr web_address = ''10.0.0.1''" "aa_Port web_address = 80"
  by (simp_all add: web_address_def new_assignment_def web_svc_def stored_svc_def web_endpoint_def)

definition web_docs :: "mem_docs Store" where
  "web_docs = \<lparr>st_db = [((aaKind, fresh_id []), (AssignmentDoc (web_address\<lparr>aa_ID := fresh_id []\<rparr>), 1))], st_cache = []\<rparr>"

lemma assign_runs: "assign good_es one_pool web_address no_docs = (Inr (fresh_id []), web_docs)"
proof -
  have i: "fresh_id [] \<noteq> []" by (simp add: fresh_id_def)
  show ?thesis
    by (simp add: assign_def web_address_valid web_fields no_docs_def one_pool_def mem_sources_def mem_base_def put_runs [OF i]
        FindAssignmentByServiceEndpoint_def FindAssignmentByHostPort_def web_strings web_docs_def)
qed

lemma choose_runs: "choose_ip good_es one_pool auto_request ''default'' [] [80] [] =
    (Inr \<lparr>ip_IP = ''10.0.0.1'', ip_Type = ''virtual'', ip_HostID = ''''\<rparr>, [80])"
  by (simp add: choose_ip_def auto_request_def getAutoAssignment_def GetResourcePool_def one_pool_def mem_sources_def mem_base_def
      GetServiceAddressAssignmentsByPort_def web_strings pool_ips_def)

lemma visitor_runs: "IpVisitorFn good_es one_pool auto_request web_svc (no_docs, [80]) = (None, (web_docs, [80]))"
proof -
  have svc: "svc_ID web_svc = ''a''" "svc_PoolID web_svc = ''default''" "endpoints web_svc = [web_endpoint]" "svc_DesiredState web_svc \<noteq> SVCRun"
    by (simp_all add: web_svc_def stored_svc_def)
  have "IsConfigurable web_endpoint" by (simp add: IsConfigurable_def web_endpoint_def)
  then have "assign_endpoints good_es one_pool web_svc \<lparr>ip_IP = ''10.0.0.1'', ip_Type = ''virtual'', ip_HostID = ''''\<rparr> [] [web_endpoint] False no_docs =
      (Inr True, web_docs)"
    using assign_runs by (simp add: web_address_def)
  moreover have "GetServiceAddressAssignments good_es ''a'' (st_db no_docs) = Inr []"
    by (simp add: GetServiceAddressAssignments_def no_docs_def)
  moreover have "st_db no_docs = []" by (simp add: no_docs_def)
  ultimately show ?thesis using choose_runs svc by (simp add: IpVisitorFn_def)
qed


theorem visitor_assigns_witness:
  "\<exists>x. offered one_pool ''default'' x [] \<and> (\<exists>i a. table_of map_of web_docs i = Some a \<and> aa_EndpointName a = ''web'')"
proof -
  have svc: "svc_PoolID web_svc = ''default''" "endpoints web_svc = [web_endpoint]" "svc_DesiredState web_svc \<noteq> SVCRun"
    by (simp_all add: web_svc_def stored_svc_def)
  have ok: "filed (map_of (st_db no_docs))" "small_table (table_of map_of no_docs)" "st_db no_docs = []"
    by (simp_all add: filed_def small_table_def no_docs_def assignments_def dom_def)
  have ep: "IsConfigurable web_endpoint" "ep_Name web_endpoint = ''web''" by (simp_all add: IsConfigurable_def web_endpoint_def)
  obtain st2 x where "web_docs = st2" "offered one_pool ''default'' x []"
      "\<exists>i a. table_of map_of st2 i = Some a \<and> aa_ServiceID a = svc_ID web_svc \<and> aa_EndpointName a = ''web''"
    using visitor_assigns [OF one_pool_sources ok(1,2) visitor_runs] unfolding svc(1,2) ok(3) using svc(3) ep by auto
  then show ?thesis by blast
qed

subsection \<open>Divergences\<close>

text \<open>\<^verbatim>\<open>EqualIP\<close> is documented to compare by address, but equal addresses make it false.\<close>

lemma EqualIP_differs: "EqualIP a b \<Longrightarrow> aa_IPAddr a \<noteq> aa_IPAddr b"
  by (simp add: EqualIP_def split: if_splits)

text \<open>A pool that does not exist is a nil pointer that both choices of an address follow.\<close>

lemma unknown_pool_panics:
  assumes "so_GetPool so p s = Inl (NoSuchEntity k i)"
  shows "getManualAssignment es so p x [] s = Inl PanicNilPointer" "getAutoAssignment es so p [] s = Inl PanicNilPointer"
  using assms by (simp_all add: getManualAssignment_def getAutoAssignment_def GetResourcePool_def)

text \<open>
  The ports of the service that a request names are used for all services below it. A child with
  port 80 gets an address at which port 81 is free; there port 80 is taken, and the request
  fails, although the second address of the pool has port 80 free.
\<close>

definition taken_docs :: "mem_docs Store" where
  "taken_docs = \<lparr>st_db = [((aaKind, ''x''), (AssignmentDoc (web_address\<lparr>aa_ID := ''x'', aa_ServiceID := ''b''\<rparr>), 1))], st_cache = []\<rparr>"

lemma taken_query: "assignment_query good_es ts n (st_db taken_docs) =
    Inr (if 0 < n \<and> doc_matches ts (AssignmentDoc (web_address\<lparr>aa_ID := ''x'', aa_ServiceID := ''b''\<rparr>))
         then [web_address\<lparr>aa_ID := ''x'', aa_ServiceID := ''b''\<rparr>] else [])"
  by (simp add: assignment_query_def conn_Query_def good_es_def mem_es_def mem_ids_def taken_docs_def)

lemma ports_distinct: "port_string 80 \<noteq> port_string 81"
  by simp

lemma child_ports_ignored:
  "fst (IpVisitorFn good_es one_pool auto_request web_svc (taken_docs, [81])) = Some (FacadeFailure ''found assignment for port'')"
  "fst (choose_ip good_es one_pool auto_request ''default'' [] [80] (st_db taken_docs)) =
     Inr \<lparr>ip_IP = ''10.0.0.2'', ip_Type = ''virtual'', ip_HostID = ''''\<rparr>"
proof -
  have svc: "svc_ID web_svc = ''a''" "svc_PoolID web_svc = ''default''" "endpoints web_svc = [web_endpoint]"
    by (simp_all add: web_svc_def stored_svc_def)
  have port: "show_nat 80 = port_string 80" by (simp add: port_string_def)
  have by_port: "GetServiceAddressAssignmentsByPort good_es ''default'' p (st_db taken_docs) =
      Inr (if p = 80 then [web_address\<lparr>aa_ID := ''x'', aa_ServiceID := ''b''\<rparr>] else [])" if "p \<noteq> 0" for p
    using that port by (simp add: GetServiceAddressAssignmentsByPort_def web_strings taken_query web_fields eq_commute [of "port_string 80"])
  have pool: "GetResourcePool one_pool ''default'' s = Inr (Some \<lparr>rp_ID = ''default'', rp_VirtualIPs = [''10.0.0.1'', ''10.0.0.2''], rp_Permissions = 3\<rparr>)"
      "so_FindHostsWithPoolID one_pool ''default'' s = Inr []" "so_Intn one_pool n s = 0" for s n
    by (simp_all add: GetResourcePool_def one_pool_def mem_sources_def mem_base_def)
  have choose: "choose_ip good_es one_pool auto_request ''default'' [] [81] (st_db taken_docs) =
      (Inr \<lparr>ip_IP = ''10.0.0.1'', ip_Type = ''virtual'', ip_HostID = ''''\<rparr>, [81])"
    by (simp add: choose_ip_def auto_request_def getAutoAssignment_def pool by_port pool_ips_def)
  show "fst (choose_ip good_es one_pool auto_request ''default'' [] [80] (st_db taken_docs)) =
     Inr \<lparr>ip_IP = ''10.0.0.2'', ip_Type = ''virtual'', ip_HostID = ''''\<rparr>"
    by (simp add: choose_ip_def auto_request_def getAutoAssignment_def pool by_port pool_ips_def web_fields)
  have "assign good_es one_pool web_address taken_docs = (Inl (FacadeFailure ''found assignment for port''), taken_docs)"
    by (simp add: assign_def web_address_valid web_fields FindAssignmentByServiceEndpoint_def FindAssignmentByHostPort_def web_strings
        taken_query port)
  moreover have "IsConfigurable web_endpoint" by (simp add: IsConfigurable_def web_endpoint_def)
  ultimately have "assign_endpoints good_es one_pool web_svc \<lparr>ip_IP = ''10.0.0.1'', ip_Type = ''virtual'', ip_HostID = ''''\<rparr> [] [web_endpoint] False taken_docs =
      (Inl (FacadeFailure ''found assignment for port''), taken_docs)"
    by (simp add: web_address_def)
  moreover have "GetServiceAddressAssignments good_es ''a'' (st_db taken_docs) = Inr []"
    by (simp add: GetServiceAddressAssignments_def taken_query)
  ultimately show "fst (IpVisitorFn good_es one_pool auto_request web_svc (taken_docs, [81])) = Some (FacadeFailure ''found assignment for port'')"
    using choose svc by (simp add: IpVisitorFn_def)
qed

end
