(* ===== verification/Service_Paths.thy ===== *)
theory Service_Paths
  imports Service_Tree "HOL-Library.Sublist"
begin

section \<open>The cache of service paths\<close>

text \<open>
  \<^verbatim>\<open>facade/servicepath_cache.go\<close>: for each service the tenant at the root of its tree and
  the path of ids and of names from there. An entry is built by climbing from a service to
  the first ancestor that is cached, and for all services on the way. The climb is recursive,
  so it gets the depth of the stack. \<^verbatim>\<open>path.Join\<close> cleans the path that it makes; its rules
  are written out.
\<close>

record servicePath =
  sp_serviceID :: string
  sp_tenantID :: string
  sp_parentID :: string
  sp_servicePath :: string
  sp_serviceNamePath :: string

type_synonym paths = "(string, servicePath) gomap"

subsection \<open>Paths as strings\<close>

fun split_slash :: "string \<Rightarrow> string list" where
  "split_slash [] = [[]]"
| "split_slash (c # s) =
     (case split_slash s of
        [] \<Rightarrow> [[c]]
      | x # xs \<Rightarrow> if c = CHR ''/'' then [] # x # xs else (c # x) # xs)"

fun join_slash :: "string list \<Rightarrow> string" where
  "join_slash [] = []"
| "join_slash [x] = x"
| "join_slash (x # y # xs) = x @ CHR ''/'' # join_slash (y # xs)"

text \<open>One element of \<^verbatim>\<open>path.Clean\<close>, with the elements that are kept so far in reverse order.\<close>

definition clean_element :: "bool \<Rightarrow> string \<Rightarrow> string list \<Rightarrow> string list" where
  "clean_element rooted x out =
     (if x = '''' \<or> x = ''.'' then out
      else if x = ''..'' then
        (case out of
           y # ys \<Rightarrow> if y = ''..'' then x # out else ys
         | [] \<Rightarrow> if rooted then [] else [x])
      else x # out)"

definition Clean :: "string \<Rightarrow> string" where
  "Clean s =
     (let rooted = (s \<noteq> [] \<and> hd s = CHR ''/'');
          kept = rev (fold (clean_element rooted) (split_slash s) [])
      in if rooted then CHR ''/'' # join_slash kept else if kept = [] then ''.'' else join_slash kept)"

definition path_Join :: "string \<Rightarrow> string \<Rightarrow> string" where
  "path_Join a b =
     (case filter (\<lambda>x. x \<noteq> []) [a, b] of [] \<Rightarrow> [] | xs \<Rightarrow> Clean (join_slash xs))"

subsection \<open>The operations of the cache\<close>

fun buildServicePath ::
    "nat \<Rightarrow> (string \<Rightarrow> ds_error + Service) \<Rightarrow> paths \<Rightarrow> string \<Rightarrow> servicePath list \<Rightarrow>
     (ds_error + servicePath \<times> servicePath list) option" where
  "buildServicePath 0 getServiceFunc paths serviceID svcPaths = None"
| "buildServicePath (Suc n) getServiceFunc paths serviceID svcPaths =
     (case getServiceFunc serviceID of
        Inl e \<Rightarrow> Some (Inl e)
      | Inr svc \<Rightarrow>
          if svc_ParentServiceID svc = '''' then
            (let svcPath = \<lparr>sp_serviceID = serviceID, sp_tenantID = serviceID, sp_parentID = '''',
                            sp_servicePath = CHR ''/'' # serviceID, sp_serviceNamePath = CHR ''/'' # svc_Name svc\<rparr>
             in Some (Inr (svcPath, svcPaths @ [svcPath])))
          else
            (case (case map_of paths (svc_ParentServiceID svc) of
                     Some parent \<Rightarrow> Some (Inr (parent, svcPaths))
                   | None \<Rightarrow> buildServicePath n getServiceFunc paths (svc_ParentServiceID svc) svcPaths) of
               None \<Rightarrow> None
             | Some (Inl e) \<Rightarrow> Some (Inl e)
             | Some (Inr (parent, svcPaths1)) \<Rightarrow>
                 (let svcPath = \<lparr>sp_serviceID = svc_ID svc, sp_tenantID = sp_tenantID parent,
                                 sp_parentID = svc_ParentServiceID svc,
                                 sp_servicePath = path_Join (sp_servicePath parent) (svc_ID svc),
                                 sp_serviceNamePath = path_Join (sp_serviceNamePath parent) (svc_Name svc)\<rparr>
                  in Some (Inr (svcPath, svcPaths1 @ [svcPath])))))"

definition updateCache ::
    "nat \<Rightarrow> (string \<Rightarrow> ds_error + Service) \<Rightarrow> string \<Rightarrow> paths \<Rightarrow> ((ds_error + servicePath) \<times> paths) option" where
  "updateCache n getServiceFunc serviceID paths =
     (case buildServicePath n getServiceFunc paths serviceID [] of
        None \<Rightarrow> None
      | Some (Inl e) \<Rightarrow> Some (Inl e, paths)
      | Some (Inr (cachedSvc, svcPaths)) \<Rightarrow>
          Some (Inr cachedSvc, fold (\<lambda>p. gset (sp_serviceID p) p) svcPaths paths))"

definition lookUpService :: "string \<Rightarrow> paths \<Rightarrow> servicePath option" where
  "lookUpService svcID paths = map_of paths svcID"

definition cached_path ::
    "nat \<Rightarrow> (string \<Rightarrow> ds_error + Service) \<Rightarrow> string \<Rightarrow> paths \<Rightarrow> ((ds_error + servicePath) \<times> paths) option" where
  "cached_path n getServiceFunc serviceID paths =
     (case lookUpService serviceID paths of
        Some cachedSvc \<Rightarrow> Some (Inr cachedSvc, paths)
      | None \<Rightarrow> updateCache n getServiceFunc serviceID paths)"

definition GetTenantID ::
    "nat \<Rightarrow> (string \<Rightarrow> ds_error + Service) \<Rightarrow> string \<Rightarrow> paths \<Rightarrow> ((ds_error + string) \<times> paths) option" where
  "GetTenantID n getServiceFunc serviceID paths =
     map_option (map_prod (map_sum (\<lambda>e. e) sp_tenantID) (\<lambda>p. p)) (cached_path n getServiceFunc serviceID paths)"

definition GetServicePath ::
    "nat \<Rightarrow> (string \<Rightarrow> ds_error + Service) \<Rightarrow> string \<Rightarrow> paths \<Rightarrow> ((ds_error + string \<times> string) \<times> paths) option" where
  "GetServicePath n getServiceFunc serviceID paths =
     map_option (map_prod (map_sum (\<lambda>e. e) (\<lambda>p. (sp_tenantID p, sp_servicePath p))) (\<lambda>p. p)) (cached_path n getServiceFunc serviceID paths)"

definition GetServiceNamePath ::
    "nat \<Rightarrow> (string \<Rightarrow> ds_error + Service) \<Rightarrow> string \<Rightarrow> paths \<Rightarrow> ((ds_error + string \<times> string) \<times> paths) option" where
  "GetServiceNamePath n getServiceFunc serviceID paths =
     map_option (map_prod (map_sum (\<lambda>e. e) (\<lambda>p. (sp_tenantID p, sp_serviceNamePath p))) (\<lambda>p. p)) (cached_path n getServiceFunc serviceID paths)"

definition RemoveIfParentChanged :: "string \<Rightarrow> string \<Rightarrow> paths \<Rightarrow> bool \<times> paths" where
  "RemoveIfParentChanged serviceID parentID paths =
     (case lookUpService serviceID paths of
        None \<Rightarrow> (False, paths)
      | Some cachedSvc \<Rightarrow>
          if sp_parentID cachedSvc = parentID then (False, paths)
          else (True, filter (\<lambda>(k, v). \<not> prefix (sp_servicePath cachedSvc) (sp_servicePath v)) paths))"

definition Reset :: "paths \<Rightarrow> paths" where
  "Reset paths = []"

subsection \<open>Cleaning\<close>

text \<open>An element that cleaning keeps.\<close>

definition element :: "string \<Rightarrow> bool" where
  "element x \<longleftrightarrow> x \<noteq> '''' \<and> x \<noteq> ''.'' \<and> x \<noteq> ''..'' \<and> CHR ''/'' \<notin> set x"

definition slashed :: "string list \<Rightarrow> string" where
  "slashed xs = concat (map (\<lambda>x. CHR ''/'' # x) xs)"

lemma split_slash_ne: "split_slash s \<noteq> []"
  by (induction s) (auto split: list.splits)

lemma split_slash_plain: "CHR ''/'' \<notin> set x \<Longrightarrow> split_slash x = [x]"
  by (induction x) auto

lemma split_slash_append: "CHR ''/'' \<notin> set x \<Longrightarrow> split_slash (x @ CHR ''/'' # s) = x # split_slash s"
  by (induction x) (auto split: list.splits simp: split_slash_ne)

lemma split_slash_slash: "split_slash (CHR ''/'' # s) = [] # split_slash s"
  using split_slash_ne [of s] by (cases "split_slash s") simp_all

lemma split_element: "CHR ''/'' \<notin> set x \<Longrightarrow> list_all element xs \<Longrightarrow> split_slash (x @ slashed xs) = x # xs"
proof (induction xs arbitrary: x)
  case Nil
  then show ?case by (simp add: slashed_def split_slash_plain)
next
  case (Cons y ys)
  have "x @ slashed (y # ys) = x @ CHR ''/'' # (y @ slashed ys)" by (simp add: slashed_def)
  then show ?case using Cons split_slash_append [OF Cons.prems(1)] by (simp add: element_def)
qed

lemma split_slashed: "list_all element xs \<Longrightarrow> split_slash (slashed xs) = [] # xs"
  using split_element [of "[]" xs] by simp

lemma clean_elements: "list_all element xs \<Longrightarrow> fold (clean_element r) xs out = rev xs @ out"
  by (induction xs arbitrary: out) (auto simp: clean_element_def element_def)

lemma slashed_join: "xs \<noteq> [] \<Longrightarrow> slashed xs = CHR ''/'' # join_slash xs"
  by (induction xs rule: join_slash.induct) (auto simp: slashed_def)

lemma Clean_slashed: "list_all element xs \<Longrightarrow> xs \<noteq> [] \<Longrightarrow> Clean (slashed xs) = slashed xs"
  using split_slashed [of xs] clean_elements [of xs True "[]"] slashed_join [of xs]
  by (simp add: Clean_def clean_element_def)

lemma path_Join_slashed:
  assumes "list_all element (xs @ [x])" "xs \<noteq> []"
  shows "path_Join (slashed xs) x = slashed (xs @ [x])"
proof -
  have "slashed xs \<noteq> []" using assms(2) slashed_join by simp
  moreover have "x \<noteq> []" using assms(1) by (simp add: element_def)
  moreover have "join_slash [slashed xs, x] = slashed (xs @ [x])" by (simp add: slashed_def)
  ultimately show ?thesis using Clean_slashed [OF assms(1)] by (simp add: path_Join_def)
qed

lemma prefix_slashed: "prefix xs ys \<Longrightarrow> prefix (slashed xs) (slashed ys)"
  by (auto simp: prefix_def slashed_def)

subsection \<open>What the cache means\<close>

text \<open>The ids on the way from the root to a service.\<close>

inductive path_to :: "services \<Rightarrow> string \<Rightarrow> string list \<Rightarrow> bool" for T where
  root: "T i = Some svc \<Longrightarrow> svc_ParentServiceID svc = '''' \<Longrightarrow> path_to T i [i]"
| step: "T i = Some svc \<Longrightarrow> svc_ParentServiceID svc = p \<Longrightarrow> p \<noteq> '''' \<Longrightarrow> path_to T p ids \<Longrightarrow> path_to T i (ids @ [i])"

lemma path_to_unique: "path_to T i ids \<Longrightarrow> path_to T i ids' \<Longrightarrow> ids = ids'"
proof (induction arbitrary: ids' rule: path_to.induct)
  case (root i svc)
  from root.prems show ?case using root.hyps by cases simp_all
next
  case (step i svc p ids)
  from step.prems show ?case
  proof cases
    case (step svc' q ids'')
    then have "path_to T p ids''" using \<open>T i = Some svc\<close> \<open>svc_ParentServiceID svc = p\<close> by simp
    then show ?thesis using step(1) step.IH by simp
  qed (use step.hyps in simp)
qed

lemma path_to_ne: "path_to T i ids \<Longrightarrow> ids \<noteq> [] \<and> last ids = i"
  by (induction rule: path_to.induct) auto

lemma path_to_dom: "path_to T i ids \<Longrightarrow> set ids \<subseteq> dom T"
  by (induction rule: path_to.induct) auto

lemma path_to_member: "path_to T i ids \<Longrightarrow> j \<in> set ids \<Longrightarrow> \<exists>ids'. path_to T j ids' \<and> prefix ids' ids"
proof (induction rule: path_to.induct)
  case (root i svc)
  then show ?case by (auto intro: path_to.root)
next
  case (step i svc p ids)
  show ?case
  proof (cases "j = i")
    case True
    then show ?thesis using path_to.step [OF step.hyps] by blast
  next
    case False
    then obtain ids' where "path_to T j ids'" "prefix ids' ids" using step by auto
    then show ?thesis by (auto intro: prefix_order.trans prefixI)
  qed
qed

definition faithful :: "services \<Rightarrow> servicePath \<Rightarrow> bool" where
  "faithful T sp \<longleftrightarrow> (\<exists>ids svc. path_to T (sp_serviceID sp) ids \<and> T (sp_serviceID sp) = Some svc \<and> sp_tenantID sp = hd ids
     \<and> sp_parentID sp = svc_ParentServiceID svc \<and> sp_servicePath sp = slashed ids)"

text \<open>Entries are faithful, and the parent of a cached service is cached.\<close>

definition coherent :: "services \<Rightarrow> paths \<Rightarrow> bool" where
  "coherent T paths \<longleftrightarrow> (\<forall>i sp. map_of paths i = Some sp \<longrightarrow>
     sp_serviceID sp = i \<and> faithful T sp \<and> (sp_parentID sp \<noteq> '''' \<longrightarrow> sp_parentID sp \<in> set (keys paths)))"

definition elements :: "services \<Rightarrow> bool" where
  "elements T \<longleftrightarrow> tree_ids T \<and> (\<forall>i \<in> dom T. element i)"

definition reads_from :: "(string \<Rightarrow> ds_error + Service) \<Rightarrow> services \<Rightarrow> bool" where
  "reads_from gs T \<longleftrightarrow> (\<forall>i svc. gs i = Inr svc \<longrightarrow> T i = Some svc)"

lemma path_to_elements: "path_to T i ids \<Longrightarrow> elements T \<Longrightarrow> list_all element ids"
  using path_to_dom by (fastforce simp: elements_def list_all_iff)

lemma build_faithful:
  assumes "coherent T paths" "elements T" "reads_from gs T"
  shows "buildServicePath n gs paths i acc = Some (Inr (sp, out)) \<Longrightarrow> \<exists>new. out = acc @ new \<and> sp \<in> set new \<and> sp_serviceID sp = i \<and>
    (\<forall>p \<in> set new. faithful T p \<and> (sp_parentID p \<noteq> '''' \<longrightarrow> sp_parentID p \<in> set (keys paths) \<union> sp_serviceID ` set new))"
proof (induction n arbitrary: i sp out)
  case (Suc n)
  obtain svc where svc: "gs i = Inr svc" using Suc.prems by (auto split: sum.splits)
  then have T: "T i = Some svc" using assms(3) by (simp add: reads_from_def)
  then have i: "svc_ID svc = i" "element i" using assms(2) by (auto simp: elements_def tree_ids_def)
  show ?case
  proof (cases "svc_ParentServiceID svc = ''''")
    case True
    let ?p = "\<lparr>sp_serviceID = i, sp_tenantID = i, sp_parentID = '''', sp_servicePath = CHR ''/'' # i,
      sp_serviceNamePath = CHR ''/'' # svc_Name svc\<rparr>"
    have "sp = ?p" "out = acc @ [?p]" using Suc.prems svc True by (auto simp: Let_def)
    moreover have "path_to T i [i]" using T True by (rule path_to.root)
    then have "faithful T ?p" using T True unfolding faithful_def by (intro exI [of _ "[i]"] exI [of _ svc]) (simp add: slashed_def)
    ultimately show ?thesis by (intro exI [of _ "[?p]"]) simp
  next
    case False
    let ?q = "svc_ParentServiceID svc"
    let ?mk = "\<lambda>parent. \<lparr>sp_serviceID = svc_ID svc, sp_tenantID = sp_tenantID parent, sp_parentID = ?q,
       sp_servicePath = path_Join (sp_servicePath parent) (svc_ID svc),
       sp_serviceNamePath = path_Join (sp_serviceNamePath parent) (svc_Name svc)\<rparr>"
    have mk: "faithful T (?mk parent)" if parent: "faithful T parent" "sp_serviceID parent = ?q" for parent
    proof -
      obtain ids where ids: "path_to T ?q ids" "sp_tenantID parent = hd ids" "sp_servicePath parent = slashed ids"
        using parent by (auto simp: faithful_def)
      have path: "path_to T i (ids @ [i])" using T refl False ids(1) by (rule path_to.step)
      have "path_Join (slashed ids) i = slashed (ids @ [i])"
        using path_to_elements [OF path assms(2)] path_to_ne [OF ids(1)] by (intro path_Join_slashed) simp_all
      then show ?thesis using path T ids path_to_ne [OF ids(1)] i(1) unfolding faithful_def
        by (intro exI [of _ "ids @ [i]"] exI [of _ svc]) simp
    qed
    show ?thesis
    proof (cases "map_of paths ?q")
      case (Some parent)
      then have parent: "faithful T parent" "sp_serviceID parent = ?q" using assms(1) by (auto simp: coherent_def)
      have out: "sp = ?mk parent" "out = acc @ [?mk parent]" using Suc.prems svc False Some by (auto simp: Let_def)
      show ?thesis using mk [OF parent] out i(1) map_of_Some_keys [OF Some] by (intro exI [of _ "[?mk parent]"]) simp
    next
      case None
      then obtain parent out1 where rec: "buildServicePath n gs paths ?q acc = Some (Inr (parent, out1))"
          and out: "sp = ?mk parent" "out = out1 @ [?mk parent]"
        using Suc.prems svc False by (auto simp: Let_def split: option.splits sum.splits)
      obtain new where new: "out1 = acc @ new" "parent \<in> set new" "sp_serviceID parent = ?q"
          "\<forall>p \<in> set new. faithful T p \<and> (sp_parentID p \<noteq> '''' \<longrightarrow> sp_parentID p \<in> set (keys paths) \<union> sp_serviceID ` set new)"
        using Suc.IH [OF rec] by blast
      have "?q \<in> sp_serviceID ` set new" using new(2,3) by (metis imageI)
      then show ?thesis using mk [OF bspec [OF new(4) new(2), THEN conjunct1] new(3)] out new i(1)
        by (intro exI [of _ "new @ [?mk parent]"]) auto
    qed
  qed
qed simp

lemma fold_gset_entries:
  "map_of (fold (\<lambda>p. gset (sp_serviceID p) p) new paths) k = Some sp \<Longrightarrow>
     (sp \<in> set new \<and> sp_serviceID sp = k) \<or> map_of paths k = Some sp"
proof (induction new arbitrary: paths)
  case (Cons p new)
  from Cons.prems have "map_of (fold (\<lambda>p. gset (sp_serviceID p) p) new (gset (sp_serviceID p) p paths)) k = Some sp"
    by simp
  from Cons.IH [OF this] show ?case by (auto split: if_splits)
qed simp

lemma fold_gset_keys:
  "set (keys (fold (\<lambda>p. gset (sp_serviceID p) p) new paths)) = set (keys paths) \<union> sp_serviceID ` set new"
  by (induction new arbitrary: paths) (simp_all only: fold_simps keys_gset, auto)

lemma cached_path_faithful:
  assumes "coherent T paths" "elements T" "reads_from gs T"
    and "cached_path n gs i paths = Some (r, paths')"
  shows "coherent T paths' \<and> (\<forall>sp. r = Inr sp \<longrightarrow> sp_serviceID sp = i \<and> faithful T sp)"
proof (cases "map_of paths i")
  case (Some sp)
  then show ?thesis using assms(1,4) by (auto simp: cached_path_def lookUpService_def coherent_def)
next
  case None
  then have u: "updateCache n gs i paths = Some (r, paths')" using assms(4) by (simp add: cached_path_def lookUpService_def)
  show ?thesis
  proof (cases r)
    case (Inr sp)
    obtain out where b: "buildServicePath n gs paths i [] = Some (Inr (sp, out))"
        and p: "paths' = fold (\<lambda>p. gset (sp_serviceID p) p) out paths"
      using u Inr by (auto simp: updateCache_def split: option.splits sum.splits)
    have new: "sp \<in> set out" "sp_serviceID sp = i"
      "\<forall>p \<in> set out. faithful T p \<and> (sp_parentID p \<noteq> '''' \<longrightarrow> sp_parentID p \<in> set (keys paths) \<union> sp_serviceID ` set out)"
      using build_faithful [OF assms(1-3) b] by auto
    have "coherent T paths'"
      unfolding coherent_def p fold_gset_keys
    proof (intro allI impI)
      fix k q assume q: "map_of (fold (\<lambda>p. gset (sp_serviceID p) p) out paths) k = Some q"
      show "sp_serviceID q = k \<and> faithful T q \<and>
          (sp_parentID q \<noteq> '''' \<longrightarrow> sp_parentID q \<in> set (keys paths) \<union> sp_serviceID ` set out)"
        using fold_gset_entries [OF q] new(3) assms(1) unfolding coherent_def by blast
    qed
    then show ?thesis using Inr new by auto
  qed (use u assms(1) in \<open>auto simp: updateCache_def split: option.splits sum.splits\<close>)
qed

subsection \<open>Changes of the tree\<close>

lemma path_to_upd: "path_to T j ids \<Longrightarrow> i \<notin> set ids \<Longrightarrow> path_to (T(i := x)) j ids"
proof (induction rule: path_to.induct)
  case (root j svc)
  then show ?case by (intro path_to.root [of _ _ svc]) auto
next
  case (step j svc p ids)
  then show ?case by (intro path_to.step [of _ _ svc p]) auto
qed

lemma path_to_same_parent:
  assumes "T i = Some old" "svc_ParentServiceID svc = svc_ParentServiceID old"
  shows "path_to T j ids \<Longrightarrow> path_to (T(i \<mapsto> svc)) j ids"
proof (induction rule: path_to.induct)
  case (root j svc')
  then show ?case using assms by (intro path_to.root [of _ _ "if j = i then svc else svc'"]) auto
next
  case (step j svc' p ids)
  then show ?case using assms by (intro path_to.step [of _ _ "if j = i then svc else svc'" p]) auto
qed

lemma ancestors_cached:
  assumes "coherent T paths"
  shows "path_to T j ids \<Longrightarrow> j \<in> set (keys paths) \<Longrightarrow> set ids \<subseteq> set (keys paths)"
proof (induction rule: path_to.induct)
  case (step j svc p ids)
  obtain sp where "map_of paths j = Some sp" using step.prems by (metis map_of_eq_None_keys not_None_eq)
  then have "sp_serviceID sp = j" "faithful T sp" "sp_parentID sp \<noteq> '''' \<longrightarrow> sp_parentID sp \<in> set (keys paths)"
    using assms by (auto simp: coherent_def)
  moreover from this have "sp_parentID sp = p" using step.hyps by (auto simp: faithful_def)
  ultimately have "p \<in> set (keys paths)" using step.hyps by simp
  then show ?case using step.IH step.prems by simp
qed simp

lemma faithful_upd:
  assumes "faithful T sp" "\<And>ids. path_to T (sp_serviceID sp) ids \<Longrightarrow> i \<notin> set ids"
  shows "faithful (T(i := x)) sp"
proof -
  obtain ids svc where ids: "path_to T (sp_serviceID sp) ids" "T (sp_serviceID sp) = Some svc" "sp_tenantID sp = hd ids"
     "sp_parentID sp = svc_ParentServiceID svc" "sp_servicePath sp = slashed ids" using assms(1) by (auto simp: faithful_def)
  have "i \<notin> set ids" by (rule assms(2) [OF ids(1)])
  moreover from this have "sp_serviceID sp \<noteq> i" using path_to_ne [OF ids(1)] by (metis last_in_set)
  ultimately show ?thesis using ids path_to_upd [OF ids(1)] unfolding faithful_def by (intro exI [of _ ids] exI [of _ svc]) simp
qed

lemma faithful_same_parent:
  assumes "faithful T sp" "T i = Some old" "svc_ParentServiceID svc = svc_ParentServiceID old"
  shows "faithful (T(i \<mapsto> svc)) sp"
proof -
  obtain ids svc' where ids: "path_to T (sp_serviceID sp) ids" "T (sp_serviceID sp) = Some svc'" "sp_tenantID sp = hd ids"
     "sp_parentID sp = svc_ParentServiceID svc'" "sp_servicePath sp = slashed ids" using assms(1) by (auto simp: faithful_def)
  then show ?thesis using path_to_same_parent [OF assms(2,3) ids(1)] assms(2,3) unfolding faithful_def
    by (intro exI [of _ ids] exI [of _ "if sp_serviceID sp = i then svc else svc'"]) auto
qed

lemma coherent_uncached:
  assumes "coherent T paths" "i \<notin> set (keys paths)"
  shows "coherent (T(i := x)) paths"
proof -
  have "faithful (T(i := x)) sp" if "map_of paths j = Some sp" for j sp
  proof (rule faithful_upd)
    show f: "faithful T sp" using assms(1) that by (auto simp: coherent_def)
    fix ids assume "path_to T (sp_serviceID sp) ids"
    moreover have "sp_serviceID sp \<in> set (keys paths)" using assms(1) that map_of_Some_keys [OF that] by (auto simp: coherent_def)
    ultimately show "i \<notin> set ids" using ancestors_cached [OF assms(1)] assms(2) by blast
  qed
  then show ?thesis using assms(1) unfolding coherent_def by blast
qed

lemma map_of_filter_val: "wf_map m \<Longrightarrow> map_of (filter (\<lambda>(k, v). P v) m) k = Some v \<longleftrightarrow> map_of m k = Some v \<and> P v"
  by (simp add: map_of_eq_Some_iff distinct_map_filter)

text \<open>Evicting for a parent keeps the rest coherent, with the new parent and with the old one.\<close>

lemma evict_coherent:
  assumes "coherent T paths" "wf_map paths" "T i = Some old" "svc_ParentServiceID svc = p \<or> svc_ParentServiceID svc = svc_ParentServiceID old"
  shows "coherent (T(i \<mapsto> svc)) (snd (RemoveIfParentChanged i p paths))"
proof (cases "map_of paths i")
  case None
  then have "i \<notin> set (keys paths)" by (rule map_of_eq_None_keys [THEN iffD1])
  then show ?thesis using coherent_uncached [OF assms(1), of i] by (simp add: RemoveIfParentChanged_def lookUpService_def None)
next
  case (Some spi)
  have spi: "faithful T spi" "sp_serviceID spi = i" using assms(1) Some by (auto simp: coherent_def)
  then obtain idsi where idsi: "path_to T i idsi" "sp_servicePath spi = slashed idsi" "sp_parentID spi = svc_ParentServiceID old"
    using assms(3) by (auto simp: faithful_def)
  show ?thesis
  proof (cases "sp_parentID spi = p")
    case True
    have "faithful (T(i \<mapsto> svc)) sp" if "map_of paths j = Some sp" for j sp
    proof (rule faithful_same_parent)
      show "faithful T sp" using assms(1) that by (auto simp: coherent_def)
      show "T i = Some old" by (rule assms(3))
      show "svc_ParentServiceID svc = svc_ParentServiceID old" using True idsi(3) assms(4) by auto
    qed
    then show ?thesis using assms(1) True Some by (simp add: RemoveIfParentChanged_def lookUpService_def coherent_def)
  next
    case False
    let ?keep = "\<lambda>v. \<not> prefix (sp_servicePath spi) (sp_servicePath v)"
    let ?paths = "filter (\<lambda>(k, v). ?keep v) paths"
    have r: "snd (RemoveIfParentChanged i p paths) = ?paths"
      using Some False by (simp add: RemoveIfParentChanged_def lookUpService_def)
    have "sp_serviceID sp = j \<and> faithful (T(i \<mapsto> svc)) sp \<and> (sp_parentID sp \<noteq> '''' \<longrightarrow> sp_parentID sp \<in> set (keys ?paths))"
      if kept: "map_of ?paths j = Some sp" for j sp
    proof -
      have j: "map_of paths j = Some sp" "?keep sp" using kept map_of_filter_val [OF assms(2), of ?keep j sp] by simp_all
      then have sp: "sp_serviceID sp = j" "faithful T sp" "sp_parentID sp \<noteq> '''' \<longrightarrow> sp_parentID sp \<in> set (keys paths)"
        using assms(1) by (auto simp: coherent_def)
      obtain ids svcj where ids: "path_to T j ids" "sp_servicePath sp = slashed ids" "T j = Some svcj" "sp_parentID sp = svc_ParentServiceID svcj"
        using sp by (auto simp: faithful_def)
      have out: "i \<notin> set ids"
      proof
        assume "i \<in> set ids"
        then obtain ids' where ids': "path_to T i ids'" "prefix ids' ids" using path_to_member [OF ids(1)] by blast
        have "idsi = ids'" by (rule path_to_unique [OF idsi(1) ids'(1)])
        then have "prefix idsi ids" using ids'(2) by simp
        then show False using j(2) idsi(2) ids(2) prefix_slashed by simp
      qed
      have "faithful (T(i \<mapsto> svc)) sp"
      proof (rule faithful_upd [OF sp(2)])
        fix ids' assume "path_to T (sp_serviceID sp) ids'"
        then have "ids = ids'" unfolding sp(1) by (rule path_to_unique [OF ids(1)])
        then show "i \<notin> set ids'" using out by simp
      qed
      moreover have "sp_parentID sp \<in> set (keys ?paths)" if ne: "sp_parentID sp \<noteq> ''''"
      proof -
        let ?q = "sp_parentID sp"
        obtain spq where q: "map_of paths ?q = Some spq" using sp(3) ne by (metis map_of_eq_None_keys not_None_eq)
        then have "faithful T spq" "sp_serviceID spq = ?q" using assms(1) by (auto simp: coherent_def)
        then obtain idsq where idsq: "path_to T ?q idsq" "sp_servicePath spq = slashed idsq" by (auto simp: faithful_def)
        have "path_to T j (idsq @ [j])" using ids(3) ids(4) [symmetric] ne idsq(1) by (rule path_to.step)
        then have "ids = idsq @ [j]" by (rule path_to_unique [OF ids(1)])
        then have "prefix (slashed idsq) (slashed ids)" by (simp add: prefix_slashed)
        then have "?keep spq" using j(2) idsq(2) ids(2) by (metis prefix_order.trans)
          then have "map_of ?paths ?q = Some spq" using q map_of_filter_val [OF assms(2), of ?keep ?q spq] by simp
          then show ?thesis by (rule map_of_Some_keys)
      qed
      ultimately show ?thesis using sp(1) by blast
    qed
    then show ?thesis unfolding r coherent_def by blast
  qed
qed

subsection \<open>Properties of the cache\<close>

text \<open>Every service hangs on a root.\<close>

definition rooted_tree :: "services \<Rightarrow> bool" where
  "rooted_tree T \<longleftrightarrow> elements T \<and> (\<forall>i \<in> dom T. \<exists>ids. path_to T i ids)"

text \<open>
  The life of the cache: lookups with reads that may fail, services that are added or
  updated, an update with the eviction that goes with it, and a reset.
\<close>

inductive cache_step :: "services \<times> paths \<Rightarrow> services \<times> paths \<Rightarrow> bool" where
  lookup: "reads_from gs T \<Longrightarrow> cached_path n gs i paths = Some (r, paths') \<Longrightarrow> cache_step (T, paths) (T, paths')"
| added: "T i = None \<Longrightarrow> rooted_tree (T(i \<mapsto> svc)) \<Longrightarrow> cache_step (T, paths) (T(i \<mapsto> svc), paths)"
| updated: "T i = Some old \<Longrightarrow> rooted_tree (T(i \<mapsto> svc)) \<Longrightarrow>
    cache_step (T, paths) (T(i \<mapsto> svc), snd (RemoveIfParentChanged i (svc_ParentServiceID svc) paths))"
| reset: "cache_step (T, paths) (T, Reset paths)"

definition cache_inv :: "services \<times> paths \<Rightarrow> bool" where
  "cache_inv x \<longleftrightarrow> (case x of (T, paths) \<Rightarrow> rooted_tree T \<and> coherent T paths \<and> wf_map paths)"

lemma wf_fold_gset: "wf_map paths \<Longrightarrow> wf_map (fold (\<lambda>p. gset (sp_serviceID p) p) new paths)"
  by (induction new arbitrary: paths) simp_all

lemma cached_path_wf: "cached_path n gs i paths = Some (r, paths') \<Longrightarrow> wf_map paths \<Longrightarrow> wf_map paths'"
  by (auto simp: cached_path_def updateCache_def intro: wf_fold_gset split: option.splits sum.splits)

lemma wf_RemoveIfParentChanged: "wf_map paths \<Longrightarrow> wf_map (snd (RemoveIfParentChanged i p paths))"
  by (auto simp: RemoveIfParentChanged_def distinct_map_filter split: option.splits)

lemma cached_in_tree: "coherent T paths \<Longrightarrow> i \<in> set (keys paths) \<Longrightarrow> T i \<noteq> None"
  by (fastforce simp: coherent_def faithful_def dest: weak_map_of_SomeI)

lemma cache_step_inv: "cache_step x y \<Longrightarrow> cache_inv x \<Longrightarrow> cache_inv y"
proof (induction rule: cache_step.induct)
  case (lookup gs T n i paths r paths')
  then show ?case using cached_path_faithful [OF _ _ lookup(1,2)] cached_path_wf by (auto simp: cache_inv_def rooted_tree_def)
next
  case (added T i svc paths)
  then have "i \<notin> set (keys paths)" using cached_in_tree by (auto simp only: cache_inv_def prod.case)
  then show ?case using added coherent_uncached by (auto simp only: cache_inv_def prod.case)
next
  case (updated T i old svc paths)
  then show ?case using evict_coherent [of T paths i old svc] wf_RemoveIfParentChanged by (auto simp only: cache_inv_def prod.case)
next
  case (reset T paths)
  then show ?case by (simp add: cache_inv_def Reset_def coherent_def)
qed

text \<open>
  Whatever happened to the tree in between, as long as no service is removed, the tenant and the path that
  the cache answers are those of the tree as it is now: the tenant is the root above the
  service, and the path lists the ids from there.
\<close>

theorem cache_answers_tree:
  assumes "rooted_tree T0" "cache_step\<^sup>*\<^sup>* (T0, []) (T, paths)" "reads_from gs T"
    and "GetServicePath n gs i paths = Some (Inr (tenantID, pth), paths')"
  shows "\<exists>ids. path_to T i ids \<and> tenantID = hd ids \<and> pth = slashed ids"
proof -
  have "cache_inv (T, paths)"
    using assms(2)
  proof (induction rule: rtranclp_induct)
    case base
    then show ?case using assms(1) by (simp add: cache_inv_def coherent_def)
  next
    case (step y z)
    then show ?case using cache_step_inv by blast
  qed
  then have inv: "coherent T paths" "elements T" by (simp_all add: cache_inv_def rooted_tree_def)
  obtain sp where sp: "cached_path n gs i paths = Some (Inr sp, paths')" "tenantID = sp_tenantID sp" "pth = sp_servicePath sp"
  proof -
    obtain r where r: "cached_path n gs i paths = Some (r, paths')" "map_sum (\<lambda>e. e) (\<lambda>p. (sp_tenantID p, sp_servicePath p)) r = Inr (tenantID, pth)"
      using assms(4) by (auto simp: GetServicePath_def)
    then show thesis using that by (cases r) auto
  qed
  show ?thesis using cached_path_faithful [OF inv assms(3) sp(1)] sp(2,3) by (auto simp: faithful_def)
qed

lemma build_returns:
  "path_to T i ids \<Longrightarrow> reads_from gs T \<Longrightarrow> length ids \<le> n \<Longrightarrow> buildServicePath n gs paths i acc \<noteq> None"
proof (induction arbitrary: n acc rule: path_to.induct)
  case (root i svc)
  then obtain m where m: "n = Suc m" by (cases n) simp_all
  show ?case
  proof (cases "gs i")
    case (Inr svc')
    then have "svc' = svc" using root by (simp add: reads_from_def)
    then show ?thesis using m Inr root by (simp add: Let_def)
  qed (simp add: m)
next
  case (step i svc p ids)
  then obtain m where m: "n = Suc m" "length ids \<le> m" by (cases n) simp_all
  show ?case
  proof (cases "gs i")
    case (Inr svc')
    then have svc': "svc' = svc" using step by (simp add: reads_from_def)
    have "buildServicePath m gs paths p acc \<noteq> None" by (rule step.IH [OF step.prems(1) m(2)])
    then show ?thesis using m Inr step.hyps svc' by (auto simp: Let_def split: option.splits sum.splits)
  qed (simp add: m)
qed

text \<open>
  A lookup returns: the climb of a service that hangs on a root needs a stack as deep as
  the service, whatever is cached and wherever a read fails.
\<close>

theorem cache_returns:
  assumes "path_to T i ids" "reads_from gs T" "length ids \<le> n"
  shows "GetTenantID n gs i paths \<noteq> None"
  using build_returns [OF assms, of paths "[]"]
  by (auto simp: GetTenantID_def cached_path_def updateCache_def split: option.splits sum.splits)

text \<open>On a cycle the climb never ends.\<close>

lemma cycle_climbs_forever:
  assumes "\<forall>i \<in> C. \<exists>svc. gs i = Inr svc \<and> svc_ParentServiceID svc \<in> C \<and> svc_ParentServiceID svc \<noteq> ''''"
  shows "i \<in> C \<Longrightarrow> buildServicePath n gs [] i acc = None"
proof (induction n arbitrary: i)
  case (Suc n)
  then obtain svc where "gs i = Inr svc" "svc_ParentServiceID svc \<in> C" "svc_ParentServiceID svc \<noteq> ''''" using assms by blast
  then show ?case using Suc.IH by simp
qed simp

subsection \<open>A worked example\<close>

definition two_tree :: services where
  "two_tree = [''a'' \<mapsto> stored_svc ''a'' '''', ''b'' \<mapsto> stored_svc ''b'' ''a'', ''c'' \<mapsto> stored_svc ''c'' ''b'']"

definition table_reads :: "services \<Rightarrow> string \<Rightarrow> ds_error + Service" where
  "table_reads T i = (case T i of None \<Rightarrow> Inl (NoSuchEntity ''service'' i) | Some svc \<Rightarrow> Inr svc)"

lemma table_reads_from: "reads_from (table_reads T) T"
  by (auto simp: reads_from_def table_reads_def split: option.splits)

lemma svc_fields [simp]: "svc_ID (stored_svc i p) = i" "svc_ParentServiceID (stored_svc i p) = p" "svc_Name (stored_svc i p) = i"
  by (simp_all add: stored_svc_def)

lemma two_paths: "path_to two_tree ''a'' [''a'']" "path_to two_tree ''b'' [''a'', ''b'']" "path_to two_tree ''c'' [''a'', ''b'', ''c'']"
proof -
  show a: "path_to two_tree ''a'' [''a'']" by (rule path_to.root [of _ _ "stored_svc ''a'' ''''"]) (simp_all add: two_tree_def)
  have "path_to two_tree ''b'' ([''a''] @ [''b''])" by (rule path_to.step [of _ _ "stored_svc ''b'' ''a''", OF _ _ _ a]) (simp_all add: two_tree_def)
  then show b: "path_to two_tree ''b'' [''a'', ''b'']" by simp
  have "path_to two_tree ''c'' ([''a'', ''b''] @ [''c''])" by (rule path_to.step [of _ _ "stored_svc ''c'' ''b''", OF _ _ _ b]) (simp_all add: two_tree_def)
  then show "path_to two_tree ''c'' [''a'', ''b'', ''c'']" by simp
qed

lemma two_elements: "elements two_tree"
  by (auto simp: elements_def tree_ids_def two_tree_def element_def split: if_splits)

text \<open>The service \<open>c\<close> moves from \<open>b\<close> to the root \<open>a\<close> after its path was cached.\<close>

definition moved_tree :: services where
  "moved_tree = two_tree(''c'' \<mapsto> stored_svc ''c'' ''a'')"

lemma moved_path: "path_to moved_tree ''c'' [''a'', ''c'']"
proof -
  have a: "path_to moved_tree ''a'' [''a'']" by (rule path_to.root [of _ _ "stored_svc ''a'' ''''"]) (simp_all add: moved_tree_def two_tree_def)
  have "path_to moved_tree ''c'' ([''a''] @ [''c''])" by (rule path_to.step [of _ _ "stored_svc ''c'' ''a''", OF _ _ _ a]) (simp_all add: moved_tree_def two_tree_def)
  then show ?thesis by simp
qed

lemma two_rooted: "rooted_tree two_tree"
  using two_elements two_paths by (auto simp: rooted_tree_def two_tree_def split: if_splits)

lemma moved_rooted: "rooted_tree moved_tree"
proof -
  have "elements moved_tree" using two_elements by (auto simp: elements_def tree_ids_def moved_tree_def element_def split: if_splits)
  moreover have "\<exists>ids. path_to moved_tree i ids" if "i \<in> dom moved_tree" for i
  proof (cases "i = ''c''")
    case False
    then have "i = ''a'' \<or> i = ''b''" using that by (auto simp: moved_tree_def two_tree_def split: if_splits)
    then show ?thesis using path_to_upd [OF two_paths(1), of "''c''"] path_to_upd [OF two_paths(2), of "''c''"]
      unfolding moved_tree_def by auto
  qed (use moved_path in blast)
  ultimately show ?thesis by (auto simp: rooted_tree_def)
qed

lemma cached_c:
  "cached_path 3 (table_reads two_tree) ''c'' [] = Some (Inr \<lparr>sp_serviceID = ''c'', sp_tenantID = ''a'', sp_parentID = ''b'',
      sp_servicePath = ''/a/b/c'', sp_serviceNamePath = ''/a/b/c''\<rparr>,
    [(''a'', \<lparr>sp_serviceID = ''a'', sp_tenantID = ''a'', sp_parentID = '''', sp_servicePath = ''/a'', sp_serviceNamePath = ''/a''\<rparr>),
     (''b'', \<lparr>sp_serviceID = ''b'', sp_tenantID = ''a'', sp_parentID = ''a'', sp_servicePath = ''/a/b'', sp_serviceNamePath = ''/a/b''\<rparr>),
     (''c'', \<lparr>sp_serviceID = ''c'', sp_tenantID = ''a'', sp_parentID = ''b'', sp_servicePath = ''/a/b/c'', sp_serviceNamePath = ''/a/b/c''\<rparr>)])"
  by (simp add: cached_path_def lookUpService_def updateCache_def eval_nat_numeral table_reads_def two_tree_def Let_def
      path_Join_def Clean_def clean_element_def gset_Cons)

theorem cache_answers_tree_witness:
  "\<exists>paths. cache_step\<^sup>*\<^sup>* (two_tree, []) (moved_tree, paths) \<and>
     (\<exists>tenantID pth paths'. GetServicePath 3 (table_reads moved_tree) ''c'' paths = Some (Inr (tenantID, pth), paths') \<and> pth = ''/a/c'')"
proof -
  obtain r c1 where c1: "cached_path 3 (table_reads two_tree) ''c'' [] = Some (r, c1)" using cached_c by blast
  let ?c2 = "snd (RemoveIfParentChanged ''c'' ''a'' c1)"
  have "cache_step (two_tree, []) (two_tree, c1)" by (rule cache_step.lookup [OF table_reads_from c1])
  moreover have "cache_step (two_tree, c1) (moved_tree, ?c2)"
    using cache_step.updated [of two_tree "''c''" "stored_svc ''c'' ''b''" "stored_svc ''c'' ''a''" c1] moved_rooted
    by (simp add: moved_tree_def two_tree_def)
  ultimately have run: "cache_step\<^sup>*\<^sup>* (two_tree, []) (moved_tree, ?c2)" by (rule converse_rtranclp_into_rtranclp [OF _ r_into_rtranclp])
  have c2: "?c2 = [(''a'', \<lparr>sp_serviceID = ''a'', sp_tenantID = ''a'', sp_parentID = '''', sp_servicePath = ''/a'', sp_serviceNamePath = ''/a''\<rparr>),
     (''b'', \<lparr>sp_serviceID = ''b'', sp_tenantID = ''a'', sp_parentID = ''a'', sp_servicePath = ''/a/b'', sp_serviceNamePath = ''/a/b''\<rparr>)]"
    using c1 unfolding cached_c by (auto simp: RemoveIfParentChanged_def lookUpService_def)
  obtain tenantID pth paths' where get: "GetServicePath 3 (table_reads moved_tree) ''c'' ?c2 = Some (Inr (tenantID, pth), paths')"
    unfolding c2 by (simp add: GetServicePath_def cached_path_def lookUpService_def updateCache_def eval_nat_numeral table_reads_def
      moved_tree_def Let_def)
  obtain ids where "path_to moved_tree ''c'' ids" "pth = slashed ids"
    using cache_answers_tree [OF two_rooted run table_reads_from get] by blast
  moreover from this have "ids = [''a'', ''c'']" using path_to_unique [OF moved_path] by metis
  ultimately have "pth = ''/a/c''" by (simp add: slashed_def)
  then show ?thesis using run get by blast
qed

theorem cache_returns_witness: "GetTenantID 3 (table_reads two_tree) ''c'' [] \<noteq> None"
  using cache_returns [OF two_paths(3) table_reads_from] by simp

text \<open>
  A new name of a service does not reach the paths of names: \<^verbatim>\<open>validateServiceUpdate\<close> asks the
  cache to forget the service when the name or the parent has changed, but the cache only
  compares the parent.
\<close>

lemma renamed_path_stale:
  assumes "cached_path 3 (table_reads two_tree) ''c'' [] = Some (r, paths)"
    and "T = two_tree(''c'' \<mapsto> (stored_svc ''c'' ''b'')\<lparr>svc_Name := ''new''\<rparr>)"
  shows "map_option fst (GetServiceNamePath 3 (table_reads T) ''c'' (snd (RemoveIfParentChanged ''c'' ''b'' paths))) = Some (Inr (''a'', ''/a/b/c''))"
  using assms(1) unfolding cached_c by (auto simp: RemoveIfParentChanged_def lookUpService_def GetServiceNamePath_def cached_path_def)

text \<open>
  A removed service stays cached, because it is evicted with its own parent: the cache still
  knows its tenant.
\<close>

lemma removed_service_cached:
  assumes "cached_path 3 (table_reads two_tree) ''c'' [] = Some (r, paths)"
  shows "map_option fst (GetTenantID 3 (table_reads (two_tree(''c'' := None))) ''c'' (snd (RemoveIfParentChanged ''c'' ''b'' paths))) = Some (Inr ''a'')"
  using assms unfolding cached_c by (auto simp: RemoveIfParentChanged_def lookUpService_def GetTenantID_def cached_path_def)

end
