(* ===== verification/Facade_Services.thy ===== *)
theory Facade_Services
  imports Strategy Address_Assignments Service_Paths
begin

section \<open>Adding, updating and removing services\<close>

text \<open>
  \<^verbatim>\<open>facade/service.go\<close>: validation of a service that is added, updated or started, writing it to
  the store with the cache of paths kept up to date, and removing a tree of services. The
  world is the store, with everything outside of the facade as its database part, and the
  cache of paths. The coordinator (\<^verbatim>\<open>facade.ZZK\<close>), the distributed file system, the stores
  of configuration files and images are the record \<open>Env\<close>. An operation may fail with an
  error, and it does not return when a climb in the tree does not.
\<close>

record 's World =
  w_store :: "'s Store"
  w_paths :: paths

record 's Env =
  en_sources :: "'s Sources"
  en_depth :: nat
  en_now :: "'s \<Rightarrow> int"
  en_GetVHost :: "string \<Rightarrow> 's \<Rightarrow> facade_error + string \<times> string"
  en_GetPublicPort :: "string \<Rightarrow> 's \<Rightarrow> facade_error + string \<times> string"
  en_UpdateService :: "string \<Rightarrow> Service \<Rightarrow> bool \<Rightarrow> bool \<Rightarrow> 's \<Rightarrow> facade_error option \<times> 's"
  en_RemoveService :: "string \<Rightarrow> string \<Rightarrow> 's \<Rightarrow> facade_error option \<times> 's"
  en_RemoveServiceEndpoints :: "string \<Rightarrow> 's \<Rightarrow> facade_error option \<times> 's"
  en_VerifyTenantMounts :: "string \<Rightarrow> 's \<Rightarrow> facade_error option"
  en_writeConfigs :: "string \<Rightarrow> string \<Rightarrow> 's \<Rightarrow> facade_error option \<times> 's"
  en_readConfigs :: "string \<Rightarrow> string \<Rightarrow> 's \<Rightarrow> facade_error option"
  en_CheckRemoveRegistryImage :: "Service \<Rightarrow> 's \<Rightarrow> facade_error option \<times> 's"

subsection \<open>Sequencing\<close>

text \<open>
  A step takes the world and returns an error or a value with the world after it, or does not
  return.
\<close>

type_synonym ('w, 'a) act = "'w \<Rightarrow> ((facade_error + 'a) \<times> 'w) option"

definition ret :: "'a \<Rightarrow> ('w, 'a) act" where
  "ret x w = Some (Inr x, w)"

definition raise :: "facade_error \<Rightarrow> ('w, 'a) act" where
  "raise e w = Some (Inl e, w)"

definition bindF :: "('w, 'a) act \<Rightarrow> ('a \<Rightarrow> ('w, 'b) act) \<Rightarrow> ('w, 'b) act" where
  "bindF m f w =
     (case m w of
        None \<Rightarrow> None
      | Some (Inl e, w') \<Rightarrow> Some (Inl e, w')
      | Some (Inr x, w') \<Rightarrow> f x w')"

text \<open>Going on after an error, which is only logged, or with another value; a panic is not caught.\<close>

definition caught :: "'a \<Rightarrow> ('w, 'a) act \<Rightarrow> ('w, 'a) act" where
  "caught x m w =
     (case m w of
        Some (Inl e, w') \<Rightarrow> Some (if e = PanicNilPointer then Inl e else Inr x, w')
      | r \<Rightarrow> r)"

definition reads :: "('w \<Rightarrow> facade_error + 'a) \<Rightarrow> ('w, 'a) act" where
  "reads f w = Some (f w, w)"

definition of_ds :: "ds_error + 'a \<Rightarrow> facade_error + 'a" where
  "of_ds r = (case r of Inl e \<Rightarrow> Inl (StoreError e) | Inr x \<Rightarrow> Inr x)"

definition check :: "facade_error option \<Rightarrow> ('w, unit) act" where
  "check e = (case e of None \<Rightarrow> ret () | Some x \<Rightarrow> raise x)"

definition on_store :: "('s Store \<Rightarrow> (facade_error + 'a) \<times> 's Store) \<Rightarrow> ('s World, 'a) act" where
  "on_store f w = (case f (w_store w) of (r, st) \<Rightarrow> Some (r, w\<lparr>w_store := st\<rparr>))"

definition on_store_e :: "('s Store \<Rightarrow> facade_error option \<times> 's Store) \<Rightarrow> ('s World, unit) act" where
  "on_store_e f w = (case f (w_store w) of (e, st) \<Rightarrow> Some (case e of None \<Rightarrow> Inr () | Some x \<Rightarrow> Inl x, w\<lparr>w_store := st\<rparr>))"

definition on_server :: "('s \<Rightarrow> facade_error option \<times> 's) \<Rightarrow> ('s World, unit) act" where
  "on_server f = on_store_e (\<lambda>st. case f (st_db st) of (e, s') \<Rightarrow> (e, st\<lparr>st_db := s'\<rparr>))"

abbreviation server :: "'s World \<Rightarrow> 's" where
  "server w \<equiv> st_db (w_store w)"

subsection \<open>The path of a service\<close>

text \<open>Details of a service are read from the store; the cache reads the parent, the name and the id.\<close>

definition cached :: "'s Elastic \<Rightarrow> 's Env \<Rightarrow> string \<Rightarrow> ('s World, servicePath) act" where
  "cached es en i w =
     (case cached_path (en_depth en) (\<lambda>j. Service_Store.Get es j (w_store w)) i (w_paths w) of
        None \<Rightarrow> None
      | Some (r, paths) \<Rightarrow> Some (of_ds r, w\<lparr>w_paths := paths\<rparr>))"

definition tenant_of :: "'s Elastic \<Rightarrow> 's Env \<Rightarrow> string \<Rightarrow> ('s World, string) act" where
  "tenant_of es en i = bindF (cached es en i) (\<lambda>sp. ret (sp_tenantID sp))"

definition updateServiceConfigs :: "'s Elastic \<Rightarrow> 's Env \<Rightarrow> string \<Rightarrow> ('s World, unit) act" where
  "updateServiceConfigs es en i =
     bindF (cached es en i) (\<lambda>sp. on_server (en_writeConfigs en (sp_tenantID sp) (sp_servicePath sp)))"

definition fillServiceConfigs :: "'s Elastic \<Rightarrow> 's Env \<Rightarrow> string \<Rightarrow> ('s World, unit) act" where
  "fillServiceConfigs es en i =
     bindF (cached es en i) (\<lambda>sp w. check (en_readConfigs en (sp_tenantID sp) (sp_servicePath sp) (server w)) w)"

definition filled_service :: "'s Elastic \<Rightarrow> 's Env \<Rightarrow> string \<Rightarrow> ('s World, Service) act" where
  "filled_service es en i =
     bindF (on_store (GetService es (en_sources en) i)) (\<lambda>svc.
     bindF (fillServiceConfigs es en i) (\<lambda>_. ret svc))"

subsection \<open>Validation\<close>

definition getS :: "'s Elastic \<Rightarrow> string \<Rightarrow> ('s World, Service) act" where
  "getS es i = reads (\<lambda>w. of_ds (Service_Store.Get es i (w_store w)))"

definition validateServiceName :: "'s Elastic \<Rightarrow> Service \<Rightarrow> ('s World, Service) act" where
  "validateServiceName es svc =
     bindF (if svc_ParentServiceID svc \<noteq> '''' then
              bindF (getS es (svc_ParentServiceID svc)) (\<lambda>psvc. ret (svc\<lparr>svc_DeploymentID := svc_DeploymentID psvc\<rparr>))
            else ret svc) (\<lambda>svc'.
     bindF (reads (\<lambda>w. of_ds (FindChildService es (svc_DeploymentID svc') (svc_ParentServiceID svc') (svc_Name svc') (w_store w)))) (\<lambda>cursvc.
     (case cursvc of Some _ \<Rightarrow> raise ErrServiceCollision | None \<Rightarrow> ret svc')))"

definition validateServiceTenant :: "'s Elastic \<Rightarrow> 's Env \<Rightarrow> string \<Rightarrow> string \<Rightarrow> ('s World, unit) act" where
  "validateServiceTenant es en serviceA serviceB =
     (if serviceA = '''' \<or> serviceB = '''' then raise ErrTenantDoesNotMatch
      else bindF (tenant_of es en serviceA) (\<lambda>tenantA.
           bindF (tenant_of es en serviceB) (\<lambda>tenantB.
           if tenantA \<noteq> tenantB then raise ErrTenantDoesNotMatch else ret ())))"

definition validateServiceOptions :: "Service \<Rightarrow> facade_error option" where
  "validateServiceOptions svc =
     (if svc_HostPolicy svc = RequireSeparate \<and> ChangeOptions_Contains (svc_ChangeOptions svc) ''restartAllOnInstanceChanged''
      then Some (ErrInvalidServiceOption ''HostPolicy RequireSeparate cannot be used with ChangeOption RestartAllOnInstanceChanged'')
      else None)"

text \<open>\<^verbatim>\<open>HasDfsAccess\<close> tests the second bit of the permissions.\<close>

definition HasDfsAccess :: "ResourcePool \<Rightarrow> bool" where
  "HasDfsAccess pool = bit (rp_Permissions pool) 1"

definition verifyTenantMounts :: "'s Elastic \<Rightarrow> 's Env \<Rightarrow> Service \<Rightarrow> ('s World, unit) act" where
  "verifyTenantMounts es en svc =
     bindF (reads (\<lambda>w. GetResourcePool (en_sources en) (svc_PoolID svc) (server w))) (\<lambda>pool.
     (case pool of
        None \<Rightarrow> raise PanicNilPointer
      | Some p \<Rightarrow>
          if \<not> HasDfsAccess p then ret ()
          else bindF (tenant_of es en (svc_ID svc)) (\<lambda>tenantID w. check (en_VerifyTenantMounts en tenantID (server w)) w)))"

fun endpoints_assigned :: "'s Elastic \<Rightarrow> string \<Rightarrow> ServiceEndpoint list \<Rightarrow> ('s World, unit) act" where
  "endpoints_assigned es i [] = ret ()"
| "endpoints_assigned es i (ep # eps) =
     (if \<not> IsConfigurable ep then endpoints_assigned es i eps
      else bindF (reads (\<lambda>w. of_ds (FindAssignmentByServiceEndpoint es i (ep_Name ep) (server w)))) (\<lambda>as.
        (case as of None \<Rightarrow> raise ErrServiceMissingAssignment | Some _ \<Rightarrow> endpoints_assigned es i eps)))"

definition validateServiceStart :: "'s Elastic \<Rightarrow> 's Env \<Rightarrow> Service \<Rightarrow> ('s World, unit) act" where
  "validateServiceStart es en svc =
     (if svc_EmergencyShutdown svc then raise ErrEmergencyShutdownNoOp
      else bindF (verifyTenantMounts es en svc) (\<lambda>_.
           bindF (endpoints_assigned es (svc_ID svc) (endpoints svc)) (\<lambda>_.
           check (validateServiceOptions svc))))"

definition validateServiceStop :: "Service \<Rightarrow> bool \<Rightarrow> facade_error option" where
  "validateServiceStop svc emergency =
     (if svc_EmergencyShutdown svc \<and> \<not> emergency then Some ErrEmergencyShutdownNoOp else None)"

text \<open>When a service is added, public endpoints that another service uses are disabled.\<close>

fun free_vhosts :: "'s Env \<Rightarrow> VHost list \<Rightarrow> 's \<Rightarrow> facade_error + VHost list" where
  "free_vhosts en [] s = Inr []"
| "free_vhosts en (v # vs) s =
     (case (if vhost_Enabled v then en_GetVHost en (vhost_Name v) s else Inr ('''', '''')) of
        Inl e \<Rightarrow> Inl e
      | Inr (serviceID, application) \<Rightarrow>
          (case free_vhosts en vs s of
             Inl e \<Rightarrow> Inl e
           | Inr vs' \<Rightarrow> Inr ((if serviceID \<noteq> '''' \<or> application \<noteq> '''' then v\<lparr>vhost_Enabled := False\<rparr> else v) # vs')))"

fun free_ports :: "'s Env \<Rightarrow> Port list \<Rightarrow> 's \<Rightarrow> facade_error + Port list" where
  "free_ports en [] s = Inr []"
| "free_ports en (p # ps) s =
     (case (if port_Enabled p then en_GetPublicPort en (port_PortAddr p) s else Inr ('''', '''')) of
        Inl e \<Rightarrow> Inl e
      | Inr (serviceID, application) \<Rightarrow>
          (case free_ports en ps s of
             Inl e \<Rightarrow> Inl e
           | Inr ps' \<Rightarrow> Inr ((if serviceID \<noteq> '''' \<or> application \<noteq> '''' then p\<lparr>port_Enabled := False\<rparr> else p) # ps')))"

fun free_endpoints :: "'s Env \<Rightarrow> ServiceEndpoint list \<Rightarrow> 's \<Rightarrow> facade_error + ServiceEndpoint list" where
  "free_endpoints en [] s = Inr []"
| "free_endpoints en (ep # eps) s =
     (case free_vhosts en (ep_VHostList ep) s of
        Inl e \<Rightarrow> Inl e
      | Inr vs \<Rightarrow>
          (case free_ports en (ep_PortList ep) s of
             Inl e \<Rightarrow> Inl e
           | Inr ps \<Rightarrow>
               (case free_endpoints en eps s of
                  Inl e \<Rightarrow> Inl e
                | Inr eps' \<Rightarrow> Inr (ep\<lparr>ep_VHostList := vs, ep_PortList := ps\<rparr> # eps'))))"

definition validateServiceAdd :: "'s Elastic \<Rightarrow> 's Env \<Rightarrow> Service \<Rightarrow> ('s World, Service) act" where
  "validateServiceAdd es en svc =
     bindF (reads (\<lambda>w. case Service_Store.Get es (svc_ID svc) (w_store w) of
                     Inl (NoSuchEntity k i) \<Rightarrow> Inr ()
                   | Inl e \<Rightarrow> Inl (StoreError e)
                   | Inr _ \<Rightarrow> Inl ErrServiceExists)) (\<lambda>_.
     bindF (validateServiceName es svc) (\<lambda>svc1.
     bindF (reads (\<lambda>w. free_endpoints en (endpoints svc1) (server w))) (\<lambda>eps.
     bindF (check (validateServiceOptions svc1)) (\<lambda>_.
     ret (svc1\<lparr>svc_Endpoints := map_option (\<lambda>_. eps) (svc_Endpoints svc1), svc_DesiredState := SVCStop,
               svc_CurrentState := SVCCSStopped, svc_DatabaseVersion := 0\<rparr>)))))"

text \<open>When a service is updated, an endpoint that another service or application uses is an error.\<close>

definition in_use :: "string \<Rightarrow> string \<Rightarrow> string \<times> string \<Rightarrow> bool" where
  "in_use i app owner = ((fst owner \<noteq> '''' \<and> fst owner \<noteq> i) \<or> (snd owner \<noteq> '''' \<and> snd owner \<noteq> app))"

fun vhosts_free :: "'s Env \<Rightarrow> string \<Rightarrow> string \<Rightarrow> VHost list \<Rightarrow> 's \<Rightarrow> facade_error option" where
  "vhosts_free en i app [] s = None"
| "vhosts_free en i app (v # vs) s =
     (if \<not> vhost_Enabled v then vhosts_free en i app vs s
      else case en_GetVHost en (vhost_Name v) s of
        Inl e \<Rightarrow> Some e
      | Inr owner \<Rightarrow> if in_use i app owner then Some (FacadeFailure ''vhost is already in use'') else vhosts_free en i app vs s)"

fun public_ports_free :: "'s Env \<Rightarrow> string \<Rightarrow> string \<Rightarrow> Port list \<Rightarrow> 's \<Rightarrow> facade_error option" where
  "public_ports_free en i app [] s = None"
| "public_ports_free en i app (p # ps) s =
     (if \<not> port_Enabled p then public_ports_free en i app ps s
      else case en_GetPublicPort en (port_PortAddr p) s of
        Inl e \<Rightarrow> Some e
      | Inr owner \<Rightarrow> if in_use i app owner then Some (FacadeFailure ''port is already in use'') else public_ports_free en i app ps s)"

fun endpoints_free :: "'s Env \<Rightarrow> string \<Rightarrow> ServiceEndpoint list \<Rightarrow> 's \<Rightarrow> facade_error option" where
  "endpoints_free en i [] s = None"
| "endpoints_free en i (ep # eps) s =
     (case vhosts_free en i (ep_Application ep) (ep_VHostList ep) s of
        Some e \<Rightarrow> Some e
      | None \<Rightarrow>
          (case public_ports_free en i (ep_Application ep) (ep_PortList ep) s of
             Some e \<Rightarrow> Some e
           | None \<Rightarrow> endpoints_free en i eps s))"

definition evict :: "Service \<Rightarrow> ('s World, unit) act" where
  "evict svc w = Some (Inr (), w\<lparr>w_paths := snd (RemoveIfParentChanged (svc_ID svc) (svc_ParentServiceID svc) (w_paths w))\<rparr>)"

text \<open>The service as it is stored and the service as it is to be written.\<close>

definition validateServiceUpdate :: "'s Elastic \<Rightarrow> 's Env \<Rightarrow> Service \<Rightarrow> ('s World, Service \<times> Service) act" where
  "validateServiceUpdate es en svc =
     bindF (getS es (svc_ID svc)) (\<lambda>cursvc.
     bindF (if svc_ParentServiceID svc \<noteq> svc_ParentServiceID cursvc \<or> svc_Name svc \<noteq> svc_Name cursvc then
              bindF (if svc_ParentServiceID svc \<noteq> svc_ParentServiceID cursvc
                     then validateServiceTenant es en (svc_ParentServiceID svc) (svc_ID svc) else ret ()) (\<lambda>_.
              bindF (validateServiceName es svc) (\<lambda>svc1.
              bindF (evict svc) (\<lambda>_. ret svc1)))
            else ret svc) (\<lambda>svc1.
     bindF (\<lambda>w. check (endpoints_free en (svc_ID svc1) (endpoints svc1) (server w)) w) (\<lambda>_.
     (let svc2 = svc1\<lparr>svc_DeploymentID := svc_DeploymentID cursvc\<rparr> in
     bindF (check (validateServiceOptions svc2)) (\<lambda>_.
     if svc_DesiredState svc2 \<noteq> SVCStop
     then caught (cursvc, svc2\<lparr>svc_DesiredState := SVCStop\<rparr>) (bindF (validateServiceStart es en svc2) (\<lambda>_. ret (cursvc, svc2)))
     else ret (cursvc, svc2))))))"

subsection \<open>Writing\<close>

definition put_service :: "'s Elastic \<Rightarrow> 's Env \<Rightarrow> Service \<Rightarrow> ('s World, unit) act" where
  "put_service es en svc =
     on_store_e (\<lambda>st. case Put es svc (en_now en (st_db st)) st of (e, st') \<Rightarrow> (map_option StoreError e, st'))"

definition syncService :: "'s Elastic \<Rightarrow> 's Env \<Rightarrow> string \<Rightarrow> string \<Rightarrow> bool \<Rightarrow> bool \<Rightarrow> ('s World, unit) act" where
  "syncService es en tenantID i lockCreate lockUpdate =
     bindF (filled_service es en i) (\<lambda>svc. on_server (en_UpdateService en tenantID svc lockCreate lockUpdate))"

definition SetServicesCurrentState :: "'s Env \<Rightarrow> ServiceCurrentState \<Rightarrow> string list \<Rightarrow> ('s World, unit) act" where
  "SetServicesCurrentState en cs ids =
     on_store_e (\<lambda>st. (None, fold (\<lambda>i st. UpdateCurrentState i cs (en_now en (st_db st)) st) ids st))"

definition addService :: "'s Elastic \<Rightarrow> 's Env \<Rightarrow> string \<Rightarrow> Service \<Rightarrow> bool \<Rightarrow> ('s World, unit) act" where
  "addService es en tenantID svc setLock =
     bindF (validateServiceAdd es en svc) (\<lambda>svc1.
     bindF (put_service es en svc1) (\<lambda>_.
     bindF (SetServicesCurrentState en SVCCSStopped [svc_ID svc1]) (\<lambda>_.
     bindF (caught () (updateServiceConfigs es en (svc_ID svc1))) (\<lambda>_.
     syncService es en tenantID (svc_ID svc1) setLock setLock))))"

definition AddService :: "'s Elastic \<Rightarrow> 's Env \<Rightarrow> Service \<Rightarrow> ('s World, unit) act" where
  "AddService es en svc =
     bindF (if svc_ParentServiceID svc = '''' then ret (svc_ID svc) else tenant_of es en (svc_ParentServiceID svc)) (\<lambda>tenantID.
     addService es en tenantID svc False)"

text \<open>A service that moves to another pool is removed from the old one, or at least stopped there.\<close>

definition leave_pool :: "'s Elastic \<Rightarrow> 's Env \<Rightarrow> string \<Rightarrow> Service \<Rightarrow> ('s World, unit) act" where
  "leave_pool es en tenantID cursvc w =
     (case on_server (en_RemoveService en (svc_PoolID cursvc) (svc_ID cursvc)) w of
        Some (Inl e, w') \<Rightarrow>
          if e = PanicNilPointer then Some (Inl e, w')
          else caught () (on_server (en_UpdateService en tenantID (cursvc\<lparr>svc_DesiredState := SVCStop\<rparr>) False False)) w'
      | r \<Rightarrow> r)"

definition updateService :: "'s Elastic \<Rightarrow> 's Env \<Rightarrow> string \<Rightarrow> Service \<Rightarrow> bool \<Rightarrow> ('s World, unit) act" where
  "updateService es en tenantID svc setLock =
     bindF (validateServiceUpdate es en svc) (\<lambda>(cursvc, svc1).
     bindF (put_service es en svc1) (\<lambda>_.
     bindF (caught () (updateServiceConfigs es en (svc_ID svc1))) (\<lambda>_.
     bindF (if svc_PoolID cursvc \<noteq> svc_PoolID svc1 then leave_pool es en tenantID cursvc else ret ()) (\<lambda>_.
     syncService es en tenantID (svc_ID svc1) setLock setLock))))"

definition UpdateService :: "'s Elastic \<Rightarrow> 's Env \<Rightarrow> Service \<Rightarrow> ('s World, unit) act" where
  "UpdateService es en svc =
     bindF (tenant_of es en (svc_ID svc)) (\<lambda>tenantID. updateService es en tenantID svc False)"

subsection \<open>Removing\<close>

fun remove_assignments :: "'s Elastic \<Rightarrow> string \<Rightarrow> ServiceEndpoint list \<Rightarrow> 's Store \<Rightarrow> facade_error option \<times> 's Store" where
  "remove_assignments es i [] st = (None, st)"
| "remove_assignments es i (ep # eps) st =
     (case FindAssignmentByServiceEndpoint es i (ep_Name ep) (st_db st) of
        Inl e \<Rightarrow> (Some (StoreError e), st)
      | Inr None \<Rightarrow> remove_assignments es i eps st
      | Inr (Some a) \<Rightarrow>
          (case RemoveAddressAssignment es (aa_ID a) st of
             (Some e, st') \<Rightarrow> (Some e, st')
           | (None, st') \<Rightarrow> remove_assignments es i eps st'))"

text \<open>A visitor from a step that always returns.\<close>

definition visit :: "('w, unit) act \<Rightarrow> 'w \<Rightarrow> facade_error option \<times> 'w" where
  "visit m w = (case m w of Some (Inl e, w') \<Rightarrow> (Some e, w') | Some (Inr _, w') \<Rightarrow> (None, w') | None \<Rightarrow> (None, w))"

definition remove_visit :: "'s Elastic \<Rightarrow> 's Env \<Rightarrow> Service \<Rightarrow> 's World \<Rightarrow> facade_error option \<times> 's World" where
  "remove_visit es en svc = visit
     (bindF (on_store_e (remove_assignments es (svc_ID svc) (endpoints svc))) (\<lambda>_.
      bindF (on_server (en_RemoveServiceEndpoints en (svc_ID svc))) (\<lambda>_.
      bindF (on_server (en_RemoveService en (svc_PoolID svc) (svc_ID svc))) (\<lambda>_.
      bindF (on_store_e (\<lambda>st. case Service_Store.Delete es (svc_ID svc) st of (e, st') \<Rightarrow> (map_option StoreError e, st'))) (\<lambda>_.
      bindF (evict svc) (\<lambda>_.
      on_server (en_CheckRemoveRegistryImage en svc)))))))"

definition removeService :: "'s Elastic \<Rightarrow> 's Env \<Rightarrow> string \<Rightarrow> 's World \<Rightarrow> (facade_error option \<times> 's World) option" where
  "removeService es en i w = walkServices (en_depth en) es w_store i True (remove_visit es en) w"

subsection \<open>Reasoning about steps\<close>

lemma bindF_cases:
  assumes "bindF m f w = Some (r, w')"
  obtains (err) e where "m w = Some (Inl e, w')" "r = Inl e"
    | (ok) x w1 where "m w = Some (Inr x, w1)" "f x w1 = Some (r, w')"
proof (cases "m w")
  case None
  then show ?thesis using assms by (simp add: bindF_def)
next
  case (Some z)
  obtain r1 w1 where z: "z = (r1, w1)" by fastforce
  show ?thesis
  proof (cases r1)
    case (Inl e)
    then show ?thesis using assms Some z err by (simp add: bindF_def)
  next
    case (Inr x)
    then show ?thesis using assms Some z ok by (simp add: bindF_def)
  qed
qed

lemma bindF_Inr: "bindF m f w = Some (Inr y, w') \<longleftrightarrow> (\<exists>x w1. m w = Some (Inr x, w1) \<and> f x w1 = Some (Inr y, w'))"
  by (auto simp: bindF_def split: option.splits sum.splits prod.splits)

lemma caught_Inr: "caught x m w = Some (Inr y, w') \<longleftrightarrow> m w = Some (Inr y, w') \<or> (y = x \<and> (\<exists>e. e \<noteq> PanicNilPointer \<and> m w = Some (Inl e, w')))"
  by (auto simp: caught_def split: option.splits sum.splits prod.splits if_splits)

text \<open>A step stays in a relation, whatever its outcome.\<close>

definition stays :: "('w \<Rightarrow> 'w \<Rightarrow> bool) \<Rightarrow> ('w, 'a) act \<Rightarrow> bool" where
  "stays R m \<longleftrightarrow> (\<forall>w r w'. m w = Some (r, w') \<longrightarrow> R w w')"

definition preorder_rel :: "('w \<Rightarrow> 'w \<Rightarrow> bool) \<Rightarrow> bool" where
  "preorder_rel R \<longleftrightarrow> (\<forall>w. R w w) \<and> (\<forall>x y z. R x y \<longrightarrow> R y z \<longrightarrow> R x z)"

named_theorems stays_intros

lemma staysD: "stays R m \<Longrightarrow> m w = Some (r, w') \<Longrightarrow> R w w'"
  by (simp add: stays_def)

lemma stays_bindF [stays_intros]:
  assumes "preorder_rel R" "stays R m" "\<And>x. stays R (f x)"
  shows "stays R (bindF m f)"
  unfolding stays_def
proof (intro allI impI)
  fix w r w' assume "bindF m f w = Some (r, w')"
  then show "R w w'"
  proof (cases rule: bindF_cases)
    case (err e)
    then show ?thesis using staysD [OF assms(2)] by blast
  next
    case (ok x w1)
    then show ?thesis using staysD [OF assms(2) ok(1)] staysD [OF assms(3) ok(2)] assms(1) unfolding preorder_rel_def by blast
  qed
qed

lemma stays_pure [stays_intros]:
  "preorder_rel R \<Longrightarrow> stays R (ret x)" "preorder_rel R \<Longrightarrow> stays R (raise e)" "preorder_rel R \<Longrightarrow> stays R (reads f)"
  "preorder_rel R \<Longrightarrow> stays R (check c)"
  by (auto simp: stays_def preorder_rel_def ret_def raise_def reads_def check_def split: option.splits)

lemma stays_check_w [stays_intros]: "preorder_rel R \<Longrightarrow> stays R (\<lambda>w. check (c w) w)"
  by (auto simp: stays_def preorder_rel_def check_def ret_def raise_def split: option.splits)

lemma stays_caught [stays_intros]: "stays R m \<Longrightarrow> stays R (caught x m)"
  by (auto simp: stays_def caught_def split: option.splits sum.splits prod.splits if_splits)

lemma stays_if [stays_intros]: "stays R a \<Longrightarrow> stays R b \<Longrightarrow> stays R (if c then a else b)"
  by simp

lemma stays_getS [stays_intros]: "preorder_rel R \<Longrightarrow> stays R (getS es i)"
  unfolding getS_def by (intro stays_intros)

text \<open>Reading steps.\<close>

lemma reads_Some [simp]: "reads f w = Some (r, w') \<longleftrightarrow> r = f w \<and> w' = w"
  by (auto simp: reads_def)

lemma ret_Some [simp]: "ret x w = Some (r, w') \<longleftrightarrow> r = Inr x \<and> w' = w"
  by (auto simp: ret_def)

lemma raise_Some [simp]: "raise e w = Some (r, w') \<longleftrightarrow> r = Inl e \<and> w' = w"
  by (auto simp: raise_def)

lemma check_Some [simp]: "check c w = Some (Inr u, w') \<longleftrightarrow> c = None \<and> w' = w"
  by (auto simp: check_def split: option.splits)

lemma of_ds_Inr [simp]: "of_ds r = Inr x \<longleftrightarrow> r = Inr x" "Inr x = of_ds r \<longleftrightarrow> r = Inr x"
  by (auto simp: of_ds_def split: sum.splits)

subsection \<open>What leaves the services alone\<close>

definition services_of :: "('s \<Rightarrow> docmap) \<Rightarrow> 's World \<Rightarrow> services" where
  "services_of docs w = doc_service (docs (server w))"

definition same_services :: "('s \<Rightarrow> docmap) \<Rightarrow> 's World \<Rightarrow> 's World \<Rightarrow> bool" where
  "same_services docs w w' \<longleftrightarrow> (\<forall>i. docs (server w') (svcKind, i) = docs (server w) (svcKind, i))"

lemma same_services_preorder [stays_intros]: "preorder_rel (same_services docs)"
  by (simp add: preorder_rel_def same_services_def)

lemma same_services_of: "same_services docs w w' \<Longrightarrow> services_of docs w' = services_of docs w"
  by (simp add: same_services_def services_of_def doc_service_def fun_eq_iff)

lemma same_services_db_ok: "same_services docs w w' \<Longrightarrow> db_ok (docs (server w')) = db_ok (docs (server w))"
  by (simp add: same_services_def db_ok_def)

text \<open>Looking up a path only changes the cache of paths.\<close>

lemma cached_store: "cached es en i w = Some (r, w') \<Longrightarrow> w_store w' = w_store w"
  by (auto simp: cached_def split: option.splits)

text \<open>
  The composed steps stay in every preorder in which the steps do that they are composed of:
  looking up a path and evicting one.
\<close>

locale step_relation =
  fixes R :: "'s World \<Rightarrow> 's World \<Rightarrow> bool" and es :: "'s Elastic" and en :: "'s Env"
  assumes pre: "preorder_rel R" and lookup: "stays R (cached es en i)" and eviction: "stays R (evict svc)"
begin

lemmas basic_steps [stays_intros] = pre lookup eviction

lemma stays_tenant [stays_intros]: "stays R (tenant_of es en i)"
  unfolding tenant_of_def by (intro stays_intros)

lemma stays_fillConfigs [stays_intros]: "stays R (fillServiceConfigs es en i)"
  unfolding fillServiceConfigs_def by (intro stays_intros)

lemma stays_name [stays_intros]: "stays R (validateServiceName es svc)"
proof -
  have "stays R (case c of Some x \<Rightarrow> raise ErrServiceCollision | None \<Rightarrow> ret y)"
    for c :: "Service option" and y :: Service by (cases c) (simp_all add: stays_intros)
  then show ?thesis unfolding validateServiceName_def by (intro stays_intros)
qed

lemma stays_tenants [stays_intros]: "stays R (validateServiceTenant es en a b)"
  unfolding validateServiceTenant_def by (intro stays_intros)

lemma stays_mounts [stays_intros]: "stays R (verifyTenantMounts es en svc)"
proof -
  have "stays R (case p of None \<Rightarrow> raise PanicNilPointer | Some p \<Rightarrow>
      if \<not> HasDfsAccess p then ret () else bindF (tenant_of es en (svc_ID svc)) (\<lambda>t w. check (en_VerifyTenantMounts en t (server w)) w))" for p
    by (cases p) (auto intro!: stays_intros)
  then show ?thesis unfolding verifyTenantMounts_def by (intro stays_intros)
qed

lemma stays_assigned [stays_intros]: "stays R (endpoints_assigned es i eps)"
proof (induction eps)
  case (Cons ep eps)
  have "stays R (case as of None \<Rightarrow> raise ErrServiceMissingAssignment | Some x \<Rightarrow> endpoints_assigned es i eps)"
    for as :: "AddressAssignment option" using Cons by (cases as) (simp_all add: stays_intros)
  then show ?case using Cons by (auto intro!: stays_intros)
qed (simp add: stays_intros)

lemma stays_start [stays_intros]: "stays R (validateServiceStart es en svc)"
  unfolding validateServiceStart_def by (intro stays_intros)

lemma stays_add [stays_intros]: "stays R (validateServiceAdd es en svc)"
  unfolding validateServiceAdd_def by (intro stays_intros)

lemma stays_update [stays_intros]: "stays R (validateServiceUpdate es en svc)"
  unfolding validateServiceUpdate_def Let_def by (intro stays_intros)

end

text \<open>The steps that pass a service on to the coordinator.\<close>

locale env_relation = step_relation R es en for R :: "'s World \<Rightarrow> 's World \<Rightarrow> bool" and es and en +
  assumes update_step: "stays R (on_server (en_UpdateService en t svc lc lu))"
    and remove_step: "stays R (on_server (en_RemoveService en p i))"
    and configs_step: "stays R (on_server (en_writeConfigs en t path))"
    and get_step: "stays R (on_store (GetService es (en_sources en) i))"
    and state_step: "stays R (SetServicesCurrentState en cs ids)"
begin

lemmas env_steps [stays_intros] = update_step remove_step configs_step get_step state_step

lemma stays_configs [stays_intros]: "stays R (updateServiceConfigs es en i)"
  unfolding updateServiceConfigs_def by (intro stays_intros)

lemma stays_filled [stays_intros]: "stays R (filled_service es en i)"
  unfolding filled_service_def by (intro stays_intros)

lemma stays_sync [stays_intros]: "stays R (syncService es en t i lc lu)"
  unfolding syncService_def by (intro stays_intros)

lemma stays_leave [stays_intros]: "stays R (leave_pool es en t svc)"
  unfolding stays_def
proof (intro allI impI)
  fix w r w' assume l: "leave_pool es en t svc w = Some (r, w')"
  obtain r1 w1 where r1: "on_server (en_RemoveService en (svc_PoolID svc) (svc_ID svc)) w = Some (r1, w1)"
    using l by (auto simp: leave_pool_def split: option.splits)
  have "w' = w1 \<or> caught () (on_server (en_UpdateService en t (svc\<lparr>svc_DesiredState := SVCStop\<rparr>) False False)) w1 = Some (r, w')"
    using l r1 by (cases r1) (auto simp: leave_pool_def split: if_splits)
  then show "R w w'"
    using staysD [OF remove_step r1] staysD [OF stays_caught [OF update_step]] pre
    unfolding preorder_rel_def by metis
qed

text \<open>What follows the write of a service that is added or updated.\<close>

lemma after_add: "stays R (bindF (SetServicesCurrentState en SVCCSStopped [i]) (\<lambda>_.
    bindF (caught () (updateServiceConfigs es en i)) (\<lambda>_. syncService es en t i lk lk)))"
  by (intro stays_intros)

lemma after_update: "stays R (bindF (caught () (updateServiceConfigs es en (svc_ID svc1))) (\<lambda>_.
    bindF (if svc_PoolID cur \<noteq> svc_PoolID svc1 then leave_pool es en t cur else ret ()) (\<lambda>_. syncService es en t (svc_ID svc1) lk lk)))"
  by (intro stays_intros)

end

lemma same_lookup: "stays (same_services docs) (cached es en i)"
  using cached_store by (fastforce simp: stays_def same_services_def)

lemma same_eviction: "stays (same_services docs) (evict svc)"
  by (auto simp: stays_def evict_def same_services_def)

interpretation same: step_relation "same_services docs" es en for docs es en
  by unfold_locales (rule same_services_preorder same_lookup same_eviction)+

lemma same_current_state: "stays (same_services docs) (SetServicesCurrentState en cs ids)"
proof -
  have "st_db (fold (\<lambda>i st. UpdateCurrentState i cs (en_now en (st_db st)) st) ids st) = st_db st" for st
    by (induction ids arbitrary: st) (simp_all add: UpdateCurrentState_def)
  then show ?thesis by (auto simp: stays_def SetServicesCurrentState_def on_store_e_def same_services_def)
qed

text \<open>
  What the operations rely on besides the database: the coordinator, the configuration files
  and the image registry are not the documents of services and assignments.
\<close>

locale facade_env = address_sources es docs "en_sources en" for es :: "'s Elastic" and docs and en :: "'s Env" +
  assumes update_docs: "en_UpdateService en t svc lc lu s = (e, s') \<Longrightarrow> docs s' = docs s"
    and remove_docs: "en_RemoveService en p i s = (e, s') \<Longrightarrow> docs s' = docs s"
    and endpoints_docs: "en_RemoveServiceEndpoints en i s = (e, s') \<Longrightarrow> docs s' = docs s"
    and configs_docs: "en_writeConfigs en t p s = (e, s') \<Longrightarrow> docs s' = docs s"
    and image_docs: "en_CheckRemoveRegistryImage en svc s = (e, s') \<Longrightarrow> docs s' = docs s"
begin

lemma on_server_docs:
  "(\<And>s e s'. f s = (e, s') \<Longrightarrow> docs s' = docs s) \<Longrightarrow> on_server f w = Some (r, w') \<Longrightarrow>
     docs (server w') = docs (server w) \<and> w_paths w' = w_paths w \<and> st_cache (w_store w') = st_cache (w_store w)"
  by (auto simp: on_server_def on_store_e_def split: prod.splits)

lemma stays_on_server: "(\<And>s e s'. f s = (e, s') \<Longrightarrow> docs s' = docs s) \<Longrightarrow> stays (same_services docs) (on_server f)"
  using on_server_docs [of f] by (fastforce simp: stays_def same_services_def)

lemma stays_server [stays_intros]:
  "stays (same_services docs) (on_server (en_UpdateService en t svc lc lu))"
  "stays (same_services docs) (on_server (en_RemoveService en p i))"
  "stays (same_services docs) (on_server (en_RemoveServiceEndpoints en i))"
  "stays (same_services docs) (on_server (en_writeConfigs en t p))"
  "stays (same_services docs) (on_server (en_CheckRemoveRegistryImage en svc))"
  by (rule stays_on_server, erule update_docs remove_docs endpoints_docs configs_docs image_docs)+

lemma same_GetService: "stays (same_services docs) (on_store (GetService es (en_sources en) i))"
  using GetService_alters by (fastforce simp: stays_def on_store_def same_services_def alters_def only_assignments_def split: prod.splits)

lemma same_env: "env_relation (same_services docs) es en"
  by unfold_locales (rule stays_server same_GetService same_current_state)+

end

subsection \<open>What a write does\<close>

text \<open>No service has this name under this parent in this deployment. Searches strip white space.\<close>

definition name_free :: "services \<Rightarrow> Service \<Rightarrow> bool" where
  "name_free S svc \<longleftrightarrow>
     (trimmed (svc_DeploymentID svc) \<and> trimmed (svc_ParentServiceID svc) \<and> trimmed (svc_Name svc) \<longrightarrow>
      (\<forall>j b. S j = Some b \<longrightarrow> \<not> (svc_DeploymentID b = svc_DeploymentID svc \<and> svc_ParentServiceID b = svc_ParentServiceID svc \<and> svc_Name b = svc_Name svc)))"

context facade_env begin

lemma getS_ok: "getS es i w = Some (Inr svc, w') \<Longrightarrow> w' = w \<and> shown (docs (server w)) (st_cache (w_store w)) i = Some svc"
  using Get_shown by (auto simp: getS_def)

lemma shown_service: "shown (docs (server w)) c i = Some svc \<Longrightarrow> \<exists>raw. services_of docs w i = Some raw \<and> svc = fillAdditionalInfo c raw"
  by (auto simp: shown_def services_of_def)

lemma FindChildService_none:
  assumes "FindChildService es d p nm st = Inr None" "svc_DeploymentID svc = d" "svc_ParentServiceID svc = p" "svc_Name svc = nm"
  shows "name_free (doc_service (docs (st_db st))) svc"
  unfolding name_free_def
proof (intro impI allI notI)
  fix j b assume clean: "trimmed (svc_DeploymentID svc) \<and> trimmed (svc_ParentServiceID svc) \<and> trimmed (svc_Name svc)"
    and j: "doc_service (docs (st_db st)) j = Some b"
    and same: "svc_DeploymentID b = svc_DeploymentID svc \<and> svc_ParentServiceID b = svc_ParentServiceID svc \<and> svc_Name b = svc_Name svc"
  let ?ts = "[(''DeploymentID'', d), (''ParentServiceID'', p), (''Name'', nm)]"
  have "first_service es ?ts st = Inr None"
    using assms clean by (auto simp: FindChildService_def Let_def trimmed_TrimSpace split: if_splits)
  then have q: "service_query es ?ts 10 st = Inr []" by (auto simp: first_service_def split: sum.splits list.splits)
  have "shown (docs (st_db st)) (st_cache st) j = Some (fillAdditionalInfo (st_cache st) b)" using j by (simp add: shown_def)
  moreover have "doc_matches ?ts (ServiceDoc (fillAdditionalInfo (st_cache st) b))" using same assms(2-4) by simp
  ultimately show False using service_query_shown [OF q] by fastforce
qed

lemma validateServiceName_ok:
  assumes "validateServiceName es svc w = Some (Inr svc1, w')"
  shows "w' = w \<and> svc1 = svc\<lparr>svc_DeploymentID := svc_DeploymentID svc1\<rparr> \<and> name_free (services_of docs w) svc1 \<and>
    (if svc_ParentServiceID svc = '''' then svc1 = svc
     else \<exists>p. services_of docs w (svc_ParentServiceID svc) = Some p \<and> svc_DeploymentID svc1 = svc_DeploymentID p)"
proof -
  obtain svc' w1 where step: "(if svc_ParentServiceID svc \<noteq> '''' then
      bindF (getS es (svc_ParentServiceID svc)) (\<lambda>psvc. ret (svc\<lparr>svc_DeploymentID := svc_DeploymentID psvc\<rparr>)) else ret svc) w = Some (Inr svc', w1)"
    and find: "FindChildService es (svc_DeploymentID svc') (svc_ParentServiceID svc') (svc_Name svc') (w_store w1) = Inr None" "svc1 = svc'" "w' = w1"
    using assms by (auto simp: validateServiceName_def bindF_Inr split: option.splits)
  have "w1 = w \<and> svc' = svc\<lparr>svc_DeploymentID := svc_DeploymentID svc'\<rparr> \<and>
    (if svc_ParentServiceID svc = '''' then svc' = svc
     else \<exists>p. services_of docs w (svc_ParentServiceID svc) = Some p \<and> svc_DeploymentID svc' = svc_DeploymentID p)"
  proof (cases "svc_ParentServiceID svc = ''''")
    case False
    then obtain psvc where "getS es (svc_ParentServiceID svc) w = Some (Inr psvc, w1)" "svc' = svc\<lparr>svc_DeploymentID := svc_DeploymentID psvc\<rparr>"
      using step by (auto simp: bindF_Inr)
    then show ?thesis using getS_ok shown_service False by fastforce
  qed (use step in auto)
  then show ?thesis using find FindChildService_none [OF find(1) refl refl refl] by (auto simp: services_of_def)
qed

lemma validateServiceAdd_ok:
  assumes "validateServiceAdd es en svc w = Some (Inr svc1, w')"
  shows "w' = w \<and> services_of docs w (svc_ID svc) = None \<and> name_free (services_of docs w) svc1 \<and> svc_ID svc1 = svc_ID svc \<and>
    svc_ParentServiceID svc1 = svc_ParentServiceID svc \<and> svc_Name svc1 = svc_Name svc \<and> svc_DesiredState svc1 = SVCStop \<and>
    (svc_ParentServiceID svc = '''' \<or> services_of docs w (svc_ParentServiceID svc) \<noteq> None)"
proof -
  let ?exists = "case Service_Store.Get es (svc_ID svc) (w_store w) of Inl (NoSuchEntity k i) \<Rightarrow> Inr ()
      | Inl e \<Rightarrow> Inl (StoreError e) | Inr x \<Rightarrow> Inl ErrServiceExists"
  obtain svc0 w1 eps where e: "?exists = Inr ()" and nm: "validateServiceName es svc w = Some (Inr svc0, w1)"
    and svc1: "w' = w1" "svc1 = svc0\<lparr>svc_Endpoints := map_option (\<lambda>_. eps) (svc_Endpoints svc0), svc_DesiredState := SVCStop,
         svc_CurrentState := SVCCSStopped, svc_DatabaseVersion := 0\<rparr>"
    using assms by (auto simp: validateServiceAdd_def bindF_Inr)
  obtain k i where "Service_Store.Get es (svc_ID svc) (w_store w) = Inl (NoSuchEntity k i)"
    using e by (auto split: sum.splits ds_error.splits)
  from Get_missing [OF this] have "services_of docs w (svc_ID svc) = None" by (simp add: shown_def services_of_def)
  moreover note validateServiceName_ok [OF nm]
  moreover from this have "svc_ID svc0 = svc_ID svc \<and> svc_ParentServiceID svc0 = svc_ParentServiceID svc \<and> svc_Name svc0 = svc_Name svc"
    by (metis Service.simps(1,2,5) Service.surjective Service.update_convs(18))
  ultimately show ?thesis using svc1 by (auto simp: name_free_def split: if_splits)
qed

text \<open>A write of a service, whatever it returns.\<close>

lemma put_service_outcome:
  assumes "put_service es en svc w = Some (r, w')"
  shows "w_paths w' = w_paths w \<and>
    ((\<exists>n > 0. services_of docs w' = (services_of docs w)(svc_ID svc \<mapsto> svc\<lparr>svc_DatabaseVersion := n\<rparr>)) \<and> Service_ValidEntity svc = [] \<or>
     (\<forall>u. r \<noteq> Inr u) \<and> services_of docs w' = services_of docs w) \<and> (db_ok (docs (server w)) \<longrightarrow> db_ok (docs (server w')))"
proof -
  obtain e st' where p: "Put es svc (en_now en (server w)) (w_store w) = (e, st')" "w' = w\<lparr>w_store := st'\<rparr>" "r = (case e of None \<Rightarrow> Inr () | Some x \<Rightarrow> Inl (StoreError x))"
    using assms by (auto simp: put_service_def on_store_e_def split: prod.splits option.splits)
  show ?thesis
  proof (cases e)
    case None
    then show ?thesis using Put_ok [OF p(1) [unfolded None]] p(2) doc_service_upd(1) db_ok_upd(1) by (auto simp: services_of_def)
  next
    case (Some x)
    then show ?thesis using Put_any [OF p(1) [unfolded Some]] p(2,3) doc_service_upd(1) db_ok_upd(1) by (auto simp: services_of_def)
  qed
qed

lemma put_service_written:
  assumes "put_service es en svc w = Some (r, w')"
  obtains (written) n where "services_of docs w' = (services_of docs w)(svc_ID svc \<mapsto> svc\<lparr>svc_DatabaseVersion := n\<rparr>)"
    | (failed) "services_of docs w' = services_of docs w" "\<forall>u. r \<noteq> Inr u"
  using put_service_outcome [OF assms] by (elim conjE disjE exE) (rule written, assumption, rule failed, assumption+)

end

text \<open>The deployment in which an update looks for the name is the one that is stored.\<close>

definition same_deployment :: "services \<Rightarrow> Service \<Rightarrow> bool" where
  "same_deployment S svc \<longleftrightarrow> (\<forall>cur. S (svc_ID svc) = Some cur \<longrightarrow>
     (if svc_ParentServiceID svc = '''' then svc_DeploymentID svc = svc_DeploymentID cur
      else \<forall>p. S (svc_ParentServiceID svc) = Some p \<longrightarrow> svc_DeploymentID p = svc_DeploymentID cur))"

context facade_env begin

lemma addService_outcome:
  assumes "addService es en t svc lk w = Some (r, w')"
  shows "services_of docs w' = services_of docs w \<or>
    (\<exists>svc1 n. services_of docs w' = (services_of docs w)(svc_ID svc \<mapsto> svc1\<lparr>svc_DatabaseVersion := n\<rparr>) \<and> services_of docs w (svc_ID svc) = None \<and>
       name_free (services_of docs w) svc1 \<and> svc_ID svc1 = svc_ID svc \<and> svc_ParentServiceID svc1 = svc_ParentServiceID svc)"
  using assms unfolding addService_def
proof (cases rule: bindF_cases)
  case (err e)
  then show ?thesis using staysD [OF same.stays_add err(1)] same_services_of by blast
next
  case (ok svc1 w1)
  have v: "w1 = w" using validateServiceAdd_ok [OF ok(1)] by simp
  from ok(2) obtain r2 w2 where put: "put_service es en svc1 w1 = Some (r2, w2)" and rest: "same_services docs w2 w'"
  proof (cases rule: bindF_cases)
    case (err e)
    show ?thesis by (rule that [OF err(1)]) (simp add: same_services_def)
  next
    case (ok u w2)
    show ?thesis by (rule that [OF ok(1) staysD [OF env_relation.after_add [OF same_env] ok(2)]])
  qed
  have add: "services_of docs w (svc_ID svc) = None" "name_free (services_of docs w) svc1" "svc_ID svc1 = svc_ID svc"
      "svc_ParentServiceID svc1 = svc_ParentServiceID svc"
    using validateServiceAdd_ok [OF ok(1)] by simp_all
  from put show ?thesis unfolding v
  proof (cases rule: put_service_written)
    case (written n)
    then have "services_of docs w' = (services_of docs w)(svc_ID svc \<mapsto> svc1\<lparr>svc_DatabaseVersion := n\<rparr>)"
      using same_services_of [OF rest] add(3) by simp
    then show ?thesis using add by blast
  qed (use same_services_of [OF rest] in simp)
qed

lemma updated_of_name:
  assumes "getS es (svc_ID svc) w = Some (Inr cur, w0)"
    and "(if svc_ParentServiceID svc \<noteq> svc_ParentServiceID cur \<or> svc_Name svc \<noteq> svc_Name cur then
            bindF (if svc_ParentServiceID svc \<noteq> svc_ParentServiceID cur
                   then validateServiceTenant es en (svc_ParentServiceID svc) (svc_ID svc) else ret ()) (\<lambda>_.
            bindF (validateServiceName es svc) (\<lambda>svc1. bindF (evict svc) (\<lambda>_. ret svc1)))
          else ret svc) w0 = Some (Inr svc1, w1)"
    and "same_deployment (services_of docs w) svc"
  shows "svc1 = svc\<lparr>svc_DeploymentID := svc_DeploymentID svc1\<rparr> \<and>
    (\<exists>raw. services_of docs w (svc_ID svc) = Some raw \<and> svc_DeploymentID cur = svc_DeploymentID raw \<and>
       (name_free (services_of docs w) (svc1\<lparr>svc_DeploymentID := svc_DeploymentID cur\<rparr>) \<or>
        svc_ParentServiceID svc = svc_ParentServiceID raw \<and> svc_Name svc = svc_Name raw))"
proof -
  obtain raw where raw: "services_of docs w (svc_ID svc) = Some raw" "cur = fillAdditionalInfo (st_cache (w_store w)) raw"
    using getS_ok [OF assms(1)] shown_service by blast
  show ?thesis
  proof (cases "svc_ParentServiceID svc \<noteq> svc_ParentServiceID cur \<or> svc_Name svc \<noteq> svc_Name cur")
    case True
    then obtain u w2 where t: "(if svc_ParentServiceID svc \<noteq> svc_ParentServiceID cur
                   then validateServiceTenant es en (svc_ParentServiceID svc) (svc_ID svc) else ret ()) w0 = Some (Inr u, w2)"
        and nm: "validateServiceName es svc w2 = Some (Inr svc1, w2)"
      using assms(2) validateServiceName_ok by (fastforce simp: bindF_Inr)
    have "stays (same_services docs) (if svc_ParentServiceID svc \<noteq> svc_ParentServiceID cur
                   then validateServiceTenant es en (svc_ParentServiceID svc) (svc_ID svc) else ret ())" by (intro stays_intros)
    from staysD [OF this t] have S: "services_of docs w2 = services_of docs w" using same_services_of getS_ok [OF assms(1)] by simp
    note n = validateServiceName_ok [OF nm, unfolded S]
    have "svc_DeploymentID svc1 = svc_DeploymentID raw"
      using n assms(3) raw by (auto simp: same_deployment_def split: if_splits)
    then have "svc1\<lparr>svc_DeploymentID := svc_DeploymentID cur\<rparr> = svc1" using raw(2) by simp
    then show ?thesis using n raw by simp
  next
    case False
    then show ?thesis using assms(2) raw by auto
  qed
qed

text \<open>A validation that succeeds, and where it leaves the world.\<close>

lemma validateServiceUpdate_steps:
  assumes "validateServiceUpdate es en svc w = Some (Inr (cur, svc1), w')"
  obtains cur0 w0 svc0 w1 where "getS es (svc_ID svc) w = Some (Inr cur0, w0)"
    "(if svc_ParentServiceID svc \<noteq> svc_ParentServiceID cur0 \<or> svc_Name svc \<noteq> svc_Name cur0 then
        bindF (if svc_ParentServiceID svc \<noteq> svc_ParentServiceID cur0
               then validateServiceTenant es en (svc_ParentServiceID svc) (svc_ID svc) else ret ()) (\<lambda>_.
        bindF (validateServiceName es svc) (\<lambda>svc1. bindF (evict svc) (\<lambda>_. ret svc1)))
      else ret svc) w0 = Some (Inr svc0, w1)"
    "svc1 = svc0\<lparr>svc_DeploymentID := svc_DeploymentID cur0\<rparr> \<or>
       svc1 = svc0\<lparr>svc_DeploymentID := svc_DeploymentID cur0, svc_DesiredState := SVCStop\<rparr>"
    "svc_DesiredState svc0 = SVCStop \<longrightarrow> w' = w1"
proof -
  obtain cur0 w0 svc0 w1 w2 w3 u2 u3 where g: "getS es (svc_ID svc) w = Some (Inr cur0, w0)"
    and n: "(if svc_ParentServiceID svc \<noteq> svc_ParentServiceID cur0 \<or> svc_Name svc \<noteq> svc_Name cur0 then
            bindF (if svc_ParentServiceID svc \<noteq> svc_ParentServiceID cur0
                   then validateServiceTenant es en (svc_ParentServiceID svc) (svc_ID svc) else ret ()) (\<lambda>_.
            bindF (validateServiceName es svc) (\<lambda>svc1. bindF (evict svc) (\<lambda>_. ret svc1)))
          else ret svc) w0 = Some (Inr svc0, w1)"
    and c: "check (endpoints_free en (svc_ID svc0) (endpoints svc0) (server w1)) w1 = Some (Inr u2, w2)"
      "check (validateServiceOptions (svc0\<lparr>svc_DeploymentID := svc_DeploymentID cur0\<rparr>)) w2 = Some (Inr u3, w3)"
    and last: "(if svc_DesiredState (svc0\<lparr>svc_DeploymentID := svc_DeploymentID cur0\<rparr>) \<noteq> SVCStop
      then caught (cur0, svc0\<lparr>svc_DeploymentID := svc_DeploymentID cur0, svc_DesiredState := SVCStop\<rparr>)
             (bindF (validateServiceStart es en (svc0\<lparr>svc_DeploymentID := svc_DeploymentID cur0\<rparr>)) (\<lambda>_. ret (cur0, svc0\<lparr>svc_DeploymentID := svc_DeploymentID cur0\<rparr>)))
      else ret (cur0, svc0\<lparr>svc_DeploymentID := svc_DeploymentID cur0\<rparr>)) w3 = Some (Inr (cur, svc1), w')"
    using assms unfolding validateServiceUpdate_def Let_def bindF_Inr by blast
  have "w3 = w1" using c by simp
  then have "(svc1 = svc0\<lparr>svc_DeploymentID := svc_DeploymentID cur0\<rparr> \<or>
     svc1 = svc0\<lparr>svc_DeploymentID := svc_DeploymentID cur0, svc_DesiredState := SVCStop\<rparr>) \<and> (svc_DesiredState svc0 = SVCStop \<longrightarrow> w' = w1)"
    using last by (cases "svc_DesiredState svc0 = SVCStop") (auto simp: caught_Inr bindF_Inr)
  with g n show thesis using that by blast
qed

lemma validateServiceUpdate_ok:
  assumes "validateServiceUpdate es en svc w = Some (Inr (cur, svc1), w')" "same_deployment (services_of docs w) svc"
  shows "\<exists>raw. services_of docs w (svc_ID svc) = Some raw \<and> svc_ID svc1 = svc_ID svc \<and> svc_DeploymentID svc1 = svc_DeploymentID raw \<and>
    svc_ParentServiceID svc1 = svc_ParentServiceID svc \<and> svc_Name svc1 = svc_Name svc \<and>
    (name_free (services_of docs w) svc1 \<or> svc_ParentServiceID svc = svc_ParentServiceID raw \<and> svc_Name svc = svc_Name raw)"
proof -
  from assms(1) obtain cur0 w0 svc0 w1 where g: "getS es (svc_ID svc) w = Some (Inr cur0, w0)"
    and n: "(if svc_ParentServiceID svc \<noteq> svc_ParentServiceID cur0 \<or> svc_Name svc \<noteq> svc_Name cur0 then
            bindF (if svc_ParentServiceID svc \<noteq> svc_ParentServiceID cur0
                   then validateServiceTenant es en (svc_ParentServiceID svc) (svc_ID svc) else ret ()) (\<lambda>_.
            bindF (validateServiceName es svc) (\<lambda>svc1. bindF (evict svc) (\<lambda>_. ret svc1)))
          else ret svc) w0 = Some (Inr svc0, w1)"
    and svc1: "svc1 = svc0\<lparr>svc_DeploymentID := svc_DeploymentID cur0\<rparr> \<or>
       svc1 = svc0\<lparr>svc_DeploymentID := svc_DeploymentID cur0, svc_DesiredState := SVCStop\<rparr>"
    using that by (rule validateServiceUpdate_steps)
  note up = updated_of_name [OF g n assms(2)]
  then obtain d where d: "svc0 = svc\<lparr>svc_DeploymentID := d\<rparr>" by blast
  have free: "name_free S (x\<lparr>svc_DesiredState := ds\<rparr>) = name_free S x" for S x ds by (simp add: name_free_def)
  show ?thesis using up svc1 free unfolding d by auto
qed

end


context facade_env begin

lemma updateService_outcome:
  assumes "updateService es en t svc lk w = Some (r, w')" "same_deployment (services_of docs w) svc"
  shows "services_of docs w' = services_of docs w \<or>
    (\<exists>raw svc1 n. services_of docs w' = (services_of docs w)(svc_ID svc \<mapsto> svc1\<lparr>svc_DatabaseVersion := n\<rparr>) \<and>
       services_of docs w (svc_ID svc) = Some raw \<and> svc_DeploymentID svc1 = svc_DeploymentID raw \<and>
       svc_ParentServiceID svc1 = svc_ParentServiceID svc \<and> svc_Name svc1 = svc_Name svc \<and>
       (name_free (services_of docs w) svc1 \<or> svc_ParentServiceID svc = svc_ParentServiceID raw \<and> svc_Name svc = svc_Name raw))"
  using assms(1) unfolding updateService_def
proof (cases rule: bindF_cases)
  case (err e)
  then show ?thesis using same_services_of [OF staysD [OF same.stays_update err(1)]] by simp
next
  case (ok x w1)
  obtain cur svc1 where x: "x = (cur, svc1)" by fastforce
  from ok(1) have val: "validateServiceUpdate es en svc w = Some (Inr (cur, svc1), w1)" by (simp only: x)
  have S: "services_of docs w1 = services_of docs w" by (rule same_services_of [OF staysD [OF same.stays_update val]])
  from ok(2) have "bindF (put_service es en svc1) (\<lambda>_. bindF (caught () (updateServiceConfigs es en (svc_ID svc1))) (\<lambda>_.
      bindF (if svc_PoolID cur \<noteq> svc_PoolID svc1 then leave_pool es en t cur else ret ()) (\<lambda>_. syncService es en t (svc_ID svc1) lk lk))) w1 = Some (r, w')"
    by (simp only: x prod.case)
  then obtain r2 w2 where put: "put_service es en svc1 w1 = Some (r2, w2)" and rest: "same_services docs w2 w'"
  proof (cases rule: bindF_cases)
    case (err e)
    show ?thesis by (rule that [OF err(1)]) (simp add: same_services_def)
  next
    case (ok u w2)
    show ?thesis by (rule that [OF ok(1) staysD [OF env_relation.after_update [OF same_env] ok(2)]])
  qed
  obtain raw where up: "services_of docs w (svc_ID svc) = Some raw" "svc_ID svc1 = svc_ID svc" "svc_DeploymentID svc1 = svc_DeploymentID raw"
      "svc_ParentServiceID svc1 = svc_ParentServiceID svc" "svc_Name svc1 = svc_Name svc"
      "name_free (services_of docs w) svc1 \<or> svc_ParentServiceID svc = svc_ParentServiceID raw \<and> svc_Name svc = svc_Name raw"
    using validateServiceUpdate_ok [OF val assms(2)] by (elim exE conjE)
  from put show ?thesis
  proof (cases rule: put_service_written)
    case (written n)
    then have upd: "services_of docs w' = (services_of docs w)(svc_ID svc \<mapsto> svc1\<lparr>svc_DatabaseVersion := n\<rparr>)"
      by (simp add: same_services_of [OF rest] up(2) S)
    show ?thesis by (rule disjI2, rule exI [of _ raw], rule exI [of _ svc1], rule exI [of _ n], intro conjI) (fact upd up)+
  next
    case failed
    then show ?thesis by (simp add: same_services_of [OF rest] S)
  qed
qed

end

subsection \<open>Names\<close>

text \<open>Services with a parent and a deployment in common have different names.\<close>

definition names_distinct :: "services \<Rightarrow> bool" where
  "names_distinct S \<longleftrightarrow> (\<forall>i j a b. S i = Some a \<and> S j = Some b \<and> i \<noteq> j \<and>
     trimmed (svc_DeploymentID a) \<and> trimmed (svc_ParentServiceID a) \<and> trimmed (svc_Name a) \<longrightarrow>
     \<not> (svc_DeploymentID b = svc_DeploymentID a \<and> svc_ParentServiceID b = svc_ParentServiceID a \<and> svc_Name b = svc_Name a))"

lemma names_distinct_less: "names_distinct S \<Longrightarrow> S' \<subseteq>\<^sub>m S \<Longrightarrow> names_distinct S'"
  unfolding names_distinct_def map_le_def dom_def by (metis (mono_tags, lifting) mem_Collect_eq option.distinct(1))

lemma names_distinct_write:
  assumes "names_distinct S"
    and "name_free S svc \<or> (\<exists>raw. S i = Some raw \<and> svc_DeploymentID svc = svc_DeploymentID raw \<and>
           svc_ParentServiceID svc = svc_ParentServiceID raw \<and> svc_Name svc = svc_Name raw)"
  shows "names_distinct (S(i \<mapsto> svc\<lparr>svc_DatabaseVersion := n\<rparr>))"
proof -
  let ?key = "\<lambda>a. (svc_DeploymentID a, svc_ParentServiceID a, svc_Name a)"
  let ?clean = "\<lambda>a. trimmed (svc_DeploymentID a) \<and> trimmed (svc_ParentServiceID a) \<and> trimmed (svc_Name a)"
  let ?new = "svc\<lparr>svc_DatabaseVersion := n\<rparr>"
  have other: "?key b \<noteq> ?key svc" if "S j = Some b" "j \<noteq> i" "?clean svc" for j b
    using assms(2)
  proof
    assume "name_free S svc"
    then show ?thesis using that(1,3) by (auto simp: name_free_def)
  next
    assume "\<exists>raw. S i = Some raw \<and> svc_DeploymentID svc = svc_DeploymentID raw \<and>
           svc_ParentServiceID svc = svc_ParentServiceID raw \<and> svc_Name svc = svc_Name raw"
    then obtain raw where raw: "S i = Some raw" "svc_DeploymentID svc = svc_DeploymentID raw"
        "svc_ParentServiceID svc = svc_ParentServiceID raw" "svc_Name svc = svc_Name raw" by (elim exE conjE)
    have "\<not> (svc_DeploymentID b = svc_DeploymentID raw \<and> svc_ParentServiceID b = svc_ParentServiceID raw \<and> svc_Name b = svc_Name raw)"
      using assms(1)[unfolded names_distinct_def, rule_format, of i raw j b] raw that by simp
    then show ?thesis using raw by simp
  qed
  show ?thesis unfolding names_distinct_def
  proof (intro allI impI)
    fix j k a b
    assume h: "(S(i \<mapsto> ?new)) j = Some a \<and> (S(i \<mapsto> ?new)) k = Some b \<and> j \<noteq> k \<and> ?clean a"
    show "\<not> (svc_DeploymentID b = svc_DeploymentID a \<and> svc_ParentServiceID b = svc_ParentServiceID a \<and> svc_Name b = svc_Name a)"
    proof (cases "j = i")
      case True
      then have "a = ?new" "S k = Some b" "k \<noteq> i" using h by auto
      then show ?thesis using other [of k b] h by auto
    next
      case j: False
      then have a: "S j = Some a" using h by simp
      show ?thesis
      proof (cases "k = i")
        case True
        then have "b = ?new" using h by simp
        then show ?thesis using other [OF a j] h by auto
      next
        case False
        then have "S k = Some b" using h by simp
        then show ?thesis using assms(1)[unfolded names_distinct_def, rule_format, of j a k b] a h by simp
      qed
    qed
  qed
qed

text \<open>The requests of clients, one after the other, and everything that leaves the services alone.\<close>

inductive facade_step :: "('s \<Rightarrow> docmap) \<Rightarrow> 's Elastic \<Rightarrow> 's Env \<Rightarrow> 's World \<Rightarrow> 's World \<Rightarrow> bool" for docs es en where
  add: "AddService es en svc w = Some (r, w') \<Longrightarrow> facade_step docs es en w w'"
| update: "UpdateService es en svc w = Some (r, w') \<Longrightarrow> same_deployment (services_of docs w) svc \<Longrightarrow> facade_step docs es en w w'"
| remove: "removeService es en i w = Some (e, w') \<Longrightarrow> facade_step docs es en w w'"
| other: "same_services docs w w' \<Longrightarrow> facade_step docs es en w w'"

definition fewer_services :: "('s \<Rightarrow> docmap) \<Rightarrow> 's World \<Rightarrow> 's World \<Rightarrow> bool" where
  "fewer_services docs w w' \<longleftrightarrow> services_of docs w' \<subseteq>\<^sub>m services_of docs w"

lemma fewer_preorder: "preorder_rel (fewer_services docs)"
  by (auto simp: preorder_rel_def fewer_services_def intro: map_le_trans)

lemma stays_same_fewer: "stays (same_services docs) m \<Longrightarrow> stays (fewer_services docs) m"
  using same_services_of by (fastforce simp: stays_def fewer_services_def)

lemma visit_stays: "visit m w = (e, w') \<Longrightarrow> preorder_rel R \<Longrightarrow> stays R m \<Longrightarrow> R w w'"
  by (auto simp: visit_def stays_def preorder_rel_def split: option.splits sum.splits prod.splits)

context facade_env begin

lemma remove_assignments_alters: "remove_assignments es i eps st = (e, st') \<Longrightarrow> alters docs st st'"
proof (induction eps arbitrary: st)
  case (Cons ep eps)
  show ?case
  proof (cases "FindAssignmentByServiceEndpoint es i (ep_Name ep) (st_db st)")
    case (Inr r)
    show ?thesis
    proof (cases r)
      case (Some a)
      obtain e1 st1 where r: "RemoveAddressAssignment es (aa_ID a) st = (e1, st1)" by fastforce
      then have 1: "alters docs st st1" using remove_changes by (simp add: alters_def)
      have "st' = st1 \<or> remove_assignments es i eps st1 = (e, st')" using Cons.prems Inr Some r by (cases e1) auto
      then show ?thesis using Cons.IH [of st1] 1 alters_trans [OF 1, of st'] by fast
    qed (use Cons Inr in simp)
  qed (use Cons in simp)
qed simp

lemma stays_remove_assignments [stays_intros]: "stays (same_services docs) (on_store_e (remove_assignments es i eps))"
  using remove_assignments_alters
  by (fastforce simp: stays_def on_store_e_def same_services_def alters_def only_assignments_def split: prod.splits)

abbreviation delete_service :: "string \<Rightarrow> ('s World, unit) act" where
  "delete_service i \<equiv> on_store_e (\<lambda>st. case Service_Store.Delete es i st of (e, st') \<Rightarrow> (map_option StoreError e, st'))"

lemma delete_service_services:
  assumes "delete_service i w = Some (r, w')"
  shows "(\<forall>u. r \<noteq> Inr u) \<and> services_of docs w' = services_of docs w \<or> services_of docs w' = (services_of docs w)(i := None)"
proof -
  obtain e st' where p: "Service_Store.Delete es i (w_store w) = (e, st')" "w' = w\<lparr>w_store := st'\<rparr>"
      "r = (case e of None \<Rightarrow> Inr () | Some x \<Rightarrow> Inl (StoreError x))"
    using assms by (auto simp: on_store_e_def split: prod.splits option.splits)
  show ?thesis
  proof (cases e)
    case None
    then show ?thesis using Delete_ok [OF p(1) [unfolded None]] p(2) doc_service_upd(2) by (auto simp: services_of_def)
  next
    case (Some x)
    then show ?thesis using Delete_any [OF p(1) [unfolded Some]] p(2,3) doc_service_upd(2) by (auto simp: services_of_def)
  qed
qed

lemma delete_service_fewer: "stays (fewer_services docs) (delete_service i)"
  unfolding stays_def
proof (intro allI impI)
  fix w r w' assume "delete_service i w = Some (r, w')"
  then show "fewer_services docs w w'"
    using delete_service_services by (fastforce simp: fewer_services_def map_le_def)
qed

lemma remove_visit_fewer: "remove_visit es en svc w = (e, w') \<Longrightarrow> fewer_services docs w w'"
  unfolding remove_visit_def
  by (erule visit_stays [OF _ fewer_preorder], rule stays_bindF [OF fewer_preorder stays_same_fewer],
      rule stays_remove_assignments, rule stays_bindF [OF fewer_preorder stays_same_fewer], rule stays_server,
      rule stays_bindF [OF fewer_preorder stays_same_fewer], rule stays_server,
      rule stays_bindF [OF fewer_preorder delete_service_fewer], rule stays_same_fewer, intro stays_intros)

lemma removeService_fewer:
  assumes "removeService es en i w = Some (e, w')"
  shows "fewer_services docs w w'"
proof (rule Walk_related [OF _ _ _ assms [unfolded removeService_def walkServices_def]])
  show "fewer_services docs w w'" if "remove_visit es en svc w = (e, w')" for svc w e w'
    by (rule remove_visit_fewer [OF that])
qed (auto simp: fewer_services_def intro: map_le_trans)

lemma tenant_services: "tenant_of es en i w = Some (r, w') \<Longrightarrow> services_of docs w' = services_of docs w"
  by (rule same_services_of [OF staysD [OF same.stays_tenant]])

lemma facade_step_names:
  assumes "facade_step docs es en w w'" "names_distinct (services_of docs w)"
  shows "names_distinct (services_of docs w')"
  using assms(1)
proof cases
  case (add svc r)
  from add show ?thesis unfolding AddService_def
  proof (cases rule: bindF_cases)
    case (err e)
    have "stays (same_services docs) (if svc_ParentServiceID svc = '''' then ret (svc_ID svc) else tenant_of es en (svc_ParentServiceID svc))"
      by (intro stays_intros)
    from same_services_of [OF staysD [OF this err(1)]] show ?thesis using assms(2) by simp
  next
    case (ok t w1)
    have "stays (same_services docs) (if svc_ParentServiceID svc = '''' then ret (svc_ID svc) else tenant_of es en (svc_ParentServiceID svc))"
      by (intro stays_intros)
    from same_services_of [OF staysD [OF this ok(1)]] have S: "services_of docs w1 = services_of docs w" .
    from addService_outcome [OF ok(2)] show ?thesis unfolding S
      using names_distinct_write [OF assms(2) disjI1] assms(2) by (elim disjE exE conjE) (simp_all only:)
  qed
next
  case (update svc r)
  from update(1) show ?thesis unfolding UpdateService_def
  proof (cases rule: bindF_cases)
    case (err e)
    then show ?thesis using tenant_services [OF err(1)] assms(2) by simp
  next
    case (ok t w1)
    note S = tenant_services [OF ok(1)]
    from updateService_outcome [OF ok(2)] update(2) have
      "services_of docs w' = services_of docs w \<or>
       (\<exists>raw svc1 n. services_of docs w' = (services_of docs w)(svc_ID svc \<mapsto> svc1\<lparr>svc_DatabaseVersion := n\<rparr>) \<and>
         services_of docs w (svc_ID svc) = Some raw \<and> svc_DeploymentID svc1 = svc_DeploymentID raw \<and>
         svc_ParentServiceID svc1 = svc_ParentServiceID svc \<and> svc_Name svc1 = svc_Name svc \<and>
         (name_free (services_of docs w) svc1 \<or> svc_ParentServiceID svc = svc_ParentServiceID raw \<and> svc_Name svc = svc_Name raw))"
      by (simp only: S)
    then show ?thesis
    proof
      assume "\<exists>raw svc1 n. services_of docs w' = (services_of docs w)(svc_ID svc \<mapsto> svc1\<lparr>svc_DatabaseVersion := n\<rparr>) \<and>
         services_of docs w (svc_ID svc) = Some raw \<and> svc_DeploymentID svc1 = svc_DeploymentID raw \<and>
         svc_ParentServiceID svc1 = svc_ParentServiceID svc \<and> svc_Name svc1 = svc_Name svc \<and>
         (name_free (services_of docs w) svc1 \<or> svc_ParentServiceID svc = svc_ParentServiceID raw \<and> svc_Name svc = svc_Name raw)"
      then obtain raw svc1 n where u: "services_of docs w' = (services_of docs w)(svc_ID svc \<mapsto> svc1\<lparr>svc_DatabaseVersion := n\<rparr>)"
        and raw: "services_of docs w (svc_ID svc) = Some raw" "svc_DeploymentID svc1 = svc_DeploymentID raw"
          "svc_ParentServiceID svc1 = svc_ParentServiceID svc" "svc_Name svc1 = svc_Name svc"
        and f: "name_free (services_of docs w) svc1 \<or> svc_ParentServiceID svc = svc_ParentServiceID raw \<and> svc_Name svc = svc_Name raw"
        by (elim exE conjE)
      have "name_free (services_of docs w) svc1 \<or> (\<exists>raw. services_of docs w (svc_ID svc) = Some raw \<and>
          svc_DeploymentID svc1 = svc_DeploymentID raw \<and> svc_ParentServiceID svc1 = svc_ParentServiceID raw \<and> svc_Name svc1 = svc_Name raw)"
        using f raw by auto
      from names_distinct_write [OF assms(2) this] show ?thesis unfolding u .
    qed (use assms(2) in simp)
  qed
next
  case (remove i e)
  then show ?thesis using removeService_fewer names_distinct_less [OF assms(2)] by (fastforce simp: fewer_services_def)
next
  case other
  then show ?thesis using same_services_of assms(2) by metis
qed

end

subsection \<open>Walks that remove\<close>

text \<open>The ids of a service and of everything below it, and the tree without them.\<close>

definition branch :: "services \<Rightarrow> string \<Rightarrow> string set" where
  "branch T i = {j. (child_of T)\<^sup>*\<^sup>* j i}"

definition without :: "services \<Rightarrow> string set \<Rightarrow> services" where
  "without T D = T |` (- D)"

lemma without_app: "without T D j = (if j \<in> D then None else T j)"
  by (simp add: without_def)

lemma without_empty [simp]: "without T {} = T"
  by (simp add: fun_eq_iff without_app)

lemma without_without: "without (without T D) E = without T (D \<union> E)"
  by (auto simp: fun_eq_iff without_app)

definition downward :: "services \<Rightarrow> string set \<Rightarrow> bool" where
  "downward T D \<longleftrightarrow> (\<forall>j p. child_of T j p \<longrightarrow> p \<in> D \<longrightarrow> j \<in> D)"

lemma branch_downward: "downward T (branch T i)"
  by (auto simp: downward_def branch_def)

lemma branch_without:
  assumes "downward T D"
  shows "D \<union> branch (without T D) i = D \<union> branch T i"
proof -
  have "(child_of T)\<^sup>*\<^sup>* j i" if "(child_of (without T D))\<^sup>*\<^sup>* j i" for j
    using that by (rule rtranclp_mono [THEN predicate2D, rotated]) (auto simp: child_of_def without_app split: if_splits)
  moreover have "j \<in> D \<or> (child_of (without T D))\<^sup>*\<^sup>* j i" if "(child_of T)\<^sup>*\<^sup>* j i" for j
    using that
  proof (induction rule: converse_rtranclp_induct)
    case (step j k)
    show ?case
    proof (cases "j \<in> D")
      case False
      then have jk: "child_of (without T D) j k" "k \<notin> D" using step(1) assms by (auto simp: child_of_def downward_def without_app)
      then have "(child_of (without T D))\<^sup>*\<^sup>* k i" using step.IH by simp
      with jk(1) show ?thesis by (intro disjI2) (rule converse_rtranclp_into_rtranclp)
    qed simp
  qed simp
  ultimately show ?thesis by (auto simp: branch_def)
qed

lemma branch_children:
  assumes "tree_ids T" "i \<noteq> ''''"
  shows "branch T i = insert i (\<Union>c \<in> children T i. branch T (svc_ID c))"
proof -
  have "\<exists>c \<in> children T i. (child_of T)\<^sup>*\<^sup>* j (svc_ID c)" if j: "(child_of T)\<^sup>*\<^sup>* j i" and ne: "j \<noteq> i" for j
    using j
  proof (cases rule: rtranclp.cases)
    case (rtrancl_into_rtrancl k)
    then obtain c where "c \<in> children T i" "svc_ID c = k" using child_children [OF assms(1)] by blast
    then show ?thesis using rtrancl_into_rtrancl(1) by blast
  qed (use ne in simp)
  moreover have "(child_of T)\<^sup>*\<^sup>* j i" if "c \<in> children T i" "(child_of T)\<^sup>*\<^sup>* j (svc_ID c)" for j c
    using that children_ids [OF assms(1) that(1) assms(2)] by simp
  ultimately show ?thesis by (auto simp: branch_def)
qed

context service_reads begin

definition removes :: "(Service \<Rightarrow> 's \<Rightarrow> facade_error option \<times> 's) \<Rightarrow> bool" where
  "removes visitFn \<longleftrightarrow> (\<forall>svc s s'. readable s \<longrightarrow> visitFn svc s = (None, s') \<longrightarrow>
     readable s' \<and> T s' = (T s)(svc_ID svc := None))"

lemma Walk_children_removes:
  assumes "\<And>i s s'. walk n v i s = Some (None, s') \<Longrightarrow> readable s \<Longrightarrow> trimmed i \<Longrightarrow> readable s' \<and> T s' = without (T s) (branch (T s) i)"
  shows "walk_children n v cs s = Some (None, s') \<Longrightarrow> readable s \<Longrightarrow> \<forall>c \<in> set cs. trimmed (svc_ID c) \<Longrightarrow>
    readable s' \<and> T s' = without (T s) (\<Union>c \<in> set cs. branch (T s) (svc_ID c))"
proof (induction cs arbitrary: s)
  case Nil
  then show ?case by simp
next
  case (Cons c cs)
  obtain s1 where w: "walk n v (svc_ID c) s = Some (None, s1)" "walk_children n v cs s1 = Some (None, s')"
    using Cons.prems(1) by (auto split: option.splits)
  let ?D = "branch (T s) (svc_ID c)"
  have 1: "readable s1" "T s1 = without (T s) ?D" using assms [OF w(1) Cons.prems(2)] Cons.prems(3) by simp_all
  have "readable s' \<and> T s' = without (T s1) (\<Union>c \<in> set cs. branch (T s1) (svc_ID c))"
    using Cons.IH [OF w(2) 1(1)] Cons.prems(3) by simp
  moreover have "?D \<union> (\<Union>c \<in> set cs. branch (T s1) (svc_ID c)) = ?D \<union> (\<Union>c \<in> set cs. branch (T s) (svc_ID c))"
    using branch_without [OF branch_downward, of "T s" "svc_ID c"] unfolding 1(2) by blast
  ultimately show ?case unfolding 1(2) without_without by simp
qed

lemma Walk_removes:
  assumes "removes v"
  shows "walk n v i s = Some (None, s') \<Longrightarrow> readable s \<Longrightarrow> trimmed i \<Longrightarrow> readable s' \<and> T s' = without (T s) (branch (T s) i)"
proof (induction n arbitrary: i s s')
  case (Suc n)
  obtain cs s1 svc where w: "getChildren i s = Inr cs" "walk_children n v cs s = Some (None, s1)" "getService i s1 = Inr svc" "v svc s1 = (None, s')"
    using Suc.prems(1) by (auto split: sum.splits option.splits)
  have cs: "set cs = children (T s) i" using children_read [OF Suc.prems(2,3) w(1)] by simp
  have "\<forall>c \<in> set cs. trimmed (svc_ID c)" using ids [OF Suc.prems(2)] unfolding cs children_def by blast
  from Walk_children_removes [OF Suc.IH w(2) Suc.prems(2) this]
  have 1: "readable s1" "T s1 = without (T s) (\<Union>c \<in> children (T s) i. branch (T s) (svc_ID c))" unfolding cs by simp_all
  have "T s1 i = Some svc" by (rule get [OF 1(1) w(3)])
  then have i: "svc_ID svc = i" "i \<noteq> ''''" using ids [OF 1(1)] by (auto simp: tree_ids_def)
  have "readable s' \<and> T s' = (T s1)(i := None)" using assms w(4) 1(1) i by (simp add: removes_def)
  then show ?case using branch_children [of "T s" i] ids [OF Suc.prems(2)] i(2) unfolding 1(2) by (auto simp: fun_eq_iff without_app)
qed simp

end

subsection \<open>What a removal does\<close>

definition same_shown :: "('s \<Rightarrow> docmap) \<Rightarrow> 's World \<Rightarrow> 's World \<Rightarrow> bool" where
  "same_shown docs w w' \<longleftrightarrow> same_services docs w w' \<and> st_cache (w_store w') = st_cache (w_store w)"

lemma same_shown_preorder [stays_intros]: "preorder_rel (same_shown docs)"
  by (simp add: preorder_rel_def same_shown_def same_services_def)

lemma same_shown_tree:
  assumes "same_shown docs w w'"
  shows "tree_of docs (w_store w') = tree_of docs (w_store w)" "store_readable docs (w_store w') = store_readable docs (w_store w)"
proof -
  show t: "tree_of docs (w_store w') = tree_of docs (w_store w)"
    using assms by (simp add: same_shown_def same_services_def shown_def doc_service_def fun_eq_iff)
  show "store_readable docs (w_store w') = store_readable docs (w_store w)"
    unfolding store_readable_def t using same_services_db_ok [of docs w w'] assms by (simp add: same_shown_def)
qed

lemma visit_None: "visit m w = (None, w') \<Longrightarrow> m w = None \<or> (\<exists>u. m w = Some (Inr u, w'))"
  by (auto simp: visit_def split: option.splits sum.splits prod.splits)

lemma small_less: "small_tree T \<Longrightarrow> small_tree (T(i := None))"
  using card_Diff1_le [of "dom T" i] by (auto simp: small_tree_def)

context facade_env begin

lemma shown_on_server:
  "(\<And>s e s'. f s = (e, s') \<Longrightarrow> docs s' = docs s) \<Longrightarrow> stays (same_shown docs) (on_server f)"
  using on_server_docs [of f] by (fastforce simp: stays_def same_shown_def same_services_def)

lemma shown_server [stays_intros]:
  "stays (same_shown docs) (on_server (en_RemoveService en p i))"
  "stays (same_shown docs) (on_server (en_RemoveServiceEndpoints en i))"
  "stays (same_shown docs) (on_server (en_CheckRemoveRegistryImage en svc))"
  by (rule shown_on_server, erule remove_docs endpoints_docs image_docs)+

lemma shown_evict [stays_intros]: "stays (same_shown docs) (evict svc)"
  by (auto simp: stays_def evict_def same_shown_def same_services_def)

lemma shown_remove_assignments [stays_intros]: "stays (same_shown docs) (on_store_e (remove_assignments es i eps))"
  using remove_assignments_alters
  by (fastforce simp: stays_def on_store_e_def same_shown_def same_services_def alters_def only_assignments_def split: prod.splits)

lemma delete_service_shown:
  assumes "delete_service i w = Some (Inr u, w')" "store_readable docs (w_store w)"
  shows "store_readable docs (w_store w') \<and> tree_of docs (w_store w') = (tree_of docs (w_store w))(i := None)"
proof -
  obtain st' where p: "Service_Store.Delete es i (w_store w) = (None, st')" "w' = w\<lparr>w_store := st'\<rparr>"
    using assms(1) by (auto simp: on_store_e_def split: prod.splits option.splits)
  have ok: "db_ok (docs (server w))" "small_tree (tree_of docs (w_store w))" using assms(2) by (simp_all add: store_readable_def)
  have "tree_of docs st' = (tree_of docs (w_store w))(i := None)" by (rule Delete_shown [OF ok(1) p(1)])
  then show ?thesis using p(2) db_ok_Delete [OF ok(1) p(1)] small_less [OF ok(2)] by (simp add: store_readable_def)
qed

lemma steps_return [simp]:
  "on_store_e f w \<noteq> None" "on_server g w \<noteq> None" "evict svc w \<noteq> None"
  by (auto simp: on_store_e_def on_server_def evict_def split: prod.splits)

lemma bindF_returns: "m w \<noteq> None \<Longrightarrow> (\<And>x w'. f x w' \<noteq> None) \<Longrightarrow> bindF m f w \<noteq> None"
  by (auto simp: bindF_def split: option.splits sum.splits prod.splits)

lemma remove_visit_removes:
  assumes "remove_visit es en svc w = (None, w')" "store_readable docs (w_store w)"
  shows "store_readable docs (w_store w') \<and> tree_of docs (w_store w') = (tree_of docs (w_store w))(svc_ID svc := None)"
proof -
  let ?after = "bindF (evict svc) (\<lambda>_. on_server (en_CheckRemoveRegistryImage en svc))"
  let ?steps = "bindF (on_store_e (remove_assignments es (svc_ID svc) (endpoints svc))) (\<lambda>_.
      bindF (on_server (en_RemoveServiceEndpoints en (svc_ID svc))) (\<lambda>_.
      bindF (on_server (en_RemoveService en (svc_PoolID svc) (svc_ID svc))) (\<lambda>_.
      bindF (delete_service (svc_ID svc)) (\<lambda>_. ?after))))"
  have "?steps w \<noteq> None" by (intro bindF_returns steps_return)
  moreover have "visit ?steps w = (None, w')" using assms(1) by (simp only: remove_visit_def)
  ultimately obtain u where "?steps w = Some (Inr u, w')" using visit_None [of ?steps w w'] by (auto simp only: simp_thms)
  then obtain u1 u2 u3 u4 u5 w1 w2 w3 w4 w5 where
      s: "on_store_e (remove_assignments es (svc_ID svc) (endpoints svc)) w = Some (Inr u1, w1)"
        "on_server (en_RemoveServiceEndpoints en (svc_ID svc)) w1 = Some (Inr u2, w2)"
        "on_server (en_RemoveService en (svc_PoolID svc) (svc_ID svc)) w2 = Some (Inr u3, w3)"
        "delete_service (svc_ID svc) w3 = Some (Inr u4, w4)" "evict svc w4 = Some (Inr u5, w5)"
        "on_server (en_CheckRemoveRegistryImage en svc) w5 = Some (Inr u, w')"
    unfolding bindF_Inr by (elim exE conjE)
  note after = staysD [OF shown_evict s(5)] staysD [OF shown_server(3) s(6)]
  note trees = staysD [OF shown_remove_assignments s(1)] staysD [OF shown_server(2) s(2)] staysD [OF shown_server(1) s(3)]
  have "store_readable docs (w_store w3)" "tree_of docs (w_store w3) = tree_of docs (w_store w)"
    using assms(2) by (simp_all add: trees [THEN same_shown_tree(1)] trees [THEN same_shown_tree(2)])
  then show ?thesis using delete_service_shown [OF s(4)] by (simp add: after [THEN same_shown_tree(1)] after [THEN same_shown_tree(2)])
qed

lemma removeService_outcome:
  assumes "store_readable docs (w_store w)" "trimmed i" "removeService es en i w = Some (None, w')"
  shows "store_readable docs (w_store w') \<and> tree_of docs (w_store w') = without (tree_of docs (w_store w)) (branch (tree_of docs (w_store w)) i)"
proof -
  note r = walk_reads [OF elastic_axioms, of w_store]
  have "service_reads.removes (\<lambda>w. tree_of docs (w_store w)) (\<lambda>w. store_readable docs (w_store w)) (remove_visit es en)"
    unfolding service_reads.removes_def [OF r] using remove_visit_removes by blast
  from service_reads.Walk_removes [OF r this, of "en_depth en" i w w'] assms show ?thesis
    by (simp add: removeService_def walkServices_def)
qed

end

text \<open>
  C19. A removal of a service that succeeds has removed this service and everything below it
  from the store, and nothing else, whatever the tree looks like.
\<close>

theorem removeService_removes:
  assumes "facade_env es docs en" "store_readable docs (w_store w)" "trimmed i" "removeService es en i w = Some (None, w')"
  shows "tree_of docs (w_store w') = without (tree_of docs (w_store w)) (branch (tree_of docs (w_store w)) i)"
  using facade_env.removeService_outcome [OF assms] by simp


subsection \<open>Everything in memory\<close>

text \<open>Besides documents nothing is kept: no public endpoint is taken, and mounts, files and images are fine.\<close>

definition mem_env :: "(string \<Rightarrow> bool) \<Rightarrow> ResourcePool list \<Rightarrow> PoolHost list \<Rightarrow> mem_docs Env" where
  "mem_env bad pools hosts =
     \<lparr>en_sources = mem_sources bad pools hosts, en_depth = 5, en_now = (\<lambda>s. int (length s)),
      en_GetVHost = (\<lambda>v s. Inr ('''', '''')), en_GetPublicPort = (\<lambda>p s. Inr ('''', '''')),
      en_UpdateService = (\<lambda>t svc lc lu s. (None, s)), en_RemoveService = (\<lambda>p i s. (None, s)),
      en_RemoveServiceEndpoints = (\<lambda>i s. (None, s)), en_VerifyTenantMounts = (\<lambda>t s. None),
      en_writeConfigs = (\<lambda>t p s. (None, s)), en_readConfigs = (\<lambda>t p s. None),
      en_CheckRemoveRegistryImage = (\<lambda>svc s. (None, s))\<rparr>"

interpretation mem_facade: facade_env "mem_es bad" map_of "mem_env bad pools hosts" for bad pools hosts
proof -
  have "address_sources (mem_es bad) map_of (en_sources (mem_env bad pools hosts))"
    using mem_addresses.address_sources_axioms by (simp add: mem_env_def)
  then show "facade_env (mem_es bad) map_of (mem_env bad pools hosts)"
    by (rule facade_env.intro) (simp add: facade_env_axioms_def mem_env_def)
qed

interpretation mem_same: env_relation "same_services map_of" "mem_es bad" "mem_env bad pools hosts" for bad pools hosts
  by (rule mem_facade.same_env)

definition good_env :: "mem_docs Env" where
  "good_env = mem_env (\<lambda>_. False) [\<lparr>rp_ID = ''default'', rp_VirtualIPs = [], rp_Permissions = 3\<rparr>] []"

lemma good_facade: "facade_env good_es map_of good_env"
  unfolding good_es_def good_env_def by (rule mem_facade.facade_env_axioms)

definition three_world :: "mem_docs World" where
  "three_world = \<lparr>w_store = three_store, w_paths = []\<rparr>"

definition one_world :: "mem_docs World" where
  "one_world = \<lparr>w_store = \<lparr>st_db = [((svcKind, ''a''), (ServiceDoc (stored_svc ''a'' ''''), 1))], st_cache = []\<rparr>, w_paths = []\<rparr>"

lemma remove_visit_runs:
  assumes "endpoints svc = []" "svc_ID svc \<noteq> ''''"
  shows "remove_visit good_es good_env svc w = (None, w\<lparr>w_store := \<lparr>st_db = gdel (svcKind, svc_ID svc) (server w),
       st_cache = gdel (svc_ID svc) (st_cache (w_store w))\<rparr>,
     w_paths := snd (RemoveIfParentChanged (svc_ID svc) (svc_ParentServiceID svc) (w_paths w))\<rparr>)"
  using assms
  by (simp add: remove_visit_def visit_def bindF_def on_store_e_def on_server_def good_env_def mem_env_def good_es_def evict_def
      Service_Store.Delete_def DataStore_Delete_def validKey_def conn_Delete_def mem_es_def removeVolatileInfo_def)

definition two_world :: "mem_docs World" where
  "two_world = \<lparr>w_store = \<lparr>st_db = [((svcKind, ''a''), (ServiceDoc (stored_svc ''a'' ''''), 1)),
     ((svcKind, ''b''), (ServiceDoc (stored_svc ''b'' ''a''), 1))], st_cache = []\<rparr>, w_paths = []\<rparr>"

lemma read_fields [simp]: "endpoints (read_svc i p) = []" "svc_ParentServiceID (read_svc i p) = p" "svc_Name (read_svc i p) = i"
  "endpoints (stored_svc i p) = []"
  by (simp_all add: read_svc_def stored_svc_def)

lemma three_removals:
  "remove_visit good_es good_env (read_svc ''c'' ''b'') three_world = (None, two_world)"
  "Service_Store.Get good_es ''b'' (w_store two_world) = Inr (read_svc ''b'' ''a'')"
  "remove_visit good_es good_env (read_svc ''b'' ''a'') two_world = (None, one_world)"
  by (simp add: remove_visit_runs three_world_def two_world_def three_store_def RemoveIfParentChanged_def lookUpService_def gdel_def)
    (simp add: two_world_def get_defs read_svc_def stored_svc_def fillAdditionalInfo_def getVolatileInfo_def,
     simp add: remove_visit_runs two_world_def one_world_def RemoveIfParentChanged_def lookUpService_def gdel_def)

lemma three_removed: "removeService good_es good_env ''b'' three_world = Some (None, one_world)"
proof -
  have "w_store three_world = three_store" "en_depth good_env = 5" by (simp_all add: three_world_def good_env_def mem_env_def)
  then show ?thesis by (simp add: removeService_def walkServices_def three_reads three_removals eval_nat_numeral)
qed

theorem removeService_removes_witness:
  "tree_of map_of (w_store one_world) = without (tree_of map_of three_store) (branch (tree_of map_of three_store) ''b'')"
  using removeService_removes [OF good_facade _ stored_valid3(4) three_removed] three_readable by (simp add: three_world_def)

text \<open>A service is added below another, and a second one with the same name is refused.\<close>

definition added_world :: "mem_docs World" where
  "added_world = (case AddService good_es good_env (stored_svc ''b'' ''a'') one_world of Some (_, w) \<Rightarrow> w | None \<Rightarrow> one_world)"

definition second_b :: Service where
  "second_b = (stored_svc ''c'' ''a'')\<lparr>svc_Name := ''b''\<rparr>"

lemma add_runs: "map_option fst (AddService good_es good_env (stored_svc ''b'' ''a'') one_world) = Some (Inr ())"
  by code_simp

lemma added_b: "map_option svc_Name (services_of map_of added_world ''b'') = Some ''b''"
  by code_simp

lemma add_refused: "map_option fst (AddService good_es good_env second_b added_world) = Some (Inl ErrServiceCollision)"
  by code_simp

lemma add_step:
  assumes "map_option fst (AddService es en svc w) = Some r"
  shows "facade_step docs es en w (snd (the (AddService es en svc w)))"
proof -
  obtain w' where "AddService es en svc w = Some (r, w')" using assms by auto
  then show ?thesis using facade_step.add by fastforce
qed


end
