(* ===== verification/Facade_Paths.thy ===== *)
theory Facade_Paths
  imports Facade_Services
begin

section \<open>The cache of paths under requests\<close>

text \<open>
  The facade keeps the cache of paths beside the store. This theory shows that requests to
  add and to update services, with lookups in between, leave the cache in agreement with the
  tree in the store, and under which condition an update that moves a service does so: the
  service must be written as stopped. Otherwise the validation of its start looks the tenant
  up between the eviction of the old path and the write.
\<close>

subsection \<open>The part of the tree that paths depend on\<close>

definition skeleton :: "services \<Rightarrow> string \<Rightarrow> (string \<times> string) option" where
  "skeleton T i = map_option (\<lambda>svc. (svc_ID svc, svc_ParentServiceID svc)) (T i)"

lemma skeletonD:
  assumes "skeleton T = skeleton T'" "T i = Some svc"
  shows "\<exists>svc'. T' i = Some svc' \<and> svc_ID svc' = svc_ID svc \<and> svc_ParentServiceID svc' = svc_ParentServiceID svc"
  using assms(2) fun_cong [OF assms(1), of i] by (cases "T' i") (auto simp: skeleton_def)

lemma skeleton_dom: "skeleton T = skeleton T' \<Longrightarrow> dom T = dom T'"
  using skeletonD [of T T'] skeletonD [of T' T] by (fastforce simp: dom_def)

lemma skeleton_upd:
  "skeleton T = skeleton T' \<Longrightarrow> svc_ID a = svc_ID b \<Longrightarrow> svc_ParentServiceID a = svc_ParentServiceID b \<Longrightarrow>
     skeleton (T(i \<mapsto> a)) = skeleton (T'(i \<mapsto> b))"
  by (auto simp: skeleton_def fun_eq_iff)

lemma skeleton_same:
  "T i = Some b \<Longrightarrow> svc_ID a = svc_ID b \<Longrightarrow> svc_ParentServiceID a = svc_ParentServiceID b \<Longrightarrow> skeleton (T(i \<mapsto> a)) = skeleton T"
  by (auto simp: skeleton_def fun_eq_iff)

lemma path_to_skeleton:
  assumes "skeleton T = skeleton T'"
  shows "path_to T i ids \<Longrightarrow> path_to T' i ids"
proof (induction rule: path_to.induct)
  case (root i svc)
  then show ?case using skeletonD [OF assms root(1)] by (auto intro: path_to.root)
next
  case (step i svc p ids)
  then show ?case using skeletonD [OF assms step(1)] by (auto intro: path_to.step)
qed

lemma rooted_skeleton: "skeleton T = skeleton T' \<Longrightarrow> rooted_tree T \<Longrightarrow> rooted_tree T'"
  using skeleton_dom [of T T'] path_to_skeleton [of T T'] skeletonD [of T' T]
  unfolding rooted_tree_def elements_def tree_ids_def by (metis (no_types, lifting))

lemma faithful_skeleton:
  assumes "skeleton T = skeleton T'" "faithful T sp"
  shows "faithful T' sp"
proof -
  obtain ids svc where f: "path_to T (sp_serviceID sp) ids" "T (sp_serviceID sp) = Some svc" "sp_tenantID sp = hd ids"
      "sp_parentID sp = svc_ParentServiceID svc" "sp_servicePath sp = slashed ids"
    using assms(2) unfolding faithful_def by blast
  obtain svc' where s: "T' (sp_serviceID sp) = Some svc'" "svc_ParentServiceID svc' = svc_ParentServiceID svc"
    using skeletonD [OF assms(1) f(2)] by blast
  show ?thesis unfolding faithful_def
    by (intro exI [of _ ids] exI [of _ svc'] conjI path_to_skeleton [OF assms(1) f(1)] s(1) f(3,5)) (simp add: f(4) s(2))
qed

lemma coherent_skeleton: "skeleton T = skeleton T' \<Longrightarrow> coherent T paths \<Longrightarrow> coherent T' paths"
  unfolding coherent_def using faithful_skeleton [of T T'] by simp

text \<open>A service that is new under a parent of the tree, or a new root.\<close>

lemma rooted_add:
  assumes "rooted_tree T" "T i = None" "svc_ID svc = i" "element i" "svc_ParentServiceID svc = '''' \<or> T (svc_ParentServiceID svc) \<noteq> None"
  shows "rooted_tree (T(i \<mapsto> svc))"
proof -
  have old: "path_to (T(i \<mapsto> svc)) j ids" if "path_to T j ids" for j ids
    using that path_to_dom [OF that] assms(2) by (intro path_to_upd) auto
  have new: "\<exists>ids. path_to (T(i \<mapsto> svc)) i ids"
  proof (cases "svc_ParentServiceID svc = ''''")
    case True
    then show ?thesis by (intro exI [of _ "[i]"] path_to.root [of _ _ svc]) simp_all
  next
    case False
    then obtain ids where "path_to T (svc_ParentServiceID svc) ids" using assms(1,5) by (auto simp: rooted_tree_def)
    then show ?thesis using False by (intro exI [of _ "ids @ [i]"] path_to.step [of _ _ svc "svc_ParentServiceID svc"] old) simp_all
  qed
  have "elements (T(i \<mapsto> svc))"
    using assms(1,3,4) by (auto simp: rooted_tree_def elements_def tree_ids_def element_def)
  moreover have "\<exists>ids. path_to (T(i \<mapsto> svc)) j ids" if "j \<in> dom (T(i \<mapsto> svc))" for j
  proof (cases "j = i")
    case False
    then have "j \<in> dom T" using that by simp
    then obtain ids where "path_to T j ids" using assms(1) unfolding rooted_tree_def by blast
    then show ?thesis using old by blast
  qed (use new in simp)
  ultimately show ?thesis by (simp add: rooted_tree_def)
qed

text \<open>Evicting a service without writing it.\<close>

lemma evict_alone:
  assumes "coherent T paths" "wf_map paths"
  shows "coherent T (snd (RemoveIfParentChanged i p paths))"
proof (cases "T i")
  case None
  then have "i \<notin> set (keys paths)" using cached_in_tree [OF assms(1)] by blast
  then have "lookUpService i paths = None" by (simp add: lookUpService_def map_of_eq_None_iff)
  then show ?thesis using assms(1) by (simp add: RemoveIfParentChanged_def)
next
  case (Some old)
  have "T(i \<mapsto> old) = T" using Some by auto
  then show ?thesis using evict_coherent [OF assms Some, of old p] by simp
qed

subsection \<open>Steps that keep the cache\<close>

text \<open>The cache agrees with the tree in the store.\<close>

definition sound :: "('s \<Rightarrow> docmap) \<Rightarrow> 's World \<Rightarrow> bool" where
  "sound docs w \<longleftrightarrow> rooted_tree (services_of docs w) \<and> coherent (services_of docs w) (w_paths w) \<and> wf_map (w_paths w)"

definition keeps_sound :: "('s \<Rightarrow> docmap) \<Rightarrow> 's World \<Rightarrow> 's World \<Rightarrow> bool" where
  "keeps_sound docs w w' \<longleftrightarrow> (sound docs w \<longrightarrow> sound docs w') \<and> skeleton (services_of docs w') = skeleton (services_of docs w)"

lemma keeps_sound_preorder: "preorder_rel (keeps_sound docs)"
  by (simp add: preorder_rel_def keeps_sound_def)

lemma same_paths_sound: "same_services docs w w' \<Longrightarrow> w_paths w' = w_paths w \<Longrightarrow> keeps_sound docs w w'"
  using same_services_of [of docs w w'] by (simp add: keeps_sound_def sound_def)

lemma shown_skeleton: "skeleton (tree_of docs (w_store w)) = skeleton (services_of docs w)"
  by (simp add: skeleton_def fun_eq_iff shown_def services_of_def fill_fields option.map_comp comp_def)

lemma sound_eviction: "stays (keeps_sound docs) (evict svc)"
proof -
  have "keeps_sound docs w (w\<lparr>w_paths := snd (RemoveIfParentChanged (svc_ID svc) (svc_ParentServiceID svc) (w_paths w))\<rparr>)" for w
    using evict_alone [of "services_of docs w" "w_paths w"] wf_RemoveIfParentChanged [of "w_paths w"]
    by (auto simp: keeps_sound_def sound_def services_of_def)
  then show ?thesis by (auto simp: stays_def evict_def)
qed

context elastic begin

lemma sound_cached:
  assumes "sound docs w" "cached es en i w = Some (r, w')"
  shows "w_store w' = w_store w \<and> sound docs w' \<and>
    (\<forall>sp. r = Inr sp \<longrightarrow> sp_serviceID sp = i \<and> faithful (services_of docs w) sp)"
proof -
  let ?T = "tree_of docs (w_store w)"
  obtain r0 paths' where c: "cached_path (en_depth en) (\<lambda>j. Service_Store.Get es j (w_store w)) i (w_paths w) = Some (r0, paths')"
      "r = of_ds r0" "w' = w\<lparr>w_paths := paths'\<rparr>"
    using assms(2) by (auto simp: cached_def split: option.splits)
  note sk = shown_skeleton [of docs w]
  have rd: "reads_from (\<lambda>j. Service_Store.Get es j (w_store w)) ?T" using Get_shown by (auto simp: reads_from_def)
  have T: "coherent ?T (w_paths w)" "elements ?T"
    using coherent_skeleton [OF sk [symmetric]] rooted_skeleton [OF sk [symmetric]] assms(1) by (auto simp: sound_def rooted_tree_def)
  note f = cached_path_faithful [OF T rd c(1)]
  have "wf_map paths'" using cached_path_wf [OF c(1)] assms(1) by (simp add: sound_def)
  then have "sound docs w'" using coherent_skeleton [OF sk] f assms(1) c(3) by (simp add: sound_def services_of_def)
  then show ?thesis using f c(2,3) faithful_skeleton [OF sk] by simp
qed

lemma sound_lookup: "stays (keeps_sound docs) (cached es en i)"
  unfolding stays_def
proof (intro allI impI)
  fix w r w' assume c: "cached es en i w = Some (r, w')"
  then have "services_of docs w' = services_of docs w" using cached_store [OF c] by (simp add: services_of_def)
  then show "keeps_sound docs w w'" using sound_cached [OF _ c] by (simp add: keeps_sound_def)
qed

lemma sound_steps: "step_relation (keeps_sound docs) es en"
  by unfold_locales (rule keeps_sound_preorder sound_lookup sound_eviction)+

end

context facade_env begin

lemma sound_on_server: "(\<And>s e s'. f s = (e, s') \<Longrightarrow> docs s' = docs s) \<Longrightarrow> stays (keeps_sound docs) (on_server f)"
  using on_server_docs [of f] staysD [OF stays_on_server [of f]] same_paths_sound unfolding stays_def by blast

lemma sound_env: "env_relation (keeps_sound docs) es en"
proof (rule env_relation.intro [OF sound_steps], unfold_locales)
  show "stays (keeps_sound docs) (on_server (en_UpdateService en t svc lc lu))" for t svc lc lu
    by (rule sound_on_server, erule update_docs)
  show "stays (keeps_sound docs) (on_server (en_RemoveService en p i))" for p i
    by (rule sound_on_server, erule remove_docs)
  show "stays (keeps_sound docs) (on_server (en_writeConfigs en t path))" for t path
    by (rule sound_on_server, erule configs_docs)
  show "stays (keeps_sound docs) (on_store (GetService es (en_sources en) i))" for i
    using same_GetService [of i] same_paths_sound by (fastforce simp: stays_def on_store_def split: prod.splits)
  show "stays (keeps_sound docs) (SetServicesCurrentState en cs ids)" for cs ids
    using same_current_state [of docs en cs ids] same_paths_sound
    by (fastforce simp: stays_def SetServicesCurrentState_def on_store_e_def)
qed

end

subsection \<open>Adding and updating\<close>

text \<open>The parent is changed only by a request for a stopped service.\<close>

definition moves_stopped :: "services \<Rightarrow> Service \<Rightarrow> bool" where
  "moves_stopped S svc \<longleftrightarrow> svc_DesiredState svc = SVCStop \<or>
     (\<forall>raw. S (svc_ID svc) = Some raw \<longrightarrow> svc_ParentServiceID raw = svc_ParentServiceID svc)"

context facade_env begin

lemma soundD: "keeps_sound docs w w' \<Longrightarrow> sound docs w \<Longrightarrow> sound docs w'"
  by (simp add: keeps_sound_def)

lemma put_sound:
  assumes "put_service es en svc w = Some (r, w')" "sound docs w"
    and "rooted_tree ((services_of docs w)(svc_ID svc \<mapsto> svc))" "coherent ((services_of docs w)(svc_ID svc \<mapsto> svc)) (w_paths w)"
  shows "sound docs w'"
proof -
  have p: "w_paths w' = w_paths w" using put_service_outcome [OF assms(1)] by simp
  from assms(1) show ?thesis
  proof (cases rule: put_service_written)
    case (written n)
    have "skeleton ((services_of docs w)(svc_ID svc \<mapsto> svc)) = skeleton ((services_of docs w)(svc_ID svc \<mapsto> svc\<lparr>svc_DatabaseVersion := n\<rparr>))"
      by (rule skeleton_upd) simp_all
    from rooted_skeleton [OF this assms(3)] coherent_skeleton [OF this assms(4)] show ?thesis
      using assms(2) written p by (simp add: sound_def)
  next
    case failed
    then show ?thesis using assms(2) p by (simp add: sound_def)
  qed
qed

lemma addService_sound:
  assumes "addService es en t svc lk w = Some (r, w')" "sound docs w" "element (svc_ID svc)"
  shows "sound docs w'"
  using assms(1) unfolding addService_def
proof (cases rule: bindF_cases)
  case (err e)
  then show ?thesis using soundD [OF staysD [OF step_relation.stays_add [OF sound_steps] err(1)] assms(2)] by simp
next
  case (ok svc1 w1)
  note v = validateServiceAdd_ok [OF ok(1)]
  then have w1: "w1 = w" and new: "services_of docs w (svc_ID svc1) = None" "svc_ID svc1 = svc_ID svc"
    "svc_ParentServiceID svc1 = '''' \<or> services_of docs w (svc_ParentServiceID svc1) \<noteq> None" by simp_all
  let ?T = "services_of docs w"
  have T: "rooted_tree ?T" "coherent ?T (w_paths w)" using assms(2) by (simp_all add: sound_def)
  have "svc_ID svc1 \<notin> set (keys (w_paths w))" using cached_in_tree [OF T(2)] new(1) by blast
  then have c: "coherent (?T(svc_ID svc1 \<mapsto> svc1)) (w_paths w)" by (rule coherent_uncached [OF T(2)])
  have rt: "rooted_tree (?T(svc_ID svc1 \<mapsto> svc1))" using rooted_add [OF T(1) new(1) refl _ new(3)] assms(3) new(2) by simp
  from ok(2) show ?thesis
  proof (cases rule: bindF_cases)
    case (err e)
    show ?thesis by (rule put_sound [OF err(1) [unfolded w1] assms(2) rt c])
  next
    case (ok u w2)
    from put_sound [OF ok(1) [unfolded w1] assms(2) rt c] show ?thesis
      by (rule soundD [OF staysD [OF env_relation.after_add [OF sound_env] ok(2)]])
  qed
qed

lemma renamed_fields:
  assumes "(if b then bindF m (\<lambda>_. bindF (validateServiceName es svc) (\<lambda>svc1. bindF (evict svc) (\<lambda>_. ret svc1))) else ret svc) w0 = Some (Inr svc0, w1)"
  shows "svc_ID svc0 = svc_ID svc \<and> svc_ParentServiceID svc0 = svc_ParentServiceID svc \<and> svc_DesiredState svc0 = svc_DesiredState svc"
proof (cases b)
  case True
  then obtain w2 w3 where "validateServiceName es svc w2 = Some (Inr svc0, w3)" using assms by (auto simp: bindF_Inr)
  from validateServiceName_ok [OF this] obtain d where "svc0 = svc\<lparr>svc_DeploymentID := d\<rparr>" by blast
  then show ?thesis by simp
qed (use assms in simp)

lemma validateServiceUpdate_sound:
  assumes "validateServiceUpdate es en svc w = Some (Inr (cur, svc1), w')" "sound docs w" "moves_stopped (services_of docs w) svc"
  shows "svc_ID svc1 = svc_ID svc \<and> svc_ParentServiceID svc1 = svc_ParentServiceID svc \<and>
    coherent ((services_of docs w)(svc_ID svc \<mapsto> svc1)) (w_paths w')"
proof -
  let ?T = "services_of docs w"
  from assms(1) obtain cur0 w0 svc0 w1 where g: "getS es (svc_ID svc) w = Some (Inr cur0, w0)"
    and n: "(if svc_ParentServiceID svc \<noteq> svc_ParentServiceID cur0 \<or> svc_Name svc \<noteq> svc_Name cur0 then
            bindF (if svc_ParentServiceID svc \<noteq> svc_ParentServiceID cur0
                   then validateServiceTenant es en (svc_ParentServiceID svc) (svc_ID svc) else ret ()) (\<lambda>_.
            bindF (validateServiceName es svc) (\<lambda>svc1. bindF (evict svc) (\<lambda>_. ret svc1)))
          else ret svc) w0 = Some (Inr svc0, w1)"
    and svc1: "svc1 = svc0\<lparr>svc_DeploymentID := svc_DeploymentID cur0\<rparr> \<or>
       svc1 = svc0\<lparr>svc_DeploymentID := svc_DeploymentID cur0, svc_DesiredState := SVCStop\<rparr>"
    and stop: "svc_DesiredState svc0 = SVCStop \<longrightarrow> w' = w1"
    using that by (rule validateServiceUpdate_steps)
  obtain raw where raw: "?T (svc_ID svc) = Some raw" "cur0 = fillAdditionalInfo (st_cache (w_store w)) raw" and w0: "w0 = w"
    using getS_ok [OF g] shown_service by blast
  have cur0: "svc_ParentServiceID cur0 = svc_ParentServiceID raw" "svc_ID raw = svc_ID svc"
    using raw assms(2) by (auto simp: fill_fields sound_def rooted_tree_def elements_def tree_ids_def)
  have f: "svc_ID svc1 = svc_ID svc" "svc_ParentServiceID svc1 = svc_ParentServiceID svc"
    using renamed_fields [OF n] svc1 by auto
  have "coherent (?T(svc_ID svc \<mapsto> svc1)) (w_paths w')"
  proof (cases "svc_ParentServiceID svc = svc_ParentServiceID raw")
    case True
    have S: "services_of docs w' = ?T" by (rule same_services_of [OF staysD [OF same.stays_update assms(1)]])
    have "sound docs w'" by (rule soundD [OF staysD [OF step_relation.stays_update [OF sound_steps] assms(1)] assms(2)])
    moreover have "skeleton (?T(svc_ID svc \<mapsto> svc1)) = skeleton ?T" using raw(1) f cur0(2) True by (intro skeleton_same) simp_all
    ultimately show ?thesis using coherent_skeleton [of ?T] S by (simp add: sound_def)
  next
    case False
    have w': "w' = w1" using False assms(3) raw(1) stop renamed_fields [OF n] by (auto simp: moves_stopped_def)
    obtain u w2 where t: "validateServiceTenant es en (svc_ParentServiceID svc) (svc_ID svc) w = Some (Inr u, w2)"
      and w1: "w1 = w2\<lparr>w_paths := snd (RemoveIfParentChanged (svc_ID svc) (svc_ParentServiceID svc) (w_paths w2))\<rparr>"
      using n False cur0(1) w0 validateServiceName_ok by (fastforce simp: bindF_Inr evict_def)
    have S: "services_of docs w2 = ?T" by (rule same_services_of [OF staysD [OF same.stays_tenants t]])
    have "sound docs w2" by (rule soundD [OF staysD [OF step_relation.stays_tenants [OF sound_steps] t] assms(2)])
    then have "coherent ?T (w_paths w2)" "wf_map (w_paths w2)" by (simp_all add: sound_def S)
    from evict_coherent [OF this raw(1), of svc1 "svc_ParentServiceID svc"] show ?thesis using f(2) by (simp add: w' w1)
  qed
  with f show ?thesis by simp
qed

lemma updateService_sound:
  assumes "updateService es en t svc lk w = Some (r, w')" "sound docs w" "moves_stopped (services_of docs w) svc"
    and "rooted_tree ((services_of docs w)(svc_ID svc \<mapsto> svc))"
  shows "sound docs w'"
  using assms(1) unfolding updateService_def
proof (cases rule: bindF_cases)
  case (err e)
  then show ?thesis using soundD [OF staysD [OF step_relation.stays_update [OF sound_steps] err(1)] assms(2)] by simp
next
  case (ok x w1)
  obtain cur svc1 where x: "x = (cur, svc1)" by fastforce
  from ok(1) have val: "validateServiceUpdate es en svc w = Some (Inr (cur, svc1), w1)" by (simp only: x)
  have S: "services_of docs w1 = services_of docs w" by (rule same_services_of [OF staysD [OF same.stays_update val]])
  have s1: "sound docs w1" by (rule soundD [OF staysD [OF step_relation.stays_update [OF sound_steps] val] assms(2)])
  note v = validateServiceUpdate_sound [OF val assms(2,3)]
  have ids: "svc_ID svc1 = svc_ID svc" "svc_ParentServiceID svc1 = svc_ParentServiceID svc" using v by simp_all
  have c: "coherent ((services_of docs w1)(svc_ID svc1 \<mapsto> svc1)) (w_paths w1)" unfolding S ids(1) using v by (elim conjE)
  have "skeleton ((services_of docs w)(svc_ID svc \<mapsto> svc)) = skeleton ((services_of docs w1)(svc_ID svc1 \<mapsto> svc1))"
    unfolding S ids(1) by (rule skeleton_upd [OF refl]) (simp_all add: ids)
  from rooted_skeleton [OF this assms(4)] have rt: "rooted_tree ((services_of docs w1)(svc_ID svc1 \<mapsto> svc1))" .
  from ok(2) have "bindF (put_service es en svc1) (\<lambda>_. bindF (caught () (updateServiceConfigs es en (svc_ID svc1))) (\<lambda>_.
      bindF (if svc_PoolID cur \<noteq> svc_PoolID svc1 then leave_pool es en t cur else ret ()) (\<lambda>_. syncService es en t (svc_ID svc1) lk lk))) w1 = Some (r, w')"
    by (simp only: x prod.case)
  then show ?thesis
  proof (cases rule: bindF_cases)
    case (err e)
    show ?thesis by (rule put_sound [OF err(1) s1 rt c])
  next
    case (ok u w2)
    from put_sound [OF ok(1) s1 rt c] show ?thesis
      by (rule soundD [OF staysD [OF env_relation.after_update [OF sound_env] ok(2)]])
  qed
qed

end

subsection \<open>The cache answers the tree in the store\<close>

text \<open>
  Requests and lookups, one after the other, with any outcome. An id that is added must be
  usable as an element of a path, and an update must leave every service below a root.
\<close>

inductive path_step :: "('s \<Rightarrow> docmap) \<Rightarrow> 's Elastic \<Rightarrow> 's Env \<Rightarrow> 's World \<Rightarrow> 's World \<Rightarrow> bool" for docs es en where
  add: "AddService es en svc w = Some (r, w') \<Longrightarrow> element (svc_ID svc) \<Longrightarrow> path_step docs es en w w'"
| update: "UpdateService es en svc w = Some (r, w') \<Longrightarrow> moves_stopped (services_of docs w) svc \<Longrightarrow>
    rooted_tree ((services_of docs w)(svc_ID svc \<mapsto> svc)) \<Longrightarrow> path_step docs es en w w'"
| lookup: "cached es en i w = Some (r, w') \<Longrightarrow> path_step docs es en w w'"
| other: "same_services docs w w' \<Longrightarrow> w_paths w' = w_paths w \<Longrightarrow> path_step docs es en w w'"

context facade_env begin

lemma tenant_sound: "tenant_of es en i w = Some (r, w') \<Longrightarrow> sound docs w \<Longrightarrow> sound docs w'"
  by (rule soundD [OF staysD [OF step_relation.stays_tenant [OF sound_steps]]])

lemma path_step_sound: "path_step docs es en w w' \<Longrightarrow> sound docs w \<Longrightarrow> sound docs w'"
proof (induction rule: path_step.induct)
  case (add svc w r w')
  from add(1) show ?case unfolding AddService_def
  proof (cases rule: bindF_cases)
    case (err e)
    then show ?thesis using tenant_sound add(3) by (auto split: if_splits)
  next
    case (ok t w1)
    then have "sound docs w1" using tenant_sound add(3) by (auto split: if_splits)
    then show ?thesis by (rule addService_sound [OF ok(2) _ add(2)])
  qed
next
  case (update svc w r w')
  from update(1) show ?case unfolding UpdateService_def
  proof (cases rule: bindF_cases)
    case (err e)
    then show ?thesis using tenant_sound update(4) by blast
  next
    case (ok t w1)
    note S = tenant_services [OF ok(1)]
    show ?thesis by (rule updateService_sound [OF ok(2) tenant_sound [OF ok(1) update(4)]]) (unfold S, (rule update)+)
  qed
next
  case (lookup i w r w')
  then show ?case using sound_cached by blast
next
  case (other w w')
  then show ?case using soundD [OF same_paths_sound] by blast
qed

end

text \<open>
  C16. Whatever services are added, updated and moved, and whatever fails on the way, the
  tenant and the path that the facade looks up are those of the tree in the store: the tenant
  is the root above the service, and the path lists the ids from there.
\<close>

theorem lookup_answers_store:
  assumes "facade_env es docs en" "rooted_tree (services_of docs w0)" "w_paths w0 = []"
    and "(path_step docs es en)\<^sup>*\<^sup>* w0 w" "cached es en i w = Some (Inr sp, w')"
  shows "\<exists>ids. path_to (services_of docs w) i ids \<and> sp_tenantID sp = hd ids \<and> sp_servicePath sp = slashed ids"
proof -
  have el: "elastic es docs" using assms(1) by (simp add: facade_env_def address_sources_def)
  have "sound docs w0" using assms(2,3) by (simp add: sound_def coherent_def)
  with assms(4) have "sound docs w"
    by (induction rule: rtranclp_induct) (auto intro: facade_env.path_step_sound [OF assms(1)])
  from elastic.sound_cached [OF el this assms(5)] have "sp_serviceID sp = i" "faithful (services_of docs w) sp" by simp_all
  then show ?thesis by (auto simp: faithful_def)
qed

subsection \<open>Moving a service\<close>

text \<open>The service \<open>c\<close> moves from \<open>b\<close> to \<open>a\<close> while it is stopped.\<close>

definition move_c :: "DesiredState \<Rightarrow> Service" where
  "move_c ds = (read_svc ''c'' ''a'')\<lparr>svc_DesiredState := ds\<rparr>"

lemma moved_stopped:
  "map_option (\<lambda>(r, w). (r, map_option fst (cached good_es good_env ''c'' w))) (UpdateService good_es good_env (move_c SVCStop) three_world) =
     Some (Inr (), Some (Inr \<lparr>sp_serviceID = ''c'', sp_tenantID = ''a'', sp_parentID = ''a'', sp_servicePath = ''/a/c'', sp_serviceNamePath = ''/a/c''\<rparr>))"
  by code_simp

text \<open>
  When the request asks for a running service, the validation of the start caches the old path
  after it was evicted, and it stays when the service is written.
\<close>

lemma moved_running_stale:
  "map_option (\<lambda>(r, w). (r, map_option svc_ParentServiceID (services_of map_of w ''c''),
       map_option (map_sum (\<lambda>e. ()) sp_servicePath \<circ> fst) (cached good_es good_env ''c'' w)))
     (UpdateService good_es good_env (move_c SVCRun) three_world) =
     Some (Inr (), Some ''a'', Some (Inr ''/a/b/c''))"
  by code_simp

text \<open>A service may be moved below one of its own descendants; then the request does not return.\<close>

lemma own_descendant_accepted:
  "map_option (\<lambda>(r, w). map_sum (\<lambda>e. ()) (svc_ParentServiceID \<circ> snd) r) (validateServiceUpdate good_es good_env (read_svc ''b'' ''c'') three_world) =
     Some (Inr ''c'')"
  "UpdateService good_es good_env (read_svc ''b'' ''c'') three_world = None"
  by code_simp+

text \<open>The tree of the example and the tree after the move.\<close>

lemma three_services: "services_of map_of three_world =
    [''a'' \<mapsto> (stored_svc ''a'' '''')\<lparr>svc_DatabaseVersion := 1\<rparr>, ''b'' \<mapsto> (stored_svc ''b'' ''a'')\<lparr>svc_DatabaseVersion := 1\<rparr>,
     ''c'' \<mapsto> (stored_svc ''c'' ''b'')\<lparr>svc_DatabaseVersion := 1\<rparr>]"
  by (auto simp: fun_eq_iff services_of_def doc_service_def three_world_def three_store_def)

lemma three_skeletons:
  "skeleton (services_of map_of three_world) = skeleton two_tree"
  "skeleton ((services_of map_of three_world)(svc_ID (move_c ds) \<mapsto> move_c ds)) = skeleton moved_tree"
  by (auto simp: three_services skeleton_def two_tree_def moved_tree_def move_c_def read_svc_def stored_svc_def)

theorem lookup_answers_store_witness:
  "\<exists>w. (path_step map_of good_es good_env)\<^sup>*\<^sup>* three_world w \<and>
     (\<exists>ids. path_to (services_of map_of w) ''c'' ids \<and> slashed ids = ''/a/c'')"
proof -
  obtain w1 where u: "UpdateService good_es good_env (move_c SVCStop) three_world = Some (Inr (), w1)"
    and l: "map_option fst (cached good_es good_env ''c'' w1) =
      Some (Inr \<lparr>sp_serviceID = ''c'', sp_tenantID = ''a'', sp_parentID = ''a'', sp_servicePath = ''/a/c'', sp_serviceNamePath = ''/a/c''\<rparr>)"
    using moved_stopped by auto
  from l obtain w2 where c: "cached good_es good_env ''c'' w1 =
      Some (Inr \<lparr>sp_serviceID = ''c'', sp_tenantID = ''a'', sp_parentID = ''a'', sp_servicePath = ''/a/c'', sp_serviceNamePath = ''/a/c''\<rparr>, w2)"
    by auto
  have "moves_stopped (services_of map_of three_world) (move_c SVCStop)" by (simp add: moves_stopped_def move_c_def)
  then have "path_step map_of good_es good_env three_world w1"
    by (rule path_step.update [OF u _ rooted_skeleton [OF three_skeletons(2) [symmetric] moved_rooted]])
  then have p: "(path_step map_of good_es good_env)\<^sup>*\<^sup>* three_world w1" by (rule r_into_rtranclp)
  have "w_paths three_world = []" by (simp add: three_world_def)
  from lookup_answers_store [OF good_facade rooted_skeleton [OF three_skeletons(1) [symmetric] two_rooted] this p c]
  obtain ids where "path_to (services_of map_of w1) ''c'' ids" "slashed ids = ''/a/c''" by auto
  with p show ?thesis by blast
qed

end
