(* ===== verification/Spec2Isabelle.thy ===== *)
theory Spec2Isabelle
  imports SSM_States Diet Service_Listener Host_Listener Host_IPs Host_Registry Listeners
    Circular Image_ID Facade_Paths
begin

text \<open>
  \<^bold>\<open>Verification of serviced (Control Center).\<close>

  serviced runs services as containers on pools of hosts. A master process holds the
  service definitions; its scheduler decides when a service changes state and on which host
  each of its instances runs; the decisions are nodes of a ZooKeeper tree, which the
  delegates on the hosts watch. This development models the scheduler and what it stands
  on, from a request to start or stop services down to the nodes that make a host start or
  stop an instance; and the services themselves as the facade keeps them, from the document
  store to the requests that add, update and remove them.

  \<^bold>\<open>From request to instance.\<close> A caller hands services and a desired state to the service
  state manager. It groups them into batches, reconciles them with batches that wait, and
  lets one queue loop per tenant and kind of request hand batch after batch to the facade.
  The facade (there a parameter) stores the desired state and
  writes the service node with \<^verbatim>\<open>UpdateServices\<close>. The listener of that service compares the
  instances that exist with the number that is wanted, asks the leader for a host for every
  missing one and creates its nodes, or stops the surplus. The delegate on that host sees
  the new node, starts the container and stores what it learned about it; it stops the
  container and deletes the nodes when the desired state says so.

  \<^bold>\<open>Services and the facade.\<close> Services are documents with a version in Elasticsearch; their
  desired and current states are in a cache beside it. Services form a tree by their parents;
  the root of a tree is its tenant, and the facade caches the path of each service to it.
  The facade validates what a client wants to store, reading the store, the cache of paths
  and the assignments of addresses, then writes, brings the caches up to date and passes the
  service on to the coordinator with the operations of the theories below.

  \<^bold>\<open>Theories.\<close>

  \<^item> \<open>Prelude\<close>: machine integers, Go maps as association lists, \<^verbatim>\<open>sort\<close> as an insertion sort
    with the laws that any sort has (locale \<open>strict_weak_order\<close>).
  \<^item> \<open>Service_Model\<close> (\<^verbatim>\<open>domain/service/service.go\<close>): desired and current states, their tables,
    the service record.
  \<^item> \<open>SSM_Batch\<close>, \<open>SSM_Queue\<close>, \<open>SSM_Manager\<close>
    (\<^verbatim>\<open>scheduler/servicestatemanager/servicestatemanager.go\<close>): batches and their merge, a
    queue and its reconciliation, the manager with its loops and goroutines. Cancellable
    services are shared by pointer, so they live in a store; a panic is a value of the error
    type; what the manager writes through the facade is a log.
  \<^item> \<open>SSM_Invariant\<close>, \<open>SSM_Loop\<close>, \<open>SSM_States\<close>: reachable states of the manager under every
    interleaving of callers, loops and goroutines; progress of the loops; the current states
    that are shown; starting, shutting down and removing tenants.
  \<^item> \<open>Strategy\<close> (\<^verbatim>\<open>scheduler/strategy/*.go\<close>, \<^verbatim>\<open>scheduler/strategy.go\<close>, \<^verbatim>\<open>scheduler/leader.go\<close>):
    scoring hosts at 64 bits, the four placement strategies behind the locale
    \<open>host_strategy\<close>, the leader's choice.
  \<^item> \<open>Diet\<close> (\<^verbatim>\<open>commons/diet/diet.go\<close>): interval trees of 64-bit ranges.
  \<^item> \<open>Coordinator\<close> (\<^verbatim>\<open>coordinator/client\<close>, \<^verbatim>\<open>coordinator/client/zookeeper\<close>): connections and
    transactions. The server is a record of operations with the laws of the locale
    \<open>zookeeper\<close>, among them that a failed write may or may not have been applied; the
    locales \<open>connection\<close> and \<open>available_connection\<close> say what the client makes of them. All
    are interpreted on a server in memory that loses operations.
  \<^item> \<open>Go_Strings\<close>: splitting and decimal numbers of the Go library.
  \<^item> \<open>State_Nodes\<close> (\<^verbatim>\<open>zzk/service/state.go\<close>): the three nodes of an instance and all
    operations on them; locale \<open>state_connection\<close>.
  \<^item> \<open>Service_Listener\<close> (\<^verbatim>\<open>zzk/service/service.go\<close>, \<^verbatim>\<open>zzk/service/servicestate.go\<close>): service
    nodes and the listener; locale \<open>listener\<close>, interpreted with the leader of \<open>Strategy\<close> as
    the choice of a host.
  \<^item> \<open>Host_Listener\<close> (\<^verbatim>\<open>zzk/service/hoststate.go\<close>): the listener of a host, which turns the
    desired states of instances into running containers. The container engine is the
    interface \<^verbatim>\<open>HostStateHandler\<close>, with the laws of the locale \<open>container_host\<close>; that stops
    succeed is \<open>reliable_host\<close>. Both are interpreted on a host in memory, which shares its
    state with the server in memory.
  \<^item> \<open>Virtual_IPs\<close> (\<^verbatim>\<open>zzk/service/ip.go\<close>, \<^verbatim>\<open>zzk/virtualips/*.go\<close>): the nodes of an address in a
    pool and on a host, assigning an address to a host, taking it away, and the synchroniser
    that brings the assigned addresses in line with the ones that a pool wants.
  \<^item> \<open>Pool_Hosts\<close> (\<^verbatim>\<open>zzk/service/host.go\<close>, \<^verbatim>\<open>zzk/service/pool.go\<close>): pools and hosts in the
    coordinator, removing a host with everything that runs on it, the locks that protect
    services during maintenance. The two synchronisers are one algorithm, proved in the
    locale \<open>child_sync\<close> and interpreted on both.
  \<^item> \<open>Host_IPs\<close> (\<^verbatim>\<open>zzk/service/hostiplistener.go\<close>, \<^verbatim>\<open>node/virtualip.go\<close>): the listener of a
    host that binds its addresses. The \<^verbatim>\<open>ip\<close> command is the locale \<open>ip_tool\<close>, the interface
    \<^verbatim>\<open>HostIPHandler\<close> is \<open>ip_handler\<close>; \<open>reliable_tool\<close> and \<open>reliable_handler\<close> say that they
    succeed. All are interpreted on a network interface in memory.
  \<^item> \<open>Host_Registry\<close> (\<^verbatim>\<open>zzk/service/hostregistry.go\<close>): the listener that watches whether a host
    is online and moves its services when it stays away.
  \<^item> \<open>Listeners\<close> (\<^verbatim>\<open>zzk/listen.go\<close>, \<^verbatim>\<open>zzk/zzk.go\<close>): the loop that starts one goroutine for each
    child of a node and waits for them when it ends, and the start of several listeners.
  \<^item> \<open>Circular\<close> (\<^verbatim>\<open>commons/circular/circular.go\<close>): the circular buffer that keeps the last
    bytes of a log, as an implementation of the locale \<open>last_bytes\<close>.
  \<^item> \<open>Image_ID\<close> (\<^verbatim>\<open>commons/imageid.go\<close>): the names of images, scanned character by character.
  \<^item> \<open>Service_Store\<close> (\<^verbatim>\<open>datastore/*.go\<close>, \<^verbatim>\<open>datastore/elastic/connection.go\<close>,
    \<^verbatim>\<open>domain/service/servicestore.go\<close>, \<^verbatim>\<open>validation/validators.go\<close>): entities with versions,
    the validation of services, the store of services with its cache of states. The client
    library of Elasticsearch is the locale \<open>elastic\<close>, interpreted on documents in memory.
  \<^item> \<open>Service_Tree\<close> (\<^verbatim>\<open>domain/service/walk.go\<close>, \<^verbatim>\<open>facade/service.go\<close>): walks over the tree. What
    a walk reads is the locale \<open>service_reads\<close>, which the store provides.
  \<^item> \<open>Service_Paths\<close> (\<^verbatim>\<open>facade/servicepath_cache.go\<close>): the cache of tenants and paths.
  \<^item> \<open>Address_Assignments\<close> (\<^verbatim>\<open>domain/addressassignment\<close>, \<^verbatim>\<open>facade/addressassignment.go\<close>,
    \<^verbatim>\<open>facade/service.go\<close>): which endpoint has which address and port of a pool. Pools, hosts,
    ids and random numbers are the locale \<open>address_sources\<close>.
  \<^item> \<open>Facade_Services\<close> (\<^verbatim>\<open>facade/service.go\<close>): validating, adding, updating and removing
    services, as steps with errors over the store and the cache of paths. The coordinator,
    configuration files, mounts and the image registry are the locale \<open>facade_env\<close>.

  \<^bold>\<open>What is shown.\<close> Of batches: grouping, order by start level or emergency level, and when
  merging panics. Of queues: what reconciliation keeps, drops and cancels, that merging
  keeps every service and the order, that in every reachable state a service is queued at
  most once and in the queue of its kind, that loops drain their queue, and the one
  interleaving in which a wake-up is lost. Of placement: every strategy meets one contract,
  which host it prefers, that the leader only uses authenticated hosts and respects address
  assignments, where the percentages round and where they wrap. Of interval trees: insertion
  refines set union for ranges that meet one range, and breaks otherwise; counting,
  membership, balancing. Of the coordinator: a recursive delete removes the subtree and
  nothing else. Of instances: their names can be read back, the operations on three nodes
  refine operations on one table with every failure of the server included, all three nodes
  exist or none, cleaning keeps what is complete. Of the service listener: it starts exactly
  the lowest free instance numbers and stops exactly the highest, and synchronising leaves
  exactly the given services. Of the host listener: no container is lost as long as
  operations do not overlap and stops succeed, no operation waits forever, a turn reaches the
  desired state of its instance and touches no other; and the interleaving with a shutdown
  that does leave a container behind. Of virtual addresses: an address has one host at most,
  whatever the server loses; a round of the synchroniser frees what is no longer wanted. Of
  hosts and pools: synchronising leaves exactly the given ones, removing a host waits for its
  instances, the services of a pool are locked all or none. On the host: no address that is
  bound is forgotten while the listener runs, and binding and releasing reach the interface.
  Of the registry: the instances of a host are removed only when the host has been away for
  twice the timeout of its pool since the outage was noticed and another host is online, and
  instances of other hosts are never touched. Of the listener loop: each child has one
  goroutine at most, and a shutdown ends. Of the circular buffer: reads return the last bytes written, in order. Of image
  names: what parses is well formed, printing and parsing are inverse, and which names two
  grammars disagree on. Of the store: it is a table of services with their states, and no
  update of a service is lost. Of walks: a walk visits a subtree once, children first, and
  returns on every tree. Of the cache of paths: it answers what the tree says, but keeps old
  names after a rename. Of addresses: no address and port of a pool has two endpoints, and an
  assignment that succeeds covers all endpoints with one address that the pool offers. Of the
  requests: names of siblings stay distinct, and a removal removes exactly a subtree.

  \<^bold>\<open>Conventions.\<close> A Go map is a list whose order is one iteration order, and the theorems
  hold for every list. A function that runs under a lock is one step. Strings are ASCII.
  Go's \<^verbatim>\<open>int\<close> is an unbounded integer where the code only compares and counts instances,
  and a 64-bit word where it computes with sizes. The clock is an argument, a timer is the
  time at which it is due, and a random number is an argument. The recursion of
  the recursive delete follows the tree on the server; its depth is bounded by \<open>c_stack\<close>,
  and the theorem on it says that a stack as deep as the tree is enough. The depth of a walk
  over services and of the climb to the root is an argument; a stack deeper than the number
  of services is enough when the tree has no cycle, and on a cycle neither returns. A search
  sees what was written before it. A request to the facade is one step; where the code only
  holds a lock for reading, two requests can overlap, and then the theorems do not apply. All other loops are
  structural recursions or have a termination proof; the loops that run forever (queue
  loops, the rounds of the listeners) are steps of a relation or single rounds. A receive
  from a channel that may never deliver gives an option, and the theorems on the host
  listener prove that it does deliver.

  \<^bold>\<open>Not modelled.\<close> The ZooKeeper server and its client library, the search server, the container
  engine, the \<^verbatim>\<open>ip\<close> command with the parsing of its output, and authentication are
  parameters. A watch is the state that the next round of a loop reads, not a channel.
  Registering a host as an ephemeral node, leader election and the pool of connections are
  left out: they are concurrency of the client library. The command line, the web interface,
  storage drivers, containers, image registries, metrics and logging are input and output
  around this core. Of the facade, templates, configuration files, monitoring profiles,
  migration and backups are left out, and the operations on hosts and pools beyond what the
  scheduler does with them in the coordinator.
\<close>

end
